(* ===== verification/Voidinfer_Prelude.thy ===== *)
theory Voidinfer_Prelude
  imports Main "HOL-Library.Word"
begin

text \<open>
  Shared vocabulary of the development: the exceptions of the C++ sources as values, the machine
  integer types, lemmas on words and lists that several components use, and the locales that state
  the contracts common to the components:

  \<^item> \<open>call_system\<close>: an object whose public calls all keep an invariant;
  \<^item> \<open>generation_system\<close>: a \<open>call_system\<close> with a generation number that no call decreases;
  \<^item> \<open>credential_system\<close>: a \<open>generation_system\<close> that issues credentials (tickets, leases, views)
    carrying the generation they were issued at;
  \<^item> \<open>sticky_system\<close>: a \<open>call_system\<close> with a set of terminal states no call leaves.

  A member function that may throw returns a value of \<open>exn + 'a\<close>. Each source function modelled this
  way checks before it writes, so \<open>Inl e\<close> means that the object is unchanged; a function that writes
  before it throws returns the changed object in both cases. The texts of the exceptions are not
  modelled, their types are.
\<close>

section \<open>Exceptions and machine integers\<close>

datatype exn =
    Invalid_argument
  | Logic_error
  | Length_error
  | Overflow_error
  | Out_of_range
  | Runtime_error
  | Bad_alloc
  | Api_exception

type_synonym u8 = "8 word"
type_synonym u32 = "32 word"
type_synonym u64 = "64 word"

abbreviation UINT64_MAX :: u64 where
  "UINT64_MAX \<equiv> - 1"

definition INT32_MAX :: int where
  "INT32_MAX = 2147483647"

text \<open>The value of a call that may throw, and the object after it.\<close>

definition ok :: "exn + 'a \<Rightarrow> bool" where
  "ok r = (case r of Inl _ \<Rightarrow> False | Inr _ \<Rightarrow> True)"

definition after :: "'s \<Rightarrow> exn + 's \<Rightarrow> 's" where
  "after s r = (case r of Inl _ \<Rightarrow> s | Inr s' \<Rightarrow> s')"

lemma ok_simps [simp]: "ok (Inl e) = False" "ok (Inr x) = True"
  by (simp_all add: ok_def)

lemma after_simps [simp]: "after s (Inl e) = s" "after s (Inr s') = s'"
  by (simp_all add: after_def)

lemma after_if [simp]: "after s (if b then x else y) = (if b then after s x else after s y)"
  by simp

lemma sum_if_Inl [simp]:
  "((if b then Inl e else r) = Inr x) \<longleftrightarrow> \<not> b \<and> r = Inr x"
  by auto

text \<open>
  A \<open>std::shared_ptr\<close>: empty, non-null without an owner (the aliasing constructor on an empty pointer,
  for which \<open>use_count()\<close> is zero), or owning the object \<open>x\<close>. The sources refuse the first two forms
  alike wherever they need an owner.
\<close>

datatype 'a shared_ptr = Null | Unowned 'a | Owned 'a

definition has_owner :: "'a shared_ptr \<Rightarrow> bool" where
  "has_owner p = (case p of Owned _ \<Rightarrow> True | _ \<Rightarrow> False)"

lemma has_owner_simps [simp]:
  "\<not> has_owner Null" "\<not> has_owner (Unowned x)" "has_owner (Owned x)"
  by (simp_all add: has_owner_def)

lemma has_owner_iff: "has_owner p \<longleftrightarrow> (\<exists>x. p = Owned x)"
  by (cases p) auto

text \<open>
  The control block of a pointer, and the equivalence that \<open>owner_before\<close> induces: two pointers are
  equivalent when they have the same control block, or none.
\<close>

definition control_of :: "'a shared_ptr \<Rightarrow> 'a option" where
  "control_of p = (case p of Owned x \<Rightarrow> Some x | _ \<Rightarrow> None)"

definition non_null :: "'a shared_ptr \<Rightarrow> bool" where
  "non_null p = (case p of Null \<Rightarrow> False | _ \<Rightarrow> True)"

text \<open>A pointer to \<open>const void\<close>, over the identities of control blocks.\<close>

type_synonym void_ptr = "nat shared_ptr"

lemma control_of_simps [simp]:
  "control_of Null = None" "control_of (Unowned x) = None" "control_of (Owned x) = Some x"
  by (simp_all add: control_of_def)

lemma non_null_simps [simp]: "\<not> non_null Null" "non_null (Unowned x)" "non_null (Owned x)"
  by (simp_all add: non_null_def)

section \<open>Words\<close>

lemma UINT64_MAX_unat: "unat UINT64_MAX = 2 ^ 64 - 1"
  by (simp add: unsigned_minus_1_eq_mask mask_eq_exp_minus_1)

lemma unat_inc:
  fixes w :: "'a::len word"
  assumes "w \<noteq> - 1"
  shows "unat (w + 1) = Suc (unat w)"
proof -
  have "w + 1 \<noteq> 0"
    using assms by (metis add_eq_0_iff2 minus_minus)
  then show ?thesis
    by (simp add: unatSuc add.commute [of w 1])
qed

lemma word_inc_neq:
  fixes w :: "'a::len word"
  assumes "w \<noteq> - 1"
  shows "w + 1 \<noteq> 0" "w < w + 1"
  using unat_inc [OF assms] by (auto simp: word_less_nat_alt simp flip: unat_eq_zero)

text \<open>The overflow test of the sources, \<open>r > max - l\<close>, and the sum it guards.\<close>

lemma overflow_test:
  fixes l r :: "'a::len word"
  shows "- 1 - l < r \<longleftrightarrow> 2 ^ LENGTH('a) \<le> unat l + unat r"
proof -
  have le: "l \<le> - 1"
    by (simp add: word_order.extremum)
  have "unat (- 1 - l) = 2 ^ LENGTH('a) - 1 - unat l"
    using unat_sub [OF le] by (simp add: unsigned_minus_1_eq_mask mask_eq_exp_minus_1)
  moreover have "unat l < 2 ^ LENGTH('a)"
    by (rule unsigned_less)
  ultimately show ?thesis
    unfolding word_less_nat_alt by linarith
qed

lemma unat_add_checked:
  fixes l r :: "'a::len word"
  assumes "\<not> - 1 - l < r"
  shows "unat (l + r) = unat l + unat r"
  using assms unat_add_lem [of l r] unfolding overflow_test by simp

text \<open>The power-of-two test of the sources, \<open>v & (v - 1)\<close>.\<close>

unbundle bit_operations_syntax

lemma nat_power_of_two:
  fixes n :: nat
  assumes "0 < n" "n AND (n - 1) = 0"
  shows "\<exists>k. n = 2 ^ k"
  using assms
proof (induction n rule: less_induct)
  case (less n)
  show ?case
  proof (cases "even n")
    case True
    then obtain m where m: "n = 2 * m"
      by blast
    then have "(n - 1) div 2 = m - 1"
      using less.prems(1) by simp
    then have "m AND (m - 1) = 0"
      using less.prems(2) and_nat_rec [of n "n - 1"] m by simp
    then obtain k where "m = 2 ^ k"
      using less.IH [of m] less.prems(1) m by auto
    then show ?thesis
      using m by (metis power_Suc)
  next
    case False
    then obtain m where m: "n = 2 * m + 1"
      by (blast elim: oddE)
    then have "m = 0"
      using less.prems(2) and_nat_rec [of n "n - 1"] by simp
    then show ?thesis
      using m by (auto intro: exI [of _ 0])
  qed
qed

lemma word_power_of_two:
  fixes v :: u64
  assumes v: "v \<noteq> 0" "v AND (v - 1) = 0"
  shows "\<exists>k < 64. v = 2 ^ k \<and> unat v = 2 ^ k"
proof -
  have "unat (v AND (v - 1)) = unat v AND (unat v - 1)"
    unfolding unsigned_and_eq by (simp only: unat_minus_one [OF v(1)])
  then obtain k where k: "unat v = 2 ^ k"
    using nat_power_of_two [of "unat v"] v by (auto simp: unat_gt_0)
  have "(2 :: nat) ^ k < 2 ^ 64"
    using unsigned_less [of v, where 'a = nat] by (simp add: k)
  then have "k < 64"
    by (rule power_less_imp_less_exp [rotated]) simp
  moreover have "v = 2 ^ k"
  proof -
    have "v = of_nat (unat v)"
      by simp
    then show ?thesis
      by (simp only: k of_nat_power of_nat_numeral)
  qed
  ultimately show ?thesis
    using k by blast
qed

section \<open>Lists\<close>

lemma fold_invariant:
  assumes "P s" and "\<And>c s. P s \<Longrightarrow> P (f c s)"
  shows "P (fold f cs s)"
  using assms(1) by (induction cs arbitrary: s) (simp_all add: assms(2))

text \<open>A loop that rewrites array slots, each from its own old value and at most once.\<close>

lemma fold_update_length [simp]:
  "length (fold (\<lambda>i xs. xs[i := f i (xs ! i)]) is xs) = length xs"
  by (induction "is" arbitrary: xs) simp_all

lemma fold_update_nth:
  assumes "distinct is" "j < length xs"
  shows "fold (\<lambda>i xs. xs[i := f i (xs ! i)]) is xs ! j = (if j \<in> set is then f j (xs ! j) else xs ! j)"
  using assms
proof (induction "is" arbitrary: xs)
  case Nil
  then show ?case by simp
next
  case (Cons a as)
  then show ?case
    by (cases "a = j") auto
qed

text \<open>Index of the first element with a property, as a linear search over an array returns it.\<close>

fun find_index :: "('a \<Rightarrow> bool) \<Rightarrow> 'a list \<Rightarrow> nat option" where
  "find_index P [] = None"
| "find_index P (x # xs) = (if P x then Some 0 else map_option Suc (find_index P xs))"

lemma find_index_None [simp]: "find_index P xs = None \<longleftrightarrow> (\<forall>x \<in> set xs. \<not> P x)"
  by (induction xs) auto

lemma find_index_Some:
  "find_index P xs = Some i \<longleftrightarrow> i < length xs \<and> P (xs ! i) \<and> (\<forall>j < i. \<not> P (xs ! j))"
proof (induction xs arbitrary: i)
  case Nil
  then show ?case by simp
next
  case (Cons x xs)
  show ?case
  proof (cases i)
    case 0
    then show ?thesis by auto
  next
    case (Suc k)
    then show ?thesis
      using Cons.IH [of k] by (auto simp: less_Suc_eq_0_disj)
  qed
qed

lemma find_index_SomeD:
  assumes "find_index P xs = Some i"
  shows "i < length xs" "P (xs ! i)"
  using assms by (auto simp: find_index_Some)

text \<open>A table of slots whose nonzero keys are pairwise different; zero marks a free slot.\<close>

definition unique_keys :: "('a \<Rightarrow> 'k::zero) \<Rightarrow> 'a list \<Rightarrow> bool" where
  "unique_keys f xs \<longleftrightarrow>
     (\<forall>i < length xs. \<forall>j < length xs. f (xs ! i) = f (xs ! j) \<longrightarrow> f (xs ! i) \<noteq> 0 \<longrightarrow> i = j)"

lemma unique_keys_update:
  assumes "unique_keys f xs" "f x = f (xs ! k)"
  shows "unique_keys f (xs[k := x])"
proof (cases "k < length xs")
  case True
  then have "f (xs[k := x] ! i) = f (xs ! i)" if "i < length xs" for i
    using assms(2) that by (simp add: nth_list_update)
  then show ?thesis
    using assms(1) by (simp add: unique_keys_def)
qed (use assms(1) in \<open>simp add: not_less list_update_beyond\<close>)

lemma unique_keys_fresh:
  assumes "unique_keys f xs" "f x \<notin> f ` set xs"
  shows "unique_keys f (xs[k := x])"
proof -
  have "f (xs ! i) \<noteq> f x" "f x \<noteq> f (xs ! i)" if "i < length xs" for i
    using assms(2) that by (metis image_eqI nth_mem)+
  then show ?thesis
    using assms(1) unfolding unique_keys_def length_list_update
    by (metis nth_list_update_eq nth_list_update_neq)
qed

lemma keys_update_superset:
  assumes "f (xs ! k) = z"
  shows "f ` set xs \<subseteq> insert z (f ` set (xs[k := x]))"
proof (intro image_subsetI)
  fix y assume "y \<in> set xs"
  then obtain i where "i < length xs" "y = xs ! i"
    by (auto simp: in_set_conv_nth)
  then show "f y \<in> insert z (f ` set (xs[k := x]))"
    using assms by (cases "i = k") (auto simp: in_set_conv_nth intro!: image_eqI exI [of _ i])
qed

lemma find_unique_key:
  assumes "unique_keys f xs" "k < length xs" "f (xs ! k) \<noteq> 0"
  shows "find_index (\<lambda>x. f x = f (xs ! k)) xs = Some k"
  using assms unfolding find_index_Some unique_keys_def by (metis order.strict_trans nat_neq_iff)

text \<open>
  A ring buffer: an array of \<open>cap\<close> slots in which element number \<open>i\<close> of the stream is stored at
  \<open>i mod cap\<close>, so that the last \<open>cap\<close> elements are present.
\<close>

definition ring_rep :: "nat \<Rightarrow> 'a list \<Rightarrow> 'a list \<Rightarrow> bool" where
  "ring_rep cap buf xs \<longleftrightarrow> length buf = cap \<and>
     (\<forall>i < length xs. length xs \<le> i + cap \<longrightarrow> buf ! (i mod cap) = xs ! i)"

lemma ring_rep_Nil [simp]: "ring_rep cap buf [] \<longleftrightarrow> length buf = cap"
  by (simp add: ring_rep_def)

lemma ring_slot_neq:
  assumes "(i :: nat) < n" "n < i + cap"
  shows "i mod cap \<noteq> n mod cap"
proof
  assume "i mod cap = n mod cap"
  then have "cap dvd n - i"
    using assms(1) mod_eq_dvd_iff_nat [of i n cap] by simp
  then show False
    using assms by (auto dest: dvd_imp_le)
qed

lemma ring_append:
  assumes "ring_rep cap buf xs" "0 < cap"
  shows "ring_rep cap (buf[length xs mod cap := x]) (xs @ [x])"
  unfolding ring_rep_def
proof (intro conjI allI impI)
  fix i assume i: "i < length (xs @ [x])" "length (xs @ [x]) \<le> i + cap"
  show "buf[length xs mod cap := x] ! (i mod cap) = (xs @ [x]) ! i"
  proof (cases "i = length xs")
    case True
    then show ?thesis
      using assms by (simp add: ring_rep_def)
  next
    case False
    then have "i mod cap \<noteq> length xs mod cap"
      using i by (intro ring_slot_neq) simp_all
    then show ?thesis
      using assms(1) i False by (simp add: ring_rep_def nth_append)
  qed
qed (use assms in \<open>simp add: ring_rep_def\<close>)

section \<open>Contracts shared by the components\<close>

locale call_system =
  fixes step :: "'c \<Rightarrow> 's \<Rightarrow> 's"
    and inv :: "'s \<Rightarrow> bool"
  assumes step_inv: "inv s \<Longrightarrow> inv (step c s)"
begin

lemma run_inv: "inv s \<Longrightarrow> inv (fold step cs s)"
  by (rule fold_invariant) (simp_all add: step_inv)

end

locale generation_system = call_system +
  fixes gen :: "'b \<Rightarrow> nat"
  assumes step_gen: "inv s \<Longrightarrow> gen s \<le> gen (step c s)"
begin

lemma run_gen: "inv s \<Longrightarrow> gen s \<le> gen (fold step cs s)"
proof (induction cs arbitrary: s)
  case Nil
  then show ?case by simp
next
  case (Cons c cs)
  from Cons.prems have "gen s \<le> gen (step c s)" by (rule step_gen)
  also have "\<dots> \<le> gen (fold step cs (step c s))"
    using Cons.prems by (intro Cons.IH step_inv)
  finally show ?case by simp
qed

end

locale credential_system = generation_system +
  fixes current :: "'t \<Rightarrow> 'b \<Rightarrow> bool"
    and issued :: "'t \<Rightarrow> nat"
  assumes current_issued: "inv s \<Longrightarrow> current t s \<Longrightarrow> issued t = gen s"
begin

text \<open>A credential of an earlier generation is refused in every later state.\<close>

lemma stale_forever:
  assumes "inv s" and "issued t < gen s"
  shows "\<not> current t (fold step cs s)"
proof
  assume "current t (fold step cs s)"
  moreover have "inv (fold step cs s)"
    using assms(1) by (rule run_inv)
  ultimately have "issued t = gen (fold step cs s)"
    by (intro current_issued)
  then show False
    using run_gen [OF assms(1), of cs] assms(2) by simp
qed

text \<open>At most one generation is honoured at a time.\<close>

lemma current_unique:
  "inv s \<Longrightarrow> current t s \<Longrightarrow> current u s \<Longrightarrow> issued t = issued u"
  by (simp add: current_issued)

end

locale sticky_system = call_system +
  fixes terminal :: "'b \<Rightarrow> bool"
  assumes step_terminal: "inv s \<Longrightarrow> terminal s \<Longrightarrow> terminal (step c s)"
begin

lemma run_terminal: "inv s \<Longrightarrow> terminal s \<Longrightarrow> terminal (fold step cs s)"
proof -
  assume "inv s" "terminal s"
  then have "inv (fold step cs s) \<and> terminal (fold step cs s)"
    by (intro fold_invariant [where P = "\<lambda>s. inv s \<and> terminal s"])
      (auto intro: step_inv step_terminal)
  then show ?thesis ..
qed

end

section \<open>Selection loops\<close>

text \<open>
  The loop that keeps the best eligible element seen so far, replacing it only by a strictly better
  one. \<open>selection\<close> is the contract of the comparison: a strict weak order.
\<close>

definition select_step :: "('a \<Rightarrow> bool) \<Rightarrow> ('a \<Rightarrow> 'a \<Rightarrow> bool) \<Rightarrow> 'a \<Rightarrow> 'a option \<Rightarrow> 'a option" where
  "select_step eligible better c sel =
     (if \<not> eligible c then sel
      else case sel of None \<Rightarrow> Some c | Some s \<Rightarrow> if better c s then Some c else Some s)"

lemma select_step_simps [simp]:
  "\<not> eligible c \<Longrightarrow> select_step eligible better c sel = sel"
  "eligible c \<Longrightarrow> select_step eligible better c None = Some c"
  "eligible c \<Longrightarrow> better c s \<Longrightarrow> select_step eligible better c (Some s) = Some c"
  "\<not> better c s \<Longrightarrow> select_step eligible better c (Some s) = Some s"
  by (simp_all add: select_step_def)

text \<open>\<open>s\<close> stands in the list and strictly beats every eligible element before it.\<close>

definition ahead :: "('a \<Rightarrow> bool) \<Rightarrow> ('a \<Rightarrow> 'a \<Rightarrow> bool) \<Rightarrow> 'a list \<Rightarrow> 'a \<Rightarrow> bool" where
  "ahead eligible better cs s \<longleftrightarrow>
     (\<exists>as bs. cs = as @ s # bs \<and> (\<forall>c \<in> set as. eligible c \<longrightarrow> better s c))"

lemma ahead_in_set: "ahead eligible better cs s \<Longrightarrow> s \<in> set cs"
  by (auto simp: ahead_def)

lemma ahead_here: "ahead eligible better (s # cs) s"
  unfolding ahead_def by (intro exI [of _ "[]"] exI [of _ cs]) simp

lemma ahead_Cons:
  assumes "ahead eligible better cs s" "eligible c \<Longrightarrow> better s c"
  shows "ahead eligible better (c # cs) s"
proof -
  obtain as bs where "cs = as @ s # bs" "\<forall>c \<in> set as. eligible c \<longrightarrow> better s c"
    using assms(1) unfolding ahead_def by blast
  then show ?thesis
    using assms(2) unfolding ahead_def by (intro exI [of _ "c # as"] exI [of _ bs]) simp
qed

locale selection =
  fixes better :: "'a \<Rightarrow> 'a \<Rightarrow> bool"
  assumes asymmetric: "better a b \<Longrightarrow> \<not> better b a"
    and negatively_transitive: "\<not> better a b \<Longrightarrow> \<not> better b c \<Longrightarrow> \<not> better a c"
begin

lemma irreflexive: "\<not> better a a"
  using asymmetric by blast

lemma better_trans: "better a b \<Longrightarrow> \<not> better c b \<Longrightarrow> better a c"
  using negatively_transitive by blast

lemma select_from:
  assumes "fold (select_step eligible better) cs (Some s0) = Some s"
  shows "\<not> better s0 s \<and> (\<forall>c \<in> set cs. eligible c \<longrightarrow> \<not> better c s) \<and>
    (s = s0 \<or> eligible s \<and> better s s0 \<and> ahead eligible better cs s)"
  using assms
proof (induction cs arbitrary: s0)
  case Nil
  then show ?case by (simp add: irreflexive)
next
  case (Cons c cs)
  show ?case
  proof (cases "eligible c \<and> better c s0")
    case True
    then have "fold (select_step eligible better) cs (Some c) = Some s"
      using Cons.prems by simp
    note IH = Cons.IH [OF this]
    have "\<not> better s0 s" "better s s0"
      using IH True asymmetric negatively_transitive by blast+
    moreover have "ahead eligible better (c # cs) s"
      using IH by (cases "s = c") (simp_all add: ahead_here ahead_Cons)
    ultimately show ?thesis
      using IH True by auto
  next
    case False
    then have "fold (select_step eligible better) cs (Some s0) = Some s"
      using Cons.prems by auto
    note IH = Cons.IH [OF this]
    have "\<not> better c s" if "eligible c"
      using IH False that negatively_transitive by blast
    moreover have "ahead eligible better (c # cs) s" if "s \<noteq> s0"
      using IH that False better_trans by (intro ahead_Cons) blast+
    ultimately show ?thesis
      using IH by auto
  qed
qed

lemma select_from_defined: "\<exists>s. fold (select_step eligible better) cs (Some s0) = Some s"
proof (induction cs arbitrary: s0)
  case (Cons c cs)
  then show ?case
    by (cases "eligible c"; cases "better c s0") simp_all
qed simp

text \<open>
  The loop from the start: nothing eligible gives nothing; otherwise the result ties with or beats
  every eligible element and strictly beats the ones before it.
\<close>

lemma select_None:
  "fold (select_step eligible better) cs None = None \<longleftrightarrow> (\<forall>c \<in> set cs. \<not> eligible c)"
proof (induction cs)
  case (Cons c cs)
  then show ?case
    using select_from_defined [of eligible cs c] by (cases "eligible c") auto
qed simp

lemma select_Some:
  assumes "fold (select_step eligible better) cs None = Some s"
  shows "eligible s \<and> (\<forall>c \<in> set cs. eligible c \<longrightarrow> \<not> better c s) \<and> ahead eligible better cs s"
  using assms
proof (induction cs)
  case (Cons c cs)
  show ?case
  proof (cases "eligible c")
    case True
    then have "fold (select_step eligible better) cs (Some c) = Some s"
      using Cons.prems by simp
    then show ?thesis
      using select_from [of eligible cs c s] True
      by (cases "s = c") (auto simp: ahead_here ahead_Cons)
  next
    case False
    then show ?thesis
      using Cons by (auto intro: ahead_Cons)
  qed
qed simp

end

text \<open>In a loop over the indices, what comes before an index are the smaller indices.\<close>

lemma ahead_upt:
  assumes "ahead eligible better [0..<n] i"
  shows "i < n \<and> (\<forall>j < i. eligible j \<longrightarrow> better i j)"
proof -
  obtain as bs where split: "[0..<n] = as @ i # bs" and before: "\<forall>c \<in> set as. eligible c \<longrightarrow> better i c"
    using assms unfolding ahead_def by blast
  have len: "n = length as + Suc (length bs)"
    using arg_cong [OF split, of length] by simp
  have "([0..<n]) ! length as = i"
    unfolding split by simp
  then have i: "i = length as"
    using len nth_upt [of 0 "length as" n] by (simp del: upt.simps)
  have "take (length as) [0..<n] = as"
    unfolding split by simp
  then have "set as = {0..<i}"
    using len i by (metis add_0 le_add1 set_upt take_upt)
  then show ?thesis
    using before len i by simp
qed

end
