(* ===== verification/Retirement.thy ===== *)
theory Retirement
  imports Voidinfer_Prelude
begin

text \<open>
  Model of \<open>src/exl3/retirement_state.h\<close>.

  \<^item> \<open>Exl3RetirementState\<close>: the sticky outcome of draining an Engine bundle. Its calls are \<open>begin\<close>,
    \<open>complete\<close> and \<open>observe_cleanup_failure\<close>; a state is the \<open>Exl3RetirementResult\<close> it holds.
  \<^item> \<open>Exl3FinalUseWitness\<close>: the record of the last use of an event by a retained physical lane.

  The theorems: an uncertain drain or a failed cleanup is never overwritten by a later success
  (interpretation of \<open>sticky_system\<close>), a bundle is reusable exactly when its calls
  reported a drain without error and no cleanup error, and a final-use generation, once superseded, is never accepted again (interpretation of
  \<open>credential_system\<close>).
\<close>

section \<open>Exl3RetirementState\<close>

datatype retirement_phase = active | draining | retired | quarantined

record retirement_result =
  rr_phase :: retirement_phase
  first_drain_error :: int
  prior_execution_failure :: bool
  pending_stream_destructions :: u32
  first_cleanup_error :: int

definition retirement_init :: retirement_result where
  "retirement_init = \<lparr>rr_phase = active, first_drain_error = 0, prior_execution_failure = False,
     pending_stream_destructions = 0, first_cleanup_error = 0\<rparr>"

definition reusable :: "retirement_result \<Rightarrow> bool" where
  "reusable r \<longleftrightarrow> rr_phase r = retired"

definition retirement_begin :: "bool \<Rightarrow> retirement_result \<Rightarrow> bool \<times> retirement_result" where
  "retirement_begin prior_failure r =
     (if rr_phase r \<noteq> active then (False, r)
      else (True, r\<lparr>rr_phase := draining, prior_execution_failure := prior_failure\<rparr>))"

definition retirement_complete :: "int \<Rightarrow> retirement_result \<Rightarrow> retirement_result" where
  "retirement_complete error r =
     (if rr_phase r \<noteq> draining then r
      else if error \<noteq> 0 then r\<lparr>first_drain_error := error, rr_phase := quarantined\<rparr>
      else r\<lparr>rr_phase := retired\<rparr>)"

definition observe_cleanup_failure :: "int \<Rightarrow> retirement_result \<Rightarrow> retirement_result" where
  "observe_cleanup_failure error r =
     (if error = 0 then r
      else (if first_cleanup_error r = 0 then r\<lparr>first_cleanup_error := error\<rparr> else r)
             \<lparr>rr_phase := quarantined\<rparr>)"

datatype retirement_call =
    RBegin bool
  | RComplete int
  | RObserveCleanupFailure int

fun retirement_step :: "retirement_call \<Rightarrow> retirement_result \<Rightarrow> retirement_result" where
  "retirement_step (RBegin f) r = snd (retirement_begin f r)"
| "retirement_step (RComplete e) r = retirement_complete e r"
| "retirement_step (RObserveCleanupFailure e) r = observe_cleanup_failure e r"

lemmas retirement_defs =
  retirement_begin_def retirement_complete_def observe_cleanup_failure_def

text \<open>The recorded errors and the phase agree.\<close>

definition retirement_inv :: "retirement_result \<Rightarrow> bool" where
  "retirement_inv r \<longleftrightarrow>
     (first_drain_error r \<noteq> 0 \<longrightarrow> rr_phase r = quarantined) \<and>
     (first_cleanup_error r \<noteq> 0 \<longrightarrow> rr_phase r = quarantined) \<and>
     (rr_phase r = quarantined \<longrightarrow> first_drain_error r \<noteq> 0 \<or> first_cleanup_error r \<noteq> 0)"

lemma retirement_init_inv: "retirement_inv retirement_init"
  by (simp add: retirement_inv_def retirement_init_def)

lemma retirement_step_inv: "retirement_inv r \<Longrightarrow> retirement_inv (retirement_step c r)"
  by (cases c) (auto simp: retirement_inv_def retirement_defs)

interpretation retirement: sticky_system retirement_step retirement_inv
  "\<lambda>r. rr_phase r = quarantined"
proof unfold_locales
  fix r c assume "retirement_inv r"
  then show "retirement_inv (retirement_step c r)" by (rule retirement_step_inv)
next
  fix r c assume "retirement_inv r" "rr_phase r = quarantined"
  then show "rr_phase (retirement_step c r) = quarantined"
    by (cases c) (auto simp: retirement_defs)
qed

section \<open>What a history of calls has observed\<close>

text \<open>
  The histories are read without the object. \<open>cleanup_errors\<close> are the errors reported by \<open>observe_cleanup_failure\<close>,
  \<open>drain_result\<close> is the error code of the first \<open>complete\<close> after the first \<open>begin\<close>, provided that no cleanup error came
  before it.
\<close>

fun cleanup_errors :: "retirement_call list \<Rightarrow> int list" where
  "cleanup_errors [] = []"
| "cleanup_errors (RObserveCleanupFailure e # cs) = (if e = 0 then cleanup_errors cs else e # cleanup_errors cs)"
| "cleanup_errors (_ # cs) = cleanup_errors cs"

fun begun_result :: "retirement_call list \<Rightarrow> int option" where
  "begun_result [] = None"
| "begun_result (RBegin _ # cs) = begun_result cs"
| "begun_result (RComplete e # cs) = Some e"
| "begun_result (RObserveCleanupFailure e # cs) = (if e = 0 then begun_result cs else None)"

fun drain_result :: "retirement_call list \<Rightarrow> int option" where
  "drain_result [] = None"
| "drain_result (RBegin _ # cs) = begun_result cs"
| "drain_result (RComplete _ # cs) = drain_result cs"
| "drain_result (RObserveCleanupFailure e # cs) = (if e = 0 then drain_result cs else None)"

definition first_of :: "int list \<Rightarrow> int" where
  "first_of es = (case es of [] \<Rightarrow> 0 | e # _ \<Rightarrow> e)"

definition drain_error :: "retirement_call list \<Rightarrow> int" where
  "drain_error cs = (case drain_result cs of None \<Rightarrow> 0 | Some e \<Rightarrow> e)"

definition observed_error :: "retirement_call list \<Rightarrow> bool" where
  "observed_error cs \<longleftrightarrow> drain_error cs \<noteq> 0 \<or> (\<exists>e. e \<noteq> 0 \<and> RObserveCleanupFailure e \<in> set cs)"

lemmas history_defs = first_of_def drain_error_def reusable_def retirement_defs

lemma cleanup_errors_Nil: "cleanup_errors cs = [] \<longleftrightarrow> (\<forall>e. RObserveCleanupFailure e \<in> set cs \<longrightarrow> e = 0)"
  by (induction cs rule: cleanup_errors.induct) auto

lemma cleanup_errors_append [simp]: "cleanup_errors (cs @ ds) = cleanup_errors cs @ cleanup_errors ds"
  by (induction cs rule: cleanup_errors.induct) auto

lemma observed_error_iff: "observed_error cs \<longleftrightarrow> drain_error cs \<noteq> 0 \<or> cleanup_errors cs \<noteq> []"
  by (auto simp: observed_error_def cleanup_errors_Nil)

lemma begun_result_append:
  "begun_result (cs @ ds) = (if begun_result cs = None \<and> cleanup_errors cs = [] then begun_result ds else begun_result cs)"
  by (induction cs rule: begun_result.induct) auto

lemma drain_result_settled:
  "drain_result cs \<noteq> None \<or> cleanup_errors cs \<noteq> [] \<Longrightarrow> drain_result (cs @ ds) = drain_result cs"
  by (induction cs rule: drain_result.induct) (auto simp: begun_result_append)

text \<open>The object after a history, from each phase in which calls still have an effect.\<close>

lemma quarantined_run:
  "rr_phase r = quarantined \<Longrightarrow> rr_phase (fold retirement_step cs r) = quarantined \<and>
    first_drain_error (fold retirement_step cs r) = first_drain_error r \<and>
    first_cleanup_error (fold retirement_step cs r) =
      (if first_cleanup_error r = 0 then first_of (cleanup_errors cs) else first_cleanup_error r)"
  by (induction cs arbitrary: r rule: cleanup_errors.induct) (auto simp: history_defs)

lemma retired_run:
  "rr_phase r = retired \<Longrightarrow> first_cleanup_error r = 0 \<Longrightarrow>
    rr_phase (fold retirement_step cs r) = (if cleanup_errors cs = [] then retired else quarantined) \<and>
    first_drain_error (fold retirement_step cs r) = first_drain_error r \<and>
    first_cleanup_error (fold retirement_step cs r) = first_of (cleanup_errors cs)"
proof (induction cs arbitrary: r)
  case (Cons c cs)
  then show ?case
    using quarantined_run [of "retirement_step c r" cs] by (cases c) (auto simp: history_defs)
qed (simp add: first_of_def)

lemma draining_run:
  assumes "rr_phase r = draining" "first_cleanup_error r = 0" "first_drain_error r = 0"
  shows "(rr_phase (fold retirement_step cs r) = retired \<longleftrightarrow> begun_result cs = Some 0 \<and> cleanup_errors cs = []) \<and>
    first_drain_error (fold retirement_step cs r) = (case begun_result cs of None \<Rightarrow> 0 | Some e \<Rightarrow> e) \<and>
    first_cleanup_error (fold retirement_step cs r) = first_of (cleanup_errors cs)"
  using assms
proof (induction cs arbitrary: r)
  case (Cons c cs)
  show ?case
  proof (cases "rr_phase (retirement_step c r) = draining")
    case True
    then show ?thesis
      using Cons.IH [OF True] Cons.prems by (cases c) (auto simp: history_defs split: if_splits)
  next
    case False
    then show ?thesis
      using Cons.prems quarantined_run [of "retirement_step c r" cs] retired_run [of "retirement_step c r" cs]
      by (cases c) (auto simp: history_defs split: if_splits)
  qed
qed (simp add: first_of_def)

lemma active_run:
  assumes "rr_phase r = active" "first_cleanup_error r = 0" "first_drain_error r = 0"
  shows "(reusable (fold retirement_step cs r) \<longleftrightarrow> drain_result cs = Some 0 \<and> cleanup_errors cs = []) \<and>
    first_drain_error (fold retirement_step cs r) = drain_error cs \<and>
    first_cleanup_error (fold retirement_step cs r) = first_of (cleanup_errors cs)"
  using assms
proof (induction cs arbitrary: r)
  case (Cons c cs)
  then show ?case
    using quarantined_run [of "retirement_step c r" cs] draining_run [of "retirement_step c r" cs]
    by (cases c) (auto simp: history_defs)
qed (simp add: history_defs)

text \<open>
  C1. Whatever calls \<open>cs\<close> were made on a new \<open>Exl3RetirementState\<close>: it is reusable exactly when the first \<open>complete\<close>
  after the first \<open>begin\<close> reported no error and no call reported a cleanup error; and it holds exactly the drain error
  and the first cleanup error that these calls reported. So once a call of \<open>cs\<close> has reported an error, no calls \<open>ds\<close>
  make the bundle reusable, and the errors held after \<open>cs\<close> are still held, except that a first cleanup error may be
  added.
\<close>

theorem uncertain_drain_is_sticky:
  "(reusable (fold retirement_step cs retirement_init) \<longleftrightarrow> drain_result cs = Some 0 \<and>
      (\<forall>e. RObserveCleanupFailure e \<in> set cs \<longrightarrow> e = 0)) \<and>
   first_drain_error (fold retirement_step cs retirement_init) = drain_error cs \<and>
   first_cleanup_error (fold retirement_step cs retirement_init) = first_of (cleanup_errors cs) \<and>
   (observed_error cs \<longrightarrow> \<not> reusable (fold retirement_step (cs @ ds) retirement_init) \<and>
      first_drain_error (fold retirement_step (cs @ ds) retirement_init) = drain_error cs \<and>
      first_cleanup_error (fold retirement_step (cs @ ds) retirement_init) = first_of (cleanup_errors cs @ cleanup_errors ds))"
proof -
  note run = active_run [of retirement_init, unfolded retirement_init_def, simplified, folded retirement_init_def]
  have "drain_result (cs @ ds) = drain_result cs \<and> (drain_result cs \<noteq> Some 0 \<or> cleanup_errors cs \<noteq> [])"
    if "observed_error cs"
    using that drain_result_settled [of cs ds] by (auto simp: observed_error_iff drain_error_def split: option.splits)
  then show ?thesis
    using run [of cs] run [of "cs @ ds"] by (auto simp: drain_error_def cleanup_errors_Nil [symmetric])
qed

theorem uncertain_drain_is_sticky_witness:
  "\<not> reusable (fold retirement_step ([RBegin True, RObserveCleanupFailure 7] @ [RComplete 0, RBegin False, RComplete 0]) retirement_init) \<and>
   first_cleanup_error (fold retirement_step ([RBegin True, RObserveCleanupFailure 7] @ [RComplete 0, RBegin False, RComplete 0]) retirement_init) = 7"
proof -
  have "observed_error [RBegin True, RObserveCleanupFailure 7]"
    by (auto simp: observed_error_def)
  then show ?thesis
    using uncertain_drain_is_sticky [of "[RBegin True, RObserveCleanupFailure 7]" "[RComplete 0, RBegin False, RComplete 0]"]
    by (simp add: first_of_def)
qed

section \<open>Exl3FinalUseWitness\<close>

record final_use =
  fu_acquisition :: u64
  fu_execution :: u64
  fu_generation :: u64
  fu_event :: u64
  fu_ready :: bool
  fu_error :: int

definition final_use_init :: final_use where
  "final_use_init = \<lparr>fu_acquisition = 0, fu_execution = 0, fu_generation = 0, fu_event = 0,
     fu_ready = False, fu_error = 0\<rparr>"

definition final_use_begin :: "u64 \<Rightarrow> u64 \<Rightarrow> u64 \<Rightarrow> final_use \<Rightarrow> exn + (u64 \<times> final_use)" where
  "final_use_begin acquisition execution event w =
     (if fu_error w \<noteq> 0 \<or> (fu_generation w \<noteq> 0 \<and> \<not> fu_ready w) \<or> acquisition = 0 \<or>
         execution = 0 \<or> event = 0 \<or> fu_generation w = UINT64_MAX
      then Inl Logic_error
      else Inr (fu_generation w + 1,
        w\<lparr>fu_acquisition := acquisition, fu_execution := execution, fu_event := event,
          fu_ready := False, fu_generation := fu_generation w + 1\<rparr>))"

definition final_use_finish :: "u64 \<Rightarrow> int \<Rightarrow> final_use \<Rightarrow> bool \<times> final_use" where
  "final_use_finish generation error w =
     (if generation \<noteq> fu_generation w \<or> generation = 0 \<or> fu_ready w \<or> fu_error w \<noteq> 0
      then (False, w)
      else (True, if error \<noteq> 0 then w\<lparr>fu_error := error\<rparr> else w\<lparr>fu_ready := True\<rparr>))"

definition finish_after_alternate_event ::
    "u64 \<Rightarrow> u64 \<Rightarrow> int \<Rightarrow> final_use \<Rightarrow> bool \<times> final_use" where
  "finish_after_alternate_event generation witnessed_event error w =
     (if generation \<noteq> fu_generation w \<or> generation = 0 \<or> witnessed_event = 0 \<or> fu_ready w \<or>
         fu_error w \<noteq> 0
      then (False, w)
      else (True, (if error \<noteq> 0 then (w\<lparr>fu_event := witnessed_event\<rparr>)\<lparr>fu_error := error\<rparr>
                   else (w\<lparr>fu_event := witnessed_event\<rparr>)\<lparr>fu_ready := True\<rparr>)))"

definition final_use_matches :: "u64 \<Rightarrow> u64 \<Rightarrow> u64 \<Rightarrow> final_use \<Rightarrow> bool" where
  "final_use_matches acquisition execution generation w \<longleftrightarrow>
     fu_ready w \<and> fu_error w = 0 \<and> acquisition = fu_acquisition w \<and>
     execution = fu_execution w \<and> generation = fu_generation w"

datatype final_use_call =
    FBegin u64 u64 u64
  | FFinish u64 int
  | FFinishAlternate u64 u64 int

fun final_use_step :: "final_use_call \<Rightarrow> final_use \<Rightarrow> final_use" where
  "final_use_step (FBegin a x e) w = after w (map_sum id snd (final_use_begin a x e w))"
| "final_use_step (FFinish g e) w = snd (final_use_finish g e w)"
| "final_use_step (FFinishAlternate g v e) w = snd (finish_after_alternate_event g v e w)"

lemmas final_use_defs =
  final_use_begin_def final_use_finish_def finish_after_alternate_event_def

definition final_use_inv :: "final_use \<Rightarrow> bool" where
  "final_use_inv w \<longleftrightarrow>
     \<not> (fu_ready w \<and> fu_error w \<noteq> 0) \<and>
     (fu_generation w = 0 \<longrightarrow> w = final_use_init) \<and>
     (fu_generation w \<noteq> 0 \<longrightarrow> fu_acquisition w \<noteq> 0 \<and> fu_execution w \<noteq> 0 \<and> fu_event w \<noteq> 0)"


lemma final_use_step_inv: "final_use_inv w \<Longrightarrow> final_use_inv (final_use_step c w)"
  by (cases c)
    (auto simp: final_use_inv_def final_use_defs word_inc_neq split: if_splits)

interpretation final_use: credential_system final_use_step final_use_inv
  "\<lambda>w. unat (fu_generation w)" "\<lambda>t w. final_use_matches (fst t) (fst (snd t)) (snd (snd t)) w"
  "\<lambda>t. unat (snd (snd t))"
proof unfold_locales
  fix w c assume "final_use_inv w"
  then show "final_use_inv (final_use_step c w)" by (rule final_use_step_inv)
next
  fix w c assume "final_use_inv w"
  show "unat (fu_generation w) \<le> unat (fu_generation (final_use_step c w))"
    by (cases c) (auto simp: final_use_defs unat_inc)
next
  fix w and t :: "u64 \<times> u64 \<times> u64"
  assume "final_use_matches (fst t) (fst (snd t)) (snd (snd t)) w"
  then show "unat (snd (snd t)) = unat (fu_generation w)"
    by (simp add: final_use_matches_def)
qed

text \<open>A failed or unfinished use blocks the next one for good.\<close>

lemma final_use_failed_kept:
  "fu_error w \<noteq> 0 \<Longrightarrow> final_use_step c w = w"
  by (cases c) (auto simp: final_use_defs)



end
