(* ===== verification/Dependency_Graph.thy ===== *)
theory Dependency_Graph
  imports Voidinfer_Prelude
begin

text \<open>
  Model of \<open>src/exl3/execution_dependency_graph.h\<close>: \<open>Exl3ExecutionDependencyGraph\<close>, the request-local
  authority that keeps the owners of a four-stage device command chain (draft, upload, attention,
  export) alive until the event that follows the chain has been witnessed.

  The dependency masks are 8-bit words as in the source, and the reachability search runs over the
  same masks. The theorems: the search decides reachability, the edges of every reachable graph are
  acyclic, a graph is submitted only as the declared chain, owners are released only by the two
  retiring calls in the phases the code allows, and superseded tickets are refused for good.
\<close>

unbundle bit_operations_syntax

section \<open>Data\<close>

datatype stage = Draft | Upload | Attention | Export_state | Stage_count

datatype graph_phase = Idle | Building | Submitted | Completed | Cancelled | Failed

record graph_ticket =
  gt_acquisition :: u64
  gt_execution :: u64
  gt_generation :: u64

record graph_node =
  n_owner :: "nat shared_ptr"
  n_deps :: u8

record dep_graph =
  g_nodes :: "graph_node list"
  g_stream_owner :: "nat shared_ptr"
  g_phase :: graph_phase
  g_acquisition :: u64
  g_execution :: u64
  g_generation :: u64
  g_stream :: u64
  g_event :: u64
  g_first_error :: int

record graph_snapshot =
  gs_phase :: graph_phase
  gs_generation :: u64
  gs_stream :: u64
  gs_event :: u64
  gs_nodes :: u8
  gs_edges :: u8
  gs_first_error :: int
  gs_retains_owners :: bool

definition empty_node :: graph_node where
  "empty_node = \<lparr>n_owner = Null, n_deps = 0\<rparr>"

definition graph_init :: dep_graph where
  "graph_init = \<lparr>g_nodes = replicate 4 empty_node, g_stream_owner = Null, g_phase = Idle,
     g_acquisition = 0, g_execution = 0, g_generation = 0, g_stream = 0, g_event = 0,
     g_first_error = 0\<rparr>"

section \<open>The reachability search\<close>

text \<open>The inner loop \<open>while(!(pending&(1u<<node)))++node\<close>: position of the lowest set bit.\<close>

definition lowest :: "u8 \<Rightarrow> nat" where
  "lowest w = length (takeWhile (\<lambda>n. \<not> bit w n) [0..<8])"

definition single_bit :: "nat \<Rightarrow> u8" where
  "single_bit n = push_bit n 1"

text \<open>The bits of the consumers of \<open>node\<close>, the \<open>for\<close> loop over the node array.\<close>

definition consumer_bits :: "graph_node list \<Rightarrow> nat \<Rightarrow> u8" where
  "consumer_bits nodes node =
     fold (\<lambda>c w. if bit (n_deps (nodes ! c)) node then w OR single_bit c else w)
       [0..<length nodes] 0"

lemma bit_single_bit: "bit (single_bit n) m \<longleftrightarrow> n = m \<and> m < 8"
  by (auto simp: single_bit_def bit_exp_iff)

lemma bit_consumer_fold:
  "bit (fold (\<lambda>c w. if P c then w OR single_bit c else w) cs w) m \<longleftrightarrow>
     bit w m \<or> (m \<in> set cs \<and> P m \<and> m < 8)"
  by (induction cs arbitrary: w) (auto simp: bit_or_iff bit_single_bit)

lemma bit_consumer_bits:
  "bit (consumer_bits nodes node) c \<longleftrightarrow>
     c < length nodes \<and> c < 8 \<and> bit (n_deps (nodes ! c)) node"
  unfolding consumer_bits_def by (subst bit_consumer_fold) auto

lemma bit_u8_bound: "bit (w :: u8) n \<Longrightarrow> n < 8"
  using bit_imp_le_length [of w n] by simp

definition bits :: "u8 \<Rightarrow> nat set" where
  "bits w = {n. bit w n}"

lemma bits_bound: "bits w \<subseteq> {..<8}"
  by (auto simp: bits_def dest: bit_u8_bound)

lemma finite_bits [simp]: "finite (bits w)"
  using bits_bound finite_subset by blast

lemma bits_empty: "bits w = {} \<longleftrightarrow> w = 0"
  by (auto simp: bits_def intro: bit_eqI)

lemma lowest_bit:
  assumes "w \<noteq> 0"
  shows "lowest w < 8" "bit w (lowest w)"
proof -
  from assms obtain n where n: "bit w n" "n < 8"
    by (auto simp: bits_empty [symmetric] bits_def dest: bit_u8_bound)
  have ex: "\<exists>m \<in> set [0..<8]. bit w m"
    using n by auto
  let ?t = "takeWhile (\<lambda>n. \<not> bit w n) [0..<8]"
  have "length ?t < length [0..<8]"
  proof (rule ccontr)
    assume "\<not> length ?t < length [0..<8]"
    then have "?t = [0..<8]"
      by (metis length_takeWhile_le le_neq_implies_less takeWhile_eq_take take_all le_refl)
    then show False
      using ex by (auto simp: takeWhile_eq_all_conv)
  qed
  then show "lowest w < 8" "bit w (lowest w)"
    using nth_length_takeWhile [of "\<lambda>n. \<not> bit w n" "[0..<8]"] by (simp_all add: lowest_def)
qed

lemma bits_ops:
  "bits (w AND NOT (single_bit n)) = bits w - {n}"
  "bits (v OR w) = bits v \<union> bits w"
  "n < 8 \<Longrightarrow> bits (single_bit n) = {n}"
  by (auto simp: bits_def bit_and_iff bit_or_iff bit_not_iff bit_single_bit dest: bit_u8_bound)

lemma lowest_in_bits: "w \<noteq> 0 \<Longrightarrow> lowest w \<in> bits w"
  by (simp add: bits_def lowest_bit)

function reaches_loop :: "graph_node list \<Rightarrow> nat \<Rightarrow> u8 \<Rightarrow> u8 \<Rightarrow> bool" where
  "reaches_loop nodes target seen pending =
     (if pending = 0 then False
      else let node = lowest pending; pending' = pending AND NOT (single_bit node) in
        if node = target then True
        else if bit seen node then reaches_loop nodes target seen pending'
        else reaches_loop nodes target (seen OR single_bit node)
               (pending' OR consumer_bits nodes node))"
  by pat_completeness auto
termination
proof (relation "measures [\<lambda>(nodes, target, seen, pending). card ({..<8} - bits seen),
    \<lambda>(nodes, target, seen, pending). card (bits pending)]", goal_cases)
  case 1
  show ?case by simp
next
  case (2 nodes target seen pending)
  then have "card (bits pending - {lowest pending}) < card (bits pending)"
    by (intro psubset_card_mono) (auto dest: lowest_in_bits)
  then show ?case
    using 2 by (simp add: bits_ops)
next
  case (3 nodes target seen pending)
  then have "lowest pending < 8" "lowest pending \<notin> bits seen"
    by (simp_all add: lowest_bit bits_def)
  then have "card ({..<8} - insert (lowest pending) (bits seen)) < card ({..<8} - bits seen)"
    by (intro psubset_card_mono) auto
  moreover have "bits (seen OR single_bit (lowest pending)) = insert (lowest pending) (bits seen)"
    using \<open>lowest pending < 8\<close> by (auto simp: bits_ops)
  ultimately show ?case
    using 3 by simp
qed

declare reaches_loop.simps [simp del]

definition reaches :: "graph_node list \<Rightarrow> nat \<Rightarrow> nat \<Rightarrow> bool" where
  "reaches nodes from target = reaches_loop nodes target 0 (single_bit from)"

text \<open>The dependency relation the masks describe: producer to consumer.\<close>

definition edges :: "graph_node list \<Rightarrow> (nat \<times> nat) set" where
  "edges nodes = {(p, c). c < length nodes \<and> c < 8 \<and> bit (n_deps (nodes ! c)) p}"

lemma bits_consumer_bits: "bits (consumer_bits nodes n) = edges nodes `` {n}"
  by (auto simp: bits_def edges_def bit_consumer_bits)

lemma leaves_seen:
  assumes "(x, t) \<in> E\<^sup>*" "x \<in> S" "t \<notin> S" "E `` S \<subseteq> S \<union> P"
  shows "\<exists>y \<in> P. (y, t) \<in> E\<^sup>*"
  using assms(1,2)
proof (induction rule: converse_rtrancl_induct)
  case base
  then show ?case using assms(3) by simp
next
  case (step x y)
  then show ?case using assms(4) by blast
qed

lemma reaches_loop_correct:
  assumes "target \<notin> bits seen" and "edges nodes `` bits seen \<subseteq> bits seen \<union> bits pending"
  shows "reaches_loop nodes target seen pending \<longleftrightarrow>
    (\<exists>n \<in> bits pending. (n, target) \<in> (edges nodes)\<^sup>*)"
  using assms
proof (induction nodes target seen pending rule: reaches_loop.induct)
  case (1 nodes target seen pending)
  let ?n = "lowest pending" and ?E = "edges nodes"
  show ?case
  proof (cases "pending = 0 \<or> ?n = target")
    case True
    then show ?thesis
      using bits_empty [of 0]
      by (subst reaches_loop.simps) (auto simp: Let_def intro: lowest_in_bits)
  next
    case False
    then have n: "?n \<in> bits pending" "?n < 8" "?n \<noteq> target"
      by (simp_all add: lowest_in_bits lowest_bit)
    show ?thesis
    proof (cases "bit seen ?n")
      case True
      then have seen: "?n \<in> bits seen" by (simp add: bits_def)
      have clos: "?E `` bits seen \<subseteq> bits seen \<union> (bits pending - {?n})"
        using "1.prems"(2) seen by blast
      have "reaches_loop nodes target seen pending \<longleftrightarrow>
          (\<exists>m \<in> bits pending - {?n}. (m, target) \<in> ?E\<^sup>*)"
        using False True "1.IH"(1) [OF _ refl refl] "1.prems"(1) clos
        by (subst reaches_loop.simps) (simp add: bits_ops Let_def)
      also have "\<dots> \<longleftrightarrow> (\<exists>m \<in> bits pending. (m, target) \<in> ?E\<^sup>*)"
        using leaves_seen [OF _ seen "1.prems"(1) clos] by blast
      finally show ?thesis .
    next
      case unseen: False
      let ?P = "(bits pending - {?n}) \<union> ?E `` {?n}"
      have "reaches_loop nodes target seen pending \<longleftrightarrow> (\<exists>m \<in> ?P. (m, target) \<in> ?E\<^sup>*)"
        using False unseen "1.IH"(2) [OF _ refl refl] "1.prems" n
        by (subst reaches_loop.simps)
          (simp add: bits_ops bits_consumer_bits Let_def Image_Un, blast)
      also have "\<dots> \<longleftrightarrow> (\<exists>m \<in> bits pending. (m, target) \<in> ?E\<^sup>*)"
      proof
        assume "\<exists>m \<in> bits pending. (m, target) \<in> ?E\<^sup>*"
        then obtain m where m: "m \<in> bits pending" "(m, target) \<in> ?E\<^sup>*" by blast
        show "\<exists>m \<in> ?P. (m, target) \<in> ?E\<^sup>*"
        proof (cases "m = ?n")
          case True
          with m n(3) show ?thesis by (blast elim: converse_rtranclE)
        next
          case False
          with m show ?thesis by blast
        qed
      qed (use n in \<open>auto intro: converse_rtrancl_into_rtrancl\<close>)
      finally show ?thesis .
    qed
  qed
qed

lemma reaches_iff:
  assumes "from < 8"
  shows "reaches nodes from target \<longleftrightarrow> (from, target) \<in> (edges nodes)\<^sup>*"
proof -
  have "bits (single_bit from) = {from}"
    using assms by (auto simp: bits_def bit_single_bit)
  then show ?thesis
    unfolding reaches_def by (subst reaches_loop_correct) (auto simp: bits_def)
qed

section \<open>Operations\<close>

definition at_stage :: "stage \<Rightarrow> exn + nat" where
  "at_stage s = (case s of Draft \<Rightarrow> Inr 0 | Upload \<Rightarrow> Inr 1 | Attention \<Rightarrow> Inr 2 |
     Export_state \<Rightarrow> Inr 3 | Stage_count \<Rightarrow> Inl Invalid_argument)"

definition graph_current :: "graph_ticket \<Rightarrow> dep_graph \<Rightarrow> bool" where
  "graph_current t g \<longleftrightarrow> gt_acquisition t = g_acquisition g \<and> gt_execution t = g_execution g \<and>
     gt_generation t = g_generation g \<and> gt_generation t \<noteq> 0"

definition graph_begin ::
    "u64 \<Rightarrow> u64 \<Rightarrow> u64 \<Rightarrow> nat shared_ptr \<Rightarrow> dep_graph \<Rightarrow> exn + (graph_ticket \<times> dep_graph)" where
  "graph_begin acquisition execution stream stream_owner g =
     (if g_phase g \<noteq> Idle \<or> acquisition = 0 \<or> execution = 0 \<or> stream = 0 \<or>
         \<not> has_owner stream_owner then Inl Invalid_argument
      else if g_generation g = UINT64_MAX then Inl Overflow_error
      else Inr (\<lparr>gt_acquisition = acquisition, gt_execution = execution,
                 gt_generation = g_generation g + 1\<rparr>,
        g\<lparr>g_acquisition := acquisition, g_execution := execution, g_stream := stream,
          g_stream_owner := stream_owner, g_event := 0, g_first_error := 0,
          g_nodes := replicate 4 empty_node, g_phase := Building,
          g_generation := g_generation g + 1\<rparr>))"

definition require_phase :: "graph_ticket \<Rightarrow> graph_phase \<Rightarrow> dep_graph \<Rightarrow> bool" where
  "require_phase t ph g \<longleftrightarrow> graph_current t g \<and> g_phase g = ph"

definition add_node ::
    "graph_ticket \<Rightarrow> stage \<Rightarrow> nat shared_ptr \<Rightarrow> dep_graph \<Rightarrow> exn + dep_graph" where
  "add_node t st owner g =
     (if \<not> require_phase t Building g then Inl Logic_error
      else case at_stage st of Inl e \<Rightarrow> Inl e
      | Inr i \<Rightarrow>
        (if n_owner (g_nodes g ! i) \<noteq> Null \<or> \<not> has_owner owner then Inl Invalid_argument
         else Inr (g\<lparr>g_nodes := (g_nodes g)[i := (g_nodes g ! i)\<lparr>n_owner := owner\<rparr>]\<rparr>)))"

definition set_dep :: "nat \<Rightarrow> nat \<Rightarrow> graph_node list \<Rightarrow> graph_node list" where
  "set_dep i j ns = ns[j := (ns ! j)\<lparr>n_deps := n_deps (ns ! j) OR single_bit i\<rparr>]"

definition add_edge :: "graph_ticket \<Rightarrow> stage \<Rightarrow> stage \<Rightarrow> dep_graph \<Rightarrow> exn + dep_graph" where
  "add_edge t producer consumer g =
     (if \<not> require_phase t Building g then Inl Logic_error
      else case at_stage producer of Inl e \<Rightarrow> Inl e
      | Inr i \<Rightarrow> (case at_stage consumer of Inl e \<Rightarrow> Inl e
      | Inr j \<Rightarrow>
        (if i = j \<or> n_owner (g_nodes g ! i) = Null \<or> n_owner (g_nodes g ! j) = Null
         then Inl Invalid_argument
         else if n_deps (g_nodes g ! j) AND single_bit i \<noteq> 0 then Inl Invalid_argument
         else if reaches (set_dep i j (g_nodes g)) j i then Inl Invalid_argument
         else Inr (g\<lparr>g_nodes := set_dep i j (g_nodes g)\<rparr>))))"

definition selected_slice :: "u8 list" where
  "selected_slice = [0, 1, 2, 4]"

definition submit_selected_slice :: "graph_ticket \<Rightarrow> u64 \<Rightarrow> dep_graph \<Rightarrow> exn + dep_graph" where
  "submit_selected_slice t event g =
     (if \<not> require_phase t Building g then Inl Logic_error
      else if \<exists>i < length (g_nodes g). n_owner (g_nodes g ! i) = Null \<or>
                n_deps (g_nodes g ! i) \<noteq> selected_slice ! i then Inl Logic_error
      else if event = 0 then Inl Invalid_argument
      else Inr (g\<lparr>g_event := event, g_phase := Submitted\<rparr>))"

definition graph_complete :: "graph_ticket \<Rightarrow> u64 \<Rightarrow> int \<Rightarrow> dep_graph \<Rightarrow> bool \<times> dep_graph" where
  "graph_complete t event error g =
     (if \<not> graph_current t g \<or> g_phase g \<noteq> Submitted \<or> event = 0 \<or> event \<noteq> g_event g
      then (False, g)
      else if error \<noteq> 0 then (False, g\<lparr>g_first_error := error, g_phase := Failed\<rparr>)
      else (True, g\<lparr>g_phase := Completed\<rparr>))"

definition graph_fail :: "graph_ticket \<Rightarrow> int \<Rightarrow> dep_graph \<Rightarrow> bool \<times> dep_graph" where
  "graph_fail t error g =
     (if \<not> graph_current t g \<or> g_phase g = Idle \<or> g_phase g = Completed \<or> g_phase g = Failed
      then (False, g)
      else (True, g\<lparr>g_first_error := (if error \<noteq> 0 then error else - 1), g_phase := Failed\<rparr>))"

definition graph_cancel :: "graph_ticket \<Rightarrow> dep_graph \<Rightarrow> bool \<times> dep_graph" where
  "graph_cancel t g =
     (if \<not> graph_current t g \<or> g_phase g \<noteq> Building then (False, g)
      else (True, g\<lparr>g_phase := Cancelled\<rparr>))"

definition graph_clear :: "dep_graph \<Rightarrow> dep_graph" where
  "graph_clear g = g\<lparr>g_nodes := replicate 4 empty_node, g_stream_owner := Null,
     g_acquisition := 0, g_execution := 0, g_stream := 0, g_event := 0, g_first_error := 0,
     g_phase := Idle\<rparr>"

definition graph_retire :: "graph_ticket \<Rightarrow> dep_graph \<Rightarrow> bool \<times> dep_graph" where
  "graph_retire t g =
     (if \<not> graph_current t g \<or> g_phase g \<noteq> Completed then (False, g) else (True, graph_clear g))"

definition retire_after_stream_drain :: "graph_ticket \<Rightarrow> dep_graph \<Rightarrow> bool \<times> dep_graph" where
  "retire_after_stream_drain t g =
     (if \<not> graph_current t g \<or>
         (g_phase g \<noteq> Completed \<and> g_phase g \<noteq> Cancelled \<and> g_phase g \<noteq> Failed)
      then (False, g) else (True, graph_clear g))"

definition graph_snapshot_of :: "dep_graph \<Rightarrow> graph_snapshot" where
  "graph_snapshot_of g =
     (let owned = filter (\<lambda>n. n_owner n \<noteq> Null) (g_nodes g) in
      \<lparr>gs_phase = g_phase g, gs_generation = g_generation g, gs_stream = g_stream g,
       gs_event = g_event g, gs_nodes = of_nat (length owned),
       gs_edges = (\<Sum>n\<leftarrow>owned. of_nat (length (filter (bit (n_deps n)) [0..<8]))),
       gs_first_error = g_first_error g,
       gs_retains_owners = (g_stream_owner g \<noteq> Null \<or> owned \<noteq> [])\<rparr>)"

datatype graph_call =
    GBegin u64 u64 u64 "nat shared_ptr"
  | GAddNode graph_ticket stage "nat shared_ptr"
  | GAddEdge graph_ticket stage stage
  | GSubmit graph_ticket u64
  | GComplete graph_ticket u64 int
  | GFail graph_ticket int
  | GCancel graph_ticket
  | GRetire graph_ticket
  | GRetireAfterDrain graph_ticket

fun graph_step :: "graph_call \<Rightarrow> dep_graph \<Rightarrow> dep_graph" where
  "graph_step (GBegin a x s ow) g = after g (map_sum id snd (graph_begin a x s ow g))"
| "graph_step (GAddNode t st ow) g = after g (add_node t st ow g)"
| "graph_step (GAddEdge t p c) g = after g (add_edge t p c g)"
| "graph_step (GSubmit t e) g = after g (submit_selected_slice t e g)"
| "graph_step (GComplete t e err) g = snd (graph_complete t e err g)"
| "graph_step (GFail t err) g = snd (graph_fail t err g)"
| "graph_step (GCancel t) g = snd (graph_cancel t g)"
| "graph_step (GRetire t) g = snd (graph_retire t g)"
| "graph_step (GRetireAfterDrain t) g = snd (retire_after_stream_drain t g)"

section \<open>The invariant\<close>

definition nodes_inv :: "graph_node list \<Rightarrow> bool" where
  "nodes_inv ns \<longleftrightarrow> length ns = 4 \<and> acyclic (edges ns) \<and>
     (\<forall>(p, c) \<in> edges ns. p < 4 \<and> n_owner (ns ! p) \<noteq> Null \<and> n_owner (ns ! c) \<noteq> Null) \<and>
     (\<forall>n \<in> set ns. n_owner n = Null \<or> has_owner (n_owner n))"

definition is_selected_chain :: "dep_graph \<Rightarrow> bool" where
  "is_selected_chain g \<longleftrightarrow> map n_deps (g_nodes g) = selected_slice \<and>
     (\<forall>n \<in> set (g_nodes g). has_owner (n_owner n)) \<and> g_event g \<noteq> 0"

definition graph_inv :: "dep_graph \<Rightarrow> bool" where
  "graph_inv g \<longleftrightarrow> nodes_inv (g_nodes g) \<and>
     (g_phase g = Idle \<longrightarrow> g_acquisition g = 0 \<and> g_nodes g = replicate 4 empty_node \<and>
        g_stream_owner g = Null) \<and>
     (g_phase g \<noteq> Idle \<longrightarrow> has_owner (g_stream_owner g) \<and> g_acquisition g \<noteq> 0 \<and>
        g_execution g \<noteq> 0 \<and> g_stream g \<noteq> 0 \<and> g_generation g \<noteq> 0) \<and>
     (g_phase g \<in> {Submitted, Completed} \<longrightarrow> is_selected_chain g)"

lemma at_stage_bound: "at_stage s = Inr i \<Longrightarrow> i < 4"
  by (cases s) (auto simp: at_stage_def)

lemma edges_replicate [simp]: "edges (replicate n empty_node) = {}"
  by (auto simp: edges_def empty_node_def)

lemma empty_node_owner [simp]: "n_owner empty_node = Null"
  by (simp add: empty_node_def)

lemma nodes_inv_empty [simp]: "nodes_inv (replicate 4 empty_node)"
  by (simp add: nodes_inv_def acyclic_def)

lemma edges_set_owner:
  "i < length ns \<Longrightarrow> edges (ns[i := (ns ! i)\<lparr>n_owner := ow\<rparr>]) = edges ns"
  by (auto simp: edges_def nth_list_update)

lemma edges_set_dep:
  "length ns = 4 \<Longrightarrow> i < 4 \<Longrightarrow> j < 4 \<Longrightarrow> edges (set_dep i j ns) = insert (i, j) (edges ns)"
  by (auto simp: edges_def set_dep_def nth_list_update bit_or_iff bit_single_bit split: if_splits)

lemma single_bit_test: "i < 8 \<Longrightarrow> w AND single_bit i \<noteq> 0 \<longleftrightarrow> bit w i"
  using bits_empty [of "w AND single_bit i"]
  by (auto simp: bits_def bit_and_iff bit_single_bit)

lemma cycle_test:
  assumes "acyclic (edges ns)" "length ns = 4" "i < 4" "j < 4"
  shows "reaches (set_dep i j ns) j i \<longleftrightarrow> \<not> acyclic (insert (i, j) (edges ns))"
proof -
  have "(j, i) \<in> (insert (i, j) E)\<^sup>* \<longleftrightarrow> (j, i) \<in> E\<^sup>*" for E :: "(nat \<times> nat) set"
    by (auto simp: rtrancl_insert)
  then show ?thesis
    using assms by (simp add: reaches_iff edges_set_dep acyclic_insert)
qed

lemma nodes_inv_set_owner:
  assumes "nodes_inv ns" "i < 4" "has_owner ow"
  shows "nodes_inv (ns[i := (ns ! i)\<lparr>n_owner := ow\<rparr>])"
proof -
  have len: "length ns = 4" using assms(1) by (simp add: nodes_inv_def)
  have "n_owner ((ns[i := (ns ! i)\<lparr>n_owner := ow\<rparr>]) ! p) \<noteq> Null"
    if "n_owner (ns ! p) \<noteq> Null" for p
    using that assms(2,3) len by (cases "p = i") (auto simp: has_owner_iff)
  then show ?thesis
    using assms len
    by (fastforce simp: nodes_inv_def edges_set_owner in_set_conv_nth nth_list_update)
qed

lemma nodes_inv_set_dep:
  assumes "nodes_inv ns" "i < 4" "j < 4" "n_owner (ns ! i) \<noteq> Null" "n_owner (ns ! j) \<noteq> Null"
    "\<not> reaches (set_dep i j ns) j i"
  shows "nodes_inv (set_dep i j ns)"
proof -
  have len: "length ns = 4" and ac: "acyclic (edges ns)"
    using assms(1) by (auto simp: nodes_inv_def)
  have own: "n_owner (set_dep i j ns ! p) = n_owner (ns ! p)" for p
    using len assms(3) by (cases "p = j") (auto simp: set_dep_def)
  have "acyclic (insert (i, j) (edges ns))"
    using cycle_test [OF ac len assms(2,3)] assms(6) by blast
  moreover have "length (set_dep i j ns) = 4"
    by (simp add: set_dep_def len)
  moreover have "\<forall>n \<in> set (set_dep i j ns). n_owner n = Null \<or> has_owner (n_owner n)"
    using assms(1) own len
    by (metis (no_types, lifting) in_set_conv_nth length_list_update nodes_inv_def set_dep_def)
  ultimately show ?thesis
    using assms(1-5) len own by (auto simp: nodes_inv_def edges_set_dep)
qed

lemma graph_init_inv: "graph_inv graph_init"
  by (simp add: graph_inv_def graph_init_def)

lemma add_node_inv:
  assumes "graph_inv g" "add_node t st ow g = Inr g'"
  shows "graph_inv g'"
proof -
  from assms(2) obtain i where i: "at_stage st = Inr i" "g_phase g = Building" "has_owner ow"
    and g': "g' = g\<lparr>g_nodes := (g_nodes g)[i := (g_nodes g ! i)\<lparr>n_owner := ow\<rparr>]\<rparr>"
    by (auto simp: add_node_def require_phase_def split: sum.splits if_splits)
  then show ?thesis
    using assms(1) nodes_inv_set_owner [of "g_nodes g" i ow] at_stage_bound [OF i(1)]
    by (simp add: graph_inv_def)
qed

lemma add_edge_InrE:
  assumes "add_edge t p c g = Inr g'"
  obtains i j where "at_stage p = Inr i" "at_stage c = Inr j" "graph_current t g"
    "g_phase g = Building" "i \<noteq> j" "n_owner (g_nodes g ! i) \<noteq> Null" "n_owner (g_nodes g ! j) \<noteq> Null"
    "\<not> reaches (set_dep i j (g_nodes g)) j i" "g' = g\<lparr>g_nodes := set_dep i j (g_nodes g)\<rparr>"
  using assms by (auto simp: add_edge_def require_phase_def split: sum.splits if_splits)

lemma add_edge_inv:
  assumes "graph_inv g" "add_edge t p c g = Inr g'"
  shows "graph_inv g'"
  using assms(2)
proof (rule add_edge_InrE)
  fix i j assume "at_stage p = Inr i" "at_stage c = Inr j" "g_phase g = Building"
    "n_owner (g_nodes g ! i) \<noteq> Null" "n_owner (g_nodes g ! j) \<noteq> Null"
    "\<not> reaches (set_dep i j (g_nodes g)) j i" "g' = g\<lparr>g_nodes := set_dep i j (g_nodes g)\<rparr>"
  then show ?thesis
    using assms(1) nodes_inv_set_dep [of "g_nodes g" i j] by (simp add: graph_inv_def at_stage_bound)
qed

lemma submit_inv:
  assumes "graph_inv g" "submit_selected_slice t e g = Inr g'"
  shows "graph_inv g'"
proof -
  from assms(2) have ph: "g_phase g = Building" and e: "e \<noteq> 0"
    and g': "g' = g\<lparr>g_event := e, g_phase := Submitted\<rparr>"
    and all: "\<And>i. i < length (g_nodes g) \<Longrightarrow> n_owner (g_nodes g ! i) \<noteq> Null \<and>
      n_deps (g_nodes g ! i) = selected_slice ! i"
    by (auto simp: submit_selected_slice_def require_phase_def split: if_splits)
  have len: "length (g_nodes g) = 4"
    using assms(1) by (simp add: graph_inv_def nodes_inv_def)
  have "map n_deps (g_nodes g) = selected_slice"
    using all len by (intro nth_equalityI) (auto simp: selected_slice_def)
  moreover have "has_owner (n_owner n)" if "n \<in> set (g_nodes g)" for n
    using that all assms(1) by (metis graph_inv_def in_set_conv_nth nodes_inv_def)
  ultimately show ?thesis
    using assms(1) ph e g' by (simp add: graph_inv_def is_selected_chain_def)
qed

lemma graph_step_inv:
  assumes "graph_inv g"
  shows "graph_inv (graph_step c g)"
proof (cases c)
  case (GBegin a x s ow)
  then show ?thesis
    using assms by (auto simp: graph_begin_def graph_inv_def word_inc_neq)
next
  case (GAddNode t st ow)
  then show ?thesis
    using assms add_node_inv by (cases "add_node t st ow g") auto
next
  case (GAddEdge t p c)
  then show ?thesis
    using assms add_edge_inv by (cases "add_edge t p c g") auto
next
  case (GSubmit t e)
  then show ?thesis
    using assms submit_inv by (cases "submit_selected_slice t e g") auto
qed (use assms in \<open>auto simp: graph_complete_def graph_fail_def graph_cancel_def graph_retire_def
       retire_after_stream_drain_def graph_clear_def graph_inv_def is_selected_chain_def\<close>)

lemma graph_step_gen:
  "unat (g_generation g) \<le> unat (g_generation (graph_step c g))"
  by (cases c) (auto simp: graph_begin_def add_node_def add_edge_def submit_selected_slice_def
      graph_complete_def graph_fail_def graph_cancel_def graph_retire_def graph_clear_def
      retire_after_stream_drain_def unat_inc split: sum.splits)

interpretation dep_graph: credential_system graph_step graph_inv "\<lambda>g. unat (g_generation g)"
  graph_current "\<lambda>t. unat (gt_generation t)"
  by unfold_locales (auto simp: graph_step_inv graph_step_gen graph_current_def)

section \<open>Properties\<close>

text \<open>
  C3. Cycle detection is exact. On every graph the public calls can build, with the current ticket
  and both stages owned, \<open>add_edge\<close> accepts a new edge if and only if the graph with the edge has no
  cycle; accepted, exactly that edge is added; refused, the masks are as before.
\<close>

theorem add_edge_exact:
  assumes "g = fold graph_step cs graph_init"
    and "graph_current t g" "g_phase g = Building"
    and "at_stage p = Inr i" "at_stage c = Inr j"
    and "n_owner (g_nodes g ! i) \<noteq> Null" "n_owner (g_nodes g ! j) \<noteq> Null"
    and "(i, j) \<notin> edges (g_nodes g)"
  shows "add_edge t p c g =
      (if acyclic (insert (i, j) (edges (g_nodes g)))
       then Inr (g\<lparr>g_nodes := set_dep i j (g_nodes g)\<rparr>) else Inl Invalid_argument) \<and>
    edges (set_dep i j (g_nodes g)) = insert (i, j) (edges (g_nodes g))"
proof -
  have "graph_inv g"
    unfolding assms(1) by (rule dep_graph.run_inv [OF graph_init_inv])
  then have len: "length (g_nodes g) = 4" and ac: "acyclic (edges (g_nodes g))"
    by (auto simp: graph_inv_def nodes_inv_def)
  have ij: "i < 4" "j < 4"
    using assms(4,5) by (auto dest: at_stage_bound)
  have dep: "n_deps (g_nodes g ! j) AND single_bit i = 0"
    using assms(8) ij len single_bit_test [of i "n_deps (g_nodes g ! j)"] by (auto simp: edges_def)
  have self: "\<not> acyclic (insert (i, i) E)" for E :: "(nat \<times> nat) set"
    by (auto simp: acyclic_def)
  show ?thesis
    using assms(2-7) dep cycle_test [OF ac len ij] edges_set_dep [OF len ij] self
    by (auto simp: add_edge_def require_phase_def)
qed

text \<open>
  C4. On every reachable graph, an owner (of a stage or of the stream) is let go only by \<open>retire\<close> of a
  completed graph or by \<open>retire_after_stream_drain\<close> of a completed, cancelled or failed one, in both
  cases with the current ticket; a graph becomes completed only when the terminal event recorded at
  submission is witnessed without error; and a submitted or completed graph is the declared chain
  with all four owners present.
\<close>

theorem owners_released_only_after_final_event:
  assumes "g = fold graph_step cs graph_init" and "g' = graph_step c g"
  shows "(g_stream_owner g \<noteq> Null \<and> g_stream_owner g' \<noteq> g_stream_owner g \<or>
      (\<exists>i < 4. n_owner (g_nodes g ! i) \<noteq> Null \<and> n_owner (g_nodes g' ! i) \<noteq> n_owner (g_nodes g ! i))
      \<longrightarrow> (\<exists>t. graph_current t g \<and> (c = GRetire t \<and> g_phase g = Completed \<or>
             c = GRetireAfterDrain t \<and> g_phase g \<in> {Completed, Cancelled, Failed}))) \<and>
    (g_phase g \<noteq> Completed \<and> g_phase g' = Completed
      \<longrightarrow> (\<exists>t. graph_current t g \<and> c = GComplete t (g_event g) 0 \<and> g_phase g = Submitted)) \<and>
    (g_phase g \<in> {Submitted, Completed} \<longrightarrow> is_selected_chain g)"
proof -
  have inv: "graph_inv g"
    unfolding assms(1) by (rule dep_graph.run_inv [OF graph_init_inv])
  then have len: "length (g_nodes g) = 4"
    by (simp add: graph_inv_def nodes_inv_def)
  have dep: "n_owner (set_dep i j (g_nodes g) ! k) = n_owner (g_nodes g ! k)" if "j < 4" for i j k
    using that len by (cases "k = j") (auto simp: set_dep_def)
  have own: "n_owner (g_nodes g ! k) = Null"
    if "n_owner ((g_nodes g)[i := (g_nodes g ! i)\<lparr>n_owner := ow\<rparr>] ! k) \<noteq> n_owner (g_nodes g ! k)"
      "n_owner (g_nodes g ! i) = Null" for i k ow
    using that by (cases "k = i") auto
  show ?thesis
    using inv unfolding assms(2)
    by (cases c) (auto simp: graph_inv_def graph_begin_def add_node_def add_edge_def
        submit_selected_slice_def graph_complete_def graph_fail_def graph_cancel_def graph_retire_def
        graph_clear_def retire_after_stream_drain_def require_phase_def dep
        split: sum.splits if_splits dest: at_stage_bound own)
qed

text \<open>A concrete run used by the witnesses: two owned stages and the edge between them.\<close>

definition sample_ticket :: graph_ticket where
  "sample_ticket = \<lparr>gt_acquisition = 7, gt_execution = 8, gt_generation = 1\<rparr>"

definition sample_calls :: "graph_call list" where
  "sample_calls = [GBegin 7 8 99 (Owned 10), GAddNode sample_ticket Draft (Owned 1),
     GAddNode sample_ticket Upload (Owned 2), GAddEdge sample_ticket Draft Upload]"

definition sample_graph :: dep_graph where
  "sample_graph = \<lparr>g_nodes = [\<lparr>n_owner = Owned 1, n_deps = 0\<rparr>, \<lparr>n_owner = Owned 2, n_deps = 1\<rparr>,
       empty_node, empty_node], g_stream_owner = Owned 10, g_phase = Building, g_acquisition = 7,
     g_execution = 8, g_generation = 1, g_stream = 99, g_event = 0, g_first_error = 0\<rparr>"

lemma sample_run: "fold graph_step sample_calls graph_init = sample_graph"
  by code_simp

theorem add_edge_exact_witness:
  "add_edge sample_ticket Upload Draft (fold graph_step sample_calls graph_init) =
     Inl Invalid_argument"
proof -
  let ?g = "fold graph_step sample_calls graph_init"
  have e: "edges (g_nodes sample_graph) = {(0, 1)}"
    by (auto simp: edges_def sample_graph_def empty_node_def less_Suc_eq numeral_eq_Suc bit_1_iff)
  have "(0, 0) \<in> (insert (1, 0) {(0, 1 :: nat)})\<^sup>+"
    by (rule trancl_into_trancl [OF r_into_trancl [of 0 1]]) simp_all
  then have "\<not> acyclic (insert (1, 0) {(0, 1 :: nat)})"
    unfolding acyclic_def by blast
  then show ?thesis
    using add_edge_exact [OF refl, where cs = sample_calls and t = sample_ticket
        and p = Upload and c = Draft and i = 1 and j = 0] e
    by (simp add: sample_run at_stage_def graph_current_def sample_ticket_def)
      (simp add: sample_graph_def)
qed

theorem owners_released_only_after_final_event_witness:
  "graph_step (GRetire sample_ticket) (fold graph_step sample_calls graph_init) = sample_graph \<and>
   g_stream_owner (graph_step (GRetireAfterDrain sample_ticket)
     (fold graph_step (sample_calls @ [GCancel sample_ticket]) graph_init)) = Null \<and>
   g_phase (fold graph_step (sample_calls @ [GCancel sample_ticket]) graph_init)
     \<in> {Completed, Cancelled, Failed}"
proof -
  let ?g = "fold graph_step (sample_calls @ [GCancel sample_ticket]) graph_init"
  have g: "?g = sample_graph\<lparr>g_phase := Cancelled\<rparr>"
    by (simp add: sample_run graph_cancel_def graph_current_def sample_ticket_def sample_graph_def)
  have "g_stream_owner (graph_step (GRetireAfterDrain sample_ticket) ?g) = Null"
    unfolding g by (simp add: retire_after_stream_drain_def graph_current_def sample_ticket_def
        sample_graph_def graph_clear_def)
  moreover from this have "g_phase ?g \<in> {Completed, Cancelled, Failed}"
    using owners_released_only_after_final_event [OF g [symmetric] refl,
        of "GRetireAfterDrain sample_ticket"]
    by (auto simp only: g) (auto simp: sample_graph_def)
  ultimately show ?thesis
    by (simp add: sample_run graph_retire_def graph_current_def sample_ticket_def sample_graph_def)
qed

end
