(* ===== verification/Resident_Ranges.thy ===== *)
theory Resident_Ranges
  imports Voidinfer_Prelude "HOL-Library.Product_Lexorder" "HOL-Library.Multiset"
begin

text \<open>
  Model of \<open>src/exl3/merge_resident_ranges.h\<close>: unions and differences of half-open address ranges, as
  the host residency set uses them to lock and unlock page ranges.

  An address is a \<open>nat\<close>: the code only compares addresses, takes minima and maxima, and subtracts after
  a comparison, so no operation wraps. \<open>std::vector\<close> outputs are lists; the in-place union is modelled
  on the array with its read and write cursors. The theorems relate the ranges to the set of addresses
  they cover, and the in-place routine to the merging one.
\<close>

type_synonym resident_range = "nat \<times> nat"

definition SIZE_MAX :: nat where
  "SIZE_MAX = 2 ^ 64 - 1"

section \<open>Operations\<close>

subsection \<open>Lock chunks\<close>

fun lock_chunks :: "nat \<Rightarrow> nat \<Rightarrow> resident_range list \<Rightarrow> exn + nat" where
  "lock_chunks chunk_bytes cnt [] = Inr cnt"
| "lock_chunks chunk_bytes cnt (r # rs) =
     (if fst r \<ge> snd r then Inl Invalid_argument
      else let bytes = snd r - fst r;
               chunks = bytes div chunk_bytes + (if bytes mod chunk_bytes \<noteq> 0 then 1 else 0) in
        if chunks > SIZE_MAX - cnt then Inl Overflow_error
        else lock_chunks chunk_bytes (cnt + chunks) rs)"

definition resident_lock_chunk_count :: "resident_range list \<Rightarrow> nat \<Rightarrow> exn + nat" where
  "resident_lock_chunk_count ranges chunk_bytes =
     (if chunk_bytes = 0 then Inl Invalid_argument else lock_chunks chunk_bytes 0 ranges)"

subsection \<open>Difference\<close>

text \<open>
  The inner \<open>for\<close> loop over \<open>b[k]\<close>, \<open>k = j, j + 1, \<dots>\<close>: the emitted ranges and the final cursor. The
  suffix of \<open>b\<close> from index \<open>j\<close> is the list argument.
\<close>

fun emit_inner :: "nat \<Rightarrow> nat \<Rightarrow> resident_range list \<Rightarrow> resident_range list \<times> nat" where
  "emit_inner last_end cursor [] = ([], cursor)"
| "emit_inner last_end cursor (b # bs) =
     (if fst b < last_end then
        let out = (if fst b > cursor then [(cursor, min last_end (fst b))] else []);
            cursor' = max cursor (snd b) in
        if cursor' \<ge> last_end then (out, cursor')
        else let (rest, c) = emit_inner last_end cursor' bs in (out @ rest, c)
      else ([], cursor))"

fun visit_resident_difference ::
    "resident_range list \<Rightarrow> resident_range list \<Rightarrow> resident_range list" where
  "visit_resident_difference [] bs = []"
| "visit_resident_difference (r # as) bs =
     (let bs' = dropWhile (\<lambda>b. snd b \<le> fst r) bs;
          (out, cursor) = emit_inner (snd r) (fst r) bs' in
      out @ (if cursor < snd r then [(cursor, snd r)] else []) @ visit_resident_difference as bs')"

definition resident_difference_count ::
    "resident_range list \<Rightarrow> resident_range list \<Rightarrow> exn + nat" where
  "resident_difference_count a b =
     fold (\<lambda>_ r. case r of Inl e \<Rightarrow> Inl e
            | Inr cnt \<Rightarrow> if cnt = SIZE_MAX then Inl Overflow_error else Inr (Suc cnt))
       (visit_resident_difference a b) (Inr 0)"

definition resident_difference_precounted ::
    "resident_range list \<Rightarrow> resident_range list \<Rightarrow> nat \<Rightarrow> exn + resident_range list" where
  "resident_difference_precounted a b cnt =
     (case fold (\<lambda>r out. case out of Inl e \<Rightarrow> Inl e
            | Inr result \<Rightarrow> if length result = cnt then Inl Length_error else Inr (result @ [r]))
          (visit_resident_difference a b) (Inr []) of
        Inl e \<Rightarrow> Inl e
      | Inr result \<Rightarrow> if length result \<noteq> cnt then Inl Length_error else Inr result)"

definition resident_difference ::
    "resident_range list \<Rightarrow> resident_range list \<Rightarrow> exn + resident_range list" where
  "resident_difference a b =
     (case resident_difference_count a b of Inl e \<Rightarrow> Inl e
      | Inr cnt \<Rightarrow> resident_difference_precounted a b cnt)"

subsection \<open>Unions\<close>

text \<open>One iteration of the merging loop on the output vector.\<close>

definition push_range :: "resident_range list \<Rightarrow> resident_range \<Rightarrow> resident_range list" where
  "push_range out r =
     (if out \<noteq> [] \<and> fst r \<le> snd (last out)
      then butlast out @ [(fst (last out), max (snd (last out)) (snd r))]
      else out @ [r])"

fun merge_loop ::
    "resident_range list \<Rightarrow> resident_range list \<Rightarrow> resident_range list \<Rightarrow> resident_range list" where
  "merge_loop [] [] out = out"
| "merge_loop (x # as) [] out = merge_loop as [] (push_range out x)"
| "merge_loop [] (y # bs) out = merge_loop [] bs (push_range out y)"
| "merge_loop (x # as) (y # bs) out =
     (if x < y then merge_loop as (y # bs) (push_range out x)
      else merge_loop (x # as) bs (push_range out y))"

text \<open>\<open>capacity\<close> is \<open>output.capacity()\<close>, \<open>output\<close> the contents of the output vector before the call.\<close>

definition merge_sorted_resident_ranges ::
    "nat \<Rightarrow> resident_range list \<Rightarrow> resident_range list \<Rightarrow> resident_range list
      \<Rightarrow> exn + resident_range list" where
  "merge_sorted_resident_ranges capacity a b output =
     (if output \<noteq> [] \<or> length a > capacity \<or> length b > capacity - length a
      then Inl Length_error else Inr (merge_loop a b output))"

text \<open>
  The compaction loop on the array: \<open>written\<close> entries are final, \<open>read\<close> is the next to look at.
\<close>

function compact_loop ::
    "nat \<Rightarrow> nat \<Rightarrow> resident_range list \<Rightarrow> nat \<times> resident_range list" where
  "compact_loop readi written ranges =
     (if readi < length ranges then
        let range = ranges ! readi in
        if written \<noteq> 0 \<and> fst range \<le> snd (ranges ! (written - 1))
        then compact_loop (Suc readi) written
               (ranges[written - 1 := (fst (ranges ! (written - 1)),
                         max (snd (ranges ! (written - 1))) (snd range))])
        else compact_loop (Suc readi) (Suc written) (ranges[written := range])
      else (written, ranges))"
  by pat_completeness auto
termination
  by (relation "measure (\<lambda>(readi, written, ranges). length ranges - readi)") auto

declare compact_loop.simps [simp del]

definition merge_resident_ranges_in_place :: "resident_range list \<Rightarrow> resident_range list" where
  "merge_resident_ranges_in_place ranges =
     (let (written, compacted) = compact_loop 0 0 (sort ranges) in take written compacted)"

section \<open>The addresses covered\<close>

definition span :: "resident_range \<Rightarrow> nat set" where
  "span r = {fst r..<snd r}"

definition covers :: "resident_range list \<Rightarrow> nat set" where
  "covers rs = (\<Union>r \<in> set rs. span r)"

text \<open>Nonempty ranges, each ending at or before the start of the next.\<close>

definition normalized :: "resident_range list \<Rightarrow> bool" where
  "normalized rs \<longleftrightarrow> (\<forall>r \<in> set rs. fst r < snd r) \<and> sorted_wrt (\<lambda>r s. snd r \<le> fst s) rs"

text \<open>Nonempty ranges with a gap between each and the next.\<close>

definition separated :: "resident_range list \<Rightarrow> bool" where
  "separated rs \<longleftrightarrow> (\<forall>r \<in> set rs. fst r < snd r) \<and> sorted_wrt (\<lambda>r s. snd r < fst s) rs"

lemma covers_simps [simp]:
  "covers [] = {}" "covers (r # rs) = span r \<union> covers rs" "covers (rs @ ss) = covers rs \<union> covers ss"
  by (auto simp: covers_def)

lemma mem_span [simp]: "x \<in> span r \<longleftrightarrow> fst r \<le> x \<and> x < snd r"
  by (simp add: span_def)

lemma mem_covers: "x \<in> covers rs \<longleftrightarrow> (\<exists>r \<in> set rs. x \<in> span r)"
  by (simp add: covers_def)

lemma normalized_Cons:
  "normalized (r # rs) \<longleftrightarrow> fst r < snd r \<and> (\<forall>s \<in> set rs. snd r \<le> fst s) \<and> normalized rs"
  by (auto simp: normalized_def)

lemma separated_normalized: "separated rs \<Longrightarrow> normalized rs"
  unfolding separated_def normalized_def by (auto elim: sorted_wrt_mono_rel [rotated])

section \<open>Difference\<close>

lemma normalized_append:
  "normalized (rs @ ss) \<longleftrightarrow>
     normalized rs \<and> normalized ss \<and> (\<forall>r \<in> set rs. \<forall>s \<in> set ss. snd r \<le> fst s)"
  by (auto simp: normalized_def sorted_wrt_append)

lemma normalized_dropWhile: "normalized rs \<Longrightarrow> normalized (dropWhile P rs)"
  by (induction rs) (auto simp: normalized_Cons)

lemma emit_inner_correct:
  assumes "normalized bs" "cursor < e" "emit_inner e cursor bs = (out, c)"
  shows "covers out \<union> {c..<e} = {cursor..<e} - covers bs \<and> normalized out \<and>
    (\<forall>r \<in> set out. cursor \<le> fst r \<and> snd r \<le> min c e) \<and> cursor \<le> c"
  using assms
proof (induction bs arbitrary: cursor out c)
  case Nil
  then show ?case by (simp add: normalized_def)
next
  case (Cons b bs)
  let ?first = "if fst b > cursor then [(cursor, min e (fst b))] else []"
  let ?cur = "max cursor (snd b)"
  have b: "fst b < snd b" "normalized bs" and later: "\<And>x. x \<in> covers bs \<Longrightarrow> snd b \<le> x"
    using Cons.prems(1) by (fastforce simp: normalized_Cons mem_covers)+
  consider (beyond) "e \<le> fst b" | (stop) "fst b < e" "e \<le> ?cur" | (go) "fst b < e" "?cur < e"
    by linarith
  then show ?case
  proof cases
    case beyond
    then show ?thesis
      using Cons.prems b later by (fastforce simp: normalized_def)
  next
    case stop
    then have o: "out = ?first" "c = ?cur" "e \<le> snd b"
      using Cons.prems by (auto simp: Let_def split: if_splits)
    have "covers out \<union> {c..<e} = {cursor..<e} - span b"
      using o stop(1) by (auto split: if_splits)
    also have "\<dots> = {cursor..<e} - covers (b # bs)"
      using later o(3) by fastforce
    finally show ?thesis
      using o(1,2) Cons.prems(2) b(1) stop(1) by (simp add: normalized_def)
  next
    case go
    obtain rest c' where r: "emit_inner e ?cur bs = (rest, c')" by fastforce
    then have out: "out = ?first @ rest" "c = c'"
      using Cons.prems go by (auto simp: Let_def split: if_splits)
    note IH = Cons.IH [OF b(2) go(2) r]
    have "covers out \<union> {c..<e} = covers ?first \<union> ({?cur..<e} - covers bs)"
      using IH out by auto
    also have "\<dots> = {cursor..<e} - covers (b # bs)"
    proof (rule set_eqI)
      fix x show "x \<in> covers ?first \<union> ({?cur..<e} - covers bs) \<longleftrightarrow> x \<in> {cursor..<e} - covers (b # bs)"
        using later [of x] b go Cons.prems(2) by (cases "x \<in> covers bs") auto
    qed
    finally have cov: "covers out \<union> {c..<e} = {cursor..<e} - covers (b # bs)" .
    have first: "normalized ?first" "\<forall>r \<in> set ?first. cursor \<le> fst r \<and> snd r \<le> ?cur \<and> snd r \<le> e"
      using b go Cons.prems(2) by (auto simp: normalized_def)
    have "normalized out"
      unfolding out normalized_append using IH first by fastforce
    moreover have "\<forall>r \<in> set out. cursor \<le> fst r \<and> snd r \<le> min c e"
      unfolding out using IH first by fastforce
    ultimately show ?thesis
      using cov IH out by simp
  qed
qed

lemma covers_dropWhile:
  assumes "normalized (r # as)" "normalized bs"
  shows "covers (r # as) - covers (dropWhile (\<lambda>b. snd b \<le> fst r) bs) = covers (r # as) - covers bs"
proof -
  have low: "fst r \<le> x" if "x \<in> covers (r # as)" for x
    using that assms(1) by (fastforce simp: normalized_Cons mem_covers)
  have "x < fst r" if "x \<in> covers (takeWhile (\<lambda>b. snd b \<le> fst r) bs)" for x
    using that by (fastforce simp: mem_covers dest: set_takeWhileD)
  moreover have "covers bs = covers (takeWhile (\<lambda>b. snd b \<le> fst r) bs) \<union>
      covers (dropWhile (\<lambda>b. snd b \<le> fst r) bs)"
    by (metis covers_simps(3) takeWhile_dropWhile_id)
  ultimately show ?thesis
    using low by (fastforce dest: leD)
qed

lemma visit_resident_difference_correct:
  assumes "normalized as" "normalized bs"
  shows "covers (visit_resident_difference as bs) = covers as - covers bs \<and>
    normalized (visit_resident_difference as bs) \<and>
    (\<forall>s \<in> set (visit_resident_difference as bs). \<exists>r \<in> set as. fst r \<le> fst s \<and> snd s \<le> snd r)"
  using assms
proof (induction as arbitrary: bs)
  case Nil
  then show ?case by (simp add: normalized_def)
next
  case (Cons r as)
  let ?bs = "dropWhile (\<lambda>b. snd b \<le> fst r) bs"
  obtain out c where o: "emit_inner (snd r) (fst r) ?bs = (out, c)" by fastforce
  let ?rest = "if c < snd r then [(c, snd r)] else []"
  have r: "fst r < snd r" "normalized as" and above: "\<And>s. s \<in> set as \<Longrightarrow> snd r \<le> fst s"
    using Cons.prems by (auto simp: normalized_Cons)
  have bs: "normalized ?bs"
    using Cons.prems(2) by (rule normalized_dropWhile)
  note E = emit_inner_correct [OF bs r(1) o] and IH = Cons.IH [OF r(2) bs]
  have d: "visit_resident_difference (r # as) bs = (out @ ?rest) @ visit_resident_difference as ?bs"
    using o by (simp add: Let_def)
  have "covers (out @ ?rest) = span r - covers ?bs"
    using E by (auto simp: span_def)
  then have "covers (visit_resident_difference (r # as) bs) = covers (r # as) - covers ?bs"
    using IH d by auto
  moreover have "normalized (out @ ?rest)"
    using E by (auto simp: normalized_append normalized_def [of "[_]"] normalized_def [of "[]"])
  moreover have in_r: "\<forall>s \<in> set (out @ ?rest). fst r \<le> fst s \<and> snd s \<le> snd r"
    using E by auto
  moreover have "snd s \<le> fst s'"
    if "s \<in> set (out @ ?rest)" "s' \<in> set (visit_resident_difference as ?bs)" for s s'
    using that in_r IH above by (meson order_trans)
  ultimately have "normalized (visit_resident_difference (r # as) bs)"
    unfolding d using IH by (subst normalized_append) blast
  moreover have "\<exists>q \<in> set (r # as). fst q \<le> fst s \<and> snd s \<le> snd q"
    if "s \<in> set (visit_resident_difference (r # as) bs)" for s
    using that in_r IH unfolding d set_append [of "out @ ?rest"] by (meson UnE list.set_intros)
  ultimately show ?case
    using \<open>covers (visit_resident_difference (r # as) bs) = covers (r # as) - covers ?bs\<close>
      covers_dropWhile [OF Cons.prems] by simp
qed

text \<open>The two passes agree: the counting pass admits exactly what the filling pass emits.\<close>

lemma count_fold:
  "cnt + length xs \<le> SIZE_MAX \<Longrightarrow>
   fold (\<lambda>_ r. case r of Inl e \<Rightarrow> Inl e
      | Inr cnt \<Rightarrow> if cnt = SIZE_MAX then Inl Overflow_error else Inr (Suc cnt)) xs (Inr cnt)
   = Inr (cnt + length xs)"
  by (induction xs arbitrary: cnt) auto

lemma fill_fold:
  "length acc + length xs \<le> n \<Longrightarrow>
   fold (\<lambda>r out. case out of Inl e \<Rightarrow> Inl e
      | Inr result \<Rightarrow> if length result = n then Inl Length_error else Inr (result @ [r])) xs (Inr acc)
   = Inr (acc @ xs)"
  by (induction xs arbitrary: acc) auto

lemma resident_difference_visit:
  assumes "length (visit_resident_difference a b) \<le> SIZE_MAX"
  shows "resident_difference a b = Inr (visit_resident_difference a b)"
  using assms count_fold [of 0 "visit_resident_difference a b"]
    fill_fold [of "[]" "visit_resident_difference a b"]
  by (simp add: resident_difference_def resident_difference_count_def
      resident_difference_precounted_def)

lemma normalized_length:
  assumes "normalized rs"
  shows "finite (covers rs) \<and> length rs \<le> card (covers rs)"
  using assms
proof (induction rs)
  case Nil
  then show ?case by simp
next
  case (Cons r rs)
  then have r: "fst r < snd r" and IH: "finite (covers rs)" "length rs \<le> card (covers rs)"
    and disj: "span r \<inter> covers rs = {}"
    by (auto simp: normalized_Cons mem_covers) fastforce
  have "card (covers (r # rs)) = card (span r) + card (covers rs)"
    using IH(1) disj by (simp add: card_Un_disjoint span_def)
  then show ?case
    using IH r by (simp add: span_def)
qed

text \<open>
  C5. For normalized unions of ranges of 64-bit addresses, \<open>resident_difference\<close> returns (it never
  throws), the result covers exactly the addresses of \<open>a\<close> that are not in \<open>b\<close>, and it is normalized
  again.
\<close>

theorem resident_difference_correct:
  assumes "normalized a" "normalized b" and "\<forall>r \<in> set a. snd r \<le> SIZE_MAX"
  shows "\<exists>d. resident_difference a b = Inr d \<and> covers d = covers a - covers b \<and> normalized d"
proof -
  let ?d = "visit_resident_difference a b"
  note V = visit_resident_difference_correct [OF assms(1,2)]
  have "covers ?d \<subseteq> {..<SIZE_MAX}"
    using V assms(3) by (fastforce simp: mem_covers)
  then have "card (covers ?d) \<le> SIZE_MAX"
    using card_mono [of "{..<SIZE_MAX}" "covers ?d"] by simp
  then have "length ?d \<le> SIZE_MAX"
    using V normalized_length [of ?d] by simp
  then show ?thesis
    using resident_difference_visit V by blast
qed

theorem resident_difference_correct_witness:
  "resident_difference [(0, 10), (20, 30)] [(5, 22), (25, 26)] = Inr [(0, 5), (22, 25), (26, 30)] \<and>
   covers [(0, 5), (22, 25), (26, 30)] = covers [(0, 10), (20, 30)] - covers [(5, 22), (25, 26)]"
proof -
  have d: "resident_difference [(0, 10), (20, 30)] [(5, 22), (25, 26)] =
      Inr [(0, 5), (22, 25), (26, 30)]"
    by (simp add: resident_difference_visit SIZE_MAX_def)
  then show ?thesis
    using resident_difference_correct [of "[(0, 10), (20, 30)]" "[(5, 22), (25, 26)]"]
    by (auto simp: normalized_def SIZE_MAX_def)
qed

section \<open>Unions\<close>

lemma separated_append:
  "separated (rs @ ss) \<longleftrightarrow>
     separated rs \<and> separated ss \<and> (\<forall>r \<in> set rs. \<forall>s \<in> set ss. snd r < fst s)"
  by (auto simp: separated_def sorted_wrt_append)

lemma separated_single [simp]: "separated [] = True" "separated [r] \<longleftrightarrow> fst r < snd r"
  by (simp_all add: separated_def)

text \<open>Pushing ranges in order of their starts keeps the output separated and adds their addresses.\<close>

lemma push_range_correct:
  assumes "separated out" "\<forall>s \<in> set out. fst s \<le> fst r" "fst r < snd r"
  shows "separated (push_range out r) \<and> covers (push_range out r) = covers out \<union> span r \<and>
    (\<forall>s \<in> set (push_range out r). fst s \<le> fst r)"
proof (cases "out \<noteq> [] \<and> fst r \<le> snd (last out)")
  case True
  define l where "l = last out"
  have out: "out = butlast out @ [l]"
    using True by (simp add: l_def)
  then have sep: "separated (butlast out)" "fst l < snd l"
    "\<forall>s \<in> set (butlast out). snd s < fst l"
    using assms(1) separated_append [of "butlast out" "[l]"] by auto
  have p: "push_range out r = butlast out @ [(fst l, max (snd l) (snd r))]"
    using True by (simp add: push_range_def l_def)
  have l: "fst l \<le> fst r" "fst r \<le> snd l"
    using True assms(2) by (auto simp: l_def)
  then have "span l \<union> span r = span (fst l, max (snd l) (snd r))"
    using sep(2) assms(3) by (auto simp: max_def)
  moreover have "covers out = covers (butlast out) \<union> span l"
    using out covers_simps(2) [of l "[]"] covers_simps(3) [of "butlast out" "[l]"] by simp
  ultimately have "covers (push_range out r) = covers out \<union> span r"
    unfolding p by (simp add: Un_assoc)
  moreover have "separated (push_range out r)"
    unfolding p separated_append using sep by (simp add: less_max_iff_disj)
  moreover have "\<forall>s \<in> set (push_range out r). fst s \<le> fst r"
    unfolding p using assms(2) l(1) by (auto dest: in_set_butlastD)
  ultimately show ?thesis by blast
next
  case False
  have "\<forall>s \<in> set out. snd s < fst r"
  proof
    fix s assume "s \<in> set out"
    then have "snd s \<le> snd (last out)"
      using assms(1) by (cases out rule: rev_cases) (fastforce simp: separated_append)+
    then show "snd s < fst r"
      using False \<open>s \<in> set out\<close> by (cases out) auto
  qed
  then show ?thesis
    using False assms by (auto simp: push_range_def separated_append)
qed

lemma fold_push_range_correct:
  assumes "separated out" "sorted_wrt (\<lambda>r s. fst r \<le> fst s) rs" "\<forall>r \<in> set rs. fst r < snd r"
    and "\<forall>s \<in> set out. \<forall>r \<in> set rs. fst s \<le> fst r"
  shows "separated (fold (\<lambda>r out. push_range out r) rs out) \<and>
    covers (fold (\<lambda>r out. push_range out r) rs out) = covers out \<union> covers rs"
  using assms
proof (induction rs arbitrary: out)
  case Nil
  then show ?case by simp
next
  case (Cons r rs)
  note P = push_range_correct [of out r]
  have "separated (push_range out r)" "covers (push_range out r) = covers out \<union> span r"
    and low: "\<forall>s \<in> set (push_range out r). fst s \<le> fst r"
    using P Cons.prems by auto
  moreover have "\<forall>s \<in> set (push_range out r). \<forall>q \<in> set rs. fst s \<le> fst q"
    using low Cons.prems(2) by fastforce
  ultimately show ?case
    using Cons.IH [of "push_range out r"] Cons.prems(2,3) by (simp add: Un_assoc)
qed

text \<open>The array loop computes the fold over the part that is still to be read.\<close>

lemma compact_loop_fold:
  assumes "written \<le> readi" "readi \<le> length ranges" "compact_loop readi written ranges = (w, c)"
  shows "w \<le> length c \<and>
    take w c = fold (\<lambda>r out. push_range out r) (drop readi ranges) (take written ranges)"
  using assms
proof (induction readi written ranges rule: compact_loop.induct)
  case (1 readi written ranges)
  show ?case
  proof (cases "readi < length ranges")
    case False
    then show ?thesis
      using "1.prems" by (subst (asm) compact_loop.simps) auto
  next
    case True
    let ?r = "ranges ! readi"
    have d: "drop readi ranges = ?r # drop (Suc readi) ranges"
      using True by (simp add: Cons_nth_drop_Suc)
    have last: "written \<noteq> 0 \<Longrightarrow> last (take written ranges) = ranges ! (written - 1)"
      using "1.prems" True by (subst last_conv_nth) auto
    show ?thesis
    proof (cases "written \<noteq> 0 \<and> fst ?r \<le> snd (ranges ! (written - 1))")
      case merge: True
      let ?m = "(fst (ranges ! (written - 1)), max (snd (ranges ! (written - 1))) (snd ?r))"
      have "take written (ranges[written - 1 := ?m]) = push_range (take written ranges) ?r"
        using merge "1.prems" True last
        by (auto simp: push_range_def take_update_swap butlast_take
            intro!: nth_equalityI simp: nth_append nth_list_update)
      moreover have "compact_loop (Suc readi) written (ranges[written - 1 := ?m]) = (w, c)"
        using "1.prems"(3) True merge by (subst (asm) compact_loop.simps) (simp add: Let_def)
      ultimately show ?thesis
        using "1.IH"(1) [OF True refl merge] "1.prems" True d by simp
    next
      case append: False
      have "take (Suc written) (ranges[written := ?r]) = push_range (take written ranges) ?r"
        using append "1.prems" True last
        by (auto simp: push_range_def take_Suc_conv_app_nth)
      moreover have "compact_loop (Suc readi) (Suc written) (ranges[written := ?r]) = (w, c)"
        using "1.prems"(3) True append by (subst (asm) compact_loop.simps) (auto simp: Let_def)
      ultimately show ?thesis
        using "1.IH"(2) [OF True refl append] "1.prems" True d by simp
    qed
  qed
qed

lemma in_place_fold:
  "merge_resident_ranges_in_place ranges = fold (\<lambda>r out. push_range out r) (sort ranges) []"
proof -
  obtain w c where "compact_loop 0 0 (sort ranges) = (w, c)" by fastforce
  then show ?thesis
    using compact_loop_fold [of 0 0 "sort ranges" w c]
    by (simp add: merge_resident_ranges_in_place_def)
qed

text \<open>The order in which the merging loop takes the ranges of its two inputs.\<close>

fun merge_order :: "resident_range list \<Rightarrow> resident_range list \<Rightarrow> resident_range list" where
  "merge_order [] bs = bs"
| "merge_order (x # as) [] = x # as"
| "merge_order (x # as) (y # bs) =
     (if x < y then x # merge_order as (y # bs) else y # merge_order (x # as) bs)"

lemma merge_loop_fold:
  "merge_loop a b out = fold (\<lambda>r out. push_range out r) (merge_order a b) out"
proof (induction a b out rule: merge_loop.induct)
  case (2 x as out)
  then show ?case by (cases as) auto
qed auto

lemma merge_order_mset: "mset (merge_order a b) = mset a + mset b"
  by (induction a b rule: merge_order.induct) auto

lemma merge_order_sorted: "sorted a \<Longrightarrow> sorted b \<Longrightarrow> sorted (merge_order a b)"
proof (induction a b rule: merge_order.induct)
  case (3 x as y bs)
  have set: "set (merge_order a b) = set a \<union> set b" for a b :: "resident_range list"
    by (metis merge_order_mset set_mset_mset set_mset_union)
  show ?case
    using 3 by (auto simp: set)
qed auto

lemma merge_order_sort: "sorted a \<Longrightarrow> sorted b \<Longrightarrow> merge_order a b = sort (a @ b)"
  by (rule properties_for_sort [symmetric]) (simp_all add: merge_order_mset merge_order_sorted)

text \<open>
  C6. \<open>merge_resident_ranges_in_place\<close> on any vector of nonempty ranges, in any order and with any
  overlaps: the compacted vector covers the same addresses, is sorted, and leaves a gap between
  consecutive ranges (touching ranges are joined).
\<close>

theorem merge_in_place_correct:
  assumes "\<forall>r \<in> set ranges. fst r < snd r"
  shows "covers (merge_resident_ranges_in_place ranges) = covers ranges \<and>
    separated (merge_resident_ranges_in_place ranges)"
proof -
  have "sorted_wrt (\<lambda>r s. fst r \<le> fst s) (sort ranges)"
    using sorted_sort [of ranges]
    by (rule sorted_wrt_mono_rel [rotated]) (auto simp: less_eq_prod_def)
  then show ?thesis
    using fold_push_range_correct [of "[]" "sort ranges"] assms
    by (simp add: in_place_fold covers_def)
qed

theorem merge_in_place_correct_witness:
  "merge_resident_ranges_in_place [(20, 30), (0, 10), (10, 15), (25, 40)] = [(0, 15), (20, 40)] \<and>
   covers [(0, 15), (20, 40)] = covers [(20, 30), (0, 10), (10, 15), (25, 40)]"
proof -
  have "merge_resident_ranges_in_place [(20, 30), (0, 10), (10, 15), (25, 40)] = [(0, 15), (20, 40)]"
    by (simp add: in_place_fold push_range_def)
  then show ?thesis
    using merge_in_place_correct [of "[(20, 30), (0, 10), (10, 15), (25, 40)]"] by simp
qed

text \<open>
  The allocation-free merge and the sorting one agree: on two sorted inputs that fit the reserved
  output, \<open>merge_sorted_resident_ranges\<close> produces exactly what \<open>merge_resident_ranges_in_place\<close>
  makes of their concatenation.
\<close>

theorem merge_sorted_eq_in_place:
  assumes "sorted a" "sorted b" "length a + length b \<le> capacity"
  shows "merge_sorted_resident_ranges capacity a b [] = Inr (merge_resident_ranges_in_place (a @ b))"
  using assms by (simp add: merge_sorted_resident_ranges_def merge_loop_fold merge_order_sort
      in_place_fold)

theorem merge_sorted_eq_in_place_witness:
  "merge_sorted_resident_ranges 4 [(0, 10), (30, 31)] [(5, 12), (12, 20)] [] =
     Inr (merge_resident_ranges_in_place [(0, 10), (30, 31), (5, 12), (12, 20)])"
  using merge_sorted_eq_in_place [of "[(0, 10), (30, 31)]" "[(5, 12), (12, 20)]" 4] by simp

section \<open>Lock chunks\<close>

lemma lock_chunks_sum:
  assumes "0 < chunk" "lock_chunks chunk cnt rs = Inr n"
  shows "n = cnt + (\<Sum>r\<leftarrow>rs. (snd r - fst r + chunk - 1) div chunk) \<and>
    (\<forall>r \<in> set rs. fst r < snd r)"
  using assms(2)
proof (induction rs arbitrary: cnt)
  case Nil
  then show ?case by simp
next
  case (Cons r rs)
  have ceil: "b div chunk + (if b mod chunk \<noteq> 0 then 1 else 0) = (b + chunk - 1) div chunk" for b
  proof (cases "b mod chunk = 0")
    case True
    then obtain k where "b = chunk * k" by auto
    then have "b + chunk - 1 = (chunk - 1) + chunk * k"
      using assms(1) by simp
    then show ?thesis
      using assms(1) \<open>b = chunk * k\<close> by (simp only: div_mult_self2) simp
  next
    case False
    have "(b + chunk - 1) div chunk = ((b mod chunk - 1) + chunk * Suc (b div chunk)) div chunk"
      using False assms(1) by (metis (no_types, lifting) Nat.add_diff_assoc2 One_nat_def Suc_leI
          add.assoc add.commute mod_mult_div_eq mult_Suc_right neq0_conv)
    also have "\<dots> = Suc (b div chunk) + (b mod chunk - 1) div chunk"
      using assms(1) by (intro div_mult_self2) simp
    also have "(b mod chunk - 1) div chunk = 0"
      using mod_less_divisor [OF assms(1), of b] by (intro div_less) arith
    finally show ?thesis using False by simp
  qed
  from Cons.prems have "fst r < snd r"
    and "lock_chunks chunk (cnt + (snd r - fst r + chunk - 1) div chunk) rs = Inr n"
    by (auto simp only: lock_chunks.simps Let_def ceil split: if_splits)
  then show ?case
    using Cons.IH by fastforce
qed

end
