(* ===== verification/Token_History.thy ===== *)
theory Token_History
  imports Voidinfer_Prelude
begin

text \<open>
  Model of \<open>src/exl3/token_history.h\<close>: \<open>Exl3TokenHistory\<close>, the immutable record of the tokens a request
  has committed, as a radix tree of 64-token pages with 32 children per index node.

  A \<open>std::shared_ptr<const Node>\<close> is an optional node value: nodes are immutable, so a shared node is
  the same value wherever it is shared. The shortcut of \<open>same_nodes\<close> on equal pointers is the fact
  that the comparison is reflexive (\<open>same_nodes_refl\<close>). \<open>std::get\<close> on the other alternative of the
  variant would throw; \<open>rep\<close> below says the tree has the right alternative at every level, and every
  lemma about a search rests on it. The exhaustion of the metadata reservation and of the heap, the
  allocation faults of the tests and the accounting visitor are not modelled.

  The tree represents a token list (\<open>rep\<close>); \<open>append\<close>, \<open>suffix\<close>, \<open>equals\<close>, \<open>common_prefix\<close>,
  \<open>same_tokens\<close> and the fingerprint are shown to be the list operations on it.
\<close>

section \<open>Data\<close>

datatype hist_node =
    Page nat "int list"
  | Edges "hist_node option list"

record token_history =
  th_root :: "hist_node option"
  th_level :: nat
  th_position :: nat
  th_fingerprint :: u64

definition empty_page :: "int list" where
  "empty_page = replicate 64 0"

definition no_edges :: "hist_node option list" where
  "no_edges = replicate 32 None"

definition fnv_offset :: u64 where
  "fnv_offset = 1469598103934665603"

definition token_history_init :: token_history where
  "token_history_init = \<lparr>th_root = None, th_level = 0, th_position = 0,
     th_fingerprint = fnv_offset\<rparr>"

text \<open>\<open>64 << (5 * level)\<close>, the rows a node of a level covers.\<close>

definition node_rows :: "nat \<Rightarrow> nat" where
  "node_rows level = 64 * 32 ^ level"

lemma node_rows_Suc: "node_rows (Suc level) = 32 * node_rows level"
  by (simp add: node_rows_def)

lemma node_rows_pos [simp]: "0 < node_rows level"
  by (simp add: node_rows_def)

definition page_tokens :: "hist_node option \<Rightarrow> int list" where
  "page_tokens n = (case n of Some (Page _ ts) \<Rightarrow> ts | _ \<Rightarrow> empty_page)"

definition page_rows :: "hist_node option \<Rightarrow> nat" where
  "page_rows n = (case n of Some (Page r _) \<Rightarrow> r | _ \<Rightarrow> 0)"

definition node_edges :: "hist_node option \<Rightarrow> hist_node option list" where
  "node_edges n = (case n of Some (Edges es) \<Rightarrow> es | _ \<Rightarrow> no_edges)"

section \<open>Operations\<close>

text \<open>\<open>std::copy_n\<close> of \<open>xs\<close> into \<open>ys\<close> starting at \<open>offset\<close>.\<close>

definition copy_into :: "'a list \<Rightarrow> nat \<Rightarrow> 'a list \<Rightarrow> 'a list" where
  "copy_into xs offset ys = take offset ys @ xs @ drop (offset + length xs) ys"

primrec append_pages ::
    "nat \<Rightarrow> hist_node option \<Rightarrow> nat \<Rightarrow> nat \<Rightarrow> nat \<Rightarrow> int list \<Rightarrow> bool \<Rightarrow> hist_node" where
  "append_pages 0 node base first stop tokens promoted_root =
     (let start = max base first; limit = min (base + node_rows 0) stop in
      Page (limit - base)
        (copy_into (take (limit - start) (drop (start - first) tokens)) (start - base)
          (page_tokens node)))"
| "append_pages (Suc level) node base first stop tokens promoted_root =
     (let start = max base first; limit = min (base + node_rows (Suc level)) stop;
          edges = (if promoted_root then no_edges[0 := node] else node_edges node);
          child_rows = node_rows level in
      Edges (fold (\<lambda>slot es. es[slot := Some
                (append_pages level (es ! slot) (base + slot * child_rows) first stop tokens False)])
          [(start - base) div child_rows..<Suc ((limit - 1 - base) div child_rows)] edges))"

definition extend_byte :: "u64 \<Rightarrow> u8 \<Rightarrow> u64" where
  "extend_byte v b = (xor v (ucast b)) * 1099511628211"

definition extend_token :: "u64 \<Rightarrow> int \<Rightarrow> u64" where
  "extend_token v token =
     fold (\<lambda>shift v. extend_byte v (ucast (drop_bit shift (word_of_int token :: u64))))
       [0, 8, 16, 24, 32, 40, 48, 56] v"

definition extend_fingerprint :: "u64 \<Rightarrow> int list \<Rightarrow> u64" where
  "extend_fingerprint v tokens = fold (\<lambda>t v. extend_token v t) tokens v"

text \<open>The loop of \<open>append\<close> that raises the root: level, root and \<open>promoted_root\<close>.\<close>

function grow_root :: "nat \<Rightarrow> nat \<Rightarrow> hist_node option \<Rightarrow> bool \<Rightarrow> nat \<times> hist_node option \<times> bool" where
  "grow_root stop level root promoted =
     (if stop > node_rows level then
        if root \<noteq> None \<and> stop > node_rows (Suc level)
        then grow_root stop (Suc level) (Some (Edges (no_edges[0 := root]))) promoted
        else grow_root stop (Suc level) root (root \<noteq> None)
      else (level, root, promoted))"
  by pat_completeness auto
termination
proof (relation "measure (\<lambda>(stop, level, root, promoted). stop - node_rows level)", goal_cases)
  case 1
  show ?case by simp
next
  case (2 stop level root promoted)
  then have "node_rows level < stop" by simp
  then show ?case
    using node_rows_pos [of level] by (simp add: node_rows_Suc diff_less_mono2 del: node_rows_pos)
next
  case (3 stop level root promoted)
  then have "node_rows level < stop" by simp
  then show ?case
    using node_rows_pos [of level] by (simp add: node_rows_Suc diff_less_mono2 del: node_rows_pos)
qed

declare grow_root.simps [simp del]

definition vocabulary :: int where
  "vocabulary = 248320"

definition append_tokens :: "int list \<Rightarrow> token_history \<Rightarrow> exn + token_history" where
  "append_tokens tokens h =
     (if int (length tokens) > INT32_MAX - int (th_position h) then Inl Invalid_argument
      else if \<exists>t \<in> set tokens. t < 0 \<or> t \<ge> vocabulary then Inl Invalid_argument
      else if tokens = [] then Inr h
      else let stop = th_position h + length tokens;
               (level, root, promoted) = grow_root stop (th_level h) (th_root h) False in
        Inr \<lparr>th_root = Some (append_pages level root 0 (th_position h) stop tokens promoted),
             th_level = level, th_position = stop,
             th_fingerprint = extend_fingerprint (th_fingerprint h) tokens\<rparr>)"

primrec descend :: "nat \<Rightarrow> hist_node option \<Rightarrow> nat \<Rightarrow> hist_node option" where
  "descend 0 node index = node"
| "descend (Suc level) node index =
     descend level (node_edges node ! ((index div 32 ^ level) mod 32)) index"

definition page_node :: "token_history \<Rightarrow> nat \<Rightarrow> hist_node option" where
  "page_node h index = descend (th_level h) (th_root h) index"

definition suffix_tokens :: "int \<Rightarrow> token_history \<Rightarrow> exn + int list" where
  "suffix_tokens first h =
     (if first < 0 \<or> first > int (th_position h) then Inl Invalid_argument
      else let pages = (th_position h + 63) div 64; f = nat first in
        Inr (concat (map (\<lambda>index. let p = page_node h index; skip = f - index * 64 in
               drop skip (take (page_rows p) (page_tokens p))) [f div 64..<pages])))"

text \<open>The loop of \<open>equals\<close>; fuel is the number of tokens left plus one.\<close>

primrec equals_loop :: "nat \<Rightarrow> token_history \<Rightarrow> int list \<Rightarrow> nat \<Rightarrow> bool" where
  "equals_loop 0 h tokens offset = False"
| "equals_loop (Suc fuel) h tokens offset =
     (if offset < length tokens then
        let p = page_node h (offset div 64); rows = page_rows p in
        if take rows (page_tokens p) \<noteq> take rows (drop offset tokens) then False
        else equals_loop fuel h tokens (offset + rows)
      else offset = length tokens)"

definition equals_tokens :: "int list \<Rightarrow> token_history \<Rightarrow> bool" where
  "equals_tokens tokens h =
     (if length tokens \<noteq> th_position h then False
      else equals_loop (Suc (length tokens)) h tokens 0)"

text \<open>\<open>std::mismatch\<close> on two ranges of equal length: how many leading elements agree.\<close>

fun agree :: "'a list \<Rightarrow> 'a list \<Rightarrow> nat" where
  "agree (x # xs) (y # ys) = (if x = y then Suc (agree xs ys) else 0)"
| "agree xs ys = 0"

primrec common_prefix_loop :: "nat \<Rightarrow> token_history \<Rightarrow> int list \<Rightarrow> nat \<Rightarrow> nat \<Rightarrow> nat" where
  "common_prefix_loop 0 h tokens limit offset = offset"
| "common_prefix_loop (Suc fuel) h tokens limit offset =
     (if offset < limit then
        let p = page_node h (offset div 64); rows = min (page_rows p) (limit - offset);
            same = agree (take rows (page_tokens p)) (drop offset tokens) in
        if same < rows then offset + same
        else common_prefix_loop fuel h tokens limit (offset + same)
      else offset)"

definition common_prefix :: "int list \<Rightarrow> token_history \<Rightarrow> nat" where
  "common_prefix tokens h =
     (let limit = min (length tokens) (th_position h) in
      common_prefix_loop (Suc limit) h tokens limit 0)"

primrec same_node :: "hist_node \<Rightarrow> hist_node \<Rightarrow> bool" where
  "same_node (Page r xs) n =
     (case n of Page s ys \<Rightarrow> r = s \<and> take r xs = take r ys | Edges fs \<Rightarrow> False)"
| "same_node (Edges es) n =
     (case n of Page s ys \<Rightarrow> False
      | Edges fs \<Rightarrow> list_all2 (\<lambda>left right. case left of None \<Rightarrow> right = None
          | Some same \<Rightarrow> (case right of None \<Rightarrow> False | Some m \<Rightarrow> same m))
            (map (map_option same_node) es) fs)"

definition same_nodes :: "hist_node option \<Rightarrow> hist_node option \<Rightarrow> bool" where
  "same_nodes left right = (case left of None \<Rightarrow> right = None
     | Some n \<Rightarrow> (case right of None \<Rightarrow> False | Some m \<Rightarrow> same_node n m))"

definition same_tokens :: "token_history \<Rightarrow> token_history \<Rightarrow> bool" where
  "same_tokens h k \<longleftrightarrow> th_position h = th_position k \<and> same_nodes (th_root h) (th_root k)"

section \<open>The token list a tree represents\<close>

text \<open>
  \<open>rep l base T node\<close>: \<open>node\<close> is a tree of level \<open>l\<close> that holds the tokens of \<open>T\<close> at the positions
  \<open>base, base + 1, \<dots>\<close> as far as a node of that level reaches.
\<close>

primrec rep :: "nat \<Rightarrow> nat \<Rightarrow> int list \<Rightarrow> hist_node option \<Rightarrow> bool" where
  "rep 0 base T node \<longleftrightarrow>
     (if length T \<le> base then node = None
      else \<exists>ts. node = Some (Page (min 64 (length T - base)) ts) \<and> length ts = 64 \<and>
             (\<forall>i < min 64 (length T - base). ts ! i = T ! (base + i)))"
| "rep (Suc l) base T node \<longleftrightarrow>
     (if length T \<le> base then node = None
      else \<exists>es. node = Some (Edges es) \<and> length es = 32 \<and>
             (\<forall>i < 32. rep l (base + i * node_rows l) T (es ! i)))"

lemma rep_outside: "length T \<le> base \<Longrightarrow> rep l base T node \<longleftrightarrow> node = None"
  by (cases l) auto

lemma rep_None: "rep l base T None \<longleftrightarrow> length T \<le> base"
  by (cases l) auto

lemma rep_full:
  assumes "base + node_rows l \<le> length T"
  shows "rep l base (T @ ts) node \<longleftrightarrow> rep l base T node"
  using assms
proof (induction l arbitrary: base node)
  case 0
  then have "min 64 (length (T @ ts) - base) = 64" "min 64 (length T - base) = 64"
    by (auto simp: node_rows_def)
  then show ?case
    using 0 by (auto simp: node_rows_def nth_append)
next
  case (Suc l)
  have "rep l (base + i * node_rows l) (T @ ts) n \<longleftrightarrow> rep l (base + i * node_rows l) T n"
    if "i < 32" for i n
  proof (rule Suc.IH)
    have "Suc i * node_rows l \<le> 32 * node_rows l"
      using that by (intro mult_le_mono1) simp
    then show "base + i * node_rows l + node_rows l \<le> length T"
      using Suc.prems unfolding node_rows_Suc mult_Suc by linarith
  qed
  moreover have "base < length T"
    using Suc.prems node_rows_pos [of "Suc l"] by linarith
  ultimately show ?case by simp
qed

lemma no_edges_simps [simp]: "length no_edges = 32" "i < 32 \<Longrightarrow> no_edges ! i = None"
  by (simp_all add: no_edges_def)

text \<open>A root raised by one level, with the old root as child 0.\<close>

lemma rep_promote:
  assumes "rep l 0 T (Some n)" "length T \<le> node_rows l"
  shows "rep (Suc l) 0 T (Some (Edges (no_edges[0 := Some n])))"
proof -
  have ne: "0 < length T"
    using assms(1) by (cases l) (auto split: if_splits)
  have "rep l (i * node_rows l) T (no_edges[0 := Some n] ! i)" if "i < 32" for i
  proof (cases i)
    case 0
    then show ?thesis using assms(1) by simp
  next
    case (Suc k)
    then have "length T \<le> i * node_rows l"
      using assms(2) by simp
    then show ?thesis
      using that Suc by (simp add: rep_None)
  qed
  then show ?thesis using ne by simp
qed

subsection \<open>Appending\<close>

lemma copy_into_nth:
  assumes "offset + length xs \<le> length ys" "i < length ys"
  shows "length (copy_into xs offset ys) = length ys"
    and "copy_into xs offset ys ! i =
      (if offset \<le> i \<and> i < offset + length xs then xs ! (i - offset) else ys ! i)"
  using assms by (auto simp: copy_into_def nth_append min_def)

lemma page_tokens_rep:
  assumes "rep 0 base T node"
  shows "length (page_tokens node) = 64"
    and "i < min 64 (length T - base) \<Longrightarrow> page_tokens node ! i = T ! (base + i)"
  using assms by (auto simp: page_tokens_def empty_page_def split: if_splits)

lemma append_pages_rep_leaf:
  assumes "rep 0 base T node" "max base (length T) < min (base + node_rows 0) (length T + length ts)"
  shows "rep 0 base (T @ ts)
    (Some (append_pages 0 node base (length T) (length T + length ts) ts promoted))"
proof -
  define limit where "limit = min (base + 64) (length T + length ts)"
  define start where "start = max base (length T)"
  define new where "new = take (limit - start) (drop (start - length T) ts)"
  have lim: "start < limit" "limit \<le> base + 64" "limit \<le> length T + length ts"
    and st: "base \<le> start" "length T \<le> start" "start = base \<or> start = length T"
    using assms(2) by (auto simp: limit_def start_def node_rows_def)
  have new: "length new = limit - start"
    using lim st by (auto simp: new_def)
  have fits: "(start - base) + length new \<le> length (page_tokens node)"
    using lim st page_tokens_rep(1) [OF assms(1)] unfolding new by linarith
  have nth: "copy_into new (start - base) (page_tokens node) ! i = (T @ ts) ! (base + i)"
    if i: "i < limit - base" for i
  proof (cases "start - base \<le> i")
    case True
    then have k: "i - (start - base) < limit - start" "base + i - length T = (start - length T) + (i - (start - base))"
      using i st by linarith+
    have "copy_into new (start - base) (page_tokens node) ! i = new ! (i - (start - base))"
      using True i lim fits k(1) page_tokens_rep(1) [OF assms(1)] new
      by (subst copy_into_nth(2) [OF fits]) auto
    also have "\<dots> = ts ! (base + i - length T)"
      using k lim st by (simp add: new_def)
    finally have "copy_into new (start - base) (page_tokens node) ! i = ts ! (base + i - length T)" .
    moreover have "length T \<le> base + i"
      using True st by linarith
    ultimately show ?thesis
      by (simp add: nth_append)
  next
    case False
    then have small: "i < min 64 (length T - base)"
      using lim st by auto
    have "copy_into new (start - base) (page_tokens node) ! i = page_tokens node ! i"
      using False i lim page_tokens_rep(1) [OF assms(1)] by (subst copy_into_nth(2) [OF fits]) auto
    also have "\<dots> = T ! (base + i)"
      using page_tokens_rep(2) [OF assms(1) small] .
    finally have "copy_into new (start - base) (page_tokens node) ! i = T ! (base + i)" .
    moreover have "base + i < length T"
      using small by linarith
    ultimately show ?thesis
      by (simp add: nth_append)
  qed
  have "length (copy_into new (start - base) (page_tokens node)) = 64"
    using copy_into_nth(1) [OF fits, of 0] page_tokens_rep(1) [OF assms(1)] by simp
  moreover have "append_pages 0 node base (length T) (length T + length ts) ts promoted =
      Page (limit - base) (copy_into new (start - base) (page_tokens node))"
    by (simp add: Let_def node_rows_def limit_def start_def new_def)
  moreover have "min 64 (length (T @ ts) - base) = limit - base" "\<not> length (T @ ts) \<le> base"
    using lim st by (auto simp: limit_def)
  ultimately show ?thesis
    using nth by simp
qed

text \<open>The children a level-\<open>Suc l\<close> node visits are those with room in the new range.\<close>

lemma slot_range:
  assumes "0 < c" "base \<le> start" "start < limit"
  shows "(start - base) div c \<le> i \<and> i < Suc ((limit - 1 - base) div c) \<longleftrightarrow>
    start < base + i * c + c \<and> base + i * c < limit"
proof -
  have "(start - base) div c \<le> i \<longleftrightarrow> start - base < Suc i * c"
    using div_less_iff_less_mult [OF assms(1), of "start - base" "Suc i"] by auto
  moreover have "i < Suc ((limit - 1 - base) div c) \<longleftrightarrow> i * c \<le> limit - 1 - base"
    using less_eq_div_iff_mult_less_eq [OF assms(1), of i "limit - 1 - base"]
    by (simp add: less_Suc_eq_le)
  ultimately show ?thesis
    using assms(2,3) by auto
qed

lemma append_pages_rep:
  assumes "rep l base T node" "max base (length T) < min (base + node_rows l) (length T + length ts)"
  shows "rep l base (T @ ts)
    (Some (append_pages l node base (length T) (length T + length ts) ts False))"
  using assms
proof (induction l arbitrary: base node)
  case 0
  then show ?case by (rule append_pages_rep_leaf)
next
  case (Suc l)
  let ?c = "node_rows l" and ?n = "length T" and ?e = "length T + length ts"
  define limit where "limit = min (base + node_rows (Suc l)) ?e"
  define start where "start = max base ?n"
  define f where "f = (\<lambda>slot ch. Some (append_pages l ch (base + slot * ?c) ?n ?e ts False))"
  define es where "es = node_edges node"
  define slots where "slots = [(start - base) div ?c..<Suc ((limit - 1 - base) div ?c)]"
  have lim: "start < limit" "limit \<le> base + 32 * ?c" "limit \<le> ?e" "limit = base + 32 * ?c \<or> limit = ?e"
    and st: "base \<le> start" "?n \<le> start" "start = base \<or> start = ?n"
    using Suc.prems(2) by (auto simp: limit_def start_def node_rows_Suc)
  have es: "length es = 32" "\<And>i. i < 32 \<Longrightarrow> rep l (base + i * ?c) T (es ! i)"
    using Suc.prems(1) by (auto simp: es_def node_edges_def rep_None split: if_splits)
  have dist: "distinct slots"
    unfolding slots_def by (rule distinct_upt)
  have result: "append_pages (Suc l) node base ?n ?e ts False =
      Edges (fold (\<lambda>slot es. es[slot := f slot (es ! slot)]) slots es)"
    by (simp add: Let_def f_def es_def slots_def limit_def start_def)
  have child: "rep l (base + i * ?c) (T @ ts)
      (fold (\<lambda>slot es. es[slot := f slot (es ! slot)]) slots es ! i)" if i: "i < 32" for i
  proof (cases "i \<in> set slots")
    case True
    then have room: "start < base + i * ?c + ?c" "base + i * ?c < limit"
      using slot_range [OF node_rows_pos st(1) lim(1), of l i] by (auto simp: slots_def)
    then have "base + i * ?c < ?e" "?n < base + i * ?c + ?c" "?n < ?e"
      using lim st by linarith+
    then have "max (base + i * ?c) ?n < min (base + i * ?c + ?c) ?e"
      by simp
    then have "rep l (base + i * ?c) (T @ ts) (f i (es ! i))"
      unfolding f_def by (rule Suc.IH [OF es(2) [OF i]])
    then show ?thesis
      using True i es(1) dist by (simp add: fold_update_nth)
  next
    case False
    then have keep: "fold (\<lambda>slot es. es[slot := f slot (es ! slot)]) slots es ! i = es ! i"
      using i es(1) dist by (simp add: fold_update_nth)
    have "base + i * ?c + ?c \<le> start \<or> limit \<le> base + i * ?c"
      using False slot_range [OF node_rows_pos st(1) lim(1), of l i] by (auto simp: slots_def)
    then show ?thesis
    proof
      assume full: "base + i * ?c + ?c \<le> start"
      then have "base + i * ?c + ?c \<le> ?n"
        using st node_rows_pos [of l] by linarith
      then show ?thesis
        using es(2) [OF i] by (simp add: keep rep_full)
    next
      assume beyond: "limit \<le> base + i * ?c"
      have "i * ?c < 32 * ?c"
        using i by simp
      then have "?e \<le> base + i * ?c"
        using beyond lim by linarith
      then show ?thesis
        using es(2) [OF i] by (simp add: keep rep_outside)
    qed
  qed
  have "\<not> length (T @ ts) \<le> base"
    using lim st by auto
  then show ?case
    using child es(1) unfolding result by simp
qed

lemma append_pages_promoted:
  "append_pages (Suc l) node base first stop ts True =
   append_pages (Suc l) (Some (Edges (no_edges[0 := node]))) base first stop ts False"
  by (simp add: node_edges_def)

declare append_pages.simps [simp del] rep.simps [simp del]

definition raised :: "hist_node option \<Rightarrow> bool \<Rightarrow> hist_node option" where
  "raised root promoted = (if promoted then Some (Edges (no_edges[0 := root])) else root)"

lemma append_pages_raised:
  assumes "promoted \<Longrightarrow> l \<noteq> 0"
  shows "append_pages l root base first stop ts promoted =
    append_pages l (raised root promoted) base first stop ts False"
  using assms by (cases l; cases promoted) (auto simp: raised_def append_pages_promoted)

lemma grow_root_rep:
  assumes "rep level 0 T (raised root promoted)" "length T \<le> node_rows level"
    and "promoted \<Longrightarrow> stop \<le> node_rows level \<and> level \<noteq> 0"
    and "grow_root stop level root promoted = (level', root', promoted')"
  shows "rep level' 0 T (raised root' promoted') \<and> length T \<le> node_rows level' \<and>
    (promoted' \<longrightarrow> level' \<noteq> 0) \<and> stop \<le> node_rows level' \<and>
    (level' = level \<or> level' \<noteq> 0 \<and> node_rows (level' - 1) < stop)"
  using assms
proof (induction stop level root promoted rule: grow_root.induct)
  case (1 stop level root promoted)
  show ?case
  proof (cases "stop > node_rows level")
    case False
    then show ?thesis
      using "1.prems" by (subst (asm) grow_root.simps) auto
  next
    case True
    then have np: "\<not> promoted"
      using "1.prems"(3) by linarith
    then have rep: "rep level 0 T root"
      using "1.prems"(1) by (simp add: raised_def)
    have len: "length T \<le> node_rows (Suc level)"
      using "1.prems"(2) by (simp add: node_rows_Suc)
    show ?thesis
    proof (cases "root \<noteq> None \<and> stop > node_rows (Suc level)")
      case deep: True
      then have "rep (Suc level) 0 T (Some (Edges (no_edges[0 := root])))"
        using rep "1.prems"(2) rep_promote by auto
      then have "rep (Suc level) 0 T (raised (Some (Edges (no_edges[0 := root]))) promoted)"
        using np by (simp add: raised_def)
      moreover have "grow_root stop (Suc level) (Some (Edges (no_edges[0 := root]))) promoted =
          (level', root', promoted')"
        using "1.prems"(4) True deep by (subst (asm) grow_root.simps) simp
      ultimately show ?thesis
        using "1.IH"(1) [OF True deep] len np True by fastforce
    next
      case top: False
      have "rep (Suc level) 0 T (raised root (root \<noteq> None))"
        using rep "1.prems"(2) rep_promote by (cases root) (auto simp: raised_def rep_None)
      moreover have "grow_root stop (Suc level) root (root \<noteq> None) = (level', root', promoted')"
        using "1.prems"(4) True top by (subst (asm) grow_root.simps) (simp only: if_True if_False)
      ultimately show ?thesis
        using "1.IH"(2) [OF True top] len top True by fastforce
    qed
  qed
qed

section \<open>The invariant of a history\<close>

definition valid_tokens :: "int list \<Rightarrow> bool" where
  "valid_tokens ts \<longleftrightarrow> (\<forall>t \<in> set ts. 0 \<le> t \<and> t < vocabulary)"

text \<open>\<open>history_rep h T\<close>: \<open>h\<close> is a well-formed history that records exactly the tokens \<open>T\<close>.\<close>

definition history_rep :: "token_history \<Rightarrow> int list \<Rightarrow> bool" where
  "history_rep h T \<longleftrightarrow> rep (th_level h) 0 T (th_root h) \<and> th_position h = length T \<and>
     th_fingerprint h = extend_fingerprint fnv_offset T \<and>
     length T \<le> node_rows (th_level h) \<and>
     (th_level h = 0 \<or> node_rows (th_level h - 1) < length T) \<and>
     valid_tokens T \<and> int (length T) \<le> INT32_MAX"

lemma history_rep_init: "history_rep token_history_init []"
  by (simp add: history_rep_def token_history_init_def extend_fingerprint_def valid_tokens_def
      INT32_MAX_def rep_None)

lemma extend_fingerprint_append:
  "extend_fingerprint v (xs @ ys) = extend_fingerprint (extend_fingerprint v xs) ys"
  by (simp add: extend_fingerprint_def)

lemma append_tokens_rep:
  assumes h: "history_rep h T" and ok: "append_tokens ts h = Inr h'"
  shows "history_rep h' (T @ ts)"
proof (cases "ts = []")
  case True
  then show ?thesis
    using assms by (simp add: append_tokens_def split: if_splits)
next
  case False
  let ?stop = "length T + length ts"
  have pos: "th_position h = length T"
    using h by (simp add: history_rep_def)
  obtain l r p where g: "grow_root ?stop (th_level h) (th_root h) False = (l, r, p)"
    by (metis prod_cases3)
  have small: "int ?stop \<le> INT32_MAX" and valid: "valid_tokens ts"
    and h': "h' = \<lparr>th_root = Some (append_pages l r 0 (length T) ?stop ts p), th_level = l,
       th_position = ?stop, th_fingerprint = extend_fingerprint (th_fingerprint h) ts\<rparr>"
    using ok False g
    by (auto simp: append_tokens_def pos valid_tokens_def not_le not_less Let_def split: if_splits)
  have G: "rep l 0 T (raised r p) \<and> length T \<le> node_rows l \<and> (p \<longrightarrow> l \<noteq> 0) \<and>
      ?stop \<le> node_rows l \<and> (l = th_level h \<or> l \<noteq> 0 \<and> node_rows (l - 1) < ?stop)"
    using h g by (intro grow_root_rep [where level = "th_level h" and root = "th_root h" and promoted = False])
      (auto simp: history_rep_def raised_def)
  then have "append_pages l r 0 (length T) ?stop ts p =
      append_pages l (raised r p) 0 (length T) ?stop ts False"
    by (intro append_pages_raised) simp
  moreover have "rep l 0 (T @ ts) (Some (append_pages l (raised r p) 0 (length T) ?stop ts False))"
    using G False by (intro append_pages_rep) auto
  ultimately have "rep l 0 (T @ ts) (th_root h')"
    by (simp add: h')
  moreover have "th_level h' = 0 \<or> node_rows (th_level h' - 1) < length (T @ ts)"
    using G h by (auto simp: h' history_rep_def)
  ultimately show ?thesis
    using G h small valid
    by (simp add: history_rep_def h' extend_fingerprint_append valid_tokens_def ball_Un)
qed

lemma append_tokens_total:
  assumes "history_rep h T"
  shows "append_tokens ts h =
    (if valid_tokens ts \<and> int (length T) + int (length ts) \<le> INT32_MAX
     then Inr (after h (append_tokens ts h)) else Inl Invalid_argument)"
  using assms by (auto simp: append_tokens_def history_rep_def valid_tokens_def Let_def
      not_le not_less split: prod.splits)

lemma append_ok:
  assumes "history_rep h T" "valid_tokens ts" "int (length T) + int (length ts) \<le> INT32_MAX"
  shows "\<exists>h'. append_tokens ts h = Inr h' \<and> history_rep h' (T @ ts)"
proof -
  have "append_tokens ts h = Inr (after h (append_tokens ts h))"
    using append_tokens_total [OF assms(1), of ts] assms(2,3) by auto
  then show ?thesis
    using append_tokens_rep [OF assms(1)] by blast
qed

subsection \<open>Pages\<close>

lemma descend_rep:
  assumes "rep l (64 * 32 ^ l * q) T node" "r < 32 ^ l" "64 * (32 ^ l * q + r) < length T"
  shows "rep 0 (64 * (32 ^ l * q + r)) T (descend l node (32 ^ l * q + r))"
  using assms
proof (induction l arbitrary: node q r)
  case 0
  then show ?case by simp
next
  case (Suc l)
  define s where "s = r div 32 ^ l"
  define r' where "r' = r mod 32 ^ l"
  have r: "r = 32 ^ l * s + r'" "r' < 32 ^ l"
    by (simp_all add: s_def r'_def)
  have s: "s < 32"
    using Suc.prems(2) by (simp add: s_def less_mult_imp_div_less)
  have idx: "32 ^ Suc l * q + r = 32 ^ l * (32 * q + s) + r'"
    by (simp add: r(1) algebra_simps)
  have "(32 ^ Suc l * q + r) div 32 ^ l = 32 * q + s"
    unfolding idx using r(2) by simp
  then have slot: "(32 ^ Suc l * q + r) div 32 ^ l mod 32 = s"
    using s by simp
  have "\<not> length T \<le> 64 * 32 ^ Suc l * q"
    using Suc.prems(3) by simp
  then obtain es where es: "node = Some (Edges es)" "length es = 32"
    "rep l (64 * 32 ^ Suc l * q + s * node_rows l) T (es ! s)"
    using Suc.prems(1) s by (auto simp: rep.simps)
  have base: "64 * 32 ^ Suc l * q + s * node_rows l = 64 * 32 ^ l * (32 * q + s)"
    by (simp add: node_rows_def algebra_simps)
  have "rep 0 (64 * (32 ^ l * (32 * q + s) + r')) T (descend l (es ! s) (32 ^ l * (32 * q + s) + r'))"
    using es(3) r(2) Suc.prems(3) unfolding base idx by (intro Suc.IH)
  moreover have "descend (Suc l) node (32 ^ Suc l * q + r) = descend l (es ! s) (32 ^ Suc l * q + r)"
    using es(1) slot by (simp add: node_edges_def)
  ultimately show ?case
    unfolding idx by metis
qed

lemma page_node_rep:
  assumes "history_rep h T" "64 * index < length T"
  shows "page_rows (page_node h index) = min 64 (length T - 64 * index)"
    and "take (page_rows (page_node h index)) (page_tokens (page_node h index)) =
      take 64 (drop (64 * index) T)"
proof -
  have "index < 32 ^ th_level h"
    using assms by (auto simp: history_rep_def node_rows_def)
  then have "rep 0 (64 * index) T (page_node h index)"
    using descend_rep [of "th_level h" 0 T "th_root h" index] assms
    by (simp add: history_rep_def page_node_def)
  then show "page_rows (page_node h index) = min 64 (length T - 64 * index)"
    and "take (page_rows (page_node h index)) (page_tokens (page_node h index)) =
      take 64 (drop (64 * index) T)"
    using assms(2) by (auto simp: page_rows_def page_tokens_def rep.simps intro!: nth_equalityI)
qed

section \<open>Reading a history\<close>

lemma concat_pages:
  assumes "f div 64 \<le> m"
  shows "concat (map (\<lambda>index. drop (f - index * 64) (take 64 (drop (64 * index) T))) [f div 64..<m]) =
    drop f (take (64 * m) T)"
  using assms
proof (induction m rule: dec_induct)
  case base
  have "64 * (f div 64) \<le> f" by simp
  then show ?case by simp
next
  case (step n)
  have le: "f div 64 \<le> n" using step.hyps by simp
  have "take (64 * Suc n) T = take (64 * n) T @ take 64 (drop (64 * n) T)"
    using take_add [of "64 * n" 64 T] by (simp add: add.commute)
  then have "drop f (take (64 * Suc n) T) =
      drop f (take (64 * n) T) @ drop (f - length (take (64 * n) T)) (take 64 (drop (64 * n) T))"
    by simp
  also have "drop (f - length (take (64 * n) T)) (take 64 (drop (64 * n) T)) =
      drop (f - n * 64) (take 64 (drop (64 * n) T))"
    by (cases "64 * n \<le> length T") (auto simp: min_def mult.commute)
  finally show ?case
    using step.IH le by simp
qed

lemma suffix_tokens_rep:
  assumes "history_rep h T"
  shows "suffix_tokens first h =
    (if 0 \<le> first \<and> first \<le> int (length T) then Inr (drop (nat first) T) else Inl Invalid_argument)"
proof (cases "0 \<le> first \<and> first \<le> int (length T)")
  case False
  then show ?thesis
    using assms by (auto simp: suffix_tokens_def history_rep_def)
next
  case True
  define m where "m = (length T + 63) div 64"
  have pos: "th_position h = length T"
    using assms by (simp add: history_rep_def)
  have page: "take (page_rows (page_node h i)) (page_tokens (page_node h i)) = take 64 (drop (64 * i) T)"
    if "i < m" for i
  proof -
    have "Suc i * 64 \<le> length T + 63"
      using that less_eq_div_iff_mult_less_eq [of 64 "Suc i" "length T + 63"]
      by (simp add: m_def Suc_le_eq)
    then have "64 * i < length T" by simp
    then show ?thesis using page_node_rep(2) [OF assms] by blast
  qed
  have "length T < 64 * m + 1"
    using div_mult_mod_eq [of "length T + 63" 64] mod_less_divisor [of 64 "length T + 63"]
    unfolding m_def by linarith
  then have all: "take (64 * m) T = T" by simp
  have "nat first div 64 \<le> m"
    using True unfolding m_def by (intro div_le_mono) linarith
  note concat_pages [OF this, of T]
  moreover have "map (\<lambda>i. drop (nat first - i * 64)
      (take (page_rows (page_node h i)) (page_tokens (page_node h i)))) [nat first div 64..<m] =
    map (\<lambda>i. drop (nat first - i * 64) (take 64 (drop (64 * i) T))) [nat first div 64..<m]"
    by (rule map_cong) (simp_all add: page)
  ultimately have "concat (map (\<lambda>i. drop (nat first - i * 64)
      (take (page_rows (page_node h i)) (page_tokens (page_node h i)))) [nat first div 64..<m]) =
    drop (nat first) T"
    by (simp only: all)
  then show ?thesis
    using True by (simp add: suffix_tokens_def pos Let_def m_def [symmetric])
qed

lemma equals_loop_rep:
  assumes "history_rep h T" "length tokens = length T" "64 dvd offset \<or> length T \<le> offset"
    "offset \<le> length T" "take offset tokens = take offset T" "length T - offset < fuel"
  shows "equals_loop fuel h tokens offset \<longleftrightarrow> tokens = T"
  using assms(3-6)
proof (induction fuel arbitrary: offset)
  case 0
  then show ?case by simp
next
  case (Suc fuel)
  show ?case
  proof (cases "offset < length T")
    case False
    then show ?thesis using Suc.prems assms(2) by simp
  next
    case True
    let ?i = "offset div 64" and ?rows = "min 64 (length T - offset)"
    have off: "64 * ?i = offset" "64 dvd offset"
      using Suc.prems(1) True by auto
    have rows: "page_rows (page_node h ?i) = ?rows"
      and page: "take ?rows (page_tokens (page_node h ?i)) = take ?rows (drop offset T)"
      using page_node_rep [OF assms(1), of ?i] True off(1) by (auto simp: min_def)
    show ?thesis
    proof (cases "take ?rows (drop offset T) = take ?rows (drop offset tokens)")
      case False
      then show ?thesis
        using True assms(2) rows page by auto
    next
      case eq: True
      have "take (offset + ?rows) tokens = take (offset + ?rows) T"
        using Suc.prems(3) eq by (simp add: take_add)
      moreover have "64 dvd offset + ?rows \<or> length T \<le> offset + ?rows"
        using off(2) by (auto simp: min_def)
      ultimately have "equals_loop fuel h tokens (offset + ?rows) \<longleftrightarrow> tokens = T"
        using Suc.prems(4) True by (intro Suc.IH) auto
      then show ?thesis
        using True assms(2) rows page eq by simp
    qed
  qed
qed

lemma equals_tokens_rep: "history_rep h T \<Longrightarrow> equals_tokens tokens h \<longleftrightarrow> tokens = T"
  using equals_loop_rep [of h T tokens 0 "Suc (length tokens)"]
  by (auto simp: equals_tokens_def history_rep_def simp del: equals_loop.simps)

lemma agree_le: "agree xs ys \<le> length xs" "agree xs ys \<le> length ys"
  by (induction xs ys rule: agree.induct) auto

lemma agree_commute: "agree xs ys = agree ys xs"
  by (induction xs ys rule: agree.induct) auto

lemma agree_append:
  "length xs = length ys \<Longrightarrow> agree (xs @ us) (ys @ vs) = (if xs = ys then length xs + agree us vs else agree xs ys)"
  by (induction xs ys rule: list_induct2) auto

lemma agree_eq: "length xs \<le> length ys \<Longrightarrow> agree xs ys = length xs \<longleftrightarrow> xs = take (length xs) ys"
  by (induction xs ys rule: agree.induct) auto

lemma agree_take_left: "n \<le> length ys \<Longrightarrow> agree (take n xs) ys = agree (take n xs) (take n ys)"
proof (induction n arbitrary: xs ys)
  case 0
  then show ?case by simp
next
  case (Suc n)
  show ?case
  proof (cases xs)
    case Nil
    then show ?thesis by simp
  next
    case (Cons x xs')
    obtain y ys' where ys: "ys = y # ys'" "n \<le> length ys'"
      using Suc.prems by (cases ys) auto
    show ?thesis
      unfolding Cons ys(1) take_Suc_Cons agree.simps Suc.IH [OF ys(2), of xs'] ..
  qed
qed

text \<open>The longest common prefix of two lists is what \<open>agree\<close> measures.\<close>

lemma agree_split:
  assumes "rows \<le> length xs - offset" "rows \<le> length ys - offset"
    "take offset xs = take offset ys" "offset \<le> length xs" "offset \<le> length ys"
  shows "agree xs ys = (let same = agree (take rows (drop offset xs)) (take rows (drop offset ys)) in
    if same < rows then offset + same else agree xs ys)"
proof -
  define p where "p = take rows (drop offset xs)"
  define q where "q = take rows (drop offset ys)"
  have len: "length p = rows" "length q = rows"
    using assms by (simp_all add: p_def q_def)
  have "agree xs ys = agree (take offset xs @ drop offset xs) (take offset ys @ drop offset ys)"
    by simp
  also have "\<dots> = offset + agree (drop offset xs) (drop offset ys)"
    using assms(3-5) by (subst agree_append) (auto simp: min_def)
  also have "drop offset xs = p @ drop rows (drop offset xs)"
    unfolding p_def by (rule append_take_drop_id [symmetric])
  also have "drop offset ys = q @ drop rows (drop offset ys)"
    unfolding q_def by (rule append_take_drop_id [symmetric])
  finally have "agree xs ys = offset + (if p = q then rows + agree (drop rows (drop offset xs))
      (drop rows (drop offset ys)) else agree p q)"
    using len by (simp add: agree_append)
  moreover have "p = q \<longleftrightarrow> \<not> agree p q < rows"
    using agree_eq [of p q] agree_le(1) [of p q] len by auto
  ultimately show ?thesis
    by (simp add: Let_def p_def q_def)
qed

lemma agree_all: "take n xs = take n ys \<Longrightarrow> n = min (length xs) (length ys) \<Longrightarrow> agree xs ys = n"
proof (induction n arbitrary: xs ys)
  case 0
  then show ?case by (cases xs; cases ys) auto
next
  case (Suc n)
  then show ?case by (cases xs; cases ys) auto
qed

lemma common_prefix_loop_rep:
  assumes "history_rep h T" "limit = min (length tokens) (length T)"
    "64 dvd offset \<or> limit \<le> offset" "offset \<le> limit" "take offset tokens = take offset T"
    "limit - offset < fuel"
  shows "common_prefix_loop fuel h tokens limit offset = agree tokens T"
  using assms(3-6)
proof (induction fuel arbitrary: offset)
  case 0
  then show ?case by simp
next
  case (Suc fuel)
  show ?case
  proof (cases "offset < limit")
    case False
    then have "agree tokens T = limit"
      using Suc.prems(2,3) assms(2) by (intro agree_all) auto
    then show ?thesis using False Suc.prems(2) by simp
  next
    case True
    let ?i = "offset div 64"
    define rows where "rows = min (min 64 (length T - offset)) (limit - offset)"
    define same where "same = agree (take rows (drop offset T)) (drop offset tokens)"
    have off: "64 * ?i = offset" "64 dvd offset"
      using Suc.prems(1) True by auto
    have inT: "offset < length T" "offset < length tokens" and fits: "rows \<le> length tokens - offset"
      "rows \<le> length T - offset"
      using True assms(2) by (auto simp: rows_def)
    have pr: "page_rows (page_node h ?i) = min 64 (length T - offset)"
      and whole: "take (page_rows (page_node h ?i)) (page_tokens (page_node h ?i)) = take 64 (drop offset T)"
      using page_node_rep [OF assms(1), of ?i] inT off(1) by auto
    have "rows \<le> page_rows (page_node h ?i)" "rows \<le> 64"
      unfolding pr rows_def by auto
    then have page: "take rows (page_tokens (page_node h ?i)) = take rows (drop offset T)"
      using arg_cong [OF whole, of "take rows"] by (simp add: min.absorb1 del: take_drop)
    have same': "same = agree (take rows (drop offset tokens)) (take rows (drop offset T))"
      unfolding same_def using fits(1) by (subst agree_take_left) (simp_all add: agree_commute)
    have step: "common_prefix_loop (Suc fuel) h tokens limit offset =
        (if same < rows then offset + same else common_prefix_loop fuel h tokens limit (offset + same))"
      using True unfolding common_prefix_loop.simps Let_def pr rows_def [symmetric] page
      by (simp add: same_def)
    show ?thesis
    proof (cases "same < rows")
      case less: True
      then show ?thesis
        using agree_split [OF fits Suc.prems(3)] inT unfolding step same' by (simp add: Let_def)
    next
      case full: False
      then have eq: "same = rows" "take rows (drop offset tokens) = take rows (drop offset T)"
        using agree_le(1) [of "take rows (drop offset tokens)" "take rows (drop offset T)"]
          agree_eq [of "take rows (drop offset tokens)" "take rows (drop offset T)"] fits
        unfolding same' by auto
      have "take (offset + rows) tokens = take (offset + rows) T"
        using Suc.prems(3) eq(2) by (simp add: take_add)
      moreover have "64 dvd offset + rows \<or> limit \<le> offset + rows" "0 < rows"
        using off(2) True inT assms(2) by (auto simp: rows_def min_def)
      ultimately have "common_prefix_loop fuel h tokens limit (offset + rows) = agree tokens T"
        using Suc.prems(4) True by (intro Suc.IH) (auto simp: rows_def)
      then show ?thesis
        unfolding step using full eq(1) by simp
    qed
  qed
qed

lemma common_prefix_rep: "history_rep h T \<Longrightarrow> common_prefix tokens h = agree tokens T"
  using common_prefix_loop_rep [of h T _ tokens 0]
  by (simp add: common_prefix_def history_rep_def Let_def del: common_prefix_loop.simps)

lemma agree_longest:
  "take (agree xs ys) xs = take (agree xs ys) ys \<and> agree xs ys \<le> min (length xs) (length ys) \<and>
   (agree xs ys < min (length xs) (length ys) \<longrightarrow> xs ! agree xs ys \<noteq> ys ! agree xs ys)"
  by (induction xs ys rule: agree.induct) auto

subsection \<open>Comparing two histories\<close>

lemma same_nodes_simps [simp]:
  "same_nodes None node \<longleftrightarrow> node = None" "same_nodes node None \<longleftrightarrow> node = None"
  "same_nodes (Some n) (Some m) \<longleftrightarrow> same_node n m"
  by (auto simp: same_nodes_def split: option.splits)

lemma same_node_edges:
  "same_node (Edges es) (Edges fs) \<longleftrightarrow>
     length es = length fs \<and> (\<forall>i < length es. same_nodes (es ! i) (fs ! i))"
  by (auto simp: list_all2_conv_all_nth same_nodes_def option.case_eq_if option.map_sel)

lemma same_node_refl: "same_node n n"
proof (induction n)
  case (Page r xs)
  then show ?case by simp
next
  case (Edges es)
  have "same_nodes (es ! i) (es ! i)" if "i < length es" for i
    using Edges.IH that by (cases "es ! i") (auto dest!: nth_mem)
  then show ?case
    by (subst same_node_edges) simp
qed

lemma same_nodes_refl: "same_nodes node node"
  by (cases node) (simp_all add: same_node_refl)

declare same_node.simps(2) [simp del]

lemma block_split:
  assumes "0 < (c :: nat)"
  shows "(\<forall>i. base \<le> i \<and> i < min (base + 32 * c) n \<longrightarrow> P i) \<longleftrightarrow>
    (\<forall>k < 32. \<forall>i. base + k * c \<le> i \<and> i < min (base + k * c + c) n \<longrightarrow> P i)"
proof (intro iffI allI impI)
  fix k i
  assume all: "\<forall>i. base \<le> i \<and> i < min (base + 32 * c) n \<longrightarrow> P i" and "k < 32"
    and i: "base + k * c \<le> i \<and> i < min (base + k * c + c) n"
  then have "k * c + c \<le> 32 * c"
    using mult_le_mono1 [of "Suc k" 32 c] unfolding mult_Suc by linarith
  then have "base \<le> i" "i < base + 32 * c" "i < n"
    using i by linarith+
  then show "P i"
    using all by simp
next
  fix i
  assume all: "\<forall>k < 32. \<forall>i. base + k * c \<le> i \<and> i < min (base + k * c + c) n \<longrightarrow> P i"
    and i: "base \<le> i \<and> i < min (base + 32 * c) n"
  define k where "k = (i - base) div c"
  have "k < 32"
    using i assms less_diff_conv2 [of base i "32 * c"]
    by (simp add: k_def div_less_iff_less_mult add.commute)
  moreover have "k * c \<le> i - base" "i - base < k * c + c"
    using assms div_mult_mod_eq [of "i - base" c] mod_less_divisor [OF assms, of "i - base"]
    unfolding k_def by linarith+
  ultimately have "base + k * c \<le> i" "i < base + k * c + c" "k < 32"
    using i by linarith+
  then show "P i"
    using all [rule_format, of k i] i by simp
qed

lemma same_nodes_rep:
  assumes "rep l base S node" "rep l base T node'" "length S = length T"
  shows "same_nodes node node' \<longleftrightarrow>
    (\<forall>i. base \<le> i \<and> i < min (base + node_rows l) (length T) \<longrightarrow> S ! i = T ! i)"
  using assms(1,2)
proof (induction l arbitrary: base node node')
  case 0
  have shift: "(\<forall>i < min 64 (length T - base). P (base + i)) \<longleftrightarrow>
      (\<forall>i. base \<le> i \<and> i < min (base + 64) (length T) \<longrightarrow> P i)" for P
  proof (intro iffI allI impI)
    fix i assume "\<forall>i < min 64 (length T - base). P (base + i)" "base \<le> i \<and> i < min (base + 64) (length T)"
    then show "P i" by (auto dest!: spec [of _ "i - base"])
  next
    fix i assume "\<forall>i. base \<le> i \<and> i < min (base + 64) (length T) \<longrightarrow> P i" "i < min 64 (length T - base)"
    then show "P (base + i)" by auto
  qed
  show ?case
  proof (cases "length T \<le> base")
    case True
    then show ?thesis using 0 assms(3) by (auto simp: rep.simps)
  next
    case False
    then obtain ss ts where n: "node = Some (Page (min 64 (length T - base)) ss)"
      "node' = Some (Page (min 64 (length T - base)) ts)" "length ss = 64" "length ts = 64"
      and val: "\<forall>i < min 64 (length T - base). ss ! i = S ! (base + i)"
        "\<forall>i < min 64 (length T - base). ts ! i = T ! (base + i)"
      using 0 assms(3) by (auto simp: rep.simps)
    have "same_nodes node node' \<longleftrightarrow> (\<forall>i < min 64 (length T - base). ss ! i = ts ! i)"
      using n by (auto simp: list_eq_iff_nth_eq)
    also have "\<dots> \<longleftrightarrow> (\<forall>i < min 64 (length T - base). S ! (base + i) = T ! (base + i))"
      using val by simp
    finally show ?thesis
      using shift [of "\<lambda>i. S ! i = T ! i"] by (simp add: node_rows_def)
  qed
next
  case (Suc l)
  show ?case
  proof (cases "length T \<le> base")
    case True
    then show ?thesis using Suc.prems assms(3) by (auto simp: rep.simps)
  next
    case False
    then obtain es fs where n: "node = Some (Edges es)" "node' = Some (Edges fs)"
      "length es = 32" "length fs = 32"
      and ch: "\<forall>i < 32. rep l (base + i * node_rows l) S (es ! i)"
        "\<forall>i < 32. rep l (base + i * node_rows l) T (fs ! i)"
      using Suc.prems assms(3) by (auto simp: rep.simps)
    have "same_nodes node node' \<longleftrightarrow> (\<forall>k < 32. same_nodes (es ! k) (fs ! k))"
      using n by (simp add: same_node_edges)
    also have "\<dots> \<longleftrightarrow> (\<forall>k < 32. \<forall>i. base + k * node_rows l \<le> i \<and>
        i < min (base + k * node_rows l + node_rows l) (length T) \<longrightarrow> S ! i = T ! i)"
    proof (intro all_cong)
      fix k :: nat assume "k < 32"
      then show "same_nodes (es ! k) (fs ! k) \<longleftrightarrow> (\<forall>i. base + k * node_rows l \<le> i \<and>
          i < min (base + k * node_rows l + node_rows l) (length T) \<longrightarrow> S ! i = T ! i)"
        using ch by (intro Suc.IH) simp_all
    qed
    finally show ?thesis
      unfolding node_rows_Suc block_split [OF node_rows_pos] .
  qed
qed

lemma level_unique:
  assumes "n \<le> node_rows l" "l = 0 \<or> node_rows (l - 1) < n"
    "n \<le> node_rows k" "k = 0 \<or> node_rows (k - 1) < n"
  shows "l = k"
proof -
  have "\<not> a < b" if "n \<le> node_rows a" "b = 0 \<or> node_rows (b - 1) < n" for a b
  proof
    assume "a < b"
    then have "node_rows a \<le> node_rows (b - 1)"
      by (simp add: node_rows_def power_increasing)
    then show False using that \<open>a < b\<close> by auto
  qed
  from this [of l k] this [of k l] show ?thesis
    using assms by linarith
qed

lemma same_tokens_rep:
  assumes "history_rep h S" "history_rep k T"
  shows "same_tokens h k \<longleftrightarrow> S = T"
proof (cases "length S = length T")
  case False
  then show ?thesis
    using assms by (auto simp: same_tokens_def history_rep_def)
next
  case True
  have l: "th_level h = th_level k"
    using assms True by (intro level_unique [of "length T"]) (auto simp: history_rep_def)
  have "length T \<le> node_rows (th_level k)"
    using assms(2) by (simp add: history_rep_def)
  then have "same_nodes (th_root h) (th_root k) \<longleftrightarrow> (\<forall>i < length T. S ! i = T ! i)"
    using same_nodes_rep [of "th_level k" 0 S "th_root h" T "th_root k"] assms True l
    by (simp add: history_rep_def min.absorb2)
  then show ?thesis
    using True assms by (simp add: same_tokens_def history_rep_def list_eq_iff_nth_eq)
qed

section \<open>The history as an append-only record\<close>

text \<open>
  What the clients of a token history rely on: a record of tokens that can be extended and read from
  a position. The replay of the tokens after a published root follows from these laws alone.
\<close>

locale token_record =
  fixes represents :: "'h \<Rightarrow> int list \<Rightarrow> bool"
    and extend :: "int list \<Rightarrow> 'h \<Rightarrow> exn + 'h"
    and read_from :: "int \<Rightarrow> 'h \<Rightarrow> exn + int list"
  assumes extend_law: "represents h T \<Longrightarrow> extend ts h = Inr h' \<Longrightarrow> represents h' (T @ ts)"
    and read_law: "represents h T \<Longrightarrow> n \<le> length T \<Longrightarrow> read_from (int n) h = Inr (drop n T)"
begin

fun extend_all :: "int list list \<Rightarrow> 'h \<Rightarrow> exn + 'h" where
  "extend_all [] h = Inr h"
| "extend_all (ts # tss) h = (case extend ts h of Inl e \<Rightarrow> Inl e | Inr h' \<Rightarrow> extend_all tss h')"

lemma extend_all_represents:
  "represents h T \<Longrightarrow> extend_all tss h = Inr h' \<Longrightarrow> represents h' (T @ concat tss)"
proof (induction tss arbitrary: h T)
  case Nil
  then show ?case by simp
next
  case (Cons ts tss)
  then obtain k where "extend ts h = Inr k" "extend_all tss k = Inr h'"
    by (auto split: sum.splits)
  then show ?case
    using Cons.IH [OF extend_law [OF Cons.prems(1)]] by fastforce
qed

lemma replay_after_root:
  assumes "represents h T" "extend_all tss h = Inr h'"
  shows "read_from (int (length T)) h' = Inr (concat tss)"
  using read_law [OF extend_all_represents [OF assms], of "length T"] by simp

end

interpretation history: token_record history_rep append_tokens suffix_tokens
  by unfold_locales (auto simp: append_tokens_rep suffix_tokens_rep)

text \<open>Appending a list of blocks one after the other, as the rounds of a request do.\<close>

fun append_blocks :: "int list list \<Rightarrow> token_history \<Rightarrow> exn + token_history" where
  "append_blocks [] h = Inr h"
| "append_blocks (ts # tss) h =
     (case append_tokens ts h of Inl e \<Rightarrow> Inl e | Inr h' \<Rightarrow> append_blocks tss h')"

lemma append_blocks_eq: "append_blocks tss h = history.extend_all tss h"
  by (induction tss arbitrary: h) (auto split: sum.splits)

lemma history_rep_blocks:
  "append_blocks tss token_history_init = Inr h \<Longrightarrow> history_rep h (concat tss)"
  using history.extend_all_represents [OF history_rep_init] by (auto simp: append_blocks_eq)

section \<open>Properties\<close>

text \<open>
  C8. The radix tree is a faithful token list. A history that represents the tokens \<open>T\<close> accepts new
  tokens exactly when they are in the vocabulary and the total length fits \<open>INT32_MAX\<close> (otherwise it
  throws and nothing changes), and the new history then represents \<open>T\<close> followed by them, with the
  fingerprint of the whole list.
\<close>

theorem append_refines_list:
  assumes "history_rep h T"
  shows "if valid_tokens ts \<and> int (length T) + int (length ts) \<le> INT32_MAX
    then \<exists>h'. append_tokens ts h = Inr h' \<and> history_rep h' (T @ ts) \<and>
      th_fingerprint h' = extend_fingerprint fnv_offset (T @ ts)
    else append_tokens ts h = Inl Invalid_argument"
proof -
  show ?thesis
    using append_ok [OF assms, of ts] append_tokens_total [OF assms, of ts]
    by (auto simp: history_rep_def)
qed

text \<open>
  C9. Replay after a published root. If blocks of tokens were appended, one after the other, to a
  history that represents \<open>T\<close>, then \<open>suffix\<close> from the old position returns exactly those blocks in
  order, and a suffix beyond the end or from a negative position throws.
\<close>

theorem suffix_replays_appends:
  assumes "history_rep h T" "append_blocks tss h = Inr h'"
  shows "suffix_tokens (int (length T)) h' = Inr (concat tss) \<and>
    (first < 0 \<or> first > int (length T + length (concat tss)) \<longrightarrow>
      suffix_tokens first h' = Inl Invalid_argument)"
proof -
  have "history_rep h' (T @ concat tss)"
    using history.extend_all_represents [OF assms(1)] assms(2) by (simp add: append_blocks_eq)
  then show ?thesis
    using history.replay_after_root [OF assms(1), of tss h'] assms(2)
    by (auto simp: append_blocks_eq suffix_tokens_rep)
qed

text \<open>
  The comparisons compare token lists: \<open>equals\<close> decides equality with a span, \<open>same_tokens\<close>
  decides equality of two histories although it may stop at shared nodes, and \<open>common_prefix\<close> returns
  the length of the longest common prefix.
\<close>

theorem comparisons_correct:
  assumes "history_rep h S" "history_rep k T"
  shows "(equals_tokens tokens h \<longleftrightarrow> tokens = S) \<and> (same_tokens h k \<longleftrightarrow> S = T) \<and>
    take (common_prefix tokens h) tokens = take (common_prefix tokens h) S \<and>
    common_prefix tokens h \<le> min (length tokens) (length S) \<and>
    (common_prefix tokens h < min (length tokens) (length S) \<longrightarrow>
      tokens ! common_prefix tokens h \<noteq> S ! common_prefix tokens h)"
  using equals_tokens_rep [OF assms(1)] same_tokens_rep [OF assms] common_prefix_rep [OF assms(1)]
    agree_longest [of tokens S] by simp

subsection \<open>Witnesses\<close>

definition sample_history :: token_history where
  "sample_history = after token_history_init (append_blocks [[5, 6], [7]] token_history_init)"

lemma sample_history_blocks: "append_blocks [[5, 6], [7]] token_history_init = Inr sample_history"
  by code_simp

lemma sample_history_rep: "history_rep sample_history [5, 6, 7]"
  using history_rep_blocks [OF sample_history_blocks] by simp

theorem append_refines_list_witness:
  "(\<exists>h'. append_tokens [8, 9] sample_history = Inr h' \<and> history_rep h' [5, 6, 7, 8, 9]) \<and>
   append_tokens [248320] sample_history = Inl Invalid_argument"
  using append_refines_list [OF sample_history_rep, of "[8, 9]"]
    append_refines_list [OF sample_history_rep, of "[248320]"]
  by (auto simp: valid_tokens_def vocabulary_def INT32_MAX_def)

theorem suffix_replays_appends_witness:
  "\<exists>h'. append_blocks [[8], [9, 10]] sample_history = Inr h' \<and>
     suffix_tokens 3 h' = Inr [8, 9, 10] \<and> suffix_tokens 7 h' = Inl Invalid_argument"
proof -
  obtain k where k: "append_tokens [8] sample_history = Inr k" "history_rep k [5, 6, 7, 8]"
    using append_ok [OF sample_history_rep, of "[8]"]
    by (auto simp: valid_tokens_def vocabulary_def INT32_MAX_def)
  obtain h' where "append_tokens [9, 10] k = Inr h'"
    using append_ok [OF k(2), of "[9, 10]"]
    by (auto simp: valid_tokens_def vocabulary_def INT32_MAX_def)
  with k(1) have h': "append_blocks [[8], [9, 10]] sample_history = Inr h'"
    by simp
  then show ?thesis
    using suffix_replays_appends [OF sample_history_rep h', of 7] by auto
qed

theorem comparisons_correct_witness:
  "equals_tokens [5, 6, 7] sample_history \<and> same_tokens sample_history sample_history \<and>
   take (common_prefix [5, 6, 9] sample_history) [5, 6, 9 :: int] =
     take (common_prefix [5, 6, 9] sample_history) [5, 6, 7]"
  using comparisons_correct [OF sample_history_rep sample_history_rep, of "[5, 6, 7]"]
    comparisons_correct [OF sample_history_rep sample_history_rep, of "[5, 6, 9]"] by simp

end
