(* ===== verification/Owner_Ledger.thy ===== *)
theory Owner_Ledger
  imports Voidinfer_Prelude
begin

text \<open>
  Model of \<open>src/exl3/owner_ledger_reference.h\<close>: the bounded ownership oracle
  \<open>Exl3IndependentOwnerLedgerReference\<close>. Its two arrays are lists of fixed length, a pointer into an
  array is an index, and identities and sizes are 64-bit words.

  The theorems: after any public calls, an allocation is charged exactly when the calls that took effect allocated it and
  did not both retire it with a successful cleanup and release all its references (so no live reference dangles, no
  retired, unreferenced allocation leaks, and one whose cleanup failed or was lost stays charged), and the snapshot is the exact accounting of the charged allocations.
\<close>

section \<open>Data\<close>

datatype domain = host | cuda_registered_host | device | domain_count

datatype reference_kind = shared_alias | view

datatype cleanup = success | failure | callback_lost

definition maximum_allocations :: nat where
  "maximum_allocations = 16"

definition maximum_references :: nat where
  "maximum_references = 32"

record allocation =
  al_id :: u64
  al_owner :: u64
  al_domain :: domain
  al_bytes :: u64
  al_charged :: bool
  al_retiring :: bool
  al_quarantined :: bool

record reference =
  rf_id :: u64
  rf_allocation :: u64
  rf_kind :: reference_kind
  rf_active :: bool

record owner_ledger =
  allocations :: "allocation list"
  references :: "reference list"

definition empty_allocation :: allocation where
  "empty_allocation = \<lparr>al_id = 0, al_owner = 0, al_domain = host, al_bytes = 0, al_charged = False,
     al_retiring = False, al_quarantined = False\<rparr>"

definition empty_reference :: reference where
  "empty_reference = \<lparr>rf_id = 0, rf_allocation = 0, rf_kind = shared_alias, rf_active = False\<rparr>"

definition ledger_init :: owner_ledger where
  "ledger_init = \<lparr>allocations = replicate maximum_allocations empty_allocation,
     references = replicate maximum_references empty_reference\<rparr>"

section \<open>Searches\<close>

definition find_allocation :: "u64 \<Rightarrow> owner_ledger \<Rightarrow> nat option" where
  "find_allocation i l = find_index (\<lambda>a. al_id a = i) (allocations l)"

definition require_allocation :: "u64 \<Rightarrow> owner_ledger \<Rightarrow> exn + nat" where
  "require_allocation i l = (case find_allocation i l of
     None \<Rightarrow> Inl Logic_error
   | Some k \<Rightarrow> if \<not> al_charged (allocations l ! k) then Inl Logic_error else Inr k)"

definition find_reference :: "u64 \<Rightarrow> owner_ledger \<Rightarrow> nat option" where
  "find_reference i l = find_index (\<lambda>r. rf_active r \<and> rf_id r = i) (references l)"

definition reference_id_known :: "u64 \<Rightarrow> owner_ledger \<Rightarrow> bool" where
  "reference_id_known i l = list_ex (\<lambda>r. rf_id r = i) (references l)"

definition free_allocation :: "owner_ledger \<Rightarrow> nat option" where
  "free_allocation l = find_index (\<lambda>a. al_id a = 0) (allocations l)"

definition free_reference :: "owner_ledger \<Rightarrow> nat option" where
  "free_reference l = find_index (\<lambda>r. rf_id r = 0) (references l)"

definition has_reference :: "u64 \<Rightarrow> owner_ledger \<Rightarrow> bool" where
  "has_reference i l = list_ex (\<lambda>r. rf_active r \<and> rf_allocation r = i) (references l)"

definition ledger_charged :: "u64 \<Rightarrow> owner_ledger \<Rightarrow> bool" where
  "ledger_charged i l = (case find_allocation i l of
     None \<Rightarrow> False | Some k \<Rightarrow> al_charged (allocations l ! k))"

section \<open>Public calls\<close>

definition set_allocation :: "nat \<Rightarrow> allocation \<Rightarrow> owner_ledger \<Rightarrow> owner_ledger" where
  "set_allocation k a l = l\<lparr>allocations := (allocations l)[k := a]\<rparr>"

definition set_reference :: "nat \<Rightarrow> reference \<Rightarrow> owner_ledger \<Rightarrow> owner_ledger" where
  "set_reference k r l = l\<lparr>references := (references l)[k := r]\<rparr>"

definition release_if_unreferenced :: "nat \<Rightarrow> owner_ledger \<Rightarrow> owner_ledger" where
  "release_if_unreferenced k l =
     (if \<not> has_reference (al_id (allocations l ! k)) l
      then set_allocation k ((allocations l ! k)\<lparr>al_charged := False\<rparr>) l else l)"

definition ledger_allocate ::
    "u64 \<Rightarrow> u64 \<Rightarrow> domain \<Rightarrow> u64 \<Rightarrow> owner_ledger \<Rightarrow> exn + owner_ledger" where
  "ledger_allocate i owner d bytes l =
     (if i = 0 \<or> owner = 0 \<or> bytes = 0 \<or> d = domain_count then Inl Invalid_argument
      else if find_allocation i l \<noteq> None then Inl Logic_error
      else case free_allocation l of
        None \<Rightarrow> Inl Length_error
      | Some k \<Rightarrow> Inr (set_allocation k \<lparr>al_id = i, al_owner = owner, al_domain = d,
          al_bytes = bytes, al_charged = True, al_retiring = False, al_quarantined = False\<rparr> l))"

definition ledger_reference ::
    "u64 \<Rightarrow> u64 \<Rightarrow> reference_kind \<Rightarrow> owner_ledger \<Rightarrow> exn + owner_ledger" where
  "ledger_reference rid i kind l =
     (if rid = 0 \<or> reference_id_known rid l then Inl Logic_error
      else case find_allocation i l of
        None \<Rightarrow> Inl Logic_error
      | Some k \<Rightarrow>
          if \<not> al_charged (allocations l ! k) \<or> al_retiring (allocations l ! k) \<or>
             al_quarantined (allocations l ! k) then Inl Logic_error
          else case free_reference l of
            None \<Rightarrow> Inl Length_error
          | Some j \<Rightarrow> Inr (set_reference j \<lparr>rf_id = rid, rf_allocation = i, rf_kind = kind,
              rf_active = True\<rparr> l))"

definition ledger_retire :: "u64 \<Rightarrow> cleanup \<Rightarrow> owner_ledger \<Rightarrow> exn + owner_ledger" where
  "ledger_retire i c l = (case require_allocation i l of
     Inl e \<Rightarrow> Inl e
   | Inr k \<Rightarrow>
       if al_retiring (allocations l ! k) \<or> al_quarantined (allocations l ! k) then Inl Logic_error
       else if c \<noteq> success
       then Inr (set_allocation k ((allocations l ! k)\<lparr>al_quarantined := True\<rparr>) l)
       else Inr (release_if_unreferenced k
              (set_allocation k ((allocations l ! k)\<lparr>al_retiring := True\<rparr>) l)))"

text \<open>
  \<open>release_reference\<close> clears the handle before it looks the allocation up, so the object it leaves
  behind is returned beside the outcome.
\<close>

definition release_reference :: "u64 \<Rightarrow> owner_ledger \<Rightarrow> (exn + unit) \<times> owner_ledger" where
  "release_reference rid l = (case find_reference rid l of
     None \<Rightarrow> (Inl Logic_error, l)
   | Some j \<Rightarrow>
       (let i = rf_allocation (references l ! j);
            l' = set_reference j ((references l ! j)\<lparr>rf_active := False\<rparr>) l
        in case require_allocation i l' of
             Inl e \<Rightarrow> (Inl e, l')
           | Inr k \<Rightarrow>
               (Inr (), if al_retiring (allocations l' ! k) \<and> \<not> al_quarantined (allocations l' ! k)
                        then release_if_unreferenced k l' else l')))"

section \<open>Snapshot\<close>

record ledger_snapshot =
  sn_bytes :: "u64 list"
  sn_allocations :: nat
  sn_aliases :: nat
  sn_views :: nat
  sn_quarantined :: nat

definition snapshot_zero :: ledger_snapshot where
  "snapshot_zero = \<lparr>sn_bytes = [0, 0, 0], sn_allocations = 0, sn_aliases = 0, sn_views = 0,
     sn_quarantined = 0\<rparr>"

fun domain_index :: "domain \<Rightarrow> nat" where
  "domain_index host = 0"
| "domain_index cuda_registered_host = 1"
| "domain_index device = 2"
| "domain_index domain_count = 3"

fun snapshot_allocations :: "allocation list \<Rightarrow> ledger_snapshot \<Rightarrow> exn + ledger_snapshot" where
  "snapshot_allocations [] r = Inr r"
| "snapshot_allocations (a # as) r =
     (if \<not> al_charged a then snapshot_allocations as r
      else let d = domain_index (al_domain a); old = sn_bytes r ! d in
        if UINT64_MAX - old < al_bytes a then Inl Overflow_error
        else snapshot_allocations as (r\<lparr>sn_bytes := (sn_bytes r)[d := old + al_bytes a],
               sn_allocations := Suc (sn_allocations r),
               sn_quarantined := (if al_quarantined a then Suc (sn_quarantined r)
                                  else sn_quarantined r)\<rparr>))"

definition count_handle :: "reference \<Rightarrow> ledger_snapshot \<Rightarrow> ledger_snapshot" where
  "count_handle h r =
     (if \<not> rf_active h then r
      else if rf_kind h = shared_alias then r\<lparr>sn_aliases := Suc (sn_aliases r)\<rparr>
      else r\<lparr>sn_views := Suc (sn_views r)\<rparr>)"

definition ledger_snapshot_of :: "owner_ledger \<Rightarrow> exn + ledger_snapshot" where
  "ledger_snapshot_of l = (case snapshot_allocations (allocations l) snapshot_zero of
     Inl e \<Rightarrow> Inl e
   | Inr r \<Rightarrow> Inr (fold count_handle (references l) r))"

fun checked_total :: "u64 list \<Rightarrow> u64 \<Rightarrow> exn + u64" where
  "checked_total [] t = Inr t"
| "checked_total (b # bs) t =
     (if UINT64_MAX - t < b then Inl Overflow_error else checked_total bs (t + b))"

definition total_bytes :: "ledger_snapshot \<Rightarrow> exn + u64" where
  "total_bytes s = checked_total (sn_bytes s) 0"

section \<open>Calls as steps\<close>

datatype ledger_call =
    LAllocate u64 u64 domain u64
  | LReference u64 u64 reference_kind
  | LRetire u64 cleanup
  | LRelease u64

fun ledger_step :: "ledger_call \<Rightarrow> owner_ledger \<Rightarrow> owner_ledger" where
  "ledger_step (LAllocate i owner d bytes) l = after l (ledger_allocate i owner d bytes l)"
| "ledger_step (LReference rid i kind) l = after l (ledger_reference rid i kind l)"
| "ledger_step (LRetire i c) l = after l (ledger_retire i c l)"
| "ledger_step (LRelease rid) l = snd (release_reference rid l)"

section \<open>Invariant\<close>

definition alloc_ok :: "owner_ledger \<Rightarrow> allocation \<Rightarrow> bool" where
  "alloc_ok l a \<longleftrightarrow> (if al_id a = 0 then a = empty_allocation
     else (al_charged a \<longleftrightarrow> \<not> al_retiring a \<or> has_reference (al_id a) l) \<and>
       \<not> (al_retiring a \<and> al_quarantined a) \<and> al_domain a \<noteq> domain_count)"

definition handle_ok :: "owner_ledger \<Rightarrow> reference \<Rightarrow> bool" where
  "handle_ok l r \<longleftrightarrow> (rf_active r \<longrightarrow> rf_id r \<noteq> 0 \<and> rf_allocation r \<noteq> 0 \<and>
     rf_allocation r \<in> al_id ` set (allocations l))"

definition ledger_inv :: "owner_ledger \<Rightarrow> bool" where
  "ledger_inv l \<longleftrightarrow> length (allocations l) = maximum_allocations \<and>
     length (references l) = maximum_references \<and>
     unique_keys al_id (allocations l) \<and> unique_keys rf_id (references l) \<and>
     (\<forall>a \<in> set (allocations l). alloc_ok l a) \<and> (\<forall>r \<in> set (references l). handle_ok l r)"

lemma ledger_init_inv: "ledger_inv ledger_init"
  by (simp add: ledger_inv_def ledger_init_def unique_keys_def alloc_ok_def handle_ok_def
      empty_allocation_def empty_reference_def)

lemmas slot_defs = set_allocation_def set_reference_def

lemma has_reference_set_allocation [simp]:
  "has_reference i (set_allocation k a l) = has_reference i l"
  by (simp add: has_reference_def set_allocation_def)

lemma allocations_set_reference [simp]: "allocations (set_reference k r l) = allocations l"
  and references_set_allocation [simp]: "references (set_allocation k a l) = references l"
  and allocations_set_allocation [simp]: "allocations (set_allocation k a l) = (allocations l)[k := a]"
  and references_set_reference [simp]: "references (set_reference k r l) = (references l)[k := r]"
  by (simp_all add: slot_defs)

lemma alloc_ok_set_allocation [simp]: "alloc_ok (set_allocation k a l) b = alloc_ok l b"
  by (simp add: alloc_ok_def)

text \<open>Overwriting an allocation slot.\<close>

lemma inv_update_allocation:
  assumes "ledger_inv l" "k < length (allocations l)" "al_id a = al_id (allocations l ! k)"
    and "alloc_ok l a"
  shows "ledger_inv (set_allocation k a l)"
proof -
  have "al_id ` set ((allocations l)[k := a]) = al_id ` set (allocations l)"
    using assms(2,3) by (metis list_update_id map_update set_map)
  then show ?thesis
    using assms unfolding ledger_inv_def handle_ok_def
    by (auto simp: unique_keys_update dest: set_update_subset_insert [THEN subsetD])
qed

lemma inv_new_allocation:
  assumes "ledger_inv l" "k < length (allocations l)" "al_id (allocations l ! k) = 0"
    and "al_id a \<notin> al_id ` set (allocations l)" and "alloc_ok l a"
  shows "ledger_inv (set_allocation k a l)"
proof -
  have "al_id ` set (allocations l) \<subseteq> insert 0 (al_id ` set ((allocations l)[k := a]))"
    using assms(3) by (rule keys_update_superset)
  then have "i \<in> al_id ` set ((allocations l)[k := a])"
    if "i \<in> al_id ` set (allocations l)" "i \<noteq> 0" for i
    using that by auto
  then show ?thesis
    using assms unfolding ledger_inv_def handle_ok_def
    by (auto simp: unique_keys_fresh dest: set_update_subset_insert [THEN subsetD])
qed

text \<open>Where the searches of a well-formed ledger lead.\<close>

lemma find_allocation_SomeD:
  assumes "find_allocation i l = Some k"
  shows "k < length (allocations l)" "al_id (allocations l ! k) = i"
  using assms by (auto simp: find_allocation_def dest: find_index_SomeD)

lemma find_allocation_slot:
  assumes "ledger_inv l" "a \<in> set (allocations l)" "al_id a \<noteq> 0"
  shows "\<exists>k < length (allocations l). find_allocation (al_id a) l = Some k \<and> allocations l ! k = a"
  using assms find_unique_key [of al_id "allocations l"]
  by (auto simp: find_allocation_def ledger_inv_def in_set_conv_nth)

lemma alloc_ok_nth:
  "ledger_inv l \<Longrightarrow> k < length (allocations l) \<Longrightarrow> alloc_ok l (allocations l ! k)"
  by (simp add: ledger_inv_def)

lemma handle_ok_nth:
  "ledger_inv l \<Longrightarrow> k < length (references l) \<Longrightarrow> handle_ok l (references l ! k)"
  by (simp add: ledger_inv_def)

lemma charged_id_nonzero:
  "ledger_inv l \<Longrightarrow> k < length (allocations l) \<Longrightarrow> al_charged (allocations l ! k) \<Longrightarrow>
    al_id (allocations l ! k) \<noteq> 0"
  using alloc_ok_nth [of l k] by (auto simp: alloc_ok_def empty_allocation_def)

lemma has_reference_nth:
  "has_reference i l \<longleftrightarrow>
    (\<exists>j < length (references l). rf_active (references l ! j) \<and> rf_allocation (references l ! j) = i)"
  by (auto simp: has_reference_def list_ex_length)

lemma has_reference_charged:
  assumes "ledger_inv l" "has_reference i l"
  shows "ledger_charged i l \<and> i \<noteq> 0"
proof -
  obtain j where j: "j < length (references l)" "rf_active (references l ! j)"
    "rf_allocation (references l ! j) = i"
    using assms(2) by (auto simp: has_reference_nth)
  with handle_ok_nth [OF assms(1) j(1)] obtain a where
    a: "a \<in> set (allocations l)" "al_id a = i" "i \<noteq> 0"
    by (auto simp: handle_ok_def)
  then have "al_charged a"
    using assms by (auto simp: ledger_inv_def alloc_ok_def)
  then show ?thesis
    using find_allocation_slot [OF assms(1) a(1)] a(2,3) by (auto simp: ledger_charged_def)
qed

section \<open>Every call keeps the invariant\<close>

lemma allocate_inv:
  assumes "ledger_inv l" "ledger_allocate i owner d bytes l = Inr l'"
  shows "ledger_inv l'"
proof -
  from assms(2) obtain k where "i \<noteq> 0" "d \<noteq> domain_count" "find_allocation i l = None"
    and k: "free_allocation l = Some k"
    and l': "l' = set_allocation k \<lparr>al_id = i, al_owner = owner, al_domain = d,
          al_bytes = bytes, al_charged = True, al_retiring = False, al_quarantined = False\<rparr> l"
    by (auto simp: ledger_allocate_def split: if_splits option.splits)
  then show ?thesis
    using assms(1) find_index_SomeD [OF k [unfolded free_allocation_def]] unfolding l'
    by (intro inv_new_allocation) (auto simp: find_allocation_def alloc_ok_def)
qed

lemma inv_new_reference:
  assumes "ledger_inv l" "j < length (references l)" "rf_id (references l ! j) = 0"
    and "rf_id r \<notin> rf_id ` set (references l)" "rf_id r \<noteq> 0" "rf_active r"
    and "find_allocation (rf_allocation r) l = Some k" "al_charged (allocations l ! k)"
    and "\<not> al_retiring (allocations l ! k)"
  shows "ledger_inv (set_reference j r l)"
proof -
  have k: "k < length (allocations l)" "al_id (allocations l ! k) = rf_allocation r"
    using find_allocation_SomeD [OF assms(7)] by auto
  then have nz: "rf_allocation r \<noteq> 0"
    using charged_id_nonzero [OF assms(1) k(1) assms(8)] by simp
  have "\<not> rf_active (references l ! j)"
    using handle_ok_nth [OF assms(1,2)] assms(3) by (auto simp: handle_ok_def)
  then have ref: "has_reference i (set_reference j r l) \<longleftrightarrow> has_reference i l \<or> i = rf_allocation r" for i
    using assms(2,6) by (auto simp: has_reference_nth nth_list_update)
  have ok: "alloc_ok (set_reference j r l) (allocations l ! m)" if m: "m < length (allocations l)" for m
  proof (cases "al_id (allocations l ! m) = rf_allocation r")
    case True
    then have "m = k"
      using assms(1) m k nz by (auto simp: ledger_inv_def unique_keys_def)
    then show ?thesis
      using alloc_ok_nth [OF assms(1) m] assms(8,9) by (auto simp: alloc_ok_def ref)
  next
    case False
    then show ?thesis
      using alloc_ok_nth [OF assms(1) m] by (auto simp: alloc_ok_def ref)
  qed
  have "rf_allocation r \<in> al_id ` set (allocations l)"
    using k by (metis image_eqI nth_mem)
  then have handles: "\<forall>h \<in> set ((references l)[j := r]). handle_ok (set_reference j r l) h"
    using assms(1,5) nz
    by (auto simp: ledger_inv_def handle_ok_def dest: set_update_subset_insert [THEN subsetD])
  show ?thesis
    using assms(1,4) ok handles
    by (auto simp: ledger_inv_def in_set_conv_nth unique_keys_fresh)
qed

lemma reference_inv:
  assumes "ledger_inv l" "ledger_reference rid i kind l = Inr l'"
  shows "ledger_inv l'"
proof -
  from assms(2) obtain k j where "rid \<noteq> 0" "\<not> reference_id_known rid l"
    and "find_allocation i l = Some k" "al_charged (allocations l ! k)"
    "\<not> al_retiring (allocations l ! k)"
    and j: "free_reference l = Some j"
    and l': "l' = set_reference j \<lparr>rf_id = rid, rf_allocation = i, rf_kind = kind,
              rf_active = True\<rparr> l"
    by (auto simp: ledger_reference_def split: if_splits option.splits)
  then show ?thesis
    using assms(1) find_index_SomeD [OF j [unfolded free_reference_def]] unfolding l'
    by (intro inv_new_reference) (auto simp: reference_id_known_def list_ex_iff)
qed

lemma require_allocation_InrD:
  assumes "require_allocation i l = Inr k"
  shows "find_allocation i l = Some k" "al_charged (allocations l ! k)"
  using assms by (auto simp: require_allocation_def split: option.splits if_splits)

lemma retire_inv:
  assumes "ledger_inv l" "ledger_retire i c l = Inr l'"
  shows "ledger_inv l'"
proof -
  from assms(2) obtain k where req: "require_allocation i l = Inr k"
    and st: "\<not> al_retiring (allocations l ! k)" "\<not> al_quarantined (allocations l ! k)"
    and l': "l' = (if c \<noteq> success
       then set_allocation k ((allocations l ! k)\<lparr>al_quarantined := True\<rparr>) l
       else release_if_unreferenced k
              (set_allocation k ((allocations l ! k)\<lparr>al_retiring := True\<rparr>) l))"
    by (auto simp: ledger_retire_def split: sum.splits if_splits)
  note k = find_allocation_SomeD [OF require_allocation_InrD(1) [OF req]]
    and charged = require_allocation_InrD(2) [OF req]
  have ok: "alloc_ok l (allocations l ! k)"
    using assms(1) k(1) by (rule alloc_ok_nth)
  have nz: "i \<noteq> 0"
    using charged_id_nonzero [OF assms(1) k(1) charged] k(2) by simp
  define a where "a = (if c \<noteq> success then (allocations l ! k)\<lparr>al_quarantined := True\<rparr>
    else if has_reference i l then (allocations l ! k)\<lparr>al_retiring := True\<rparr>
    else (allocations l ! k)\<lparr>al_retiring := True, al_charged := False\<rparr>)"
  have "l' = set_allocation k a l"
    using k charged unfolding l' a_def
    by (simp add: release_if_unreferenced_def set_allocation_def has_reference_def)
  moreover have "alloc_ok l a" "al_id a = al_id (allocations l ! k)"
    using ok charged st k nz by (auto simp: a_def alloc_ok_def)
  ultimately show ?thesis
    using assms(1) k by (simp add: inv_update_allocation)
qed

text \<open>
  Releasing a reference that is held: its allocation is found, so nothing is thrown, and the
  allocation is uncharged when it was retiring and this was the last reference.
\<close>

lemma release_reference_found:
  assumes "ledger_inv l" "find_reference rid l = Some j"
  defines "r \<equiv> references l ! j"
  defines "l' \<equiv> set_reference j (r\<lparr>rf_active := False\<rparr>) l"
  shows "\<exists>k. k < length (allocations l) \<and> al_id (allocations l ! k) = rf_allocation r \<and>
    rf_allocation r \<noteq> 0 \<and> al_charged (allocations l ! k) \<and>
    release_reference rid l = (Inr (),
      if al_retiring (allocations l ! k) \<and> \<not> has_reference (rf_allocation r) l'
      then set_allocation k ((allocations l ! k)\<lparr>al_charged := False\<rparr>) l' else l')"
proof -
  have j: "j < length (references l)" "rf_active r" "rf_id r = rid"
    using find_index_SomeD [OF assms(2) [unfolded find_reference_def]] by (auto simp: r_def)
  then have "has_reference (rf_allocation r) l"
    by (auto simp: has_reference_nth r_def)
  then have "ledger_charged (rf_allocation r) l" and nz: "rf_allocation r \<noteq> 0"
    using has_reference_charged [OF assms(1)] by auto
  then obtain k where find: "find_allocation (rf_allocation r) l = Some k"
    and charged: "al_charged (allocations l ! k)"
    by (auto simp: ledger_charged_def split: option.splits)
  have "find_allocation (rf_allocation r) l' = Some k"
    using find by (simp add: find_allocation_def l'_def)
  then have req: "require_allocation (rf_allocation r) l' = Inr k"
    using charged by (simp add: require_allocation_def l'_def)
  note k = find_allocation_SomeD [OF find]
  have "\<not> (al_retiring (allocations l ! k) \<and> al_quarantined (allocations l ! k))"
    using alloc_ok_nth [OF assms(1) k(1)] nz k(2) by (auto simp: alloc_ok_def)
  then have "release_reference rid l = (Inr (),
      if al_retiring (allocations l ! k) \<and> \<not> has_reference (rf_allocation r) l'
      then set_allocation k ((allocations l ! k)\<lparr>al_charged := False\<rparr>) l' else l')"
    using req k(2) assms(2)
    by (auto simp: release_reference_def release_if_unreferenced_def Let_def l'_def r_def)
  then show ?thesis
    using k nz charged by blast
qed

lemma release_reference_inv:
  assumes "ledger_inv l"
  shows "ledger_inv (snd (release_reference rid l))"
proof (cases "find_reference rid l")
  case None
  then show ?thesis
    using assms by (simp add: release_reference_def)
next
  case (Some j)
  define r l' where "r = references l ! j" and "l' = set_reference j (r\<lparr>rf_active := False\<rparr>) l"
  obtain k where k: "k < length (allocations l)" "al_id (allocations l ! k) = rf_allocation r"
    "rf_allocation r \<noteq> 0" "al_charged (allocations l ! k)"
    and rel: "release_reference rid l = (Inr (),
      if al_retiring (allocations l ! k) \<and> \<not> has_reference (rf_allocation r) l'
      then set_allocation k ((allocations l ! k)\<lparr>al_charged := False\<rparr>) l' else l')"
    using release_reference_found [OF assms Some] unfolding r_def l'_def by blast
  have j: "j < length (references l)" "rf_active r"
    using find_index_SomeD [OF Some [unfolded find_reference_def]] by (auto simp: r_def)
  have other: "has_reference i l' = has_reference i l" if "i \<noteq> rf_allocation r" for i
    using that j by (auto simp: has_reference_nth l'_def r_def nth_list_update)
  have handles: "handle_ok l' h" if "h \<in> set (references l')" for h
    using assms that set_update_subset_insert [of "references l" j "r\<lparr>rf_active := False\<rparr>"]
    by (auto simp: ledger_inv_def handle_ok_def l'_def)
  define s where "s = snd (release_reference rid l)"
  have refs: "references s = references l'" "has_reference i s = has_reference i l'" for i
    by (auto simp: s_def rel)
  have allocs: "allocations s ! m = (if m = k \<and> al_retiring (allocations l ! k) \<and>
      \<not> has_reference (rf_allocation r) l' then (allocations l ! k)\<lparr>al_charged := False\<rparr>
      else allocations l ! m)" for m
    using k(1) by (simp add: s_def rel l'_def)
  have len: "length (allocations s) = length (allocations l)"
    by (simp add: s_def rel l'_def)
  have ids: "map al_id (allocations s) = map al_id (allocations l)"
    using len allocs by (intro nth_equalityI) auto
  then have ids': "al_id ` set (allocations s) = al_id ` set (allocations l)"
    by (metis set_map)
  have "alloc_ok s (allocations s ! m)" if m: "m < length (allocations l)" for m
  proof (cases "al_id (allocations l ! m) = rf_allocation r")
    case True
    then have "m = k"
      using assms m k by (auto simp: ledger_inv_def unique_keys_def)
    then show ?thesis
      using alloc_ok_nth [OF assms k(1)] k by (auto simp: alloc_ok_def allocs refs)
  next
    case False
    then show ?thesis
      using alloc_ok_nth [OF assms m] other k(2)
      by (auto simp: alloc_ok_def allocs refs)
  qed
  moreover have "unique_keys al_id (allocations s)"
    using assms len ids unfolding ledger_inv_def unique_keys_def by (metis nth_map)
  moreover have "unique_keys rf_id (references l')"
    using assms by (simp add: ledger_inv_def l'_def r_def unique_keys_update)
  moreover have "length (references l') = maximum_references"
    using assms by (simp add: ledger_inv_def l'_def)
  ultimately have "ledger_inv s"
    using assms handles len ids' by (auto simp: ledger_inv_def refs in_set_conv_nth handle_ok_def l'_def)
  then show ?thesis
    by (simp add: s_def)
qed

lemma ledger_step_inv: "ledger_inv l \<Longrightarrow> ledger_inv (ledger_step c l)"
  by (cases c) (auto simp: after_def release_reference_inv
      split: sum.splits intro: allocate_inv reference_inv retire_inv)

section \<open>Quarantine\<close>

definition is_quarantined :: "u64 \<Rightarrow> owner_ledger \<Rightarrow> bool" where
  "is_quarantined i l \<longleftrightarrow> i \<noteq> 0 \<and>
     (\<exists>k < length (allocations l). al_id (allocations l ! k) = i \<and> al_quarantined (allocations l ! k))"

text \<open>No call renames an occupied slot or lifts its quarantine.\<close>

definition slot_kept :: "owner_ledger \<Rightarrow> owner_ledger \<Rightarrow> bool" where
  "slot_kept l l' \<longleftrightarrow> length (allocations l') = length (allocations l) \<and>
     (\<forall>k < length (allocations l). al_id (allocations l ! k) \<noteq> 0 \<longrightarrow>
        al_id (allocations l' ! k) = al_id (allocations l ! k) \<and>
        (al_quarantined (allocations l ! k) \<longrightarrow> al_quarantined (allocations l' ! k)))"

lemma slot_kept_refl [simp]: "slot_kept l l"
  by (simp add: slot_kept_def)

lemma slot_kept_set_reference [simp]: "slot_kept l (set_reference j r l)"
  by (simp add: slot_kept_def)

lemma slot_kept_set_allocation:
  assumes "al_id (allocations l ! k) = 0 \<or>
      al_id a = al_id (allocations l ! k) \<and>
      (al_quarantined (allocations l ! k) \<longrightarrow> al_quarantined a)"
  shows "slot_kept l (set_allocation k a l)"
  using assms
  by (cases "k < length (allocations l)")
    (auto simp: slot_kept_def nth_list_update not_less list_update_beyond)

lemma slot_kept_trans: "slot_kept l l' \<Longrightarrow> slot_kept l' l'' \<Longrightarrow> slot_kept l l''"
  by (auto simp: slot_kept_def)

lemma slot_kept_release [simp]: "slot_kept l (release_if_unreferenced k l)"
  by (simp add: release_if_unreferenced_def slot_kept_set_allocation)

lemma ledger_step_slot_kept: "slot_kept l (ledger_step c l)"
proof (cases c)
  case (LAllocate i owner d bytes)
  then show ?thesis
    by (auto simp: ledger_allocate_def free_allocation_def after_def
        split: option.splits dest!: find_index_SomeD intro!: slot_kept_set_allocation)
next
  case (LReference rid i kind)
  then show ?thesis
    by (simp add: ledger_reference_def split: option.splits)
next
  case (LRetire i cl)
  then show ?thesis
    by (auto simp: ledger_retire_def split: sum.splits
        intro!: slot_kept_set_allocation slot_kept_trans [OF slot_kept_set_allocation slot_kept_release])
next
  case (LRelease rid)
  then show ?thesis
    by (auto simp: release_reference_def Let_def split: sum.splits option.splits
        intro!: slot_kept_trans [OF slot_kept_set_reference slot_kept_release])
qed

interpretation ledger: sticky_system ledger_step ledger_inv "is_quarantined i" for i
proof unfold_locales
  fix l c assume "ledger_inv l"
  then show "ledger_inv (ledger_step c l)" by (rule ledger_step_inv)
next
  fix l c assume "is_quarantined i l"
  then show "is_quarantined i (ledger_step c l)"
    using ledger_step_slot_kept [of l c] by (auto simp: is_quarantined_def slot_kept_def)
qed

lemma quarantined_charged:
  assumes "ledger_inv l" "is_quarantined i l"
  shows "ledger_charged i l"
proof -
  obtain k where k: "k < length (allocations l)" "al_id (allocations l ! k) = i" "i \<noteq> 0"
    "al_quarantined (allocations l ! k)"
    using assms(2) by (auto simp: is_quarantined_def)
  then have "find_allocation i l = Some k"
    using find_unique_key [of al_id "allocations l" k] assms(1)
    by (simp add: ledger_inv_def find_allocation_def)
  then show ?thesis
    using alloc_ok_nth [OF assms(1) k(1)] k by (auto simp: ledger_charged_def alloc_ok_def)
qed

lemma ledger_charged_iff:
  assumes "ledger_inv l" "a \<in> set (allocations l)" "al_id a \<noteq> 0"
  shows "ledger_charged (al_id a) l \<longleftrightarrow> \<not> al_retiring a \<or> has_reference (al_id a) l"
proof -
  have "ledger_charged (al_id a) l \<longleftrightarrow> al_charged a"
    using find_allocation_slot [OF assms] by (auto simp: ledger_charged_def)
  then show ?thesis
    using assms by (auto simp: ledger_inv_def alloc_ok_def)
qed

section \<open>The calls that took effect\<close>

definition accepts :: "ledger_call \<Rightarrow> owner_ledger \<Rightarrow> bool" where
  "accepts c l = (case c of
     LAllocate i owner d bytes \<Rightarrow> ok (ledger_allocate i owner d bytes l)
   | LReference rid i kind \<Rightarrow> ok (ledger_reference rid i kind l)
   | LRetire i cl \<Rightarrow> ok (ledger_retire i cl l)
   | LRelease rid \<Rightarrow> ok (fst (release_reference rid l)))"

fun accepted :: "ledger_call list \<Rightarrow> owner_ledger \<Rightarrow> ledger_call list" where
  "accepted [] l = []"
| "accepted (c # cs) l = (if accepts c l then c # accepted cs (ledger_step c l) else accepted cs (ledger_step c l))"

text \<open>What a ledger holds, without its slots: the identities, those retiring and quarantined, and the held references.\<close>

definition ids_where :: "(allocation \<Rightarrow> bool) \<Rightarrow> owner_ledger \<Rightarrow> u64 set" where
  "ids_where P l = {i. i \<noteq> 0 \<and> (\<exists>m < length (allocations l). al_id (allocations l ! m) = i \<and> P (allocations l ! m))}"

definition held :: "owner_ledger \<Rightarrow> (u64 \<times> u64) set" where
  "held l = {(rid, i). \<exists>m < length (references l). rf_active (references l ! m) \<and>
     rf_id (references l ! m) = rid \<and> rf_allocation (references l ! m) = i}"

definition known_references :: "owner_ledger \<Rightarrow> u64 set" where
  "known_references l = {rid. rid \<noteq> 0 \<and> (\<exists>m < length (references l). rf_id (references l ! m) = rid)}"

lemmas holdings = ids_where_def held_def known_references_def

lemma ids_where_set_reference [simp]: "ids_where P (set_reference j r l) = ids_where P l"
  and held_set_allocation [simp]: "held (set_allocation k a l) = held l"
  and known_set_allocation [simp]: "known_references (set_allocation k a l) = known_references l"
  by (simp_all add: holdings)

lemma ex_slot_update:
  assumes "k < length xs"
  shows "(\<exists>m < length xs. Q (xs[k := a] ! m)) \<longleftrightarrow> Q a \<or> (\<exists>m < length xs. m \<noteq> k \<and> Q (xs ! m))"
  using assms by (metis nth_list_update_eq nth_list_update_neq)

lemma ids_where_set_allocation:
  assumes "ledger_inv l" "k < length (allocations l)" "al_id a \<noteq> 0"
    and "al_id a = al_id (allocations l ! k) \<or> al_id (allocations l ! k) = 0 \<and> al_id a \<notin> al_id ` set (allocations l)"
  shows "ids_where P (set_allocation k a l) = {i. if i = al_id a then P a else i \<in> ids_where P l}"
proof -
  have other: "al_id (allocations l ! m) \<noteq> al_id a" if "m < length (allocations l)" "m \<noteq> k" for m
    using assms(4)
  proof
    assume "al_id a = al_id (allocations l ! k)"
    then show ?thesis
      using assms(1-3) that by (auto simp: ledger_inv_def unique_keys_def)
  qed (use that(1) in \<open>metis image_eqI nth_mem\<close>)
  have "i \<in> ids_where P (set_allocation k a l) \<longleftrightarrow> i \<noteq> 0 \<and> (al_id a = i \<and> P a \<or>
      (\<exists>m < length (allocations l). m \<noteq> k \<and> al_id (allocations l ! m) = i \<and> P (allocations l ! m)))" for i
    using ex_slot_update [OF assms(2), of "\<lambda>b. al_id b = i \<and> P b" a] by (simp add: ids_where_def)
  then have "i \<in> ids_where P (set_allocation k a l) \<longleftrightarrow> (if i = al_id a then P a else i \<in> ids_where P l)" for i
    using assms(3,4) other by (auto simp: ids_where_def)
  then show ?thesis
    by blast
qed

text \<open>The effect of each call that takes effect on what the ledger holds.\<close>

lemma allocate_holdings:
  assumes "ledger_inv l" "ledger_allocate i owner d bytes l = Inr l'"
  shows "ids_where (\<lambda>_. True) l' = insert i (ids_where (\<lambda>_. True) l)" "i \<notin> ids_where (\<lambda>_. True) l" "i \<noteq> 0"
    "ids_where al_retiring l' = ids_where al_retiring l - {i}" "ids_where al_quarantined l' = ids_where al_quarantined l - {i}"
    "held l' = held l" "known_references l' = known_references l"
proof -
  from assms(2) obtain k where i: "i \<noteq> 0" "find_allocation i l = None" and k: "free_allocation l = Some k"
    and l': "l' = set_allocation k \<lparr>al_id = i, al_owner = owner, al_domain = d,
          al_bytes = bytes, al_charged = True, al_retiring = False, al_quarantined = False\<rparr> l"
    by (auto simp: ledger_allocate_def split: if_splits option.splits)
  have "i \<notin> al_id ` set (allocations l)"
    using i(2) by (auto simp: find_allocation_def)
  note new = ids_where_set_allocation [OF assms(1), of k "\<lparr>al_id = i, al_owner = owner, al_domain = d,
          al_bytes = bytes, al_charged = True, al_retiring = False, al_quarantined = False\<rparr>", simplified] this
  have k': "k < length (allocations l)" "al_id (allocations l ! k) = 0"
    using find_index_SomeD [OF k [unfolded free_allocation_def]] by auto
  show "ids_where (\<lambda>_. True) l' = insert i (ids_where (\<lambda>_. True) l)" "ids_where al_retiring l' = ids_where al_retiring l - {i}"
      "ids_where al_quarantined l' = ids_where al_quarantined l - {i}" "i \<noteq> 0"
    using new k' i(1) by (auto simp: l')
  show "i \<notin> ids_where (\<lambda>_. True) l"
    using new(2) by (auto simp: ids_where_def)
  show "held l' = held l" "known_references l' = known_references l"
    by (simp_all add: l')
qed

lemma reference_holdings:
  assumes "ledger_inv l" "ledger_reference rid i kind l = Inr l'"
  shows "ids_where P l' = ids_where P l" "held l' = insert (rid, i) (held l)" "rid \<notin> known_references l"
    "known_references l' = insert rid (known_references l)"
proof -
  from assms(2) obtain j where rid: "rid \<noteq> 0" "\<not> reference_id_known rid l" and j: "free_reference l = Some j"
    and l': "l' = set_reference j \<lparr>rf_id = rid, rf_allocation = i, rf_kind = kind, rf_active = True\<rparr> l"
    by (auto simp: ledger_reference_def split: if_splits option.splits)
  have j': "j < length (references l)" "rf_id (references l ! j) = 0"
    using find_index_SomeD [OF j [unfolded free_reference_def]] by auto
  then have "\<not> rf_active (references l ! j)"
    using handle_ok_nth [OF assms(1) j'(1)] by (auto simp: handle_ok_def)
  then show "held l' = insert (rid, i) (held l)"
    using ex_slot_update [OF j'(1), of "\<lambda>h. rf_active h \<and> rf_id h = _ \<and> rf_allocation h = _"] by (auto simp: l' held_def)
  show "known_references l' = insert rid (known_references l)"
    using ex_slot_update [OF j'(1), of "\<lambda>h. rf_id h = _"] j' rid(1) by (auto simp: l' known_references_def)
  show "rid \<notin> known_references l"
    using rid(2) by (auto simp: known_references_def reference_id_known_def list_ex_length)
qed (use assms(2) in \<open>auto simp: ledger_reference_def split: if_splits option.splits\<close>)

lemma retire_holdings:
  assumes "ledger_inv l" "ledger_retire i c l = Inr l'"
  shows "ids_where (\<lambda>_. True) l' = ids_where (\<lambda>_. True) l" "i \<in> ids_where (\<lambda>_. True) l"
    "ids_where al_retiring l' = (if c = success then insert i (ids_where al_retiring l) else ids_where al_retiring l)"
    "ids_where al_quarantined l' = (if c = success then ids_where al_quarantined l else insert i (ids_where al_quarantined l))"
    "held l' = held l" "known_references l' = known_references l" "i \<notin> ids_where al_retiring l" "i \<notin> ids_where al_quarantined l"
proof -
  from assms(2) obtain k where req: "require_allocation i l = Inr k"
    and st: "\<not> al_retiring (allocations l ! k)" "\<not> al_quarantined (allocations l ! k)"
    and l': "l' = (if c \<noteq> success
       then set_allocation k ((allocations l ! k)\<lparr>al_quarantined := True\<rparr>) l
       else release_if_unreferenced k
              (set_allocation k ((allocations l ! k)\<lparr>al_retiring := True\<rparr>) l))"
    by (auto simp: ledger_retire_def split: sum.splits if_splits)
  note k = find_allocation_SomeD [OF require_allocation_InrD(1) [OF req]]
    and charged = require_allocation_InrD(2) [OF req]
  have nz: "i \<noteq> 0"
    using charged_id_nonzero [OF assms(1) k(1) charged] k(2) by simp
  have only: "m = k" if "m < length (allocations l)" "al_id (allocations l ! m) = i" for m
    using assms(1) that k nz by (auto simp: ledger_inv_def unique_keys_def)
  show out: "i \<notin> ids_where al_retiring l" "i \<notin> ids_where al_quarantined l"
    unfolding ids_where_def using only st by blast+
  show in_l: "i \<in> ids_where (\<lambda>_. True) l"
    using k nz by (auto simp: ids_where_def)
  obtain a where a: "l' = set_allocation k a l" "al_id a = i" "al_retiring a \<longleftrightarrow> c = success" "al_quarantined a \<longleftrightarrow> c \<noteq> success"
  proof
    show "l' = set_allocation k (if c \<noteq> success then (allocations l ! k)\<lparr>al_quarantined := True\<rparr>
        else if has_reference i l then (allocations l ! k)\<lparr>al_retiring := True\<rparr>
        else (allocations l ! k)\<lparr>al_retiring := True, al_charged := False\<rparr>) l"
      using k unfolding l' by (simp add: release_if_unreferenced_def set_allocation_def has_reference_def)
  qed (use k st in auto)
  have "ids_where P l' = {j. if j = i then P a else j \<in> ids_where P l}" for P
    using ids_where_set_allocation [OF assms(1) k(1), of a P] a(1,2) k(2) nz by simp
  then show "ids_where (\<lambda>_. True) l' = ids_where (\<lambda>_. True) l"
      "ids_where al_retiring l' = (if c = success then insert i (ids_where al_retiring l) else ids_where al_retiring l)"
      "ids_where al_quarantined l' = (if c = success then ids_where al_quarantined l else insert i (ids_where al_quarantined l))"
    using a(3,4) in_l out by auto
  show "held l' = held l" "known_references l' = known_references l"
    by (simp_all add: a(1))
qed

lemma release_holdings:
  assumes inv: "ledger_inv l" and found: "find_reference rid l = Some j"
  shows "ids_where (\<lambda>_. True) (snd (release_reference rid l)) = ids_where (\<lambda>_. True) l"
    "ids_where al_retiring (snd (release_reference rid l)) = ids_where al_retiring l"
    "ids_where al_quarantined (snd (release_reference rid l)) = ids_where al_quarantined l"
    "held (snd (release_reference rid l)) = {(r, i) \<in> held l. r \<noteq> rid}" "rid \<in> known_references l"
    "known_references (snd (release_reference rid l)) = known_references l"
proof -
  define r l' where "r = references l ! j" and "l' = set_reference j (r\<lparr>rf_active := False\<rparr>) l"
  obtain k where k: "k < length (allocations l)" "al_id (allocations l ! k) = rf_allocation r" "rf_allocation r \<noteq> 0"
    and rel: "release_reference rid l = (Inr (),
      if al_retiring (allocations l ! k) \<and> \<not> has_reference (rf_allocation r) l'
      then set_allocation k ((allocations l ! k)\<lparr>al_charged := False\<rparr>) l' else l')"
    using release_reference_found [OF inv found] unfolding r_def l'_def by blast
  have j: "j < length (references l)" "rf_active r" "rf_id r = rid"
    using find_index_SomeD [OF found [unfolded find_reference_def]] by (auto simp: r_def)
  have nz: "rid \<noteq> 0"
    using handle_ok_nth [OF inv j(1)] j(2,3) by (auto simp: handle_ok_def r_def)
  have "m = j" if "m < length (references l)" "rf_id (references l ! m) = rid" for m
    using inv that j nz by (auto simp: ledger_inv_def unique_keys_def r_def)
  then have "held l' = {(r, i) \<in> held l. r \<noteq> rid}"
    using ex_slot_update [OF j(1), of "\<lambda>h. rf_active h \<and> rf_id h = _ \<and> rf_allocation h = _"] j(2,3)
    by (auto simp: l'_def held_def r_def)
  then show "held (snd (release_reference rid l)) = {(r, i) \<in> held l. r \<noteq> rid}"
    by (simp add: rel)
  have "known_references l' = known_references l"
    using ex_slot_update [OF j(1), of "\<lambda>h. rf_id h = _"] j(1) by (auto simp: l'_def known_references_def r_def)
  then show "known_references (snd (release_reference rid l)) = known_references l"
    by (simp add: rel)
  show "rid \<in> known_references l"
    using j nz by (auto simp: known_references_def r_def)
  have k': "k < length (allocations l')" "allocations l' = allocations l"
    using k(1) by (simp_all add: l'_def)
  have same: "ids_where P (set_allocation k ((allocations l ! k)\<lparr>al_charged := False\<rparr>) l') = ids_where P l"
    if "P ((allocations l ! k)\<lparr>al_charged := False\<rparr>) = P (allocations l ! k)" for P
    using ex_slot_update [OF k'(1), of "\<lambda>b. al_id b = _ \<and> P b"] that k(1) by (auto simp: ids_where_def k'(2))
  have "ids_where P l' = ids_where P l" for P
    by (simp add: l'_def)
  then show "ids_where (\<lambda>_. True) (snd (release_reference rid l)) = ids_where (\<lambda>_. True) l"
      "ids_where al_retiring (snd (release_reference rid l)) = ids_where al_retiring l"
      "ids_where al_quarantined (snd (release_reference rid l)) = ids_where al_quarantined l"
    by (simp_all add: rel same)
qed


text \<open>What the calls \<open>T\<close> that took effect say the ledger holds.\<close>

definition traced :: "ledger_call list \<Rightarrow> owner_ledger \<Rightarrow> bool" where
  "traced T l \<longleftrightarrow> ids_where (\<lambda>_. True) l = {i. \<exists>owner d bytes. LAllocate i owner d bytes \<in> set T} \<and>
     ids_where al_retiring l = {i. LRetire i success \<in> set T} \<and>
     ids_where al_quarantined l = {i. \<exists>c. c \<noteq> success \<and> LRetire i c \<in> set T} \<and>
     held l = {(rid, i). (\<exists>kind. LReference rid i kind \<in> set T) \<and> LRelease rid \<notin> set T} \<and>
     known_references l = {rid. \<exists>i kind. LReference rid i kind \<in> set T} \<and>
     {rid. LRelease rid \<in> set T} \<subseteq> known_references l"

lemma ids_where_mono: "ids_where P l \<subseteq> ids_where (\<lambda>_. True) l"
  by (auto simp: ids_where_def)

lemma traced_step:
  assumes "ledger_inv l" "traced T l"
  shows "traced (if accepts c l then T @ [c] else T) (ledger_step c l)"
proof (cases c)
  case (LAllocate i owner d bytes)
  show ?thesis
  proof (cases "ledger_allocate i owner d bytes l")
    case (Inr l')
    note H = allocate_holdings [OF assms(1) Inr]
    have "ids_where P l - {i} = ids_where P l" for P
      using H(2) ids_where_mono [of P l] by blast
    then have "ids_where al_retiring l' = ids_where al_retiring l" "ids_where al_quarantined l' = ids_where al_quarantined l"
      using H(4,5) by simp_all
    then show ?thesis
      using assms(2) H(1,6,7) LAllocate Inr by (auto simp: traced_def accepts_def)
  qed (use assms LAllocate in \<open>simp add: accepts_def\<close>)
next
  case (LReference rid i kind)
  show ?thesis
  proof (cases "ledger_reference rid i kind l")
    case (Inr l')
    note H = reference_holdings [OF assms(1) Inr]
    have "LRelease rid \<notin> set T"
      using assms(2) H(3) by (auto simp: traced_def)
    then show ?thesis
      using assms(2) H LReference Inr by (auto simp: traced_def accepts_def)
  qed (use assms LReference in \<open>simp add: accepts_def\<close>)
next
  case (LRetire i cl)
  show ?thesis
  proof (cases "ledger_retire i cl l")
    case (Inr l')
    then show ?thesis
      using assms(2) retire_holdings [OF assms(1) Inr] LRetire by (auto simp: traced_def accepts_def)
  qed (use assms LRetire in \<open>simp add: accepts_def\<close>)
next
  case (LRelease rid)
  show ?thesis
  proof (cases "find_reference rid l")
    case None
    then show ?thesis
      using assms LRelease by (simp add: accepts_def release_reference_def)
  next
    case (Some j)
    then have "ok (fst (release_reference rid l))"
      using release_reference_found [OF assms(1) Some] by auto
    then show ?thesis
      using assms(2) release_holdings [OF assms(1) Some] LRelease by (auto simp: traced_def accepts_def)
  qed
qed

lemma traced_run:
  "ledger_inv l \<Longrightarrow> traced T l \<Longrightarrow> traced (T @ accepted cs l) (fold ledger_step cs l)"
proof (induction cs arbitrary: l T)
  case (Cons c cs)
  show ?case
    using Cons.IH [OF ledger_step_inv [OF Cons.prems(1)] traced_step [OF Cons.prems, of c]] by (cases "accepts c l") simp_all
qed simp

lemma traced_init: "traced [] ledger_init"
  by (auto simp: traced_def holdings ledger_init_def empty_allocation_def empty_reference_def)

lemma charged_holdings:
  assumes "ledger_inv l"
  shows "ledger_charged i l \<longleftrightarrow> i \<in> ids_where (\<lambda>_. True) l \<and> (i \<in> ids_where al_retiring l \<longrightarrow> (\<exists>rid. (rid, i) \<in> held l))"
proof (cases "i \<in> ids_where (\<lambda>_. True) l")
  case True
  then obtain m where m: "m < length (allocations l)" "al_id (allocations l ! m) = i" "i \<noteq> 0"
    by (auto simp: ids_where_def)
  have only: "n = m" if "n < length (allocations l)" "al_id (allocations l ! n) = i" for n
    using assms that m by (auto simp: ledger_inv_def unique_keys_def)
  have "i \<in> ids_where al_retiring l \<longleftrightarrow> al_retiring (allocations l ! m)"
    unfolding ids_where_def using m only by blast
  moreover have "(\<exists>rid. (rid, i) \<in> held l) \<longleftrightarrow> has_reference i l"
    by (auto simp: held_def has_reference_nth)
  moreover have "ledger_charged i l \<longleftrightarrow> \<not> al_retiring (allocations l ! m) \<or> has_reference i l"
    using ledger_charged_iff [OF assms, of "allocations l ! m"] m by simp
  ultimately show ?thesis
    using True by blast
next
  case False
  then have "al_charged (allocations l ! k) \<longrightarrow> False" if "find_allocation i l = Some k" for k
    using find_allocation_SomeD [OF that] charged_id_nonzero [OF assms] by (auto simp: ids_where_def)
  then show ?thesis
    using False by (auto simp: ledger_charged_def split: option.splits)
qed

lemma retire_accepted_iff:
  assumes "ledger_inv l"
  shows "ok (ledger_retire i c l) \<longleftrightarrow> i \<in> ids_where (\<lambda>_. True) l \<and> i \<notin> ids_where al_retiring l \<and> i \<notin> ids_where al_quarantined l"
proof
  assume "ok (ledger_retire i c l)"
  then obtain l' where "ledger_retire i c l = Inr l'"
    by (cases "ledger_retire i c l") auto
  from retire_holdings [OF assms this]
  show "i \<in> ids_where (\<lambda>_. True) l \<and> i \<notin> ids_where al_retiring l \<and> i \<notin> ids_where al_quarantined l"
    by blast
next
  assume H: "i \<in> ids_where (\<lambda>_. True) l \<and> i \<notin> ids_where al_retiring l \<and> i \<notin> ids_where al_quarantined l"
  then have "ledger_charged i l"
    using charged_holdings [OF assms] by blast
  then obtain k where k: "find_allocation i l = Some k" "al_charged (allocations l ! k)"
    by (auto simp: ledger_charged_def split: option.splits)
  then have "\<not> al_retiring (allocations l ! k) \<and> \<not> al_quarantined (allocations l ! k)"
    using find_allocation_SomeD [OF k(1)] H unfolding ids_where_def by blast
  then show "ok (ledger_retire i c l)"
    using k by (simp add: ledger_retire_def require_allocation_def)
qed

lemma release_accepted_iff:
  assumes "ledger_inv l"
  shows "ok (fst (release_reference rid l)) \<longleftrightarrow> (\<exists>i. (rid, i) \<in> held l)"
proof (cases "find_reference rid l")
  case None
  then have "\<nexists>i. (rid, i) \<in> held l"
    by (auto simp: find_reference_def held_def find_index_None)
  then show ?thesis
    using None by (simp add: release_reference_def)
next
  case (Some j)
  then have "(rid, rf_allocation (references l ! j)) \<in> held l"
    using find_index_SomeD [OF Some [unfolded find_reference_def]] by (auto simp: held_def)
  then show ?thesis
    using release_reference_found [OF assms Some] by auto
qed

text \<open>
  C11. Let \<open>T\<close> be the calls that returned without an exception, after any calls \<open>cs\<close> on a new ledger. An allocation is
  charged exactly when it was allocated and, if it was retired with a successful cleanup, one of its references has not
  been released. A retirement takes effect exactly when the allocation exists and none has taken effect before,
  whatever its outcome; a release exactly when the reference was taken and not yet released. After a cleanup that failed
  or whose callback was lost, the allocation stays charged whatever calls follow.
\<close>

theorem charged_until_unreferenced:
  assumes "l = fold ledger_step cs ledger_init" "T = accepted cs ledger_init"
  shows "(ledger_charged i l \<longleftrightarrow> (\<exists>owner d bytes. LAllocate i owner d bytes \<in> set T) \<and>
      (LRetire i success \<in> set T \<longrightarrow> (\<exists>rid kind. LReference rid i kind \<in> set T \<and> LRelease rid \<notin> set T))) \<and>
    (ok (ledger_retire i c l) \<longleftrightarrow> (\<exists>owner d bytes. LAllocate i owner d bytes \<in> set T) \<and> (\<forall>c'. LRetire i c' \<notin> set T)) \<and>
    (ok (fst (release_reference rid l)) \<longleftrightarrow> (\<exists>j kind. LReference rid j kind \<in> set T) \<and> LRelease rid \<notin> set T) \<and>
    (c' \<noteq> success \<and> LRetire i c' \<in> set T \<longrightarrow> ledger_charged i (fold ledger_step ds l))"
proof -
  have inv: "ledger_inv l"
    unfolding assms(1) by (rule ledger.run_inv [OF ledger_init_inv])
  have tr: "traced T l"
    using traced_run [OF ledger_init_inv traced_init, of cs] by (simp add: assms)
  have M: "i \<in> ids_where (\<lambda>_. True) l \<longleftrightarrow> (\<exists>owner d bytes. LAllocate i owner d bytes \<in> set T)"
      "i \<in> ids_where al_retiring l \<longleftrightarrow> LRetire i success \<in> set T"
      "i \<in> ids_where al_quarantined l \<longleftrightarrow> (\<exists>c. c \<noteq> success \<and> LRetire i c \<in> set T)"
      "(r, j) \<in> held l \<longleftrightarrow> (\<exists>kind. LReference r j kind \<in> set T) \<and> LRelease r \<notin> set T" for r j
    using tr by (simp_all add: traced_def)
  have stays: "ledger_charged i (fold ledger_step ds l)" if "c' \<noteq> success \<and> LRetire i c' \<in> set T"
  proof -
    have "i \<in> ids_where al_quarantined l"
      using M(3) that by blast
    then have "is_quarantined i l"
      by (auto simp: is_quarantined_def ids_where_def)
    then show ?thesis
      using inv by (intro quarantined_charged ledger.run_inv ledger.run_terminal)
  qed
  have none: "(\<forall>c. LRetire i c \<notin> set T) \<longleftrightarrow> LRetire i success \<notin> set T \<and> \<not> (\<exists>c. c \<noteq> success \<and> LRetire i c \<in> set T)"
    by metis
  have held_any: "(\<exists>r. (r, i) \<in> held l) \<longleftrightarrow> (\<exists>r kind. LReference r i kind \<in> set T \<and> LRelease r \<notin> set T)"
      "(\<exists>j. (rid, j) \<in> held l) \<longleftrightarrow> (\<exists>j kind. LReference rid j kind \<in> set T) \<and> LRelease rid \<notin> set T"
    unfolding M by blast+
  show ?thesis
    unfolding charged_holdings [OF inv, of i] retire_accepted_iff [OF inv, of i c] release_accepted_iff [OF inv, of rid]
      held_any M(1-3) none using stays by simp
qed

theorem charged_until_unreferenced_witness:
  "ledger_charged 7 (fold ledger_step [LRelease 3, LRelease 3, LRetire 7 success]
     (fold ledger_step [LAllocate 7 1 host 64, LReference 3 7 view, LRetire 7 callback_lost] ledger_init)) \<and>
   \<not> ok (ledger_retire 7 success (fold ledger_step [LAllocate 7 1 host 64, LReference 3 7 view, LRetire 7 callback_lost] ledger_init))"
proof -
  have "accepted [LAllocate 7 1 host 64, LReference 3 7 view, LRetire 7 callback_lost] ledger_init =
      [LAllocate 7 1 host 64, LReference 3 7 view, LRetire 7 callback_lost]"
    by code_simp
  then show ?thesis
    using charged_until_unreferenced [OF refl refl, where i = 7 and c = success and c' = callback_lost
      and cs = "[LAllocate 7 1 host 64, LReference 3 7 view, LRetire 7 callback_lost]"
      and ds = "[LRelease 3, LRelease 3, LRetire 7 success]"] by auto
qed

section \<open>Accounting\<close>

definition charged_bytes :: "domain \<Rightarrow> allocation list \<Rightarrow> nat" where
  "charged_bytes d as = (\<Sum>a \<leftarrow> as. if al_charged a \<and> al_domain a = d then unat (al_bytes a) else 0)"

lemma charged_bytes_simps [simp]:
  "charged_bytes d [] = 0"
  "charged_bytes d (a # as) =
     (if al_charged a \<and> al_domain a = d then unat (al_bytes a) else 0) + charged_bytes d as"
  by (simp_all add: charged_bytes_def)

lemma domain_index_inj: "domain_index d = domain_index e \<longleftrightarrow> d = e"
  by (cases d; cases e) simp_all

lemma domain_index_bound: "d \<noteq> domain_count \<Longrightarrow> domain_index d < 3"
  by (cases d) simp_all

text \<open>What the first loop of \<open>snapshot\<close> returns, started on the partial snapshot \<open>r\<close>.\<close>

definition accounts ::
    "allocation list \<Rightarrow> ledger_snapshot \<Rightarrow> exn + ledger_snapshot \<Rightarrow> bool" where
  "accounts as r x = (case x of
      Inl e \<Rightarrow> e = Overflow_error \<and> (\<exists>d. d \<noteq> domain_count \<and>
        2 ^ 64 \<le> unat (sn_bytes r ! domain_index d) + charged_bytes d as)
    | Inr s \<Rightarrow> length (sn_bytes s) = 3 \<and>
        (\<forall>d. d \<noteq> domain_count \<longrightarrow> unat (sn_bytes s ! domain_index d) =
          unat (sn_bytes r ! domain_index d) + charged_bytes d as) \<and>
        sn_allocations s = sn_allocations r + length (filter al_charged as) \<and>
        sn_quarantined s = sn_quarantined r +
          length (filter (\<lambda>a. al_charged a \<and> al_quarantined a) as) \<and>
        sn_aliases s = sn_aliases r \<and> sn_views s = sn_views r)"

lemma accounts_charge:
  assumes "accounts as r' x"
    and "\<And>d. d \<noteq> domain_count \<Longrightarrow> unat (sn_bytes r' ! domain_index d) =
      unat (sn_bytes r ! domain_index d) + charged_bytes d [a]"
    and "sn_allocations r' = sn_allocations r + length (filter al_charged [a])"
    and "sn_quarantined r' = sn_quarantined r +
      length (filter (\<lambda>a. al_charged a \<and> al_quarantined a) [a])"
    and "sn_aliases r' = sn_aliases r" "sn_views r' = sn_views r"
  shows "accounts (a # as) r x"
proof (cases x)
  case (Inl e)
  then show ?thesis
    using assms(1,2) by (auto simp: accounts_def add.assoc)
next
  case (Inr s)
  then show ?thesis
    using assms by (auto simp: accounts_def)
qed

lemma snapshot_allocations_exact:
  assumes "length (sn_bytes r) = 3" "\<forall>a \<in> set as. al_charged a \<longrightarrow> al_domain a \<noteq> domain_count"
  shows "accounts as r (snapshot_allocations as r)"
  using assms
proof (induction as arbitrary: r)
  case Nil
  then show ?case by (simp add: accounts_def)
next
  case (Cons a as)
  show ?case
  proof (cases "al_charged a")
    case False
    then show ?thesis
      using Cons by (auto intro!: accounts_charge [of as r])
  next
    case True
    define d where "d = domain_index (al_domain a)"
    define old where "old = sn_bytes r ! d"
    have d: "d < 3" "al_domain a \<noteq> domain_count"
      using Cons.prems True domain_index_bound by (auto simp: d_def)
    show ?thesis
    proof (cases "UINT64_MAX - old < al_bytes a")
      case over: True
      then have "2 ^ 64 \<le> unat old + unat (al_bytes a)"
        unfolding overflow_test by simp
      then show ?thesis
        using True over d(2)
        by (auto simp: accounts_def d_def old_def Let_def intro!: exI [of _ "al_domain a"])
    next
      case False
      define r' where "r' = r\<lparr>sn_bytes := (sn_bytes r)[d := old + al_bytes a],
               sn_allocations := Suc (sn_allocations r),
               sn_quarantined := (if al_quarantined a then Suc (sn_quarantined r)
                                  else sn_quarantined r)\<rparr>"
      have eq: "snapshot_allocations (a # as) r = snapshot_allocations as r'"
        using True False by (simp add: r'_def d_def old_def Let_def)
      have "unat (sn_bytes r' ! domain_index e) =
          unat (sn_bytes r ! domain_index e) + charged_bytes e [a]" if "e \<noteq> domain_count" for e
        using unat_add_checked [OF False] True d(1) Cons.prems(1)
        by (auto simp: r'_def d_def old_def nth_list_update domain_index_inj)
      moreover have "accounts as r' (snapshot_allocations as r')"
        using Cons.prems by (intro Cons.IH) (auto simp: r'_def)
      ultimately show ?thesis
        using True unfolding eq by (intro accounts_charge [of as r']) (auto simp: r'_def)
    qed
  qed
qed

lemma count_handles:
  "fold count_handle hs r = r\<lparr>
     sn_aliases := sn_aliases r + length (filter (\<lambda>h. rf_active h \<and> rf_kind h = shared_alias) hs),
     sn_views := sn_views r + length (filter (\<lambda>h. rf_active h \<and> rf_kind h = view) hs)\<rparr>"
proof (induction hs arbitrary: r)
  case Nil
  then show ?case by simp
next
  case (Cons h hs)
  show ?case
    unfolding fold_simps comp_apply Cons.IH
    by (cases "rf_kind h") (simp_all add: count_handle_def)
qed

lemma checked_total_exact:
  "case checked_total bs t of
     Inl e \<Rightarrow> e = Overflow_error \<and> 2 ^ 64 \<le> unat t + (\<Sum>b \<leftarrow> bs. unat b)
   | Inr u \<Rightarrow> unat u = unat t + (\<Sum>b \<leftarrow> bs. unat b)"
proof (induction bs arbitrary: t)
  case Nil
  then show ?case by simp
next
  case (Cons b bs)
  show ?case
  proof (cases "UINT64_MAX - t < b")
    case True
    then show ?thesis
      by (simp add: overflow_test)
  next
    case False
    then show ?thesis
      using Cons.IH [of "t + b"] unat_add_checked [OF False]
      by (auto split: sum.splits)
  qed
qed

lemma list_of_three: "length xs = 3 \<Longrightarrow> xs = [xs ! 0, xs ! 1, xs ! 2]"
  by (auto simp: numeral_eq_Suc length_Suc_conv)

text \<open>
  The snapshot of a reachable ledger is exact: it throws only when the charged bytes of some
  domain exceed a 64-bit integer, otherwise its per-domain bytes are the sums over the charged
  allocations of that domain, its counters count the charged and the quarantined allocations, the
  held aliases and the held views, and \<open>total_bytes\<close> is the sum over the three domains unless that
  overflows.
\<close>

theorem snapshot_exact:
  assumes "l = fold ledger_step cs ledger_init"
  shows "case ledger_snapshot_of l of
      Inl e \<Rightarrow> e = Overflow_error \<and>
        (\<exists>d. d \<noteq> domain_count \<and> 2 ^ 64 \<le> charged_bytes d (allocations l))
    | Inr s \<Rightarrow>
        (\<forall>d. d \<noteq> domain_count \<longrightarrow>
           unat (sn_bytes s ! domain_index d) = charged_bytes d (allocations l)) \<and>
        sn_allocations s = length (filter al_charged (allocations l)) \<and>
        sn_quarantined s = length (filter (\<lambda>a. al_charged a \<and> al_quarantined a) (allocations l)) \<and>
        sn_aliases s = length (filter (\<lambda>h. rf_active h \<and> rf_kind h = shared_alias) (references l)) \<and>
        sn_views s = length (filter (\<lambda>h. rf_active h \<and> rf_kind h = view) (references l)) \<and>
        (let t = charged_bytes host (allocations l) + charged_bytes cuda_registered_host (allocations l) +
               charged_bytes device (allocations l)
         in case total_bytes s of
              Inl e \<Rightarrow> e = Overflow_error \<and> 2 ^ 64 \<le> t | Inr u \<Rightarrow> unat u = t)"
proof -
  have inv: "ledger_inv l"
    unfolding assms by (rule ledger.run_inv [OF ledger_init_inv])
  have "\<forall>a \<in> set (allocations l). al_charged a \<longrightarrow> al_domain a \<noteq> domain_count"
    using inv by (auto simp: ledger_inv_def alloc_ok_def empty_allocation_def split: if_splits)
  then have acc: "accounts (allocations l) snapshot_zero
      (snapshot_allocations (allocations l) snapshot_zero)"
    by (intro snapshot_allocations_exact) (simp add: snapshot_zero_def)
  have zero: "sn_bytes snapshot_zero ! domain_index d = 0" if "d \<noteq> domain_count" for d
    using that by (cases d) (simp_all add: snapshot_zero_def)
  show ?thesis
  proof (cases "snapshot_allocations (allocations l) snapshot_zero")
    case (Inl e)
    then show ?thesis
      using acc zero by (auto simp: accounts_def ledger_snapshot_of_def)
  next
    case (Inr s)
    have three: "sn_bytes s = [sn_bytes s ! 0, sn_bytes s ! 1, sn_bytes s ! 2]"
      using acc Inr by (intro list_of_three) (simp add: accounts_def)
    have bytes: "unat (sn_bytes s ! domain_index d) = charged_bytes d (allocations l)"
      if "d \<noteq> domain_count" for d
      using acc Inr zero [OF that] that by (simp add: accounts_def)
    have "(\<Sum>b \<leftarrow> sn_bytes s. unat b) = charged_bytes host (allocations l) +
        charged_bytes cuda_registered_host (allocations l) + charged_bytes device (allocations l)"
      using bytes [of host] bytes [of cuda_registered_host] bytes [of device]
      by (subst three) simp
    then show ?thesis
      using acc Inr checked_total_exact [where bs = "sn_bytes s" and t = 0] bytes
      by (cases "checked_total (sn_bytes s) 0")
        (simp_all add: accounts_def ledger_snapshot_of_def count_handles total_bytes_def
          snapshot_zero_def)
  qed
qed

theorem snapshot_exact_witness:
  "(case ledger_snapshot_of (fold ledger_step
      [LAllocate 7 1 host 64, LReference 3 7 view, LAllocate 8 1 device 32, LRetire 7 success,
       LRetire 8 success] ledger_init) of
      Inl e \<Rightarrow> False
    | Inr s \<Rightarrow> unat (sn_bytes s ! domain_index host) = 64 \<and> sn_views s = 1)"
proof -
  define l where "l = fold ledger_step [LAllocate 7 1 host 64, LReference 3 7 view,
    LAllocate 8 1 device 32, LRetire 7 success, LRetire 8 success] ledger_init"
  have "charged_bytes host (allocations l) = 64" "ok (ledger_snapshot_of l)"
    "length (filter (\<lambda>h. rf_active h \<and> rf_kind h = view) (references l)) = 1"
    unfolding l_def by code_simp+
  then show ?thesis
    using snapshot_exact [OF l_def] unfolding l_def [symmetric]
    by (auto split: sum.splits)
qed

end
