(* ===== verification/VeriCache_Queue.thy ===== *)
theory VeriCache_Queue
  imports Voidinfer_Prelude
begin

text \<open>
  Model of \<open>src/exl3/vericache_queue.h\<close>: the bounded set of independent requests that share one
  physical execution lane. A request object is immutable and reached through a
  \<open>shared_ptr<const Exl3VeriCacheRequest>\<close>; the model keeps its address, its revision and
  its parent revision (\<open>is_child_of\<close> in \<open>src/exl3/vericache_request.h\<close>), which is all the queue reads;
  two pointers are equal exactly when these records are, since the address is part of them.

  The theorems: a request that stays ready is leased after fewer rounds than there are slots, a
  successful publication replaces exactly the leased state by a child of it, and a cancelled or
  completed request is never changed again.
\<close>

section \<open>Data\<close>

record vc_request =
  vr_address :: nat
  vr_revision :: nat
  vr_parent_revision :: nat

definition is_child_of :: "vc_request \<Rightarrow> vc_request \<Rightarrow> bool" where
  "is_child_of child root \<longleftrightarrow> vr_parent_revision child = vr_revision root"

datatype vq_status = ready | cancelled | completed

record lease =
  ls_request :: nat
  ls_generation :: u64
  ls_root :: vc_request

record vq_slot =
  sl_state :: vc_request
  sl_generation :: u64
  sl_status :: vq_status

record vc_queue =
  vq_capacity :: nat
  vq_cursor :: nat
  vq_slots :: "vq_slot list"
  vq_busy :: "lease option"

section \<open>Operations\<close>

definition queue_new :: "nat \<Rightarrow> exn + vc_queue" where
  "queue_new c =
     (if c < 1 \<or> c > 64 then Inl Invalid_argument
      else Inr \<lparr>vq_capacity = c, vq_cursor = 0, vq_slots = [], vq_busy = None\<rparr>)"

definition check_lease :: "lease \<Rightarrow> vc_queue \<Rightarrow> bool" where
  "check_lease x q \<longleftrightarrow> (case vq_busy q of
     None \<Rightarrow> False
   | Some b \<Rightarrow> ls_request b = ls_request x \<and> ls_generation b = ls_generation x \<and>
       ls_root b = ls_root x)"

definition queue_add :: "vc_request option \<Rightarrow> vc_queue \<Rightarrow> exn + (nat \<times> vc_queue)" where
  "queue_add state q = (case state of
     None \<Rightarrow> Inl Invalid_argument
   | Some r \<Rightarrow>
       if length (vq_slots q) = vq_capacity q then Inl Invalid_argument
       else Inr (length (vq_slots q),
         q\<lparr>vq_slots := vq_slots q @ [\<lparr>sl_state = r, sl_generation = 0, sl_status = ready\<rparr>]\<rparr>))"

primrec acquire_loop :: "nat \<Rightarrow> vc_queue \<Rightarrow> lease option \<times> vc_queue" where
  "acquire_loop 0 q = (None, q)"
| "acquire_loop (Suc i) q =
     (let k = vq_cursor q;
          q' = q\<lparr>vq_cursor := (vq_cursor q + 1) mod length (vq_slots q)\<rparr>;
          s = vq_slots q ! k
      in if sl_status s = ready
         then let x = \<lparr>ls_request = k, ls_generation = sl_generation s, ls_root = sl_state s\<rparr>
              in (Some x, q'\<lparr>vq_busy := Some x\<rparr>)
         else acquire_loop i q')"

definition acquire :: "vc_queue \<Rightarrow> exn + (lease option \<times> vc_queue)" where
  "acquire q =
     (if vq_busy q \<noteq> None then Inl Logic_error else Inr (acquire_loop (length (vq_slots q)) q))"

definition cancel :: "nat \<Rightarrow> vc_queue \<Rightarrow> exn + vc_queue" where
  "cancel k q =
     (if length (vq_slots q) \<le> k then Inl Out_of_range
      else let s = vq_slots q ! k in
        Inr (if sl_status s = ready
             then q\<lparr>vq_slots := (vq_slots q)[k := s\<lparr>sl_status := cancelled,
                    sl_generation := sl_generation s + 1\<rparr>]\<rparr>
             else q))"

text \<open>\<open>publish\<close> may release the lane and return false, so the queue is returned in every case.\<close>

definition publish ::
    "lease \<Rightarrow> vc_request option \<Rightarrow> bool \<Rightarrow> vc_queue \<Rightarrow> (exn + bool) \<times> vc_queue" where
  "publish x updated finished q =
     (if \<not> check_lease x q then (Inl Invalid_argument, q)
      else let s = vq_slots q ! ls_request x in
        if sl_status s \<noteq> ready \<or> sl_generation s \<noteq> ls_generation x
        then (Inr False, q\<lparr>vq_busy := None\<rparr>)
        else case updated of
          None \<Rightarrow> (Inl Invalid_argument, q)
        | Some u \<Rightarrow>
            if sl_state s \<noteq> ls_root x \<or> \<not> is_child_of u (ls_root x)
            then (Inl Invalid_argument, q)
            else (Inr True, q\<lparr>vq_slots := (vq_slots q)[ls_request x :=
                   \<lparr>sl_state = u, sl_generation = sl_generation s + 1,
                    sl_status = (if finished then completed else sl_status s)\<rparr>],
                  vq_busy := None\<rparr>))"

definition release :: "lease \<Rightarrow> vc_queue \<Rightarrow> exn + vc_queue" where
  "release x q =
     (if \<not> check_lease x q then Inl Invalid_argument else Inr (q\<lparr>vq_busy := None\<rparr>))"

definition request_active :: "nat \<Rightarrow> vc_queue \<Rightarrow> exn + bool" where
  "request_active k q =
     (if length (vq_slots q) \<le> k then Inl Out_of_range
      else Inr (sl_status (vq_slots q ! k) = ready))"

definition request_state :: "nat \<Rightarrow> vc_queue \<Rightarrow> exn + vc_request" where
  "request_state k q =
     (if length (vq_slots q) \<le> k then Inl Out_of_range else Inr (sl_state (vq_slots q ! k)))"

datatype vq_call =
    VAdd "vc_request option"
  | VAcquire
  | VCancel nat
  | VPublish lease "vc_request option" bool
  | VRelease lease

fun vq_step :: "vq_call \<Rightarrow> vc_queue \<Rightarrow> vc_queue" where
  "vq_step (VAdd r) q = after q (map_sum id snd (queue_add r q))"
| "vq_step VAcquire q = after q (map_sum id snd (acquire q))"
| "vq_step (VCancel k) q = after q (cancel k q)"
| "vq_step (VPublish x u f) q = snd (publish x u f q)"
| "vq_step (VRelease x) q = after q (release x q)"

section \<open>The round-robin search\<close>

definition slot_ready :: "nat \<Rightarrow> vc_queue \<Rightarrow> bool" where
  "slot_ready k q \<longleftrightarrow> k < length (vq_slots q) \<and> sl_status (vq_slots q ! k) = ready"

text \<open>How many slots the cursor passes before it stands on slot \<open>k\<close>.\<close>

definition distance :: "nat \<Rightarrow> vc_queue \<Rightarrow> nat" where
  "distance k q = (k + length (vq_slots q) - vq_cursor q) mod length (vq_slots q)"

definition vq_inv :: "vc_queue \<Rightarrow> bool" where
  "vq_inv q \<longleftrightarrow> (vq_slots q = [] \<longrightarrow> vq_cursor q = 0) \<and>
     (vq_slots q \<noteq> [] \<longrightarrow> vq_cursor q < length (vq_slots q)) \<and>
     length (vq_slots q) \<le> vq_capacity q \<and>
     (\<forall>x. vq_busy q = Some x \<longrightarrow> ls_request x < length (vq_slots q))"

lemma queue_new_inv: "queue_new c = Inr q \<Longrightarrow> vq_inv q"
  by (auto simp: queue_new_def vq_inv_def split: if_splits)

lemma acquire_loop_frame:
  "vq_slots (snd (acquire_loop i q)) = vq_slots q"
  "vq_capacity (snd (acquire_loop i q)) = vq_capacity q"
  by (induction i arbitrary: q) (simp_all add: Let_def)

lemma acquire_loop_cursor:
  assumes "vq_cursor q < length (vq_slots q)"
  shows "vq_cursor (snd (acquire_loop i q)) < length (vq_slots q)"
  using assms
proof (induction i arbitrary: q)
  case (Suc i)
  then have "0 < length (vq_slots q)" by linarith
  then show ?case
    using Suc.IH [of "q\<lparr>vq_cursor := (vq_cursor q + 1) mod length (vq_slots q)\<rparr>"]
    by (simp add: Let_def)
qed simp

lemma acquire_loop_lease:
  assumes "vq_cursor q < length (vq_slots q)" "acquire_loop i q = (Some x, q')"
  shows "vq_busy q' = Some x \<and> slot_ready (ls_request x) q \<and>
    ls_generation x = sl_generation (vq_slots q ! ls_request x) \<and>
    ls_root x = sl_state (vq_slots q ! ls_request x)"
  using assms
proof (induction i arbitrary: q)
  case (Suc i)
  show ?case
  proof (cases "sl_status (vq_slots q ! vq_cursor q) = ready")
    case True
    then show ?thesis
      using Suc.prems by (auto simp: Let_def slot_ready_def)
  next
    case False
    have "0 < length (vq_slots q)"
      using Suc.prems by linarith
    with False show ?thesis
      using Suc.prems Suc.IH [of "q\<lparr>vq_cursor := (vq_cursor q + 1) mod length (vq_slots q)\<rparr>"]
      by (simp add: Let_def slot_ready_def)
  qed
qed simp

text \<open>A search for at least as many steps as the distance finds a lease no later than at \<open>k\<close>.\<close>

lemma distance_eq:
  assumes "k < length (vq_slots q)" "vq_cursor q < length (vq_slots q)"
  shows "distance k q =
    (if vq_cursor q \<le> k then k - vq_cursor q else k + length (vq_slots q) - vq_cursor q)"
proof (cases "vq_cursor q \<le> k")
  case True
  then have "k + length (vq_slots q) - vq_cursor q = k - vq_cursor q + length (vq_slots q)"
    by linarith
  then have "distance k q = (k - vq_cursor q + length (vq_slots q)) mod length (vq_slots q)"
    unfolding distance_def by (rule arg_cong)
  then have "distance k q = (k - vq_cursor q) mod length (vq_slots q)"
    unfolding mod_add_self2 .
  then show ?thesis
    using assms(1) True by (simp add: less_imp_diff_less)
next
  case False
  then show ?thesis
    using assms by (simp add: distance_def)
qed

lemma distance_less:
  "k < length (vq_slots q) \<Longrightarrow> distance k q < length (vq_slots q)"
  unfolding distance_def by (rule mod_less_divisor) linarith

lemma distance_advance:
  assumes "k < length (vq_slots q)" "vq_cursor q < length (vq_slots q)" "k \<noteq> vq_cursor q"
  shows "Suc (distance k (q\<lparr>vq_cursor := (vq_cursor q + 1) mod length (vq_slots q)\<rparr>)) = distance k q"
proof (cases "vq_cursor q + 1 = length (vq_slots q)")
  case True
  then have "k < vq_cursor q" "(vq_cursor q + 1) mod length (vq_slots q) = 0"
    using assms by simp_all
  then show ?thesis
    using True assms(1) distance_eq [OF assms(1,2)] distance_eq [of k "q\<lparr>vq_cursor := 0\<rparr>"]
    by (cases "vq_slots q") auto
next
  case False
  then show ?thesis
    using assms by (auto simp: distance_eq)
qed

lemma acquire_loop_progress:
  assumes "slot_ready k q" "vq_cursor q < length (vq_slots q)" "distance k q < i"
  shows "\<exists>x q'. acquire_loop i q = (Some x, q') \<and>
    (ls_request x = k \<or> distance k q' < distance k q)"
  using assms
proof (induction i arbitrary: q)
  case (Suc i)
  define q1 where "q1 = q\<lparr>vq_cursor := (vq_cursor q + 1) mod length (vq_slots q)\<rparr>"
  have k: "k < length (vq_slots q)"
    using Suc.prems by (simp add: slot_ready_def)
  show ?case
  proof (cases "k = vq_cursor q")
    case True
    then show ?thesis
      using Suc.prems by (simp add: Let_def slot_ready_def)
  next
    case False
    then have d: "Suc (distance k q1) = distance k q"
      using distance_advance [OF k Suc.prems(2)] by (simp add: q1_def)
    show ?thesis
    proof (cases "sl_status (vq_slots q ! vq_cursor q) = ready")
      case True
      then show ?thesis
        using d by (auto simp: Let_def q1_def distance_def)
    next
      case notready: False
      have "0 < length (vq_slots q)" using k by linarith
      then obtain x q' where "acquire_loop i q1 = (Some x, q')"
        "ls_request x = k \<or> distance k q' < distance k q1"
        using Suc.IH [of q1] Suc.prems d by (auto simp: q1_def slot_ready_def)
      then show ?thesis
        using notready d by (auto simp: Let_def q1_def)
    qed
  qed
qed simp

section \<open>Invariant and the fate of a slot\<close>

lemma acquire_InrD:
  assumes "vq_inv q" "acquire q = Inr (ox, q')"
  shows "vq_inv q' \<and> vq_slots q' = vq_slots q \<and> vq_busy q = None"
proof (cases "vq_slots q = []")
  case True
  then show ?thesis
    using assms by (auto simp: acquire_def split: if_splits)
next
  case False
  then have c: "vq_cursor q < length (vq_slots q)"
    using assms(1) by (simp add: vq_inv_def)
  have loop: "acquire_loop (length (vq_slots q)) q = (ox, q')" "vq_busy q = None"
    using assms(2) by (auto simp: acquire_def split: if_splits)
  then have frame: "vq_slots q' = vq_slots q" "vq_capacity q' = vq_capacity q"
      "vq_cursor q' < length (vq_slots q)"
    using acquire_loop_frame [of "length (vq_slots q)" q] acquire_loop_cursor [OF c] by (metis snd_conv)+
  have "vq_busy q' = None" if "ox = None"
  proof -
    have "vq_busy (snd (acquire_loop i p)) = vq_busy p" if "fst (acquire_loop i p) = None" for i p
      using that by (induction i arbitrary: p) (auto simp: Let_def split: if_splits)
    from this [of "length (vq_slots q)" q] show ?thesis
      using loop that by simp
  qed
  moreover have "vq_busy q' = Some x \<and> ls_request x < length (vq_slots q)" if "ox = Some x" for x
    using acquire_loop_lease [OF c, of "length (vq_slots q)" x q'] loop(1) that
    by (simp add: slot_ready_def)
  ultimately show ?thesis
    using assms(1) frame loop(2) by (cases ox) (auto simp: vq_inv_def)
qed

lemma check_lease_request:
  "vq_inv q \<Longrightarrow> check_lease x q \<Longrightarrow> ls_request x < length (vq_slots q)"
  by (auto simp: vq_inv_def check_lease_def split: option.splits)

lemma vq_step_inv: "vq_inv q \<Longrightarrow> vq_inv (vq_step c q)"
proof (cases c)
  case VAcquire
  then show "vq_inv q \<Longrightarrow> vq_inv (vq_step c q)"
    using acquire_InrD [of q] by (cases "acquire q") (auto simp: VAcquire)
next
  case (VAdd r)
  then show "vq_inv q \<Longrightarrow> vq_inv (vq_step c q)"
    by (auto simp: queue_add_def vq_inv_def less_Suc_eq split: option.splits)
next
  case (VPublish x u f)
  then show "vq_inv q \<Longrightarrow> vq_inv (vq_step c q)"
    by (auto simp: publish_def vq_inv_def Let_def split: option.splits)
qed (auto simp: cancel_def release_def vq_inv_def Let_def)

text \<open>A slot that is cancelled or completed is closed: it keeps its state and status.\<close>

definition slot_closed :: "nat \<Rightarrow> vq_slot \<Rightarrow> vc_queue \<Rightarrow> bool" where
  "slot_closed k s q \<longleftrightarrow> sl_status s \<noteq> ready \<and> k < length (vq_slots q) \<and> vq_slots q ! k = s"

lemma vq_step_closed:
  assumes "vq_inv q" "slot_closed k s q"
  shows "slot_closed k s (vq_step c q)"
proof (cases c)
  case VAcquire
  then show ?thesis
    using assms acquire_InrD [of q] by (cases "acquire q") (auto simp: slot_closed_def)
next
  case (VAdd r)
  then show ?thesis
    using assms by (auto simp: queue_add_def slot_closed_def nth_append split: option.splits)
next
  case (VCancel j)
  then show ?thesis
    using assms by (auto simp: cancel_def slot_closed_def Let_def nth_list_update)
next
  case (VPublish x u f)
  then show ?thesis
    using assms check_lease_request [OF assms(1)]
    by (auto simp: publish_def slot_closed_def Let_def nth_list_update split: option.splits)
next
  case (VRelease x)
  then show ?thesis
    using assms by (auto simp: release_def slot_closed_def)
qed

interpretation vq: sticky_system vq_step vq_inv "slot_closed k s" for k s
  by unfold_locales (simp_all add: vq_step_inv vq_step_closed)

section \<open>Bounded waiting\<close>

text \<open>The requests leased by the acquisitions of a run, in order.\<close>

definition lease_of :: "vq_call \<Rightarrow> vc_queue \<Rightarrow> nat list" where
  "lease_of c q = (if c = VAcquire
     then (case acquire q of Inr (Some x, _) \<Rightarrow> [ls_request x] | _ \<Rightarrow> []) else [])"

fun leased :: "vq_call list \<Rightarrow> vc_queue \<Rightarrow> nat list" where
  "leased [] q = []"
| "leased (c # cs) q = lease_of c q @ leased cs (vq_step c q)"

fun stays_ready :: "nat \<Rightarrow> vq_call list \<Rightarrow> vc_queue \<Rightarrow> bool" where
  "stays_ready k [] q = slot_ready k q"
| "stays_ready k (c # cs) q \<longleftrightarrow> slot_ready k q \<and> stays_ready k cs (vq_step c q)"

fun is_add :: "vq_call \<Rightarrow> bool" where
  "is_add (VAdd _) = True"
| "is_add _ = False"

lemma stays_ready_now: "stays_ready k cs q \<Longrightarrow> slot_ready k q"
  by (cases cs) auto

lemma ready_cursor: "vq_inv q \<Longrightarrow> slot_ready k q \<Longrightarrow> vq_cursor q < length (vq_slots q)"
  by (auto simp: vq_inv_def slot_ready_def)

lemma acquire_progress:
  assumes "vq_inv q" "slot_ready k q" "vq_busy q = None"
  shows "\<exists>x q'. acquire q = Inr (Some x, q') \<and> (ls_request x = k \<or> distance k q' < distance k q)"
  using acquire_loop_progress [OF assms(2) ready_cursor [OF assms(1,2)], of "length (vq_slots q)"]
    assms(2,3) distance_less [of k q]
  by (auto simp: acquire_def slot_ready_def)

lemma step_frame:
  assumes "c \<noteq> VAcquire" "\<not> is_add c"
  shows "vq_cursor (vq_step c q) = vq_cursor q \<and>
    length (vq_slots (vq_step c q)) = length (vq_slots q)"
  using assms
  by (cases c) (auto simp: cancel_def publish_def release_def Let_def split: option.splits)

lemma step_distance:
  assumes "vq_inv q" "slot_ready k q" "\<not> is_add c" "k \<notin> set (lease_of c q)"
  shows "distance k (vq_step c q) + length (lease_of c q) \<le> distance k q \<and>
    length (vq_slots (vq_step c q)) = length (vq_slots q)"
proof (cases "c = VAcquire")
  case False
  then show ?thesis
    using step_frame [OF False assms(3), of q] by (simp add: lease_of_def distance_def)
next
  case c: True
  show ?thesis
  proof (cases "vq_busy q")
    case None
    then obtain x q' where x: "acquire q = Inr (Some x, q')"
      "ls_request x = k \<or> distance k q' < distance k q"
      using acquire_progress [OF assms(1,2)] by blast
    then show ?thesis
      using assms(4) acquire_InrD [OF assms(1) x(1)] by (auto simp: c lease_of_def)
  next
    case (Some b)
    then show ?thesis
      by (simp add: c lease_of_def acquire_def)
  qed
qed

lemma leased_distance:
  assumes "vq_inv q" "stays_ready k cs q" "\<not> list_ex is_add cs" "k \<notin> set (leased cs q)"
  shows "length (leased cs q) \<le> distance k q"
  using assms
proof (induction cs arbitrary: q)
  case (Cons c cs)
  then show ?case
    using step_distance [of q k c] Cons.IH [of "vq_step c q"] vq_step_inv [of q c] by fastforce
qed simp

text \<open>
  C13. No starvation. From any state a new queue can reach, while request \<open>k\<close> stays ready and no
  request is admitted, a free lane is always leased (\<open>acquire\<close> neither throws nor comes back empty),
  and fewer leases than there are slots go to other requests before \<open>k\<close> gets one.
\<close>

theorem bounded_waiting:
  assumes "queue_new c = Inr q0" "q = fold vq_step bs q0"
    and "stays_ready k cs q" "\<not> list_ex is_add cs" "k \<notin> set (leased cs q)"
  shows "length (leased cs q) < length (vq_slots q) \<and>
    (vq_busy q = None \<longrightarrow> (\<exists>x q'. acquire q = Inr (Some x, q')))"
proof -
  have inv: "vq_inv q"
    unfolding assms(2) by (rule vq.run_inv [OF queue_new_inv [OF assms(1)]])
  have "slot_ready k q"
    using assms(3) by (rule stays_ready_now)
  then show ?thesis
    using leased_distance [OF inv assms(3-5)] distance_less [of k q] acquire_progress [OF inv]
    by (force simp: slot_ready_def)
qed

definition sample_request :: "nat \<Rightarrow> nat \<Rightarrow> vc_request" where
  "sample_request r p = \<lparr>vr_address = r, vr_revision = r, vr_parent_revision = p\<rparr>"

definition sample_queue :: vc_queue where
  "sample_queue = \<lparr>vq_capacity = 4, vq_cursor = 0, vq_slots = [], vq_busy = None\<rparr>"

definition sample_adds :: "vq_call list" where
  "sample_adds = [VAdd (Some (sample_request 1 0)), VAdd (Some (sample_request 2 0)),
     VAdd (Some (sample_request 3 0))]"

definition sample_round :: "vq_call list" where
  "sample_round = [VAcquire, VRelease \<lparr>ls_request = 0, ls_generation = 0, ls_root = sample_request 1 0\<rparr>,
     VAcquire]"

theorem bounded_waiting_witness:
  "length (leased sample_round (fold vq_step sample_adds sample_queue)) < 3 \<and>
   leased sample_round (fold vq_step sample_adds sample_queue) = [0, 1]"
proof -
  have "queue_new 4 = Inr sample_queue"
    by code_simp
  moreover have "stays_ready 2 sample_round (fold vq_step sample_adds sample_queue)"
    "\<not> list_ex is_add sample_round" "2 \<notin> set (leased sample_round (fold vq_step sample_adds sample_queue))"
    "length (vq_slots (fold vq_step sample_adds sample_queue)) = 3"
    "leased sample_round (fold vq_step sample_adds sample_queue) = [0, 1]"
    by code_simp+
  ultimately show ?thesis
    using bounded_waiting [OF _ refl, of 4 sample_queue 2 sample_round sample_adds] by simp
qed

section \<open>Lineage of published states\<close>

lemma vq_step_lineage:
  assumes "vq_inv q" "k < length (vq_slots q)"
    and "sl_state (vq_slots (vq_step c q) ! k) \<noteq> sl_state (vq_slots q ! k)"
  shows "slot_ready k q \<and>
    is_child_of (sl_state (vq_slots (vq_step c q) ! k)) (sl_state (vq_slots q ! k)) \<and>
    (\<exists>x u f. c = VPublish x (Some u) f \<and> ls_request x = k \<and> check_lease x q)"
proof (cases c)
  case VAcquire
  then show ?thesis
    using assms acquire_InrD [OF assms(1)] by (cases "acquire q") auto
next
  case (VAdd r)
  then show ?thesis
    using assms by (auto simp: queue_add_def nth_append split: option.splits)
next
  case (VCancel j)
  then show ?thesis
    using assms by (auto simp: cancel_def Let_def nth_list_update split: if_splits)
next
  case (VPublish x u f)
  then show ?thesis
    using assms check_lease_request [OF assms(1), of x]
    by (auto simp: publish_def Let_def nth_list_update slot_ready_def split: option.splits if_splits)
next
  case (VRelease x)
  then show ?thesis
    using assms by (auto simp: release_def split: if_splits)
qed

text \<open>
  C14. Only verified children are published. In every reachable queue, a call changes the state of
  request \<open>k\<close> only if it is a publication under the current lease of \<open>k\<close>, \<open>k\<close> is ready, and the new
  state is a child of the old one; and once \<open>k\<close> is cancelled or completed its slot never changes
  again, also when the lease taken before the cancellation is used to publish.
\<close>

theorem publication_lineage:
  assumes "queue_new n = Inr q0" "q = fold vq_step bs q0" "k < length (vq_slots q)"
  shows "(sl_state (vq_slots (vq_step c q) ! k) \<noteq> sl_state (vq_slots q ! k) \<longrightarrow>
      slot_ready k q \<and>
      is_child_of (sl_state (vq_slots (vq_step c q) ! k)) (sl_state (vq_slots q ! k)) \<and>
      (\<exists>x u f. c = VPublish x (Some u) f \<and> ls_request x = k \<and> check_lease x q)) \<and>
    (\<not> slot_ready k q \<longrightarrow> vq_slots (fold vq_step cs q) ! k = vq_slots q ! k) \<and>
    sl_state (vq_slots (fold vq_step cs (vq_step (VCancel k) q)) ! k) = sl_state (vq_slots q ! k)"
proof -
  have inv: "vq_inv q"
    unfolding assms(2) by (rule vq.run_inv [OF queue_new_inv [OF assms(1)]])
  have closed: "vq_slots (fold vq_step cs p) ! k = vq_slots p ! k"
    if "vq_inv p" "k < length (vq_slots p)" "\<not> slot_ready k p" for p
  proof -
    have "slot_closed k (vq_slots p ! k) p"
      using that by (simp add: slot_closed_def slot_ready_def)
    then show ?thesis
      using vq.run_terminal [OF that(1)] by (auto simp: slot_closed_def)
  qed
  have "k < length (vq_slots (vq_step (VCancel k) q))" "\<not> slot_ready k (vq_step (VCancel k) q)"
    "sl_state (vq_slots (vq_step (VCancel k) q) ! k) = sl_state (vq_slots q ! k)"
    using assms(3) by (auto simp: cancel_def Let_def slot_ready_def)
  then have "sl_state (vq_slots (fold vq_step cs (vq_step (VCancel k) q)) ! k) =
      sl_state (vq_slots q ! k)"
    using closed [OF vq_step_inv [OF inv]] by metis
  then show ?thesis
    using vq_step_lineage [OF inv assms(3)] closed [OF inv assms(3)] by blast
qed

theorem publication_lineage_witness:
  "sl_state (vq_slots (fold vq_step
      [VPublish \<lparr>ls_request = 0, ls_generation = 0, ls_root = sample_request 1 0\<rparr>
         (Some (sample_request 9 1)) False]
      (vq_step (VCancel 0) (fold vq_step (sample_adds @ [VAcquire]) sample_queue))) ! 0) =
   sample_request 1 0"
proof -
  have "queue_new 4 = Inr sample_queue"
    "0 < length (vq_slots (fold vq_step (sample_adds @ [VAcquire]) sample_queue))"
    "sl_state (vq_slots (fold vq_step (sample_adds @ [VAcquire]) sample_queue) ! 0) =
      sample_request 1 0"
    by code_simp+
  then show ?thesis
    using publication_lineage [OF _ refl, of 4 sample_queue 0 "sample_adds @ [VAcquire]"] by metis
qed

end
