(* ===== verification/Ready_Selection.thy ===== *)
theory Ready_Selection
  imports Voidinfer_Prelude
begin

text \<open>
  Model of the first part of \<open>src/exl3/ready_work_descriptor.h\<close>: the immutable facts about queued work
  (resources, copy demand, execution signature), the assessment of a work item, and the three
  selection functions: a lane for a request, the oldest eligible request, and the copy-aware request.

  Time points of the steady clock are integers in nanoseconds and durations integers in microseconds;
  \<open>duration_cast\<close> of a positive difference is integer division by 1000. Pointers to \<open>const void\<close> are
  values of \<open>shared_ptr\<close> over block identities.

  The theorems: the lane selection returns exactly the best feasible lane in a lexicographic order, and
  the request selection returns the oldest eligible request, deferring it for copy locality only within
  its finite bound.
\<close>

section \<open>Facts about queued work\<close>

datatype numerical_stage =
    HostPreparation | TargetProjection | PrivateDraftProjection | Verification | GreedyDecision

datatype ready_arithmetic = OrdinaryFp16B8GreedyText

datatype ready_modality = Text

datatype work_block =
    NoBlock | StaleAcquisition | BlockedDependency | MissingPhysicalLane | MissingResource | Cancelled

record work_resources =
  logical_host_bytes :: u64
  request_local_device_bytes :: u64
  physical_lane_slots :: u32
  requires_preallocated_context :: bool

record copy_demand =
  history_owner :: void_ptr
  transfer_bytes :: "u64 option"
  maximum_deferral :: int

definition maximum_fairness_deferral :: int where
  "maximum_fairness_deferral = 1000000"

definition demand_valid :: "copy_demand \<Rightarrow> bool" where
  "demand_valid d = (case transfer_bytes d of
     None \<Rightarrow> maximum_deferral d = 0
   | Some b \<Rightarrow>
       if b = 0 then maximum_deferral d = 0
       else non_null (history_owner d) \<and> 0 < maximum_deferral d \<and>
         maximum_deferral d \<le> maximum_fairness_deferral)"

definition demand_actionable :: "copy_demand \<Rightarrow> bool" where
  "demand_actionable d \<longleftrightarrow> demand_valid d \<and>
     (case transfer_bytes d of None \<Rightarrow> False | Some b \<Rightarrow> 0 < b)"

definition same_owner :: "void_ptr \<Rightarrow> void_ptr \<Rightarrow> bool" where
  "same_owner p q \<longleftrightarrow> non_null p \<and> non_null q \<and> control_of p = control_of q"

definition same_history :: "copy_demand \<Rightarrow> copy_demand \<Rightarrow> bool" where
  "same_history d e \<longleftrightarrow> non_null (history_owner d) \<and> non_null (history_owner e) \<and>
     control_of (history_owner d) = control_of (history_owner e)"

definition same_demand :: "copy_demand \<Rightarrow> copy_demand \<Rightarrow> bool" where
  "same_demand d e \<longleftrightarrow>
     ((\<not> non_null (history_owner d) \<and> \<not> non_null (history_owner e)) \<or> same_history d e) \<and>
     transfer_bytes d = transfer_bytes e \<and> maximum_deferral d = maximum_deferral e"

record execution_signature =
  model_owner :: void_ptr
  sig_device :: int
  sig_stage :: numerical_stage
  sig_arithmetic :: ready_arithmetic
  sig_modality :: ready_modality

definition compatible_with :: "execution_signature \<Rightarrow> execution_signature \<Rightarrow> bool" where
  "compatible_with a b \<longleftrightarrow> same_owner (model_owner a) (model_owner b) \<and>
     sig_device a = sig_device b \<and> sig_stage a = sig_stage b \<and>
     sig_arithmetic a = sig_arithmetic b \<and> sig_modality a = sig_modality b"

record work_state =
  observed_generation :: u64
  dependency_ready :: bool
  physical_lane_available :: bool
  required_resources_available :: bool
  ws_cancelled :: bool

record work_assessment =
  logically_admitted :: bool
  physically_executable :: bool
  blocked :: work_block

definition assess_ready_work :: "u64 \<Rightarrow> work_state \<Rightarrow> work_assessment" where
  "assess_ready_work generation s =
     (if ws_cancelled s
      then \<lparr>logically_admitted = True, physically_executable = False, blocked = Cancelled\<rparr>
      else if observed_generation s \<noteq> generation
      then \<lparr>logically_admitted = True, physically_executable = False, blocked = StaleAcquisition\<rparr>
      else if \<not> dependency_ready s
      then \<lparr>logically_admitted = True, physically_executable = False, blocked = BlockedDependency\<rparr>
      else if \<not> physical_lane_available s
      then \<lparr>logically_admitted = True, physically_executable = False, blocked = MissingPhysicalLane\<rparr>
      else if \<not> required_resources_available s
      then \<lparr>logically_admitted = True, physically_executable = False, blocked = MissingResource\<rparr>
      else \<lparr>logically_admitted = True, physically_executable = True, blocked = NoBlock\<rparr>)"

record work_observation =
  ob_generation :: u64
  ob_fingerprint :: u64
  ob_input_tokens :: nat
  ob_submitted :: int
  ob_resources :: work_resources
  ob_signature :: execution_signature
  ob_copy_demand :: copy_demand

definition observation_assess :: "work_observation \<Rightarrow> work_state \<Rightarrow> work_assessment" where
  "observation_assess ob s = assess_ready_work (ob_generation ob) s"

section \<open>Lane selection\<close>

record locality_cost =
  root_attachment_microseconds :: "u64 option"
  history_restore_microseconds :: "u64 option"

definition total_microseconds :: "locality_cost \<Rightarrow> u64 option" where
  "total_microseconds c =
     (case root_attachment_microseconds c of
        None \<Rightarrow> None
      | Some a \<Rightarrow> (case history_restore_microseconds c of
          None \<Rightarrow> None
        | Some h \<Rightarrow> if UINT64_MAX - h < a then None else Some (a + h)))"

record lane_locality =
  ll_lane :: nat
  physical_resources_feasible :: bool
  identity_compatible :: bool
  reusable_tokens :: nat
  ll_cost :: locality_cost

definition lane_feasible :: "lane_locality \<Rightarrow> bool" where
  "lane_feasible c \<longleftrightarrow> physical_resources_feasible c \<and> identity_compatible c"

text \<open>One iteration of the first loop, on the index, over the pair of fallback and cost knowledge.\<close>

definition fallback_step ::
    "lane_locality list \<Rightarrow> nat \<Rightarrow> nat option \<times> bool \<Rightarrow> nat option \<times> bool" where
  "fallback_step cs i st =
     (if \<not> lane_feasible (cs ! i) then st
      else ((case fst st of
               None \<Rightarrow> Some i
             | Some f \<Rightarrow>
                 if reusable_tokens (cs ! f) < reusable_tokens (cs ! i) then Some i else Some f),
            snd st \<and> total_microseconds (ll_cost (cs ! i)) \<noteq> None))"

text \<open>One iteration of the second loop, over the pair of selected index and selected cost.\<close>

definition cost_step :: "lane_locality list \<Rightarrow> nat \<Rightarrow> nat \<times> u64 \<Rightarrow> nat \<times> u64" where
  "cost_step cs i st =
     (if \<not> lane_feasible (cs ! i) then st
      else let cost = the (total_microseconds (ll_cost (cs ! i))) in
        if cost < snd st \<or> (cost = snd st \<and>
             reusable_tokens (cs ! fst st) < reusable_tokens (cs ! i))
        then (i, cost) else st)"

definition select_ready_lane :: "lane_locality list \<Rightarrow> nat option" where
  "select_ready_lane cs =
     (let st = fold (fallback_step cs) [0..<length cs] (None, True) in
      case fst st of
        None \<Rightarrow> None
      | Some f \<Rightarrow>
          if \<not> snd st then Some (ll_lane (cs ! f))
          else Some (ll_lane (cs ! fst (fold (cost_step cs) [0..<length cs]
                 (f, the (total_microseconds (ll_cost (cs ! f))))))))"

section \<open>Request selection\<close>

record request_candidate =
  queue_index :: nat
  submitted :: int
  physically_eligible :: bool
  rc_cancelled :: bool

record copy_candidate =
  cc_request :: request_candidate
  cc_demand :: copy_demand
  duplicates_active_history :: bool

definition request_precedes :: "request_candidate \<Rightarrow> request_candidate \<Rightarrow> bool" where
  "request_precedes c s \<longleftrightarrow> submitted c < submitted s \<or>
     (submitted c = submitted s \<and> queue_index c < queue_index s)"

definition request_eligible :: "request_candidate \<Rightarrow> bool" where
  "request_eligible c \<longleftrightarrow> physically_eligible c \<and> \<not> rc_cancelled c"

definition fair_step ::
    "request_candidate \<Rightarrow> request_candidate option \<Rightarrow> request_candidate option" where
  "fair_step c sel =
     (if \<not> request_eligible c then sel
      else case sel of
        None \<Rightarrow> Some c
      | Some s \<Rightarrow> if request_precedes c s then Some c else Some s)"

definition select_fair_ready_request :: "request_candidate list \<Rightarrow> nat option" where
  "select_fair_ready_request cs = map_option queue_index (fold fair_step cs None)"

text \<open>The loop of the copy-aware selection: oldest, oldest nonduplicate, and whether all are known.\<close>

definition older :: "copy_candidate \<Rightarrow> copy_candidate option \<Rightarrow> copy_candidate option" where
  "older c sel = (case sel of
     None \<Rightarrow> Some c
   | Some s \<Rightarrow> if request_precedes (cc_request c) (cc_request s) then Some c else Some s)"

definition copy_step ::
    "copy_candidate \<Rightarrow> copy_candidate option \<times> copy_candidate option \<times> bool \<Rightarrow>
     copy_candidate option \<times> copy_candidate option \<times> bool" where
  "copy_step c st =
     (if \<not> request_eligible (cc_request c) then st
      else (older c (fst st),
            (if duplicates_active_history c then fst (snd st) else older c (fst (snd st))),
            snd (snd st) \<and> transfer_bytes (cc_demand c) \<noteq> None))"

definition age_microseconds :: "int \<Rightarrow> int \<Rightarrow> int" where
  "age_microseconds now sub = (if now \<le> sub then 0 else (now - sub) div 1000)"

definition select_copy_aware_ready_request :: "copy_candidate list \<Rightarrow> int \<Rightarrow> nat option" where
  "select_copy_aware_ready_request cs now =
     (case fold copy_step cs (None, None, True) of
        (None, _) \<Rightarrow> None
      | (Some old, alt, all_known) \<Rightarrow>
          (case alt of
             None \<Rightarrow> Some (queue_index (cc_request old))
           | Some a \<Rightarrow>
               if \<not> all_known \<or> \<not> duplicates_active_history old \<or>
                  \<not> demand_actionable (cc_demand old)
               then Some (queue_index (cc_request old))
               else if maximum_deferral (cc_demand old) \<le>
                   age_microseconds now (submitted (cc_request old))
               then Some (queue_index (cc_request old))
               else Some (queue_index (cc_request a))))"

section \<open>The lane selection is optimal\<close>

definition lane_cost :: "lane_locality list \<Rightarrow> nat \<Rightarrow> u64" where
  "lane_cost cs i = the (total_microseconds (ll_cost (cs ! i)))"

definition more_tokens :: "lane_locality list \<Rightarrow> nat \<Rightarrow> nat \<Rightarrow> bool" where
  "more_tokens cs i j \<longleftrightarrow> reusable_tokens (cs ! j) < reusable_tokens (cs ! i)"

definition cheaper :: "lane_locality list \<Rightarrow> nat \<Rightarrow> nat \<Rightarrow> bool" where
  "cheaper cs i j \<longleftrightarrow> lane_cost cs i < lane_cost cs j \<or>
     lane_cost cs i = lane_cost cs j \<and> more_tokens cs i j"

interpretation tokens_order: selection "more_tokens cs" for cs
  by unfold_locales (auto simp: more_tokens_def)

interpretation cost_order: selection "cheaper cs" for cs
  by unfold_locales (auto simp: cheaper_def more_tokens_def)

lemma fallback_fold:
  "fold (fallback_step cs) xs st =
     (fold (select_step (\<lambda>i. lane_feasible (cs ! i)) (more_tokens cs)) xs (fst st),
      snd st \<and> (\<forall>i \<in> set xs. lane_feasible (cs ! i) \<longrightarrow> total_microseconds (ll_cost (cs ! i)) \<noteq> None))"
proof (induction xs arbitrary: st)
  case (Cons i xs)
  have "fallback_step cs i st =
      (select_step (\<lambda>i. lane_feasible (cs ! i)) (more_tokens cs) i (fst st),
       snd st \<and> (lane_feasible (cs ! i) \<longrightarrow> total_microseconds (ll_cost (cs ! i)) \<noteq> None))"
    by (cases st) (auto simp: fallback_step_def select_step_def more_tokens_def split: option.splits)
  then show ?case
    by (simp add: Cons.IH)
qed simp

lemma cost_fold:
  "snd st = lane_cost cs (fst st) \<Longrightarrow>
   fold (select_step (\<lambda>i. lane_feasible (cs ! i)) (cheaper cs)) xs (Some (fst st)) =
     Some (fst (fold (cost_step cs) xs st))"
proof (induction xs arbitrary: st)
  case (Cons i xs)
  have "select_step (\<lambda>i. lane_feasible (cs ! i)) (cheaper cs) i (Some (fst st)) =
      Some (fst (cost_step cs i st))"
    "snd (cost_step cs i st) = lane_cost cs (fst (cost_step cs i st))"
    using Cons.prems
    by (auto simp: cost_step_def select_step_def cheaper_def more_tokens_def lane_cost_def Let_def)
  then show ?case
    using Cons.IH [of "cost_step cs i st"] by simp
qed simp

text \<open>The order of preference among the feasible lanes.\<close>

definition lane_preferred :: "lane_locality list \<Rightarrow> nat \<Rightarrow> nat \<Rightarrow> bool" where
  "lane_preferred cs i j \<longleftrightarrow>
     (if \<forall>c \<in> set cs. lane_feasible c \<longrightarrow> total_microseconds (ll_cost c) \<noteq> None
      then cheaper cs i j \<or> (\<not> cheaper cs j i \<and> i < j)
      else more_tokens cs i j \<or> (\<not> more_tokens cs j i \<and> i < j))"

text \<open>
  C15. \<open>exl3_select_ready_lane\<close> returns nothing only if no lane passes the resource and identity gates.
  Otherwise it returns the lane of a feasible candidate that is preferred to every other feasible one:
  when every feasible candidate has a known total cost, by lower cost, then more reusable tokens, then
  the earlier position; when some cost is unknown, by more reusable tokens, then the earlier position.
\<close>

theorem select_ready_lane_optimal:
  "case select_ready_lane cs of
     None \<Rightarrow> \<forall>c \<in> set cs. \<not> lane_feasible c
   | Some lane \<Rightarrow> \<exists>i < length cs. lane_feasible (cs ! i) \<and> ll_lane (cs ! i) = lane \<and>
       (\<forall>j < length cs. lane_feasible (cs ! j) \<and> j \<noteq> i \<longrightarrow> lane_preferred cs i j)"
proof -
  let ?P = "\<lambda>i. lane_feasible (cs ! i)"
  define known where
    "known \<longleftrightarrow> (\<forall>c \<in> set cs. lane_feasible c \<longrightarrow> total_microseconds (ll_cost c) \<noteq> None)"
  have st: "fold (fallback_step cs) [0..<length cs] (None, True) =
      (fold (select_step ?P (more_tokens cs)) [0..<length cs] None, known)"
    unfolding fallback_fold known_def by (auto simp: all_set_conv_all_nth)
  show ?thesis
  proof (cases "fold (select_step ?P (more_tokens cs)) [0..<length cs] None")
    case None
    then have "\<forall>i \<in> set [0..<length cs]. \<not> ?P i"
      using tokens_order.select_None [of ?P cs "[0..<length cs]"] by blast
    then have "\<forall>c \<in> set cs. \<not> lane_feasible c"
      by (simp add: all_set_conv_all_nth)
    then show ?thesis
      using None by (simp add: select_ready_lane_def st)
  next
    case (Some f)
    have f: "?P f" "f < length cs" "\<forall>j < f. ?P j \<longrightarrow> more_tokens cs f j"
      "\<forall>j < length cs. ?P j \<longrightarrow> \<not> more_tokens cs j f"
      using tokens_order.select_Some [OF Some] ahead_upt [of ?P "more_tokens cs" "length cs" f] by auto
    show ?thesis
    proof (cases known)
      case False
      then have "select_ready_lane cs = Some (ll_lane (cs ! f))"
        using Some by (simp add: select_ready_lane_def st)
      moreover have "lane_preferred cs f j" if "j < length cs" "?P j" "j \<noteq> f" for j
        using f that False unfolding known_def [symmetric] lane_preferred_def
        by (metis known_def linorder_neqE_nat)
      ultimately show ?thesis
        using f by auto
    next
      case True
      define s where "s = fst (fold (cost_step cs) [0..<length cs] (f, lane_cost cs f))"
      have sel: "fold (select_step ?P (cheaper cs)) [0..<length cs] (Some f) = Some s"
        using cost_fold [of "(f, lane_cost cs f)" cs "[0..<length cs]"] by (simp add: s_def)
      have "select_ready_lane cs = Some (ll_lane (cs ! s))"
        using Some True by (simp add: select_ready_lane_def st s_def lane_cost_def)
      moreover have s: "\<forall>j < length cs. ?P j \<longrightarrow> \<not> cheaper cs j s"
        "s = f \<or> ?P s \<and> s < length cs \<and> (\<forall>j < s. ?P j \<longrightarrow> cheaper cs s j)"
        using cost_order.select_from [OF sel] ahead_upt [of ?P "cheaper cs" "length cs" s] by auto
      moreover have "lane_preferred cs s j" if j: "j < length cs" "?P j" "j \<noteq> s" for j
      proof (cases "j < s")
        case less: True
        have "cheaper cs s j"
        proof (cases "s = f")
          case True
          then show ?thesis
            using f(3) less j s(1) by (auto simp: cheaper_def)
        qed (use s(2) less j in blast)
        then show ?thesis
          using True by (simp add: lane_preferred_def known_def)
      next
        case False
        then show ?thesis
          using True s(1) j by (auto simp: lane_preferred_def known_def)
      qed
      ultimately show ?thesis
        using f by auto
    qed
  qed
qed

definition sample_lanes :: "lane_locality list" where
  "sample_lanes =
     [\<lparr>ll_lane = 4, physical_resources_feasible = True, identity_compatible = True, reusable_tokens = 10,
       ll_cost = \<lparr>root_attachment_microseconds = Some 5, history_restore_microseconds = Some 9\<rparr>\<rparr>,
      \<lparr>ll_lane = 6, physical_resources_feasible = True, identity_compatible = True, reusable_tokens = 2,
       ll_cost = \<lparr>root_attachment_microseconds = Some 5, history_restore_microseconds = Some 1\<rparr>\<rparr>]"

theorem select_ready_lane_optimal_witness:
  "\<exists>i < length sample_lanes. ll_lane (sample_lanes ! i) = 6 \<and>
     (\<forall>j < length sample_lanes. lane_feasible (sample_lanes ! j) \<and> j \<noteq> i \<longrightarrow>
        lane_preferred sample_lanes i j)"
proof -
  have "select_ready_lane sample_lanes = Some 6"
    by code_simp
  then show ?thesis
    using select_ready_lane_optimal [of sample_lanes] by auto
qed

section \<open>The request selection is fair\<close>

interpretation request_order: selection request_precedes
  by unfold_locales (auto simp: request_precedes_def)

interpretation copy_order: selection "\<lambda>c d. request_precedes (cc_request c) (cc_request d)"
  by unfold_locales (auto simp: request_precedes_def)

lemma fair_step_select: "fair_step = select_step request_eligible request_precedes"
  by (intro ext) (simp add: fair_step_def select_step_def)

abbreviation copy_precedes :: "copy_candidate \<Rightarrow> copy_candidate \<Rightarrow> bool" where
  "copy_precedes c d \<equiv> request_precedes (cc_request c) (cc_request d)"

abbreviation copy_eligible :: "copy_candidate \<Rightarrow> bool" where
  "copy_eligible c \<equiv> request_eligible (cc_request c)"

definition alternative :: "copy_candidate \<Rightarrow> bool" where
  "alternative c \<longleftrightarrow> copy_eligible c \<and> \<not> duplicates_active_history c"

lemma copy_fold:
  "fold copy_step cs st =
     (fold (select_step copy_eligible copy_precedes) cs (fst st),
      fold (select_step alternative copy_precedes) cs (fst (snd st)),
      snd (snd st) \<and> (\<forall>c \<in> set cs. copy_eligible c \<longrightarrow> transfer_bytes (cc_demand c) \<noteq> None))"
proof (induction cs arbitrary: st)
  case (Cons c cs)
  have "copy_step c st =
      (select_step copy_eligible copy_precedes c (fst st),
       select_step alternative copy_precedes c (fst (snd st)),
       snd (snd st) \<and> (copy_eligible c \<longrightarrow> transfer_bytes (cc_demand c) \<noteq> None))"
    by (cases st) (auto simp: copy_step_def older_def select_step_def alternative_def)
  then show ?case
    by (simp add: Cons.IH)
qed simp

lemma fair_of_copy:
  "fold fair_step (map cc_request cs) (map_option cc_request sel) =
     map_option cc_request (fold (select_step copy_eligible copy_precedes) cs sel)"
proof (induction cs arbitrary: sel)
  case (Cons c cs)
  have "fair_step (cc_request c) (map_option cc_request sel) =
      map_option cc_request (select_step copy_eligible copy_precedes c sel)"
    by (auto simp: fair_step_def select_step_def split: option.splits)
  then show ?case
    by (simp add: Cons.IH)
qed simp

text \<open>
  C16. Fair selection with bounded deferral. \<open>exl3_select_fair_ready_request\<close> returns nothing only if no
  candidate is eligible, and otherwise an eligible candidate that no eligible candidate precedes. The
  copy-aware selection returns the same request, except when the oldest eligible candidate duplicates
  an active history transfer, has an actionable demand, and is younger than its own deferral bound (at
  most one second); only then, and only if every eligible demand is known, it returns an oldest
  eligible candidate that duplicates nothing.
\<close>

theorem copy_aware_selection_fair:
  "(case select_fair_ready_request rs of
      None \<Rightarrow> \<forall>r \<in> set rs. \<not> request_eligible r
    | Some k \<Rightarrow> \<exists>r \<in> set rs. queue_index r = k \<and> request_eligible r \<and>
        (\<forall>x \<in> set rs. request_eligible x \<longrightarrow> \<not> request_precedes x r)) \<and>
   (select_copy_aware_ready_request cs now = select_fair_ready_request (map cc_request cs) \<or>
    (\<exists>old \<in> set cs. \<exists>alt \<in> set cs.
       copy_eligible old \<and> (\<forall>x \<in> set cs. copy_eligible x \<longrightarrow> \<not> copy_precedes x old) \<and>
       duplicates_active_history old \<and> demand_actionable (cc_demand old) \<and>
       age_microseconds now (submitted (cc_request old)) < maximum_deferral (cc_demand old) \<and>
       maximum_deferral (cc_demand old) \<le> 1000000 \<and>
       (\<forall>x \<in> set cs. copy_eligible x \<longrightarrow> transfer_bytes (cc_demand x) \<noteq> None) \<and>
       alternative alt \<and> (\<forall>x \<in> set cs. alternative x \<longrightarrow> \<not> copy_precedes x alt) \<and>
       select_copy_aware_ready_request cs now = Some (queue_index (cc_request alt))))"
  (is "?fair \<and> (?same \<or> ?deferred)")
proof
  show ?fair
  proof (cases "fold fair_step rs None")
    case None
    then have "\<forall>r \<in> set rs. \<not> request_eligible r"
      unfolding fair_step_select request_order.select_None .
    then show ?thesis
      using None by (simp add: select_fair_ready_request_def)
  next
    case (Some r)
    then have "request_eligible r \<and> (\<forall>x \<in> set rs. request_eligible x \<longrightarrow> \<not> request_precedes x r) \<and>
        ahead request_eligible request_precedes rs r"
      unfolding fair_step_select by (rule request_order.select_Some)
    then show ?thesis
      using Some by (auto simp: select_fair_ready_request_def ahead_def)
  qed
next
  let ?old = "fold (select_step copy_eligible copy_precedes) cs None"
  let ?alt = "fold (select_step alternative copy_precedes) cs None"
  have fair: "select_fair_ready_request (map cc_request cs) =
      map_option (queue_index \<circ> cc_request) ?old"
    using fair_of_copy [of cs None] by (simp add: select_fair_ready_request_def option.map_comp)
  show "?same \<or> ?deferred"
  proof (cases "select_copy_aware_ready_request cs now = select_fair_ready_request (map cc_request cs)")
    case False
    then obtain old alt where old: "?old = Some old" and alt: "?alt = Some alt"
      and *: "duplicates_active_history old" "demand_actionable (cc_demand old)"
      "age_microseconds now (submitted (cc_request old)) < maximum_deferral (cc_demand old)"
      "\<forall>x \<in> set cs. copy_eligible x \<longrightarrow> transfer_bytes (cc_demand x) \<noteq> None"
      "select_copy_aware_ready_request cs now = Some (queue_index (cc_request alt))"
      unfolding fair by (auto simp: select_copy_aware_ready_request_def copy_fold
          split: option.splits if_splits)
    have "maximum_deferral (cc_demand old) \<le> 1000000"
      using *(2) by (auto simp: demand_actionable_def demand_valid_def maximum_fairness_deferral_def
          split: option.splits if_splits)
    moreover have "old \<in> set cs"
      using copy_order.select_Some [OF old] by (elim conjE) (rule ahead_in_set)
    moreover have "alt \<in> set cs"
      using copy_order.select_Some [OF alt] by (elim conjE) (rule ahead_in_set)
    ultimately show ?thesis
      using copy_order.select_Some [OF old] copy_order.select_Some [OF alt] * by blast
  qed simp
qed

definition sample_candidate :: "nat \<Rightarrow> int \<Rightarrow> bool \<Rightarrow> copy_candidate" where
  "sample_candidate k t dup = \<lparr>cc_request = \<lparr>queue_index = k, submitted = t, physically_eligible = True,
     rc_cancelled = False\<rparr>, cc_demand = \<lparr>history_owner = Owned 1, transfer_bytes = Some 8,
     maximum_deferral = 500\<rparr>, duplicates_active_history = dup\<rparr>"

theorem copy_aware_selection_fair_witness:
  "select_copy_aware_ready_request [sample_candidate 0 0 True, sample_candidate 1 1000 False] 400000 =
     Some 1 \<and>
   select_copy_aware_ready_request [sample_candidate 0 0 True, sample_candidate 1 1000 False] 600000 =
     Some 0 \<and>
   (\<exists>old \<in> set [sample_candidate 0 0 True, sample_candidate 1 1000 False].
      demand_actionable (cc_demand old) \<and>
      age_microseconds 400000 (submitted (cc_request old)) < maximum_deferral (cc_demand old))"
proof -
  let ?cs = "[sample_candidate 0 0 True, sample_candidate 1 1000 False]"
  have "select_copy_aware_ready_request ?cs 400000 = Some 1"
    "select_copy_aware_ready_request ?cs 600000 = Some 0"
    "select_fair_ready_request (map cc_request ?cs) = Some 0"
    by code_simp+
  then show ?thesis
    using copy_aware_selection_fair [of "map cc_request ?cs" ?cs 400000] by auto
qed

end
