(* ===== verification/Ready_Authority.thy ===== *)
theory Ready_Authority
  imports Ready_Selection
begin

text \<open>
  Model of the second part of \<open>src/exl3/ready_work_descriptor.h\<close>: the bounded decision trace, the
  authority that issues and consumes snapshot tickets, and the immutable work descriptor.

  A \<open>Ticket\<close> is moved and never copied in the source; \<open>consume\<close> clears its nonce, so the model returns
  the changed ticket. The theorems hold for arbitrary ticket values.

  The theorems: the trace holds exactly the last 64 decisions in order; a grant is only given for the
  newest ticket of a lane, while no revision happened since the ticket was issued, with unchanged work
  facts, and at most once.
\<close>

section \<open>Decision trace\<close>

datatype decision_reason =
    OldestFeasible | ExactLocality | CopyNonduplicate | UnknownCopyFallback | CopyFairnessOverride

record decision_record =
  authority_revision :: u64
  dr_generation :: u64
  dr_fingerprint :: u64
  queue_size :: u32
  eligible :: u32
  eligible_deferred :: u32
  cancelled_rejected :: u32
  physical_rejected :: u32
  identity_rejected :: u32
  affinity_deferred :: u32
  dr_lane :: u8
  affinity_enabled :: bool
  locality_costs_complete :: bool
  dr_reason :: decision_reason

definition default_record :: decision_record where
  "default_record = \<lparr>authority_revision = 0, dr_generation = 0, dr_fingerprint = 0, queue_size = 0,
     eligible = 0, eligible_deferred = 0, cancelled_rejected = 0, physical_rejected = 0,
     identity_rejected = 0, affinity_deferred = 0, dr_lane = 0, affinity_enabled = False,
     locality_costs_complete = False, dr_reason = OldestFeasible\<rparr>"

text \<open>The sum is taken in 64 bits: five 32-bit counters cannot wrap it.\<close>

definition count_conserved :: "decision_record \<Rightarrow> bool" where
  "count_conserved r \<longleftrightarrow> eligible r \<noteq> 0 \<and> eligible_deferred r = eligible r - 1 \<and>
     (ucast (eligible r) :: u64) + ucast (cancelled_rejected r) + ucast (physical_rejected r) +
       ucast (identity_rejected r) + ucast (affinity_deferred r) = ucast (queue_size r)"

definition trace_capacity :: nat where
  "trace_capacity = 64"

record decision_trace =
  tr_records :: "decision_record list"
  tr_next :: nat
  tr_count :: nat
  tr_total :: u64

record trace_snapshot =
  ts_records :: "decision_record list"
  ts_count :: nat
  ts_total :: u64

definition trace_init :: decision_trace where
  "trace_init = \<lparr>tr_records = replicate trace_capacity default_record, tr_next = 0, tr_count = 0,
     tr_total = 0\<rparr>"

definition trace_append :: "decision_record \<Rightarrow> decision_trace \<Rightarrow> decision_trace" where
  "trace_append r t = \<lparr>tr_records = (tr_records t)[tr_next t := r],
     tr_next = (tr_next t + 1) mod trace_capacity,
     tr_count = (if tr_count t < trace_capacity then tr_count t + 1 else tr_count t),
     tr_total = (if tr_total t \<noteq> UINT64_MAX then tr_total t + 1 else tr_total t)\<rparr>"

definition trace_snapshot_of :: "decision_trace \<Rightarrow> trace_snapshot" where
  "trace_snapshot_of t =
     (let start = (if tr_count t = trace_capacity then tr_next t else 0) in
      \<lparr>ts_records = fold (\<lambda>i rs. rs[i := tr_records t ! ((start + i) mod trace_capacity)])
         [0..<tr_count t] (replicate trace_capacity default_record),
       ts_count = tr_count t, ts_total = tr_total t\<rparr>)"

definition trace_reset :: "decision_trace \<Rightarrow> decision_trace" where
  "trace_reset t = t\<lparr>tr_records := replicate trace_capacity default_record, tr_next := 0,
     tr_count := 0, tr_total := 0\<rparr>"

section \<open>Snapshot authority\<close>

definition maximum_lanes :: nat where
  "maximum_lanes = 8"

record work_ticket =
  tk_observation :: work_observation
  tk_assessment :: work_assessment
  tk_revision :: u64
  tk_nonce :: u64
  tk_lane :: nat

record work_grant =
  gr_observation :: work_observation
  gr_revision :: u64
  gr_nonce :: u64
  gr_lane :: nat

record authority =
  au_revision :: u64
  au_next_nonce :: u64
  au_issued :: "u64 list"
  au_exhausted :: bool

definition authority_init :: authority where
  "authority_init = \<lparr>au_revision = 1, au_next_nonce = 1, au_issued = replicate maximum_lanes 0,
     au_exhausted = False\<rparr>"

definition revise :: "authority \<Rightarrow> authority" where
  "revise a = (if au_revision a = UINT64_MAX then a\<lparr>au_exhausted := True\<rparr>
     else a\<lparr>au_revision := au_revision a + 1\<rparr>)"

definition issue_snapshot ::
    "work_observation \<Rightarrow> work_state \<Rightarrow> nat \<Rightarrow> authority \<Rightarrow> exn + (work_ticket \<times> authority)" where
  "issue_snapshot ob st lane a =
     (if au_exhausted a \<or> au_next_nonce a = UINT64_MAX then Inl Overflow_error
      else if maximum_lanes \<le> lane then Inl Invalid_argument
      else Inr (\<lparr>tk_observation = ob, tk_assessment = assess_ready_work (ob_generation ob) st,
                 tk_revision = au_revision a, tk_nonce = au_next_nonce a, tk_lane = lane\<rparr>,
             a\<lparr>au_next_nonce := au_next_nonce a + 1,
               au_issued := (au_issued a)[lane := au_next_nonce a]\<rparr>))"

definition facts_match :: "work_observation \<Rightarrow> work_observation \<Rightarrow> bool" where
  "facts_match ob current \<longleftrightarrow>
     ob_generation ob = ob_generation current \<and> ob_fingerprint ob = ob_fingerprint current \<and>
     ob_input_tokens ob = ob_input_tokens current \<and> ob_submitted ob = ob_submitted current \<and>
     ob_resources ob = ob_resources current \<and>
     compatible_with (ob_signature ob) (ob_signature current) \<and>
     same_demand (ob_copy_demand ob) (ob_copy_demand current)"

definition consume ::
    "work_ticket \<Rightarrow> work_observation \<Rightarrow> work_state \<Rightarrow> authority \<Rightarrow>
     work_grant option \<times> work_ticket \<times> authority" where
  "consume t current st a =
     (if tk_nonce t = 0 \<or> maximum_lanes \<le> tk_lane t \<or> au_issued a ! tk_lane t \<noteq> tk_nonce t
      then (None, t, a)
      else let a' = a\<lparr>au_issued := (au_issued a)[tk_lane t := 0]\<rparr> in
        if au_exhausted a' \<or> tk_revision t \<noteq> au_revision a' \<or>
           \<not> physically_executable (tk_assessment t) \<or>
           \<not> physically_executable (observation_assess current st) \<or>
           \<not> facts_match (tk_observation t) current
        then (None, t\<lparr>tk_nonce := 0\<rparr>, a')
        else (Some \<lparr>gr_observation = tk_observation t, gr_revision = tk_revision t,
                gr_nonce = tk_nonce t, gr_lane = tk_lane t\<rparr>, t\<lparr>tk_nonce := 0\<rparr>, a'))"

datatype authority_call =
    ARevise
  | ASnapshot work_observation work_state nat
  | AConsume work_ticket work_observation work_state

fun authority_step :: "authority_call \<Rightarrow> authority \<Rightarrow> authority" where
  "authority_step ARevise a = revise a"
| "authority_step (ASnapshot ob st lane) a = after a (map_sum id snd (issue_snapshot ob st lane a))"
| "authority_step (AConsume t ob st) a = snd (snd (consume t ob st a))"

section \<open>Work descriptor\<close>

record work_descriptor =
  wd_generation :: u64
  wd_submitted :: int
  wd_input_tokens :: "int list"
  wd_fingerprint :: u64
  wd_resources :: work_resources
  wd_signature :: execution_signature
  wd_copy_demand :: copy_demand

definition make_descriptor :: "work_descriptor \<Rightarrow> exn + work_descriptor" where
  "make_descriptor d =
     (if wd_generation d = 0 \<or> wd_fingerprint d = 0 \<or>
         logical_host_bytes (wd_resources d) = 0 \<or> physical_lane_slots (wd_resources d) \<noteq> 1 \<or>
         \<not> non_null (model_owner (wd_signature d)) \<or> sig_device (wd_signature d) < 0 \<or>
         \<not> demand_valid (wd_copy_demand d)
      then Inl Invalid_argument else Inr d)"

definition descriptor_age :: "work_descriptor \<Rightarrow> int \<Rightarrow> int" where
  "descriptor_age d now =
     (if now \<le> wd_submitted d then 0 else (now - wd_submitted d) div 1000)"

definition descriptor_assess :: "work_descriptor \<Rightarrow> work_state \<Rightarrow> work_assessment" where
  "descriptor_assess d st = assess_ready_work (wd_generation d) st"

definition descriptor_observation :: "work_descriptor \<Rightarrow> work_observation" where
  "descriptor_observation d = \<lparr>ob_generation = wd_generation d, ob_fingerprint = wd_fingerprint d,
     ob_input_tokens = length (wd_input_tokens d), ob_submitted = wd_submitted d,
     ob_resources = wd_resources d, ob_signature = wd_signature d,
     ob_copy_demand = wd_copy_demand d\<rparr>"

section \<open>The trace holds the last decisions\<close>

definition trace_rep :: "decision_trace \<Rightarrow> decision_record list \<Rightarrow> bool" where
  "trace_rep t xs \<longleftrightarrow> ring_rep trace_capacity (tr_records t) xs \<and>
     tr_next t = length xs mod trace_capacity \<and> tr_count t = min trace_capacity (length xs) \<and>
     unat (tr_total t) = min (length xs) (2 ^ 64 - 1)"

lemma trace_init_rep: "trace_rep trace_init []"
  by (simp add: trace_rep_def trace_init_def trace_capacity_def)

lemma trace_append_rep:
  assumes "trace_rep t xs"
  shows "trace_rep (trace_append r t) (xs @ [r])"
proof -
  have "unat (tr_total (trace_append r t)) = min (Suc (length xs)) (2 ^ 64 - 1)"
  proof (cases "tr_total t = UINT64_MAX")
    case True
    then have "unat (tr_total t) = 2 ^ 64 - 1"
      by (simp add: UINT64_MAX_unat)
    then show ?thesis
      using assms True by (simp add: trace_append_def trace_rep_def min_def split: if_splits)
  next
    case False
    then have "unat (tr_total t) < 2 ^ 64 - 1"
      using UINT64_MAX_unat word_order.extremum [of "tr_total t"]
      by (metis False order_le_imp_less_or_eq word_less_nat_alt)
    then show ?thesis
      using assms unat_inc [OF False] False
      by (simp add: trace_append_def trace_rep_def min_def split: if_splits)
  qed
  then show ?thesis
    using assms ring_append [of trace_capacity "tr_records t" xs r]
    unfolding trace_rep_def by (simp add: trace_append_def trace_capacity_def mod_Suc_eq)
qed

lemma trace_rep_snapshot:
  assumes "trace_rep t xs"
  shows "take (tr_count t) (ts_records (trace_snapshot_of t)) = drop (length xs - trace_capacity) xs"
proof (rule nth_equalityI)
  define start where "start = (if tr_count t = trace_capacity then tr_next t else 0)"
  have cap: "0 < trace_capacity"
    by (simp add: trace_capacity_def)
  define f where "f = (\<lambda>i (_ :: decision_record). tr_records t ! ((start + i) mod trace_capacity))"
  have recs: "ts_records (trace_snapshot_of t) = fold (\<lambda>i rs. rs[i := f i (rs ! i)])
      [0..<tr_count t] (replicate trace_capacity default_record)"
    by (simp add: trace_snapshot_of_def Let_def start_def f_def)
  have len: "length (ts_records (trace_snapshot_of t)) = trace_capacity"
    unfolding recs fold_update_length by simp
  then show "length (take (tr_count t) (ts_records (trace_snapshot_of t))) =
      length (drop (length xs - trace_capacity) xs)"
    using assms by (auto simp: trace_rep_def)
  fix i assume "i < length (take (tr_count t) (ts_records (trace_snapshot_of t)))"
  then have i: "i < tr_count t" "i < trace_capacity"
    using len by auto
  define k where "k = length xs - trace_capacity + i"
  have k: "k < length xs" "length xs \<le> k + trace_capacity"
    using i assms by (auto simp: k_def trace_rep_def)
  have "(start + i) mod trace_capacity = k mod trace_capacity"
  proof (cases "trace_capacity \<le> length xs")
    case True
    then have "length xs + i = k + trace_capacity"
      by (simp add: k_def)
    then have "(length xs mod trace_capacity + i) mod trace_capacity = k mod trace_capacity"
      by (metis mod_add_left_eq mod_add_self2)
    then show ?thesis
      using assms True by (simp add: start_def trace_rep_def)
  next
    case False
    then show ?thesis
      using assms by (simp add: start_def trace_rep_def k_def)
  qed
  then have "tr_records t ! ((start + i) mod trace_capacity) = xs ! k"
    using assms k by (simp add: trace_rep_def ring_rep_def)
  moreover have "ts_records (trace_snapshot_of t) ! i = tr_records t ! ((start + i) mod trace_capacity)"
    using i fold_update_nth [of "[0..<tr_count t]" i "replicate trace_capacity default_record" f]
    unfolding recs by (simp add: f_def)
  ultimately show "take (tr_count t) (ts_records (trace_snapshot_of t)) ! i =
      drop (length xs - trace_capacity) xs ! i"
    using i by (simp add: k_def)
qed

text \<open>
  The decision trace is the bounded log it promises to be: after any appends \<open>xs\<close> to a new or
  reset trace, the snapshot holds the last 64 of them, oldest first, with their number, and the total
  number of appends, saturated at the 64-bit maximum.
\<close>

theorem trace_keeps_last_decisions:
  "let t = fold trace_append xs (trace_reset t0); s = trace_snapshot_of t in
     take (ts_count s) (ts_records s) = drop (length xs - 64) xs \<and>
     ts_count s = min 64 (length xs) \<and> unat (ts_total s) = min (length xs) (2 ^ 64 - 1)"
proof -
  have "trace_rep (fold trace_append xs t) (ys @ xs)" if "trace_rep t ys" for t ys
    using that
  proof (induction xs arbitrary: t ys)
    case (Cons x xs)
    then show ?case
      using Cons.IH [OF trace_append_rep [OF Cons.prems, of x]] by simp
  qed simp
  moreover have "trace_rep (trace_reset t0) []"
    by (simp add: trace_reset_def trace_rep_def trace_capacity_def)
  ultimately have rep: "trace_rep (fold trace_append xs (trace_reset t0)) xs"
    by fastforce
  then show ?thesis
    using trace_rep_snapshot [OF rep]
    by (simp add: Let_def trace_snapshot_of_def trace_rep_def trace_capacity_def)
qed

section \<open>Grants are exclusive, current and given once\<close>

definition authority_inv :: "authority \<Rightarrow> bool" where
  "authority_inv a \<longleftrightarrow> length (au_issued a) = maximum_lanes \<and> 0 < au_next_nonce a \<and>
     (\<forall>k < maximum_lanes. au_issued a ! k < au_next_nonce a) \<and>
     (au_exhausted a \<longrightarrow> au_revision a = UINT64_MAX)"

lemma authority_init_inv: "authority_inv authority_init"
  by (simp add: authority_inv_def authority_init_def)

lemmas authority_defs = revise_def issue_snapshot_def consume_def Let_def

lemma authority_step_inv:
  assumes "authority_inv a"
  shows "authority_inv (authority_step c a)"
proof (cases c)
  case (ASnapshot ob st lane)
  have "x < au_next_nonce a + 1" if "au_next_nonce a \<noteq> UINT64_MAX" "x < au_next_nonce a" for x
    using word_inc_neq(2) [OF that(1)] that(2) by (rule order.strict_trans2 [OF _ order.strict_implies_order, rotated])
  moreover have "0 < au_next_nonce a + 1" if "au_next_nonce a \<noteq> UINT64_MAX"
    using word_inc_neq(1) [OF that] by (simp add: word_neq_0_conv)
  ultimately show ?thesis
    using assms word_inc_neq(2) [of "au_next_nonce a"]
    by (auto simp: ASnapshot authority_inv_def issue_snapshot_def nth_list_update)
next
  case (AConsume t ob st)
  then show ?thesis
    using assms by (auto simp: authority_inv_def consume_def Let_def nth_list_update)
qed (use assms in \<open>auto simp: authority_inv_def revise_def\<close>)

text \<open>A nonce that was issued on a lane and is not its newest live one is dead for good.\<close>

definition nonce_dead :: "nat \<Rightarrow> u64 \<Rightarrow> authority \<Rightarrow> bool" where
  "nonce_dead lane n a \<longleftrightarrow> lane < maximum_lanes \<and> n \<noteq> 0 \<and> n < au_next_nonce a \<and>
     au_issued a ! lane \<noteq> n"

lemma next_nonce_step:
  "authority_inv a \<Longrightarrow> n < au_next_nonce a \<Longrightarrow> n < au_next_nonce (authority_step c a)"
proof (cases c)
  case (ASnapshot ob st lane)
  assume "n < au_next_nonce a"
  moreover have "n < au_next_nonce a + 1" if "au_next_nonce a \<noteq> UINT64_MAX"
    using word_inc_neq(2) [OF that] \<open>n < au_next_nonce a\<close> by (rule order.strict_trans [rotated])
  ultimately show ?thesis
    by (auto simp: ASnapshot issue_snapshot_def)
qed (auto simp: revise_def consume_def Let_def)

lemma nonce_dead_step:
  assumes "authority_inv a" "nonce_dead lane n a"
  shows "nonce_dead lane n (authority_step c a)"
proof -
  have "au_issued (authority_step c a) ! lane \<noteq> n"
  proof (cases c)
    case (ASnapshot ob st k)
    then show ?thesis
      using assms by (auto simp: issue_snapshot_def nonce_dead_def authority_inv_def nth_list_update)
  next
    case (AConsume t ob st)
    then show ?thesis
      using assms by (auto simp: consume_def Let_def nonce_dead_def authority_inv_def nth_list_update)
  qed (use assms in \<open>auto simp: revise_def nonce_dead_def\<close>)
  then show ?thesis
    using assms next_nonce_step [OF assms(1)] by (simp add: nonce_dead_def)
qed

interpretation authority_nonces: sticky_system authority_step authority_inv "nonce_dead lane n" for lane n
  by unfold_locales (simp_all add: authority_step_inv nonce_dead_step)

definition revision_gen :: "authority \<Rightarrow> nat" where
  "revision_gen a = unat (au_revision a) + (if au_exhausted a then 1 else 0)"

definition revision_current :: "work_ticket \<Rightarrow> authority \<Rightarrow> bool" where
  "revision_current t a \<longleftrightarrow> \<not> au_exhausted a \<and> tk_revision t = au_revision a"

lemma revise_gen:
  "authority_inv a \<Longrightarrow> \<not> au_exhausted a \<Longrightarrow> revision_gen (revise a) = Suc (revision_gen a)"
  by (simp add: revision_gen_def revise_def unat_inc)

interpretation authority_revisions: credential_system authority_step authority_inv
  revision_gen revision_current "\<lambda>t. unat (tk_revision t)"
proof unfold_locales
  fix a c assume inv: "authority_inv a"
  show "revision_gen a \<le> revision_gen (authority_step c a)"
  proof (cases c)
    case ARevise
    then show ?thesis
      using revise_gen [OF inv] inv
      by (cases "au_exhausted a") (auto simp: revise_def authority_inv_def revision_gen_def)
  next
    case (ASnapshot ob st k)
    then show ?thesis
      by (simp add: issue_snapshot_def revision_gen_def)
  next
    case (AConsume t ob st)
    then show ?thesis
      by (simp add: consume_def Let_def revision_gen_def)
  qed
next
  fix a t assume "revision_current t a"
  then show "unat (tk_revision t) = revision_gen a"
    by (simp add: revision_current_def revision_gen_def)
qed

lemma revised_stale:
  assumes "authority_inv a" "tk_revision t = au_revision a" "ARevise \<in> set cs"
  shows "\<not> revision_current t (fold authority_step cs a)"
proof -
  obtain bs ds where cs: "cs = bs @ ARevise # ds"
    using split_list [OF assms(3)] by blast
  define b where "b = fold authority_step bs a"
  have b: "authority_inv b" "revision_gen a \<le> revision_gen b"
    unfolding b_def using assms(1)
    by (simp_all add: authority_nonces.run_inv authority_revisions.run_gen)
  have "unat (tk_revision t) < revision_gen (revise b)"
  proof (cases "au_exhausted b")
    case True
    then show ?thesis
      using b(1) unsigned_less [of "tk_revision t"] UINT64_MAX_unat
      by (simp add: revise_def revision_gen_def authority_inv_def)
  next
    case False
    then show ?thesis
      using b assms(2) revise_gen [OF b(1)] by (simp add: revision_gen_def split: if_splits)
  qed
  then have "\<not> revision_current t (fold authority_step ds (revise b))"
    using authority_step_inv [OF b(1), of ARevise]
    by (intro authority_revisions.stale_forever) simp_all
  then show ?thesis
    by (simp add: cs b_def)
qed

text \<open>The tickets a run issues on a lane.\<close>

fun lane_ticket :: "nat \<Rightarrow> authority_call \<Rightarrow> authority \<Rightarrow> work_ticket list" where
  "lane_ticket lane (ASnapshot ob st k) a =
     (case issue_snapshot ob st k a of
        Inl _ \<Rightarrow> [] | Inr (t, _) \<Rightarrow> if k = lane then [t] else [])"
| "lane_ticket lane _ a = []"

fun lane_tickets :: "nat \<Rightarrow> authority_call list \<Rightarrow> authority \<Rightarrow> work_ticket list" where
  "lane_tickets lane [] a = []"
| "lane_tickets lane (c # cs) a = lane_ticket lane c a @ lane_tickets lane cs (authority_step c a)"

lemma newer_ticket_kills:
  assumes "authority_inv a" "lane < maximum_lanes" "n \<noteq> 0" "n < au_next_nonce a"
    and "lane_tickets lane cs a \<noteq> []"
  shows "nonce_dead lane n (fold authority_step cs a)"
  using assms
proof (induction cs arbitrary: a)
  case (Cons c cs)
  show ?case
  proof (cases "lane_ticket lane c a = []")
    case True
    then show ?thesis
      using Cons authority_step_inv next_nonce_step by simp
  next
    case False
    then obtain ob st where c: "c = ASnapshot ob st lane" and ok: "ok (issue_snapshot ob st lane a)"
      by (cases "(lane, c, a)" rule: lane_ticket.cases) (auto split: sum.splits if_splits)
    then have "nonce_dead lane n (authority_step c a)"
      using Cons.prems next_nonce_step [OF Cons.prems(1,4), of c]
      by (auto simp: nonce_dead_def issue_snapshot_def authority_inv_def split: if_splits)
    then show ?thesis
      using authority_nonces.run_terminal authority_step_inv [OF Cons.prems(1), of c] by simp
  qed
qed simp

text \<open>
  C18. A grant is exclusive, current and given once. Let \<open>t\<close> be a ticket issued for \<open>lane\<close> in a reachable
  authority, and let \<open>cs\<close> be the calls up to a consumption that grants it. Then no revision and no
  newer ticket of the lane happened in between, the work was executable both when the ticket was
  issued and when it was consumed, the current facts match the ticket's, the grant carries the ticket's
  observation, and no later call \<open>ds\<close> can make the authority grant the ticket again.
\<close>

theorem grant_exclusive_current_once:
  assumes "a = fold authority_step bs authority_init"
    and "issue_snapshot ob st lane a = Inr (t, a1)"
    and "consume t current st' (fold authority_step cs a1) = (Some g, t', a2)"
  shows "ARevise \<notin> set cs \<and> lane_tickets lane cs a1 = [] \<and>
    physically_executable (assess_ready_work (ob_generation ob) st) \<and>
    physically_executable (observation_assess current st') \<and> facts_match ob current \<and>
    gr_observation g = ob \<and> tk_nonce t' = 0 \<and>
    fst (consume t current' st'' (fold authority_step ds a2)) = None"
proof -
  have inv: "authority_inv a"
    unfolding assms(1) by (rule authority_nonces.run_inv [OF authority_init_inv])
  have a1: "a1 = authority_step (ASnapshot ob st lane) a"
    using assms(2) by simp
  have inv1: "authority_inv a1"
    unfolding a1 using inv by (rule authority_step_inv)
  have t: "tk_lane t = lane" "lane < maximum_lanes" "tk_nonce t = au_next_nonce a"
    "tk_revision t = au_revision a1" "tk_observation t = ob"
    "tk_assessment t = assess_ready_work (ob_generation ob) st"
    "tk_nonce t < au_next_nonce a1" "tk_nonce t \<noteq> 0"
    using assms(2) inv word_inc_neq(2) [of "au_next_nonce a"]
    by (auto simp: issue_snapshot_def authority_inv_def split: if_splits)
  define b where "b = fold authority_step cs a1"
  have invb: "authority_inv b"
    unfolding b_def by (rule authority_nonces.run_inv [OF inv1])
  have c: "au_issued b ! lane = tk_nonce t" "revision_current t b"
    "physically_executable (tk_assessment t)" "physically_executable (observation_assess current st')"
    "facts_match (tk_observation t) current" "gr_observation g = tk_observation t" "tk_nonce t' = 0"
    "a2 = b\<lparr>au_issued := (au_issued b)[lane := 0]\<rparr>"
    using assms(3) t(1)
    by (auto simp: consume_def Let_def b_def [symmetric] revision_current_def split: if_splits)
  have "ARevise \<notin> set cs"
    using revised_stale [OF inv1 t(4)] c(2) by (auto simp: b_def)
  moreover have "lane_tickets lane cs a1 = []"
    using newer_ticket_kills [OF inv1 t(2,8,7)] c(1) by (auto simp: b_def nonce_dead_def)
  moreover have "fst (consume t current' st'' (fold authority_step ds a2)) = None"
  proof -
    have "tk_nonce t < au_next_nonce b"
      using invb t(2) c(1) by (auto simp: authority_inv_def)
    then have "nonce_dead lane (tk_nonce t) a2" "authority_inv a2"
      using t(2,8) invb c(8) by (auto simp: nonce_dead_def authority_inv_def nth_list_update)
    then have "nonce_dead lane (tk_nonce t) (fold authority_step ds a2)"
      by (intro authority_nonces.run_terminal)
    then show ?thesis
      using t(1) by (simp add: consume_def nonce_dead_def)
  qed
  ultimately show ?thesis
    using c t by simp
qed

definition sample_observation :: work_observation where
  "sample_observation = \<lparr>ob_generation = 3, ob_fingerprint = 9, ob_input_tokens = 2, ob_submitted = 0,
     ob_resources = \<lparr>logical_host_bytes = 8, request_local_device_bytes = 0, physical_lane_slots = 1,
       requires_preallocated_context = True\<rparr>,
     ob_signature = \<lparr>model_owner = Owned 1, sig_device = 0, sig_stage = TargetProjection,
       sig_arithmetic = OrdinaryFp16B8GreedyText, sig_modality = Text\<rparr>,
     ob_copy_demand = \<lparr>history_owner = Null, transfer_bytes = None, maximum_deferral = 0\<rparr>\<rparr>"

definition sample_state :: work_state where
  "sample_state = \<lparr>observed_generation = 3, dependency_ready = True, physical_lane_available = True,
     required_resources_available = True, ws_cancelled = False\<rparr>"

definition sample_ticket :: work_ticket where
  "sample_ticket = \<lparr>tk_observation = sample_observation,
     tk_assessment = assess_ready_work 3 sample_state, tk_revision = 2, tk_nonce = 1, tk_lane = 5\<rparr>"

theorem grant_exclusive_current_once_witness:
  "\<exists>a1 g t' a2. issue_snapshot sample_observation sample_state 5 (fold authority_step [ARevise] authority_init) =
      Inr (sample_ticket, a1) \<and>
    consume sample_ticket sample_observation sample_state
      (fold authority_step [ASnapshot sample_observation sample_state 6] a1) = (Some g, t', a2) \<and>
    fst (consume sample_ticket sample_observation sample_state
      (fold authority_step [ASnapshot sample_observation sample_state 5] a2)) = None"
proof -
  define a1 where "a1 = \<lparr>au_revision = 2, au_next_nonce = 2, au_issued = [0, 0, 0, 0, 0, 1, 0, 0],
     au_exhausted = False\<rparr>"
  define a2 where "a2 = \<lparr>au_revision = 2, au_next_nonce = 3, au_issued = [0, 0, 0, 0, 0, 0, 2, 0],
     au_exhausted = False\<rparr>"
  define g where "g = \<lparr>gr_observation = sample_observation, gr_revision = 2, gr_nonce = 1, gr_lane = 5\<rparr>"
  have 1: "issue_snapshot sample_observation sample_state 5 (fold authority_step [ARevise] authority_init) =
      Inr (sample_ticket, a1)"
    unfolding a1_def by code_simp
  have 2: "consume sample_ticket sample_observation sample_state
      (fold authority_step [ASnapshot sample_observation sample_state 6] a1) =
      (Some g, sample_ticket\<lparr>tk_nonce := 0\<rparr>, a2)"
    unfolding a1_def a2_def g_def by code_simp
  show ?thesis
    using grant_exclusive_current_once [OF refl 1 2] 1 2 by blast
qed

end
