(* ===== verification/Resource_Inventory.thy ===== *)
theory Resource_Inventory
  imports Voidinfer_Prelude
begin

text \<open>
  Model of \<open>src/exl3/resource_inventory.h\<close>: declared allocations of the engine's owners, their totals
  per domain, and the accounting of a transition from one inventory to the next.

  Owners are \<open>shared_ptr<const void>\<close>, compared by control block (\<open>owner_before\<close> in both directions);
  a \<open>weak_ptr\<close> is its control block or \<open>None\<close>; which blocks still have a living owner is the argument
  \<open>alive\<close> of the operations that call \<open>lock\<close> or \<open>expired\<close>. A retirement callback is an identity.

  The theorems: requirements and totals never wrap, the indexed \<open>append\<close> behaves as one \<open>add\<close> after
  the other, the transition union charges every physical identity exactly once, and handing a metadata
  charge to a tracking owner neither changes the totals nor charges the transition twice.
\<close>

section \<open>Data\<close>

datatype resource_domain =
    rd_device | rd_cuda_registered_host | rd_host_metadata | rd_graph_count | rd_event_count | rd_count

fun rd_index :: "resource_domain \<Rightarrow> nat" where
  "rd_index rd_device = 0"
| "rd_index rd_cuda_registered_host = 1"
| "rd_index rd_host_metadata = 2"
| "rd_index rd_graph_count = 3"
| "rd_index rd_event_count = 4"
| "rd_index rd_count = 5"

type_synonym totals = "u64 list"

definition zero_totals :: totals where
  "zero_totals = replicate 5 0"

record requirement =
  rq_units :: totals
  rq_configuration :: u64

record resource_allocation =
  ra_owner :: void_ptr
  ra_slot :: u64
  ra_domain :: resource_domain
  ra_units :: u64
  ra_retired_owner :: "nat option"
  ra_lifetime_retire :: "nat option"
  ra_device_lifetime_retire :: "nat option"
  ra_registration_lifetime_retire :: "nat option"
  ra_retired_slot :: u64

type_synonym inventory = "resource_allocation list"

section \<open>Requirements\<close>

definition requirement_add ::
    "resource_domain \<Rightarrow> u64 \<Rightarrow> u64 \<Rightarrow> requirement \<Rightarrow> exn + requirement" where
  "requirement_add d count bytes r =
     (if d = rd_count \<or> count = 0 \<or> bytes = 0 then Inl Invalid_argument
      else let total = rq_units r ! rd_index d in
        if (UINT64_MAX - total) div bytes < count then Inl Overflow_error
        else Inr (r\<lparr>rq_units := (rq_units r)[rd_index d := total + count * bytes]\<rparr>))"

section \<open>Building an inventory\<close>

definition same_block :: "void_ptr \<Rightarrow> void_ptr \<Rightarrow> bool" where
  "same_block p q \<longleftrightarrow> control_of p = control_of q"

definition validate_allocation :: "resource_allocation \<Rightarrow> exn + unit" where
  "validate_allocation v =
     (if \<not> has_owner (ra_owner v) then Inl Invalid_argument
      else if ra_units v = 0 then Inl Invalid_argument
      else if ra_domain v = rd_count then Inl Invalid_argument
      else if ra_lifetime_retire v \<noteq> None \<and> ra_domain v \<noteq> rd_host_metadata
      then Inl Invalid_argument
      else if ra_device_lifetime_retire v \<noteq> None \<and> ra_domain v \<noteq> rd_device
      then Inl Invalid_argument
      else if ra_registration_lifetime_retire v \<noteq> None \<and> ra_domain v \<noteq> rd_cuda_registered_host
      then Inl Invalid_argument
      else Inr ())"

definition require_same :: "resource_allocation \<Rightarrow> resource_allocation \<Rightarrow> bool" where
  "require_same prior v \<longleftrightarrow>
     ra_domain prior = ra_domain v \<and> ra_units prior = ra_units v \<and>
     ra_lifetime_retire prior = ra_lifetime_retire v \<and>
     ra_device_lifetime_retire prior = ra_device_lifetime_retire v \<and>
     ra_registration_lifetime_retire prior = ra_registration_lifetime_retire v \<and>
     ra_retired_slot prior = ra_retired_slot v \<and> ra_retired_owner prior = ra_retired_owner v"

definition inventory_add :: "resource_allocation \<Rightarrow> inventory \<Rightarrow> exn + inventory" where
  "inventory_add v iv =
     (case validate_allocation v of
        Inl e \<Rightarrow> Inl e
      | Inr _ \<Rightarrow>
          (case find_index (\<lambda>p. same_block (ra_owner p) (ra_owner v) \<and> ra_slot p = ra_slot v) iv of
             Some i \<Rightarrow> if require_same (iv ! i) v then Inr iv else Inl Invalid_argument
           | None \<Rightarrow> Inr (iv @ [v])))"

type_synonym slot_key = "nat option \<times> u64"

definition slot_key_of :: "resource_allocation \<Rightarrow> slot_key" where
  "slot_key_of v = (control_of (ra_owner v), ra_slot v)"

text \<open>\<open>try_emplace\<close> of the ordered index: an existing entry is kept.\<close>

definition try_emplace :: "'k \<Rightarrow> 'v \<Rightarrow> ('k \<rightharpoonup> 'v) \<Rightarrow> ('k \<rightharpoonup> 'v)" where
  "try_emplace k v m = (if m k = None then m(k \<mapsto> v) else m)"

definition slot_index :: "inventory \<Rightarrow> (slot_key \<rightharpoonup> nat)" where
  "slot_index iv = fold (\<lambda>i m. try_emplace (slot_key_of (iv ! i)) i m) [0..<length iv] Map.empty"

text \<open>
  The loop of \<open>append\<close>. A value that is refused leaves the values before it in place, so the inventory
  is returned with the outcome.
\<close>

fun append_loop ::
    "resource_allocation list \<Rightarrow> (slot_key \<rightharpoonup> nat) \<Rightarrow> inventory \<Rightarrow> (exn + unit) \<times> inventory" where
  "append_loop [] index iv = (Inr (), iv)"
| "append_loop (v # vs) index iv =
     (case validate_allocation v of
        Inl e \<Rightarrow> (Inl e, iv)
      | Inr _ \<Rightarrow>
          (case index (slot_key_of v) of
             Some i \<Rightarrow> if require_same (iv ! i) v then append_loop vs index iv
                      else (Inl Invalid_argument, iv)
           | None \<Rightarrow> append_loop vs (index(slot_key_of v \<mapsto> length iv)) (iv @ [v])))"

definition inventory_append :: "inventory \<Rightarrow> inventory \<Rightarrow> (exn + unit) \<times> inventory" where
  "inventory_append other iv =
     (if other = [] then (Inr (), iv) else append_loop other (slot_index iv) iv)"

section \<open>Removal and transfer\<close>

definition first_lifetime_retirement :: "inventory \<Rightarrow> resource_allocation option" where
  "first_lifetime_retirement iv = List.find (\<lambda>v. ra_lifetime_retire v \<noteq> None \<or>
     ra_device_lifetime_retire v \<noteq> None \<or> ra_registration_lifetime_retire v \<noteq> None) iv"

fun remove_loop ::
    "resource_allocation \<Rightarrow> inventory \<Rightarrow> inventory \<Rightarrow> bool \<Rightarrow> exn + (inventory \<times> bool)" where
  "remove_loop x [] result found = Inr (result, found)"
| "remove_loop x (v # vs) result found =
     (if same_block (ra_owner v) (ra_owner x) \<and> ra_slot v = ra_slot x
      then if ra_domain v \<noteq> ra_domain x \<or> ra_units v \<noteq> ra_units x \<or>
              ra_lifetime_retire v \<noteq> ra_lifetime_retire x \<or>
              ra_device_lifetime_retire v \<noteq> ra_device_lifetime_retire x \<or>
              ra_registration_lifetime_retire v \<noteq> ra_registration_lifetime_retire x
           then Inl Invalid_argument
           else remove_loop x vs result True
      else remove_loop x vs (result @ [v]) found)"

definition without_allocation :: "resource_allocation \<Rightarrow> inventory \<Rightarrow> exn + inventory" where
  "without_allocation x iv =
     (if \<not> non_null (ra_owner x) \<or> ra_units x = 0 \<or> ra_domain x = rd_count then Inl Invalid_argument
      else case remove_loop x iv [] False of
        Inl e \<Rightarrow> Inl e
      | Inr (result, found) \<Rightarrow> if \<not> found then Inl Invalid_argument else Inr result)"

fun totals_loop :: "inventory \<Rightarrow> totals \<Rightarrow> exn + totals" where
  "totals_loop [] t = Inr t"
| "totals_loop (v # vs) t =
     (let old = t ! rd_index (ra_domain v) in
      if UINT64_MAX - old < ra_units v then Inl Overflow_error
      else totals_loop vs (t[rd_index (ra_domain v) := old + ra_units v]))"

definition inventory_totals :: "inventory \<Rightarrow> exn + totals" where
  "inventory_totals iv = totals_loop iv zero_totals"

definition transfer_metadata ::
    "resource_allocation \<Rightarrow> resource_allocation \<Rightarrow> inventory \<Rightarrow> exn + inventory" where
  "transfer_metadata x tracking iv =
     (if ra_domain x \<noteq> rd_host_metadata \<or> ra_domain tracking \<noteq> rd_host_metadata \<or>
         ra_units x \<noteq> ra_units tracking \<or> \<not> non_null (ra_owner tracking)
      then Inl Invalid_argument
      else if list_ex (\<lambda>v. same_block (ra_owner v) (ra_owner x) \<and> ra_domain v \<noteq> rd_host_metadata) iv
      then Inl Invalid_argument
      else if list_ex (\<lambda>v. same_block (ra_owner v) (ra_owner x) \<and> ra_slot v = ra_slot x \<and>
                ra_retired_owner v \<noteq> None) iv
      then Inl Invalid_argument
      else case without_allocation x iv of
        Inl e \<Rightarrow> Inl e
      | Inr next_iv \<Rightarrow>
          (case inventory_add (tracking\<lparr>ra_retired_owner := control_of (ra_owner x),
                  ra_retired_slot := ra_slot x\<rparr>) next_iv of
             Inl e \<Rightarrow> Inl e
           | Inr result \<Rightarrow>
               (case (inventory_totals result, inventory_totals iv) of
                  (Inl e, _) \<Rightarrow> Inl e
                | (_, Inl e) \<Rightarrow> Inl e
                | (Inr t, Inr t') \<Rightarrow> if t \<noteq> t' then Inl Invalid_argument else Inr result)))"

definition metadata_owner_expired ::
    "(nat \<Rightarrow> bool) \<Rightarrow> resource_allocation \<Rightarrow> nat option \<Rightarrow> inventory \<Rightarrow> exn + bool" where
  "metadata_owner_expired alive tracking retired iv =
     (case List.find (\<lambda>v. same_block (ra_owner v) (ra_owner tracking) \<and> ra_slot v = ra_slot tracking) iv of
        None \<Rightarrow> Inl Invalid_argument
      | Some v \<Rightarrow>
          if ra_domain v \<noteq> rd_host_metadata \<or> ra_domain tracking \<noteq> ra_domain v \<or>
             ra_units tracking \<noteq> ra_units v \<or> ra_retired_owner v = None \<or>
             ra_retired_owner v \<noteq> retired
          then Inl Invalid_argument
          else Inr (\<not> alive (the (ra_retired_owner v))))"

section \<open>Attribution\<close>

datatype attribution_reason = live_owner | retired_owner_pending

record attribution =
  at_owner :: void_ptr
  at_slot :: u64
  at_domain :: resource_domain
  at_units :: u64
  at_reason :: attribution_reason
  at_retired_owner :: "nat option"

definition attribution_snapshot :: "inventory \<Rightarrow> attribution list" where
  "attribution_snapshot iv = map (\<lambda>v. \<lparr>at_owner = ra_owner v, at_slot = ra_slot v,
     at_domain = ra_domain v, at_units = ra_units v,
     at_reason = (if ra_retired_owner v \<noteq> None then retired_owner_pending else live_owner),
     at_retired_owner = ra_retired_owner v\<rparr>) iv"

section \<open>Transition accounting\<close>

type_synonym charges = "slot_key \<rightharpoonup> resource_domain \<times> u64"

text \<open>The physical identity of a declaration: the retired owner while it lives, else the declared one.\<close>

definition physical_key :: "(nat \<Rightarrow> bool) \<Rightarrow> resource_allocation \<Rightarrow> slot_key" where
  "physical_key alive v = (case ra_retired_owner v of
     Some c \<Rightarrow> if alive c then (Some c, ra_retired_slot v) else slot_key_of v
   | None \<Rightarrow> slot_key_of v)"

fun union_loop ::
    "(nat \<Rightarrow> bool) \<Rightarrow> inventory \<Rightarrow> charges \<times> totals \<Rightarrow> exn + (charges \<times> totals)" where
  "union_loop alive [] st = Inr st"
| "union_loop alive (v # vs) st =
     (let k = physical_key alive v in
      case fst st k of
        Some c \<Rightarrow> if fst c \<noteq> ra_domain v \<or> snd c \<noteq> ra_units v then Inl Invalid_argument
                  else union_loop alive vs st
      | None \<Rightarrow>
          let old = snd st ! rd_index (ra_domain v) in
          if UINT64_MAX - old < ra_units v then Inl Overflow_error
          else union_loop alive vs ((fst st)(k \<mapsto> (ra_domain v, ra_units v)),
                 (snd st)[rd_index (ra_domain v) := old + ra_units v]))"

definition then_union ::
    "(nat \<Rightarrow> bool) \<Rightarrow> inventory \<Rightarrow> exn + (charges \<times> totals) \<Rightarrow> exn + (charges \<times> totals)" where
  "then_union alive iv r = (case r of Inl e \<Rightarrow> Inl e | Inr st \<Rightarrow> union_loop alive iv st)"

definition transition_union ::
    "(nat \<Rightarrow> bool) \<Rightarrow> inventory \<Rightarrow> inventory \<Rightarrow> inventory \<Rightarrow> inventory \<Rightarrow> exn + totals" where
  "transition_union alive old next_iv pending quarantined =
     map_sum id snd (then_union alive quarantined (then_union alive pending
       (then_union alive next_iv (union_loop alive old (Map.empty, zero_totals)))))"

definition inventory_peak ::
    "(nat \<Rightarrow> bool) \<Rightarrow> inventory \<Rightarrow> inventory \<Rightarrow> inventory \<Rightarrow> inventory \<Rightarrow> totals \<Rightarrow> exn + totals" where
  "inventory_peak alive old next_iv pending quarantined limits =
     (case transition_union alive old next_iv pending quarantined of
        Inl e \<Rightarrow> Inl e
      | Inr t \<Rightarrow> if list_ex (\<lambda>i. limits ! i < t ! i) [0..<length t] then Inl Runtime_error else Inr t)"

definition unlimited :: totals where
  "unlimited = replicate 5 UINT64_MAX"

definition device_limit :: "u64 \<Rightarrow> u64 \<Rightarrow> u64 \<Rightarrow> u64 \<Rightarrow> exn + u64" where
  "device_limit owned t available reserve =
     (if t = 0 \<or> t < available \<or> t - available < owned \<or> available < reserve
      then Inl Invalid_argument else Inr (owned + (available - reserve)))"

section \<open>No declaration wraps\<close>

lemma rd_index_inj: "rd_index d = rd_index e \<longleftrightarrow> d = e"
  by (cases d; cases e) simp_all

lemma rd_index_bound: "d \<noteq> rd_count \<Longrightarrow> rd_index d < 5"
  by (cases d) simp_all

lemma product_overflow_test:
  fixes t b c :: u64
  assumes "b \<noteq> 0"
  shows "(UINT64_MAX - t) div b < c \<longleftrightarrow> 2 ^ 64 \<le> unat t + unat c * unat b"
proof -
  have le: "t \<le> UINT64_MAX"
    by (simp add: word_order.extremum)
  have t: "unat (UINT64_MAX - t) = 2 ^ 64 - 1 - unat t" "unat t < 2 ^ 64"
    using unat_sub [OF le] UINT64_MAX_unat unsigned_less [of t] by simp_all
  have b: "0 < unat b"
    using assms by (simp add: unat_gt_0)
  have "(UINT64_MAX - t) div b < c \<longleftrightarrow> (2 ^ 64 - 1 - unat t) div unat b < unat c"
    by (simp add: word_less_nat_alt unat_div t)
  also have "\<dots> \<longleftrightarrow> 2 ^ 64 - 1 - unat t < unat c * unat b"
    using b by (simp add: div_less_iff_less_mult)
  also have "\<dots> \<longleftrightarrow> 2 ^ 64 \<le> unat t + unat c * unat b"
    using t(2) by linarith
  finally show ?thesis .
qed

lemma requirement_add_exact:
  assumes "length (rq_units r) = 5" "d \<noteq> rd_count" "count \<noteq> 0" "bytes \<noteq> 0"
  defines "need \<equiv> unat (rq_units r ! rd_index d) + unat count * unat bytes"
  shows "if need < 2 ^ 64
    then \<exists>r'. requirement_add d count bytes r = Inr r' \<and> unat (rq_units r' ! rd_index d) = need \<and>
      (\<forall>e. e \<noteq> d \<longrightarrow> rq_units r' ! rd_index e = rq_units r ! rd_index e)
    else requirement_add d count bytes r = Inl Overflow_error"
proof (cases "need < 2 ^ 64")
  case True
  then have no: "\<not> (UINT64_MAX - rq_units r ! rd_index d) div bytes < count"
    unfolding product_overflow_test [OF assms(4)] by (simp add: need_def)
  have "unat (rq_units r ! rd_index d + count * bytes) = need"
    using True unfolding need_def by (simp add: unat_word_ariths)
  then show ?thesis
    using True no assms(1-4) rd_index_bound [OF assms(2)]
    by (auto simp: requirement_add_def Let_def nth_list_update rd_index_inj)
next
  case False
  then have "(UINT64_MAX - rq_units r ! rd_index d) div bytes < count"
    unfolding product_overflow_test [OF assms(4)] by (simp add: need_def)
  then show ?thesis
    using False assms(2-4) by (simp add: requirement_add_def)
qed

lemma device_limit_exact:
  assumes "device_limit owned t available reserve = Inr x"
  shows "unat x = unat owned + (unat available - unat reserve) \<and> unat x \<le> unat t"
proof -
  have c: "\<not> t < available" "\<not> t - available < owned" "\<not> available < reserve"
    and x: "x = owned + (available - reserve)"
    using assms by (auto simp: device_limit_def split: if_splits)
  have le: "available \<le> t" "reserve \<le> available" "owned \<le> t - available"
    using c by (simp_all add: not_less)
  have u: "unat (available - reserve) = unat available - unat reserve"
    "unat owned \<le> unat t - unat available" "unat available \<le> unat t"
    "unat reserve \<le> unat available"
    using le unat_sub [OF le(1)] unat_sub [OF le(2)] by (simp_all add: word_le_nat_alt)
  moreover have "unat t < 2 ^ LENGTH(64)"
    by (rule unsigned_less)
  ultimately have "unat owned + unat (available - reserve) < 2 ^ LENGTH(64)"
    by linarith
  then show ?thesis
    using u unat_add_lem [of owned "available - reserve"] by (simp add: x)
qed

section \<open>The indexed append\<close>

fun add_all :: "inventory \<Rightarrow> inventory \<Rightarrow> (exn + unit) \<times> inventory" where
  "add_all [] iv = (Inr (), iv)"
| "add_all (v # vs) iv = (case inventory_add v iv of
     Inl e \<Rightarrow> (Inl e, iv) | Inr iv' \<Rightarrow> add_all vs iv')"

definition key_index :: "inventory \<Rightarrow> (slot_key \<rightharpoonup> nat)" where
  "key_index iv k = find_index (\<lambda>p. slot_key_of p = k) iv"

lemma find_index_snoc:
  "find_index P (xs @ [x]) = (case find_index P xs of
     Some i \<Rightarrow> Some i | None \<Rightarrow> if P x then Some (length xs) else None)"
  by (induction xs) (auto split: option.splits simp del: find_index_None)

lemma key_index_snoc:
  "key_index (iv @ [v]) = try_emplace (slot_key_of v) (length iv) (key_index iv)"
  by (rule ext) (auto simp: key_index_def try_emplace_def find_index_snoc simp del: find_index_None split: option.splits)

lemma slot_index_eq: "slot_index iv = key_index iv"
proof -
  have "fold (\<lambda>i m. try_emplace (slot_key_of (iv ! i)) i m) [0..<n] Map.empty = key_index (take n iv)"
    if "n \<le> length iv" for n
    using that
  proof (induction n)
    case 0
    then show ?case by (auto simp: key_index_def)
  next
    case (Suc n)
    then show ?case
      by (simp add: take_Suc_conv_app_nth key_index_snoc)
  qed
  from this [of "length iv"] show ?thesis
    by (simp add: slot_index_def)
qed

lemma append_loop_add_all: "append_loop vs (key_index iv) iv = add_all vs iv"
proof (induction vs arbitrary: iv)
  case (Cons v vs)
  have find: "find_index (\<lambda>p. same_block (ra_owner p) (ra_owner v) \<and> ra_slot p = ra_slot v) iv =
      key_index iv (slot_key_of v)"
    by (simp add: key_index_def slot_key_of_def same_block_def)
  have new: "(key_index iv)(slot_key_of v \<mapsto> length iv) = key_index (iv @ [v])"
    if "key_index iv (slot_key_of v) = None"
    using that by (simp add: key_index_snoc try_emplace_def)
  show ?case
    using Cons.IH [of iv] Cons.IH [of "iv @ [v]"] new
    by (auto simp: inventory_add_def find split: sum.splits option.splits)
qed simp

text \<open>
  C19. The indexed \<open>append\<close> is equivalent to adding the other inventory's allocations one by one: the
  same outcome, the same inventory, and after a refused declaration the same partial inventory.
\<close>

theorem append_equals_adds: "inventory_append other iv = add_all other iv"
  using append_loop_add_all [of other iv] by (cases other) (simp_all add: inventory_append_def slot_index_eq)

section \<open>The transition charges each physical identity once\<close>

definition charge :: "resource_allocation \<Rightarrow> resource_domain \<times> u64" where
  "charge v = (ra_domain v, ra_units v)"

definition units_in :: "resource_domain \<Rightarrow> resource_domain \<times> u64 \<Rightarrow> nat" where
  "units_in d c = (if fst c = d then unat (snd c) else 0)"

definition charge_total :: "charges \<Rightarrow> resource_domain \<Rightarrow> nat" where
  "charge_total m d = (\<Sum>k \<in> dom m. units_in d (the (m k)))"

lemma charge_total_empty [simp]: "charge_total Map.empty d = 0"
  by (simp add: charge_total_def)

lemma charge_total_upd:
  assumes "finite (dom m)" "m k = None"
  shows "charge_total (m(k \<mapsto> c)) d = units_in d c + charge_total m d"
proof -
  have "(\<Sum>j \<in> dom m. units_in d (the ((m(k \<mapsto> c)) j))) = charge_total m d"
    unfolding charge_total_def using assms(2) by (intro sum.cong) auto
  moreover have "k \<notin> dom m"
    using assms(2) by auto
  ultimately show ?thesis
    using assms(1) by (simp add: charge_total_def)
qed

lemma charge_total_mono:
  assumes "m \<subseteq>\<^sub>m M" "finite (dom M)"
  shows "charge_total m d \<le> charge_total M d"
proof -
  have "charge_total m d = (\<Sum>k \<in> dom m. units_in d (the (M k)))"
    unfolding charge_total_def using assms(1) by (intro sum.cong) (auto simp: map_le_def)
  also have "\<dots> \<le> charge_total M d"
    unfolding charge_total_def by (intro sum_mono2 map_le_implies_dom_le assms) simp
  finally show ?thesis .
qed

definition totals_agree :: "charges \<Rightarrow> totals \<Rightarrow> bool" where
  "totals_agree m t \<longleftrightarrow> length t = 5 \<and> finite (dom m) \<and>
     (\<forall>d. d \<noteq> rd_count \<longrightarrow> unat (t ! rd_index d) = charge_total m d)"

lemma totals_agree_empty: "totals_agree Map.empty zero_totals"
  by (simp add: totals_agree_def zero_totals_def rd_index_bound)

lemma totals_agree_charge:
  assumes "totals_agree m t" "m k = None" "fst c \<noteq> rd_count"
    and "\<not> UINT64_MAX - t ! rd_index (fst c) < snd c"
  shows "totals_agree (m(k \<mapsto> c)) (t[rd_index (fst c) := t ! rd_index (fst c) + snd c])"
  using assms unat_add_checked [OF assms(4)] rd_index_bound [OF assms(3)]
  by (auto simp: totals_agree_def charge_total_upd units_in_def nth_list_update rd_index_inj)

lemma union_loop_absorbs:
  "(\<forall>v \<in> set xs. fst st (physical_key alive v) = Some (charge v)) \<Longrightarrow> union_loop alive xs st = Inr st"
  by (induction xs) (auto simp: charge_def Let_def)

lemma union_loop_Cons_new:
  assumes "m (physical_key alive v) = None"
  shows "union_loop alive (v # vs) (m, t) =
    (if UINT64_MAX - t ! rd_index (ra_domain v) < ra_units v then Inl Overflow_error
     else union_loop alive vs (m(physical_key alive v \<mapsto> charge v),
       t[rd_index (ra_domain v) := t ! rd_index (ra_domain v) + ra_units v]))"
  using assms by (simp add: charge_def Let_def)

lemma union_loop_Cons_old:
  assumes "m (physical_key alive v) = Some c"
  shows "union_loop alive (v # vs) (m, t) =
    (if c = charge v then union_loop alive vs (m, t) else Inl Invalid_argument)"
  using assms by (cases c) (auto simp: charge_def Let_def)

declare union_loop.simps(2) [simp del]

lemma union_loop_Inr:
  assumes "union_loop alive xs (m, t) = Inr (m', t')"
  shows "m \<subseteq>\<^sub>m m' \<and> dom m' = dom m \<union> physical_key alive ` set xs \<and>
    (\<forall>v \<in> set xs. m' (physical_key alive v) = Some (charge v)) \<and>
    (totals_agree m t \<longrightarrow> (\<forall>v \<in> set xs. ra_domain v \<noteq> rd_count) \<longrightarrow> totals_agree m' t')"
  using assms
proof (induction xs arbitrary: m t)
  case (Cons v vs)
  show ?case
  proof (cases "m (physical_key alive v)")
    case None
    define m1 where "m1 = m(physical_key alive v \<mapsto> charge v)"
    define t1 where "t1 = t[rd_index (ra_domain v) := t ! rd_index (ra_domain v) + ra_units v]"
    from None Cons.prems have no: "\<not> UINT64_MAX - t ! rd_index (ra_domain v) < ra_units v"
      and rest: "union_loop alive vs (m1, t1) = Inr (m', t')"
      by (auto simp: union_loop_Cons_new m1_def t1_def split: if_splits)
    have le: "m \<subseteq>\<^sub>m m1" "m1 (physical_key alive v) = Some (charge v)"
      using None by (auto simp: map_le_def m1_def)
    have "totals_agree m1 t1" if "totals_agree m t" "ra_domain v \<noteq> rd_count"
      using totals_agree_charge [OF that(1) None, of "charge v"] that no
      by (simp add: charge_def m1_def t1_def)
    moreover have "m1 \<subseteq>\<^sub>m m'"
      using Cons.IH [OF rest] by blast
    then have "m' (physical_key alive v) = Some (charge v)"
      using le(2) unfolding map_le_def by (metis domI)
    moreover have "m \<subseteq>\<^sub>m m'"
      using Cons.IH [OF rest] le(1) map_le_trans by blast
    moreover have "dom m1 = insert (physical_key alive v) (dom m)"
      by (simp add: m1_def)
    ultimately show ?thesis
      using Cons.IH [OF rest] by auto
  next
    case (Some c)
    then have c: "c = charge v" and rest: "union_loop alive vs (m, t) = Inr (m', t')"
      using Cons.prems by (auto simp: union_loop_Cons_old split: if_splits)
    have "m' (physical_key alive v) = Some (charge v)"
      using Cons.IH [OF rest] Some c unfolding map_le_def by (metis domI)
    then show ?thesis
      using Cons.IH [OF rest] Some by auto
  qed
qed simp

lemma union_loop_Inl:
  assumes "union_loop alive xs (m, t) = Inl e" "totals_agree m t"
    and "\<forall>v \<in> set xs. ra_domain v \<noteq> rd_count" "m \<subseteq>\<^sub>m M" "finite (dom M)"
    and "\<forall>v \<in> set xs. M (physical_key alive v) = Some (charge v)"
  shows "e = Overflow_error \<and> (\<exists>d. d \<noteq> rd_count \<and> 2 ^ 64 \<le> charge_total M d)"
  using assms
proof (induction xs arbitrary: m t)
  case (Cons v vs)
  show ?case
  proof (cases "m (physical_key alive v)")
    case None
    define m1 where "m1 = m(physical_key alive v \<mapsto> charge v)"
    define t1 where "t1 = t[rd_index (ra_domain v) := t ! rd_index (ra_domain v) + ra_units v]"
    have le: "m1 \<subseteq>\<^sub>m M"
      using Cons.prems None by (auto simp: map_le_def m1_def)
    show ?thesis
    proof (cases "UINT64_MAX - t ! rd_index (ra_domain v) < ra_units v")
      case True
      have "2 ^ 64 \<le> unat (t ! rd_index (ra_domain v)) + unat (ra_units v)"
        using True unfolding overflow_test by simp
      also have "\<dots> = charge_total m1 (ra_domain v)"
        using Cons.prems(2,3) None
        by (simp add: m1_def totals_agree_def charge_total_upd units_in_def charge_def)
      also have "\<dots> \<le> charge_total M (ra_domain v)"
        using le Cons.prems(5) by (rule charge_total_mono)
      finally show ?thesis
        using True None Cons.prems(1,3) by (auto simp: union_loop_Cons_new)
    next
      case False
      have "union_loop alive vs (m1, t1) = Inl e"
        using Cons.prems(1) None False by (simp add: union_loop_Cons_new m1_def t1_def)
      moreover have "totals_agree m1 t1"
        using totals_agree_charge [OF Cons.prems(2) None, of "charge v"] Cons.prems(3) False
        by (simp add: charge_def m1_def t1_def)
      ultimately show ?thesis
        using Cons.IH [of m1 t1] Cons.prems(3,5,6) le by simp
    qed
  next
    case (Some c)
    then have "c = charge v"
      using Cons.prems(4,6) unfolding map_le_def by (metis domI list.set_intros(1) option.inject)
    then show ?thesis
      using Cons Some by (auto simp: union_loop_Cons_old)
  qed
qed simp

lemma union_loop_append:
  "union_loop alive (xs @ ys) st = then_union alive ys (union_loop alive xs st)"
proof (induction xs arbitrary: st)
  case Nil
  then show ?case by (simp add: then_union_def)
next
  case (Cons v xs)
  obtain m t where st: "st = (m, t)" by fastforce
  show ?case
    by (cases "m (physical_key alive v)")
      (simp_all add: st union_loop_Cons_new union_loop_Cons_old Cons.IH, simp_all add: then_union_def)
qed

lemma transition_union_alt:
  "transition_union alive old nxt pending quarantined =
     map_sum id snd (union_loop alive (old @ nxt @ pending @ quarantined) (Map.empty, zero_totals))"
  unfolding transition_union_def append_assoc [symmetric] union_loop_append ..

text \<open>Every declaration of one physical identity declares the same extent.\<close>

definition aliases_agree :: "(nat \<Rightarrow> bool) \<Rightarrow> inventory \<Rightarrow> bool" where
  "aliases_agree alive xs \<longleftrightarrow> (\<forall>v \<in> set xs. \<forall>w \<in> set xs.
     physical_key alive v = physical_key alive w \<longrightarrow> charge v = charge w)"

definition physical_charges :: "(nat \<Rightarrow> bool) \<Rightarrow> inventory \<Rightarrow> charges" where
  "physical_charges alive xs = map_of (map (\<lambda>v. (physical_key alive v, charge v)) xs)"

lemma physical_charges_agree:
  assumes "aliases_agree alive xs" "v \<in> set xs"
  shows "physical_charges alive xs (physical_key alive v) = Some (charge v)"
proof -
  have "physical_key alive v \<in> dom (physical_charges alive xs)"
    using assms(2) by (auto simp: physical_charges_def dom_map_of_conv_image_fst image_image)
  then obtain c where c: "physical_charges alive xs (physical_key alive v) = Some c"
    by auto
  then obtain w where "w \<in> set xs" "physical_key alive w = physical_key alive v" "c = charge w"
    unfolding physical_charges_def by (auto dest!: map_of_SomeD)
  then show ?thesis
    using c assms unfolding aliases_agree_def by metis
qed

text \<open>
  C20. The transition union of four inventories charges every physical identity once. It succeeds only
  if all declarations of one identity (the still-living retired owner and slot of a tracking record,
  otherwise the declared owner and slot) agree on domain and units, and then each domain's total is
  the sum of the units over the distinct identities of that domain. When the declarations agree, it
  fails only with an overflow, and only if such a sum does not fit 64 bits.
\<close>

theorem transition_union_exact:
  assumes "xs = old @ nxt @ pending @ quarantined" "\<forall>v \<in> set xs. ra_domain v \<noteq> rd_count"
  shows "case transition_union alive old nxt pending quarantined of
      Inl e \<Rightarrow> aliases_agree alive xs \<longrightarrow> e = Overflow_error \<and>
        (\<exists>d. d \<noteq> rd_count \<and> 2 ^ 64 \<le> charge_total (physical_charges alive xs) d)
    | Inr t \<Rightarrow> aliases_agree alive xs \<and>
        (\<forall>d. d \<noteq> rd_count \<longrightarrow>
           unat (t ! rd_index d) = charge_total (physical_charges alive xs) d)"
proof (cases "union_loop alive xs (Map.empty, zero_totals)")
  case (Inl e)
  have "e = Overflow_error \<and> (\<exists>d. d \<noteq> rd_count \<and> 2 ^ 64 \<le> charge_total (physical_charges alive xs) d)"
    if "aliases_agree alive xs"
    using Inl totals_agree_empty assms(2) physical_charges_agree [OF that]
    by (intro union_loop_Inl) (auto simp: physical_charges_def finite_dom_map_of)
  then show ?thesis
    using Inl by (simp add: transition_union_alt assms(1))
next
  case (Inr st)
  obtain m t where st: "st = (m, t)" by fastforce
  have m: "dom m = physical_key alive ` set xs" "totals_agree m t"
    "\<forall>v \<in> set xs. m (physical_key alive v) = Some (charge v)"
    using union_loop_Inr [OF Inr [unfolded st]] totals_agree_empty assms(2) by auto
  have agree: "aliases_agree alive xs"
    using m(3) unfolding aliases_agree_def by (metis option.inject)
  have "m = physical_charges alive xs"
  proof
    fix k show "m k = physical_charges alive xs k"
    proof (cases "k \<in> physical_key alive ` set xs")
      case True
      then show ?thesis
        using m(3) physical_charges_agree [OF agree] by auto
    next
      case False
      then have "k \<notin> dom m" "k \<notin> dom (physical_charges alive xs)"
        by (auto simp: m(1) physical_charges_def dom_map_of_conv_image_fst image_image)
      then show ?thesis
        by (metis domIff)
    qed
  qed
  then show ?thesis
    using Inr m(2) agree by (simp add: transition_union_alt assms(1) [symmetric] st totals_agree_def)
qed

definition sample_allocation :: "nat \<Rightarrow> u64 \<Rightarrow> u64 \<Rightarrow> nat option \<Rightarrow> u64 \<Rightarrow> resource_allocation" where
  "sample_allocation c slot units retired rslot = \<lparr>ra_owner = Owned c, ra_slot = slot,
     ra_domain = rd_host_metadata, ra_units = units, ra_retired_owner = retired,
     ra_lifetime_retire = None, ra_device_lifetime_retire = None,
     ra_registration_lifetime_retire = None, ra_retired_slot = rslot\<rparr>"

theorem transition_union_exact_witness:
  "(case transition_union (\<lambda>c. c = 7) [sample_allocation 7 1 100 None 0]
      [sample_allocation 9 0 100 (Some 7) 1] [] [] of
      Inl e \<Rightarrow> False
    | Inr t \<Rightarrow> unat (t ! rd_index rd_host_metadata) = 100)"
proof -
  let ?xs = "[sample_allocation 7 1 100 None 0] @ [sample_allocation 9 0 100 (Some 7) 1] @ [] @ []"
  have dom: "\<forall>v \<in> set ?xs. ra_domain v \<noteq> rd_count"
    by (simp add: sample_allocation_def)
  have "physical_charges (\<lambda>c. c = 7) ?xs = [(Some 7, 1) \<mapsto> (rd_host_metadata, 100)]"
    by (simp add: physical_charges_def physical_key_def slot_key_of_def charge_def
        sample_allocation_def)
  then have "charge_total (physical_charges (\<lambda>c. c = 7) ?xs) rd_host_metadata = 100"
    by (simp add: charge_total_def units_in_def)
  moreover have "ok (transition_union (\<lambda>c. c = 7) [sample_allocation 7 1 100 None 0]
      [sample_allocation 9 0 100 (Some 7) 1] [] [])"
    by code_simp
  ultimately show ?thesis
    using transition_union_exact [OF refl dom, of "\<lambda>c. c = 7"] by (auto split: sum.splits)
qed

section \<open>Handing a charge to a tracking owner\<close>

lemma remove_loop_Inr:
  assumes "remove_loop x vs result found = Inr (result', found')"
  shows "set result' \<subseteq> set result \<union> set vs \<and>
    (found' \<longrightarrow> found \<or> (\<exists>v \<in> set vs. slot_key_of v = slot_key_of x \<and> charge v = charge x))"
  using assms
proof (induction x vs result found rule: remove_loop.induct)
  case (2 x v vs result found)
  then show ?case
    by (fastforce simp: slot_key_of_def same_block_def charge_def split: if_splits)
qed simp

lemma without_allocation_Inr:
  assumes "without_allocation x iv = Inr iv'"
  shows "set iv' \<subseteq> set iv \<and> (\<exists>v \<in> set iv. slot_key_of v = slot_key_of x \<and> charge v = charge x)"
  using assms remove_loop_Inr [of x iv "[]" False]
  by (auto simp: without_allocation_def split: if_splits sum.splits)

lemma inventory_add_Inr:
  "inventory_add v iv = Inr iv' \<Longrightarrow> set iv' \<subseteq> insert v (set iv)"
  by (auto simp: inventory_add_def split: sum.splits option.splits if_splits)

lemma transfer_metadata_Inr:
  assumes "transfer_metadata x tracking iv = Inr iv'"
  defines "bound \<equiv> tracking\<lparr>ra_retired_owner := control_of (ra_owner x), ra_retired_slot := ra_slot x\<rparr>"
  shows "inventory_totals iv' = inventory_totals iv \<and> set iv' \<subseteq> insert bound (set iv) \<and>
    charge bound = charge x \<and>
    (\<exists>v \<in> set iv. slot_key_of v = slot_key_of x \<and> charge v = charge x \<and> ra_retired_owner v = None)"
proof -
  obtain nxt t where kind: "ra_domain x = rd_host_metadata" "ra_domain tracking = rd_host_metadata"
      "ra_units x = ra_units tracking"
    and untracked: "\<not> list_ex (\<lambda>v. same_block (ra_owner v) (ra_owner x) \<and> ra_slot v = ra_slot x \<and>
                ra_retired_owner v \<noteq> None) iv"
    and nxt: "without_allocation x iv = Inr nxt" "inventory_add bound nxt = Inr iv'"
    and t: "inventory_totals iv' = Inr t" "inventory_totals iv = Inr t"
    using assms(1) unfolding bound_def
    by (auto simp: transfer_metadata_def split: if_splits sum.splits)
  have "set iv' \<subseteq> insert bound (set iv)"
    using without_allocation_Inr [OF nxt(1)] inventory_add_Inr [OF nxt(2)] by blast
  moreover have "charge bound = charge x"
    using kind by (simp add: charge_def bound_def)
  moreover obtain v where "v \<in> set iv" "slot_key_of v = slot_key_of x" "charge v = charge x"
    using without_allocation_Inr [OF nxt(1)] by blast
  moreover from this have "ra_retired_owner v = None"
    using untracked by (auto simp: list_ex_iff slot_key_of_def same_block_def)
  ultimately show ?thesis
    using t by auto
qed

text \<open>
  Handing a retired metadata charge to a tracking owner is neutral. When \<open>transfer_metadata\<close>
  succeeds, the totals are unchanged; and while the retired owner is still alive, the transition from
  the old to the new inventory costs exactly what the old inventory costs alone, together with any
  pending and quarantined inventories: the tracking record is not charged a second time.
\<close>

theorem transfer_metadata_neutral:
  assumes "transfer_metadata x tracking iv = Inr iv'"
    and "control_of (ra_owner x) = Some c" "alive c"
  shows "inventory_totals iv' = inventory_totals iv \<and>
    transition_union alive iv iv' pending quarantined = transition_union alive iv [] pending quarantined"
proof -
  define bound where
    "bound = tracking\<lparr>ra_retired_owner := control_of (ra_owner x), ra_retired_slot := ra_slot x\<rparr>"
  note tr = transfer_metadata_Inr [OF assms(1), folded bound_def]
  have key: "physical_key alive bound = slot_key_of x"
    using assms(2,3) by (simp add: bound_def physical_key_def slot_key_of_def)
  obtain v where v: "v \<in> set iv" "slot_key_of v = slot_key_of x" "charge v = charge x"
    "ra_retired_owner v = None"
    using tr by blast
  then have key_v: "physical_key alive v = physical_key alive bound"
    unfolding key by (simp add: physical_key_def)
  have "then_union alive iv' (union_loop alive iv (Map.empty, zero_totals)) =
      then_union alive [] (union_loop alive iv (Map.empty, zero_totals))"
  proof (cases "union_loop alive iv (Map.empty, zero_totals)")
    case (Inr st)
    obtain m t where st: "st = (m, t)" by fastforce
    have m: "\<forall>w \<in> set iv. m (physical_key alive w) = Some (charge w)"
      using union_loop_Inr [OF Inr [unfolded st]] by blast
    then have "m (physical_key alive bound) = Some (charge bound)"
      using v(1,3) tr key_v by metis
    then have "\<forall>w \<in> set iv'. fst st (physical_key alive w) = Some (charge w)"
      using m tr by (auto simp: st)
    then show ?thesis
      using union_loop_absorbs [of iv' st alive] Inr by (simp add: then_union_def)
  qed (simp add: then_union_def)
  then show ?thesis
    using tr by (simp add: transition_union_def)
qed

theorem transfer_metadata_neutral_witness:
  "transition_union (\<lambda>c. c = 7) [sample_allocation 7 1 100 None 0]
     [sample_allocation 9 0 100 (Some 7) 1] [] [] =
   transition_union (\<lambda>c. c = 7) [sample_allocation 7 1 100 None 0] [] [] []"
proof -
  have "transfer_metadata (sample_allocation 7 1 100 None 0) (sample_allocation 9 0 100 None 0)
      [sample_allocation 7 1 100 None 0] = Inr [sample_allocation 9 0 100 (Some 7) 1]"
    by code_simp
  moreover have "control_of (ra_owner (sample_allocation 7 1 100 None 0)) = Some 7"
    by (simp add: sample_allocation_def)
  ultimately show ?thesis
    using transfer_metadata_neutral [where alive = "\<lambda>c. c = 7" and c = 7] by blast
qed

end
