(* ===== verification/Suffix_Proposer.thy ===== *)
theory Suffix_Proposer
  imports Voidinfer_Prelude
begin

text \<open>
  Model of \<open>src/exl3/suffix_proposer.h\<close>: the bounded index over the token history that proposes a
  continuation by finding an earlier occurrence of the last tokens. Positions are the \<open>int64_t\<close> values
  of the source, \<open>-1\<close> for none; the three arrays are lists of fixed length. The visit loop is bounded by
  the source's own limit of 64 visits.

  The selection limits and \<open>eligible\<close> compare floating-point quotients and are not modelled.

  The theorems: every proposal is a real continuation of an earlier occurrence of the key in the
  retained history, and every matching occurrence among the 64 most recent ones of its bucket is
  found.
\<close>

section \<open>State\<close>

definition capacity :: nat where
  "capacity = 4096"

record suffix_outcome =
  proposed_suffix :: u32
  accepted_suffix :: u32
  replay_rows :: u32

record outcome_totals =
  ot_rounds :: u64
  ot_proposed :: u64
  ot_accepted :: u64
  ot_replay :: u64
  ot_skipped_neural_blocks :: u64

record proposal =
  pr_tokens :: "int list"
  pr_rows :: nat

record proposer =
  key_tokens :: nat
  neural_since_suffix :: u32
  outcomes :: "suffix_outcome list"
  outcome_next :: nat
  outcome_count :: nat
  history :: "int list"
  entries :: "(int \<times> int) list"
  heads :: "int list"
  end_pos :: int

definition empty_outcome :: suffix_outcome where
  "empty_outcome = \<lparr>proposed_suffix = 0, accepted_suffix = 0, replay_rows = 0\<rparr>"

definition empty_proposal :: proposal where
  "empty_proposal = \<lparr>pr_tokens = replicate 8 0, pr_rows = 0\<rparr>"

section \<open>Operations\<close>

definition proposer_reset :: "proposer \<Rightarrow> proposer" where
  "proposer_reset s = s\<lparr>neural_since_suffix := 0, outcome_next := 0, outcome_count := 0,
     end_pos := 0, heads := replicate 256 (- 1), entries := replicate capacity (- 1, - 1)\<rparr>"

definition proposer_new :: "nat \<Rightarrow> exn + proposer" where
  "proposer_new k =
     (if k < 2 \<or> k > 4 then Inl Invalid_argument
      else Inr (proposer_reset \<lparr>key_tokens = k, neural_since_suffix = 0,
        outcomes = replicate 16 empty_outcome, outcome_next = 0, outcome_count = 0,
        history = replicate capacity 0, entries = replicate capacity (- 1, - 1),
        heads = replicate 256 0, end_pos = 0\<rparr>))"

definition record_neural_publication :: "proposer \<Rightarrow> proposer" where
  "record_neural_publication s =
     (if neural_since_suffix s < - 1 then s\<lparr>neural_since_suffix := neural_since_suffix s + 1\<rparr> else s)"

definition record_published_outcome :: "suffix_outcome \<Rightarrow> proposer \<Rightarrow> proposer" where
  "record_published_outcome oc s = s\<lparr>neural_since_suffix := 0,
     outcomes := (outcomes s)[outcome_next s := oc],
     outcome_next := (outcome_next s + 1) mod 16,
     outcome_count := min (outcome_count s + 1) 16\<rparr>"

definition add_outcome :: "suffix_outcome \<Rightarrow> outcome_totals \<Rightarrow> outcome_totals" where
  "add_outcome oc t = t\<lparr>ot_proposed := ot_proposed t + ucast (proposed_suffix oc),
     ot_accepted := ot_accepted t + ucast (accepted_suffix oc),
     ot_replay := ot_replay t + ucast (replay_rows oc)\<rparr>"

definition outcome_totals_of :: "proposer \<Rightarrow> outcome_totals" where
  "outcome_totals_of s = fold add_outcome (take (outcome_count s) (outcomes s))
     \<lparr>ot_rounds = of_nat (outcome_count s), ot_proposed = 0, ot_accepted = 0, ot_replay = 0,
      ot_skipped_neural_blocks = of_nat (outcome_count s)\<rparr>"

definition token_bucket :: "int \<Rightarrow> nat" where
  "token_bucket token = nat (token mod 256)"

definition append_token :: "int \<Rightarrow> proposer \<Rightarrow> proposer" where
  "append_token token s =
     (let position = end_pos s;
          slot = nat (position mod int capacity);
          s' = s\<lparr>end_pos := position + 1, history := (history s)[slot := token]\<rparr>
      in if int (key_tokens s) - 1 \<le> position
         then let bucket = token_bucket token
              in s'\<lparr>entries := (entries s')[slot := (position, heads s' ! bucket)],
                    heads := (heads s')[bucket := position]\<rparr>
         else s')"

definition INT64_MAX :: int where
  "INT64_MAX = 2 ^ 63 - 1"

definition suffix_append :: "int list \<Rightarrow> proposer \<Rightarrow> exn + proposer" where
  "suffix_append tokens s =
     (if INT64_MAX - end_pos s < int (length tokens) then Inl Overflow_error
      else if list_ex (\<lambda>t. t < 0 \<or> 248320 \<le> t) tokens then Inl Invalid_argument
      else Inr (fold append_token tokens s))"

definition token_at :: "proposer \<Rightarrow> int \<Rightarrow> int" where
  "token_at s p = history s ! nat (p mod int capacity)"

definition oldest :: "proposer \<Rightarrow> int" where
  "oldest s = max 0 (end_pos s - int capacity)"

text \<open>The comparison of the key, from the most recent token backwards.\<close>

definition key_matches :: "proposer \<Rightarrow> int \<Rightarrow> int \<Rightarrow> bool" where
  "key_matches s seed cursor \<longleftrightarrow> cursor + 1 < end_pos s \<and> token_at s cursor = seed \<and>
     list_all (\<lambda>back. token_at s (cursor - int back) = token_at s (end_pos s - int back))
       [1..<key_tokens s]"

function copy_rows :: "proposer \<Rightarrow> int \<Rightarrow> nat \<Rightarrow> proposal \<Rightarrow> proposal" where
  "copy_rows s next_pos available p =
     (if next_pos < end_pos s \<and> pr_rows p < available
      then copy_rows s (next_pos + 1) available
             \<lparr>pr_tokens = (pr_tokens p)[pr_rows p := token_at s next_pos], pr_rows = pr_rows p + 1\<rparr>
      else p)"
  by auto
termination
  by (relation "measure (\<lambda>(s, _, available, p). available - pr_rows p)") auto

declare copy_rows.simps [simp del]

definition take_match :: "proposer \<Rightarrow> int \<Rightarrow> nat \<Rightarrow> int \<Rightarrow> proposal \<Rightarrow> proposal" where
  "take_match s seed maximum_rows cursor p =
     (let available = nat (min (int maximum_rows) (end_pos s - cursor)) in
      if pr_rows p < available
      then copy_rows s (cursor + 1) available
             \<lparr>pr_tokens = (pr_tokens p)[0 := seed], pr_rows = 1\<rparr>
      else p)"

primrec visit :: "nat \<Rightarrow> proposer \<Rightarrow> int \<Rightarrow> nat \<Rightarrow> int \<Rightarrow> proposal \<Rightarrow> proposal" where
  "visit 0 s seed maximum_rows cursor p = p"
| "visit (Suc n) s seed maximum_rows cursor p =
     (if cursor < oldest s + int (key_tokens s - 1) then p
      else let entry = entries s ! nat (cursor mod int capacity) in
        if fst entry \<noteq> cursor then p
        else if key_matches s seed cursor
        then let p' = take_match s seed maximum_rows cursor p in
             if pr_rows p < pr_rows p' \<and> pr_rows p' = maximum_rows then p'
             else visit n s seed maximum_rows (snd entry) p'
        else visit n s seed maximum_rows (snd entry) p)"

definition propose :: "int \<Rightarrow> nat \<Rightarrow> proposer \<Rightarrow> exn + proposal" where
  "propose seed maximum_rows s =
     (if seed < 0 \<or> 248320 \<le> seed \<or> maximum_rows < 1 \<or> 8 < maximum_rows then Inl Invalid_argument
      else if end_pos s < int (key_tokens s) - 1 \<or> maximum_rows = 1 then Inr empty_proposal
      else Inr (visit 64 s seed maximum_rows (heads s ! token_bucket seed) empty_proposal))"

section \<open>What the arrays hold\<close>

text \<open>The last indexed position below \<open>n\<close> whose token falls in bucket \<open>b\<close>.\<close>

primrec last_pos :: "int list \<Rightarrow> nat \<Rightarrow> nat \<Rightarrow> nat \<Rightarrow> int" where
  "last_pos T k b 0 = - 1"
| "last_pos T k b (Suc n) =
     (if k - 1 \<le> n \<and> token_bucket (T ! n) = b then int n else last_pos T k b n)"

definition proposer_rep :: "proposer \<Rightarrow> int list \<Rightarrow> bool" where
  "proposer_rep s T \<longleftrightarrow> 2 \<le> key_tokens s \<and> key_tokens s \<le> 4 \<and> end_pos s = int (length T) \<and>
     ring_rep capacity (history s) T \<and> length (entries s) = capacity \<and> length (heads s) = 256 \<and>
     (\<forall>b < 256. heads s ! b = last_pos T (key_tokens s) b (length T)) \<and>
     (\<forall>p < length T. length T \<le> p + capacity \<longrightarrow> key_tokens s - 1 \<le> p \<longrightarrow>
        entries s ! (p mod capacity) =
          (int p, last_pos T (key_tokens s) (token_bucket (T ! p)) p))"

lemma capacity_pos [simp]: "0 < capacity"
  by (simp add: capacity_def)

lemma token_bucket_bound [simp]: "token_bucket t < 256"
  by (simp add: token_bucket_def nat_less_iff)

lemma nat_mod_capacity [simp]: "nat (int n mod int capacity) = n mod capacity"
  by (simp add: nat_mod_distrib)

lemma last_pos_snoc: "n \<le> length T \<Longrightarrow> last_pos (T @ [t]) k b n = last_pos T k b n"
  by (induction n) (simp_all add: nth_append)

lemma last_pos_less: "last_pos T k b n < int n"
  by (induction n) auto

lemma last_pos_ge:
  assumes "c < n" "k - 1 \<le> c" "token_bucket (T ! c) = b"
  shows "int c \<le> last_pos T k b n"
  using assms by (induction n) (auto simp: less_Suc_eq)

lemma last_pos_bucket:
  assumes "0 \<le> last_pos T k b n"
  shows "k - 1 \<le> nat (last_pos T k b n) \<and> token_bucket (T ! nat (last_pos T k b n)) = b"
  using assms by (induction n) auto

lemma proposer_new_rep:
  "proposer_new k = Inr s \<Longrightarrow> proposer_rep s [] \<and> key_tokens s = k"
  by (auto simp: proposer_new_def proposer_reset_def proposer_rep_def split: if_splits)

lemma append_token_rep:
  assumes "proposer_rep s T"
  shows "proposer_rep (append_token t s) (T @ [t]) \<and> key_tokens (append_token t s) = key_tokens s"
proof -
  let ?n = "length T" and ?k = "key_tokens s" and ?s = "append_token t s"
  have k: "2 \<le> ?k" and e: "end_pos s = int ?n"
    using assms by (auto simp: proposer_rep_def)
  have idx: "int ?k - 1 \<le> int ?n \<longleftrightarrow> ?k - 1 \<le> ?n"
    using k by linarith
  have key: "key_tokens ?s = ?k" and e': "end_pos ?s = int (Suc ?n)"
    and hist: "history ?s = (history s)[?n mod capacity := t]"
    and ent: "entries ?s = (if ?k - 1 \<le> ?n then (entries s)[?n mod capacity :=
        (int ?n, heads s ! token_bucket t)] else entries s)"
    and head: "heads ?s = (if ?k - 1 \<le> ?n then (heads s)[token_bucket t := int ?n] else heads s)"
    by (simp_all add: append_token_def Let_def e idx)
  have "heads ?s ! b = last_pos (T @ [t]) ?k b (Suc ?n)" if "b < 256" for b
    using assms that unfolding head
    by (auto simp: proposer_rep_def nth_list_update last_pos_snoc)
  moreover have "entries ?s ! (p mod capacity) =
      (int p, last_pos (T @ [t]) ?k (token_bucket ((T @ [t]) ! p)) p)"
    if p: "p < Suc ?n" "Suc ?n \<le> p + capacity" "?k - 1 \<le> p" for p
  proof (cases "p = ?n")
    case True
    then show ?thesis
      using assms p unfolding ent by (simp add: proposer_rep_def last_pos_snoc)
  next
    case False
    then have "p mod capacity \<noteq> ?n mod capacity"
      using p by (intro ring_slot_neq) simp_all
    then show ?thesis
      using assms p False unfolding ent
      by (auto simp: proposer_rep_def last_pos_snoc nth_append)
  qed
  ultimately show ?thesis
    using assms ring_append [of capacity "history s" T t]
    by (auto simp: proposer_rep_def key e' hist ent head)
qed

lemma fold_append_rep:
  "proposer_rep s T \<Longrightarrow> proposer_rep (fold append_token ts s) (T @ ts) \<and>
     key_tokens (fold append_token ts s) = key_tokens s"
proof (induction ts arbitrary: s T)
  case (Cons t ts)
  then show ?case
    using append_token_rep [OF Cons.prems, of t] Cons.IH [of "append_token t s" "T @ [t]"] by simp
qed simp

fun append_all :: "int list list \<Rightarrow> proposer \<Rightarrow> exn + proposer" where
  "append_all [] s = Inr s"
| "append_all (ts # tss) s = (case suffix_append ts s of
     Inl e \<Rightarrow> Inl e | Inr s' \<Rightarrow> append_all tss s')"

lemma append_all_rep:
  assumes "proposer_rep s T" "append_all tss s = Inr s'"
  shows "proposer_rep s' (T @ concat tss) \<and> key_tokens s' = key_tokens s"
  using assms
proof (induction tss arbitrary: s T)
  case (Cons ts tss)
  then obtain s1 where s1: "s1 = fold append_token ts s" "append_all tss s1 = Inr s'"
    by (auto simp: suffix_append_def split: sum.splits if_splits)
  then show ?case
    using fold_append_rep [OF Cons.prems(1), of ts] Cons.IH [of s1 "T @ ts"] by simp
qed simp

section \<open>Matches\<close>

text \<open>
  Position \<open>c\<close> of the history is an occurrence of the key: the seed stands there, the tokens before it
  are the last tokens of the history, it is retained and something follows it.
\<close>

definition occurrence :: "nat \<Rightarrow> int list \<Rightarrow> int \<Rightarrow> nat \<Rightarrow> bool" where
  "occurrence k T seed c \<longleftrightarrow> length T - capacity + (k - 1) \<le> c \<and> c + 1 < length T \<and> T ! c = seed \<and>
     (\<forall>j. 1 \<le> j \<and> j < k \<longrightarrow> T ! (c - j) = T ! (length T - j))"

lemma oldest_nat: "proposer_rep s T \<Longrightarrow> oldest s = int (length T - capacity)"
  by (simp add: oldest_def proposer_rep_def)

lemma token_at_nth:
  assumes "proposer_rep s T" "length T - capacity \<le> p" "p < length T"
  shows "token_at s (int p) = T ! p"
  using assms by (simp add: token_at_def proposer_rep_def ring_rep_def)

lemma key_matches_iff:
  assumes "proposer_rep s T" "length T - capacity + (key_tokens s - 1) \<le> c"
    and "key_tokens s - 1 \<le> length T"
  shows "key_matches s seed (int c) \<longleftrightarrow> occurrence (key_tokens s) T seed c"
proof (cases "c + 1 < length T")
  case True
  have e: "end_pos s = int (length T)"
    using assms(1) by (simp add: proposer_rep_def)
  have small: "key_tokens s \<le> capacity"
    using assms(1) by (simp add: proposer_rep_def capacity_def)
  have before: "token_at s (int c - int j) = T ! (c - j)"
    "token_at s (int (length T) - int j) = T ! (length T - j)"
    if "1 \<le> j" "j < key_tokens s" for j
  proof -
    have "int c - int j = int (c - j)" "int (length T) - int j = int (length T - j)"
      "length T - capacity \<le> c - j" "length T - capacity \<le> length T - j" "c - j < length T"
      "length T - j < length T"
      using that assms(2,3) True small by auto
    then show "token_at s (int c - int j) = T ! (c - j)"
      "token_at s (int (length T) - int j) = T ! (length T - j)"
      by (simp_all only: token_at_nth [OF assms(1)])
  qed
  have "token_at s (int c) = T ! c"
    using token_at_nth [OF assms(1), of c] assms(2) True by simp
  then show ?thesis
    using True assms(2) before by (auto simp: key_matches_def occurrence_def list_all_iff e)
next
  case False
  then show ?thesis
    using assms(1) by (auto simp: key_matches_def occurrence_def proposer_rep_def)
qed

section \<open>Proposals\<close>

lemma copy_rows_spec:
  assumes "next_pos + int (available - pr_rows p) \<le> end_pos s" "pr_rows p \<le> available"
    and "available \<le> length (pr_tokens p)"
  shows "pr_rows (copy_rows s next_pos available p) = available \<and>
    length (pr_tokens (copy_rows s next_pos available p)) = length (pr_tokens p) \<and>
    (\<forall>i < available. pr_tokens (copy_rows s next_pos available p) ! i =
       (if i < pr_rows p then pr_tokens p ! i else token_at s (next_pos + int (i - pr_rows p))))"
  using assms
proof (induction s next_pos available p rule: copy_rows.induct)
  case (1 s next_pos available p)
  show ?case
  proof (cases "pr_rows p < available")
    case True
    define q where "q = \<lparr>pr_tokens = (pr_tokens p)[pr_rows p := token_at s next_pos],
      pr_rows = pr_rows p + 1\<rparr>"
    have go: "next_pos < end_pos s"
      using 1(2) True by linarith
    have IH: "pr_rows (copy_rows s (next_pos + 1) available q) = available \<and>
        length (pr_tokens (copy_rows s (next_pos + 1) available q)) = length (pr_tokens q) \<and>
        (\<forall>i < available. pr_tokens (copy_rows s (next_pos + 1) available q) ! i =
          (if i < pr_rows q then pr_tokens q ! i else token_at s (next_pos + 1 + int (i - pr_rows q))))"
      unfolding q_def using 1(2-4) True go by (intro 1(1)) auto
    have eq: "copy_rows s next_pos available p = copy_rows s (next_pos + 1) available q"
      using True go by (subst copy_rows.simps) (simp add: q_def)
    have "pr_tokens (copy_rows s next_pos available p) ! i =
       (if i < pr_rows p then pr_tokens p ! i else token_at s (next_pos + int (i - pr_rows p)))"
      if "i < available" for i
      unfolding eq using IH that 1(4) True
      by (cases "i = pr_rows p") (auto simp: q_def nth_list_update of_nat_diff algebra_simps)
    then show ?thesis
      using IH by (simp add: eq q_def)
  next
    case False
    then have "copy_rows s next_pos available p = p"
      by (subst copy_rows.simps) simp
    then show ?thesis
      using 1(3) False by simp
  qed
qed

definition reach :: "int list \<Rightarrow> nat \<Rightarrow> nat \<Rightarrow> nat" where
  "reach T m c = min m (length T - c)"

lemma take_match_spec:
  assumes "proposer_rep s T" "occurrence (key_tokens s) T seed c" "2 \<le> m" "m \<le> 8"
    and "length (pr_tokens p) = 8"
  defines "p' \<equiv> take_match s seed m (int c) p"
  shows "length (pr_tokens p') = 8 \<and> pr_rows p' = max (pr_rows p) (reach T m c) \<and>
    (p' = p \<or> (\<forall>i < reach T m c. pr_tokens p' ! i = T ! (c + i)) \<and> pr_rows p' = reach T m c)"
proof -
  have e: "end_pos s = int (length T)"
    using assms(1) by (simp add: proposer_rep_def)
  have c: "c + 1 < length T" "length T - capacity \<le> c" "T ! c = seed"
    using assms(2) by (auto simp: occurrence_def)
  have av: "nat (min (int m) (end_pos s - int c)) = reach T m c"
  proof -
    have "end_pos s - int c = int (length T - c)"
      using c(1) by (simp add: e)
    then show ?thesis
      by (simp add: reach_def flip: of_nat_min)
  qed
  have r: "2 \<le> reach T m c" "reach T m c \<le> 8" "c + reach T m c \<le> length T"
    using c(1) assms(3,4) by (auto simp: reach_def)
  show ?thesis
  proof (cases "pr_rows p < reach T m c")
    case False
    then show ?thesis
      using assms(5) by (simp add: p'_def take_match_def av max_def)
  next
    case True
    define q where "q = \<lparr>pr_tokens = (pr_tokens p)[0 := seed], pr_rows = 1\<rparr>"
    have p': "p' = copy_rows s (int c + 1) (reach T m c) q"
      using True by (simp add: p'_def take_match_def Let_def av q_def)
    have spec: "pr_rows p' = reach T m c" "length (pr_tokens p') = 8"
      "\<forall>i < reach T m c. pr_tokens p' ! i =
         (if i < 1 then seed else token_at s (int c + 1 + int (i - 1)))"
      using copy_rows_spec [of "int c + 1" "reach T m c" q s] r e assms(5)
      unfolding p' by (auto simp: q_def)
    have "pr_tokens p' ! i = T ! (c + i)" if "i < reach T m c" for i
    proof (cases "i = 0")
      case True
      then show ?thesis
        using spec(3) that c(3) by simp
    next
      case False
      then have "int c + 1 + int (i - 1) = int (c + i)"
        by simp
      then show ?thesis
        using spec(3) that False token_at_nth [OF assms(1), of "c + i"] c r(3) by simp
    qed
    then show ?thesis
      using spec True by simp
  qed
qed

text \<open>A proposal is either empty or the tokens from an occurrence of the key on.\<close>

definition continuation :: "nat \<Rightarrow> int list \<Rightarrow> int \<Rightarrow> nat \<Rightarrow> proposal \<Rightarrow> bool" where
  "continuation k T seed m p \<longleftrightarrow> length (pr_tokens p) = 8 \<and>
     (pr_rows p = 0 \<or> 2 \<le> pr_rows p \<and> pr_rows p \<le> m \<and>
      (\<exists>c. occurrence k T seed c \<and> c + pr_rows p \<le> length T \<and>
         take (pr_rows p) (pr_tokens p) = take (pr_rows p) (drop c T)))"

lemma take_match_continuation:
  assumes "proposer_rep s T" "occurrence (key_tokens s) T seed c" "2 \<le> m" "m \<le> 8"
    and "continuation (key_tokens s) T seed m p"
  shows "continuation (key_tokens s) T seed m (take_match s seed m (int c) p)"
proof -
  let ?p = "take_match s seed m (int c) p"
  have "length (pr_tokens p) = 8"
    using assms(5) by (simp add: continuation_def)
  note spec = take_match_spec [OF assms(1-4) this]
  have r: "2 \<le> reach T m c" "reach T m c \<le> m" "c + reach T m c \<le> length T" "reach T m c \<le> 8"
    using assms(2-4) by (auto simp: occurrence_def reach_def)
  show ?thesis
  proof (cases "?p = p")
    case False
    then have p: "pr_rows ?p = reach T m c" "\<forall>i < reach T m c. pr_tokens ?p ! i = T ! (c + i)"
      using spec by auto
    have "take (pr_rows ?p) (pr_tokens ?p) = take (pr_rows ?p) (drop c T)"
      using p r spec by (intro nth_equalityI) auto
    then show ?thesis
      using spec p(1) r assms(2) unfolding continuation_def by auto
  qed (use assms(5) in simp)
qed

lemma cursor_occurrence:
  assumes rep: "proposer_rep s T" and enough: "key_tokens s - 1 \<le> length T"
    and "\<not> cursor < oldest s + int (key_tokens s - 1)"
  shows "\<exists>c. cursor = int c \<and>
    (key_matches s seed cursor \<longleftrightarrow> occurrence (key_tokens s) T seed c)"
proof -
  have "cursor = int (nat cursor)" "length T - capacity + (key_tokens s - 1) \<le> nat cursor"
    using assms(3) oldest_nat [OF rep] by auto
  then show ?thesis
    using key_matches_iff [OF rep _ enough] by metis
qed

lemma visit_continuation:
  assumes rep: "proposer_rep s T" and enough: "key_tokens s - 1 \<le> length T" and m: "2 \<le> m" "m \<le> 8"
  shows "continuation (key_tokens s) T seed m p \<Longrightarrow>
    continuation (key_tokens s) T seed m (visit n s seed m cursor p)"
proof (induction n arbitrary: cursor p)
  case (Suc n)
  show ?case
  proof (cases "cursor < oldest s + int (key_tokens s - 1)")
    case False
    obtain c where c: "cursor = int c"
      "key_matches s seed cursor \<longleftrightarrow> occurrence (key_tokens s) T seed c"
      using cursor_occurrence [OF rep enough False] by blast
    then show ?thesis
      using Suc take_match_continuation [OF rep _ m Suc.prems, of c] by (simp add: Let_def)
  qed (use Suc.prems in simp)
qed simp

lemma visit_rows_mono:
  assumes rep: "proposer_rep s T" and enough: "key_tokens s - 1 \<le> length T" and m: "2 \<le> m" "m \<le> 8"
  shows "length (pr_tokens p) = 8 \<Longrightarrow> pr_rows p \<le> pr_rows (visit n s seed m cursor p)"
proof (induction n arbitrary: cursor p)
  case (Suc n)
  show ?case
  proof (cases "cursor < oldest s + int (key_tokens s - 1)")
    case False
    obtain c where c: "cursor = int c"
      "key_matches s seed cursor \<longleftrightarrow> occurrence (key_tokens s) T seed c"
      using cursor_occurrence [OF rep enough False] by blast
    show ?thesis
    proof (cases "key_matches s seed cursor")
      case True
      then have spec: "length (pr_tokens (take_match s seed m cursor p)) = 8"
        "pr_rows p \<le> pr_rows (take_match s seed m cursor p)"
        using take_match_spec [OF rep _ m Suc.prems, of seed c] c by auto
      show ?thesis
        using True spec(2) Suc.IH [OF spec(1), of "snd (entries s ! nat (cursor mod int capacity))"]
        by (auto simp: Let_def)
    next
      case False
      then show ?thesis
        using Suc by (simp add: Let_def)
    qed
  qed simp
qed simp

text \<open>The later indexed positions of a bucket, which the search visits first.\<close>

definition later :: "int list \<Rightarrow> nat \<Rightarrow> nat \<Rightarrow> nat \<Rightarrow> nat \<Rightarrow> nat set" where
  "later T k b c n = {q. c < q \<and> q < n \<and> k - 1 \<le> q \<and> token_bucket (T ! q) = b}"

lemma later_step:
  assumes "c < n" "k - 1 \<le> c" "last_pos T k b n = int q" "c < q"
  shows "card (later T k b c n) = Suc (card (later T k b c q))"
proof -
  have q: "q < n" "k - 1 \<le> q" "token_bucket (T ! q) = b"
    using last_pos_less [of T k b n] last_pos_bucket [of T k b n] assms(3) by auto
  have "r \<le> q" if "r < n" "k - 1 \<le> r" "token_bucket (T ! r) = b" for r
    using last_pos_ge [OF that] assms(3) by simp
  then have "later T k b c n = insert q (later T k b c q)"
    using q assms(4) by (auto simp: later_def order.strict_iff_order)
  moreover have "q \<notin> later T k b c q" "finite (later T k b c q)"
    by (auto simp: later_def)
  ultimately show ?thesis
    by simp
qed

lemma visit_finds:
  assumes rep: "proposer_rep s T" and enough: "key_tokens s - 1 \<le> length T" and m: "2 \<le> m" "m \<le> 8"
    and c: "occurrence (key_tokens s) T seed c" "c < n" "n \<le> length T"
    and few: "card (later T (key_tokens s) (token_bucket seed) c n) < f"
    and p: "length (pr_tokens p) = 8"
  shows "reach T m c \<le>
    pr_rows (visit f s seed m (last_pos T (key_tokens s) (token_bucket seed) n) p)"
  using c few p
proof (induction f arbitrary: n p)
  case (Suc f)
  let ?k = "key_tokens s" and ?b = "token_bucket seed"
  have ck: "?k - 1 \<le> c" "token_bucket (T ! c) = ?b" "length T - capacity + (?k - 1) \<le> c"
    using Suc.prems(1) by (auto simp: occurrence_def)
  have "int c \<le> last_pos T ?k ?b n"
    using Suc.prems(2) ck by (intro last_pos_ge)
  then obtain q where q: "last_pos T ?k ?b n = int q" "c \<le> q"
    by (metis int_nat_eq nat_int of_nat_0_le_iff order_trans zle_int)
  have qb: "q < n" "?k - 1 \<le> q" "token_bucket (T ! q) = ?b"
    using last_pos_less [of T ?k ?b n] last_pos_bucket [of T ?k ?b n] q by auto
  have go: "\<not> int q < oldest s + int (?k - 1)"
    using ck(3) q(2) oldest_nat [OF rep] by linarith
  have "q < length T" "length T \<le> q + capacity"
    using qb(1) Suc.prems(3) ck(3) q(2) by linarith+
  then have entry: "entries s ! nat (int q mod int capacity) = (int q, last_pos T ?k ?b q)"
    using rep qb by (simp add: proposer_rep_def)
  have match: "key_matches s seed (int q) \<longleftrightarrow> occurrence ?k T seed q"
    using key_matches_iff [OF rep _ enough, of q seed] ck(3) q(2) by simp
  define p' where "p' = (if key_matches s seed (int q) then take_match s seed m (int q) p else p)"
  have p': "length (pr_tokens p') = 8" "occurrence ?k T seed q \<Longrightarrow> reach T m q \<le> pr_rows p'"
    using take_match_spec [OF rep _ m Suc.prems(5), of seed q] match Suc.prems(5)
    by (auto simp: p'_def)
  have step: "visit (Suc f) s seed m (int q) p =
      (if key_matches s seed (int q) \<and> pr_rows p < pr_rows p' \<and> pr_rows p' = m then p'
       else visit f s seed m (last_pos T ?k ?b q) p')"
    using go entry by (simp add: Let_def p'_def)
  show ?case
  proof (cases "q = c")
    case True
    then have "reach T m c \<le> pr_rows p'"
      using p'(2) Suc.prems(1) by simp
    then show ?thesis
      unfolding q step using visit_rows_mono [OF rep enough m p'(1), where seed = seed and n = f
          and cursor = "last_pos T ?k ?b q"]
      by (auto intro: order_trans)
  next
    case False
    then have "card (later T ?k ?b c q) < f"
      using later_step [OF Suc.prems(2) ck(1) q(1)] q(2) Suc.prems(4) by simp
    then have "reach T m c \<le> pr_rows (visit f s seed m (last_pos T ?k ?b q) p')"
      using Suc.prems(1,3) q(2) False qb(1) p'(1) by (intro Suc.IH) auto
    moreover have "reach T m c \<le> m"
      by (simp add: reach_def)
    ultimately show ?thesis
      unfolding q step by auto
  qed
qed simp

text \<open>
  C22. Proposals are sound and complete within the search bound. After any accepted appends to a new
  proposer, a valid call returns; the result is empty or at least two and at most \<open>m\<close> rows copied from
  a retained occurrence of the key (the seed preceded by the last tokens of the history); and for every
  occurrence with fewer than 64 later indexed positions in its bucket, the result is at least as long
  as the continuation available there.
\<close>

theorem proposal_sound_and_complete:
  assumes "proposer_new k = Inr s0" "append_all tss s0 = Inr s" "T = concat tss"
    and "0 \<le> seed" "seed < 248320" "2 \<le> m" "m \<le> 8"
  shows "\<exists>p. propose seed m s = Inr p \<and> continuation k T seed m p \<and>
    (\<forall>c. occurrence k T seed c \<and> card (later T k (token_bucket seed) c (length T)) < 64 \<longrightarrow>
       min m (length T - c) \<le> pr_rows p)"
proof -
  have rep: "proposer_rep s T" and k: "key_tokens s = k"
    using append_all_rep [OF _ assms(2), of "[]"] proposer_new_rep [OF assms(1)] assms(3) by auto
  have "2 \<le> k"
    using rep k by (simp add: proposer_rep_def)
  have e: "end_pos s = int (length T)"
    using rep by (simp add: proposer_rep_def)
  have empty: "continuation k T seed m empty_proposal"
    by (simp add: continuation_def empty_proposal_def)
  show ?thesis
  proof (cases "end_pos s < int k - 1")
    case True
    then have "propose seed m s = Inr empty_proposal" "\<not> occurrence k T seed c" for c
      using assms(4-7) k e by (auto simp: propose_def occurrence_def)
    then show ?thesis
      using empty by blast
  next
    case False
    then have enough: "key_tokens s - 1 \<le> length T"
      using k e by simp
    define p where "p = visit 64 s seed m (last_pos T k (token_bucket seed) (length T)) empty_proposal"
    have "propose seed m s = Inr p"
      using False assms(4-7) k rep by (simp add: propose_def p_def proposer_rep_def)
    moreover have "continuation k T seed m p"
      using visit_continuation [OF rep enough assms(6,7)] empty by (simp add: p_def k)
    moreover have "min m (length T - c) \<le> pr_rows p"
      if "occurrence k T seed c" "card (later T k (token_bucket seed) c (length T)) < 64" for c
    proof -
      have "c < length T"
        using that(1) by (auto simp: occurrence_def)
      then show ?thesis
        using visit_finds [OF rep enough assms(6,7), of seed c "length T" 64 empty_proposal] that
        by (simp add: k p_def reach_def empty_proposal_def)
    qed
    ultimately show ?thesis
      by blast
  qed
qed

theorem proposal_sound_and_complete_witness:
  "\<exists>s0 s p. proposer_new 2 = Inr s0 \<and> append_all [[5, 6], [7, 5]] s0 = Inr s \<and>
     propose 6 4 s = Inr p \<and> 3 \<le> pr_rows p \<and> continuation 2 [5, 6, 7, 5] 6 4 p"
proof -
  obtain s0 where s0: "proposer_new 2 = Inr s0" "end_pos s0 = 0"
    by (simp add: proposer_new_def proposer_reset_def)
  have "end_pos (append_token t x) = end_pos x + 1" for t x
    by (simp add: append_token_def Let_def)
  then obtain s where s: "append_all [[5, 6], [7, 5]] s0 = Inr s"
    using s0(2) by (simp add: suffix_append_def INT64_MAX_def)
  have c: "occurrence 2 (concat [[5, 6], [7, 5]]) 6 1"
  proof -
    have "j = 1" if "1 \<le> j" "j < (2 :: nat)" for j
      using that by simp
    then show ?thesis
      by (auto simp: occurrence_def capacity_def)
  qed
  have "\<not> (1 < q \<and> q < 4 \<and> token_bucket (concat [[5, 6], [7, 5]] ! q) = token_bucket 6)" for q
  proof
    assume q: "1 < q \<and> q < 4 \<and> token_bucket (concat [[5, 6], [7, 5]] ! q) = token_bucket 6"
    then consider "q = 2" | "q = 3"
      by linarith
    then show False
      using q by cases (simp_all add: token_bucket_def)
  qed
  then have "later (concat [[5, 6], [7, 5]]) 2 (token_bucket 6) 1 4 = {}"
    unfolding later_def by blast
  then have few: "card (later (concat [[5, 6], [7, 5]]) 2 (token_bucket 6) 1
      (length (concat [[5, 6], [7, 5 :: int]]))) < 64"
    by (simp add: eval_nat_numeral)
  obtain p where p: "propose 6 4 s = Inr p" "continuation 2 (concat [[5, 6], [7, 5]]) 6 4 p"
    "min 4 (length (concat [[5, 6], [7, 5 :: int]]) - 1) \<le> pr_rows p"
    using proposal_sound_and_complete [OF s0(1) s refl, of 6 4] c few by auto
  then have "3 \<le> pr_rows p" "continuation 2 [5, 6, 7, 5] 6 4 p"
    by simp_all
  then show ?thesis
    using s0(1) s p(1) by blast
qed

end
