(* ===== verification/Tool_Calls.thy ===== *)
theory Tool_Calls
  imports Voidinfer_Prelude
begin

text \<open>
  Model of \<open>src/serve/tool_call_parser.cpp\<close>: the parser of the Qwen tool-call format and the stream
  filter that publishes text while a response is generated. Texts are byte strings. \<open>std::isspace\<close> and
  \<open>std::isalnum\<close> are those of the "C" locale.

  The JSON library is a parameter: \<open>json_parse\<close> (None for a discarded value), \<open>json_string\<close> (the JSON
  value of a raw string) and \<open>json_dump\<close> (of the object that holds the arguments; the exception
  that \<open>dump\<close> throws on invalid UTF-8 is not modelled). The identifiers that
  \<open>new_tool_call_id\<close> draws at random are the argument \<open>ids\<close>, the n-th call getting \<open>ids n\<close>.

  The theorems: whatever the chunks, the streamed text equals the content of the parsed output; and
  the parser returns either the text unchanged or a nonempty list of well-named calls.
\<close>

section \<open>Text helpers\<close>

definition is_space :: "char \<Rightarrow> bool" where
  "is_space c \<longleftrightarrow> of_char c = (32 :: nat) \<or> (9 \<le> (of_char c :: nat) \<and> (of_char c :: nat) \<le> 13)"

definition is_alnum :: "char \<Rightarrow> bool" where
  "is_alnum c \<longleftrightarrow> (let n = (of_char c :: nat) in
     (48 \<le> n \<and> n \<le> 57) \<or> (65 \<le> n \<and> n \<le> 90) \<or> (97 \<le> n \<and> n \<le> 122))"

definition rtrim_ascii :: "string \<Rightarrow> string" where
  "rtrim_ascii text = rev (dropWhile is_space (rev text))"

definition trim_ascii :: "string \<Rightarrow> string" where
  "trim_ascii text = rtrim_ascii (dropWhile is_space text)"

definition skip_ws :: "string \<Rightarrow> nat \<Rightarrow> nat" where
  "skip_ws text pos = pos + length (takeWhile is_space (drop pos text))"

definition starts_with_at :: "string \<Rightarrow> nat \<Rightarrow> string \<Rightarrow> bool" where
  "starts_with_at text pos pre \<longleftrightarrow> pos \<le> length text \<and> take (length pre) (drop pos text) = pre"

text \<open>\<open>std::string_view::find\<close>: the first occurrence of a pattern from a position on.\<close>

fun find_sub :: "string \<Rightarrow> string \<Rightarrow> nat option" where
  "find_sub pat [] = (if pat = [] then Some 0 else None)"
| "find_sub pat (c # cs) =
     (if take (length pat) (c # cs) = pat then Some 0 else map_option Suc (find_sub pat cs))"

definition find_from :: "string \<Rightarrow> string \<Rightarrow> nat \<Rightarrow> nat option" where
  "find_from text pat pos =
     (if length text < pos then None else map_option (\<lambda>i. pos + i) (find_sub pat (drop pos text)))"

definition substr :: "string \<Rightarrow> nat \<Rightarrow> nat \<Rightarrow> string" where
  "substr text pos n = take n (drop pos text)"

definition valid_function_name :: "string \<Rightarrow> nat \<Rightarrow> bool" where
  "valid_function_name name max_name_length \<longleftrightarrow> name \<noteq> [] \<and> length name \<le> max_name_length \<and>
     list_all (\<lambda>c. is_alnum c \<or> c = CHR ''_'' \<or> c = CHR ''-'') name"

section \<open>The parser\<close>

record tool_call =
  tc_id :: string
  tc_name :: string
  tc_arguments_json :: string

record parsed_output =
  is_tool_call_response :: bool
  content :: string
  tool_calls :: "tool_call list"

definition kParamOpen :: string where "kParamOpen = ''<parameter=''"
definition kParamClose :: string where "kParamClose = ''</parameter>''"
definition kFunctionOpen :: string where "kFunctionOpen = ''<function=''"
definition kFunctionClose :: string where "kFunctionClose = ''</function>''"
definition kToolOpen :: string where "kToolOpen = ''<tool_call>''"
definition kToolClose :: string where "kToolClose = ''</tool_call>''"

record 'j json_ops =
  json_parse :: "string \<Rightarrow> 'j option"
  json_string :: "string \<Rightarrow> 'j"
  json_dump :: "(string \<rightharpoonup> 'j) \<Rightarrow> string"

definition parse_parameter ::
    "'j json_ops \<Rightarrow> string \<Rightarrow> nat \<Rightarrow> (string \<rightharpoonup> 'j) \<Rightarrow> (nat \<times> (string \<rightharpoonup> 'j)) option" where
  "parse_parameter J inner pos args =
     (if \<not> starts_with_at inner pos kParamOpen then None
      else let name_begin = pos + length kParamOpen in
        case find_from inner ''>'' name_begin of
          None \<Rightarrow> None
        | Some name_end \<Rightarrow>
            if name_end = name_begin then None
            else let key = substr inner name_begin (name_end - name_begin);
                     pos' = name_end + 1
              in case find_from inner kParamClose pos' of
                   None \<Rightarrow> None
                 | Some value_end \<Rightarrow>
                     let raw = trim_ascii (substr inner pos' (value_end - pos'));
                         v = (case json_parse J raw of None \<Rightarrow> json_string J raw | Some j \<Rightarrow> j)
                     in Some (value_end + length kParamClose, args(key \<mapsto> v)))"

lemma find_from_SomeD: "find_from text pat pos = Some i \<Longrightarrow> pos \<le> i"
  by (auto simp: find_from_def split: if_splits)

lemma parse_parameter_progress:
  "parse_parameter J inner pos args = Some (pos', args') \<Longrightarrow> pos < pos'"
  by (auto simp: parse_parameter_def Let_def kParamOpen_def kParamClose_def
      dest!: find_from_SomeD split: if_splits option.splits)

lemma skip_ws_le: "pos \<le> skip_ws text pos"
  by (simp add: skip_ws_def)

function parse_parameters ::
    "'j json_ops \<Rightarrow> string \<Rightarrow> nat \<Rightarrow> (string \<rightharpoonup> 'j) \<Rightarrow> (string \<rightharpoonup> 'j) option" where
  "parse_parameters J params pos args =
     (let p = skip_ws params pos in
      if length params \<le> p then Some args
      else case parse_parameter J params p args of
        None \<Rightarrow> None
      | Some (p', args') \<Rightarrow> parse_parameters J params p' args')"
  by auto
termination
proof (relation "measure (\<lambda>(_, params, pos, _). length params - pos)", goal_cases)
  case (2 J params pos args p v p' args')
  then have "pos \<le> p" "p < length params" "p < p'"
    using skip_ws_le [of pos params] parse_parameter_progress [of J params p args p' args'] by simp_all
  then show ?case by simp
qed simp

declare parse_parameters.simps [simp del]

definition parse_one_tool_call ::
    "'j json_ops \<Rightarrow> string \<Rightarrow> string \<Rightarrow> nat \<Rightarrow> tool_call option" where
  "parse_one_tool_call J new_id block max_name_length =
     (let pos = skip_ws block 0 in
      if \<not> starts_with_at block pos kFunctionOpen then None
      else let name_begin = pos + length kFunctionOpen in
        case find_from block ''>'' name_begin of
          None \<Rightarrow> None
        | Some name_end \<Rightarrow>
            if name_end = name_begin then None
            else let name = substr block name_begin (name_end - name_begin) in
              if \<not> valid_function_name name max_name_length then None
              else let pos' = name_end + 1 in
                case find_from block kFunctionClose pos' of
                  None \<Rightarrow> None
                | Some function_end \<Rightarrow>
                    (case parse_parameters J (substr block pos' (function_end - pos')) 0 Map.empty of
                       None \<Rightarrow> None
                     | Some args \<Rightarrow>
                         if skip_ws block (function_end + length kFunctionClose) \<noteq> length block then None
                         else Some \<lparr>tc_id = new_id, tc_name = name, tc_arguments_json = json_dump J args\<rparr>))"

definition fallback :: "string \<Rightarrow> parsed_output" where
  "fallback text = \<lparr>is_tool_call_response = False, content = text, tool_calls = []\<rparr>"

text \<open>The loop over the tool-call blocks; \<open>None\<close> is the return of the fallback.\<close>

function parse_blocks ::
    "'j json_ops \<Rightarrow> (nat \<Rightarrow> string) \<Rightarrow> string \<Rightarrow> nat \<Rightarrow> nat \<Rightarrow> tool_call list \<Rightarrow> tool_call list option" where
  "parse_blocks J ids text max_name_length pos calls =
     (if length text \<le> pos then Some calls
      else let p = skip_ws text pos in
        if length text \<le> p then Some calls
        else if \<not> starts_with_at text p kToolOpen then None
        else let inner_begin = p + length kToolOpen in
          case find_from text kToolClose inner_begin of
            None \<Rightarrow> None
          | Some close \<Rightarrow>
              (case parse_one_tool_call J (ids (length calls))
                  (substr text inner_begin (close - inner_begin)) max_name_length of
                 None \<Rightarrow> None
               | Some call \<Rightarrow>
                   parse_blocks J ids text max_name_length (close + length kToolClose) (calls @ [call])))"
  by auto
termination
proof (relation "measure (\<lambda>(_, _, text, _, pos, _). length text - pos)", goal_cases)
  case (2 J ids t max_name_length pos calls p inner_begin close call)
  then have "pos \<le> close" "pos < length t"
    using skip_ws_le [of pos t] find_from_SomeD [of t kToolClose inner_begin close] by simp_all
  then show ?case
    by (simp add: kToolClose_def)
qed simp

declare parse_blocks.simps [simp del]

definition parse_qwen_tool_call_output ::
    "'j json_ops \<Rightarrow> (nat \<Rightarrow> string) \<Rightarrow> string \<Rightarrow> nat \<Rightarrow> parsed_output" where
  "parse_qwen_tool_call_output J ids text max_tool_name_length =
     (case find_from text kToolOpen 0 of
        None \<Rightarrow> fallback text
      | Some first \<Rightarrow>
          (case parse_blocks J ids text max_tool_name_length first [] of
             None \<Rightarrow> fallback text
           | Some calls \<Rightarrow>
               if calls = [] then fallback text
               else \<lparr>is_tool_call_response = True, content = rtrim_ascii (take first text),
                      tool_calls = calls\<rparr>))"

section \<open>The stream filter\<close>

record stream_filter =
  trailing_whitespace :: string
  tool_region :: string
  marker_prefix_bytes :: nat
  emitted_bytes :: nat
  saw_tool_marker :: bool
  sf_finished :: bool

definition filter_init :: stream_filter where
  "filter_init = \<lparr>trailing_whitespace = [], tool_region = [], marker_prefix_bytes = 0,
     emitted_bytes = 0, saw_tool_marker = False, sf_finished = False\<rparr>"

text \<open>
  The loop over the bytes of a chunk: the rest of the chunk from \<open>index\<close> on, the filter and the text
  made visible so far. A mismatch inside the marker puts the byte back (\<open>--index\<close>) with an empty
  prefix, hence the second component of the measure.
\<close>

function feed_loop :: "string \<Rightarrow> stream_filter \<Rightarrow> string \<Rightarrow> stream_filter \<times> string" where
  "feed_loop [] f visible = (f, visible)"
| "feed_loop (byte # rest) f visible =
     (if marker_prefix_bytes f \<noteq> 0
      then if byte = kToolOpen ! marker_prefix_bytes f
           then if marker_prefix_bytes f + 1 = length kToolOpen
                then (f\<lparr>tool_region := trailing_whitespace f @ kToolOpen @ rest,
                        trailing_whitespace := [], marker_prefix_bytes := 0,
                        saw_tool_marker := True\<rparr>, visible)
                else feed_loop rest (f\<lparr>marker_prefix_bytes := marker_prefix_bytes f + 1\<rparr>) visible
           else feed_loop (byte # rest) (f\<lparr>trailing_whitespace := [], marker_prefix_bytes := 0\<rparr>)
                  (visible @ trailing_whitespace f @ take (marker_prefix_bytes f) kToolOpen)
      else if byte = hd kToolOpen
      then feed_loop rest (f\<lparr>marker_prefix_bytes := 1\<rparr>) visible
      else if is_space byte
      then feed_loop rest (f\<lparr>trailing_whitespace := trailing_whitespace f @ [byte]\<rparr>) visible
      else feed_loop rest (f\<lparr>trailing_whitespace := []\<rparr>)
             (visible @ trailing_whitespace f @ [byte]))"
  by pat_completeness auto
termination
  by (relation "measures [\<lambda>(bs, _, _). length bs, \<lambda>(_, f, _). marker_prefix_bytes f]") auto

declare feed_loop.simps(2) [simp del]

definition filter_feed :: "string \<Rightarrow> stream_filter \<Rightarrow> exn + (string \<times> stream_filter)" where
  "filter_feed text f =
     (if sf_finished f then Inl Logic_error
      else if text = [] then Inr ([], f)
      else if saw_tool_marker f then Inr ([], f\<lparr>tool_region := tool_region f @ text\<rparr>)
      else let r = feed_loop text f [] in
        Inr (snd r, (fst r)\<lparr>emitted_bytes := emitted_bytes (fst r) + length (snd r)\<rparr>))"

definition filter_finish :: "bool \<Rightarrow> stream_filter \<Rightarrow> exn + (string \<times> stream_filter)" where
  "filter_finish is_tool f =
     (if sf_finished f then Inl Logic_error
      else if is_tool
      then Inr ([], f\<lparr>sf_finished := True, trailing_whitespace := [], tool_region := [],
                   marker_prefix_bytes := 0\<rparr>)
      else let tail = trailing_whitespace f @ take (marker_prefix_bytes f) kToolOpen @ tool_region f in
        Inr (tail, f\<lparr>sf_finished := True, trailing_whitespace := [], marker_prefix_bytes := 0,
                    tool_region := [], emitted_bytes := emitted_bytes f + length tail\<rparr>))"

fun feed_all :: "string list \<Rightarrow> stream_filter \<Rightarrow> exn + (string \<times> stream_filter)" where
  "feed_all [] f = Inr ([], f)"
| "feed_all (t # ts) f = (case filter_feed t f of
     Inl e \<Rightarrow> Inl e
   | Inr (v, f') \<Rightarrow> (case feed_all ts f' of Inl e \<Rightarrow> Inl e | Inr (w, f'') \<Rightarrow> Inr (v @ w, f'')))"

section \<open>The parser's results\<close>

lemma parse_one_tool_call_name:
  "parse_one_tool_call J i block n = Some call \<Longrightarrow> valid_function_name (tc_name call) n \<and> tc_id call = i"
  by (auto simp: parse_one_tool_call_def Let_def split: if_splits option.splits)

lemma parse_blocks_names:
  assumes "parse_blocks J ids t n pos calls = Some calls'"
    and "\<forall>c \<in> set calls. valid_function_name (tc_name c) n"
  shows "\<forall>c \<in> set calls'. valid_function_name (tc_name c) n"
  using assms
proof (induction J ids t n pos calls rule: parse_blocks.induct)
  case (1 J ids t n pos calls)
  show ?case
  proof (cases "length t \<le> pos \<or> length t \<le> skip_ws t pos")
    case True
    then show ?thesis
      using 1(2,3) by (subst (asm) parse_blocks.simps) (auto simp: Let_def split: if_splits)
  next
    case False
    then obtain close call where block:
      "starts_with_at t (skip_ws t pos) kToolOpen"
      "find_from t kToolClose (skip_ws t pos + length kToolOpen) = Some close"
      "parse_one_tool_call J (ids (length calls)) (substr t (skip_ws t pos + length kToolOpen)
          (close - (skip_ws t pos + length kToolOpen))) n = Some call"
      "parse_blocks J ids t n (close + length kToolClose) (calls @ [call]) = Some calls'"
      using 1(2) by (subst (asm) parse_blocks.simps) (auto simp: Let_def split: if_splits option.splits)
    show ?thesis
      using 1(1) [OF _ refl _ _ refl block(2,3,4)] False block(1) 1(3)
        parse_one_tool_call_name [OF block(3)] by auto
  qed
qed

text \<open>
  The parser returns either the text itself, with no calls, or a tool response: then the marker
  occurs, the content is the text before its first occurrence without trailing white space, there is
  at least one call, and every call has a nonempty name of letters, digits, underscores and hyphens
  within the length limit.
\<close>

theorem parsed_output_wellformed:
  "let r = parse_qwen_tool_call_output J ids t n in
     if is_tool_call_response r
     then (\<exists>i. find_from t kToolOpen 0 = Some i \<and> content r = rtrim_ascii (take i t)) \<and>
       tool_calls r \<noteq> [] \<and> (\<forall>c \<in> set (tool_calls r). valid_function_name (tc_name c) n)
     else content r = t \<and> tool_calls r = []"
  using parse_blocks_names [of J ids t n _ "[]"]
  by (auto simp: parse_qwen_tool_call_output_def fallback_def Let_def split: option.splits)

definition sample_json :: "string json_ops" where
  "sample_json = \<lparr>json_parse = (\<lambda>_. None), json_string = id, json_dump = (\<lambda>m. case m ''q'' of
     None \<Rightarrow> [] | Some v \<Rightarrow> v)\<rparr>"

theorem parsed_output_wellformed_witness:
  "list_all (\<lambda>c. valid_function_name (tc_name c) 8)
     (tool_calls (parse_qwen_tool_call_output sample_json (\<lambda>_. ''call_1'')
        ''ok <tool_call><function=f><parameter=q> hi </parameter></function></tool_call>'' 8)) \<and>
   tool_calls (parse_qwen_tool_call_output sample_json (\<lambda>_. ''call_1'')
      ''ok <tool_call><function=f><parameter=q> hi </parameter></function></tool_call>'' 8) =
     [\<lparr>tc_id = ''call_1'', tc_name = ''f'', tc_arguments_json = ''hi''\<rparr>]"
proof -
  let ?r = "parse_qwen_tool_call_output sample_json (\<lambda>_. ''call_1'')
      ''ok <tool_call><function=f><parameter=q> hi </parameter></function></tool_call>'' 8"
  have "is_tool_call_response ?r"
    "tool_calls ?r = [\<lparr>tc_id = ''call_1'', tc_name = ''f'', tc_arguments_json = ''hi''\<rparr>]"
    by code_simp+
  then show ?thesis
    using parsed_output_wellformed [of sample_json "\<lambda>_. ''call_1''"
        "''ok <tool_call><function=f><parameter=q> hi </parameter></function></tool_call>''" 8]
    by (auto simp: Let_def list_all_iff)
qed

section \<open>The stream filter agrees with the parser\<close>

lemma length_kToolOpen: "length kToolOpen = 11"
  by (simp add: kToolOpen_def)

lemma marker_start: "hd kToolOpen = CHR ''<''" "kToolOpen ! 0 = CHR ''<''"
  by (simp_all add: kToolOpen_def)

lemma marker_inner: "0 < k \<Longrightarrow> k < 11 \<Longrightarrow> kToolOpen ! k \<noteq> CHR ''<''"
proof -
  have "list_all (\<lambda>k. kToolOpen ! k \<noteq> CHR ''<'') [1..<11]"
    by code_simp
  then show "0 < k \<Longrightarrow> k < 11 \<Longrightarrow> kToolOpen ! k \<noteq> CHR ''<''"
    by (simp add: list_all_iff)
qed

lemma marker_no_space: "c \<in> set kToolOpen \<Longrightarrow> \<not> is_space c"
proof -
  have "list_all (\<lambda>c. \<not> is_space c) kToolOpen"
    by code_simp
  then show "c \<in> set kToolOpen \<Longrightarrow> \<not> is_space c"
    by (simp add: list_all_iff)
qed

lemma rtrim_spaces:
  assumes "list_all is_space ws" "em = [] \<or> \<not> is_space (last em)"
  shows "rtrim_ascii (em @ ws) = em"
proof -
  have "dropWhile is_space (rev ws @ rev em) = dropWhile is_space (rev em)"
    using assms(1) by (subst dropWhile_append2) (auto simp: list_all_iff)
  moreover have "dropWhile is_space (rev em) = rev em"
    using assms(2) by (cases em rule: rev_cases) auto
  ultimately show ?thesis
    by (simp add: rtrim_ascii_def)
qed

text \<open>The marker cannot start at \<open>i\<close>, whatever follows the text.\<close>

definition mismatch :: "nat \<Rightarrow> string \<Rightarrow> bool" where
  "mismatch i t \<longleftrightarrow> (\<exists>k < 11. i + k < length t \<and> t ! (i + k) \<noteq> kToolOpen ! k)"

lemma mismatch_append: "mismatch i t \<Longrightarrow> mismatch i (t @ u)"
  by (auto simp: mismatch_def nth_append)

lemma mismatch_no_marker:
  assumes "mismatch i t"
  shows "take 11 (drop i t) \<noteq> kToolOpen"
proof
  assume eq: "take 11 (drop i t) = kToolOpen"
  obtain k where "k < 11" "i + k < length t" "t ! (i + k) \<noteq> kToolOpen ! k"
    using assms by (auto simp: mismatch_def)
  moreover have "take 11 (drop i t) ! k = t ! (i + k)"
    using calculation by simp
  ultimately show False
    by (simp add: eq)
qed

lemma find_sub_SomeI:
  "i \<le> length t \<Longrightarrow> take (length pat) (drop i t) = pat \<Longrightarrow>
   (\<And>j. j < i \<Longrightarrow> take (length pat) (drop j t) \<noteq> pat) \<Longrightarrow> find_sub pat t = Some i"
proof (induction t arbitrary: i)
  case (Cons c cs)
  show ?case
  proof (cases i)
    case 0
    then show ?thesis
      using Cons.prems by simp
  next
    case (Suc k)
    have "find_sub pat cs = Some k"
    proof (rule Cons.IH)
      show "take (length pat) (drop j cs) \<noteq> pat" if "j < k" for j
        using Cons.prems(3) [of "Suc j"] that Suc by simp
    qed (use Cons.prems Suc in simp_all)
    moreover have "take (length pat) (c # cs) \<noteq> pat"
      using Cons.prems(3) [of 0] Suc by simp
    ultimately show ?thesis
      using Suc by simp
  qed
qed auto

lemma find_sub_NoneI:
  "(\<And>j. j \<le> length t \<Longrightarrow> take (length pat) (drop j t) \<noteq> pat) \<Longrightarrow> find_sub pat t = None"
proof (induction t)
  case (Cons c cs)
  have "find_sub pat cs = None"
  proof (rule Cons.IH)
    show "take (length pat) (drop j cs) \<noteq> pat" if "j \<le> length cs" for j
      using Cons.prems [of "Suc j"] that by simp
  qed
  then show ?case
    using Cons.prems [of 0] by simp
qed auto

text \<open>
  The two phases of the filter after the bytes \<open>S\<close>, of which \<open>em\<close> has been made visible: before the
  marker, everything else is pending (white space and a proper prefix of the marker), and the bytes
  before that prefix do not start a marker even when \<open>bs\<close> follows; after it, the region holds the rest.
\<close>

definition scanning :: "stream_filter \<Rightarrow> string \<Rightarrow> string \<Rightarrow> string \<Rightarrow> bool" where
  "scanning f S em bs \<longleftrightarrow> \<not> saw_tool_marker f \<and> \<not> sf_finished f \<and> tool_region f = [] \<and>
     marker_prefix_bytes f < 11 \<and>
     S = em @ trailing_whitespace f @ take (marker_prefix_bytes f) kToolOpen \<and>
     list_all is_space (trailing_whitespace f) \<and> (em = [] \<or> \<not> is_space (last em)) \<and>
     (\<forall>i < length em + length (trailing_whitespace f). mismatch i (S @ bs))"

definition captured :: "stream_filter \<Rightarrow> string \<Rightarrow> string \<Rightarrow> bool" where
  "captured f S em \<longleftrightarrow> saw_tool_marker f \<and> \<not> sf_finished f \<and> trailing_whitespace f = [] \<and>
     marker_prefix_bytes f = 0 \<and> em @ tool_region f = S \<and>
     (\<exists>i. i \<le> length S \<and> take 11 (drop i S) = kToolOpen \<and> (\<forall>j < i. mismatch j S) \<and>
        rtrim_ascii (take i S) = em)"

lemma mismatch_at: "i < length t \<Longrightarrow> t ! i \<noteq> CHR ''<'' \<Longrightarrow> mismatch i t"
  by (auto simp: mismatch_def marker_start intro!: exI [of _ 0])

text \<open>A put-back byte: no byte of the partial marker nor the white space before it starts a marker.\<close>

lemma broken_prefix_mismatch:
  assumes "m < 11" "byte \<noteq> kToolOpen ! m" "i < m"
  shows "mismatch (length u + i) (u @ take m kToolOpen @ byte # rest)"
proof (cases i)
  case 0
  have "(u @ take m kToolOpen @ byte # rest) ! (length u + m) = byte"
    using assms(1) by (simp add: nth_append length_kToolOpen)
  then show ?thesis
    using assms 0 by (auto simp: mismatch_def length_kToolOpen intro!: exI [of _ m])
next
  case (Suc k)
  have "(u @ take m kToolOpen @ byte # rest) ! (length u + i) = kToolOpen ! i"
    using assms by (simp add: nth_append length_kToolOpen)
  then show ?thesis
    using assms Suc marker_inner [of i] by (intro mismatch_at) (simp_all add: length_kToolOpen)
qed

lemma feed_loop_cases:
  "marker_prefix_bytes f \<noteq> 0 \<Longrightarrow> byte = kToolOpen ! marker_prefix_bytes f \<Longrightarrow>
     marker_prefix_bytes f + 1 = length kToolOpen \<Longrightarrow>
     feed_loop (byte # rest) f visible =
       (f\<lparr>tool_region := trailing_whitespace f @ kToolOpen @ rest, trailing_whitespace := [],
          marker_prefix_bytes := 0, saw_tool_marker := True\<rparr>, visible)"
  "marker_prefix_bytes f \<noteq> 0 \<Longrightarrow> byte = kToolOpen ! marker_prefix_bytes f \<Longrightarrow>
     marker_prefix_bytes f + 1 \<noteq> length kToolOpen \<Longrightarrow>
     feed_loop (byte # rest) f visible =
       feed_loop rest (f\<lparr>marker_prefix_bytes := marker_prefix_bytes f + 1\<rparr>) visible"
  "marker_prefix_bytes f \<noteq> 0 \<Longrightarrow> byte \<noteq> kToolOpen ! marker_prefix_bytes f \<Longrightarrow>
     feed_loop (byte # rest) f visible =
       feed_loop (byte # rest) (f\<lparr>trailing_whitespace := [], marker_prefix_bytes := 0\<rparr>)
         (visible @ trailing_whitespace f @ take (marker_prefix_bytes f) kToolOpen)"
  "marker_prefix_bytes f = 0 \<Longrightarrow> byte = hd kToolOpen \<Longrightarrow>
     feed_loop (byte # rest) f visible = feed_loop rest (f\<lparr>marker_prefix_bytes := 1\<rparr>) visible"
  "marker_prefix_bytes f = 0 \<Longrightarrow> byte \<noteq> hd kToolOpen \<Longrightarrow> is_space byte \<Longrightarrow>
     feed_loop (byte # rest) f visible =
       feed_loop rest (f\<lparr>trailing_whitespace := trailing_whitespace f @ [byte]\<rparr>) visible"
  "marker_prefix_bytes f = 0 \<Longrightarrow> byte \<noteq> hd kToolOpen \<Longrightarrow> \<not> is_space byte \<Longrightarrow>
     feed_loop (byte # rest) f visible =
       feed_loop rest (f\<lparr>trailing_whitespace := []\<rparr>) (visible @ trailing_whitespace f @ [byte])"
  by (subst feed_loop.simps(2), simp)+

text \<open>How the scanning phase moves on a byte that does not complete the marker.\<close>

lemma scanning_more:
  assumes "scanning f S em (byte # rest)" "byte = kToolOpen ! marker_prefix_bytes f"
    "marker_prefix_bytes f + 1 \<noteq> length kToolOpen"
  shows "scanning (f\<lparr>marker_prefix_bytes := marker_prefix_bytes f + 1\<rparr>) (S @ [byte]) em rest"
  using assms length_kToolOpen by (auto simp: scanning_def take_Suc_conv_app_nth)

lemma scanning_broken:
  assumes "scanning f S em (byte # rest)" "byte \<noteq> kToolOpen ! marker_prefix_bytes f"
    "marker_prefix_bytes f \<noteq> 0"
  shows "scanning (f\<lparr>trailing_whitespace := [], marker_prefix_bytes := 0\<rparr>) S
    (em @ trailing_whitespace f @ take (marker_prefix_bytes f) kToolOpen) (byte # rest)"
proof -
  let ?m = "marker_prefix_bytes f" and ?u = "em @ trailing_whitespace f"
  have m: "?m < 11" and S: "S = ?u @ take ?m kToolOpen"
    using assms(1) by (auto simp: scanning_def)
  have "mismatch i (S @ byte # rest)" if "i < length (?u @ take ?m kToolOpen)" for i
  proof (cases "i < length ?u")
    case True
    then show ?thesis
      using assms(1) unfolding scanning_def by (metis length_append)
  next
    case False
    then show ?thesis
      using broken_prefix_mismatch [OF m assms(2), of "i - length ?u" ?u rest] that m
      by (simp add: S length_kToolOpen)
  qed
  moreover have "\<not> is_space (last (take ?m kToolOpen))"
    using assms(3) length_kToolOpen
    by (intro marker_no_space in_set_takeD [OF last_in_set]) (auto simp: take_eq_Nil)
  moreover have "take ?m kToolOpen \<noteq> []"
    using assms(3) length_kToolOpen by auto
  ultimately show ?thesis
    using assms(1) by (auto simp: scanning_def)
qed

lemma scanning_white:
  assumes "scanning f S em (byte # rest)" "marker_prefix_bytes f = 0" "is_space byte"
  shows "scanning (f\<lparr>trailing_whitespace := trailing_whitespace f @ [byte]\<rparr>) (S @ [byte]) em rest"
proof -
  have "byte \<noteq> CHR ''<''"
    using assms(3) by (auto simp: is_space_def)
  then have "mismatch (length S) (S @ byte # rest)"
    by (intro mismatch_at) auto
  then show ?thesis
    using assms by (auto simp: scanning_def less_Suc_eq)
qed

lemma scanning_plain:
  assumes "scanning f S em (byte # rest)" "marker_prefix_bytes f = 0" "byte \<noteq> hd kToolOpen"
    "\<not> is_space byte"
  shows "scanning (f\<lparr>trailing_whitespace := []\<rparr>) (S @ [byte]) (em @ trailing_whitespace f @ [byte]) rest"
proof -
  have "mismatch (length S) (S @ byte # rest)"
    using assms(3) by (intro mismatch_at) (auto simp: marker_start)
  then show ?thesis
    using assms by (auto simp: scanning_def less_Suc_eq)
qed

lemma captured_here:
  assumes "scanning f S em (byte # rest)" "byte = kToolOpen ! marker_prefix_bytes f"
    "marker_prefix_bytes f + 1 = length kToolOpen"
  shows "captured (f\<lparr>tool_region := trailing_whitespace f @ kToolOpen @ rest,
    trailing_whitespace := [], marker_prefix_bytes := 0, saw_tool_marker := True\<rparr>) (S @ byte # rest) em"
proof -
  let ?w = "trailing_whitespace f" and ?m = "marker_prefix_bytes f"
  have "take ?m kToolOpen @ [byte] = kToolOpen"
    using assms(2,3) by (simp add: take_Suc_conv_app_nth [symmetric])
  then have split: "S @ byte # rest = em @ ?w @ kToolOpen @ rest"
    using assms(1) by (auto simp: scanning_def)
  have "rtrim_ascii (em @ ?w) = em"
    using assms(1) by (intro rtrim_spaces) (auto simp: scanning_def)
  moreover have "mismatch j (em @ ?w @ kToolOpen @ rest)" if "j < length em + length ?w" for j
    using assms(1) that unfolding split [symmetric] scanning_def by metis
  moreover have "take 11 (kToolOpen @ rest) = kToolOpen"
    by (simp add: length_kToolOpen)
  ultimately show ?thesis
    using assms(1) unfolding captured_def split
    by (intro conjI exI [of _ "length em + length ?w"]) (simp_all add: scanning_def)
qed

lemma feed_loop_phases:
  assumes "scanning f S (em @ visible) bs" "feed_loop bs f visible = (f', visible')"
  shows "emitted_bytes f' = emitted_bytes f \<and>
    (scanning f' (S @ bs) (em @ visible') [] \<or> captured f' (S @ bs) (em @ visible'))"
  using assms
proof (induction bs f visible arbitrary: S rule: feed_loop.induct)
  case (1 f visible)
  then show ?case by simp
next
  case (2 byte rest f visible)
  note sc = 2(6) and run = 2(7)
  let ?m = "marker_prefix_bytes f"
  consider (complete) "?m \<noteq> 0" "byte = kToolOpen ! ?m" "?m + 1 = length kToolOpen"
    | (more) "?m \<noteq> 0" "byte = kToolOpen ! ?m" "?m + 1 \<noteq> length kToolOpen"
    | (broken) "?m \<noteq> 0" "byte \<noteq> kToolOpen ! ?m"
    | (start) "?m = 0" "byte = hd kToolOpen"
    | (white) "?m = 0" "byte \<noteq> hd kToolOpen" "is_space byte"
    | (plain) "?m = 0" "byte \<noteq> hd kToolOpen" "\<not> is_space byte"
    by blast
  then show ?case
  proof cases
    case complete
    then show ?thesis
      using run captured_here [OF sc] by (auto simp: feed_loop_cases(1))
  next
    case more
    show ?thesis
      using 2(1) [OF more scanning_more [OF sc more(2,3)]] run by (simp add: feed_loop_cases(2) [OF more])
  next
    case broken
    show ?thesis
      using 2(2) [OF broken, of S] scanning_broken [OF sc broken(2,1)] run
      by (simp add: feed_loop_cases(3) [OF broken])
  next
    case start
    have "scanning (f\<lparr>marker_prefix_bytes := 1\<rparr>) (S @ [byte]) (em @ visible) rest"
      using scanning_more [OF sc] start by (simp add: marker_start length_kToolOpen)
    then show ?thesis
      using 2(3) [OF _ start(2), of "S @ [byte]"] start(1) run feed_loop_cases(4) [OF start]
      by simp
  next
    case white
    show ?thesis
      using 2(4) [OF _ white(2,3) scanning_white [OF sc white(1,3)]] white(1) run
      by (simp add: feed_loop_cases(5) [OF white])
  next
    case plain
    show ?thesis
      using 2(5) [OF _ plain(2,3), of "S @ [byte]"] scanning_plain [OF sc plain(1,2,3)] plain(1) run
      by (simp add: feed_loop_cases(6) [OF plain])
  qed
qed

lemma phases_emitted [simp]:
  "scanning (f\<lparr>emitted_bytes := k\<rparr>) S em bs = scanning f S em bs"
  "captured (f\<lparr>emitted_bytes := k\<rparr>) S em = captured f S em"
  by (simp_all add: scanning_def captured_def)

lemma captured_more:
  assumes "captured f S em"
  shows "captured (f\<lparr>tool_region := tool_region f @ t\<rparr>) (S @ t) em"
proof -
  obtain i where i: "i \<le> length S" "take 11 (drop i S) = kToolOpen" "\<forall>j < i. mismatch j S"
      "rtrim_ascii (take i S) = em"
    using assms unfolding captured_def by blast
  have "length (take 11 (drop i S)) = 11"
    by (simp only: i(2) length_kToolOpen)
  then have "11 \<le> length S - i"
    by simp
  then have "take 11 (drop i (S @ t)) = kToolOpen"
    using i(2) by simp
  then have "i \<le> length (S @ t) \<and> take 11 (drop i (S @ t)) = kToolOpen \<and>
      (\<forall>j < i. mismatch j (S @ t)) \<and> rtrim_ascii (take i (S @ t)) = em"
    using i(1,3,4) mismatch_append by simp
  then show ?thesis
    using assms unfolding captured_def by auto
qed

lemma filter_feed_phases:
  assumes "scanning f S em [] \<or> captured f S em" "emitted_bytes f = length em"
  shows "\<exists>v f'. filter_feed t f = Inr (v, f') \<and> emitted_bytes f' = length (em @ v) \<and>
    (scanning f' (S @ t) (em @ v) [] \<or> captured f' (S @ t) (em @ v))"
proof (cases "t = []")
  case True
  then show ?thesis
    using assms by (auto simp: filter_feed_def scanning_def captured_def)
next
  case nonempty: False
  show ?thesis
    using assms(1)
  proof
    assume "captured f S em"
    then show ?thesis
      using captured_more [of f S em t] assms(2) nonempty
      by (simp add: filter_feed_def) (simp add: captured_def)
  next
    assume sc: "scanning f S em []"
    obtain g v where g: "feed_loop t f [] = (g, v)"
      by (cases "feed_loop t f []")
    have "scanning f S (em @ []) t"
      using sc mismatch_append [of _ S t] unfolding scanning_def append_Nil2 by blast
    then have "emitted_bytes g = emitted_bytes f \<and>
        (scanning g (S @ t) (em @ v) [] \<or> captured g (S @ t) (em @ v))"
      using g by (rule feed_loop_phases)
    moreover have "\<not> saw_tool_marker f" "\<not> sf_finished f"
      using sc by (simp_all add: scanning_def)
    ultimately show ?thesis
      using nonempty g assms(2) by (simp add: filter_feed_def Let_def)
  qed
qed

lemma feed_all_phases:
  assumes "scanning f S em [] \<or> captured f S em" "emitted_bytes f = length em"
  shows "\<exists>v f'. feed_all ts f = Inr (v, f') \<and> emitted_bytes f' = length (em @ v) \<and>
    (scanning f' (S @ concat ts) (em @ v) [] \<or> captured f' (S @ concat ts) (em @ v))"
  using assms
proof (induction ts arbitrary: f S em)
  case (Cons t ts)
  obtain v g where g: "filter_feed t f = Inr (v, g)" "emitted_bytes g = length (em @ v)"
      "scanning g (S @ t) (em @ v) [] \<or> captured g (S @ t) (em @ v)"
    using filter_feed_phases [OF Cons.prems] by blast
  then obtain w h where "feed_all ts g = Inr (w, h)" "emitted_bytes h = length ((em @ v) @ w)"
      "scanning h ((S @ t) @ concat ts) ((em @ v) @ w) [] \<or>
       captured h ((S @ t) @ concat ts) ((em @ v) @ w)"
    using Cons.IH [OF g(3,2)] by blast
  then show ?case
    using g(1) by auto
qed auto

text \<open>At the end of the response, the phase tells what the parser finds.\<close>

lemma scanning_no_marker:
  assumes "scanning f S em []"
  shows "find_from S kToolOpen 0 = None"
proof -
  have "take 11 (drop j S) \<noteq> kToolOpen" if "j \<le> length S" for j
  proof (cases "j < length em + length (trailing_whitespace f)")
    case True
    then show ?thesis
      using assms unfolding scanning_def by (metis append_Nil2 mismatch_no_marker)
  next
    case False
    then have "length (take 11 (drop j S)) < 11"
      using assms length_kToolOpen by (auto simp: scanning_def)
    then show ?thesis
      using length_kToolOpen by (metis less_irrefl)
  qed
  then show ?thesis
    by (auto simp: find_from_def length_kToolOpen intro!: find_sub_NoneI)
qed

lemma captured_marker:
  assumes "captured f S em"
  shows "\<exists>i. find_from S kToolOpen 0 = Some i \<and> rtrim_ascii (take i S) = em"
proof -
  obtain i where i: "i \<le> length S" "take 11 (drop i S) = kToolOpen" "\<forall>j < i. mismatch j S"
      "rtrim_ascii (take i S) = em"
    using assms unfolding captured_def by blast
  then have "find_sub kToolOpen S = Some i"
    using mismatch_no_marker by (intro find_sub_SomeI) (auto simp: length_kToolOpen)
  then show ?thesis
    using i(4) by (simp add: find_from_def)
qed

lemma phase_text:
  assumes "scanning f S em [] \<or> captured f S em"
  shows "\<not> sf_finished f \<and>
    S = em @ trailing_whitespace f @ take (marker_prefix_bytes f) kToolOpen @ tool_region f"
proof -
  have "S = em @ tool_region f \<and> trailing_whitespace f = [] \<and> marker_prefix_bytes f = 0 \<and>
      \<not> sf_finished f" if "captured f S em"
    using that unfolding captured_def by blast
  then show ?thesis
    using assms by (auto simp: scanning_def)
qed

lemma filter_finish_completes:
  assumes phase: "scanning f S em [] \<or> captured f S em" and "emitted_bytes f = length em"
    and r: "r = parse_qwen_tool_call_output J ids S n"
  shows "\<exists>tail f'. filter_finish (is_tool_call_response r) f = Inr (tail, f') \<and>
    em @ tail = content r \<and> emitted_bytes f' = length (content r)"
proof (cases "is_tool_call_response r")
  case True
  then obtain i where "find_from S kToolOpen 0 = Some i" "content r = rtrim_ascii (take i S)"
    using r by (auto simp: parse_qwen_tool_call_output_def fallback_def split: option.splits if_splits)
  then have "captured f S em" "content r = em"
    using phase scanning_no_marker captured_marker by fastforce+
  then show ?thesis
    using True assms(2) by (auto simp: filter_finish_def captured_def)
next
  case False
  then have "content r = S"
    using r by (auto simp: parse_qwen_tool_call_output_def fallback_def split: option.splits if_splits)
  then show ?thesis
    using False assms(2) phase_text [OF phase] by (auto simp: filter_finish_def Let_def)
qed

text \<open>
  C24. However the response is cut into chunks, the text the filter made visible followed by what
  \<open>finish\<close> flushes is the content of the parsed response, and \<open>emitted_bytes\<close> counts it; no call fails.
\<close>

theorem streamed_equals_parsed:
  "let r = parse_qwen_tool_call_output J ids (concat chunks) n in
   \<exists>out f tail f'. feed_all chunks filter_init = Inr (out, f) \<and>
     filter_finish (is_tool_call_response r) f = Inr (tail, f') \<and>
     out @ tail = content r \<and> emitted_bytes f' = length (content r)"
proof -
  have "scanning filter_init [] [] []" "emitted_bytes filter_init = 0"
    by (simp_all add: scanning_def filter_init_def)
  then obtain out f where f: "feed_all chunks filter_init = Inr (out, f)" "emitted_bytes f = length out"
      "scanning f (concat chunks) out [] \<or> captured f (concat chunks) out"
    using feed_all_phases [of filter_init "[]" "[]" chunks] by auto
  show ?thesis
    using f(1) filter_finish_completes [OF f(3,2) refl, of J ids n] by (auto simp: Let_def)
qed

end
