(* ===== verification/Response_Store.thy ===== *)
theory Response_Store
  imports Tool_Calls "HOL-Library.Sublist" "HOL-Library.Multiset"
begin

text \<open>
  Model of \<open>src/serve/response_store.h\<close> and \<open>src/serve/response_store.cpp\<close>: the bounded store of responses
  with its least-recently-used list and the reference counts of the context nodes shared between the
  stored responses.

  A context (a \<open>std::shared_ptr\<close> to an immutable node) is the list of its nodes from the newest to the
  root, so the parent of a context is its tail and the null context is the empty list. A node
  carries its address; two contexts are the same object exactly when the lists are equal. The sizes
  of the structures are a parameter, and so are the functions of the JSON library that the store
  calls, whose \<open>dump\<close> is taken not to throw; the code calls it before it changes the store. Failing memory
  allocations are not modelled. The mutex makes every call atomic.

  The theorems: every call keeps the accounting exact (the byte count is the sum of the envelopes
  and of the nodes reachable from a stored response, each counted once, and the reference counts
  are the numbers of references to each node); \<open>put\<close> always returns, leaves the store unchanged
  when it throws, and otherwise respects both limits by evicting the least recently used responses.
\<close>

section \<open>Structures\<close>

datatype chat_role = System | Developer | User | Assistant | Tool

datatype content_kind = Text | Image | Video | InputAudio | Unsupported

datatype source_kind = Path | Url | Data | Bytes

record media_source =
  src_kind :: source_kind
  src_value :: string
  src_media_type :: string
  src_bytes :: "u8 list"

record content_part =
  cp_kind :: content_kind
  cp_text :: string
  cp_type_raw :: string
  cp_source :: media_source

record chat_turn =
  ct_role :: chat_role
  ct_content :: "content_part list"
  ct_tool_calls :: "tool_call list"
  ct_tool_call_id :: string
  ct_reasoning_content :: string
  ct_shared_cache_boundaries :: "u32 list"
  ct_private_cache_boundary_after :: bool

text \<open>The values of \<open>sizeof\<close>.\<close>

record struct_sizes =
  size_turn :: u64
  size_part :: u64
  size_call :: u64
  size_node :: u64
  size_response :: u64
  size_json :: u64

record context_node =
  node_address :: nat
  node_turns :: "chat_turn list"
  owned_bytes :: u64
  cumulative_bytes :: u64
  cumulative_turns :: u64

type_synonym response_context = "context_node list"

record 'j stored_response =
  sr_id :: string
  sr_session_key :: string
  sr_response :: 'j
  sr_input_items :: "'j list"
  sr_context :: response_context
  sr_preserve_thinking :: bool

definition size_of :: "'a list \<Rightarrow> u64" where
  "size_of xs = of_nat (length xs)"

definition estimate_turn_bytes :: "struct_sizes \<Rightarrow> chat_turn \<Rightarrow> u64" where
  "estimate_turn_bytes z turn =
     (let bytes = size_turn z + size_of (ct_tool_call_id turn) + size_of (ct_reasoning_content turn);
          bytes = fold (\<lambda>part bytes. bytes + (size_part z + size_of (cp_text part) +
                    size_of (cp_type_raw part) + size_of (src_value (cp_source part)) +
                    size_of (src_media_type (cp_source part)) + size_of (src_bytes (cp_source part))))
                  (ct_content turn) bytes
      in fold (\<lambda>call bytes. bytes + (size_call z + size_of (tc_id call) + size_of (tc_name call) +
                size_of (tc_arguments_json call)))
              (ct_tool_calls turn) bytes)"

definition record_envelope_bytes ::
    "struct_sizes \<Rightarrow> ('j \<Rightarrow> string) \<Rightarrow> 'j stored_response \<Rightarrow> u64" where
  "record_envelope_bytes z dump r =
     fold (\<lambda>item bytes. bytes + (size_json z + size_of (dump item))) (sr_input_items r)
       (size_response z + size_of (sr_id r) + size_of (sr_session_key r) + size_of (dump (sr_response r)))"

definition checked_add :: "u64 \<Rightarrow> u64 \<Rightarrow> exn + u64" where
  "checked_add left right = (if - 1 - left < right then Inl Overflow_error else Inr (left + right))"

definition context_bytes :: "response_context \<Rightarrow> u64" where
  "context_bytes c = (case c of [] \<Rightarrow> 0 | n # _ \<Rightarrow> cumulative_bytes n)"

definition context_turns :: "response_context \<Rightarrow> u64" where
  "context_turns c = (case c of [] \<Rightarrow> 0 | n # _ \<Rightarrow> cumulative_turns n)"

text \<open>\<open>append_response_context\<close>; the address of the new node is an argument.\<close>

definition append_response_context ::
    "struct_sizes \<Rightarrow> nat \<Rightarrow> response_context \<Rightarrow> chat_turn list \<Rightarrow> exn + response_context" where
  "append_response_context z addr par turns =
     (let owned = fold (\<lambda>turn bytes. bytes + estimate_turn_bytes z turn) turns (size_node z) in
      case checked_add owned (context_bytes par) of
        Inl e \<Rightarrow> Inl e
      | Inr cb \<Rightarrow>
          (case checked_add (size_of turns) (context_turns par) of
             Inl e \<Rightarrow> Inl e
           | Inr ct \<Rightarrow>
               Inr (\<lparr>node_address = addr, node_turns = turns, owned_bytes = owned,
                     cumulative_bytes = cb, cumulative_turns = ct\<rparr> # par)))"

definition flatten_response_context :: "response_context \<Rightarrow> chat_turn list" where
  "flatten_response_context c =
     fold (\<lambda>node turns. turns @ node_turns node) (rev c) []"

section \<open>The store\<close>

record 'j entry =
  e_response :: "'j stored_response"
  e_envelope_bytes :: u64

text \<open>
  The iterator of an entry into the recency list is determined by its id, which the list holds
  once; the front of the list is the most recent.
\<close>

record 'j response_store =
  max_records :: u64
  max_bytes :: u64
  records :: "(string \<times> 'j entry) list"
  lru :: "string list"
  live_refs :: "response_context \<Rightarrow> u64 option"
  current_bytes :: u64

definition store_new :: "u64 \<Rightarrow> u64 \<Rightarrow> exn + 'j response_store" where
  "store_new max_r max_b =
     (if max_r = 0 \<or> max_b = 0 then Inl Invalid_argument
      else Inr \<lparr>max_records = max_r, max_bytes = max_b, records = [], lru = [],
                live_refs = Map.empty, current_bytes = 0\<rparr>)"

definition store_get :: "string \<Rightarrow> 'j response_store \<Rightarrow> 'j stored_response option \<times> 'j response_store" where
  "store_get rid s =
     (case map_of (records s) rid of
        None \<Rightarrow> (None, s)
      | Some e \<Rightarrow> (Some (e_response e), s\<lparr>lru := rid # remove1 rid (lru s)\<rparr>))"

text \<open>The collection of the nodes that are not live yet, and the context it stops at.\<close>

fun collect_new :: "(response_context \<Rightarrow> u64 option) \<Rightarrow> response_context \<Rightarrow> response_context list \<times> response_context" where
  "collect_new refs [] = ([], [])"
| "collect_new refs (n # c) =
     (if refs (n # c) \<noteq> None then ([], n # c)
      else case collect_new refs c of (ns, cursor) \<Rightarrow> ((n # c) # ns, cursor))"

text \<open>The rollback of the inserted nodes, newest insertion first.\<close>

definition rollback_inserted :: "response_context list \<Rightarrow> 'j response_store \<Rightarrow> 'j response_store" where
  "rollback_inserted ns s =
     fold (\<lambda>c s. s\<lparr>current_bytes := current_bytes s - owned_bytes (hd c), live_refs := (live_refs s)(c := None)\<rparr>)
       (rev ns) s"

text \<open>The insertion loop: the nodes inserted so far, in order, and the remaining ones.\<close>

fun insert_nodes ::
    "response_context list \<Rightarrow> response_context list \<Rightarrow> 'j response_store \<Rightarrow> (exn + unit) \<times> 'j response_store" where
  "insert_nodes ins [] s = (Inr (), s)"
| "insert_nodes ins (c # ns) s =
     (case checked_add (current_bytes s) (owned_bytes (hd c)) of
        Inl e \<Rightarrow> (Inl e, rollback_inserted ins s)
      | Inr next_bytes \<Rightarrow>
          if live_refs s c \<noteq> None then (Inl Logic_error, rollback_inserted ins s)
          else insert_nodes (ins @ [c]) ns
                 (s\<lparr>live_refs := (live_refs s)(c \<mapsto> 1), current_bytes := next_bytes\<rparr>))"

definition retain_context :: "response_context \<Rightarrow> 'j response_store \<Rightarrow> (exn + unit) \<times> 'j response_store" where
  "retain_context c s =
     (if c = [] then (Inr (), s)
      else case live_refs s c of
        Some k \<Rightarrow>
          if k = - 1 then (Inl Overflow_error, s)
          else (Inr (), s\<lparr>live_refs := (live_refs s)(c \<mapsto> k + 1)\<rparr>)
      | None \<Rightarrow>
          (case collect_new (live_refs s) c of
             (ns, cursor) \<Rightarrow>
               (case insert_nodes [] ns s of
                  (Inl e, s') \<Rightarrow> (Inl e, s')
                | (Inr _, s') \<Rightarrow>
                    if cursor = [] then (Inr (), s')
                    else (case live_refs s' cursor of
                            None \<Rightarrow> (Inl Logic_error, rollback_inserted ns s')
                          | Some k \<Rightarrow>
                              if k = - 1 then (Inl Overflow_error, rollback_inserted ns s')
                              else (Inr (), s'\<lparr>live_refs := (live_refs s')(cursor \<mapsto> k + 1)\<rparr>)))))"

fun release_context :: "response_context \<Rightarrow> 'j response_store \<Rightarrow> (exn + unit) \<times> 'j response_store" where
  "release_context [] s = (Inr (), s)"
| "release_context (n # c) s =
     (case live_refs s (n # c) of
        None \<Rightarrow> (Inl Logic_error, s)
      | Some k \<Rightarrow>
          if k = 0 then (Inl Logic_error, s)
          else if k \<noteq> 1 then (Inr (), s\<lparr>live_refs := (live_refs s)(n # c \<mapsto> k - 1)\<rparr>)
          else if current_bytes s < owned_bytes n then (Inl Logic_error, s)
          else release_context c
                 (s\<lparr>current_bytes := current_bytes s - owned_bytes n, live_refs := (live_refs s)(n # c := None)\<rparr>))"

definition erase_locked :: "string \<Rightarrow> 'j response_store \<Rightarrow> (exn + unit) \<times> 'j response_store" where
  "erase_locked rid s =
     (case map_of (records s) rid of
        None \<Rightarrow> (Inr (), s)
      | Some e \<Rightarrow>
          if current_bytes s < e_envelope_bytes e then (Inl Logic_error, s)
          else (case release_context (sr_context (e_response e))
                    (s\<lparr>current_bytes := current_bytes s - e_envelope_bytes e\<rparr>) of
                  (Inl x, s') \<Rightarrow> (Inl x, s')
                | (Inr _, s') \<Rightarrow>
                    (Inr (), s'\<lparr>lru := remove1 rid (lru s'), records := filter (\<lambda>r. fst r \<noteq> rid) (records s')\<rparr>)))"

definition store_erase :: "string \<Rightarrow> 'j response_store \<Rightarrow> (exn + bool) \<times> 'j response_store" where
  "store_erase rid s =
     (if map_of (records s) rid = None then (Inr False, s)
      else case erase_locked rid s of (Inl e, s') \<Rightarrow> (Inl e, s') | (Inr _, s') \<Rightarrow> (Inr True, s'))"

definition store_full :: "'j response_store \<Rightarrow> bool" where
  "store_full s \<longleftrightarrow> unat (max_records s) < length (records s) \<or> max_bytes s < current_bytes s"

text \<open>
  The eviction loop of \<open>put\<close> for the new id. A loop that does not end has the value \<open>None\<close>. The victim is the
  last id of the recency list, or the one before when the last is the new one.
\<close>

definition victim_of :: "string \<Rightarrow> string list \<Rightarrow> exn + string" where
  "victim_of rid ids =
     (if ids = [] then Inl Logic_error
      else if last ids = rid
      then (if tl ids = [] then Inl Api_exception else Inr (last (butlast ids)))
      else Inr (last ids))"

partial_function (option) evict :: "string \<Rightarrow> 'j response_store \<Rightarrow> ((exn + unit) \<times> 'j response_store) option" where
  "evict rid s =
     (if \<not> store_full s then Some (Inr (), s)
      else case victim_of rid (lru s) of
        Inl e \<Rightarrow> Some (Inl e, s)
      | Inr victim \<Rightarrow>
          (case erase_locked victim s of
             (Inl e, s') \<Rightarrow> Some (Inl e, s')
           | (Inr _, s') \<Rightarrow> evict rid s'))"

declare evict.simps [code]

definition kMaximumSessionKeyBytes :: nat where
  "kMaximumSessionKeyBytes = 256"

definition store_put ::
    "struct_sizes \<Rightarrow> ('j \<Rightarrow> string) \<Rightarrow> ('j \<Rightarrow> bool) \<Rightarrow> 'j stored_response \<Rightarrow> 'j response_store \<Rightarrow>
     ((exn + unit) \<times> 'j response_store) option" where
  "store_put z dump is_object r s =
     (if sr_id r = [] \<or> sr_session_key r = [] \<or> kMaximumSessionKeyBytes < length (sr_session_key r) \<or>
         \<not> is_object (sr_response r)
      then Some (Inl Invalid_argument, s)
      else let envelope = record_envelope_bytes z dump r; cbytes = context_bytes (sr_context r) in
        if max_bytes s < envelope \<or> max_bytes s - envelope < cbytes then Some (Inl Api_exception, s)
        else if map_of (records s) (sr_id r) \<noteq> None then Some (Inl Logic_error, s)
        else let s1 = s\<lparr>lru := sr_id r # lru s,
                        records := (sr_id r, \<lparr>e_response = r, e_envelope_bytes = envelope\<rparr>) # records s\<rparr>
          in case checked_add (current_bytes s1) envelope of
               Inl e \<Rightarrow> Some (Inl e, s1\<lparr>records := filter (\<lambda>x. fst x \<noteq> sr_id r) (records s1), lru := tl (lru s1)\<rparr>)
             | Inr b \<Rightarrow>
                 (case retain_context (sr_context r) (s1\<lparr>current_bytes := b\<rparr>) of
                    (Inl e, s2) \<Rightarrow>
                      Some (Inl e, s2\<lparr>current_bytes := current_bytes s2 - envelope,
                                      records := filter (\<lambda>x. fst x \<noteq> sr_id r) (records s2),
                                      lru := tl (lru s2)\<rparr>)
                  | (Inr _, s2) \<Rightarrow> evict (sr_id r) s2))"

section \<open>Live nodes and reference counts\<close>

text \<open>
  The nodes reachable from a list of contexts, the number of references to a context (from the list
  and from the live nodes above it), and the bytes the live nodes own.
\<close>

definition live :: "response_context list \<Rightarrow> response_context set" where
  "live cs = {d. d \<noteq> [] \<and> (\<exists>c \<in> set cs. suffix d c)}"

definition refs_of :: "response_context list \<Rightarrow> response_context \<Rightarrow> nat" where
  "refs_of cs c = count_list cs c + card {d \<in> live cs. tl d = c}"

definition node_sum :: "response_context list \<Rightarrow> nat" where
  "node_sum cs = (\<Sum>d \<in> live cs. unat (owned_bytes (hd d)))"

lemma finite_live [simp]: "finite (live cs)"
proof -
  have "live cs \<subseteq> (\<Union>c \<in> set cs. set (suffixes c))"
    by (auto simp: live_def)
  then show ?thesis
    by (rule finite_subset) simp
qed

lemma live_Nil [simp]: "live ([] # cs) = live cs"
  by (auto simp: live_def)

lemma live_Cons: "live ((n # c) # cs) = insert (n # c) (live (c # cs))"
  by (auto simp: live_def suffix_Cons)

lemma live_tl: "d \<in> live cs \<Longrightarrow> tl d \<noteq> [] \<Longrightarrow> tl d \<in> live cs"
  unfolding live_def by (auto intro: suffix_order.trans suffix_tl)

lemma live_shared:
  assumes "c \<in> live cs"
  shows "live (c # cs) = live cs"
  using assms by (auto simp: live_def intro: suffix_order.trans)

lemma live_set: "c \<in> set cs \<Longrightarrow> c \<noteq> [] \<Longrightarrow> c \<in> live cs"
  by (auto simp: live_def)

lemma refs_of_Nil: "d \<noteq> [] \<Longrightarrow> refs_of ([] # cs) d = refs_of cs d"
  by (simp add: refs_of_def)

lemma refs_of_dead:
  assumes "d \<noteq> []" "d \<notin> live cs"
  shows "refs_of cs d = 0"
proof -
  have "d \<notin> set cs" "{e \<in> live cs. tl e = d} = {}"
    using assms live_set live_tl by blast+
  then show ?thesis
    by (simp add: refs_of_def)
qed

lemma refs_of_live:
  assumes "d \<in> live cs"
  shows "0 < refs_of cs d"
proof (cases "d \<in> set cs")
  case True
  then show ?thesis
    using count_list_0_iff [of cs d] by (simp add: refs_of_def)
next
  case False
  obtain c where c: "c \<in> set cs" "suffix d c" "d \<noteq> []"
    using assms by (auto simp: live_def)
  obtain p where "c = p @ d"
    using c(2) by (auto simp: suffix_def)
  moreover have "p \<noteq> []"
    using False c(1) calculation by (metis append_Nil)
  ultimately have p: "c = p @ d" "p \<noteq> []"
    by simp_all
  then have "last p # d \<in> live cs"
    using c(1) append_butlast_last_id [OF p(2)] unfolding live_def suffix_def
    by (metis (mono_tags, lifting) append.assoc append_Cons append_Nil list.distinct(1) mem_Collect_eq)
  then have "{e \<in> live cs. tl e = d} \<noteq> {}"
    by force
  then show ?thesis
    by (simp add: refs_of_def card_gt_0_iff)
qed

lemma refs_of_shared:
  assumes "c \<in> live cs"
  shows "refs_of (c # cs) d = refs_of cs d + of_bool (d = c)"
  by (simp add: refs_of_def live_shared [OF assms])

lemma new_not_live:
  assumes "n # c \<notin> live cs"
  shows "n # c \<notin> live (c # cs)"
proof
  assume "n # c \<in> live (c # cs)"
  then have "suffix (n # c) c"
    using assms by (auto simp: live_def)
  then show False
    using suffix_length_le by fastforce
qed

lemma refs_of_new:
  assumes "n # c \<notin> live cs" "d \<noteq> []"
  shows "refs_of ((n # c) # cs) d = (if d = n # c then 1 else refs_of (c # cs) d)"
proof (cases "d = n # c")
  case True
  have "e \<notin> live (c # cs)" if "tl e = n # c" for e
    using new_not_live [OF assms(1)] live_tl [of e "c # cs"] that by fastforce
  then have "{e \<in> live ((n # c) # cs). tl e = n # c} = {}"
    by (auto simp: live_Cons)
  moreover have "n # c \<notin> set cs"
    using assms(1) live_set by blast
  ultimately show ?thesis
    using True by (simp add: refs_of_def)
next
  case False
  have "{e \<in> live ((n # c) # cs). tl e = d} =
      (if d = c then insert (n # c) {e \<in> live (c # cs). tl e = d} else {e \<in> live (c # cs). tl e = d})"
    by (auto simp: live_Cons)
  then show ?thesis
    using False new_not_live [OF assms(1)] by (cases "d = c") (auto simp: refs_of_def)
qed

lemma node_sum_new:
  assumes "n # c \<notin> live cs"
  shows "node_sum ((n # c) # cs) = unat (owned_bytes n) + node_sum (c # cs)"
  using new_not_live [OF assms] by (simp add: node_sum_def live_Cons)

lemma permuted:
  assumes "mset cs = mset cs'"
  shows "live cs = live cs'" "refs_of cs d = refs_of cs' d" "node_sum cs = node_sum cs'"
proof -
  show "live cs = live cs'"
    using assms by (auto simp: live_def dest: mset_eq_setD)
  then show "refs_of cs d = refs_of cs' d" "node_sum cs = node_sum cs'"
    using assms by (simp_all add: refs_of_def node_sum_def flip: count_mset)
qed

text \<open>The reference counts of the store agree with a list of contexts.\<close>

definition num :: "u64 option \<Rightarrow> nat" where
  "num k = (case k of None \<Rightarrow> 0 | Some w \<Rightarrow> unat w)"

definition refs_ok :: "(response_context \<Rightarrow> u64 option) \<Rightarrow> response_context list \<Rightarrow> bool" where
  "refs_ok refs cs \<longleftrightarrow> refs [] = None \<and>
     (\<forall>c. c \<noteq> [] \<longrightarrow> refs c \<noteq> Some 0 \<and> num (refs c) = refs_of cs c)"

lemma refs_okD: "refs_ok refs cs \<Longrightarrow> c \<noteq> [] \<Longrightarrow> refs c \<noteq> Some 0 \<and> num (refs c) = refs_of cs c"
  by (simp add: refs_ok_def)

lemma num_simps [simp]: "num None = 0" "num (Some w) = unat w"
  by (simp_all add: num_def)

lemma refs_ok_live:
  assumes "refs_ok refs cs" "c \<noteq> []"
  shows "refs c \<noteq> None \<longleftrightarrow> c \<in> live cs"
  using assms refs_of_dead [OF assms(2), of cs] refs_of_live [of c cs]
  by (cases "refs c") (force simp: refs_ok_def unat_eq_0)+

section \<open>Retaining and releasing\<close>

definition insert_one :: "response_context \<Rightarrow> 'j response_store \<Rightarrow> 'j response_store" where
  "insert_one c s = s\<lparr>live_refs := (live_refs s)(c \<mapsto> 1), current_bytes := current_bytes s + owned_bytes (hd c)\<rparr>"

definition inserted :: "response_context list \<Rightarrow> 'j response_store \<Rightarrow> 'j response_store" where
  "inserted ns s = fold insert_one ns s"

lemma inserted_fields [simp]:
  "records (inserted ns s) = records s" "lru (inserted ns s) = lru s"
  "max_records (inserted ns s) = max_records s" "max_bytes (inserted ns s) = max_bytes s"
  by (induction ns arbitrary: s) (simp_all add: inserted_def insert_one_def)

lemma inserted_refs: "live_refs (inserted ns s) c = (if c \<in> set ns then Some 1 else live_refs s c)"
  by (induction ns arbitrary: s) (auto simp: inserted_def insert_one_def)

lemma rollback_inserted:
  assumes "distinct ns" "\<forall>c \<in> set ns. live_refs s c = None"
  shows "rollback_inserted ns (inserted ns s) = s"
  using assms
proof (induction ns rule: rev_induct)
  case (snoc c ns)
  have "live_refs (inserted ns s) c = None"
    using snoc.prems by (simp add: inserted_refs)
  then have "(insert_one c (inserted ns s))\<lparr>
      current_bytes := current_bytes (insert_one c (inserted ns s)) - owned_bytes (hd c),
      live_refs := (live_refs (insert_one c (inserted ns s)))(c := None)\<rparr> = inserted ns s"
    by (simp add: insert_one_def fun_upd_idem)
  then show ?case
    using snoc by (simp add: rollback_inserted_def inserted_def)
qed (simp add: rollback_inserted_def inserted_def)

text \<open>The insertion loop inserts all nodes, counting their bytes exactly, or nothing at all.\<close>

lemma insert_nodes_result:
  assumes "distinct (ins @ ns)" "\<forall>c \<in> set (ins @ ns). live_refs s c = None"
  shows "(\<exists>e. insert_nodes ins ns (inserted ins s) = (Inl e, s)) \<or>
    insert_nodes ins ns (inserted ins s) = (Inr (), inserted (ins @ ns) s) \<and>
    unat (current_bytes (inserted (ins @ ns) s)) =
      unat (current_bytes (inserted ins s)) + (\<Sum>c \<leftarrow> ns. unat (owned_bytes (hd c)))"
  using assms
proof (induction ns arbitrary: ins)
  case (Cons c ns)
  have dead: "live_refs (inserted ins s) c = None"
    using Cons.prems by (simp add: inserted_refs)
  have roll: "rollback_inserted ins (inserted ins s) = s"
    using Cons.prems by (intro rollback_inserted) auto
  show ?case
  proof (cases "checked_add (current_bytes (inserted ins s)) (owned_bytes (hd c))")
    case (Inl e)
    then show ?thesis
      using roll by simp
  next
    case (Inr b)
    then have b: "b = current_bytes (inserted ins s) + owned_bytes (hd c)"
        "unat b = unat (current_bytes (inserted ins s)) + unat (owned_bytes (hd c))"
      by (auto simp: checked_add_def unat_add_checked split: if_splits)
    have "(inserted ins s)\<lparr>live_refs := (live_refs (inserted ins s))(c \<mapsto> 1), current_bytes := b\<rparr> =
        inserted (ins @ [c]) s"
      by (simp add: inserted_def insert_one_def b(1))
    moreover have "current_bytes (inserted (ins @ [c]) s) = b"
      by (simp add: inserted_def insert_one_def b(1))
    ultimately show ?thesis
      using Cons.IH [of "ins @ [c]"] Cons.prems Inr dead b(2) by auto
  qed
qed simp

lemma collect_new_cursor: "collect_new refs c = (ns, cursor) \<Longrightarrow> suffix cursor c"
proof (induction c arbitrary: ns)
  case (Cons n c)
  show ?case
  proof (cases "refs (n # c)")
    case None
    then show ?thesis
      using Cons.prems Cons.IH by (auto simp: suffix_Cons split: prod.splits)
  qed (use Cons.prems in simp)
qed simp

lemma collect_new_nodes:
  assumes "collect_new refs c = (ns, cursor)"
  shows "distinct ns \<and> (\<forall>d \<in> set ns. d \<noteq> [] \<and> refs d = None \<and> suffix d c \<and> length cursor < length d) \<and>
    (cursor \<noteq> [] \<longrightarrow> refs cursor \<noteq> None)"
  using assms
proof (induction refs c arbitrary: ns rule: collect_new.induct)
  case (2 refs n c)
  show ?case
  proof (cases "refs (n # c)")
    case None
    then obtain ns' where ns': "collect_new refs c = (ns', cursor)" "ns = (n # c) # ns'"
      using 2(2) by (auto split: prod.splits)
    have IH: "distinct ns' \<and> (\<forall>d \<in> set ns'. d \<noteq> [] \<and> refs d = None \<and> suffix d c \<and> length cursor < length d) \<and>
        (cursor \<noteq> [] \<longrightarrow> refs cursor \<noteq> None)"
      using 2(1) None ns'(1) by blast
    moreover have "n # c \<notin> set ns'"
      using IH suffix_length_le by fastforce
    moreover have "length cursor \<le> length c"
      using collect_new_cursor [OF ns'(1)] by (rule suffix_length_le)
    ultimately show ?thesis
      using ns'(2) None by (auto intro: suffix_ConsI)
  next
    case (Some k)
    then show ?thesis
      using 2(2) by simp
  qed
qed simp

text \<open>What a collection means for the counts and the bytes.\<close>

lemma collect_new_counts:
  assumes "refs_ok refs cs" "collect_new refs c = (ns, cursor)" "d \<noteq> []"
  shows "(if d \<in> set ns then 1 else num (refs d) + of_bool (d = cursor)) = refs_of (c # cs) d"
  using assms(2)
proof (induction c arbitrary: ns)
  case Nil
  then show ?case
    using assms(1,3) by (auto simp: refs_of_Nil refs_ok_def)
next
  case (Cons n c)
  show ?case
  proof (cases "refs (n # c)")
    case None
    then obtain ns' where ns': "collect_new refs c = (ns', cursor)" "ns = (n # c) # ns'"
      using Cons.prems by (auto split: prod.splits)
    have "n # c \<notin> live cs"
      using refs_ok_live [OF assms(1), of "n # c"] None by simp
    then show ?thesis
      using Cons.IH [OF ns'(1)] refs_of_new [of n c cs d] assms(3) ns'(2) by auto
  next
    case (Some k)
    then have "n # c \<in> live cs" "ns = []" "cursor = n # c"
      using refs_ok_live [OF assms(1), of "n # c"] Cons.prems by auto
    then show ?thesis
      using refs_of_shared [of "n # c" cs d] assms(1,3) by (simp add: refs_ok_def)
  qed
qed

lemma collect_new_bytes:
  assumes "refs_ok refs cs" "collect_new refs c = (ns, cursor)"
  shows "(\<Sum>d \<leftarrow> ns. unat (owned_bytes (hd d))) + node_sum cs = node_sum (c # cs)"
  using assms(2)
proof (induction c arbitrary: ns)
  case Nil
  then show ?case
    by (simp add: node_sum_def)
next
  case (Cons n c)
  show ?case
  proof (cases "refs (n # c)")
    case None
    then obtain ns' where ns': "collect_new refs c = (ns', cursor)" "ns = (n # c) # ns'"
      using Cons.prems by (auto split: prod.splits)
    have "n # c \<notin> live cs"
      using refs_ok_live [OF assms(1), of "n # c"] None by simp
    then show ?thesis
      using Cons.IH [OF ns'(1)] node_sum_new [of n c cs] ns'(2) by simp
  next
    case (Some k)
    then have "n # c \<in> live cs" "ns = []"
      using refs_ok_live [OF assms(1), of "n # c"] Cons.prems by auto
    then show ?thesis
      by (simp add: node_sum_def live_shared)
  qed
qed

definition same_frame :: "'j response_store \<Rightarrow> 'j response_store \<Rightarrow> bool" where
  "same_frame s s' \<longleftrightarrow> records s' = records s \<and> lru s' = lru s \<and> max_records s' = max_records s \<and>
     max_bytes s' = max_bytes s"

lemma count_up: "k \<noteq> - 1 \<Longrightarrow> unat (k + 1 :: u64) = unat k + 1 \<and> k + 1 \<noteq> 0"
  using unat_inc [of k] word_inc_neq [of k] by simp

lemma collected_refs_ok:
  assumes ok: "refs_ok refs cs" and col: "collect_new refs c = (ns, cursor)"
    and up: "cursor \<noteq> [] \<Longrightarrow> refs cursor = Some k \<and> k \<noteq> - 1"
    and refs': "\<And>d. refs' d = (if d \<in> set ns then Some 1 else if d = cursor \<and> cursor \<noteq> [] then Some (k + 1) else refs d)"
  shows "refs_ok refs' (c # cs)"
  unfolding refs_ok_def
proof (intro conjI allI impI)
  note nodes = collect_new_nodes [OF col]
  show "refs' [] = None"
    using nodes ok by (auto simp: refs' refs_ok_def)
  fix d :: response_context
  assume d: "d \<noteq> []"
  show "refs' d \<noteq> Some 0"
    using up count_up [of k] ok d by (auto simp: refs' refs_ok_def)
  have "num (refs' d) = (if d \<in> set ns then 1 else num (refs d) + of_bool (d = cursor))"
    using up count_up [of k] d by (auto simp: refs')
  then show "num (refs' d) = refs_of (c # cs) d"
    using collect_new_counts [OF ok col d] by simp
qed

lemma retain_context_result:
  assumes ok: "refs_ok (live_refs s) cs" and bytes: "unat (current_bytes s) = x + node_sum cs"
  shows "(\<exists>e. retain_context c s = (Inl e, s)) \<or>
    (\<exists>s'. retain_context c s = (Inr (), s') \<and> refs_ok (live_refs s') (c # cs) \<and>
      unat (current_bytes s') = x + node_sum (c # cs) \<and> same_frame s s')"
proof (cases "c = []")
  case True
  then show ?thesis
    using assms by (auto simp: retain_context_def refs_ok_def refs_of_Nil node_sum_def same_frame_def)
next
  case nonnull: False
  show ?thesis
  proof (cases "live_refs s c")
    case (Some k)
    then have c: "c \<in> live cs"
      using refs_ok_live [OF ok nonnull] by simp
    show ?thesis
    proof (cases "k = - 1")
      case False
      have "refs_ok ((live_refs s)(c \<mapsto> k + 1)) (c # cs)"
        using ok Some count_up [OF False] nonnull by (auto simp: refs_ok_def refs_of_shared [OF c])
      then show ?thesis
        using Some False nonnull bytes
        by (auto simp: retain_context_def node_sum_def live_shared [OF c] same_frame_def)
    qed (use Some nonnull in \<open>simp add: retain_context_def\<close>)
  next
    case None
    obtain ns cursor where col: "collect_new (live_refs s) c = (ns, cursor)"
      by (cases "collect_new (live_refs s) c")
    note nodes = collect_new_nodes [OF col]
    have "(\<exists>e. insert_nodes [] ns s = (Inl e, s)) \<or> insert_nodes [] ns s = (Inr (), inserted ns s) \<and>
        unat (current_bytes (inserted ns s)) = unat (current_bytes s) + (\<Sum>c \<leftarrow> ns. unat (owned_bytes (hd c)))"
      using insert_nodes_result [of "[]" ns s] nodes by (simp add: inserted_def)
    then consider e where "insert_nodes [] ns s = (Inl e, s)"
      | (complete) "insert_nodes [] ns s = (Inr (), inserted ns s)"
          "unat (current_bytes (inserted ns s)) = x + node_sum (c # cs)"
      using bytes collect_new_bytes [OF ok col] by fastforce
    then show ?thesis
    proof cases
      case 1
      then show ?thesis
        using None nonnull col by (auto simp: retain_context_def)
    next
      case complete
      have roll: "rollback_inserted ns (inserted ns s) = s"
        using nodes by (intro rollback_inserted) auto
      have cursor: "live_refs (inserted ns s) cursor = live_refs s cursor"
        using nodes by (auto simp: inserted_refs)
      show ?thesis
      proof (cases "live_refs s cursor")
        case None
        then have "cursor = []"
          using nodes by auto
        moreover have "refs_ok (live_refs (inserted ns s)) (c # cs)"
          using calculation by (intro collected_refs_ok [OF ok col]) (simp_all add: inserted_refs)
        ultimately show ?thesis
          using complete \<open>live_refs s c = None\<close> nonnull col
          by (auto simp: retain_context_def same_frame_def)
      next
        case (Some k)
        then have "cursor \<noteq> []"
          using ok by (auto simp: refs_ok_def)
        show ?thesis
        proof (cases "k = - 1")
          case True
          then show ?thesis
            using complete Some \<open>live_refs s c = None\<close> nonnull col cursor roll \<open>cursor \<noteq> []\<close>
            by (simp add: retain_context_def)
        next
          case False
          have "refs_ok ((live_refs (inserted ns s))(cursor \<mapsto> k + 1)) (c # cs)"
            using Some False nodes \<open>cursor \<noteq> []\<close>
            by (intro collected_refs_ok [OF ok col, where k = k]) (auto simp: inserted_refs)
          then show ?thesis
            using complete Some False \<open>live_refs s c = None\<close> nonnull col cursor \<open>cursor \<noteq> []\<close>
            by (auto simp: retain_context_def same_frame_def)
        qed
      qed
    qed
  qed
qed

lemma release_context_result:
  assumes "refs_ok (live_refs s) (c # cs)" "unat (current_bytes s) = x + node_sum (c # cs)"
  shows "\<exists>s'. release_context c s = (Inr (), s') \<and> refs_ok (live_refs s') cs \<and>
    unat (current_bytes s') = x + node_sum cs \<and> same_frame s s'"
  using assms
proof (induction c arbitrary: s)
  case Nil
  then show ?case
    by (auto simp: refs_ok_def refs_of_Nil node_sum_def same_frame_def)
next
  case (Cons n c)
  let ?d = "n # c" and ?cs = "(n # c) # cs"
  have "?d \<in> live ?cs"
    by (simp add: live_Cons)
  then obtain k where "live_refs s ?d = Some k"
    using refs_ok_live [OF Cons.prems(1), of ?d] by auto
  then have k: "live_refs s ?d = Some k" "k \<noteq> 0" "unat k = refs_of ?cs ?d"
    using refs_okD [OF Cons.prems(1), of ?d] by auto
  show ?case
  proof (cases "?d \<in> live cs")
    case True
    then have "unat k = refs_of cs ?d + 1" "0 < refs_of cs ?d"
      using k(3) refs_of_live by (simp_all add: refs_of_shared)
    then have "k \<noteq> 1" "unat (k - 1) = refs_of cs ?d" "k - 1 \<noteq> 0"
      using k(2) by (auto simp: unat_minus_one simp flip: unat_eq_0)
    moreover have "refs_ok ((live_refs s)(?d \<mapsto> k - 1)) cs"
      using Cons.prems(1) calculation by (auto simp: refs_ok_def refs_of_shared [OF True])
    ultimately show ?thesis
      using k Cons.prems(2) by (auto simp: same_frame_def node_sum_def live_shared [OF True])
  next
    case False
    then have "k = 1"
      using k(3) refs_of_new [OF False, of ?d] by (simp add: word_unat_eq_iff)
    let ?s = "s\<lparr>current_bytes := current_bytes s - owned_bytes n, live_refs := (live_refs s)(?d := None)\<rparr>"
    have sum: "node_sum ?cs = unat (owned_bytes n) + node_sum (c # cs)"
      by (rule node_sum_new [OF False])
    then have le: "owned_bytes n \<le> current_bytes s"
      using Cons.prems(2) by (simp add: word_le_nat_alt)
    have "unat (current_bytes ?s) = x + node_sum (c # cs)"
      using Cons.prems(2) sum by (simp add: unat_sub [OF le])
    moreover have "refs_ok (live_refs ?s) (c # cs)"
      using Cons.prems(1) refs_of_new [OF False] refs_of_dead [of ?d "c # cs"] new_not_live [OF False]
      by (auto simp: refs_ok_def)
    ultimately obtain s' where "release_context c ?s = (Inr (), s')" "refs_ok (live_refs s') cs"
        "unat (current_bytes s') = x + node_sum cs" "same_frame ?s s'"
      using Cons.IH [of ?s] by blast
    then show ?thesis
      using k \<open>k = 1\<close> le by (auto simp: same_frame_def)
  qed
qed

section \<open>The store's accounting\<close>

definition contexts :: "(string \<times> 'j entry) list \<Rightarrow> response_context list" where
  "contexts rs = map (\<lambda>r. sr_context (e_response (snd r))) rs"

definition envelopes :: "(string \<times> 'j entry) list \<Rightarrow> nat" where
  "envelopes rs = (\<Sum>r \<leftarrow> rs. unat (e_envelope_bytes (snd r)))"

text \<open>The cumulative bytes of a context are the bytes of its nodes.\<close>

definition context_ok :: "response_context \<Rightarrow> bool" where
  "context_ok c \<longleftrightarrow> unat (context_bytes c) = (\<Sum>n \<leftarrow> c. unat (owned_bytes n))"

text \<open>The accounting invariant, which holds also while \<open>put\<close> evicts.\<close>

definition accounted :: "'j response_store \<Rightarrow> bool" where
  "accounted s \<longleftrightarrow> distinct (map fst (records s)) \<and> distinct (lru s) \<and> set (lru s) = fst ` set (records s) \<and>
     refs_ok (live_refs s) (contexts (records s)) \<and>
     unat (current_bytes s) = envelopes (records s) + node_sum (contexts (records s)) \<and>
     max_records s \<noteq> 0 \<and> max_bytes s \<noteq> 0"

definition store_ok :: "'j response_store \<Rightarrow> bool" where
  "store_ok s \<longleftrightarrow> accounted s \<and> \<not> store_full s"

lemma map_of_filter_key: "x \<noteq> k \<Longrightarrow> map_of (filter (\<lambda>r. fst r \<noteq> k) rs) x = map_of rs x"
  by (induction rs) auto

lemma distinct_butlast_last: "distinct xs \<Longrightarrow> xs \<noteq> [] \<Longrightarrow> last xs \<notin> set (butlast xs)"
  by (cases xs rule: rev_cases) auto

lemma map_of_split:
  assumes "distinct (map fst rs)" "map_of rs rid = Some e"
  shows "\<exists>as bs. rs = as @ (rid, e) # bs \<and> filter (\<lambda>r. fst r \<noteq> rid) rs = as @ bs"
proof -
  obtain as bs where rs: "rs = as @ (rid, e) # bs"
    using map_of_SomeD [OF assms(2)] by (meson split_list)
  then have "\<forall>r \<in> set (as @ bs). fst r \<noteq> rid"
    using assms(1) by force
  then show ?thesis
    using rs by (auto simp: filter_id_conv)
qed

lemma erase_locked_result:
  assumes ok: "accounted s" and e: "map_of (records s) rid = Some e"
  shows "\<exists>s'. erase_locked rid s = (Inr (), s') \<and> accounted s' \<and>
    records s' = filter (\<lambda>r. fst r \<noteq> rid) (records s) \<and> lru s' = remove1 rid (lru s) \<and>
    max_records s' = max_records s \<and> max_bytes s' = max_bytes s"
proof -
  obtain as bs where rs: "records s = as @ (rid, e) # bs" "filter (\<lambda>r. fst r \<noteq> rid) (records s) = as @ bs"
    using map_of_split [OF _ e] ok by (auto simp: accounted_def)
  let ?c = "sr_context (e_response e)" and ?s = "s\<lparr>current_bytes := current_bytes s - e_envelope_bytes e\<rparr>"
  have perm: "mset (contexts (records s)) = mset (?c # contexts (as @ bs))"
    by (simp add: rs(1) contexts_def)
  have sum: "envelopes (records s) = unat (e_envelope_bytes e) + envelopes (as @ bs)"
    by (simp add: rs(1) envelopes_def)
  have le: "e_envelope_bytes e \<le> current_bytes s"
    using ok sum by (simp add: accounted_def word_le_nat_alt)
  have "refs_ok (live_refs ?s) (?c # contexts (as @ bs))"
    using ok permuted(2) [OF perm] by (simp add: accounted_def refs_ok_def)
  moreover have "unat (current_bytes ?s) = envelopes (as @ bs) + node_sum (?c # contexts (as @ bs))"
    using ok sum permuted(3) [OF perm] by (simp add: accounted_def unat_sub [OF le])
  ultimately obtain s' where s': "release_context ?c ?s = (Inr (), s')" "refs_ok (live_refs s') (contexts (as @ bs))"
      "unat (current_bytes s') = envelopes (as @ bs) + node_sum (contexts (as @ bs))" "same_frame ?s s'"
    using release_context_result by blast
  have keys: "distinct (map fst (as @ bs))" "set (remove1 rid (lru s)) = fst ` set (as @ bs)"
    using ok rs(1) by (auto simp: accounted_def)
  then show ?thesis
    using s' e le ok rs(2)
    by (auto simp: erase_locked_def accounted_def same_frame_def distinct_remove1)
qed

lemma node_sum_single: "node_sum [c] = (\<Sum>n \<leftarrow> c. unat (owned_bytes n))"
proof (induction c)
  case (Cons n c)
  then show ?case
    using node_sum_new [of n c "[]"] by (simp add: live_def)
qed (simp add: node_sum_def live_def)

text \<open>The new response, with the record it needs to stay in the store alone.\<close>

definition newest :: "string \<Rightarrow> 'j entry \<Rightarrow> 'j response_store \<Rightarrow> bool" where
  "newest rid e s \<longleftrightarrow> (\<exists>rest. lru s = rid # rest) \<and> map_of (records s) rid = Some e \<and>
     unat (e_envelope_bytes e) + node_sum [sr_context (e_response e)] \<le> unat (max_bytes s)"

lemma alone_not_full:
  assumes "accounted s" "newest rid e s" "lru s = [rid]"
  shows "\<not> store_full s"
proof -
  have keys: "fst ` set (records s) = {rid}" "distinct (map fst (records s))"
    using assms by (auto simp: accounted_def)
  then have "card (set (map fst (records s))) = 1"
    by simp
  then have "length (records s) = 1"
    using distinct_card [OF keys(2)] by simp
  moreover have "(rid, e) \<in> set (records s)"
    using assms(2) by (simp add: newest_def map_of_SomeD)
  ultimately have "records s = [(rid, e)]"
    by (cases "records s") auto
  then show ?thesis
    using assms by (auto simp: accounted_def newest_def store_full_def contexts_def envelopes_def
        word_less_nat_alt simp flip: unat_eq_0)
qed

lemma victim_of_rest:
  assumes "distinct (rid # rest)" "rest \<noteq> []"
  shows "victim_of rid (rid # rest) = Inr (last rest)" "remove1 (last rest) (rid # rest) = rid # butlast rest"
    "last rest \<noteq> rid"
proof -
  show ne: "last rest \<noteq> rid"
    using assms by (metis distinct.simps(2) last_in_set)
  then show "victim_of rid (rid # rest) = Inr (last rest)"
    using assms(2) by (simp add: victim_of_def)
  have "distinct (butlast rest @ [last rest])"
    using assms by (simp del: distinct_append)
  then have "remove1 (last rest) (butlast rest @ [last rest]) = butlast rest"
    by (simp add: remove1_append)
  then show "remove1 (last rest) (rid # rest) = rid # butlast rest"
    using assms(2) ne by simp
qed

text \<open>The eviction loop ends, and drops the least recently used responses only.\<close>

lemma evict_result:
  assumes "accounted s" "newest rid e s" "lru s = rid # rest"
  shows "\<exists>s' kept. evict rid s = Some (Inr (), s') \<and> store_ok s' \<and> prefix kept rest \<and> lru s' = rid # kept \<and>
    (\<forall>x \<in> set (rid # kept). map_of (records s') x = map_of (records s) x)"
  using assms
proof (induction "length rest" arbitrary: s rest)
  case 0
  then have "\<not> store_full s"
    using alone_not_full [of s rid e] by simp
  then show ?case
    using 0 by (subst evict.simps) (auto simp: store_ok_def)
next
  case (Suc m)
  show ?case
  proof (cases "store_full s")
    case False
    then show ?thesis
      using Suc.prems by (subst evict.simps) (auto simp: store_ok_def intro!: exI [of _ rest])
  next
    case True
    have rest: "rest \<noteq> []" "distinct (rid # rest)"
      using Suc by (auto simp: accounted_def)
    note victim = victim_of_rest [OF rest(2,1)]
    have "last rest \<in> fst ` set (records s)"
      using Suc.prems(1,3) rest(1) by (auto simp: accounted_def)
    then obtain v where v: "map_of (records s) (last rest) = Some v"
      by (metis map_of_eq_None_iff not_None_eq)
    obtain s' where s': "erase_locked (last rest) s = (Inr (), s')" "accounted s'"
        "records s' = filter (\<lambda>r. fst r \<noteq> last rest) (records s)" "lru s' = remove1 (last rest) (lru s)"
        "max_records s' = max_records s" "max_bytes s' = max_bytes s"
      using erase_locked_result [OF Suc.prems(1) v] by blast
    have look: "map_of (records s') x = map_of (records s) x" if "x \<noteq> last rest" for x
      using that by (simp add: s'(3) map_of_filter_key)
    have "newest rid e s'"
      using Suc.prems(2,3) s'(4,6) victim look [of rid] by (simp add: newest_def)
    moreover have "m = length (butlast rest)" "lru s' = rid # butlast rest"
      using Suc.hyps(2) s'(4) Suc.prems(3) victim(2) by simp_all
    ultimately obtain s'' kept where fin: "evict rid s' = Some (Inr (), s'')" "store_ok s''"
        "prefix kept (butlast rest)" "lru s'' = rid # kept"
        "\<forall>x \<in> set (rid # kept). map_of (records s'') x = map_of (records s') x"
      using Suc.hyps(1) [of "butlast rest" s'] s'(2) by blast
    have "evict rid s = Some (Inr (), s'')"
      using True Suc.prems(3) victim(1) s'(1) fin(1) by (subst evict.simps) simp
    moreover have "x \<noteq> last rest" if "x \<in> set (rid # kept)" for x
      using that victim(3) rest fin(3) set_mono_prefix [OF fin(3)]
        distinct_butlast_last [of rest] by auto
    moreover have "prefix kept rest"
      using fin(3) prefix_order.trans prefixeq_butlast by blast
    ultimately show ?thesis
      using fin look by (intro exI [of _ s''] exI [of _ kept]) simp
  qed
qed

section \<open>Properties\<close>

lemma store_put_error_restores:
  assumes "rid \<notin> fst ` set (records s)"
  shows "(s\<lparr>lru := rid # lru s, records := (rid, e) # records s, current_bytes := current_bytes s + b\<rparr>)
      \<lparr>current_bytes := current_bytes s + b - b,
       records := filter (\<lambda>x. fst x \<noteq> rid) ((rid, e) # records s), lru := tl (rid # lru s)\<rparr> = s"
    "(s\<lparr>lru := rid # lru s, records := (rid, e) # records s\<rparr>)
      \<lparr>records := filter (\<lambda>x. fst x \<noteq> rid) ((rid, e) # records s), lru := tl (rid # lru s)\<rparr> = s"
proof -
  have "filter (\<lambda>x. fst x \<noteq> rid) (records s) = records s"
    using assms by (auto simp: filter_id_conv)
  then show "(s\<lparr>lru := rid # lru s, records := (rid, e) # records s, current_bytes := current_bytes s + b\<rparr>)
      \<lparr>current_bytes := current_bytes s + b - b,
       records := filter (\<lambda>x. fst x \<noteq> rid) ((rid, e) # records s), lru := tl (rid # lru s)\<rparr> = s"
    "(s\<lparr>lru := rid # lru s, records := (rid, e) # records s\<rparr>)
      \<lparr>records := filter (\<lambda>x. fst x \<noteq> rid) ((rid, e) # records s), lru := tl (rid # lru s)\<rparr> = s"
    by simp_all
qed

lemma fits_alone:
  assumes "\<not> (max_b < env \<or> max_b - env < context_bytes c)" "context_ok c"
  shows "unat env + node_sum [c] \<le> unat (max_b :: u64)"
proof -
  have "env \<le> max_b"
    using assms(1) by (simp add: not_less)
  then show ?thesis
    using assms by (auto simp: word_less_nat_alt word_le_nat_alt unat_sub node_sum_single context_ok_def)
qed

definition put_rejected ::
    "struct_sizes \<Rightarrow> ('j \<Rightarrow> string) \<Rightarrow> ('j \<Rightarrow> bool) \<Rightarrow> 'j stored_response \<Rightarrow> 'j response_store \<Rightarrow> bool" where
  "put_rejected z dump is_object r s \<longleftrightarrow>
     sr_id r = [] \<or> sr_session_key r = [] \<or> kMaximumSessionKeyBytes < length (sr_session_key r) \<or>
     \<not> is_object (sr_response r) \<or> max_bytes s < record_envelope_bytes z dump r \<or>
     max_bytes s - record_envelope_bytes z dump r < context_bytes (sr_context r) \<or>
     map_of (records s) (sr_id r) \<noteq> None"

lemma store_put_rejected:
  "put_rejected z dump is_object r s \<Longrightarrow> \<exists>e. store_put z dump is_object r s = Some (Inl e, s)"
  unfolding put_rejected_def store_put_def Let_def by auto

text \<open>An accepted response: the store after the new record and its context are in.\<close>

lemma store_put_accepted:
  assumes "\<not> put_rejected z dump is_object r s" "accounted s" "context_ok (sr_context r)"
  shows "(\<exists>e. store_put z dump is_object r s = Some (Inl e, s)) \<or>
    (\<exists>s2. store_put z dump is_object r s = evict (sr_id r) s2 \<and> accounted s2 \<and>
      newest (sr_id r) \<lparr>e_response = r, e_envelope_bytes = record_envelope_bytes z dump r\<rparr> s2 \<and>
      lru s2 = sr_id r # lru s \<and>
      records s2 = (sr_id r, \<lparr>e_response = r, e_envelope_bytes = record_envelope_bytes z dump r\<rparr>) # records s)"
proof -
  let ?rid = "sr_id r" and ?env = "record_envelope_bytes z dump r" and ?c = "sr_context r"
  let ?e = "\<lparr>e_response = r, e_envelope_bytes = ?env\<rparr>"
  let ?s1 = "s\<lparr>lru := ?rid # lru s, records := (?rid, ?e) # records s\<rparr>"
  have fresh: "?rid \<notin> fst ` set (records s)" and fits: "unat ?env + node_sum [?c] \<le> unat (max_bytes s)"
    using assms(1) fits_alone [OF _ assms(3), of "max_bytes s" ?env]
    by (auto simp: put_rejected_def map_of_eq_None_iff)
  have body: "store_put z dump is_object r s = (case checked_add (current_bytes s) ?env of
        Inl e \<Rightarrow> Some (Inl e, s)
      | Inr b \<Rightarrow> (case retain_context ?c (?s1\<lparr>current_bytes := b\<rparr>) of
            (Inl e, s2) \<Rightarrow> Some (Inl e, s2\<lparr>current_bytes := current_bytes s2 - ?env,
                records := filter (\<lambda>x. fst x \<noteq> ?rid) (records s2), lru := tl (lru s2)\<rparr>)
          | (Inr _, s2) \<Rightarrow> evict ?rid s2))"
    using assms(1) store_put_error_restores(2) [OF fresh]
    by (auto simp: put_rejected_def store_put_def Let_def split: sum.splits)
  show ?thesis
  proof (cases "checked_add (current_bytes s) ?env")
    case (Inl e)
    then show ?thesis
      using body by simp
  next
    case (Inr b)
    then have b: "b = current_bytes s + ?env" "unat b = unat (current_bytes s) + unat ?env"
      by (auto simp: checked_add_def unat_add_checked split: if_splits)
    let ?s = "?s1\<lparr>current_bytes := b\<rparr>"
    have "refs_ok (live_refs ?s) (contexts (records s))"
        "unat (current_bytes ?s) = (unat ?env + envelopes (records s)) + node_sum (contexts (records s))"
      using assms(2) b(2) by (simp_all add: accounted_def)
    from retain_context_result [OF this, of ?c] show ?thesis
    proof (elim disjE exE conjE)
      fix e
      assume "retain_context ?c ?s = (Inl e, ?s)"
      then show ?thesis
        using body Inr store_put_error_restores(1) [OF fresh, of ?e ?env] by (simp add: b(1))
    next
      fix s2
      assume s2: "retain_context ?c ?s = (Inr (), s2)" "refs_ok (live_refs s2) (?c # contexts (records s))"
        "unat (current_bytes s2) = unat ?env + envelopes (records s) + node_sum (?c # contexts (records s))"
        "same_frame ?s s2"
      then have "accounted s2" "newest ?rid ?e s2"
        using assms(2) fresh fits
        by (auto simp: accounted_def newest_def same_frame_def contexts_def envelopes_def)
      then show ?thesis
        using body Inr s2 by (auto simp: same_frame_def)
    qed
  qed
qed

text \<open>
  C33. \<open>put\<close> always returns. When it throws, the store is unchanged; otherwise the store holds the new
  response as the most recent one within both limits, and what was evicted is a least recently used
  part of the earlier responses: the remaining ones keep their records and their order. In both
  cases the accounting is exact afterwards.
\<close>

theorem put_returns_within_limits:
  assumes "store_ok s" "context_ok (sr_context r)"
  shows "\<exists>res s'. store_put z dump is_object r s = Some (res, s') \<and> store_ok s' \<and>
    (case res of
       Inl e \<Rightarrow> s' = s
     | Inr _ \<Rightarrow> map_of (records s') (sr_id r) =
           Some \<lparr>e_response = r, e_envelope_bytes = record_envelope_bytes z dump r\<rparr> \<and>
         (\<exists>kept. prefix kept (lru s) \<and> lru s' = sr_id r # kept \<and>
           (\<forall>x \<in> set kept. map_of (records s') x = map_of (records s) x)))"
proof (cases "put_rejected z dump is_object r s")
  case True
  then show ?thesis
    using store_put_rejected [OF True] assms(1) by auto
next
  case False
  have ok: "accounted s"
    using assms(1) by (simp add: store_ok_def)
  from store_put_accepted [OF False ok assms(2)] show ?thesis
  proof (elim disjE exE conjE)
    fix e
    assume "store_put z dump is_object r s = Some (Inl e, s)"
    then show ?thesis
      using assms(1) by simp
  next
    fix s2
    assume s2: "store_put z dump is_object r s = evict (sr_id r) s2" "accounted s2"
      "newest (sr_id r) \<lparr>e_response = r, e_envelope_bytes = record_envelope_bytes z dump r\<rparr> s2"
      "lru s2 = sr_id r # lru s"
      "records s2 = (sr_id r, \<lparr>e_response = r, e_envelope_bytes = record_envelope_bytes z dump r\<rparr>) # records s"
    obtain s' kept where s': "evict (sr_id r) s2 = Some (Inr (), s')" "store_ok s'" "prefix kept (lru s)"
        "lru s' = sr_id r # kept" "\<forall>x \<in> set (sr_id r # kept). map_of (records s') x = map_of (records s2) x"
      using evict_result [OF s2(2,3,4)] by blast
    have "sr_id r \<notin> set kept"
      using s2(2,4) set_mono_prefix [OF s'(3)] by (auto simp: accounted_def)
    then have "\<forall>x \<in> set kept. map_of (records s') x = map_of (records s) x"
      using s'(5) s2(5) by auto
    then show ?thesis
      using s' s2(1,5) by auto
  qed
qed

definition sample_sizes :: struct_sizes where
  "sample_sizes = \<lparr>size_turn = 8, size_part = 8, size_call = 8, size_node = 16, size_response = 32, size_json = 16\<rparr>"

definition sample_response :: "string stored_response" where
  "sample_response = \<lparr>sr_id = ''r1'', sr_session_key = ''k'', sr_response = ''{}'', sr_input_items = [],
     sr_context = [\<lparr>node_address = 1, node_turns = [], owned_bytes = 16, cumulative_bytes = 16, cumulative_turns = 0\<rparr>],
     sr_preserve_thinking = False\<rparr>"

definition sample_store :: "string response_store" where
  "sample_store = \<lparr>max_records = 1, max_bytes = 64, records = [], lru = [], live_refs = Map.empty, current_bytes = 0\<rparr>"

lemma sample_store_ok: "store_ok sample_store"
  by (simp add: store_ok_def accounted_def sample_store_def refs_ok_def refs_of_def contexts_def envelopes_def
      node_sum_def live_def store_full_def)

theorem put_returns_within_limits_witness:
  "\<exists>s'. store_put sample_sizes (\<lambda>j. j) (\<lambda>_. True) sample_response sample_store = Some (Inr (), s') \<and>
     store_ok s' \<and> lru s' = [''r1'']"
proof -
  have "context_ok (sr_context sample_response)"
    by (simp add: context_ok_def context_bytes_def sample_response_def)
  then obtain res s' where s': "store_put sample_sizes (\<lambda>j. j) (\<lambda>_. True) sample_response sample_store = Some (res, s')"
      "store_ok s'"
    using put_returns_within_limits [OF sample_store_ok] by blast
  moreover have "map_option (\<lambda>p. (fst p, lru (snd p)))
      (store_put sample_sizes (\<lambda>j. j) (\<lambda>_. True) sample_response sample_store) = Some (Inr (), [''r1''])"
    by code_simp
  ultimately show ?thesis
    by simp
qed

lemma fewer_not_full:
  assumes "accounted s" "accounted s'" "\<not> store_full s" "records s' = filter P (records s)"
    "max_records s' = max_records s" "max_bytes s' = max_bytes s"
  shows "\<not> store_full s'"
proof -
  have "live (contexts (records s')) \<subseteq> live (contexts (records s))"
    by (force simp: assms(4) live_def contexts_def)
  then have "node_sum (contexts (records s')) \<le> node_sum (contexts (records s))"
    unfolding node_sum_def by (intro sum_mono2) simp_all
  moreover have "envelopes (filter P rs) \<le> envelopes rs" for rs
    by (induction rs) (simp_all add: envelopes_def)
  ultimately have "unat (current_bytes s') \<le> unat (current_bytes s)"
    using assms(1,2,4) by (simp add: accounted_def add_mono)
  moreover have "length (records s') \<le> length (records s)"
    by (simp add: assms(4))
  ultimately show ?thesis
    using assms(3,5,6) by (auto simp: store_full_def word_less_nat_alt)
qed

text \<open>
  On a store with exact accounting, \<open>get\<close> returns the response put under the id and makes it the
  most recent, keeping the records and the order of the others; \<open>erase\<close> never throws, tells whether
  the id was present, and removes exactly that response. Both keep the accounting exact.
\<close>

theorem get_and_erase_exact:
  assumes "store_ok s"
  shows "(let (r, s') = store_get rid s in
      r = map_option e_response (map_of (records s) rid) \<and> store_ok s' \<and> records s' = records s \<and>
      (if rid \<in> set (lru s) then lru s' = rid # filter (\<lambda>x. x \<noteq> rid) (lru s) \<and> r \<noteq> None else s' = s \<and> r = None)) \<and>
    (\<exists>s'. store_erase rid s = (Inr (rid \<in> set (lru s)), s') \<and> store_ok s' \<and>
      lru s' = filter (\<lambda>x. x \<noteq> rid) (lru s) \<and>
      (\<forall>x. map_of (records s') x = (if x = rid then None else map_of (records s) x)))"
proof -
  have ok: "accounted s" and room: "\<not> store_full s"
    using assms by (simp_all add: store_ok_def)
  have present: "rid \<in> set (lru s) \<longleftrightarrow> map_of (records s) rid \<noteq> None"
    using ok by (auto simp: accounted_def map_of_eq_None_iff)
  have rem: "remove1 rid (lru s) = filter (\<lambda>x. x \<noteq> rid) (lru s)"
    using ok by (simp add: accounted_def distinct_remove1_removeAll removeAll_filter_not_eq)
      (metis (mono_tags, lifting) filter_cong)
  have "\<exists>s'. store_erase rid s = (Inr (rid \<in> set (lru s)), s') \<and> store_ok s' \<and>
      lru s' = filter (\<lambda>x. x \<noteq> rid) (lru s) \<and>
      (\<forall>x. map_of (records s') x = (if x = rid then None else map_of (records s) x))"
  proof (cases "map_of (records s) rid")
    case None
    then show ?thesis
      using present assms filter_id_conv [of "\<lambda>x. x \<noteq> rid" "lru s"] by (auto simp: store_erase_def)
  next
    case (Some e)
    obtain s' where s': "erase_locked rid s = (Inr (), s')" "accounted s'"
        "records s' = filter (\<lambda>r. fst r \<noteq> rid) (records s)" "lru s' = remove1 rid (lru s)"
        "max_records s' = max_records s" "max_bytes s' = max_bytes s"
      using erase_locked_result [OF ok Some] by blast
    have "\<not> store_full s'"
      using fewer_not_full [OF ok s'(2) room] s'(3,5,6) by simp
    moreover have "map_of (records s') rid = None"
      by (auto simp: s'(3) map_of_eq_None_iff)
    ultimately show ?thesis
      using Some present s' rem map_of_filter_key [of _ rid "records s"]
      by (auto simp: store_erase_def store_ok_def)
  qed
  moreover have "store_ok (s\<lparr>lru := rid # remove1 rid (lru s)\<rparr>)" if "rid \<in> set (lru s)"
    using assms that by (auto simp: store_ok_def accounted_def store_full_def)
  ultimately show ?thesis
    using present rem assms by (auto simp: store_get_def split: option.splits)
qed

theorem get_and_erase_exact_witness:
  "fst (store_erase ''r1'' sample_store) = Inr False \<and> store_ok (snd (store_get ''r1'' sample_store))"
proof -
  have "''r1'' \<notin> set (lru sample_store)"
    by (simp add: sample_store_def)
  then show ?thesis
    using get_and_erase_exact [OF sample_store_ok, of "''r1''"] by (auto simp: case_prod_beta Let_def)
qed

text \<open>
  A context built by \<open>append_response_context\<close> from a context with exact sums has exact sums (so
  \<open>put\<close> accounts it correctly), and flattening it gives the turns of the parent followed by the new
  turns; the constructor throws only when a sum exceeds the machine size.
\<close>

theorem append_then_flatten:
  assumes "context_ok par" "unat (context_turns par) = length (flatten_response_context par)"
    and "length turns < 2 ^ 64"
  shows "case append_response_context z addr par turns of
      Inl e \<Rightarrow> e = Overflow_error \<and>
        (2 ^ 64 \<le> unat (fold (\<lambda>turn bytes. bytes + estimate_turn_bytes z turn) turns (size_node z)) +
            (\<Sum>n \<leftarrow> par. unat (owned_bytes n)) \<or>
         2 ^ 64 \<le> length turns + length (flatten_response_context par))
    | Inr c \<Rightarrow> tl c = par \<and> context_ok c \<and> flatten_response_context c = flatten_response_context par @ turns \<and>
        unat (context_turns c) = length (flatten_response_context c)"
proof -
  have len: "unat (size_of turns) = length turns"
    using assms(3) by (simp add: size_of_def unat_of_nat take_bit_nat_eq_self)
  have add: "checked_add a b = (if 2 ^ 64 \<le> unat a + unat b then Inl Overflow_error else Inr (a + b))" for a b
    using overflow_test [of a b] by (simp add: checked_add_def)
  have sum: "unat (a + b) = unat a + unat b" if "\<not> 2 ^ 64 \<le> unat a + unat b" for a b :: u64
    using that by (intro unat_add_lem [THEN iffD1]) simp
  show ?thesis
    using assms(1,2) len
    by (auto simp: append_response_context_def Let_def add sum context_ok_def context_bytes_def
        context_turns_def flatten_response_context_def)
qed

theorem append_then_flatten_witness:
  "\<exists>c. append_response_context sample_sizes 7 [] [] = Inr c \<and> context_ok c \<and> flatten_response_context c = []"
proof -
  have "context_ok []" "unat (context_turns []) = length (flatten_response_context [])" "length ([] :: chat_turn list) < 2 ^ 64"
    by (simp_all add: context_ok_def context_bytes_def context_turns_def flatten_response_context_def)
  note append_then_flatten [OF this, of sample_sizes 7]
  moreover have "\<exists>c. append_response_context sample_sizes 7 [] [] = Inr c"
    by (simp add: append_response_context_def sample_sizes_def context_bytes_def context_turns_def size_of_def
        checked_add_def)
  ultimately show ?thesis
    by (auto simp: flatten_response_context_def)
qed

end
