(* ===== verification/Tensors.thy ===== *)
theory Tensors
  imports Voidinfer_Prelude
begin

text \<open>
  Model of \<open>src/core/tensor.h\<close>, \<open>src/core/tensor.cpp\<close>, \<open>src/core/dtype.h\<close> and \<open>src/core/dtype.cpp\<close>: the
  non-owning tensor view, its constructor and its view, reshape, slice and permute operations.

  The dimensions (\<open>std::int32_t\<close>) and strides (\<open>std::int64_t\<close>) are integers; every product the source
  forms goes through \<open>checked_mul_i64\<close>, so no wrap-around occurs where the code does not throw.
  The address of the data is a 64-bit word, zero being the null pointer. The enumerators of \<open>DType\<close>
  are the values the switch of \<open>dtype_size\<close> covers.

  The theorems: every operation returns a well-formed tensor, under its exact conditions; a constructed tensor is
  contiguous and its elements are distinct byte ranges inside \<open>bytes()\<close>; and a view, a slice or a permutation addresses
  exactly the elements of the tensor it was taken from.
\<close>

section \<open>Tensors\<close>

datatype dtype = BF16 | FP32 | I32 | U8 | I64 | I8 | FP16 | FP8_E4M3FN

fun dtype_size :: "dtype \<Rightarrow> int" where
  "dtype_size BF16 = 2"
| "dtype_size FP32 = 4"
| "dtype_size I32 = 4"
| "dtype_size U8 = 1"
| "dtype_size I64 = 8"
| "dtype_size I8 = 1"
| "dtype_size FP16 = 2"
| "dtype_size FP8_E4M3FN = 1"

record tensor =
  data :: u64
  dtype :: dtype
  ne :: "int list"
  nb :: "int list"

definition INT64_MAX :: int where
  "INT64_MAX = 9223372036854775807"

definition SIZE_MAX :: int where
  "SIZE_MAX = 18446744073709551615"

definition checked_mul_i64 :: "int \<Rightarrow> int \<Rightarrow> exn + int" where
  "checked_mul_i64 a b =
     (if a < 0 \<or> b < 0 then Inl Invalid_argument
      else if b \<noteq> 0 \<and> INT64_MAX div b < a then Inl Overflow_error
      else Inr (a * b))"

fun normalize_loop :: "int list \<Rightarrow> nat \<Rightarrow> int list \<Rightarrow> exn + int list" where
  "normalize_loop [] i out = Inr out"
| "normalize_loop (dim # shape) i out =
     (if dim \<le> 0 then Inl Invalid_argument else normalize_loop shape (i + 1) (out[i := dim]))"

definition normalize_shape :: "int list \<Rightarrow> exn + int list" where
  "normalize_shape shape =
     (if shape = [] \<or> 4 < length shape then Inl Invalid_argument
      else normalize_loop shape 0 [1, 1, 1, 1])"

fun numel_loop :: "int list \<Rightarrow> int \<Rightarrow> exn + int" where
  "numel_loop [] tot = Inr tot"
| "numel_loop (dim # shape) tot =
     (if dim \<le> 0 then Inl Invalid_argument
      else case checked_mul_i64 tot dim of
        Inl e \<Rightarrow> Inl e
      | Inr tot' \<Rightarrow> numel_loop shape tot')"

definition shape_numel :: "int list \<Rightarrow> exn + int" where
  "shape_numel shape = numel_loop shape 1"

text \<open>The loop of \<open>set_contiguous_strides\<close> over the indices \<open>i\<close>.\<close>

fun strides_loop :: "nat list \<Rightarrow> int \<Rightarrow> tensor \<Rightarrow> exn + tensor" where
  "strides_loop [] stride t = Inr t"
| "strides_loop (i # is) stride t =
     (case checked_mul_i64 stride (ne t ! (i - 1)) of
        Inl e \<Rightarrow> Inl e
      | Inr stride' \<Rightarrow> strides_loop is stride' (t\<lparr>nb := (nb t)[i := stride']\<rparr>))"

definition set_contiguous_strides :: "tensor \<Rightarrow> exn + tensor" where
  "set_contiguous_strides t =
     strides_loop [1, 2, 3] (dtype_size (dtype t)) (t\<lparr>nb := (nb t)[0 := dtype_size (dtype t)]\<rparr>)"

definition tensor_new :: "u64 \<Rightarrow> dtype \<Rightarrow> int list \<Rightarrow> exn + tensor" where
  "tensor_new data_in dtype_in shape =
     (case normalize_shape shape of
        Inl e \<Rightarrow> Inl e
      | Inr normalized \<Rightarrow>
          set_contiguous_strides \<lparr>data = data_in, dtype = dtype_in, ne = normalized, nb = [0, 0, 0, 0]\<rparr>)"

definition numel :: "tensor \<Rightarrow> exn + int" where
  "numel t = shape_numel (ne t)"

definition tensor_bytes :: "tensor \<Rightarrow> exn + int" where
  "tensor_bytes t =
     (case numel t of
        Inl e \<Rightarrow> Inl e
      | Inr elements \<Rightarrow>
          let elem_size = dtype_size (dtype t) in
          if elements < 0 \<or> SIZE_MAX < elements then Inl Overflow_error
          else if elem_size \<noteq> 0 \<and> SIZE_MAX div elem_size < elements then Inl Overflow_error
          else Inr (elements * elem_size))"

fun contiguous_loop :: "nat list \<Rightarrow> int \<Rightarrow> tensor \<Rightarrow> exn + bool" where
  "contiguous_loop [] expected t = Inr True"
| "contiguous_loop (i # is) expected t =
     (if ne t ! i \<le> 0 then Inr False
      else if ne t ! i \<noteq> 1 \<and> nb t ! i \<noteq> expected then Inr False
      else if i < 3 \<and> ne t ! i \<noteq> 1
      then (case checked_mul_i64 expected (ne t ! i) of
              Inl e \<Rightarrow> if e = Overflow_error then Inr False else Inl e
            | Inr expected' \<Rightarrow> contiguous_loop is expected' t)
      else contiguous_loop is expected t)"

definition is_contiguous :: "tensor \<Rightarrow> exn + bool" where
  "is_contiguous t = contiguous_loop [0, 1, 2, 3] (dtype_size (dtype t)) t"

definition view :: "tensor \<Rightarrow> int list \<Rightarrow> exn + tensor" where
  "view t shape =
     (case is_contiguous t of
        Inl e \<Rightarrow> Inl e
      | Inr c \<Rightarrow>
          if \<not> c then Inl Invalid_argument
          else (case normalize_shape shape of
            Inl e \<Rightarrow> Inl e
          | Inr normalized \<Rightarrow>
              (case shape_numel normalized of
                 Inl e \<Rightarrow> Inl e
               | Inr n \<Rightarrow>
                   (case numel t of
                      Inl e \<Rightarrow> Inl e
                    | Inr n' \<Rightarrow> if n \<noteq> n' then Inl Invalid_argument
                               else tensor_new (data t) (dtype t) shape))))"

definition reshape :: "tensor \<Rightarrow> int list \<Rightarrow> exn + tensor" where
  "reshape t shape = view t shape"

definition slice :: "tensor \<Rightarrow> int \<Rightarrow> int \<Rightarrow> int \<Rightarrow> exn + tensor" where
  "slice t dim start len =
     (if dim < 0 \<or> 4 \<le> dim then Inl Invalid_argument
      else let d = nat dim in
        if start < 0 \<or> len \<le> 0 \<or> ne t ! d < start \<or> ne t ! d - start < len then Inl Invalid_argument
        else (case checked_mul_i64 start (nb t ! d) of
                Inl e \<Rightarrow> Inl e
              | Inr offset \<Rightarrow>
                  Inr (t\<lparr>data := (if data t \<noteq> 0 then data t + of_int offset else data t),
                         ne := (ne t)[d := len]\<rparr>)))"

text \<open>The loop of \<open>permute\<close> that fills \<open>seen\<close> and \<open>dims\<close>.\<close>

fun permute_loop :: "int list \<Rightarrow> nat \<Rightarrow> bool list \<Rightarrow> int list \<Rightarrow> exn + int list" where
  "permute_loop [] i seen dims = Inr dims"
| "permute_loop (dim # order) i seen dims =
     (if dim < 0 \<or> 4 \<le> dim \<or> seen ! nat dim then Inl Invalid_argument
      else permute_loop order (i + 1) (seen[nat dim := True]) (dims[i := dim]))"

definition permute :: "tensor \<Rightarrow> int list \<Rightarrow> exn + tensor" where
  "permute t order =
     (if length order \<noteq> 4 then Inl Invalid_argument
      else case permute_loop order 0 [False, False, False, False] [0, 1, 2, 3] of
        Inl e \<Rightarrow> Inl e
      | Inr dims \<Rightarrow>
          Inr (t\<lparr>ne := map (\<lambda>j. ne t ! nat (dims ! j)) [0, 1, 2, 3],
                 nb := map (\<lambda>j. nb t ! nat (dims ! j)) [0, 1, 2, 3]\<rparr>))"

section \<open>Well-formed tensors and the addresses of their elements\<close>

definition tensor_ok :: "tensor \<Rightarrow> bool" where
  "tensor_ok t \<longleftrightarrow> length (ne t) = 4 \<and> length (nb t) = 4 \<and>
     list_all (\<lambda>n. 0 < n \<and> n \<le> INT32_MAX) (ne t) \<and> list_all (\<lambda>s. 0 \<le> s \<and> s \<le> INT64_MAX) (nb t)"

definition in_range :: "tensor \<Rightarrow> int list \<Rightarrow> bool" where
  "in_range t idx \<longleftrightarrow> length idx = 4 \<and> (\<forall>k < 4. 0 \<le> idx ! k \<and> idx ! k < ne t ! k)"

definition element_offset :: "tensor \<Rightarrow> int list \<Rightarrow> int" where
  "element_offset t idx =
     idx ! 0 * nb t ! 0 + idx ! 1 * nb t ! 1 + idx ! 2 * nb t ! 2 + idx ! 3 * nb t ! 3"

definition element_address :: "tensor \<Rightarrow> int list \<Rightarrow> u64" where
  "element_address t idx = data t + of_int (element_offset t idx)"

lemma dtype_size_pos: "0 < dtype_size ty" "dtype_size ty \<le> 8"
  by (cases ty; simp)+

lemma int_div_less_iff:
  fixes a b m :: int
  assumes "0 < b"
  shows "m div b < a \<longleftrightarrow> m < a * b"
proof
  assume "m div b < a"
  then have "m div b + 1 \<le> a"
    by simp
  then have "(m div b + 1) * b \<le> a * b"
    using assms by (simp only: mult_right_mono less_imp_le)
  moreover have "m mod b < b"
    using assms by simp
  ultimately show "m < a * b"
    using div_mult_mod_eq [of m b] unfolding distrib_right by linarith
next
  assume "m < a * b"
  then have "\<not> a \<le> m div b"
    using assms mult_right_mono [of a "m div b" b] pos_mod_sign [of b m] mult_div_mod_eq [of b m]
    by (smt (verit) mult.commute)
  then show "m div b < a"
    by simp
qed

lemma checked_mul_i64_Inr:
  "checked_mul_i64 a b = Inr c \<longleftrightarrow> 0 \<le> a \<and> 0 \<le> b \<and> (b = 0 \<or> a * b \<le> INT64_MAX) \<and> c = a * b"
  by (cases "0 < b") (auto simp: checked_mul_i64_def int_div_less_iff)

lemma normalize_loop_length: "normalize_loop shape i out = Inr out' \<Longrightarrow> length out' = length out"
  by (induction shape i out rule: normalize_loop.induct) (auto split: if_splits)

lemma length4: "length xs = 4 \<longleftrightarrow> (\<exists>a b c d. xs = [a, b, c, d])"
  by (auto simp: numeral_eq_Suc length_Suc_conv)

lemma less4: "(\<forall>k < 4. P k) \<longleftrightarrow> P 0 \<and> P 1 \<and> P 2 \<and> P (3 :: nat)"
  by (auto simp: numeral_eq_Suc less_Suc_eq)

lemma normalize_loop_all:
  assumes "normalize_loop shape i out = Inr out'" "list_all P out" "list_all (\<lambda>n. 0 < n \<longrightarrow> P n) shape"
  shows "list_all P out'"
  using assms
proof (induction shape i out rule: normalize_loop.induct)
  case (2 dim shape i out)
  have "list_all P (out[i := dim])"
    using 2(2,3,4) set_update_subset_insert [of out i dim] by (auto simp: list_all_iff split: if_splits)
  then show ?case
    using 2 by (simp split: if_splits)
qed simp

text \<open>The shape and the strides of a constructed tensor.\<close>

lemma tensor_new_strides:
  assumes "tensor_new d ty shape = Inr t"
  shows "\<exists>a b c e. ne t = [a, b, c, e] \<and> normalize_shape shape = Inr (ne t) \<and> data t = d \<and> dtype t = ty \<and>
    0 < a \<and> 0 < b \<and> 0 < c \<and> 0 < e \<and>
    nb t = [dtype_size ty, dtype_size ty * a, dtype_size ty * a * b, dtype_size ty * a * b * c] \<and>
    list_all (\<lambda>s. 0 \<le> s \<and> s \<le> INT64_MAX) (nb t)"
proof -
  obtain out where out: "normalize_shape shape = Inr out"
    using assms by (auto simp: tensor_new_def split: sum.splits)
  then have loop: "normalize_loop shape 0 [1, 1, 1, 1] = Inr out"
    by (simp add: normalize_shape_def split: if_splits)
  then have "length out = 4"
    using normalize_loop_length by force
  then obtain a b c e where abce: "out = [a, b, c, e]"
    by (auto simp: length4)
  note norm = out [unfolded abce]
  have "list_all (\<lambda>n. 0 < n) [a, b, c, e]"
    using normalize_loop_all [OF loop, of "\<lambda>n. 0 < n"] by (simp add: abce list_all_iff)
  moreover have "dtype_size ty \<le> INT64_MAX"
    using dtype_size_pos(2) [of ty] by (simp add: INT64_MAX_def)
  ultimately show ?thesis
    using assms norm dtype_size_pos(1) [of ty]
    by (auto simp: tensor_new_def set_contiguous_strides_def checked_mul_i64_Inr list_all_iff numeral_eq_Suc
        split: sum.splits)
qed

lemma normalize_shape_pos:
  assumes "normalize_shape shape = Inr out" "list_all (\<lambda>n. n \<le> INT32_MAX) shape"
  shows "length out = 4" "list_all (\<lambda>n. 0 < n \<and> n \<le> INT32_MAX) out"
  using assms normalize_loop_length [of shape 0 "[1, 1, 1, 1]" out]
    normalize_loop_all [of shape 0 "[1, 1, 1, 1]" out "\<lambda>n. 0 < n \<and> n \<le> INT32_MAX"]
  by (auto simp: normalize_shape_def INT32_MAX_def list_all_iff split: if_splits)

lemma tensor_new_ok:
  assumes "tensor_new d ty shape = Inr t" "list_all (\<lambda>n. n \<le> INT32_MAX) shape"
  shows "tensor_ok t"
  using tensor_new_strides [OF assms(1)] normalize_shape_pos [OF _ assms(2)]
  by (auto simp: tensor_ok_def)

lemma view_Inr:
  assumes "view t shape = Inr t'"
  shows "tensor_new (data t) (dtype t) shape = Inr t' \<and> numel t' = numel t \<and> is_contiguous t = Inr True"
  using assms tensor_new_strides [of "data t" "dtype t" shape t']
  by (auto simp: view_def numel_def split: sum.splits if_splits)

lemma slice_Inr:
  assumes "slice t dim start len = Inr t'"
  shows "0 \<le> dim \<and> dim < 4 \<and> 0 \<le> start \<and> 0 < len \<and> start + len \<le> ne t ! nat dim \<and>
    nb t' = nb t \<and> dtype t' = dtype t \<and> ne t' = (ne t)[nat dim := len] \<and>
    data t' = (if data t \<noteq> 0 then data t + of_int (start * nb t ! nat dim) else data t)"
  using assms by (auto simp: slice_def Let_def checked_mul_i64_Inr split: sum.splits if_splits)

lemma permute_loop_Inr:
  assumes "permute_loop order i seen dims = Inr dims'" "length seen = 4" "i + length order = length dims"
  shows "(\<forall>k \<in> set order. 0 \<le> k \<and> k < 4 \<and> \<not> seen ! nat k) \<and> distinct order \<and> dims' = take i dims @ order"
  using assms
proof (induction order i seen dims rule: permute_loop.induct)
  case (2 dim order i seen dims)
  then have IH: "(\<forall>k \<in> set order. 0 \<le> k \<and> k < 4 \<and> \<not> seen[nat dim := True] ! nat k) \<and> distinct order \<and>
      dims' = take (i + 1) (dims[i := dim]) @ order"
    and dim: "0 \<le> dim" "dim < 4" "\<not> seen ! nat dim"
    by (auto split: if_splits)
  have "\<not> seen ! nat k \<and> k \<noteq> dim" if "k \<in> set order" for k
    using IH that dim 2(3) by (cases "nat k = nat dim") (auto simp: nth_list_update)
  moreover have "take (i + 1) (dims[i := dim]) = take i dims @ [dim]"
    using 2(4) by (simp add: take_Suc_conv_app_nth)
  ultimately show ?case
    using IH dim by auto
qed auto

lemma permute_Inr:
  assumes "permute t order = Inr t'"
  shows "length order = 4 \<and> distinct order \<and> (\<forall>k \<in> set order. 0 \<le> k \<and> k < 4) \<and>
    ne t' = map (\<lambda>k. ne t ! nat k) order \<and> nb t' = map (\<lambda>k. nb t ! nat k) order \<and>
    data t' = data t \<and> dtype t' = dtype t"
proof -
  have len: "length order = 4"
    using assms by (simp add: permute_def split: if_splits)
  then obtain dims where loop: "permute_loop order 0 [False, False, False, False] [0, 1, 2, 3] = Inr dims"
    using assms by (auto simp: permute_def split: sum.splits)
  then have "dims = order" "distinct order" "\<forall>k \<in> set order. 0 \<le> k \<and> k < 4"
    using permute_loop_Inr [OF loop] len by auto
  moreover have "map (\<lambda>j. f (order ! j)) [0, 1, 2, 3] = map f order" for f :: "int \<Rightarrow> int"
    using len by (auto simp: length4)
  ultimately show ?thesis
    using assms len loop by (auto simp: permute_def)
qed

text \<open>Slices and permutations of well-formed tensors are well-formed.\<close>

lemma slice_ok:
  assumes "tensor_ok t" "slice t dim start len = Inr t'"
  shows "tensor_ok t'"
proof -
  obtain a b c e where "ne t = [a, b, c, e]"
    using assms(1) by (auto simp: tensor_ok_def length4)
  moreover have "nat dim \<in> {0, 1, 2, 3}"
    using slice_Inr [OF assms(2)] by auto
  ultimately show ?thesis
    using slice_Inr [OF assms(2)] assms(1) by (auto simp: tensor_ok_def)
qed

lemma permute_ok:
  assumes "tensor_ok t" "permute t order = Inr t'"
  shows "tensor_ok t'"
proof -
  have "\<forall>k \<in> set order. nat k < 4"
    using permute_Inr [OF assms(2)] by auto
  then show ?thesis
    using permute_Inr [OF assms(2)] assms(1) by (simp add: tensor_ok_def list_all_length)
qed

definition sample_tensor :: tensor where
  "sample_tensor = \<lparr>data = 4096, dtype = BF16, ne = [3, 2, 1, 1], nb = [2, 6, 12, 12]\<rparr>"

lemma sample_tensor_new: "tensor_new 4096 BF16 [3, 2] = Inr sample_tensor"
  by code_simp

section \<open>Element ranges\<close>

text \<open>Mixed-radix numbers: the linear index of an element in a contiguous tensor.\<close>

lemma radix_bound:
  fixes i a q m :: int
  assumes "0 \<le> i" "i < a" "0 \<le> q" "q < m"
  shows "0 \<le> i + a * q" "i + a * q < a * m"
proof -
  have "a * (q + 1) \<le> a * m"
    using assms by (intro mult_left_mono) auto
  then show "i + a * q < a * m"
    using assms(2) by (simp add: distrib_left)
qed (use assms in simp)

lemma radix_inj:
  fixes i j a q r :: int
  assumes "i + a * q = j + a * r" "0 \<le> i" "i < a" "0 \<le> j" "j < a"
  shows "i = j \<and> q = r"
proof -
  have "(i + a * q) mod a = i" "(j + a * r) mod a = j"
    using assms(2-5) by simp_all
  then have "i = j"
    using assms(1) by simp
  then show ?thesis
    using assms by simp
qed

definition linear_index :: "tensor \<Rightarrow> int list \<Rightarrow> int" where
  "linear_index t idx = idx ! 0 + ne t ! 0 * (idx ! 1 + ne t ! 1 * (idx ! 2 + ne t ! 2 * idx ! 3))"

lemma linear_index_bound:
  assumes "length (ne t) = 4" "in_range t idx"
  shows "0 \<le> linear_index t idx" "linear_index t idx < ne t ! 0 * (ne t ! 1 * (ne t ! 2 * ne t ! 3))"
  using assms unfolding in_range_def less4 linear_index_def by (auto intro!: radix_bound)

lemma less_4_cases: "k < 4 \<Longrightarrow> k = 0 \<or> k = 1 \<or> k = 2 \<or> k = (3 :: nat)"
  by auto

lemma linear_index_inj:
  assumes "in_range t idx" "in_range t idx'" "linear_index t idx = linear_index t idx'"
  shows "idx = idx'"
proof -
  have "idx ! 0 = idx' ! 0 \<and> idx ! 1 = idx' ! 1 \<and> idx ! 2 = idx' ! 2 \<and> idx ! 3 = idx' ! 3"
    using assms unfolding in_range_def less4 linear_index_def by (metis radix_inj)
  then show ?thesis
    using assms(1,2) less_4_cases by (intro nth_equalityI) (auto simp: in_range_def)
qed

lemma new_element_offset:
  assumes "tensor_new d ty shape = Inr t"
  shows "element_offset t idx = dtype_size ty * linear_index t idx"
  using tensor_new_strides [OF assms]
  by (auto simp: element_offset_def linear_index_def algebra_simps)

lemma numel_product:
  assumes "length (ne t) = 4" "numel t = Inr n"
  shows "n = ne t ! 0 * (ne t ! 1 * (ne t ! 2 * ne t ! 3))"
  using assms by (auto simp: numel_def shape_numel_def length4 checked_mul_i64_Inr mult.assoc
      split: if_splits sum.splits)

lemma new_contiguous:
  assumes "tensor_new d ty shape = Inr t"
  shows "is_contiguous t = Inr True"
proof -
  obtain a b c e where t: "ne t = [a, b, c, e]" "dtype t = ty"
      and pos: "0 < a" "0 < b" "0 < c" "0 < e"
      and nb:
      "nb t = [dtype_size ty, dtype_size ty * a, dtype_size ty * a * b, dtype_size ty * a * b * c]"
      "list_all (\<lambda>s. 0 \<le> s \<and> s \<le> INT64_MAX) (nb t)"
    using tensor_new_strides [OF assms] by blast
  have mul: "checked_mul_i64 (dtype_size ty) a = Inr (dtype_size ty * a)"
      "checked_mul_i64 (dtype_size ty * a) b = Inr (dtype_size ty * a * b)"
      "checked_mul_i64 (dtype_size ty * a * b) c = Inr (dtype_size ty * a * b * c)"
    using nb pos by (simp_all add: checked_mul_i64_Inr)
  show ?thesis
    using pos mul unfolding is_contiguous_def
    by (cases "a = 1"; cases "b = 1"; cases "c = 1") (simp_all add: t nb)
qed

text \<open>
  A constructed tensor is contiguous, and when \<open>bytes()\<close> succeeds the elements of in-range indices
  are pairwise disjoint byte ranges, all inside the first \<open>bytes()\<close> bytes of the data.
\<close>

theorem constructed_tensor_bounds:
  assumes "tensor_new d ty shape = Inr t" "tensor_bytes t = Inr n"
    and "in_range t idx" "in_range t idx'"
  shows "is_contiguous t = Inr True \<and>
    0 \<le> element_offset t idx \<and> element_offset t idx + dtype_size ty \<le> n \<and>
    (idx \<noteq> idx' \<longrightarrow> element_offset t idx + dtype_size ty \<le> element_offset t idx' \<or>
      element_offset t idx' + dtype_size ty \<le> element_offset t idx)"
proof -
  have len: "length (ne t) = 4" and ty: "dtype t = ty"
    using tensor_new_strides [OF assms(1)] by auto
  let ?s = "dtype_size ty" and ?l = "linear_index t"
  obtain m where m: "numel t = Inr m" "n = m * ?s"
    using assms(2) ty by (auto simp: tensor_bytes_def Let_def split: sum.splits if_splits)
  have "0 \<le> ?l idx" "?l idx + 1 \<le> m"
    using linear_index_bound [OF len assms(3)] numel_product [OF len m(1)] by simp_all
  then have "0 \<le> ?s * ?l idx" "?s * (?l idx + 1) \<le> ?s * m"
    using dtype_size_pos(1) [of ty] by (auto intro!: mult_left_mono)
  moreover have "?s * (?l idx + 1) \<le> ?s * ?l idx' \<or> ?s * (?l idx' + 1) \<le> ?s * ?l idx" if "idx \<noteq> idx'"
  proof -
    have "?l idx + 1 \<le> ?l idx' \<or> ?l idx' + 1 \<le> ?l idx"
      using linear_index_inj [OF assms(3,4)] that by linarith
    then show ?thesis
      using dtype_size_pos(1) [of ty] by (auto intro!: mult_left_mono)
  qed
  ultimately show ?thesis
    using new_contiguous [OF assms(1)]
    by (simp add: new_element_offset [OF assms(1)] m(2) distrib_left mult.commute)
qed

theorem constructed_tensor_bounds_witness:
  "tensor_bytes sample_tensor = Inr 12 \<and> element_offset sample_tensor [2, 1, 0, 0] = 10 \<and>
   element_offset sample_tensor [2, 1, 0, 0] + dtype_size BF16 \<le> 12"
proof -
  have n: "tensor_bytes sample_tensor = Inr 12" "element_offset sample_tensor [2, 1, 0, 0] = 10"
    by code_simp+
  have "in_range sample_tensor [2, 1, 0, 0]"
    by (simp add: in_range_def less4 sample_tensor_def)
  then show ?thesis
    using constructed_tensor_bounds [OF sample_tensor_new n(1), of "[2, 1, 0, 0]" "[2, 1, 0, 0]"] n by simp
qed

lemma slice_in_range:
  assumes "tensor_ok t" "slice t dim start len = Inr t'" "in_range t' idx"
  shows "in_range t (idx[nat dim := idx ! nat dim + start])"
    "element_offset t (idx[nat dim := idx ! nat dim + start]) = element_offset t' idx + start * nb t ! nat dim"
proof -
  note sl = slice_Inr [OF assms(2)]
  have len: "length (ne t) = 4" "length idx = 4"
    using assms(1,3) by (auto simp: tensor_ok_def in_range_def)
  have "0 \<le> idx[nat dim := idx ! nat dim + start] ! k \<and> idx[nat dim := idx ! nat dim + start] ! k < ne t ! k"
    if "k < 4" for k
    using assms(3) that sl len by (cases "k = nat dim") (fastforce simp: in_range_def)+
  then show "in_range t (idx[nat dim := idx ! nat dim + start])"
    using len by (simp add: in_range_def)
  have "nat dim \<in> {0, 1, 2, 3}"
    using sl by auto
  then show "element_offset t (idx[nat dim := idx ! nat dim + start]) = element_offset t' idx + start * nb t ! nat dim"
    using sl len by (auto simp: element_offset_def nth_list_update distrib_right)
qed

lemma permute_in_range:
  assumes "permute t order = Inr t'" "in_range t idx"
  shows "in_range t' (map (\<lambda>k. idx ! nat k) order)"
    "element_offset t' (map (\<lambda>k. idx ! nat k) order) = element_offset t idx"
proof -
  note pm = permute_Inr [OF assms(1)]
  have "nat (order ! j) < 4" if "j < 4" for j
    using pm that by (metis nat_less_iff nth_mem of_nat_numeral)
  then show "in_range t' (map (\<lambda>k. idx ! nat k) order)"
    using pm assms(2) by (simp add: in_range_def)
  let ?g = "\<lambda>k. idx ! nat k * nb t ! nat k"
  have "set order = {0..<4}"
    using pm by (intro card_subset_eq) (auto simp: distinct_card)
  then have "sum_list (map ?g order) = sum ?g {0..<4}"
    using pm sum_list_distinct_conv_sum_set [of order ?g] by simp
  also have "{0..<4 :: int} = {0, 1, 2, 3}"
    by auto
  finally have "sum_list (map ?g order) = element_offset t idx"
    by (simp add: element_offset_def)
  moreover obtain a b c d where "order = [a, b, c, d]"
    using pm by (auto simp: length4)
  ultimately show "element_offset t' (map (\<lambda>k. idx ! nat k) order) = element_offset t idx"
    using pm by (simp add: element_offset_def)
qed

text \<open>
  A slice and a permutation address elements of the tensor they were taken from: the element of
  a slice at an in-range index is the element of the tensor at the index shifted by \<open>start\<close> in the
  sliced dimension, which is in range there; permuting the coordinates of any in-range index of a
  tensor by \<open>order\<close> gives an in-range index of the permuted tensor at the same address.
\<close>

theorem slice_and_permute_alias:
  assumes "tensor_ok t" "data t \<noteq> 0"
  shows "(\<forall>dim start len t' idx. slice t dim start len = Inr t' \<and> in_range t' idx \<longrightarrow>
      in_range t (idx[nat dim := idx ! nat dim + start]) \<and>
      element_address t' idx = element_address t (idx[nat dim := idx ! nat dim + start])) \<and>
    (\<forall>order t' idx. permute t order = Inr t' \<and> in_range t idx \<longrightarrow>
      in_range t' (map (\<lambda>k. idx ! nat k) order) \<and>
      element_address t' (map (\<lambda>k. idx ! nat k) order) = element_address t idx)"
proof (intro conjI allI impI; elim conjE)
  fix dim start len t' idx
  assume sl: "slice t dim start len = Inr t'" and idx: "in_range t' idx"
  show "in_range t (idx[nat dim := idx ! nat dim + start])"
    by (rule slice_in_range(1) [OF assms(1) sl idx])
  show "element_address t' idx = element_address t (idx[nat dim := idx ! nat dim + start])"
    using slice_Inr [OF sl] assms(2)
    by (simp add: element_address_def slice_in_range(2) [OF assms(1) sl idx])
next
  fix order t' idx
  assume pm: "permute t order = Inr t'" and idx: "in_range t idx"
  show "in_range t' (map (\<lambda>k. idx ! nat k) order)"
    by (rule permute_in_range(1) [OF pm idx])
  show "element_address t' (map (\<lambda>k. idx ! nat k) order) = element_address t idx"
    using permute_Inr [OF pm] by (simp add: element_address_def permute_in_range(2) [OF pm idx])
qed

theorem slice_and_permute_alias_witness:
  "permute sample_tensor [1, 0, 2, 3] = Inr (sample_tensor\<lparr>ne := [2, 3, 1, 1], nb := [6, 2, 12, 12]\<rparr>) \<and>
   element_address (sample_tensor\<lparr>ne := [2, 3, 1, 1], nb := [6, 2, 12, 12]\<rparr>) [1, 2, 0, 0] =
     element_address sample_tensor [2, 1, 0, 0]"
proof -
  have p: "permute sample_tensor [1, 0, 2, 3] = Inr (sample_tensor\<lparr>ne := [2, 3, 1, 1], nb := [6, 2, 12, 12]\<rparr>)"
    "tensor_ok sample_tensor" "data sample_tensor \<noteq> 0"
    by code_simp+
  have "in_range sample_tensor [2, 1, 0, 0]"
    by (simp add: in_range_def less4 sample_tensor_def)
  then have "element_address (sample_tensor\<lparr>ne := [2, 3, 1, 1], nb := [6, 2, 12, 12]\<rparr>)
      (map (\<lambda>k. [2, 1, 0, 0] ! nat k) [1, 0, 2, 3]) = element_address sample_tensor [2, 1, 0, 0]"
    using slice_and_permute_alias [OF p(2,3)] p(1) by blast
  then show ?thesis
    using p(1) by simp
qed

section \<open>Exact results of the operations\<close>

text \<open>A tensor is packed when its elements follow each other in the order of their linear index.\<close>

definition packed :: "tensor \<Rightarrow> bool" where
  "packed t \<longleftrightarrow> (\<forall>idx. in_range t idx \<longrightarrow> element_offset t idx = dtype_size (dtype t) * linear_index t idx)"

definition shape_ok :: "int list \<Rightarrow> bool" where
  "shape_ok shape \<longleftrightarrow> shape \<noteq> [] \<and> length shape \<le> 4 \<and> list_all (\<lambda>n. 0 < n) shape"

definition four_dims :: "int list \<Rightarrow> int list" where
  "four_dims shape = shape @ replicate (4 - length shape) 1"

lemma normalize_loop_result:
  assumes "i + length shape \<le> length out"
  shows "normalize_loop shape i out =
    (if list_all (\<lambda>n. 0 < n) shape then Inr (take i out @ shape @ drop (i + length shape) out) else Inl Invalid_argument)"
  using assms
proof (induction shape arbitrary: i out)
  case (Cons dim shape)
  have "take (i + 1) (out[i := dim]) @ xs = take i out @ dim # xs" for xs
    using Cons.prems by (simp add: take_Suc_conv_app_nth)
  then show ?case
    using Cons by auto
qed simp

lemma normalize_shape_result:
  "normalize_shape shape = (if shape_ok shape then Inr (four_dims shape) else Inl Invalid_argument)"
proof (cases "shape = [] \<or> 4 < length shape")
  case False
  then have "drop (length shape) [1, 1, 1, 1] = replicate (4 - length shape) (1 :: int)"
    using drop_replicate [of "length shape" 4 "1 :: int"] by (simp add: numeral_eq_Suc)
  then show ?thesis
    using False normalize_loop_result [of 0 shape "[1, 1, 1, 1]"] by (auto simp: normalize_shape_def shape_ok_def four_dims_def)
qed (auto simp: normalize_shape_def shape_ok_def)

lemma prod_list_pos: "list_all (\<lambda>n. 0 < n) ns \<Longrightarrow> 1 \<le> prod_list (ns :: int list)"
  by (induction ns) (auto simp: int_one_le_iff_zero_less)

lemma numel_loop_result:
  "list_all (\<lambda>n. 0 < n) ns \<Longrightarrow> 0 \<le> tot \<Longrightarrow> tot * prod_list ns \<le> INT64_MAX \<Longrightarrow> numel_loop ns tot = Inr (tot * prod_list ns)"
proof (induction ns arbitrary: tot)
  case (Cons n ns)
  have "tot * n * 1 \<le> tot * n * prod_list ns"
    using Cons.prems(1,2) prod_list_pos [of ns] by (intro mult_left_mono) auto
  then have "checked_mul_i64 tot n = Inr (tot * n)"
    using Cons.prems by (simp add: checked_mul_i64_Inr mult.assoc)
  then show ?case
    using Cons.IH [of "tot * n"] Cons.prems by (simp add: mult.assoc)
qed simp

lemma packed_strides:
  assumes "tensor_ok t" "ne t = [a, b, c, e]" "nb t = [p, q, r, s]"
  shows "packed t \<longleftrightarrow> (a \<noteq> 1 \<longrightarrow> p = dtype_size (dtype t)) \<and> (b \<noteq> 1 \<longrightarrow> q = dtype_size (dtype t) * a) \<and>
    (c \<noteq> 1 \<longrightarrow> r = dtype_size (dtype t) * (a * b)) \<and> (e \<noteq> 1 \<longrightarrow> s = dtype_size (dtype t) * (a * (b * c)))"
    (is "_ \<longleftrightarrow> ?strides")
proof
  assume P: "packed t"
  have pos: "0 < a" "0 < b" "0 < c" "0 < e"
    using assms by (auto simp: tensor_ok_def)
  have at: "element_offset t idx = dtype_size (dtype t) * linear_index t idx" if "in_range t idx" for idx
    using P that by (simp add: packed_def)
  show ?strides
    using at [of "[1, 0, 0, 0]"] at [of "[0, 1, 0, 0]"] at [of "[0, 0, 1, 0]"] at [of "[0, 0, 0, 1]"] pos
    by (auto simp: in_range_def less4 element_offset_def linear_index_def assms(2,3))
next
  assume S: ?strides
  show "packed t"
    unfolding packed_def
  proof (intro allI impI)
    fix idx assume "in_range t idx"
    then obtain i j k l where idx: "idx = [i, j, k, l]" "0 \<le> i" "i < a" "0 \<le> j" "j < b" "0 \<le> k" "k < c" "0 \<le> l" "l < e"
      by (auto simp: in_range_def less4 assms(2) length4)
    let ?s = "dtype_size (dtype t)"
    have eqs: "i * p = i * ?s" "j * q = j * (?s * a)" "k * r = k * (?s * (a * b))" "l * s = l * (?s * (a * (b * c)))"
      using S idx by (cases "a = 1"; cases "b = 1"; cases "c = 1"; cases "e = 1"; simp)+
    have "element_offset t idx = i * p + j * q + k * r + l * s"
      by (simp add: element_offset_def assms(3) idx(1))
    also have "\<dots> = ?s * linear_index t idx"
      unfolding eqs by (simp add: linear_index_def assms(2) idx(1) algebra_simps)
    finally show "element_offset t idx = ?s * linear_index t idx" .
  qed
qed

lemma contiguous_packed:
  assumes "tensor_ok t"
  shows "is_contiguous t = Inr True \<Longrightarrow> packed t"
    and "packed t \<Longrightarrow> dtype_size (dtype t) * prod_list (ne t) \<le> INT64_MAX \<Longrightarrow> is_contiguous t = Inr True"
proof -
  obtain a b c e p q r s where t: "ne t = [a, b, c, e]" "nb t = [p, q, r, s]"
    using assms by (auto simp: tensor_ok_def length4)
  have pos: "0 < a" "0 < b" "0 < c" "0 < e"
    using assms t by (auto simp: tensor_ok_def)
  let ?s = "dtype_size (dtype t)"
  show "packed t" if "is_contiguous t = Inr True"
    using that pos unfolding packed_strides [OF assms t] is_contiguous_def
    by (cases "a = 1"; cases "b = 1"; cases "c = 1")
      (auto simp: t checked_mul_i64_Inr mult.assoc split: if_splits sum.splits)
  assume packed: "packed t" and fits: "?s * prod_list (ne t) \<le> INT64_MAX"
  have le: "x * 1 \<le> x * y" if "0 < x" "0 < y" for x y :: int
    using that by (intro mult_left_mono) auto
  have sizes: "0 < ?s" "0 < ?s * a" "0 < ?s * a * b" "0 < ?s * a * b * c"
    using pos dtype_size_pos(1) [of "dtype t"] by simp_all
  have "?s * a * b * c \<le> INT64_MAX"
    using fits le [OF sizes(4) pos(4)] by (simp add: t mult.assoc)
  moreover from this have "?s * a * b \<le> INT64_MAX"
    using le [OF sizes(3) pos(3)] by simp
  moreover from this have "?s * a \<le> INT64_MAX"
    using le [OF sizes(2) pos(2)] by simp
  ultimately have mul: "checked_mul_i64 ?s a = Inr (?s * a)" "checked_mul_i64 (?s * a) b = Inr (?s * a * b)"
      "checked_mul_i64 (?s * a * b) c = Inr (?s * a * b * c)"
    using sizes pos by (simp_all add: checked_mul_i64_Inr)
  show "is_contiguous t = Inr True"
    using packed [unfolded packed_strides [OF assms t]] pos mul unfolding is_contiguous_def
    by (cases "a = 1"; cases "b = 1"; cases "c = 1") (auto simp: t mult.assoc)
qed


text \<open>When the constructor and \<open>view\<close> succeed, and with what.\<close>

lemma tensor_new_result:
  assumes "tensor_new d ty shape = Inr t"
  shows "packed t" "data t = d" "dtype t = ty" "ne t = four_dims shape" "shape_ok shape"
proof -
  show "packed t"
    using new_element_offset [OF assms] tensor_new_strides [OF assms] by (auto simp: packed_def)
  show "data t = d" "dtype t = ty" "ne t = four_dims shape" "shape_ok shape"
    using tensor_new_strides [OF assms] by (auto simp: normalize_shape_result split: if_splits)
qed

lemma four_dims_props:
  assumes "shape_ok shape"
  shows "length (four_dims shape) = 4" "list_all (\<lambda>n. 0 < n) (four_dims shape)" "prod_list (four_dims shape) = prod_list shape"
proof -
  have "prod_list (replicate n (1 :: int)) = 1" for n
    by (induction n) simp_all
  then show "length (four_dims shape) = 4" "list_all (\<lambda>n. 0 < n) (four_dims shape)" "prod_list (four_dims shape) = prod_list shape"
    using assms by (auto simp: shape_ok_def four_dims_def list_all_iff)
qed

lemma tensor_new_succeeds:
  assumes "shape_ok shape" "dtype_size ty * prod_list shape \<le> INT64_MAX"
  shows "ok (tensor_new d ty shape)"
proof -
  obtain a b c e where dims: "four_dims shape = [a, b, c, e]"
    using four_dims_props(1) [OF assms(1)] by (auto simp: length4)
  have pos: "0 < a" "0 < b" "0 < c" "0 < e"
    using four_dims_props(2) [OF assms(1)] by (auto simp: dims)
  let ?s = "dtype_size ty"
  have le: "x * 1 \<le> x * y" if "0 < x" "0 < y" for x y :: int
    using that by (intro mult_left_mono) auto
  have sizes: "0 < ?s" "0 < ?s * a" "0 < ?s * a * b" "0 < ?s * a * b * c"
    using pos dtype_size_pos(1) [of ty] by simp_all
  have "?s * a * b * c \<le> INT64_MAX"
    using assms(2) four_dims_props(3) [OF assms(1)] le [OF sizes(4) pos(4)] by (simp add: dims mult.assoc)
  moreover from this have "?s * a * b \<le> INT64_MAX"
    using le [OF sizes(3) pos(3)] by simp
  moreover from this have "?s * a \<le> INT64_MAX"
    using le [OF sizes(2) pos(2)] by simp
  ultimately have "checked_mul_i64 ?s a = Inr (?s * a)" "checked_mul_i64 (?s * a) b = Inr (?s * a * b)"
      "checked_mul_i64 (?s * a * b) c = Inr (?s * a * b * c)"
    using sizes pos by (simp_all add: checked_mul_i64_Inr)
  then show ?thesis
    using assms(1) by (simp add: tensor_new_def normalize_shape_result dims set_contiguous_strides_def)
qed

lemma view_result:
  assumes "tensor_ok t" "list_all (\<lambda>n. n \<le> INT32_MAX) shape" "view t shape = Inr t'"
  shows "tensor_ok t' \<and> packed t \<and> packed t' \<and> data t' = data t \<and> dtype t' = dtype t \<and> ne t' = four_dims shape \<and>
    prod_list (ne t') = prod_list (ne t)"
proof -
  note V = view_Inr [OF assms(3)]
  note N = tensor_new_result [OF conjunct1 [OF V]]
  obtain n where n: "numel t = Inr n"
    using assms(3) by (auto simp: view_def split: sum.splits if_splits)
  have four: "length (ne t) = 4" "length (ne t') = 4"
    using assms(1) tensor_new_ok [OF conjunct1 [OF V] assms(2)] by (auto simp: tensor_ok_def)
  have "prod_list (ne u) = ne u ! 0 * (ne u ! 1 * (ne u ! 2 * ne u ! 3))" if "length (ne u) = 4" for u :: tensor
    using that by (auto simp: length4)
  then have "prod_list (ne t') = prod_list (ne t)"
    using four numel_product [OF four(1) n] numel_product [OF four(2), of n] V n by simp
  then show ?thesis
    using N V contiguous_packed(1) [OF assms(1)] tensor_new_ok [OF conjunct1 [OF V] assms(2)] by simp
qed

lemma view_succeeds:
  assumes "tensor_ok t" "packed t" "shape_ok shape" "prod_list shape = prod_list (ne t)" "dtype_size (dtype t) * prod_list shape \<le> INT64_MAX"
  shows "ok (view t shape)"
proof -
  have pos: "list_all (\<lambda>n. 0 < n) (ne t)"
    using assms(1) by (auto simp: tensor_ok_def list_all_iff)
  have "1 * prod_list shape \<le> dtype_size (dtype t) * prod_list shape"
    using dtype_size_pos(1) [of "dtype t"] prod_list_pos [of shape] assms(3) by (intro mult_right_mono) (auto simp: shape_ok_def)
  then have small: "prod_list shape \<le> INT64_MAX"
    using assms(5) by simp
  then have "numel t = Inr (prod_list shape)" "shape_numel (four_dims shape) = Inr (prod_list shape)"
    using numel_loop_result [of "ne t" 1] numel_loop_result [of "four_dims shape" 1] pos assms(4) four_dims_props [OF assms(3)]
    by (simp_all add: numel_def shape_numel_def)
  then show ?thesis
    using contiguous_packed(2) [OF assms(1,2)] assms(3-5) tensor_new_succeeds [OF assms(3,5)]
    by (simp add: view_def normalize_shape_result)
qed

text \<open>Elements with the same linear index are the same element of two packed tensors on the same data.\<close>

lemma packed_alias:
  assumes "packed t" "packed t'" "data t' = data t" "dtype t' = dtype t" "in_range t idx" "in_range t' idx'"
    and "linear_index t' idx' = linear_index t idx"
  shows "element_address t' idx' = element_address t idx"
  using assms by (simp add: element_address_def packed_def)

lemma slice_succeeds:
  "ok (slice t dim start len) \<longleftrightarrow> 0 \<le> dim \<and> dim < 4 \<and> 0 \<le> start \<and> 0 < len \<and> start + len \<le> ne t ! nat dim \<and>
     0 \<le> nb t ! nat dim \<and> start * nb t ! nat dim \<le> INT64_MAX"
proof -
  have mul: "ok (checked_mul_i64 start s) \<longleftrightarrow> 0 \<le> start \<and> 0 \<le> s \<and> start * s \<le> INT64_MAX" for s
    by (cases "0 < s") (auto simp: checked_mul_i64_def int_div_less_iff INT64_MAX_def not_less)
  have "ok (slice t dim start len) \<longleftrightarrow> \<not> (dim < 0 \<or> 4 \<le> dim) \<and>
      \<not> (start < 0 \<or> len \<le> 0 \<or> ne t ! nat dim < start \<or> ne t ! nat dim - start < len) \<and> ok (checked_mul_i64 start (nb t ! nat dim))"
    by (cases "checked_mul_i64 start (nb t ! nat dim)") (simp_all add: slice_def Let_def)
  then show ?thesis
    unfolding mul by linarith
qed

lemma permute_loop_succeeds:
  assumes "distinct order" "\<forall>k \<in> set order. 0 \<le> k \<and> k < 4 \<and> \<not> seen ! nat k" "length seen = 4"
  shows "ok (permute_loop order i seen dims)"
  using assms
proof (induction order i seen dims rule: permute_loop.induct)
  case (2 dim order i seen dims)
  have "\<not> seen[nat dim := True] ! nat k" if "k \<in> set order" for k
    using 2(2,3) that by (cases "nat k = nat dim") (auto simp: nat_eq_iff)
  then show ?case
    using 2 by simp
qed simp

lemma permute_succeeds: "ok (permute t order) \<longleftrightarrow> length order = 4 \<and> distinct order \<and> set order \<subseteq> {0..<4}"
proof
  assume "ok (permute t order)"
  then obtain t' where "permute t order = Inr t'"
    by (cases "permute t order") auto
  then show "length order = 4 \<and> distinct order \<and> set order \<subseteq> {0..<4}"
    using permute_Inr by fastforce
next
  assume H: "length order = 4 \<and> distinct order \<and> set order \<subseteq> {0..<4}"
  have "\<not> [False, False, False, False] ! nat k" if "k \<in> set order" for k
  proof -
    have "nat k \<in> {0, 1, 2, 3}"
      using H that by auto
    then show ?thesis
      by auto
  qed
  then have "ok (permute_loop order 0 [False, False, False, False] [0, 1, 2, 3])"
    using H by (intro permute_loop_succeeds) auto
  then show "ok (permute t order)"
    using H by (cases "permute_loop order 0 [False, False, False, False] [0, 1, 2, 3]") (auto simp: permute_def)
qed


text \<open>
  C25. Every operation on a well-formed tensor returns a well-formed tensor on the same data, and addresses what it
  should. A constructed tensor is packed, in the shape asked for; the constructor succeeds when the shape is valid
  and the size fits in 64 bits. \<open>view\<close> and \<open>reshape\<close> succeed only on a packed tensor and
  with the same number of elements, and then the elements of equal linear index have the same address; they do
  succeed when, in addition, the shape is valid and the size fits in 64 bits. \<open>slice\<close> succeeds exactly when the range is
  inside the dimension and the offset fits, and its element at an index is the element of the tensor at the index moved
  by \<open>start\<close>. \<open>permute\<close> succeeds exactly for the permutations of the four dimensions, and permutes the coordinates.
\<close>

theorem tensor_operations_exact:
  assumes "tensor_ok t" "list_all (\<lambda>n. n \<le> INT32_MAX) shape"
  shows "(\<forall>t'. tensor_new d ty shape = Inr t' \<longrightarrow> tensor_ok t' \<and> packed t' \<and> data t' = d \<and> dtype t' = ty \<and> ne t' = four_dims shape) \<and>
    (shape_ok shape \<and> dtype_size ty * prod_list shape \<le> INT64_MAX \<longrightarrow> ok (tensor_new d ty shape)) \<and>
    reshape t shape = view t shape \<and>
    (\<forall>t'. view t shape = Inr t' \<longrightarrow> tensor_ok t' \<and> packed t \<and> packed t' \<and> dtype t' = dtype t \<and> ne t' = four_dims shape \<and>
      prod_list (ne t') = prod_list (ne t) \<and>
      (\<forall>idx idx'. in_range t idx \<and> in_range t' idx' \<and> linear_index t' idx' = linear_index t idx \<longrightarrow>
        element_address t' idx' = element_address t idx)) \<and>
    (packed t \<and> shape_ok shape \<and> prod_list shape = prod_list (ne t) \<and> dtype_size (dtype t) * prod_list shape \<le> INT64_MAX \<longrightarrow>
      ok (view t shape)) \<and>
    (ok (slice t dim start len) \<longleftrightarrow> 0 \<le> dim \<and> dim < 4 \<and> 0 \<le> start \<and> 0 < len \<and> start + len \<le> ne t ! nat dim \<and>
      0 \<le> nb t ! nat dim \<and> start * nb t ! nat dim \<le> INT64_MAX) \<and>
    (\<forall>t'. slice t dim start len = Inr t' \<longrightarrow> tensor_ok t' \<and> dtype t' = dtype t \<and> ne t' = (ne t)[nat dim := len] \<and>
      (data t = 0 \<longrightarrow> data t' = 0) \<and>
      (\<forall>idx. data t \<noteq> 0 \<and> in_range t' idx \<longrightarrow> in_range t (idx[nat dim := idx ! nat dim + start]) \<and>
        element_address t' idx = element_address t (idx[nat dim := idx ! nat dim + start]))) \<and>
    (ok (permute t order) \<longleftrightarrow> length order = 4 \<and> distinct order \<and> set order \<subseteq> {0..<4}) \<and>
    (\<forall>t'. permute t order = Inr t' \<longrightarrow> tensor_ok t' \<and> dtype t' = dtype t \<and> ne t' = map (\<lambda>k. ne t ! nat k) order \<and>
      (\<forall>idx. in_range t idx \<longrightarrow> in_range t' (map (\<lambda>k. idx ! nat k) order) \<and>
        element_address t' (map (\<lambda>k. idx ! nat k) order) = element_address t idx))"
proof (intro conjI allI impI)
  fix t' assume new: "tensor_new d ty shape = Inr t'"
  show "tensor_ok t'" "packed t'" "data t' = d" "dtype t' = ty" "ne t' = four_dims shape"
    using tensor_new_ok [OF new assms(2)] tensor_new_result [OF new] by simp_all
next
  show "ok (tensor_new d ty shape)" if "shape_ok shape \<and> dtype_size ty * prod_list shape \<le> INT64_MAX"
    using tensor_new_succeeds that by blast
next
  show "reshape t shape = view t shape"
    by (simp add: reshape_def)
next
  fix t' assume v: "view t shape = Inr t'"
  note V = view_result [OF assms v]
  show "tensor_ok t'" "packed t" "packed t'" "dtype t' = dtype t" "ne t' = four_dims shape" "prod_list (ne t') = prod_list (ne t)"
    using V by blast+
  show "element_address t' idx' = element_address t idx"
    if "in_range t idx \<and> in_range t' idx' \<and> linear_index t' idx' = linear_index t idx" for idx idx'
    using V that by (intro packed_alias) simp_all
next
  show "ok (view t shape)" if "packed t \<and> shape_ok shape \<and> prod_list shape = prod_list (ne t) \<and> dtype_size (dtype t) * prod_list shape \<le> INT64_MAX"
    using view_succeeds [OF assms(1)] that by blast
next
  fix t' assume sl: "slice t dim start len = Inr t'"
  show "tensor_ok t'"
    by (rule slice_ok [OF assms(1) sl])
  show "dtype t' = dtype t" "ne t' = (ne t)[nat dim := len]" "data t = 0 \<Longrightarrow> data t' = 0"
    using slice_Inr [OF sl] by simp_all
  fix idx assume "data t \<noteq> 0 \<and> in_range t' idx"
  then show "in_range t (idx[nat dim := idx ! nat dim + start])"
      "element_address t' idx = element_address t (idx[nat dim := idx ! nat dim + start])"
    using slice_and_permute_alias [OF assms(1)] sl by blast+
next
  fix t' assume pm: "permute t order = Inr t'"
  show "tensor_ok t'"
    by (rule permute_ok [OF assms(1) pm])
  show "dtype t' = dtype t" "ne t' = map (\<lambda>k. ne t ! nat k) order"
    using permute_Inr [OF pm] by simp_all
  fix idx assume idx: "in_range t idx"
  show "in_range t' (map (\<lambda>k. idx ! nat k) order)"
    by (rule permute_in_range(1) [OF pm idx])
  show "element_address t' (map (\<lambda>k. idx ! nat k) order) = element_address t idx"
    using permute_Inr [OF pm] by (simp add: element_address_def permute_in_range(2) [OF pm idx])
qed (rule slice_succeeds permute_succeeds)+

theorem tensor_operations_exact_witness:
  "slice sample_tensor 0 1 2 = Inr \<lparr>data = 4098, dtype = BF16, ne = [2, 2, 1, 1], nb = [2, 6, 12, 12]\<rparr> \<and>
   element_address \<lparr>data = 4098, dtype = BF16, ne = [2, 2, 1, 1], nb = [2, 6, 12, 12]\<rparr> [1, 1, 0, 0] =
     element_address sample_tensor [2, 1, 0, 0]"
proof -
  let ?t = "\<lparr>data = 4098, dtype = BF16, ne = [2, 2, 1, 1], nb = [2, 6, 12, 12]\<rparr> :: tensor"
  have s: "slice sample_tensor 0 1 2 = Inr ?t" "tensor_ok sample_tensor" "list_all (\<lambda>n. n \<le> INT32_MAX) []"
      "data sample_tensor \<noteq> 0"
    by code_simp+
  have "in_range ?t [1, 1, 0, 0]"
    by (simp add: in_range_def less4)
  then have "element_address ?t [1, 1, 0, 0] = element_address sample_tensor ([1, 1, 0, 0][nat 0 := [1, 1, 0, 0] ! nat 0 + 1])"
    using tensor_operations_exact [OF s(2,3), of 0 BF16 0 1 2 "[]"] s(1,4) by blast
  then show ?thesis
    using s(1) by simp
qed

end
