(* ===== verification/Device_Memory.thy ===== *)
theory Device_Memory
  imports Tensors
begin

unbundle bit_operations_syntax

text \<open>
  Model of \<open>src/core/layout.h\<close>, \<open>src/core/layout.cpp\<close>, \<open>src/core/arena.h\<close> and \<open>src/core/arena.cu\<close>: the checked
  offset builders, the device arena with its scopes, and the handles that own CUDA allocations.

  Sizes, offsets and addresses are 64-bit words (\<open>std::size_t\<close> and \<open>std::uintptr_t\<close>), the null pointer
  being zero. The results of the CUDA allocation calls are arguments (\<open>None\<close> for an error code); a call
  of \<open>cudaFree\<close> is recorded in the result.

  The theorems: regions of a layout that live at the same time are disjoint, aligned and inside
  \<open>finish()\<close>, and so are the spans of an arena inside its capacity; an arena of the size the dry run
  computes performs every allocation the dry run performed, at the same offsets; and every
  allocation owned by the handles is freed exactly once.
\<close>

section \<open>Powers of two and alignment\<close>

definition is_power_of_two :: "u64 \<Rightarrow> bool" where
  "is_power_of_two v \<longleftrightarrow> v \<noteq> 0 \<and> v AND (v - 1) = 0"

definition checked_add :: "u64 \<Rightarrow> u64 \<Rightarrow> exn + u64" where
  "checked_add a b = (if - 1 - a < b then Inl Overflow_error else Inr (a + b))"

definition align_up :: "u64 \<Rightarrow> u64 \<Rightarrow> exn + u64" where
  "align_up v alignment =
     (if \<not> is_power_of_two alignment then Inl Invalid_argument
      else let mask = alignment - 1 in
        case checked_add v mask of Inl e \<Rightarrow> Inl e | Inr w \<Rightarrow> Inr (w AND NOT mask))"

section \<open>The layout builder\<close>

record device_span =
  ds_data :: u64
  ds_bytes :: u64

record layout_region =
  lr_offset :: u64
  lr_bytes :: u64
  lr_alignment :: u64

record tensor_region =
  tr_region :: layout_region
  tr_dtype :: dtype
  tr_shape :: "int list"

definition region_bind :: "layout_region \<Rightarrow> device_span \<Rightarrow> exn + device_span" where
  "region_bind r backing =
     (if ds_data backing = 0 then Inl Invalid_argument
      else if \<not> is_power_of_two (lr_alignment r) then Inl Logic_error
      else if (ds_data backing + lr_offset r) mod lr_alignment r \<noteq> 0 then Inl Invalid_argument
      else if ds_bytes backing < lr_offset r \<or> ds_bytes backing - lr_offset r < lr_bytes r then Inl Out_of_range
      else Inr \<lparr>ds_data = ds_data backing + lr_offset r, ds_bytes = lr_bytes r\<rparr>)"

definition tensor_region_bind :: "tensor_region \<Rightarrow> device_span \<Rightarrow> exn + tensor" where
  "tensor_region_bind r backing =
     (case tensor_new 0 (tr_dtype r) (tr_shape r) of
        Inl e \<Rightarrow> Inl e
      | Inr expected \<Rightarrow>
          (case tensor_bytes expected of
             Inl e \<Rightarrow> Inl e
           | Inr n \<Rightarrow>
               if of_int n \<noteq> lr_bytes (tr_region r) then Inl Logic_error
               else (case region_bind (tr_region r) backing of
                       Inl e \<Rightarrow> Inl e
                     | Inr span \<Rightarrow> tensor_new (ds_data span) (tr_dtype r) (tr_shape r))))"

record layout_builder =
  lb_cursor :: u64
  lb_peak :: u64

definition layout_builder_new :: layout_builder where
  "layout_builder_new = \<lparr>lb_cursor = 0, lb_peak = 0\<rparr>"

text \<open>A scope of a builder or an arena: \<open>live\<close> is a non-null pointer to it.\<close>

record alloc_scope =
  scope_live :: bool
  scope_saved :: u64

definition layout_scope :: "layout_builder \<Rightarrow> alloc_scope" where
  "layout_scope b = \<lparr>scope_live = True, scope_saved = lb_cursor b\<rparr>"

definition layout_scope_end :: "alloc_scope \<Rightarrow> layout_builder \<Rightarrow> layout_builder" where
  "layout_scope_end s b = (if scope_live s then b\<lparr>lb_cursor := scope_saved s\<rparr> else b)"

text \<open>The move constructor of a scope: the new scope and the scope moved from.\<close>

definition scope_move :: "alloc_scope \<Rightarrow> alloc_scope \<times> alloc_scope" where
  "scope_move other = (other, other\<lparr>scope_live := False\<rparr>)"

definition layout_add :: "u64 \<Rightarrow> u64 \<Rightarrow> layout_builder \<Rightarrow> exn + (layout_region \<times> layout_builder)" where
  "layout_add bytes alignment b =
     (if bytes = 0 then Inl Invalid_argument
      else case align_up (lb_cursor b) alignment of
        Inl e \<Rightarrow> Inl e
      | Inr offset \<Rightarrow>
          (case checked_add offset bytes of
             Inl e \<Rightarrow> Inl e
           | Inr cursor \<Rightarrow>
               Inr (\<lparr>lr_offset = offset, lr_bytes = bytes, lr_alignment = alignment\<rparr>,
                    \<lparr>lb_cursor = cursor, lb_peak = (if lb_peak b < cursor then cursor else lb_peak b)\<rparr>)))"

definition layout_add_tensor ::
    "dtype \<Rightarrow> int list \<Rightarrow> u64 \<Rightarrow> layout_builder \<Rightarrow> exn + (tensor_region \<times> layout_builder)" where
  "layout_add_tensor ty shape alignment b =
     (case tensor_new 0 ty shape of
        Inl e \<Rightarrow> Inl e
      | Inr t \<Rightarrow>
          (case tensor_bytes t of
             Inl e \<Rightarrow> Inl e
           | Inr n \<Rightarrow>
               (case layout_add (of_int n) alignment b of
                  Inl e \<Rightarrow> Inl e
                | Inr (r, b') \<Rightarrow>
                    Inr (\<lparr>tr_region = r, tr_dtype = ty,
                          tr_shape = shape @ drop (length shape) [1, 1, 1, 1]\<rparr>, b'))))"

definition layout_finish :: "u64 \<Rightarrow> layout_builder \<Rightarrow> exn + u64" where
  "layout_finish alignment b = align_up (lb_peak b) alignment"

section \<open>The workspace layout builder\<close>

record ws_builder =
  wb_cursor :: u64
  wb_peak :: u64

definition ws_builder_new :: ws_builder where
  "ws_builder_new = \<lparr>wb_cursor = 0, wb_peak = 0\<rparr>"

definition ws_scope :: "ws_builder \<Rightarrow> alloc_scope" where
  "ws_scope b = \<lparr>scope_live = True, scope_saved = wb_cursor b\<rparr>"

definition ws_scope_end :: "alloc_scope \<Rightarrow> ws_builder \<Rightarrow> ws_builder" where
  "ws_scope_end s b = (if scope_live s then b\<lparr>wb_cursor := scope_saved s\<rparr> else b)"

text \<open>
  The common tail of the two allocation functions. The cursor is assigned after the alignment and
  again after the addition, so a failing addition leaves it aligned: the builder is returned in
  both cases.
\<close>

definition ws_advance :: "u64 \<Rightarrow> u64 \<Rightarrow> ws_builder \<Rightarrow> (exn + unit) \<times> ws_builder" where
  "ws_advance bytes alignment b =
     (case align_up (wb_cursor b) alignment of
        Inl e \<Rightarrow> (Inl e, b)
      | Inr c \<Rightarrow>
          (case checked_add c bytes of
             Inl e \<Rightarrow> (Inl e, b\<lparr>wb_cursor := c\<rparr>)
           | Inr c' \<Rightarrow> (Inr (), \<lparr>wb_cursor = c', wb_peak = (if wb_peak b < c' then c' else wb_peak b)\<rparr>)))"

definition ws_alloc :: "dtype \<Rightarrow> int list \<Rightarrow> u64 \<Rightarrow> ws_builder \<Rightarrow> (exn + tensor) \<times> ws_builder" where
  "ws_alloc ty shape alignment b =
     (case tensor_new 0 ty shape of
        Inl e \<Rightarrow> (Inl e, b)
      | Inr t \<Rightarrow>
          (case align_up (wb_cursor b) alignment of
             Inl e \<Rightarrow> (Inl e, b)
           | Inr c \<Rightarrow>
               (case tensor_bytes t of
                  Inl e \<Rightarrow> (Inl e, b\<lparr>wb_cursor := c\<rparr>)
                | Inr n \<Rightarrow>
                    (case ws_advance (of_int n) alignment b of
                       (Inl e, b') \<Rightarrow> (Inl e, b')
                     | (Inr _, b') \<Rightarrow> (Inr t, b')))))"

definition ws_alloc_bytes :: "u64 \<Rightarrow> u64 \<Rightarrow> ws_builder \<Rightarrow> (exn + device_span) \<times> ws_builder" where
  "ws_alloc_bytes bytes alignment b =
     (if bytes = 0 then (Inr \<lparr>ds_data = 0, ds_bytes = 0\<rparr>, b)
      else case ws_advance bytes alignment b of
        (Inl e, b') \<Rightarrow> (Inl e, b')
      | (Inr _, b') \<Rightarrow> (Inr \<lparr>ds_data = 0, ds_bytes = bytes\<rparr>, b'))"

definition ws_peak_bytes :: "u64 \<Rightarrow> ws_builder \<Rightarrow> exn + u64" where
  "ws_peak_bytes alignment b = align_up (wb_peak b) alignment"

section \<open>The device arena\<close>

record arena =
  ar_base :: u64
  ar_cap :: u64
  ar_off :: u64
  ar_peak :: u64
  ar_owns :: bool

definition arena_new :: "u64 \<Rightarrow> u64 option \<Rightarrow> exn + arena" where
  "arena_new capacity_bytes malloc =
     (if capacity_bytes = 0 then Inl Invalid_argument
      else case malloc of
        None \<Rightarrow> Inl Runtime_error
      | Some ptr \<Rightarrow> Inr \<lparr>ar_base = ptr, ar_cap = capacity_bytes, ar_off = 0, ar_peak = 0, ar_owns = True\<rparr>)"

definition arena_borrow :: "device_span \<Rightarrow> exn + arena" where
  "arena_borrow storage =
     (if ds_data storage = 0 \<or> ds_bytes storage = 0 then Inl Invalid_argument
      else Inr \<lparr>ar_base = ds_data storage, ar_cap = ds_bytes storage, ar_off = 0, ar_peak = 0,
                ar_owns = False\<rparr>)"

definition align_up_addr :: "u64 \<Rightarrow> u64 \<Rightarrow> exn + u64" where
  "align_up_addr addr align =
     (let mask = align - 1 in
      case checked_add addr mask of Inl e \<Rightarrow> Inl e | Inr with_mask \<Rightarrow> Inr (with_mask AND NOT mask))"

text \<open>The test of the aligned offset against \<open>SIZE_MAX\<close> can never hold for 64-bit words.\<close>

definition arena_alloc_bytes :: "u64 \<Rightarrow> u64 \<Rightarrow> arena \<Rightarrow> exn + (device_span \<times> arena)" where
  "arena_alloc_bytes bytes align a =
     (if ar_base a = 0 then Inl Runtime_error
      else if \<not> is_power_of_two align then Inl Invalid_argument
      else if bytes = 0 then Inl Invalid_argument
      else case checked_add (ar_base a) (ar_off a) of
        Inl e \<Rightarrow> Inl e
      | Inr current_addr \<Rightarrow>
          (case align_up_addr current_addr align of
             Inl e \<Rightarrow> Inl e
           | Inr aligned_addr \<Rightarrow>
               let aligned_offset = aligned_addr - ar_base a in
               if - 1 < aligned_offset then Inl Overflow_error
               else if - 1 - aligned_offset < bytes then Inl Overflow_error
               else let e = aligned_offset + bytes in
                 if ar_cap a < e then Inl Bad_alloc
                 else Inr (\<lparr>ds_data = ar_base a + aligned_offset, ds_bytes = bytes\<rparr>,
                           a\<lparr>ar_off := e, ar_peak := (if ar_peak a < e then e else ar_peak a)\<rparr>)))"

definition arena_alloc :: "dtype \<Rightarrow> int list \<Rightarrow> u64 \<Rightarrow> arena \<Rightarrow> exn + (tensor \<times> arena)" where
  "arena_alloc ty shape align a =
     (case tensor_new 0 ty shape of
        Inl e \<Rightarrow> Inl e
      | Inr v \<Rightarrow>
          (case tensor_bytes v of
             Inl e \<Rightarrow> Inl e
           | Inr n \<Rightarrow>
               (case arena_alloc_bytes (of_int n) align a of
                  Inl e \<Rightarrow> Inl e
                | Inr (storage, a') \<Rightarrow>
                    (case tensor_new (ds_data storage) ty shape of
                       Inl e \<Rightarrow> Inl e
                     | Inr t \<Rightarrow> Inr (t, a')))))"

definition arena_scope :: "arena \<Rightarrow> alloc_scope" where
  "arena_scope a = \<lparr>scope_live = True, scope_saved = ar_off a\<rparr>"

definition arena_scope_end :: "alloc_scope \<Rightarrow> arena \<Rightarrow> arena" where
  "arena_scope_end s a =
     (if scope_live s \<and> scope_saved s \<le> ar_off a then a\<lparr>ar_off := scope_saved s\<rparr> else a)"

definition arena_reset :: "arena \<Rightarrow> arena" where
  "arena_reset a = a\<lparr>ar_off := 0\<rparr>"

definition arena_reset_peak :: "arena \<Rightarrow> arena" where
  "arena_reset_peak a = a\<lparr>ar_peak := ar_off a\<rparr>"

text \<open>
  Programs over an allocator with scopes: \<open>Sc_close\<close> ends the innermost open scope. The state holds the
  allocator, the open scopes each with the blocks live when it was opened, and the live blocks,
  newest first. A failing allocation changes nothing.
\<close>

datatype scoped_op = Sc_alloc u64 u64 | Sc_open | Sc_close

type_synonym ('s, 'r) scoped_state = "'s \<times> (alloc_scope \<times> 'r list) list \<times> 'r list"

fun scoped_step ::
    "(u64 \<Rightarrow> u64 \<Rightarrow> 's \<Rightarrow> exn + ('r \<times> 's)) \<Rightarrow> ('s \<Rightarrow> alloc_scope) \<Rightarrow> (alloc_scope \<Rightarrow> 's \<Rightarrow> 's) \<Rightarrow>
     scoped_op \<Rightarrow> ('s, 'r) scoped_state \<Rightarrow> ('s, 'r) scoped_state" where
  "scoped_step alloc opn cls (Sc_alloc n al) (s, frames, live) =
     (case alloc n al s of Inl _ \<Rightarrow> (s, frames, live) | Inr (r, s') \<Rightarrow> (s', frames, r # live))"
| "scoped_step alloc opn cls Sc_open (s, frames, live) = (s, (opn s, live) # frames, live)"
| "scoped_step alloc opn cls Sc_close (s, [], live) = (s, [], live)"
| "scoped_step alloc opn cls Sc_close (s, (scope, before) # frames, live) = (cls scope s, frames, before)"

definition layout_run :: "scoped_op list \<Rightarrow> (layout_builder, layout_region) scoped_state" where
  "layout_run ops =
     fold (scoped_step layout_add layout_scope layout_scope_end) ops (layout_builder_new, [], [])"

text \<open>The blocks of an arena carry the alignment they were requested with.\<close>

definition arena_alloc_block :: "u64 \<Rightarrow> u64 \<Rightarrow> arena \<Rightarrow> exn + ((device_span \<times> u64) \<times> arena)" where
  "arena_alloc_block n al a =
     (case arena_alloc_bytes n al a of Inl e \<Rightarrow> Inl e | Inr (span, a') \<Rightarrow> Inr ((span, al), a'))"

definition arena_run :: "arena \<Rightarrow> scoped_op list \<Rightarrow> (arena, device_span \<times> u64) scoped_state" where
  "arena_run a ops = fold (scoped_step arena_alloc_block arena_scope arena_scope_end) ops (a, [], [])"

section \<open>Arithmetic of the alignment\<close>

lemma power_of_two: "is_power_of_two v \<Longrightarrow> \<exists>k < 64. v = 2 ^ k \<and> unat v = 2 ^ k"
  unfolding is_power_of_two_def by (rule word_power_of_two) simp_all

definition align_nat :: "nat \<Rightarrow> nat \<Rightarrow> nat" where
  "align_nat x al = al * ((x + (al - 1)) div al)"

lemma align_nat:
  assumes "0 < al"
  shows "x \<le> align_nat x al" "align_nat x al < x + al" "al dvd align_nat x al"
proof -
  have "x + (al - 1) = al * ((x + (al - 1)) div al) + (x + (al - 1)) mod al"
    by simp
  moreover have "(x + (al - 1)) mod al < al"
    using assms by simp
  ultimately show "x \<le> align_nat x al" "align_nat x al < x + al"
    unfolding align_nat_def using assms by linarith+
qed (simp add: align_nat_def)

lemma unat_align_down:
  fixes x :: u64
  assumes "unat v = 2 ^ k" "v = 2 ^ k" "k < 64"
  shows "unat (x AND NOT (v - 1)) = unat v * (unat x div unat v)"
proof -
  have "x AND NOT (v - 1) = push_bit k (drop_bit k x)"
    unfolding assms(2) mask_eq_exp_minus_1 [symmetric]
    by (auto intro!: bit_word_eqI simp: bit_simps)
  also have "\<dots> = x - take_bit k x"
    using bits_ident [of k x] by (simp add: eq_diff_eq)
  finally have "unat (x AND NOT (v - 1)) = unat (x - take_bit k x)"
    by simp
  also have "\<dots> = unat x - unat x mod 2 ^ k"
    by (subst unat_sub) (simp_all add: word_le_nat_alt unsigned_take_bit_eq take_bit_nat_def
        del: take_bit_eq_mod)
  finally show ?thesis
    by (simp add: assms(1) minus_mod_eq_mult_div)
qed

lemma checked_add_Inr:
  "checked_add a b = Inr c \<longleftrightarrow> unat a + unat b < 2 ^ 64 \<and> c = a + b"
  using overflow_test [of a b] by (auto simp: checked_add_def)

lemma align_up_Inr:
  assumes "align_up v al = Inr w"
  shows "is_power_of_two al" "unat w = align_nat (unat v) (unat al)" "unat v + (unat al - 1) < 2 ^ 64"
proof -
  show al: "is_power_of_two al"
    using assms by (auto simp: align_up_def split: if_splits)
  obtain k where k: "k < 64" "al = 2 ^ k" "unat al = 2 ^ k"
    using power_of_two [OF al] by blast
  have m1: "unat (al - 1) = unat al - 1"
    using al by (simp add: is_power_of_two_def unat_minus_one)
  then show small: "unat v + (unat al - 1) < 2 ^ 64"
    using assms al by (auto simp: align_up_def Let_def checked_add_Inr split: sum.splits)
  show "unat w = align_nat (unat v) (unat al)"
    using assms al small unat_align_down [OF k(3,2,1), of "v + (al - 1)"] m1
    by (auto simp: align_up_def Let_def checked_add_Inr align_nat_def unat_add_lem [THEN iffD1]
        split: sum.splits)
qed

lemma align_up_InrI:
  assumes "is_power_of_two al" "unat v + (unat al - 1) < 2 ^ 64"
  shows "\<exists>w. align_up v al = Inr w"
  using assms by (auto simp: align_up_def Let_def checked_add_def overflow_test unat_minus_one
      is_power_of_two_def split: if_splits)

section \<open>Bump allocators\<close>

text \<open>
  The contract of a bump allocator with scopes: an allocation lies between the old and the new
  cursor, a scope remembers the cursor and restores it, and the cursor stays below a limit.
\<close>

locale bump_allocator =
  fixes alloc :: "u64 \<Rightarrow> u64 \<Rightarrow> 's \<Rightarrow> exn + ('r \<times> 's)"
    and opn :: "'s \<Rightarrow> alloc_scope"
    and cls :: "alloc_scope \<Rightarrow> 's \<Rightarrow> 's"
    and good :: "'s \<Rightarrow> bool"
    and cur :: "'s \<Rightarrow> nat"
    and lim :: "'s \<Rightarrow> nat"
    and first :: "'r \<Rightarrow> nat"
    and after_last :: "'r \<Rightarrow> nat"
    and fits :: "'r \<Rightarrow> bool"
  assumes good_lim: "good s \<Longrightarrow> cur s \<le> lim s"
    and alloc_law: "good s \<Longrightarrow> alloc n al s = Inr (r, s') \<Longrightarrow>
      good s' \<and> lim s \<le> lim s' \<and> fits r \<and> cur s \<le> first r \<and> first r < after_last r \<and> after_last r = cur s'"
    and open_law: "good s \<Longrightarrow> scope_live (opn s) \<and> unat (scope_saved (opn s)) = cur s"
    and close_law: "good s \<Longrightarrow> scope_live sc \<Longrightarrow> unat (scope_saved sc) \<le> cur s \<Longrightarrow>
      good (cls sc s) \<and> cur (cls sc s) = unat (scope_saved sc) \<and> lim s \<le> lim (cls sc s)"
begin

definition packed :: "nat \<Rightarrow> 'r list \<Rightarrow> bool" where
  "packed c live \<longleftrightarrow> (\<forall>r \<in> set live. fits r \<and> after_last r \<le> c) \<and>
     sorted_wrt (\<lambda>r older. after_last older \<le> first r) live"

fun frames_ok :: "nat \<Rightarrow> (alloc_scope \<times> 'r list) list \<Rightarrow> bool" where
  "frames_ok c [] = True"
| "frames_ok c ((sc, before) # frames) \<longleftrightarrow> scope_live sc \<and> unat (scope_saved sc) \<le> c \<and>
     packed (unat (scope_saved sc)) before \<and> frames_ok (unat (scope_saved sc)) frames"

fun state_ok :: "('s, 'r) scoped_state \<Rightarrow> bool" where
  "state_ok (s, frames, live) \<longleftrightarrow> good s \<and> packed (cur s) live \<and> frames_ok (cur s) frames"

lemma frames_ok_mono: "frames_ok c frames \<Longrightarrow> c \<le> d \<Longrightarrow> frames_ok d frames"
  by (cases "(c, frames)" rule: frames_ok.cases) auto

lemma packed_push:
  assumes "packed c live" "fits r" "c \<le> first r" "first r < after_last r"
  shows "packed (after_last r) (r # live)"
  using assms by (fastforce simp: packed_def)

lemma step_keeps:
  assumes "state_ok st"
  shows "state_ok (scoped_step alloc opn cls op st) \<and> lim (fst st) \<le> lim (fst (scoped_step alloc opn cls op st))"
proof (cases "(alloc, opn, cls, op, st)" rule: scoped_step.cases)
  case (1 alloc' opn' cls' n al s frames live)
  show ?thesis
  proof (cases "alloc n al s")
    case (Inr p)
    obtain r s' where p: "p = (r, s')"
      by (cases p)
    have law: "good s' \<and> lim s \<le> lim s' \<and> fits r \<and> cur s \<le> first r \<and> first r < after_last r \<and> after_last r = cur s'"
      using assms Inr p 1 by (intro alloc_law) auto
    then have "packed (cur s') (r # live)" "frames_ok (cur s') frames"
      using assms 1 packed_push [of "cur s" live r] frames_ok_mono [of "cur s" frames "cur s'"] by auto
    then show ?thesis
      using 1 Inr p law by simp
  qed (use assms 1 in simp)
next
  case 2
  then show ?thesis
    using assms open_law by auto
next
  case 4
  then show ?thesis
    using assms close_law by auto
qed (use assms in simp)

lemma run_keeps:
  assumes "state_ok st"
  shows "state_ok (fold (scoped_step alloc opn cls) ops st) \<and>
    lim (fst st) \<le> lim (fst (fold (scoped_step alloc opn cls) ops st))"
  using assms
proof (induction ops arbitrary: st)
  case (Cons op ops)
  show ?case
    using Cons.IH [OF step_keeps [OF Cons.prems, THEN conjunct1], of op] step_keeps [OF Cons.prems, of op]
    by simp
qed simp

lemma live_blocks:
  assumes "good s0" "fold (scoped_step alloc opn cls) ops (s0, [], []) = (s, frames, live)"
  shows "good s \<and> lim s0 \<le> lim s \<and> (\<forall>r \<in> set live. fits r \<and> after_last r \<le> lim s) \<and>
    sorted_wrt (\<lambda>r older. after_last older \<le> first r) live"
  using run_keeps [of "(s0, [], [])" ops] assms good_lim [of s] by (force simp: packed_def)

end

lemma unat_checked_add: "checked_add a b = Inr c \<Longrightarrow> unat c = unat a + unat b"
  by (auto simp: checked_add_Inr unat_add_lem [THEN iffD1])

lemma power_of_two_pos: "is_power_of_two al \<Longrightarrow> 0 < unat al"
  using power_of_two by force

lemma layout_add_Inr:
  assumes "layout_add n al b = Inr (r, b')"
  shows "is_power_of_two al \<and> n \<noteq> 0 \<and> lr_alignment r = al \<and> lr_bytes r = n \<and>
    unat (lr_offset r) = align_nat (unat (lb_cursor b)) (unat al) \<and>
    unat (lb_cursor b') = unat (lr_offset r) + unat n \<and>
    unat (lb_peak b') = max (unat (lb_peak b)) (unat (lb_cursor b'))"
  using assms align_up_Inr [of "lb_cursor b" al] unat_checked_add
  by (auto simp: layout_add_def word_less_nat_alt split: if_splits sum.splits)

definition region_aligned :: "layout_region \<Rightarrow> bool" where
  "region_aligned r \<longleftrightarrow> is_power_of_two (lr_alignment r) \<and> lr_bytes r \<noteq> 0 \<and>
     unat (lr_alignment r) dvd unat (lr_offset r)"

definition region_end :: "layout_region \<Rightarrow> nat" where
  "region_end r = unat (lr_offset r) + unat (lr_bytes r)"

interpretation layout_bump: bump_allocator layout_add layout_scope layout_scope_end
  "\<lambda>b. lb_cursor b \<le> lb_peak b" "\<lambda>b. unat (lb_cursor b)" "\<lambda>b. unat (lb_peak b)"
  "\<lambda>r. unat (lr_offset r)" region_end region_aligned
proof (unfold_locales, goal_cases)
  case (2 s n al r s')
  then show ?case
    using layout_add_Inr [OF 2(2)] align_nat [OF power_of_two_pos, of al]
    by (auto simp: word_le_nat_alt region_end_def region_aligned_def unat_gt_0)
qed (auto simp: word_le_nat_alt layout_scope_def layout_scope_end_def)

definition span_end :: "device_span \<Rightarrow> nat" where
  "span_end s = unat (ds_data s) + unat (ds_bytes s)"

definition bound_span :: "device_span \<Rightarrow> layout_region \<Rightarrow> device_span" where
  "bound_span backing r = \<lparr>ds_data = ds_data backing + lr_offset r, ds_bytes = lr_bytes r\<rparr>"

lemma region_bind_succeeds:
  assumes "region_aligned r" "ds_data backing \<noteq> 0" "unat (lr_alignment r) dvd unat (ds_data backing)"
    and "region_end r \<le> unat (ds_bytes backing)" "span_end backing \<le> 2 ^ 64"
  shows "region_bind r backing = Inr (bound_span backing r) \<and>
    unat (ds_data (bound_span backing r)) = unat (ds_data backing) + unat (lr_offset r)"
proof -
  let ?p = "ds_data backing + lr_offset r"
  have "0 < unat (lr_bytes r)"
    using assms(1) by (simp add: unat_gt_0 region_aligned_def)
  then have p: "unat ?p = unat (ds_data backing) + unat (lr_offset r)"
    using assms(4,5) by (intro unat_add_lem [THEN iffD1]) (simp add: region_end_def span_end_def)
  then have "unat (?p mod lr_alignment r) = 0"
    using assms(1,3) by (simp add: unat_mod region_aligned_def)
  then have "?p mod lr_alignment r = 0"
    by (simp add: unat_eq_0)
  moreover have "lr_offset r \<le> ds_bytes backing"
    using assms(4) by (simp add: word_le_nat_alt region_end_def)
  moreover have "\<not> ds_bytes backing - lr_offset r < lr_bytes r"
    using assms(4) by (simp add: word_less_nat_alt unat_sub [OF calculation(2)] region_end_def)
  ultimately show ?thesis
    using assms(1,2) p by (simp add: region_bind_def region_aligned_def bound_span_def)
qed

text \<open>
  C28. Any program of additions and scopes over a layout builder: the regions live at its end can
  all be bound to a backing whose base has their alignments and whose size is at least \<open>finish()\<close>;
  the spans are pairwise disjoint, aligned, and inside the first \<open>finish()\<close> bytes of the backing.
\<close>

theorem layout_regions_bind_disjoint:
  assumes "layout_run ops = (b, frames, live)" "layout_finish al b = Inr total_bytes"
    and "ds_data backing \<noteq> 0" "\<forall>r \<in> set live. unat (lr_alignment r) dvd unat (ds_data backing)"
    and "total_bytes \<le> ds_bytes backing" "span_end backing \<le> 2 ^ 64"
  shows "\<exists>spans. map (\<lambda>r. region_bind r backing) live = map Inr spans \<and>
    sorted_wrt (\<lambda>s older. span_end older \<le> unat (ds_data s)) spans \<and>
    (\<forall>(s, r) \<in> set (zip spans live). ds_bytes s = lr_bytes r \<and> unat (lr_alignment r) dvd unat (ds_data s) \<and>
      ds_data backing \<le> ds_data s \<and> span_end s \<le> unat (ds_data backing) + unat total_bytes)"
proof -
  have "lb_cursor b \<le> lb_peak b \<and> (\<forall>r \<in> set live. region_aligned r \<and> region_end r \<le> unat (lb_peak b)) \<and>
      sorted_wrt (\<lambda>r older. region_end older \<le> unat (lr_offset r)) live"
    using layout_bump.live_blocks [OF _ assms(1) [unfolded layout_run_def]]
    by (simp add: layout_builder_new_def)
  then have live: "\<forall>r \<in> set live. region_aligned r \<and> region_end r \<le> unat (lb_peak b)"
      and sorted: "sorted_wrt (\<lambda>r older. region_end older \<le> unat (lr_offset r)) live"
    by auto
  have peak: "unat (lb_peak b) \<le> unat total_bytes"
    using align_up_Inr [of "lb_peak b" al total_bytes] assms(2) align_nat(1) [OF power_of_two_pos]
    by (simp add: layout_finish_def)
  then have bind: "region_bind r backing = Inr (bound_span backing r) \<and>
      unat (ds_data (bound_span backing r)) = unat (ds_data backing) + unat (lr_offset r)" if "r \<in> set live" for r
    using that live assms(3-6) by (intro region_bind_succeeds) (auto simp: word_le_nat_alt)
  then have ends: "span_end (bound_span backing r) = unat (ds_data backing) + region_end r" if "r \<in> set live" for r
    using that by (simp add: span_end_def region_end_def bound_span_def)
  have "sorted_wrt (\<lambda>s older. span_end older \<le> unat (ds_data s)) (map (bound_span backing) live)"
    using sorted bind ends by (auto simp: sorted_wrt_map intro: sorted_wrt_mono_rel [rotated])
  then show ?thesis
    using bind ends live peak assms(4)
    by (intro exI [of _ "map (bound_span backing) live"])
      (fastforce simp: zip_map1 zip_same_conv_map region_aligned_def word_le_nat_alt bound_span_def)
qed

theorem layout_regions_bind_disjoint_witness:
  "\<exists>spans. map (\<lambda>r. region_bind r \<lparr>ds_data = 4096, ds_bytes = 512\<rparr>)
       (snd (snd (layout_run [Sc_alloc 100 64, Sc_open, Sc_alloc 300 32, Sc_close, Sc_alloc 8 256]))) =
     map Inr spans \<and> length spans = 2 \<and> sorted_wrt (\<lambda>s older. span_end older \<le> unat (ds_data s)) spans"
proof -
  let ?ops = "[Sc_alloc 100 64, Sc_open, Sc_alloc 300 32, Sc_close, Sc_alloc 8 256]"
  let ?b = "\<lparr>lb_cursor = 264, lb_peak = 428\<rparr>"
    and ?live = "[\<lparr>lr_offset = 256, lr_bytes = 8, lr_alignment = 256\<rparr>, \<lparr>lr_offset = 0, lr_bytes = 100, lr_alignment = 64\<rparr>]"
  have run: "layout_run ?ops = (?b, [], ?live)" and fin: "layout_finish 16 ?b = Inr 432"
    by code_simp+
  let ?m = "\<lparr>ds_data = 4096, ds_bytes = 512\<rparr>"
  have "ds_data ?m \<noteq> 0" "\<forall>r \<in> set ?live. unat (lr_alignment r) dvd unat (ds_data ?m)"
      "432 \<le> ds_bytes ?m" "span_end ?m \<le> 2 ^ 64"
    by (simp_all add: span_end_def)
  then obtain spans where spans: "map (\<lambda>r. region_bind r ?m) ?live = map Inr spans"
      "sorted_wrt (\<lambda>s older. span_end older \<le> unat (ds_data s)) spans"
    using layout_regions_bind_disjoint [OF run fin, of ?m] by blast
  have "length spans = 2"
    using arg_cong [OF spans(1), of length] by simp
  then show ?thesis
    using spans unfolding run snd_conv by blast
qed

section \<open>Spans of an arena\<close>

text \<open>A usable arena: its range does not wrap around the address space and its offset is inside it.\<close>

definition arena_ok :: "u64 \<Rightarrow> u64 \<Rightarrow> arena \<Rightarrow> bool" where
  "arena_ok b c a \<longleftrightarrow> ar_base a = b \<and> ar_cap a = c \<and> b \<noteq> 0 \<and> unat b + unat c \<le> 2 ^ 64 \<and> ar_off a \<le> c"

lemma align_up_addr_eq: "is_power_of_two al \<Longrightarrow> align_up_addr x al = align_up x al"
  by (simp add: align_up_addr_def align_up_def)

lemma arena_alloc_bytes_Inr:
  assumes "arena_alloc_bytes n al a = Inr (span, a')"
  shows "is_power_of_two al \<and> n \<noteq> 0 \<and> ds_bytes span = n \<and>
    unat (ds_data span) = align_nat (unat (ar_base a) + unat (ar_off a)) (unat al) \<and>
    unat (ar_base a) + unat (ar_off a') = span_end span \<and> ar_off a' \<le> ar_cap a \<and>
    unat (ar_peak a') = max (unat (ar_peak a)) (unat (ar_off a')) \<and>
    ar_base a' = ar_base a \<and> ar_cap a' = ar_cap a \<and> ar_owns a' = ar_owns a"
proof -
  have al: "is_power_of_two al" and n: "n \<noteq> 0"
    using assms by (auto simp: arena_alloc_bytes_def split: if_splits)
  obtain w where w: "checked_add (ar_base a) (ar_off a) = Inr w"
    using assms al n by (auto simp: arena_alloc_bytes_def split: if_splits sum.splits)
  obtain x where x: "align_up w al = Inr x"
    using assms al n w by (auto simp: arena_alloc_bytes_def align_up_addr_eq split: if_splits sum.splits)
  let ?o = "x - ar_base a"
  have run: "\<not> - 1 - ?o < n" "\<not> ar_cap a < ?o + n" "span = \<lparr>ds_data = x, ds_bytes = n\<rparr>"
    "a' = a\<lparr>ar_off := ?o + n, ar_peak := (if ar_peak a < ?o + n then ?o + n else ar_peak a)\<rparr>"
    using assms al n w x
    by (auto simp: arena_alloc_bytes_def align_up_addr_eq Let_def split: if_splits)
  have ux: "unat x = align_nat (unat (ar_base a) + unat (ar_off a)) (unat al)"
    using align_up_Inr(2) [OF x] unat_checked_add [OF w] by simp
  then have "unat (ar_base a) + unat (ar_off a) \<le> unat x"
    using align_nat(1) [OF power_of_two_pos [OF al]] by simp
  then have "unat ?o = unat x - unat (ar_base a)" "unat (ar_base a) \<le> unat x"
    by (simp_all add: unat_sub word_le_nat_alt)
  moreover have "unat (?o + n) = unat ?o + unat n"
    using run(1) by (intro unat_add_lem [THEN iffD1]) (simp add: overflow_test)
  ultimately show ?thesis
    using al n run ux by (simp add: span_end_def word_less_nat_alt word_le_nat_alt)
qed

definition block_aligned :: "device_span \<times> u64 \<Rightarrow> bool" where
  "block_aligned r \<longleftrightarrow> is_power_of_two (snd r) \<and> unat (snd r) dvd unat (ds_data (fst r))"

lemma arena_alloc_block_Inr:
  "arena_alloc_block n al a = Inr (r, a') \<longleftrightarrow> arena_alloc_bytes n al a = Inr (fst r, a') \<and> snd r = al"
  by (cases r) (auto simp: arena_alloc_block_def split: sum.splits)

interpretation arena_bump: bump_allocator arena_alloc_block arena_scope arena_scope_end
  "arena_ok b c" "\<lambda>a. unat (ar_off a)" "\<lambda>a. unat c"
  "\<lambda>r. unat (ds_data (fst r)) - unat b" "\<lambda>r. span_end (fst r) - unat b"
  "\<lambda>r. block_aligned r \<and> b \<le> ds_data (fst r)"
  for b c :: u64
proof (unfold_locales, goal_cases)
  case (2 a n al r a')
  note alloc = arena_alloc_bytes_Inr [OF 2(2) [unfolded arena_alloc_block_Inr, THEN conjunct1]]
  have "0 < unat n"
    using alloc by (simp add: unat_gt_0)
  moreover have "unat b + unat (ar_off a) \<le> unat (ds_data (fst r))"
    using alloc 2(1) align_nat(1) [OF power_of_two_pos, of al] by (simp add: arena_ok_def)
  ultimately show ?case
    using alloc 2 align_nat(3) [OF power_of_two_pos, of al]
    by (auto simp: arena_ok_def word_le_nat_alt span_end_def block_aligned_def arena_alloc_block_Inr)
qed (auto simp: arena_ok_def word_le_nat_alt arena_scope_def arena_scope_end_def)

text \<open>
  C29. Any program of allocations and scopes over an arena: the spans live at its end are pairwise
  disjoint, aligned as requested, and inside the backing range, whatever allocations failed.
\<close>

theorem arena_spans_disjoint:
  assumes "arena_ok b c a" "arena_run a ops = (a', frames, live)"
  shows "sorted_wrt (\<lambda>r older. span_end (fst older) \<le> unat (ds_data (fst r))) live \<and>
    (\<forall>r \<in> set live. is_power_of_two (snd r) \<and> unat (snd r) dvd unat (ds_data (fst r)) \<and>
      b \<le> ds_data (fst r) \<and> span_end (fst r) \<le> unat b + unat c) \<and>
    arena_ok b c a'"
proof -
  have live: "arena_ok b c a' \<and> (\<forall>r \<in> set live. (block_aligned r \<and> b \<le> ds_data (fst r)) \<and>
      span_end (fst r) - unat b \<le> unat c) \<and>
      sorted_wrt (\<lambda>r older. span_end (fst older) - unat b \<le> unat (ds_data (fst r)) - unat b) live"
    using arena_bump.live_blocks [OF assms(1) assms(2) [unfolded arena_run_def]] by simp
  have "sorted_wrt (\<lambda>r older. span_end (fst older) \<le> unat (ds_data (fst r))) live"
  proof (rule sorted_wrt_mono_rel [OF _ live [THEN conjunct2, THEN conjunct2]])
    fix r older :: "device_span \<times> u64"
    assume "r \<in> set live" "older \<in> set live"
      "span_end (fst older) - unat b \<le> unat (ds_data (fst r)) - unat b"
    moreover have "unat b \<le> unat (ds_data (fst r))"
      using live calculation(1) by (simp add: word_le_nat_alt)
    ultimately show "span_end (fst older) \<le> unat (ds_data (fst r))"
      by linarith
  qed
  then show ?thesis
    using live by (auto simp: block_aligned_def)
qed

theorem arena_spans_disjoint_witness:
  "arena_run \<lparr>ar_base = 4160, ar_cap = 512, ar_off = 0, ar_peak = 0, ar_owns = False\<rparr>
      [Sc_alloc 100 64, Sc_alloc 8 256, Sc_alloc 600 1] =
    (\<lparr>ar_base = 4160, ar_cap = 512, ar_off = 200, ar_peak = 200, ar_owns = False\<rparr>, [],
     [(\<lparr>ds_data = 4352, ds_bytes = 8\<rparr>, 256), (\<lparr>ds_data = 4160, ds_bytes = 100\<rparr>, 64)]) \<and>
   span_end \<lparr>ds_data = 4160, ds_bytes = 100\<rparr> \<le> 4352"
proof -
  let ?a = "\<lparr>ar_base = 4160, ar_cap = 512, ar_off = 0, ar_peak = 0, ar_owns = False\<rparr> :: arena"
  have run: "arena_run ?a [Sc_alloc 100 64, Sc_alloc 8 256, Sc_alloc 600 1] =
    (\<lparr>ar_base = 4160, ar_cap = 512, ar_off = 200, ar_peak = 200, ar_owns = False\<rparr>, [],
     [(\<lparr>ds_data = 4352, ds_bytes = 8\<rparr>, 256), (\<lparr>ds_data = 4160, ds_bytes = 100\<rparr>, 64)])"
    by code_simp
  have "arena_ok 4160 512 ?a"
    by (simp add: arena_ok_def)
  from arena_spans_disjoint [OF this run] show ?thesis
    using run by simp
qed

section \<open>The dry run of a workspace\<close>

text \<open>
  A program of a target's allocation helpers, run against the layout builder (\<open>dry_run\<close>) and against
  the arena (\<open>replay\<close>). The first exception ends the program. Both keep what every allocation returned: the
  dry run, whose tensors and spans have no address, the offset that the cursor has passed and the size; the replay the
  address and the size.
\<close>

datatype ws_op = Ws_tensor dtype "int list" u64 | Ws_bytes u64 u64 | Ws_open | Ws_close

type_synonym dry_state = "ws_builder \<times> alloc_scope list \<times> (u64 \<times> u64) list"
type_synonym replay_state = "arena \<times> alloc_scope list \<times> device_span list"

fun dry_step :: "ws_op \<Rightarrow> dry_state \<Rightarrow> exn + dry_state" where
  "dry_step (Ws_tensor ty shape al) (b, scopes, got) =
     (case ws_alloc ty shape al b of
        (Inl e, _) \<Rightarrow> Inl e
      | (Inr t, b') \<Rightarrow> (case tensor_bytes t of Inl e \<Rightarrow> Inl e
          | Inr n \<Rightarrow> Inr (b', scopes, got @ [(wb_cursor b' - of_int n, of_int n)])))"
| "dry_step (Ws_bytes n al) (b, scopes, got) =
     (case ws_alloc_bytes n al b of
        (Inl e, _) \<Rightarrow> Inl e
      | (Inr r, b') \<Rightarrow> Inr (b', scopes, got @ [(wb_cursor b' - ds_bytes r, ds_bytes r)]))"
| "dry_step Ws_open (b, scopes, got) = Inr (b, ws_scope b # scopes, got)"
| "dry_step Ws_close (b, [], got) = Inr (b, [], got)"
| "dry_step Ws_close (b, s # scopes, got) = Inr (ws_scope_end s b, scopes, got)"

fun replay_step :: "ws_op \<Rightarrow> replay_state \<Rightarrow> exn + replay_state" where
  "replay_step (Ws_tensor ty shape al) (a, scopes, got) =
     (case arena_alloc ty shape al a of
        Inl e \<Rightarrow> Inl e
      | Inr (t, a') \<Rightarrow> (case tensor_bytes t of Inl e \<Rightarrow> Inl e
          | Inr n \<Rightarrow> Inr (a', scopes, got @ [\<lparr>ds_data = data t, ds_bytes = of_int n\<rparr>])))"
| "replay_step (Ws_bytes n al) (a, scopes, got) =
     (case arena_alloc_bytes n al a of Inl e \<Rightarrow> Inl e | Inr (r, a') \<Rightarrow> Inr (a', scopes, got @ [r]))"
| "replay_step Ws_open (a, scopes, got) = Inr (a, arena_scope a # scopes, got)"
| "replay_step Ws_close (a, [], got) = Inr (a, [], got)"
| "replay_step Ws_close (a, s # scopes, got) = Inr (arena_scope_end s a, scopes, got)"

fun dry_run :: "ws_op list \<Rightarrow> dry_state \<Rightarrow> exn + dry_state" where
  "dry_run [] st = Inr st"
| "dry_run (op # ops) st = (case dry_step op st of Inl e \<Rightarrow> Inl e | Inr st' \<Rightarrow> dry_run ops st')"

fun replay :: "ws_op list \<Rightarrow> replay_state \<Rightarrow> exn + replay_state" where
  "replay [] st = Inr st"
| "replay (op # ops) st = (case replay_step op st of Inl e \<Rightarrow> Inl e | Inr st' \<Rightarrow> replay ops st')"

text \<open>The arena's base has the operation's alignment; a block of no bytes.\<close>

fun op_suits :: "u64 \<Rightarrow> ws_op \<Rightarrow> bool" where
  "op_suits b (Ws_tensor ty shape al) \<longleftrightarrow> unat al dvd unat b"
| "op_suits b (Ws_bytes n al) \<longleftrightarrow> unat al dvd unat b"
| "op_suits b Ws_open \<longleftrightarrow> True"
| "op_suits b Ws_close \<longleftrightarrow> True"

fun empty_block :: "ws_op \<Rightarrow> bool" where
  "empty_block (Ws_bytes n al) \<longleftrightarrow> n = 0"
| "empty_block _ \<longleftrightarrow> False"

definition placed_at :: "u64 \<Rightarrow> (u64 \<times> u64) list \<Rightarrow> device_span list" where
  "placed_at base got = map (\<lambda>(offset, n). \<lparr>ds_data = base + offset, ds_bytes = n\<rparr>) got"

lemma ws_advance_Inr:
  assumes "ws_advance n al b = (Inr u, b')"
  shows "is_power_of_two al \<and>
    unat (wb_cursor b') = align_nat (unat (wb_cursor b)) (unat al) + unat n \<and>
    unat (wb_peak b') = max (unat (wb_peak b)) (unat (wb_cursor b'))"
  using assms align_up_Inr [of "wb_cursor b" al] unat_checked_add
  by (auto simp: ws_advance_def word_less_nat_alt split: sum.splits)

lemma align_nat_shift:
  assumes "al dvd b" "0 < al"
  shows "align_nat (b + x) al = b + align_nat x al"
proof -
  obtain m where "b = al * m"
    using assms(1) by blast
  then have "b + x + (al - 1) = (x + (al - 1)) + m * al"
    by (simp add: mult.commute)
  then have "(b + x + (al - 1)) div al = m + (x + (al - 1)) div al"
    using assms(2) by (simp only: div_mult_self1)
  then show ?thesis
    unfolding align_nat_def by (simp only: distrib_left \<open>b = al * m\<close>)
qed

definition matches :: "arena \<Rightarrow> ws_builder \<Rightarrow> bool" where
  "matches a b \<longleftrightarrow> ar_off a = wb_cursor b \<and> ar_peak a = wb_peak b"

lemma advance_replayed:
  assumes adv: "ws_advance n al b = (Inr u, b')" and "n \<noteq> 0" "unat al dvd unat (ar_base a)"
    and "ar_base a \<noteq> 0" "unat (ar_base a) + unat (ar_cap a) \<le> 2 ^ 64" "matches a b"
    and fits: "unat (wb_cursor b') \<le> unat (ar_cap a)"
  shows "\<exists>a'. arena_alloc_bytes n al a = Inr (\<lparr>ds_data = ar_base a + (wb_cursor b' - n), ds_bytes = n\<rparr>, a') \<and> matches a' b' \<and>
    ar_base a' = ar_base a \<and> ar_cap a' = ar_cap a"
proof -
  note adv' = ws_advance_Inr [OF adv]
  let ?b = "unat (ar_base a)" and ?o = "align_nat (unat (ar_off a)) (unat al)"
  have al: "is_power_of_two al" and pos: "0 < unat al"
    using adv' power_of_two_pos by auto
  have cur: "unat (wb_cursor b') = ?o + unat n"
    using adv' assms(6) by (simp add: matches_def)
  have "0 < unat n"
    using assms(2) by (simp add: unat_gt_0)
  then have below: "?b + ?o < 2 ^ 64"
    using cur fits assms(5) by linarith
  obtain k where "k < 64" "unat al = 2 ^ k"
    using power_of_two [OF al] by blast
  then have "unat al dvd 2 ^ 64"
    by (metis le_imp_power_dvd less_imp_le)
  moreover have "unat al dvd ?b + ?o"
    using assms(3) align_nat(3) [OF pos] by simp
  ultimately have "unat al dvd 2 ^ 64 - (?b + ?o)"
    by (rule dvd_diff_nat)
  then have "unat al \<le> 2 ^ 64 - (?b + ?o)"
    using below by (intro dvd_imp_le) auto
  then have room: "?b + unat (ar_off a) + (unat al - 1) < 2 ^ 64"
    using align_nat(1) [OF pos, of "unat (ar_off a)"] pos below by linarith
  define w where "w = ar_base a + ar_off a"
  have w: "checked_add (ar_base a) (ar_off a) = Inr w"
    using room by (simp add: w_def checked_add_Inr)
  note w = w unat_checked_add [OF w]
  obtain x where "align_up w al = Inr x"
    using align_up_InrI [OF al, of w] room w(2) by auto
  then have x: "align_up w al = Inr x" "unat x = ?b + ?o"
    using align_up_Inr(2) [of w al x] by (simp_all add: w(2) align_nat_shift [OF assms(3) pos])
  have "unat (x - ar_base a) = ?o"
    using x(2) by (simp add: unat_sub word_le_nat_alt)
  moreover have "unat (x - ar_base a + n) = ?o + unat n"
    using calculation cur unsigned_less [of "wb_cursor b'", where 'a = nat]
    by (subst unat_add_lem [THEN iffD1]) simp_all
  ultimately have e: "x - ar_base a + n = wb_cursor b'" and ok: "\<not> - 1 - (x - ar_base a) < n"
    using cur unsigned_less [of "wb_cursor b'", where 'a = nat]
    by (simp_all add: word_unat_eq_iff overflow_test)
  have "wb_peak b' = (if ar_peak a < wb_cursor b' then wb_cursor b' else ar_peak a)"
    using adv' assms(6) by (auto simp: matches_def word_less_nat_alt word_unat_eq_iff)
  moreover have "\<not> ar_cap a < wb_cursor b'"
    using fits by (simp add: word_less_nat_alt)
  moreover have "x = ar_base a + (wb_cursor b' - n)"
    unfolding e [symmetric] by simp
  ultimately show ?thesis
    using al assms(2,4) w(1) x(1) e ok
    by (simp add: arena_alloc_bytes_def align_up_addr_eq matches_def Let_def)
qed

lemma strides_loop_data:
  "strides_loop ks n (t\<lparr>data := d\<rparr>) = map_sum (\<lambda>e. e) (\<lambda>t. t\<lparr>data := d\<rparr>) (strides_loop ks n t)"
proof (induction ks arbitrary: n t)
  case (Cons k ks)
  have "t\<lparr>data := d, nb := l\<rparr> = t\<lparr>nb := l, data := d\<rparr>" for l
    by simp
  then have "strides_loop ks m (t\<lparr>data := d, nb := l\<rparr>) =
      map_sum (\<lambda>e. e) (\<lambda>t. t\<lparr>data := d\<rparr>) (strides_loop ks m (t\<lparr>nb := l\<rparr>))" for m l
    by (simp only: Cons.IH)
  then show ?case
    by (auto split: sum.splits)
qed simp

lemma tensor_new_data:
  assumes "tensor_new d ty shape = Inr t"
  shows "tensor_new d' ty shape = Inr (t\<lparr>data := d'\<rparr>)"
proof -
  obtain out where out: "normalize_shape shape = Inr out"
    using assms by (auto simp: tensor_new_def split: sum.splits)
  then show ?thesis
    using assms strides_loop_data [where ks = "[1, 2, 3]" and n = "dtype_size ty" and d = d' and
        t = "\<lparr>data = d, dtype = ty, ne = out, nb = [dtype_size ty, 0, 0, 0]\<rparr>"]
    by (simp add: tensor_new_def set_contiguous_strides_def del: strides_loop.simps)
qed

lemma tensor_bytes_nonzero:
  assumes "tensor_new d ty shape = Inr t" "tensor_bytes t = Inr n"
  shows "(of_int n :: u64) \<noteq> 0"
proof -
  obtain m where m: "numel t = Inr m" "n = m * dtype_size ty" "m \<le> SIZE_MAX div dtype_size ty"
    using assms tensor_new_strides [OF assms(1)] dtype_size_pos(1) [of ty]
    by (auto simp: tensor_bytes_def Let_def split: sum.splits if_splits)
  have "0 < m"
    using numel_product [OF _ m(1)] tensor_new_strides [OF assms(1)] by auto
  then have "0 < n"
    using m(2) dtype_size_pos(1) [of ty] by simp
  moreover have "n \<le> SIZE_MAX"
    using m(2,3) int_div_less_iff [OF dtype_size_pos(1) [of ty], of SIZE_MAX m] by linarith
  ultimately show ?thesis
    by (simp add: SIZE_MAX_def word_of_int_eq_0_iff zdvd_not_zless)
qed

fun scopes_ok :: "u64 \<Rightarrow> alloc_scope list \<Rightarrow> bool" where
  "scopes_ok c [] \<longleftrightarrow> True"
| "scopes_ok c (s # scopes) \<longleftrightarrow> scope_live s \<and> scope_saved s \<le> c \<and> scopes_ok (scope_saved s) scopes"

lemma scopes_ok_mono: "scopes_ok c scopes \<Longrightarrow> c \<le> d \<Longrightarrow> scopes_ok d scopes"
  by (cases scopes) auto

lemma advance_grows:
  assumes "ws_advance n al b = (Inr u, b')"
  shows "wb_cursor b \<le> wb_cursor b'" "wb_cursor b' \<le> wb_peak b'" "wb_peak b \<le> wb_peak b'"
proof -
  show "wb_cursor b \<le> wb_cursor b'"
    using ws_advance_Inr [OF assms] align_nat(1) [OF power_of_two_pos, of al "unat (wb_cursor b)"]
    by (simp add: word_le_nat_alt)
qed (use ws_advance_Inr [OF assms] in \<open>simp_all add: word_le_nat_alt\<close>)

lemma ws_alloc_Inr:
  assumes "ws_alloc ty shape al b = (Inr t, b')"
  shows "\<exists>n u. tensor_new 0 ty shape = Inr t \<and> tensor_bytes t = Inr n \<and>
    ws_advance (of_int n) al b = (Inr u, b')"
  using assms by (auto simp: ws_alloc_def split: sum.splits prod.splits)

lemma tensor_bytes_data: "tensor_bytes (t\<lparr>data := d\<rparr>) = tensor_bytes t"
  by (simp add: tensor_bytes_def numel_def split: sum.split)

text \<open>One step: with a large enough arena the replay follows the dry run, at the same offsets.\<close>

lemma step_replayed:
  assumes "dry_step op (b, scopes, got) = Inr (b', scopes', got')" "op_suits (ar_base a) op" "\<not> empty_block op" "matches a b"
    and "scopes_ok (wb_cursor b) scopes" "ar_base a \<noteq> 0" "unat (ar_base a) + unat (ar_cap a) \<le> 2 ^ 64"
    and "wb_peak b' \<le> ar_cap a"
  shows "\<exists>a'. replay_step op (a, scopes, placed_at (ar_base a) got) = Inr (a', scopes', placed_at (ar_base a) got') \<and> matches a' b' \<and>
    ar_base a' = ar_base a \<and> ar_cap a' = ar_cap a \<and> scopes_ok (wb_cursor b') scopes'"
proof -
  have advance: "\<exists>a'. arena_alloc_bytes n al a = Inr (\<lparr>ds_data = ar_base a + (wb_cursor b' - n), ds_bytes = n\<rparr>, a') \<and> matches a' b' \<and>
      ar_base a' = ar_base a \<and> ar_cap a' = ar_cap a \<and> scopes_ok (wb_cursor b') scopes"
    if "ws_advance n al b = (Inr u, b')" "n \<noteq> 0" "unat al dvd unat (ar_base a)" for n al u
    using advance_replayed [OF that assms(6,7,4)] advance_grows [OF that(1)] assms(8)
      scopes_ok_mono [OF assms(5)] by (auto simp: word_le_nat_alt)
  show ?thesis
  proof (cases op)
    case (Ws_tensor ty shape al)
    then obtain t where t: "ws_alloc ty shape al b = (Inr t, b')" "scopes' = scopes"
      using assms(1) by (auto split: prod.splits sum.splits)
    obtain n u where n: "tensor_new 0 ty shape = Inr t" "tensor_bytes t = Inr n"
        "ws_advance (of_int n) al b = (Inr u, b')"
      using ws_alloc_Inr [OF t(1)] by blast
    then obtain a' where "arena_alloc_bytes (of_int n) al a = Inr (\<lparr>ds_data = ar_base a + (wb_cursor b' - of_int n), ds_bytes = of_int n\<rparr>, a')"
        "matches a' b'" "ar_base a' = ar_base a" "ar_cap a' = ar_cap a" "scopes_ok (wb_cursor b') scopes"
      using advance [OF n(3) tensor_bytes_nonzero [OF n(1,2)]] assms(2) Ws_tensor by auto
    moreover have "got' = got @ [(wb_cursor b' - of_int n, of_int n)]"
      using assms(1) Ws_tensor t(1) n(2) by simp
    ultimately show ?thesis
      using Ws_tensor t(2) n(1,2) tensor_new_data [OF n(1)] by (simp add: arena_alloc_def tensor_bytes_data placed_at_def)
  next
    case (Ws_bytes n al)
    then obtain u where "ws_advance n al b = (Inr u, b')" "scopes' = scopes" "n \<noteq> 0" "got' = got @ [(wb_cursor b' - n, n)]"
      using assms(1,3) by (auto simp: ws_alloc_bytes_def split: prod.splits sum.splits if_splits)
    then show ?thesis
      using advance [of n al u] assms(2) Ws_bytes by (auto simp: placed_at_def)
  next
    case Ws_open
    then show ?thesis
      using assms by (auto simp: ws_scope_def arena_scope_def matches_def)
  next
    case Ws_close
    then show ?thesis
      using assms by (cases scopes) (auto simp: ws_scope_end_def arena_scope_end_def matches_def)
  qed
qed

lemma dry_step_peak:
  assumes "dry_step op (b, scopes, got) = Inr (b', scopes', got')"
  shows "wb_peak b \<le> wb_peak b'"
  using assms advance_grows(3) ws_alloc_Inr
  by (cases op; cases scopes)
    (fastforce simp: ws_alloc_bytes_def ws_scope_end_def split: prod.splits sum.splits if_splits)+

lemma dry_run_peak: "dry_run ops (b, scopes, got) = Inr (b', scopes', got') \<Longrightarrow> wb_peak b \<le> wb_peak b'"
proof (induction ops arbitrary: b scopes got)
  case (Cons op ops)
  then obtain b1 scopes1 got1 where "dry_step op (b, scopes, got) = Inr (b1, scopes1, got1)"
      "dry_run ops (b1, scopes1, got1) = Inr (b', scopes', got')"
    by (auto split: sum.splits)
  then show ?case
    using Cons.IH dry_step_peak by (meson order.trans)
qed simp

lemma run_replayed:
  assumes "dry_run ops (b, scopes, got) = Inr (b', scopes', got')" "\<forall>op \<in> set ops. op_suits (ar_base a) op" "matches a b"
    and "scopes_ok (wb_cursor b) scopes" "ar_base a \<noteq> 0" "unat (ar_base a) + unat (ar_cap a) \<le> 2 ^ 64"
    and "wb_peak b' \<le> ar_cap a"
  shows "if \<exists>op \<in> set ops. empty_block op
    then replay ops (a, scopes, placed_at (ar_base a) got) = Inl Invalid_argument
    else \<exists>a'. replay ops (a, scopes, placed_at (ar_base a) got) = Inr (a', scopes', placed_at (ar_base a) got') \<and> matches a' b'"
  using assms
proof (induction ops arbitrary: a b scopes got)
  case (Cons op ops)
  obtain b1 scopes1 got1 where step: "dry_step op (b, scopes, got) = Inr (b1, scopes1, got1)"
      and run: "dry_run ops (b1, scopes1, got1) = Inr (b', scopes', got')"
    using Cons.prems(1) by (auto split: sum.splits)
  show ?case
  proof (cases "empty_block op")
    case True
    then show ?thesis
      using Cons.prems(5) by (cases op) (auto simp: arena_alloc_bytes_def)
  next
    case False
    have "wb_peak b1 \<le> ar_cap a"
      using dry_run_peak [OF run] Cons.prems(7) by simp
    then obtain a1 where "replay_step op (a, scopes, placed_at (ar_base a) got) = Inr (a1, scopes1, placed_at (ar_base a1) got1)" "matches a1 b1"
        "ar_base a1 = ar_base a" "ar_cap a1 = ar_cap a" "scopes_ok (wb_cursor b1) scopes1"
      using step_replayed [OF step _ False Cons.prems(3-6)] Cons.prems(2) by auto
    then show ?thesis
      using Cons.IH [OF run, of a1] Cons.prems False by (cases "\<exists>op \<in> set ops. empty_block op") simp_all
  qed
qed simp

text \<open>
  C30. The dry run sizes the arena. Let a program of allocations and scopes run against the workspace layout builder
  without an exception, and let an arena be fresh, have a base with the alignment of every allocation, a range that does
  not wrap around, and a capacity of at least \<open>peak_bytes\<close>. Without a block of zero bytes the program runs against the
  arena without an exception, every allocation is at the base plus the offset the dry run gave it and has its size, the
  open scopes are the same, and offset and peak are the builder's cursor and peak. With a block of zero bytes, which
  the builder accepts, the arena throws.
\<close>

theorem dry_run_sizes_arena:
  assumes "dry_run ops (ws_builder_new, [], []) = Inr (b, scopes, got)" "ws_peak_bytes al b = Inr need"
    and "need \<le> ar_cap a" "ar_base a \<noteq> 0" "unat (ar_base a) + unat (ar_cap a) \<le> 2 ^ 64"
    and "ar_off a = 0" "ar_peak a = 0" "\<forall>op \<in> set ops. op_suits (ar_base a) op"
  shows "if \<exists>op \<in> set ops. empty_block op then replay ops (a, [], []) = Inl Invalid_argument
    else \<exists>a' spans. replay ops (a, [], []) = Inr (a', scopes, spans) \<and>
      spans = map (\<lambda>(offset, n). \<lparr>ds_data = ar_base a + offset, ds_bytes = n\<rparr>) got \<and>
      ar_off a' = wb_cursor b \<and> ar_peak a' = wb_peak b \<and> ar_peak a' \<le> need"
proof -
  have "wb_peak b \<le> need"
    using align_up_Inr [of "wb_peak b" al need] assms(2) align_nat(1) [OF power_of_two_pos]
    by (simp add: ws_peak_bytes_def word_le_nat_alt)
  moreover have "matches a ws_builder_new" "scopes_ok (wb_cursor ws_builder_new) []"
    using assms(6,7) by (simp_all add: matches_def ws_builder_new_def)
  ultimately show ?thesis
    using run_replayed [OF assms(1,8) _ _ assms(4,5)] order.trans [OF _ assms(3)]
    by (auto simp: matches_def placed_at_def split: if_splits)
qed

theorem dry_run_sizes_arena_witness:
  "replay [Ws_bytes 100 64, Ws_open, Ws_tensor FP32 [3, 5] 256, Ws_close, Ws_bytes 8 256]
     (\<lparr>ar_base = 4096, ar_cap = 512, ar_off = 0, ar_peak = 0, ar_owns = False\<rparr>, [], []) =
   Inr (\<lparr>ar_base = 4096, ar_cap = 512, ar_off = 264, ar_peak = 316, ar_owns = False\<rparr>, [],
     [\<lparr>ds_data = 4096, ds_bytes = 100\<rparr>, \<lparr>ds_data = 4352, ds_bytes = 60\<rparr>, \<lparr>ds_data = 4352, ds_bytes = 8\<rparr>])"
proof -
  let ?ops = "[Ws_bytes 100 64, Ws_open, Ws_tensor FP32 [3, 5] 256, Ws_close, Ws_bytes 8 256]"
    and ?a = "\<lparr>ar_base = 4096, ar_cap = 512, ar_off = 0, ar_peak = 0, ar_owns = False\<rparr> :: arena"
  have dry: "dry_run ?ops (ws_builder_new, [], []) = Inr (\<lparr>wb_cursor = 264, wb_peak = 316\<rparr>, [], [(0, 100), (256, 60), (256, 8)])"
    "ws_peak_bytes 256 \<lparr>wb_cursor = 264, wb_peak = 316\<rparr> = Inr 512"
    by code_simp+
  have "\<exists>a' spans. replay ?ops (?a, [], []) = Inr (a', [], spans) \<and>
      spans = map (\<lambda>(offset, n). \<lparr>ds_data = 4096 + offset, ds_bytes = n\<rparr>) [(0, 100), (256, 60), (256, 8)] \<and>
      ar_off a' = 264 \<and> ar_peak a' = 316 \<and> ar_peak a' \<le> 512"
    using dry_run_sizes_arena [OF dry, of ?a] by simp
  moreover have "replay ?ops (?a, [], []) =
      Inr (\<lparr>ar_base = 4096, ar_cap = 512, ar_off = 264, ar_peak = 316, ar_owns = False\<rparr>, [],
        [\<lparr>ds_data = 4096, ds_bytes = 100\<rparr>, \<lparr>ds_data = 4352, ds_bytes = 60\<rparr>, \<lparr>ds_data = 4352, ds_bytes = 8\<rparr>])"
    by code_simp
  ultimately show ?thesis
    by simp
qed

end
