(* ===== verification/Owning_Handles.thy ===== *)
theory Owning_Handles
  imports Device_Memory "HOL-Library.Multiset"
begin

text \<open>
  Model of the handles of \<open>src/core/arena.h\<close> and \<open>src/core/arena.cu\<close> that own CUDA allocations: the
  device buffer with its copies, the pinned host buffer, and the ownership of the device arena
  (its allocation functions are in \<open>Device_Memory\<close>).

  The result of \<open>cudaMalloc\<close>, \<open>cudaMallocHost\<close>, \<open>cudaMemset\<close> and \<open>cudaMemcpy\<close> is an argument: the address
  or \<open>None\<close>, and whether the call succeeded. An operation that frees returns the addresses it passed to
  \<open>cudaFree\<close> or \<open>cudaFreeHost\<close>; one that copies returns the device range it passed to \<open>cudaMemcpy\<close>.

  The theorems: whatever the constructions, moves, assignments and destructions, every allocation
  is freed at most once and is otherwise still held by exactly one handle; and the copies stay
  inside the buffer.
\<close>

section \<open>Handles\<close>

record device_buffer =
  db_p :: u64
  db_bytes :: u64

record pinned_buffer =
  pb_data :: u64
  pb_size :: u64

text \<open>\<open>free_device\<close> and \<open>free_pinned\<close>: the addresses freed.\<close>

definition free_ptr :: "u64 \<Rightarrow> u64 list" where
  "free_ptr ptr = (if ptr \<noteq> 0 then [ptr] else [])"

definition buffer_new :: "u64 \<Rightarrow> u64 option \<Rightarrow> exn + device_buffer" where
  "buffer_new size_bytes malloc =
     (if size_bytes = 0 then Inr \<lparr>db_p = 0, db_bytes = 0\<rparr>
      else case malloc of
        None \<Rightarrow> Inl Runtime_error
      | Some ptr \<Rightarrow> Inr \<lparr>db_p = ptr, db_bytes = size_bytes\<rparr>)"

definition buffer_destroy :: "device_buffer \<Rightarrow> u64 list" where
  "buffer_destroy b = free_ptr (db_p b)"

text \<open>A move gives the new handle and the handle moved from.\<close>

definition buffer_move :: "device_buffer \<Rightarrow> device_buffer \<times> device_buffer" where
  "buffer_move other = (\<lparr>db_p = db_p other, db_bytes = db_bytes other\<rparr>, \<lparr>db_p = 0, db_bytes = 0\<rparr>)"

text \<open>A move assignment between distinct handles: the handles afterwards and the addresses freed.\<close>

definition buffer_assign :: "device_buffer \<Rightarrow> device_buffer \<Rightarrow> device_buffer \<times> device_buffer \<times> u64 list" where
  "buffer_assign this other =
     (\<lparr>db_p = db_p other, db_bytes = db_bytes other\<rparr>, \<lparr>db_p = 0, db_bytes = 0\<rparr>, free_ptr (db_p this))"

definition buffer_fill :: "device_buffer \<Rightarrow> bool \<Rightarrow> exn + (u64 \<times> u64) option" where
  "buffer_fill b memset_ok =
     (if db_bytes b = 0 then Inr None
      else if \<not> memset_ok then Inl Runtime_error
      else Inr (Some (db_p b, db_bytes b)))"

definition require_range :: "device_buffer \<Rightarrow> u64 \<Rightarrow> u64 \<Rightarrow> exn + unit" where
  "require_range b byte_offset n_bytes =
     (if db_bytes b < byte_offset \<or> db_bytes b - byte_offset < n_bytes then Inl Out_of_range else Inr ())"

definition buffer_copy_from_host :: "device_buffer \<Rightarrow> u64 \<Rightarrow> u64 \<Rightarrow> bool \<Rightarrow> exn + (u64 \<times> u64) option" where
  "buffer_copy_from_host b n_bytes byte_offset memcpy_ok =
     (case require_range b byte_offset n_bytes of
        Inl e \<Rightarrow> Inl e
      | Inr _ \<Rightarrow>
          if n_bytes = 0 then Inr None
          else if \<not> memcpy_ok then Inl Runtime_error
          else Inr (Some (db_p b + byte_offset, n_bytes)))"

definition buffer_copy_to_host :: "device_buffer \<Rightarrow> u64 \<Rightarrow> u64 \<Rightarrow> bool \<Rightarrow> exn + (u64 \<times> u64) option" where
  "buffer_copy_to_host b n_bytes byte_offset memcpy_ok =
     (case require_range b byte_offset n_bytes of
        Inl e \<Rightarrow> Inl e
      | Inr _ \<Rightarrow>
          if n_bytes = 0 then Inr None
          else if \<not> memcpy_ok then Inl Runtime_error
          else Inr (Some (db_p b + byte_offset, n_bytes)))"

definition arena_destroy :: "arena \<Rightarrow> u64 list" where
  "arena_destroy a = (if ar_owns a then free_ptr (ar_base a) else [])"

definition arena_moved_from :: arena where
  "arena_moved_from = \<lparr>ar_base = 0, ar_cap = 0, ar_off = 0, ar_peak = 0, ar_owns = True\<rparr>"

definition arena_move :: "arena \<Rightarrow> arena \<times> arena" where
  "arena_move other =
     (\<lparr>ar_base = ar_base other, ar_cap = ar_cap other, ar_off = ar_off other, ar_peak = ar_peak other,
       ar_owns = ar_owns other\<rparr>, arena_moved_from)"

definition arena_assign :: "arena \<Rightarrow> arena \<Rightarrow> arena \<times> arena \<times> u64 list" where
  "arena_assign this other =
     (\<lparr>ar_base = ar_base other, ar_cap = ar_cap other, ar_off = ar_off other, ar_peak = ar_peak other,
       ar_owns = ar_owns other\<rparr>, arena_moved_from,
      if ar_owns this then free_ptr (ar_base this) else [])"

definition pinned_new :: "u64 \<Rightarrow> u64 option \<Rightarrow> exn + pinned_buffer" where
  "pinned_new size_bytes malloc =
     (if size_bytes = 0 then Inl Invalid_argument
      else case malloc of
        None \<Rightarrow> Inl Runtime_error
      | Some ptr \<Rightarrow> Inr \<lparr>pb_data = ptr, pb_size = size_bytes\<rparr>)"

definition pinned_destroy :: "pinned_buffer \<Rightarrow> u64 list" where
  "pinned_destroy b = free_ptr (pb_data b)"

definition pinned_move :: "pinned_buffer \<Rightarrow> pinned_buffer \<times> pinned_buffer" where
  "pinned_move other = (\<lparr>pb_data = pb_data other, pb_size = pb_size other\<rparr>, \<lparr>pb_data = 0, pb_size = 0\<rparr>)"

definition pinned_assign :: "pinned_buffer \<Rightarrow> pinned_buffer \<Rightarrow> pinned_buffer \<times> pinned_buffer \<times> u64 list" where
  "pinned_assign this other =
     (\<lparr>pb_data = pb_data other, pb_size = pb_size other\<rparr>, \<lparr>pb_data = 0, pb_size = 0\<rparr>, free_ptr (pb_data this))"

section \<open>Ownership\<close>

text \<open>
  Programs over handles in numbered slots (an empty slot is a destroyed handle): constructing a
  handle that a constructor returned, move construction, move assignment (of a handle to itself: no
  effect) and destruction. The state holds the slots and the addresses freed so far.
\<close>

datatype 'h handle_op = Hd_new 'h | Hd_move nat | Hd_assign nat nat | Hd_destroy nat

definition slot :: "'h option list \<Rightarrow> nat \<Rightarrow> 'h option" where
  "slot hs i = (if i < length hs then hs ! i else None)"

fun handle_step ::
    "('h \<Rightarrow> 'h \<times> 'h) \<Rightarrow> ('h \<Rightarrow> 'h \<Rightarrow> 'h \<times> 'h \<times> u64 list) \<Rightarrow> ('h \<Rightarrow> u64 list) \<Rightarrow>
     'h handle_op \<Rightarrow> 'h option list \<times> u64 list \<Rightarrow> 'h option list \<times> u64 list" where
  "handle_step move assign destroy (Hd_new h) (hs, freed) = (hs @ [Some h], freed)"
| "handle_step move assign destroy (Hd_move i) (hs, freed) =
     (case slot hs i of
        None \<Rightarrow> (hs, freed)
      | Some h \<Rightarrow> (case move h of (h', old) \<Rightarrow> (hs[i := Some old] @ [Some h'], freed)))"
| "handle_step move assign destroy (Hd_assign i j) (hs, freed) =
     (case (slot hs i, slot hs j) of
        (Some this, Some other) \<Rightarrow>
          if i = j then (hs, freed)
          else (case assign this other of
            (this', other', f) \<Rightarrow> (hs[i := Some this', j := Some other'], freed @ f))
      | _ \<Rightarrow> (hs, freed))"
| "handle_step move assign destroy (Hd_destroy i) (hs, freed) =
     (case slot hs i of
        None \<Rightarrow> (hs, freed)
      | Some h \<Rightarrow> (hs[i := None], freed @ destroy h))"

text \<open>The addresses the constructed handles came with.\<close>

fun acquired :: "('h \<Rightarrow> u64 list) \<Rightarrow> 'h handle_op \<Rightarrow> u64 multiset" where
  "acquired held (Hd_new h) = mset (held h)"
| "acquired held _ = {#}"

definition held_slot :: "('h \<Rightarrow> u64 list) \<Rightarrow> 'h option \<Rightarrow> u64 multiset" where
  "held_slot held h = (case h of None \<Rightarrow> {#} | Some x \<Rightarrow> mset (held x))"

definition held_by :: "('h \<Rightarrow> u64 list) \<Rightarrow> 'h option list \<Rightarrow> u64 multiset" where
  "held_by held hs = sum_list (map (held_slot held) hs)"

text \<open>The contract of an owning handle: what it holds is moved, never duplicated or dropped.\<close>

locale owning_handle =
  fixes move :: "'h \<Rightarrow> 'h \<times> 'h"
    and assign :: "'h \<Rightarrow> 'h \<Rightarrow> 'h \<times> 'h \<times> u64 list"
    and destroy :: "'h \<Rightarrow> u64 list"
    and held :: "'h \<Rightarrow> u64 list"
  assumes move_law: "move h = (h', old) \<Longrightarrow> held h' = held h \<and> held old = []"
    and assign_law: "assign this other = (this', other', f) \<Longrightarrow>
      held this' = held other \<and> held other' = [] \<and> f = held this"
    and destroy_law: "destroy h = held h"
begin

lemma held_by_split:
  assumes "i < length hs"
  shows "held_by held hs = held_by held (take i hs) + held_slot held (hs ! i) + held_by held (drop (Suc i) hs)"
proof -
  have "held_by held (take i hs @ hs ! i # drop (Suc i) hs) =
      held_by held (take i hs) + held_slot held (hs ! i) + held_by held (drop (Suc i) hs)"
    by (simp add: held_by_def)
  then show ?thesis
    by (simp only: id_take_nth_drop [OF assms, symmetric])
qed

lemma held_by_update:
  assumes "slot hs i = Some h"
  shows "held_by held (hs[i := x]) + mset (held h) = held_by held hs + held_slot held x"
proof -
  have i: "i < length hs" "hs ! i = Some h"
    using assms by (auto simp: slot_def split: if_splits)
  then show ?thesis
    using held_by_split [of i hs] held_by_split [of i "hs[i := x]"] by (simp add: held_slot_def)
qed

lemma held_by_snoc: "held_by held (hs @ [x]) = held_by held hs + held_slot held x"
  by (simp add: held_by_def)

lemma slot_update: "i \<noteq> j \<Longrightarrow> slot (hs[i := x]) j = slot hs j"
  by (simp add: slot_def)

lemma step_conserves:
  assumes "handle_step move assign destroy op (hs, freed) = (hs', freed')"
  shows "held_by held hs' + mset freed' = held_by held hs + mset freed + acquired held op"
proof (cases op)
  case (Hd_new h)
  then show ?thesis
    using assms by (auto simp: held_by_snoc held_slot_def)
next
  case (Hd_move i)
  show ?thesis
  proof (cases "slot hs i")
    case (Some h)
    obtain h' old where move: "move h = (h', old)"
      by (cases "move h")
    then show ?thesis
      using assms Hd_move Some held_by_update [OF Some, of "Some old"] move_law [OF move]
      by (auto simp: held_by_snoc held_slot_def)
  qed (use assms Hd_move in auto)
next
  case (Hd_assign i j)
  show ?thesis
  proof (cases "slot hs i = None \<or> slot hs j = None \<or> i = j")
    case False
    then obtain this other where h: "slot hs i = Some this" "slot hs j = Some other" "i \<noteq> j"
      by auto
    obtain this' other' f where a: "assign this other = (this', other', f)"
      by (cases "assign this other") auto
    have 1: "held_by held (hs[i := Some this']) + mset f = held_by held hs + mset (held other)"
      using held_by_update [OF h(1), of "Some this'"] assign_law [OF a] by (simp add: held_slot_def)
    have 2: "held_by held (hs[i := Some this', j := Some other']) + mset (held other) =
        held_by held (hs[i := Some this'])"
      using held_by_update [of "hs[i := Some this']" j other "Some other'"] h slot_update [of i j hs]
        assign_law [OF a] by (simp add: held_slot_def)
    have "held_by held (hs[i := Some this', j := Some other']) + mset f = held_by held hs"
      using 1 [folded 2] by simp
    then show ?thesis
      using assms Hd_assign h a by auto
  qed (use assms Hd_assign in \<open>auto split: option.splits\<close>)
next
  case (Hd_destroy i)
  show ?thesis
  proof (cases "slot hs i")
    case (Some h)
    then show ?thesis
      using assms Hd_destroy held_by_update [OF Some, of None] by (auto simp: held_slot_def destroy_law)
  qed (use assms Hd_destroy in auto)
qed

lemma run_conserves:
  "fold (handle_step move assign destroy) ops (hs, freed) = (hs', freed') \<Longrightarrow>
   held_by held hs' + mset freed' = held_by held hs + mset freed + sum_list (map (acquired held) ops)"
proof (induction ops arbitrary: hs freed)
  case (Cons op ops)
  obtain hs1 freed1 where step: "handle_step move assign destroy op (hs, freed) = (hs1, freed1)"
    by (cases "handle_step move assign destroy op (hs, freed)")
  show ?case
    using Cons.IH [of hs1 freed1] Cons.prems step_conserves [OF step] step by simp
qed simp

end

interpretation buffer_handle: owning_handle buffer_move buffer_assign buffer_destroy
  "\<lambda>b. free_ptr (db_p b)"
  by unfold_locales (auto simp: buffer_move_def buffer_assign_def buffer_destroy_def free_ptr_def)

interpretation arena_handle: owning_handle arena_move arena_assign arena_destroy
  "\<lambda>a. if ar_owns a then free_ptr (ar_base a) else []"
  by unfold_locales (auto simp: arena_move_def arena_assign_def arena_destroy_def arena_moved_from_def
      free_ptr_def)

interpretation pinned_handle: owning_handle pinned_move pinned_assign pinned_destroy
  "\<lambda>b. free_ptr (pb_data b)"
  by unfold_locales (auto simp: pinned_move_def pinned_assign_def pinned_destroy_def free_ptr_def)

text \<open>
  C31. Any program over device buffers, over arenas and over pinned buffers: the addresses that the
  constructors acquired are exactly those freed so far together with those the remaining handles
  hold (an arena over borrowed storage acquires and frees none). So nothing is freed twice, and
  once every handle is destroyed everything acquired has been freed.
\<close>

theorem allocations_freed_once:
  "(let r = fold (handle_step buffer_move buffer_assign buffer_destroy) ops ([], []);
        held = (\<lambda>b. free_ptr (db_p b))
    in sum_list (map (acquired held) ops) = mset (snd r) + held_by held (fst r)) \<and>
   (let r = fold (handle_step arena_move arena_assign arena_destroy) ops' ([], []);
        held = (\<lambda>a. if ar_owns a then free_ptr (ar_base a) else [])
    in sum_list (map (acquired held) ops') = mset (snd r) + held_by held (fst r)) \<and>
   (let r = fold (handle_step pinned_move pinned_assign pinned_destroy) ops'' ([], []);
        held = (\<lambda>b. free_ptr (pb_data b))
    in sum_list (map (acquired held) ops'') = mset (snd r) + held_by held (fst r))"
proof -
  have empty: "held_by held [] = {#}" for held :: "'h \<Rightarrow> u64 list"
    by (simp add: held_by_def)
  show ?thesis
    using buffer_handle.run_conserves [of ops "[]" "[]", OF surjective_pairing]
      arena_handle.run_conserves [of ops' "[]" "[]", OF surjective_pairing]
      pinned_handle.run_conserves [of ops'' "[]" "[]", OF surjective_pairing]
    by (simp add: Let_def empty add.commute)
qed

definition inside :: "device_buffer \<Rightarrow> u64 \<Rightarrow> u64 \<Rightarrow> bool" where
  "inside b off n \<longleftrightarrow> unat off + unat n \<le> unat (db_bytes b)"

text \<open>
  A copy to or from a device buffer fails with \<open>out_of_range\<close> exactly when its range exceeds the
  buffer (a wrapping offset included), fails with \<open>runtime_error\<close> exactly when a nonempty range inside
  meets a failing \<open>cudaMemcpy\<close>, and otherwise touches nothing but its range of the buffer.
\<close>

theorem buffer_copies_in_range:
  "(buffer_copy_from_host b n off good = Inl Out_of_range) = (\<not> inside b off n) \<and>
    (buffer_copy_from_host b n off good = Inl Runtime_error) = (inside b off n \<and> n \<noteq> 0 \<and> \<not> good) \<and>
    (\<forall>p k. buffer_copy_from_host b n off good = Inr (Some (p, k)) \<longrightarrow>
      k = n \<and> p = db_p b + off \<and> inside b off n \<and> 0 < unat k) \<and>
    (buffer_copy_from_host b n off good = Inr None) = (inside b off n \<and> n = 0) \<and>
    buffer_copy_to_host b n off good = buffer_copy_from_host b n off good"
proof -
  have "require_range b off n = (if inside b off n then Inr () else Inl Out_of_range)"
    unfolding require_range_def inside_def
    by (cases "off \<le> db_bytes b") (auto simp: word_less_nat_alt word_le_nat_alt unat_sub)
  then show ?thesis
    by (auto simp: buffer_copy_from_host_def buffer_copy_to_host_def unat_gt_0)
qed

theorem buffer_copies_in_range_witness:
  "buffer_copy_from_host \<lparr>db_p = 4096, db_bytes = 64\<rparr> 16 48 True = Inr (Some (4144, 16)) \<and>
   unat (48 :: u64) + unat (16 :: u64) \<le> 64"
proof -
  have "buffer_copy_from_host \<lparr>db_p = 4096, db_bytes = 64\<rparr> 16 48 True = Inr (Some (4144, 16))"
    by code_simp
  then show ?thesis
    using buffer_copies_in_range [of "\<lparr>db_p = 4096, db_bytes = 64\<rparr>" 16 48 True]
    by (simp add: inside_def)
qed

end
