(* ===== verification/Batched_Verify.thy ===== *)
theory Batched_Verify
  imports Voidinfer_Prelude
begin

unbundle bit_operations_syntax

text \<open>
  Model of \<open>src/exl3/batched_verify_coordinator.h\<close>: the lanes of the engine meet at two gates, the target
  verification and the draft proposal. The first lane to arrive at a gate opens a group and waits;
  the group closes when every active lane has arrived or when the opener stops waiting, and the
  thread that closes it leads one forward for all members.

  The mutex makes each section between two waits one step; \<open>coord_step\<close> performs the step of an event
  (\<open>None\<close>: the event cannot happen in the state). A thread is outside, runs alone, waits as the opener
  of a group, leads a group, or waits for the group to be done. A member of a group, in the source
  a pointer to a local variable of the waiting thread, is the number of the thread. The time-out of
  the opener is an argument of its wake-up, and so is the outcome of the forward. The commands the
  leader issues are a separate definition (\<open>lead_commands\<close>). The accumulated waiting time and the
  forward timings are floating-point statistics and are not modelled; neither are a failing \<open>cudaEventCreate\<close> and
  the notifications of the condition variables: a wake-up may happen at any time.

  The theorems: in every reachable state a group has at most \<open>max_group\<close> members, an open group has
  exactly one opener waiting and a closed group exactly one leader until it is done; no thread waits
  for ever; the leader's commands verify every member exactly once, ordered after the members'
  queued work and before they resume, in groups for which a graph was captured; and the draft leader's draft every
  member exactly once, on one stream, after the members' queued work.
\<close>

section \<open>Groups and settings\<close>

definition kMaxGroup :: nat where
  "kMaxGroup = 8"

text \<open>The values of the two environment variables, once parsed.\<close>

record settings =
  env_max_group :: "int option"
  env_min_width :: int

definition max_group :: "settings \<Rightarrow> nat" where
  "max_group e =
     nat (max 2 (min (int kMaxGroup) (case env_max_group e of Some v \<Rightarrow> v | None \<Rightarrow> int kMaxGroup)))"

definition min_graph_width :: "settings \<Rightarrow> nat \<Rightarrow> nat" where
  "min_graph_width e n = (if 0 < env_min_width e then nat (env_min_width e) else n - 1)"

definition within_half :: "u32 \<Rightarrow> bool" where
  "within_half bits \<longleftrightarrow> bits AND 0xF0 = 0 \<or> bits AND 0x0F = 0"

text \<open>
  \<open>groups()\<close> over the lanes in order: the members of a mask, and the masks whose groups are captured.
\<close>

definition mask_members :: "nat \<Rightarrow> u32 \<Rightarrow> nat list" where
  "mask_members n bits = filter (\<lambda>i. bits AND push_bit i 1 \<noteq> 0) [0..<n]"

definition captured_mask :: "settings \<Rightarrow> nat \<Rightarrow> u32 \<Rightarrow> bool" where
  "captured_mask e n bits \<longleftrightarrow> (let m = length (mask_members n bits) in
     2 \<le> m \<and> m \<le> kMaxGroup \<and> (n \<le> 4 \<or> min_graph_width e n \<le> m \<or> within_half bits))"

definition graph_groups :: "settings \<Rightarrow> nat \<Rightarrow> nat list list" where
  "graph_groups e n =
     map (mask_members n) (filter (captured_mask e n) (map of_nat [1..<2 ^ n]))"

section \<open>The leader's commands\<close>

text \<open>
  The calls a leader issues for members given by their lane orders: a stream waits for an event of a
  lane (\<open>Wait_ready stream lane\<close>, \<open>Wait_done stream lane\<close>), a lane records its completion event, one lane
  verifies alone on its own stream, or a leader verifies with its peers on the leader's stream; one lane or several draft on
  the stream of a lane (\<open>Draft_solo stream lane\<close>, \<open>Draft_batched stream lanes\<close>).
\<close>

datatype command =
    Wait_ready nat nat
  | Wait_done nat nat
  | Record_done nat
  | Forward_solo nat
  | Forward_batched nat "nat list"
  | Draft_solo nat nat
  | Draft_batched nat "nat list"

definition batched_commands :: "nat list \<Rightarrow> command list" where
  "batched_commands members =
     (let leader = hd members; peers = tl members in
      map (Wait_ready leader) peers @ [Forward_batched leader peers, Record_done leader] @
      map (\<lambda>p. Wait_done p leader) peers)"

definition half_commands :: "nat list \<Rightarrow> command list" where
  "half_commands half =
     (if half = [] then []
      else if length half = 1 then [Forward_solo (hd half)]
      else batched_commands half)"

definition splits :: "settings \<Rightarrow> nat \<Rightarrow> nat list \<Rightarrow> bool" where
  "splits e n members \<longleftrightarrow> 4 < n \<and> 1 < length members \<and> length members < min_graph_width e n"

definition lead_commands :: "settings \<Rightarrow> nat \<Rightarrow> nat list \<Rightarrow> command list" where
  "lead_commands e n members =
     (if splits e n members
      then half_commands (filter (\<lambda>m. m < 4) members) @ half_commands (filter (\<lambda>m. \<not> m < 4) members)
      else if length members = 1 then [Forward_solo (hd members)]
      else batched_commands members)"

text \<open>The commands are issued in order until one fails.\<close>

fun issue :: "(command \<Rightarrow> bool) \<Rightarrow> command list \<Rightarrow> command list \<times> bool" where
  "issue fails [] = ([], False)"
| "issue fails (c # cs) =
     (if fails c then ([c], True) else case issue fails cs of (issued, failed) \<Rightarrow> (c # issued, failed))"

text \<open>
  The draft leader: the first member's stream waits for the other members' work, then drafts in chunks of the widest
  batched draft. The drafts synchronize that stream, so that the members need not wait for it.
\<close>

function draft_chunks :: "nat \<Rightarrow> nat \<Rightarrow> nat list \<Rightarrow> command list" where
  "draft_chunks stream chunk members =
     (if members = [] \<or> chunk = 0 then []
      else let first = take chunk members in
        (if length first = 1 then Draft_solo stream (hd first) else Draft_batched stream first) #
        draft_chunks stream chunk (drop chunk members))"
  by auto
termination
  by (relation "measure (\<lambda>(_, _, members). length members)") auto

declare draft_chunks.simps [simp del]

definition lead_draft_commands :: "nat \<Rightarrow> nat list \<Rightarrow> command list" where
  "lead_draft_commands chunk members =
     (if length members = 1 then [Draft_solo (hd members) (hd members)]
      else map (Wait_ready (hd members)) (tl members) @ draft_chunks (hd members) chunk members)"

section \<open>The coordinator\<close>

datatype gate = Verify | Draft

record batch_group =
  g_gate :: gate
  g_members :: "nat list"
  g_closed :: bool
  g_done :: bool
  g_error :: bool

datatype place = Outside | Alone | Opening nat | Leading nat | Joined nat

record coordinator =
  lanes :: "nat list"
  draft_lanes :: "nat list"
  active :: int
  open_group :: "gate \<Rightarrow> nat option"
  groups :: "nat \<Rightarrow> batch_group option"
  next_group :: nat
  place_of :: "nat \<Rightarrow> place"
  order_of :: "nat \<Rightarrow> nat"
  solo :: "gate \<Rightarrow> u64"
  batched :: "gate \<Rightarrow> u64"
  timeouts :: u64
  eager_rounds :: u64
  split_rounds :: u64
  widths :: "nat \<Rightarrow> u64"
  closes :: "nat \<Rightarrow> nat \<Rightarrow> u64"

definition coord_new :: coordinator where
  "coord_new = \<lparr>lanes = [], draft_lanes = [], active = 0, open_group = (\<lambda>_. None), groups = (\<lambda>_. None),
     next_group = 0, place_of = (\<lambda>_. Outside), order_of = (\<lambda>_. 0), solo = (\<lambda>_. 0), batched = (\<lambda>_. 0), timeouts = 0,
     eager_rounds = 0, split_rounds = 0, widths = (\<lambda>_. 0), closes = (\<lambda>_ _. 0)\<rparr>"

text \<open>\<open>lane_for\<close>: the lanes in the order they registered, and the order of one.\<close>

definition register :: "nat \<Rightarrow> nat list \<Rightarrow> nat list" where
  "register x xs = (if x \<in> set xs then xs else xs @ [x])"

definition lane_order :: "nat \<Rightarrow> nat list \<Rightarrow> nat" where
  "lane_order x xs = length (takeWhile (\<lambda>y. y \<noteq> x) xs)"

definition lane_for :: "gate \<Rightarrow> nat \<Rightarrow> coordinator \<Rightarrow> coordinator" where
  "lane_for k x s = (case k of
     Verify \<Rightarrow> s\<lparr>lanes := register x (lanes s)\<rparr>
   | Draft \<Rightarrow> s\<lparr>draft_lanes := register x (draft_lanes s)\<rparr>)"

definition set_active :: "bool \<Rightarrow> coordinator \<Rightarrow> coordinator" where
  "set_active b s = s\<lparr>active := active s + (if b then 1 else - 1)\<rparr>"

definition group_target :: "settings \<Rightarrow> coordinator \<Rightarrow> nat" where
  "group_target e s = min (max_group e) (nat (max (active s) 1))"

definition waiting_at :: "gate \<Rightarrow> coordinator \<Rightarrow> nat" where
  "waiting_at k s = (case open_group s k of
     None \<Rightarrow> 0
   | Some g \<Rightarrow> (case groups s g of None \<Rightarrow> 0 | Some G \<Rightarrow> length (g_members G)))"

definition other_gate :: "gate \<Rightarrow> gate" where
  "other_gate k = (case k of Verify \<Rightarrow> Draft | Draft \<Rightarrow> Verify)"

text \<open>The part of \<open>lead\<close> and \<open>lead_draft\<close> before the lock is released.\<close>

definition close_group :: "nat \<Rightarrow> batch_group \<Rightarrow> nat \<Rightarrow> coordinator \<Rightarrow> coordinator" where
  "close_group g G t s =
     (let w = min (length (g_members G)) kMaxGroup; a = nat (max 0 (min (active s) (int kMaxGroup))) in
      s\<lparr>groups := (groups s)(g \<mapsto> G\<lparr>g_closed := True, g_members := sort_key (order_of s) (g_members G)\<rparr>),
        place_of := (place_of s)(t := Leading g),
        closes := (if g_gate G = Verify then (closes s)(w := ((closes s w)(a := closes s w a + 1))) else closes s)\<rparr>)"

text \<open>The thread enters the open group of the gate, or opens one.\<close>

definition join_group :: "settings \<Rightarrow> gate \<Rightarrow> nat \<Rightarrow> coordinator \<Rightarrow> coordinator" where
  "join_group e k t s =
     (let opener = (open_group s k = None);
          g = (case open_group s k of Some g \<Rightarrow> g | None \<Rightarrow> next_group s);
          G = (case open_group s k of
                 Some g \<Rightarrow> the (groups s g)
               | None \<Rightarrow> \<lparr>g_gate = k, g_members = [], g_closed = False, g_done = False, g_error = False\<rparr>);
          G = G\<lparr>g_members := g_members G @ [t]\<rparr>;
          s = s\<lparr>open_group := (open_group s)(k := Some g), groups := (groups s)(g \<mapsto> G),
                next_group := (if opener then next_group s + 1 else next_group s)\<rparr>
      in if group_target e s \<le> length (g_members G)
         then close_group g G t (s\<lparr>open_group := (open_group s)(k := None)\<rparr>)
         else s\<lparr>place_of := (place_of s)(t := (if opener then Opening g else Joined g))\<rparr>)"

text \<open>An arrival; \<open>recorded\<close> tells whether the ready event could be recorded.\<close>

definition arrive :: "settings \<Rightarrow> gate \<Rightarrow> nat \<Rightarrow> nat \<Rightarrow> bool \<Rightarrow> coordinator \<Rightarrow> coordinator option" where
  "arrive e k t x recorded s0 =
     (if place_of s0 t \<noteq> Outside then None
      else let s = (if k = Verify then lane_for k x s0 else s0) in
        if active s < 2 \<and> open_group s k = None
        then Some (s\<lparr>solo := (solo s)(k := solo s k + 1), place_of := (place_of s)(t := Alone)\<rparr>)
        else let s = lane_for k x s in
          if \<not> recorded then Some s
          else Some (join_group e k t
            (s\<lparr>order_of := (order_of s)(t := lane_order x (if k = Verify then lanes s else draft_lanes s))\<rparr>)))"

text \<open>
  The opener wakes up, by its deadline or by a notification. The comparison with the active lanes
  converts their signed number to \<open>std::size_t\<close>, so a negative number is never reached.
\<close>

definition wake :: "settings \<Rightarrow> nat \<Rightarrow> bool \<Rightarrow> coordinator \<Rightarrow> coordinator option" where
  "wake e t timed_out s =
     (case place_of s t of
        Opening g \<Rightarrow>
          (case groups s g of
             None \<Rightarrow> None
           | Some G \<Rightarrow>
               if g_closed G then Some (s\<lparr>place_of := (place_of s)(t := Joined g)\<rparr>)
               else if timed_out \<or> group_target e s \<le> length (g_members G) \<or>
                 (0 \<le> active s \<and> active s \<le> int (length (g_members G) + waiting_at (other_gate (g_gate G)) s))
               then Some (close_group g G t
                 (s\<lparr>open_group := (if open_group s (g_gate G) = Some g then (open_group s)(g_gate G := None) else open_group s),
                    timeouts := (if g_gate G = Verify \<and> length (g_members G) < 2 then timeouts s + 1 else timeouts s)\<rparr>))
               else Some s)
      | _ \<Rightarrow> None)"

text \<open>The part of \<open>lead\<close> and \<open>lead_draft\<close> after the forward.\<close>

definition finish_lead :: "nat \<Rightarrow> bool \<Rightarrow> bool \<Rightarrow> bool \<Rightarrow> coordinator \<Rightarrow> coordinator option" where
  "finish_lead t failed eager split s =
     (case place_of s t of
        Leading g \<Rightarrow>
          (case groups s g of
             None \<Rightarrow> None
           | Some G \<Rightarrow>
               let w = length (g_members G); k = g_gate G in
               Some (s\<lparr>solo := (if w = 1 then (solo s)(k := solo s k + 1) else solo s),
                       batched := (if w = 1 then batched s else (batched s)(k := batched s k + 1)),
                       widths := (if w \<noteq> 1 \<and> k = Verify then (widths s)(w := widths s w + 1) else widths s),
                       eager_rounds := (if w \<noteq> 1 \<and> k = Verify \<and> eager then eager_rounds s + 1 else eager_rounds s),
                       split_rounds := (if k = Verify \<and> split then split_rounds s + 1 else split_rounds s),
                       groups := (groups s)(g \<mapsto> G\<lparr>g_error := failed, g_done := True\<rparr>),
                       place_of := (place_of s)(t := Joined g)\<rparr>))
      | _ \<Rightarrow> None)"

text \<open>A thread returns, rethrowing the error of its group.\<close>

definition leave :: "nat \<Rightarrow> coordinator \<Rightarrow> coordinator option" where
  "leave t s =
     (case place_of s t of
        Alone \<Rightarrow> Some (s\<lparr>place_of := (place_of s)(t := Outside)\<rparr>)
      | Joined g \<Rightarrow>
          (case groups s g of
             None \<Rightarrow> None
           | Some G \<Rightarrow> if g_done G then Some (s\<lparr>place_of := (place_of s)(t := Outside)\<rparr>) else None)
      | _ \<Rightarrow> None)"

datatype coord_event =
    Register nat
  | Set_active bool
  | Arrive gate nat nat bool
  | Wake nat bool
  | Finish nat bool bool bool
  | Leave nat

fun coord_step :: "settings \<Rightarrow> coord_event \<Rightarrow> coordinator \<Rightarrow> coordinator option" where
  "coord_step e (Register x) s = Some (lane_for Verify x s)"
| "coord_step e (Set_active b) s = Some (set_active b s)"
| "coord_step e (Arrive k t x recorded) s = arrive e k t x recorded s"
| "coord_step e (Wake t timed_out) s = wake e t timed_out s"
| "coord_step e (Finish t failed eager split) s = finish_lead t failed eager split s"
| "coord_step e (Leave t) s = leave t s"

fun coord_run :: "settings \<Rightarrow> coord_event list \<Rightarrow> coordinator \<Rightarrow> coordinator option" where
  "coord_run e [] s = Some s"
| "coord_run e (ev # evs) s = (case coord_step e ev s of None \<Rightarrow> None | Some s' \<Rightarrow> coord_run e evs s')"

inductive coord_reachable :: "settings \<Rightarrow> coordinator \<Rightarrow> bool" for e where
  start: "coord_reachable e coord_new"
| step: "coord_reachable e s \<Longrightarrow> coord_step e ev s = Some s' \<Longrightarrow> coord_reachable e s'"

section \<open>The invariant of the gates\<close>

definition inside :: "coordinator \<Rightarrow> nat \<Rightarrow> nat \<Rightarrow> bool" where
  "inside s g t \<longleftrightarrow> place_of s t \<in> {Opening g, Leading g, Joined g}"

text \<open>What the places say about one group: all its members are there until it is done, and one of
  them is responsible for it.\<close>

definition group_ok :: "settings \<Rightarrow> coordinator \<Rightarrow> nat \<Rightarrow> batch_group \<Rightarrow> bool" where
  "group_ok e s g G \<longleftrightarrow> distinct (g_members G) \<and> length (g_members G) \<le> max_group e \<and>
     (g_closed G \<longleftrightarrow> open_group s (g_gate G) \<noteq> Some g) \<and>
     (\<not> g_closed G \<longrightarrow> \<not> g_done G \<and> length (g_members G) < max_group e \<and> (\<exists>!t. place_of s t = Opening g) \<and>
       (\<forall>t. place_of s t \<noteq> Leading g)) \<and>
     (g_closed G \<and> \<not> g_done G \<longrightarrow> (\<exists>!t. place_of s t = Leading g)) \<and>
     (g_done G \<longrightarrow> (\<forall>t. place_of s t \<noteq> Leading g)) \<and>
     (\<not> g_done G \<longrightarrow> (\<forall>t \<in> set (g_members G). inside s g t))"

definition coord_ok :: "settings \<Rightarrow> coordinator \<Rightarrow> bool" where
  "coord_ok e s \<longleftrightarrow>
     (\<forall>g G. groups s g = Some G \<longrightarrow> g < next_group s \<and> group_ok e s g G) \<and>
     (\<forall>t g. inside s g t \<longrightarrow> (\<exists>G. groups s g = Some G \<and> t \<in> set (g_members G))) \<and>
     (\<forall>k g. open_group s k = Some g \<longrightarrow> (\<exists>G. groups s g = Some G \<and> g_gate G = k))"

lemma max_group_bounds: "2 \<le> max_group e" "max_group e \<le> kMaxGroup"
  by (auto simp: max_group_def kMaxGroup_def split: option.splits)

lemma inside_unique: "inside s g t \<Longrightarrow> inside s g' t \<Longrightarrow> g = g'"
  by (auto simp: inside_def)

lemma coord_okD:
  assumes "coord_ok e s"
  shows "groups s g = Some G \<Longrightarrow> g < next_group s"
    and "groups s g = Some G \<Longrightarrow> group_ok e s g G"
    and "inside s g t \<Longrightarrow> \<exists>G. groups s g = Some G \<and> t \<in> set (g_members G)"
    and "open_group s k = Some g \<Longrightarrow> \<exists>G. groups s g = Some G \<and> g_gate G = k"
  using assms by (simp_all add: coord_ok_def)

lemma group_ok_inside: "group_ok e s g G \<Longrightarrow> \<not> g_done G \<Longrightarrow> t \<in> set (g_members G) \<Longrightarrow> inside s g t"
  by (simp add: group_ok_def)

lemma group_ok_cong:
  assumes "group_ok e s h H"
    and "\<And>u. place_of s' u = Opening h \<longleftrightarrow> place_of s u = Opening h"
    and "\<And>u. place_of s' u = Leading h \<longleftrightarrow> place_of s u = Leading h"
    and "\<And>u. \<not> g_done H \<Longrightarrow> u \<in> set (g_members H) \<Longrightarrow> inside s h u \<Longrightarrow> inside s' h u"
    and "open_group s' (g_gate H) = Some h \<longleftrightarrow> open_group s (g_gate H) = Some h"
  shows "group_ok e s' h H"
  using assms(1) unfolding group_ok_def assms(2,3,5) by (auto intro: assms(4))

text \<open>
  A step that moves one thread from a place of group \<open>g\<close> (or from outside) to another, and changes no
  other group: only \<open>g\<close> has to be checked.
\<close>

lemma coord_ok_one_group:
  assumes ok: "coord_ok e s"
    and places: "place_of s' = (place_of s)(t := p)"
    and from_g: "\<And>h. inside s h t \<Longrightarrow> h = g" and to_g: "\<And>h. p \<in> {Opening h, Leading h, Joined h} \<Longrightarrow> h = g"
    and other: "\<And>h. h \<noteq> g \<Longrightarrow> groups s' h = groups s h"
    and opens: "\<And>k h. h \<noteq> g \<Longrightarrow> open_group s' k = Some h \<longleftrightarrow> open_group s k = Some h"
    and next_group: "next_group s \<le> next_group s'"
    and G: "\<And>G. groups s' g = Some G \<Longrightarrow> g < next_group s' \<and> group_ok e s' g G"
    and in_g: "\<And>u. inside s' g u \<Longrightarrow> \<exists>G. groups s' g = Some G \<and> u \<in> set (g_members G)"
    and open_g: "\<And>k. open_group s' k = Some g \<Longrightarrow> \<exists>G. groups s' g = Some G \<and> g_gate G = k"
  shows "coord_ok e s'"
  unfolding coord_ok_def
proof (intro conjI allI impI)
  have elsewhere: "place_of s' u = q \<longleftrightarrow> place_of s u = q" if "q \<in> {Opening h, Leading h, Joined h}" "h \<noteq> g" for u q h
    using that from_g [of h] to_g [of h] by (cases "u = t") (auto simp: places inside_def)
  then have inside_same: "inside s' h u \<longleftrightarrow> inside s h u" if "h \<noteq> g" for u h
    using that by (auto simp: inside_def)
  fix h H
  assume H: "groups s' h = Some H"
  show "h < next_group s'" "group_ok e s' h H"
  proof (atomize (full), cases "h = g")
    case False
    then have "groups s h = Some H"
      using H other by simp
    then have "h < next_group s" "group_ok e s h H"
      using coord_okD(1,2) [OF ok] by simp_all
    then show "h < next_group s' \<and> group_ok e s' h H"
      using next_group elsewhere [OF _ False] inside_same [OF False] opens [OF False]
      by (auto intro!: group_ok_cong [of e s h H])
  qed (use G H in simp)
next
  fix u h
  assume u: "inside s' h u"
  show "\<exists>G. groups s' h = Some G \<and> u \<in> set (g_members G)"
  proof (cases "h = g")
    case False
    then have "inside s h u"
      using u from_g [of h] to_g [of h] by (cases "u = t") (auto simp: places inside_def)
    then show ?thesis
      using coord_okD(3) [OF ok] other [OF False] by simp
  qed (use in_g u in simp)
next
  fix k h
  assume "open_group s' k = Some h"
  then show "\<exists>G. groups s' h = Some G \<and> g_gate G = k"
    using open_g opens coord_okD(4) [OF ok] other by (cases "h = g") auto
qed

lemma coord_ok_frame:
  assumes "coord_ok e s" "groups s' = groups s" "next_group s' = next_group s"
    "open_group s' = open_group s" "place_of s' = place_of s"
  shows "coord_ok e s'"
  using assms by (simp add: coord_ok_def group_ok_def inside_def)

text \<open>The steps inside one group.\<close>

lemma group_ok_leave:
  assumes "group_ok e s g G" "g_done G" "place_of s t = Joined g"
    "place_of s' = (place_of s)(t := Outside)" "open_group s' = open_group s"
  shows "group_ok e s' g G"
  using assms by (intro group_ok_cong [OF assms(1)]) auto

lemma group_ok_join_closed:
  assumes "group_ok e s g G" "g_closed G" "place_of s t = Opening g"
    "place_of s' = (place_of s)(t := Joined g)" "open_group s' = open_group s"
  shows "group_ok e s' g G"
proof -
  have "place_of s' u = Leading g \<longleftrightarrow> place_of s u = Leading g" for u
    using assms(3,4) by auto
  then show ?thesis
    using assms unfolding group_ok_def by (auto simp: inside_def)
qed

lemma group_ok_finish:
  assumes "group_ok e s g G" "place_of s t = Leading g"
    "place_of s' = (place_of s)(t := Joined g)" "open_group s' = open_group s"
  shows "group_ok e s' g (G\<lparr>g_error := x, g_done := True\<rparr>)"
proof -
  have closed: "g_closed G" "\<not> g_done G"
    using assms(1,2) by (auto simp: group_ok_def)
  then have "\<exists>!u. place_of s u = Leading g"
    using assms(1) by (simp add: group_ok_def)
  then have "place_of s u \<noteq> Leading g" if "u \<noteq> t" for u
    using assms(2) that by auto
  then show ?thesis
    using assms closed by (auto simp: group_ok_def)
qed

lemma group_ok_close:
  assumes "distinct (g_members G)" "length (g_members G) \<le> max_group e" "\<not> g_done G"
    and "\<And>u. place_of s u \<noteq> Leading g" "\<And>u. u \<in> set (g_members G) \<Longrightarrow> u \<noteq> t \<Longrightarrow> inside s g u"
    and "place_of s' = (place_of s)(t := Leading g)" "open_group s' (g_gate G) \<noteq> Some g"
  shows "group_ok e s' g (G\<lparr>g_closed := True, g_members := sort_key f (g_members G)\<rparr>)"
  using assms by (auto simp: group_ok_def inside_def)

lemma group_ok_joined:
  assumes "group_ok e s g G" "\<not> g_closed G" "t \<notin> set (g_members G)" "\<And>h. \<not> inside s h t"
    "length (g_members G) + 1 < max_group e"
    "place_of s' = (place_of s)(t := Joined g)" "open_group s' (g_gate G) = open_group s (g_gate G)"
  shows "group_ok e s' g (G\<lparr>g_members := g_members G @ [t]\<rparr>)"
proof -
  have "place_of s t \<noteq> Opening g" "place_of s t \<noteq> Leading g"
    using assms(4) [of g] by (auto simp: inside_def)
  then have places: "place_of s' u = Opening g \<longleftrightarrow> place_of s u = Opening g"
      "place_of s' u = Leading g \<longleftrightarrow> place_of s u = Leading g" for u
    using assms(6) by auto
  show ?thesis
    using assms(1-3,5,7) unfolding group_ok_def places by (auto simp: inside_def assms(6))
qed

lemma group_ok_opened:
  assumes "\<And>u. \<not> inside s g u" "place_of s' = (place_of s)(t := Opening g)" "open_group s' k = Some g"
    "1 < max_group e"
  shows "group_ok e s' g \<lparr>g_gate = k, g_members = [t], g_closed = False, g_done = False, g_error = False\<rparr>"
  using assms by (auto simp: group_ok_def inside_def)

lemma wake_ok:
  assumes ok: "coord_ok e s" and step: "wake e t timed_out s = Some s'"
  shows "coord_ok e s'"
proof -
  obtain g G where t: "place_of s t = Opening g" and G: "groups s g = Some G"
    using step by (auto simp: wake_def split: place.splits option.splits)
  have gok: "group_ok e s g G" and nxt: "g < next_group s"
    using coord_okD(1,2) [OF ok G] by simp_all
  have mem: "t \<in> set (g_members G)"
    using coord_okD(3) [OF ok, of g t] t G by (auto simp: inside_def)
  have others: "u \<in> set (g_members G)" if "inside s g u" for u
    using coord_okD(3) [OF ok that] G by auto
  consider (closed) "g_closed G" "s' = s\<lparr>place_of := (place_of s)(t := Joined g)\<rparr>"
    | (wait) "s' = s"
    | (close) s1 where "\<not> g_closed G" "s' = close_group g G t s1" "place_of s1 = place_of s"
        "groups s1 = groups s" "next_group s1 = next_group s" "order_of s1 = order_of s"
        "open_group s1 = (if open_group s (g_gate G) = Some g then (open_group s)(g_gate G := None) else open_group s)"
    using step t G by (auto simp: wake_def split: if_splits)
  then show ?thesis
  proof cases
    case closed
    show ?thesis
    proof (rule coord_ok_one_group [OF ok, where t = t and p = "Joined g" and g = g])
      show "g < next_group s' \<and> group_ok e s' g G'" if "groups s' g = Some G'" for G'
        using that closed G nxt group_ok_join_closed [OF gok closed(1) t, of s'] by simp
      show "\<exists>G. groups s' g = Some G \<and> u \<in> set (g_members G)" if "inside s' g u" for u
        using that closed G others mem by (cases "u = t") (auto simp: inside_def)
    qed (use closed t coord_okD(4) [OF ok] in \<open>auto simp: inside_def\<close>)
  next
    case wait
    then show ?thesis
      using ok by simp
  next
    case close
    have opens: "open_group s (g_gate G) = Some g" "\<not> g_done G" "\<And>u. place_of s u \<noteq> Leading g"
      using gok close(1) by (auto simp: group_ok_def)
    have s': "place_of s' = (place_of s)(t := Leading g)" "next_group s' = next_group s"
        "open_group s' = (open_group s)(g_gate G := None)"
        "groups s' = (groups s)(g \<mapsto> G\<lparr>g_closed := True, g_members := sort_key (order_of s) (g_members G)\<rparr>)"
      using close opens(1) by (simp_all add: close_group_def Let_def)
    show ?thesis
    proof (rule coord_ok_one_group [OF ok, where t = t and p = "Leading g" and g = g])
      have "group_ok e s' g (G\<lparr>g_closed := True, g_members := sort_key (order_of s) (g_members G)\<rparr>)"
        using gok opens by (intro group_ok_close [where s = s and t = t]) (auto simp: s' group_ok_def)
      then show "g < next_group s' \<and> group_ok e s' g G'" if "groups s' g = Some G'" for G'
        using that nxt by (simp add: s')
      show "\<exists>G. groups s' g = Some G \<and> u \<in> set (g_members G)" if "inside s' g u" for u
        using that others mem by (cases "u = t") (auto simp: s' inside_def)
      show "\<exists>G. groups s' g = Some G \<and> g_gate G = k" if "open_group s' k = Some g" for k
        using that coord_okD(4) [OF ok, of k g] G by (auto simp: s' split: if_splits)
    qed (use t opens in \<open>auto simp: s' inside_def\<close>)
  qed
qed

lemma finish_ok:
  assumes ok: "coord_ok e s" and step: "finish_lead t failed eager split s = Some s'"
  shows "coord_ok e s'"
proof -
  obtain g G where t: "place_of s t = Leading g" and G: "groups s g = Some G"
    using step by (auto simp: finish_lead_def split: place.splits option.splits)
  have s': "place_of s' = (place_of s)(t := Joined g)" "next_group s' = next_group s"
      "open_group s' = open_group s" "groups s' = (groups s)(g \<mapsto> G\<lparr>g_error := failed, g_done := True\<rparr>)"
    using step t G by (auto simp: finish_lead_def Let_def)
  have others: "u \<in> set (g_members G)" if "inside s g u" for u
    using coord_okD(3) [OF ok that] G by auto
  show ?thesis
  proof (rule coord_ok_one_group [OF ok, where t = t and p = "Joined g" and g = g])
    show "g < next_group s' \<and> group_ok e s' g G'" if "groups s' g = Some G'" for G'
      using that coord_okD(1,2) [OF ok G] group_ok_finish [OF _ t, of e G s'] by (auto simp: s')
    show "\<exists>G. groups s' g = Some G \<and> u \<in> set (g_members G)" if "inside s' g u" for u
      using that others [of u] others [of t] t by (cases "u = t") (auto simp: s' inside_def)
    show "\<exists>G. groups s' g = Some G \<and> g_gate G = k" if "open_group s' k = Some g" for k
      using that coord_okD(4) [OF ok, of k g] G by (auto simp: s')
  qed (use t in \<open>auto simp: s' inside_def\<close>)
qed

lemma coord_ok_outside:
  assumes ok: "coord_ok e s" and t: "place_of s t \<in> {Outside, Alone}"
    and s': "groups s' = groups s" "next_group s' = next_group s" "open_group s' = open_group s"
      "place_of s' = (place_of s)(t := p)" "p \<in> {Outside, Alone}"
  shows "coord_ok e s'"
proof (rule coord_ok_one_group [OF ok s'(4), where g = "next_group s"])
  have none: "groups s (next_group s) = None"
    using coord_okD(1) [OF ok, of "next_group s"] by (cases "groups s (next_group s)") auto
  show "next_group s < next_group s' \<and> group_ok e s' (next_group s) G" if "groups s' (next_group s) = Some G" for G
    using that none s'(1) by simp
  show "\<exists>G. groups s' (next_group s) = Some G \<and> u \<in> set (g_members G)" if "inside s' (next_group s) u" for u
    using that none coord_okD(3) [OF ok, of "next_group s" u] s'(4,5) by (cases "u = t") (auto simp: inside_def)
  show "\<exists>G. groups s' (next_group s) = Some G \<and> g_gate G = k" if "open_group s' k = Some (next_group s)" for k
    using that none coord_okD(4) [OF ok, of k] s'(3) by simp
qed (use t s' in \<open>auto simp: inside_def\<close>)

lemma leave_ok:
  assumes ok: "coord_ok e s" and step: "leave t s = Some s'"
  shows "coord_ok e s'"
proof (cases "place_of s t")
  case Alone
  then show ?thesis
    using step by (intro coord_ok_outside [OF ok, of t s' Outside]) (auto simp: leave_def)
next
  case (Joined g)
  then obtain G where G: "groups s g = Some G" "g_done G" "s' = s\<lparr>place_of := (place_of s)(t := Outside)\<rparr>"
    using step by (auto simp: leave_def split: option.splits if_splits)
  show ?thesis
  proof (rule coord_ok_one_group [OF ok, where t = t and p = Outside and g = g])
    show "g < next_group s' \<and> group_ok e s' g G'" if "groups s' g = Some G'" for G'
      using that coord_okD(1,2) [OF ok G(1)] group_ok_leave [OF _ G(2) Joined, of e s'] G by auto
    show "\<exists>G. groups s' g = Some G \<and> u \<in> set (g_members G)" if "inside s' g u" for u
      using that coord_okD(3) [OF ok, of g u] G by (cases "u = t") (auto simp: inside_def)
    show "\<exists>G. groups s' g = Some G \<and> g_gate G = k" if "open_group s' k = Some g" for k
      using that coord_okD(4) [OF ok, of k g] G by simp
  qed (use Joined G in \<open>auto simp: inside_def\<close>)
qed (use step in \<open>auto simp: leave_def\<close>)

definition opened :: "gate \<Rightarrow> nat list \<Rightarrow> batch_group" where
  "opened k ts = \<lparr>g_gate = k, g_members = ts, g_closed = False, g_done = False, g_error = False\<rparr>"

text \<open>The outcomes of entering a group, and of an arrival.\<close>

lemma group_target_frame [simp]:
  "group_target e (s\<lparr>open_group := a, groups := b, next_group := c\<rparr>) = group_target e s"
  by (simp add: group_target_def)

lemma join_group_cases:
  assumes ok: "coord_ok e s" and s': "s' = join_group e k t s"
  obtains (joined) g G where "open_group s k = Some g" "groups s g = Some G" "length (g_members G) + 1 < group_target e s"
      "groups s' = (groups s)(g \<mapsto> G\<lparr>g_members := g_members G @ [t]\<rparr>)" "next_group s' = next_group s"
      "open_group s' = open_group s" "place_of s' = (place_of s)(t := Joined g)"
    | (last) g G and f :: "nat \<Rightarrow> nat" where "open_group s k = Some g" "groups s g = Some G"
      "groups s' = (groups s)(g \<mapsto> (G\<lparr>g_members := g_members G @ [t]\<rparr>)
          \<lparr>g_closed := True, g_members := sort_key f (g_members G @ [t])\<rparr>)" "next_group s' = next_group s"
      "open_group s' = (open_group s)(k := None)" "place_of s' = (place_of s)(t := Leading g)"
    | (first) "open_group s k = None" "1 < group_target e s"
      "groups s' = (groups s)(next_group s \<mapsto> opened k [t])" "next_group s' = next_group s + 1"
      "open_group s' = (open_group s)(k := Some (next_group s))"
      "place_of s' = (place_of s)(t := Opening (next_group s))"
    | (single) "open_group s k = None"
      "groups s' = (groups s)(next_group s \<mapsto> (opened k [t])\<lparr>g_closed := True\<rparr>)" "next_group s' = next_group s + 1"
      "open_group s' = (open_group s)(k := None)"
      "place_of s' = (place_of s)(t := Leading (next_group s))"
proof (cases "open_group s k")
  case None
  show thesis
  proof (cases "1 < group_target e s")
    case True
    show thesis
      by (rule first [OF None True])
        (use s' None True in \<open>simp_all add: join_group_def Let_def opened_def\<close>)
  next
    case False
    show thesis
      by (rule single [OF None])
        (use s' None False in \<open>simp_all add: join_group_def opened_def close_group_def Let_def\<close>)
  qed
next
  case (Some g)
  then obtain G where G: "groups s g = Some G"
    using coord_okD(4) [OF ok] by blast
  have same: "(open_group s)(k := Some g) = open_group s"
    using Some by (simp add: fun_upd_idem)
  show thesis
  proof (cases "length (g_members G) + 1 < group_target e s")
    case True
    show thesis
      by (rule joined [OF Some G True])
        (use s' Some G True same in \<open>simp_all add: join_group_def Let_def\<close>)
  next
    case False
    show thesis
      by (rule last [OF Some G, of "order_of s"])
        (use s' Some G False in \<open>simp_all add: join_group_def close_group_def Let_def\<close>)
  qed
qed

lemma arrive_joined_ok:
  assumes ok: "coord_ok e s" and joined: "open_group s k = Some g" "groups s g = Some G" "length (g_members G) + 1 < group_target e s"
      "groups s' = (groups s)(g \<mapsto> G\<lparr>g_members := g_members G @ [t]\<rparr>)" "next_group s' = next_group s"
      "open_group s' = open_group s" "place_of s' = (place_of s)(t := Joined g)" "place_of s t = Outside"
  shows "coord_ok e s'"
proof -
  note gok = coord_okD(2) [OF ok joined(2)]
  have G: "\<not> g_closed G" "g_gate G = k" "\<not> g_done G"
    using coord_okD(4) [OF ok joined(1)] gok joined(1,2) by (auto simp: group_ok_def)
  have out: "\<not> inside s h t" for h
    using joined(8) by (simp add: inside_def)
  then have "t \<notin> set (g_members G)"
    using group_ok_inside [OF gok G(3)] by blast
  moreover have "length (g_members G) + 1 < max_group e"
    using joined(3) by (simp add: group_target_def)
  ultimately have new: "group_ok e s' g (G\<lparr>g_members := g_members G @ [t]\<rparr>)"
    using group_ok_joined [OF gok G(1) _ out] joined(6,7) by simp
  show ?thesis
  proof (rule coord_ok_one_group [OF ok joined(7), where g = g])
    show "g < next_group s' \<and> group_ok e s' g G'" if "groups s' g = Some G'" for G'
      using that new joined(4,5) coord_okD(1) [OF ok joined(2)] by simp
    show "\<exists>G. groups s' g = Some G \<and> u \<in> set (g_members G)" if "inside s' g u" for u
      using that coord_okD(3) [OF ok, of g u] joined(2,4,7) by (cases "u = t") (auto simp: inside_def)
    show "\<exists>G. groups s' g = Some G \<and> g_gate G = k'" if "open_group s' k' = Some g" for k'
      using that coord_okD(4) [OF ok, of k' g] joined(2,4,6) by simp
  qed (use joined out in \<open>auto simp: inside_def\<close>)
qed

lemma arrive_last_ok:
  assumes ok: "coord_ok e s" and last: "open_group s k = Some g" "groups s g = Some G"
      "groups s' = (groups s)(g \<mapsto> (G\<lparr>g_members := g_members G @ [t]\<rparr>)
          \<lparr>g_closed := True, g_members := sort_key f (g_members G @ [t])\<rparr>)" "next_group s' = next_group s"
      "open_group s' = (open_group s)(k := None)" "place_of s' = (place_of s)(t := Leading g)" "place_of s t = Outside"
  shows "coord_ok e s'"
proof -
  note gok = coord_okD(2) [OF ok last(2)]
  have G: "\<not> g_closed G" "g_gate G = k" "\<not> g_done G" "\<And>u. place_of s u \<noteq> Leading g"
      "length (g_members G) < max_group e" "distinct (g_members G)"
    using coord_okD(4) [OF ok last(1)] gok last(1,2) by (auto simp: group_ok_def)
  have out: "\<not> inside s h t" for h
    using last(7) by (simp add: inside_def)
  have "t \<notin> set (g_members G)"
    using group_ok_inside [OF gok G(3)] out by blast
  then have new: "group_ok e s' g ((G\<lparr>g_members := g_members G @ [t]\<rparr>)
      \<lparr>g_closed := True, g_members := sort_key f (g_members (G\<lparr>g_members := g_members G @ [t]\<rparr>))\<rparr>)"
    using G group_ok_inside [OF gok G(3)] last(5,6)
    by (intro group_ok_close [where s = s and t = t]) auto
  show ?thesis
  proof (rule coord_ok_one_group [OF ok last(6), where g = g])
    show "g < next_group s' \<and> group_ok e s' g G'" if "groups s' g = Some G'" for G'
      using that new last(3,4) coord_okD(1) [OF ok last(2)] by simp
    show "\<exists>G. groups s' g = Some G \<and> u \<in> set (g_members G)" if "inside s' g u" for u
      using that coord_okD(3) [OF ok, of g u] last(2,3,6) by (cases "u = t") (auto simp: inside_def)
    show "\<exists>G. groups s' g = Some G \<and> g_gate G = k'" if "open_group s' k' = Some g" for k'
      using that coord_okD(4) [OF ok, of k' g] last(2,3,5) G(2) by (auto split: if_splits)
    show "open_group s' k' = Some h \<longleftrightarrow> open_group s k' = Some h" if "h \<noteq> g" for k' h
      using that last(1,5) by auto
  qed (use last out in \<open>auto simp: inside_def\<close>)
qed

lemma arrive_first_ok:
  assumes ok: "coord_ok e s" and first: "open_group s k = None" "1 < group_target e s"
      "groups s' = (groups s)(next_group s \<mapsto> opened k [t])" "next_group s' = next_group s + 1"
      "open_group s' = (open_group s)(k := Some (next_group s))"
      "place_of s' = (place_of s)(t := Opening (next_group s))" "place_of s t = Outside"
  shows "coord_ok e s'"
proof -
  let ?g = "next_group s"
  have fresh: "groups s ?g = None"
    using coord_okD(1) [OF ok, of ?g] by (cases "groups s ?g") auto
  then have out: "\<not> inside s ?g u" "\<not> inside s h t" for u h
    using coord_okD(3) [OF ok, of ?g u] first(7) by (auto simp: inside_def)
  have new: "group_ok e s' ?g (opened k [t])"
    unfolding opened_def using group_ok_opened [OF out(1) first(6)] first(2,5) by (simp add: group_target_def)
  show ?thesis
  proof (rule coord_ok_one_group [OF ok first(6), where g = ?g])
    show "?g < next_group s' \<and> group_ok e s' ?g G'" if "groups s' ?g = Some G'" for G'
      using that new first(3,4) by simp
    show "\<exists>G. groups s' ?g = Some G \<and> u \<in> set (g_members G)" if "inside s' ?g u" for u
      using that out(1) [of u] first(3,6) by (cases "u = t") (auto simp: inside_def opened_def)
    show "\<exists>G. groups s' ?g = Some G \<and> g_gate G = k'" if "open_group s' k' = Some ?g" for k'
      using that coord_okD(4) [OF ok, of k' ?g] first(3,5) fresh by (auto simp: opened_def split: if_splits)
    show "open_group s' k' = Some h \<longleftrightarrow> open_group s k' = Some h" if "h \<noteq> ?g" for k' h
      using that first(1,5) by auto
  qed (use first out in \<open>auto simp: inside_def\<close>)
qed

lemma arrive_single_ok:
  assumes ok: "coord_ok e s" and single: "open_group s k = None"
      "groups s' = (groups s)(next_group s \<mapsto> (opened k [t])\<lparr>g_closed := True\<rparr>)" "next_group s' = next_group s + 1"
      "open_group s' = (open_group s)(k := None)"
      "place_of s' = (place_of s)(t := Leading (next_group s))" "place_of s t = Outside"
  shows "coord_ok e s'"
proof -
  let ?g = "next_group s"
  have fresh: "groups s ?g = None"
    using coord_okD(1) [OF ok, of ?g] by (cases "groups s ?g") auto
  then have out: "\<not> inside s ?g u" "\<not> inside s h t" for u h
    using coord_okD(3) [OF ok, of ?g u] single(6) by (auto simp: inside_def)
  have none: "open_group s' k' \<noteq> Some ?g" for k'
    using coord_okD(4) [OF ok, of k' ?g] fresh single(4) by auto
  have new: "group_ok e s' ?g ((opened k [t])\<lparr>g_closed := True\<rparr>)"
    using none out(1) single(5) max_group_bounds(1) [of e] by (auto simp: group_ok_def opened_def inside_def)
  show ?thesis
  proof (rule coord_ok_one_group [OF ok single(5), where g = ?g])
    show "?g < next_group s' \<and> group_ok e s' ?g G'" if "groups s' ?g = Some G'" for G'
      using that new single(2,3) by simp
    show "\<exists>G. groups s' ?g = Some G \<and> u \<in> set (g_members G)" if "inside s' ?g u" for u
      using that out(1) [of u] single(2,5) by (cases "u = t") (auto simp: inside_def opened_def)
    show "open_group s' k' = Some h \<longleftrightarrow> open_group s k' = Some h" if "h \<noteq> ?g" for k' h
      using single(1,4) by auto
  qed (use single out none in \<open>auto simp: inside_def\<close>)
qed

lemma join_group_ok:
  assumes ok: "coord_ok e s" and t: "place_of s t = Outside"
  shows "coord_ok e (join_group e k t s)"
  using ok refl [of "join_group e k t s"]
proof (cases rule: join_group_cases)
  case (joined g G)
  then show ?thesis
    by (rule arrive_joined_ok [OF ok _ _ _ _ _ _ _ t])
next
  case (last g G f)
  then show ?thesis
    by (rule arrive_last_ok [OF ok _ _ _ _ _ _ t])
next
  case first
  then show ?thesis
    by (rule arrive_first_ok [OF ok _ _ _ _ _ _ t])
next
  case single
  then show ?thesis
    by (rule arrive_single_ok [OF ok _ _ _ _ _ t])
qed

lemma lane_for_frame [simp]:
  "groups (lane_for k x s) = groups s" "next_group (lane_for k x s) = next_group s"
  "open_group (lane_for k x s) = open_group s" "place_of (lane_for k x s) = place_of s"
  by (cases k; simp add: lane_for_def)+

lemma arrive_ok:
  assumes ok: "coord_ok e s" and step: "arrive e k t x recorded s = Some s'"
  shows "coord_ok e s'"
proof -
  have t: "place_of s t = Outside"
    using step by (simp add: arrive_def split: if_splits)
  consider (same) "groups s' = groups s" "next_group s' = next_group s" "open_group s' = open_group s"
      "place_of s' = place_of s"
    | (alone) "groups s' = groups s" "next_group s' = next_group s" "open_group s' = open_group s"
      "place_of s' = (place_of s)(t := Alone)"
    | (join) s1 where "s' = join_group e k t s1" "groups s1 = groups s" "next_group s1 = next_group s"
      "open_group s1 = open_group s" "place_of s1 = place_of s"
    using step t by (auto simp: arrive_def Let_def split: if_splits)
  then show ?thesis
  proof cases
    case same
    then show ?thesis
      using coord_ok_frame [OF ok] by blast
  next
    case alone
    then show ?thesis
      using t by (intro coord_ok_outside [OF ok, of t s' Alone]) auto
  next
    case join
    then show ?thesis
      using coord_ok_frame [OF ok join(2-5)] join_group_ok t by simp
  qed
qed

lemma reachable_ok: "coord_reachable e s \<Longrightarrow> coord_ok e s"
proof (induction rule: coord_reachable.induct)
  case start
  then show ?case
    by (simp add: coord_ok_def coord_new_def inside_def)
next
  case (step s ev s')
  show ?case
  proof (cases ev)
    case (Register x)
    then show ?thesis
      using step by (auto simp: lane_for_def intro: coord_ok_frame)
  next
    case (Set_active b)
    then show ?thesis
      using step by (auto simp: set_active_def intro: coord_ok_frame)
  next
    case (Arrive k t x recorded)
    then show ?thesis
      using step arrive_ok by simp
  next
    case (Wake t timed_out)
    then show ?thesis
      using step wake_ok by simp
  next
    case (Finish t failed eager split)
    then show ?thesis
      using step finish_ok by simp
  next
    case (Leave t)
    then show ?thesis
      using step leave_ok by simp
  qed
qed

section \<open>Properties of the gates\<close>

text \<open>
  C36. In every reachable state each group has at most \<open>max_group\<close> (at most eight) members, all distinct
  threads; as long as the group is not done, every member is still inside the call that owns its
  entry; an open group has exactly one thread waiting as its opener, and a closed group exactly one
  leader until it is done and none afterwards. Every thread inside a gate belongs to its group.
\<close>

theorem gate_groups_exclusive:
  assumes "coord_reachable e s"
  shows "(\<forall>g G. groups s g = Some G \<longrightarrow>
      length (g_members G) \<le> max_group e \<and> max_group e \<le> 8 \<and> distinct (g_members G) \<and>
      (\<not> g_done G \<longrightarrow> (\<forall>t \<in> set (g_members G). place_of s t \<in> {Opening g, Leading g, Joined g})) \<and>
      (\<not> g_closed G \<longrightarrow> open_group s (g_gate G) = Some g \<and> (\<exists>!t. place_of s t = Opening g) \<and>
        (\<forall>t. place_of s t \<noteq> Leading g)) \<and>
      (g_closed G \<longrightarrow> open_group s (g_gate G) \<noteq> Some g) \<and>
      (g_closed G \<and> \<not> g_done G \<longrightarrow> (\<exists>!t. place_of s t = Leading g)) \<and>
      (g_done G \<longrightarrow> g_closed G \<and> (\<forall>t. place_of s t \<noteq> Leading g))) \<and>
    (\<forall>t g. place_of s t \<in> {Opening g, Leading g, Joined g} \<longrightarrow>
      (\<exists>G. groups s g = Some G \<and> t \<in> set (g_members G)))"
proof (intro conjI allI impI)
  fix g G
  assume "groups s g = Some G"
  then have gok: "group_ok e s g G"
    using coord_okD(2) [OF reachable_ok [OF assms]] by blast
  show "length (g_members G) \<le> max_group e" "distinct (g_members G)"
    using gok by (simp_all add: group_ok_def)
  show "max_group e \<le> 8"
    using max_group_bounds(2) by (simp add: kMaxGroup_def)
  show "\<forall>t \<in> set (g_members G). place_of s t \<in> {Opening g, Leading g, Joined g}" if "\<not> g_done G"
    using group_ok_inside [OF gok that] unfolding inside_def by blast
  show "open_group s (g_gate G) = Some g" "\<exists>!t. place_of s t = Opening g" if "\<not> g_closed G"
    using gok that by (simp_all add: group_ok_def)
  show "place_of s t \<noteq> Leading g" if "\<not> g_closed G" for t
    using gok that by (simp add: group_ok_def)
  show "open_group s (g_gate G) \<noteq> Some g" if "g_closed G"
    using gok that by (simp add: group_ok_def)
  show "\<exists>!t. place_of s t = Leading g" if "g_closed G \<and> \<not> g_done G"
    using gok that by (simp add: group_ok_def)
  show "g_closed G" if "g_done G"
    using gok that by (auto simp: group_ok_def)
  show "place_of s t \<noteq> Leading g" if "g_done G" for t
    using gok that by (simp add: group_ok_def)
next
  fix t g
  assume "place_of s t \<in> {Opening g, Leading g, Joined g}"
  then show "\<exists>G. groups s g = Some G \<and> t \<in> set (g_members G)"
    using coord_okD(3) [OF reachable_ok [OF assms]] by (simp add: inside_def)
qed

lemma run_reachable: "coord_reachable e s \<Longrightarrow> coord_run e evs s = Some s' \<Longrightarrow> coord_reachable e s'"
  by (induction evs arbitrary: s) (auto split: option.splits intro: coord_reachable.step)

definition sample_settings :: settings where
  "sample_settings = \<lparr>env_max_group = None, env_min_width = 0\<rparr>"

definition sample_events :: "coord_event list" where
  "sample_events = [Set_active True, Set_active True, Set_active True, Arrive Verify 1 100 True, Arrive Verify 2 200 True]"

definition sample_state :: coordinator where
  "sample_state = the (coord_run sample_settings sample_events coord_new)"

lemma sample_state_reachable: "coord_reachable sample_settings sample_state"
proof -
  have "coord_run sample_settings sample_events coord_new \<noteq> None"
    by code_simp
  then show ?thesis
    using run_reachable [OF coord_reachable.start] by (auto simp: sample_state_def)
qed

theorem gate_groups_exclusive_witness:
  "place_of sample_state 1 = Opening 0 \<and> place_of sample_state 2 = Joined 0 \<and>
   (\<exists>!t. place_of sample_state t = Opening 0)"
proof -
  have "place_of sample_state 1 = Opening 0" "place_of sample_state 2 = Joined 0"
      "map_option g_closed (groups sample_state 0) = Some False"
    by code_simp+
  then show ?thesis
    using gate_groups_exclusive [OF sample_state_reachable] by force
qed

text \<open>How a thread gets out: the steps of the threads that are responsible for its group.\<close>

lemma leaves_when_done:
  assumes "place_of s t = Joined g" "groups s g = Some G" "g_done G"
  shows "\<exists>s'. coord_run e [Leave t] s = Some s' \<and> place_of s' t = Outside"
  using assms by (simp add: leave_def)

lemma leaves_after_leader:
  assumes "place_of s l = Leading g" "groups s g = Some G" "t = l \<or> place_of s t = Joined g"
  shows "\<exists>s'. coord_run e [Finish l False False False, Leave t] s = Some s' \<and> place_of s' t = Outside"
  using assms by (auto simp: finish_lead_def leave_def Let_def)

lemma leaves_after_opener:
  assumes "place_of s w = Opening g" "groups s g = Some G" "\<not> g_closed G" "t = w \<or> place_of s t = Joined g"
  shows "\<exists>s'. coord_run e [Wake w True, Finish w False False False, Leave t] s = Some s' \<and> place_of s' t = Outside"
proof -
  obtain s1 where s1: "wake e w True s = Some s1" "place_of s1 = (place_of s)(w := Leading g)" "groups s1 g \<noteq> None"
    using assms(1-3) by (auto simp: wake_def close_group_def Let_def)
  then show ?thesis
    using leaves_after_leader [of s1 w g _ t e] assms(1,4) by auto
qed

definition progress_event :: "coord_event \<Rightarrow> bool" where
  "progress_event ev = (case ev of Wake _ _ \<Rightarrow> True | Finish _ _ _ _ \<Rightarrow> True | Leave _ \<Rightarrow> True | _ \<Rightarrow> False)"

definition exits :: "settings \<Rightarrow> coordinator \<Rightarrow> nat \<Rightarrow> coord_event list \<Rightarrow> bool" where
  "exits e s t evs \<longleftrightarrow> length evs \<le> 3 \<and> list_all progress_event evs \<and>
     (\<exists>s'. coord_run e evs s = Some s' \<and> place_of s' t = Outside)"

lemma closed_responsible:
  assumes "coord_ok e s" "groups s g = Some G" "g_closed G"
  shows "(\<exists>l. place_of s l = Leading g) \<or> g_done G"
  using coord_okD(2) [OF assms(1,2)] assms(3) by (auto simp: group_ok_def)

lemma open_responsible:
  assumes "coord_ok e s" "groups s g = Some G" "\<not> g_closed G"
  shows "\<exists>w. place_of s w = Opening g"
  using coord_okD(2) [OF assms(1,2)] assms(3) by (auto simp: group_ok_def)

lemma joined_exits:
  assumes ok: "coord_ok e s" and t: "place_of s t = Joined g" and G: "groups s g = Some G"
  shows "\<exists>evs. exits e s t evs"
proof (cases "g_closed G")
  case True
  then consider l where "place_of s l = Leading g" | "g_done G"
    using closed_responsible [OF ok G] by blast
  then show ?thesis
  proof cases
    case 1
    then have "exits e s t [Finish l False False False, Leave t]"
      using leaves_after_leader [of s l g G t e] G t by (simp add: exits_def progress_event_def)
    then show ?thesis ..
  next
    case 2
    then have "exits e s t [Leave t]"
      using leaves_when_done [OF t G, of e] by (simp add: exits_def progress_event_def)
    then show ?thesis ..
  qed
next
  case False
  then obtain w where "place_of s w = Opening g"
    using open_responsible [OF ok G] by blast
  then have "exits e s t [Wake w True, Finish w False False False, Leave t]"
    using leaves_after_opener [of s w g G t e] G False t by (simp add: exits_def progress_event_def)
  then show ?thesis ..
qed

lemma opening_exits:
  assumes ok: "coord_ok e s" and t: "place_of s t = Opening g" and G: "groups s g = Some G"
  shows "\<exists>evs. exits e s t evs"
proof (cases "g_closed G")
  case False
  then have "exits e s t [Wake t True, Finish t False False False, Leave t]"
    using leaves_after_opener [of s t g G t e] G t by (simp add: exits_def progress_event_def)
  then show ?thesis ..
next
  case True
  let ?s = "s\<lparr>place_of := (place_of s)(t := Joined g)\<rparr>"
  have wake: "wake e t True s = Some ?s"
    using t G True by (simp add: wake_def)
  from True consider l where "place_of s l = Leading g" "l \<noteq> t" | "g_done G"
    using closed_responsible [OF ok G] t by force
  then show ?thesis
  proof cases
    case 1
    then have "exits e s t [Wake t True, Finish l False False False, Leave t]"
      using leaves_after_leader [of ?s l g G t e] G wake by (simp add: exits_def progress_event_def)
    then show ?thesis ..
  next
    case 2
    then have "exits e s t [Wake t True, Leave t]"
      using leaves_when_done [of ?s t g G e] G wake by (simp add: exits_def progress_event_def)
    then show ?thesis ..
  qed
qed

text \<open>
  C37. No thread waits for ever: from every reachable state, each thread inside the coordinator returns
  within three steps of the threads already there (the opener's time-out, the end of the forward and
  its own return), without any further arrival.
\<close>

theorem no_thread_stuck:
  assumes "coord_reachable e s" "place_of s t \<noteq> Outside"
  shows "\<exists>evs s'. length evs \<le> 3 \<and> list_all progress_event evs \<and> coord_run e evs s = Some s' \<and>
    place_of s' t = Outside"
proof -
  note ok = reachable_ok [OF assms(1)]
  have group: "\<exists>G. groups s g = Some G" if "place_of s t \<in> {Opening g, Leading g, Joined g}" for g
    using coord_okD(3) [OF ok, of g t] that by (auto simp: inside_def)
  have "\<exists>evs. exits e s t evs"
  proof (cases "place_of s t")
    case Alone
    then have "exits e s t [Leave t]"
      by (simp add: exits_def progress_event_def leave_def)
    then show ?thesis ..
  next
    case (Leading g)
    then obtain G where "groups s g = Some G"
      using group by auto
    then have "exits e s t [Finish t False False False, Leave t]"
      using leaves_after_leader [OF Leading, of G t e] by (simp add: exits_def progress_event_def)
    then show ?thesis ..
  next
    case (Joined g)
    then show ?thesis
      using joined_exits [OF ok Joined] group by auto
  next
    case (Opening g)
    then show ?thesis
      using opening_exits [OF ok Opening] group by auto
  qed (use assms(2) in simp)
  then show ?thesis
    unfolding exits_def by blast
qed

theorem no_thread_stuck_witness:
  "\<exists>evs s'. length evs \<le> 3 \<and> list_all progress_event evs \<and>
     coord_run sample_settings evs sample_state = Some s' \<and> place_of s' 2 = Outside"
proof -
  have "place_of sample_state 2 \<noteq> Outside"
    by code_simp
  then show ?thesis
    by (rule no_thread_stuck [OF sample_state_reachable])
qed

section \<open>Properties of the leader's commands\<close>

fun forwarded :: "command \<Rightarrow> nat list" where
  "forwarded (Forward_solo m) = [m]"
| "forwarded (Forward_batched leader peers) = leader # peers"
| "forwarded (Draft_solo stream m) = [m]"
| "forwarded (Draft_batched stream ms) = ms"
| "forwarded _ = []"

text \<open>A batched forward is ordered after the work of its peers and before they resume.\<close>

definition ordered_forward :: "command list \<Rightarrow> nat \<Rightarrow> nat list \<Rightarrow> bool" where
  "ordered_forward cs leader peers \<longleftrightarrow> (\<exists>before after'. cs = before @ [Forward_batched leader peers, Record_done leader] @ after' \<and>
     (\<forall>p \<in> set peers. Wait_ready leader p \<in> set before \<and> Wait_done p leader \<in> set after'))"

lemma ordered_forward_append:
  "ordered_forward cs l ps \<Longrightarrow> ordered_forward (cs @ ds) l ps"
  "ordered_forward cs l ps \<Longrightarrow> ordered_forward (ds @ cs) l ps"
proof -
  assume "ordered_forward cs l ps"
  then obtain b a where cs: "cs = b @ [Forward_batched l ps, Record_done l] @ a"
      "\<forall>p \<in> set ps. Wait_ready l p \<in> set b \<and> Wait_done p l \<in> set a"
    by (auto simp: ordered_forward_def)
  show "ordered_forward (cs @ ds) l ps"
    unfolding ordered_forward_def using cs by (intro exI [of _ b] exI [of _ "a @ ds"]) auto
  show "ordered_forward (ds @ cs) l ps"
    unfolding ordered_forward_def using cs by (intro exI [of _ "ds @ b"] exI [of _ a]) auto
qed

lemma batched_commands_forward:
  assumes "members \<noteq> []"
  shows "concat (map forwarded (batched_commands members)) = members"
    "Forward_batched l ps \<in> set (batched_commands members) \<Longrightarrow>
      members = l # ps \<and> ordered_forward (batched_commands members) l ps"
proof -
  have none: "concat (map (forwarded \<circ> Wait_ready x) xs) = []"
      "concat (map (forwarded \<circ> (\<lambda>p. Wait_done p x)) xs) = []" for x xs
    by (induction xs) simp_all
  show "concat (map forwarded (batched_commands members)) = members"
    using assms by (simp add: batched_commands_def Let_def none)
  have "ordered_forward (batched_commands members) (hd members) (tl members)"
    unfolding ordered_forward_def batched_commands_def Let_def
    by (intro exI [of _ "map (Wait_ready (hd members)) (tl members)"]
        exI [of _ "map (\<lambda>p. Wait_done p (hd members)) (tl members)"]) simp
  then show "members = l # ps \<and> ordered_forward (batched_commands members) l ps"
    if "Forward_batched l ps \<in> set (batched_commands members)"
    using that assms by (auto simp: batched_commands_def Let_def)
qed

lemma half_commands_forward:
  "concat (map forwarded (half_commands half)) = half"
  "Forward_batched l ps \<in> set (half_commands half) \<Longrightarrow>
     half = l # ps \<and> ps \<noteq> [] \<and> ordered_forward (half_commands half) l ps"
proof -
  show "concat (map forwarded (half_commands half)) = half"
    using batched_commands_forward(1) [of half] by (auto simp: half_commands_def length_Suc_conv)
  show "half = l # ps \<and> ps \<noteq> [] \<and> ordered_forward (half_commands half) l ps"
    if "Forward_batched l ps \<in> set (half_commands half)"
    using that batched_commands_forward(2) [of half l ps]
    by (auto simp: half_commands_def split: if_splits)
qed

text \<open>The mask of an ascending list of lanes.\<close>

definition bits_of :: "nat list \<Rightarrow> u32" where
  "bits_of ms = fold set_bit ms 0"

lemma bit_fold_set_bit: "bit (fold set_bit ms w) i \<longleftrightarrow> bit w i \<or> i \<in> set ms \<and> i < 32" for w :: u32
  by (induction ms arbitrary: w) (auto simp: bit_set_bit_iff)

lemma bit_bits_of: "bit (bits_of ms) i \<longleftrightarrow> i \<in> set ms \<and> i < 32"
  by (simp add: bits_of_def bit_fold_set_bit)

lemma mask_members_bits_of:
  assumes "sorted ms" "distinct ms" "set ms \<subseteq> {0..<n}" "n < 32"
  shows "mask_members n (bits_of ms) = ms"
proof -
  have "bits_of ms AND push_bit i 1 \<noteq> 0 \<longleftrightarrow> i \<in> set ms" if "i < n" for i
    using that assms(4) by (simp add: push_bit_eq_mult and_exp_eq_0_iff_not_bit bit_bits_of)
  then have "mask_members n (bits_of ms) = filter (\<lambda>i. i \<in> set ms) [0..<n]"
    unfolding mask_members_def by (intro filter_cong) auto
  moreover have "set (filter (\<lambda>i. i \<in> set ms) [0..<n]) = set ms"
    using assms(3) by auto
  ultimately show ?thesis
    using assms(1,2) by (intro sorted_distinct_set_unique) (simp_all add: sorted_wrt_filter)
qed

lemma bits_of_range:
  assumes "ms \<noteq> []" "set ms \<subseteq> {0..<n}" "n < 32"
  shows "bits_of ms \<in> set (map of_nat [1..<2 ^ n])"
proof -
  have "take_bit n (bits_of ms) = bits_of ms"
    using assms(2) by (intro bit_word_eqI) (auto simp: bit_simps bit_bits_of)
  then have "unat (bits_of ms) < 2 ^ n"
    using assms(3) by (metis take_bit_nat_less_exp unsigned_take_bit_eq)
  moreover have "bits_of ms \<noteq> 0"
  proof -
    have "hd ms \<in> set ms"
      using assms(1) by simp
    moreover have "hd ms < 32"
      using calculation assms(2,3) by force
    ultimately have "bit (bits_of ms) (hd ms)"
      by (simp add: bit_bits_of)
    then show ?thesis
      by auto
  qed
  ultimately have "unat (bits_of ms) \<in> set [1..<2 ^ n]"
    by (simp add: unat_gt_0 Suc_leI)
  then show ?thesis
    unfolding set_map by (rule rev_image_eqI) simp
qed

lemma within_half_bits_of:
  assumes "(\<forall>m \<in> set ms. m < 4) \<or> (\<forall>m \<in> set ms. \<not> m < 4)"
  shows "within_half (bits_of ms)"
  using assms
proof
  assume "\<forall>m \<in> set ms. \<not> m < 4"
  then have "take_bit 4 (bits_of ms) = 0"
    by (intro bit_word_eqI) (auto simp: bit_simps bit_bits_of)
  moreover have "(0x0F :: u32) = mask 4"
    by (simp add: mask_eq_exp_minus_1)
  ultimately show ?thesis
    by (simp add: within_half_def take_bit_eq_mask)
next
  assume "\<forall>m \<in> set ms. m < 4"
  then have "bits_of ms AND push_bit 4 (mask 4) = 0"
    by (intro bit_word_eqI) (auto simp: bit_simps bit_bits_of)
  moreover have "push_bit 4 (mask 4) = (0xF0 :: u32)"
    by (simp add: mask_eq_exp_minus_1 push_bit_eq_mult)
  ultimately show ?thesis
    by (simp add: within_half_def)
qed

lemma graph_groups_member:
  assumes "sorted ms" "distinct ms" "set ms \<subseteq> {0..<n}" "n < 32" "2 \<le> length ms" "length ms \<le> kMaxGroup"
    and "n \<le> 4 \<or> min_graph_width e n \<le> length ms \<or> (\<forall>m \<in> set ms. m < 4) \<or> (\<forall>m \<in> set ms. \<not> m < 4)"
  shows "ms \<in> set (graph_groups e n)"
proof -
  have "captured_mask e n (bits_of ms)"
    using assms within_half_bits_of [of ms] by (auto simp: captured_mask_def Let_def mask_members_bits_of)
  then have "bits_of ms \<in> set (filter (captured_mask e n) (map of_nat [1..<2 ^ n]))"
    using bits_of_range [of ms n] assms(3,4,5) by fastforce
  then show ?thesis
    unfolding graph_groups_def set_map using mask_members_bits_of [OF assms(1-4)] by (metis image_eqI)
qed

lemma sorted_halves:
  fixes ms :: "nat list"
  assumes "sorted ms"
  shows "filter (\<lambda>m. m < k) ms @ filter (\<lambda>m. \<not> m < k) ms = ms"
  using assms
proof (induction ms)
  case (Cons m ms)
  show ?case
  proof (cases "m < k")
    case False
    then have "filter (\<lambda>m. m < k) ms = []" "filter (\<lambda>m. \<not> m < k) ms = ms"
      using Cons.prems by (auto simp: filter_empty_conv filter_id_conv)
    then show ?thesis
      using False by simp
  qed (use Cons in simp)
qed simp

lemma lead_commands_batched:
  assumes "Forward_batched l ps \<in> set (lead_commands e n members)" "members \<noteq> []"
  shows "ordered_forward (lead_commands e n members) l ps \<and> ps \<noteq> [] \<and>
    (l # ps = members \<and> \<not> splits e n members \<or>
     l # ps = filter (\<lambda>m. m < 4) members \<or> l # ps = filter (\<lambda>m. \<not> m < 4) members)"
proof (cases "splits e n members")
  case True
  then consider "Forward_batched l ps \<in> set (half_commands (filter (\<lambda>m. m < 4) members))"
    | "Forward_batched l ps \<in> set (half_commands (filter (\<lambda>m. \<not> m < 4) members))"
    using assms(1) by (auto simp: lead_commands_def)
  then show ?thesis
    by cases (use True half_commands_forward(2) in \<open>auto simp: lead_commands_def intro: ordered_forward_append\<close>)
next
  case False
  then have "Forward_batched l ps \<in> set (batched_commands members)" "length members \<noteq> 1"
      "lead_commands e n members = batched_commands members"
    using assms(1) by (auto simp: lead_commands_def split: if_splits)
  then show ?thesis
    using False batched_commands_forward(2) [OF assms(2), of l ps] by auto
qed

lemma draft_chunks_forward:
  "0 < chunk \<Longrightarrow> concat (map forwarded (draft_chunks stream chunk members)) = members"
proof (induction stream chunk members rule: draft_chunks.induct)
  case (1 stream chunk members)
  show ?case
  proof (cases "members = []")
    case False
    let ?first = "take chunk members"
    have chunk: "forwarded (if length xs = 1 then Draft_solo stream (hd xs) else Draft_batched stream xs) = xs" if "xs \<noteq> []" for xs
      using that by (cases xs) auto
    have "forwarded (if length ?first = 1 then Draft_solo stream (hd ?first) else Draft_batched stream ?first) = ?first"
      using False 1(2) by (intro chunk) simp
    moreover have "concat (map forwarded (draft_chunks stream chunk (drop chunk members))) = drop chunk members"
      using 1 False by auto
    ultimately show ?thesis
      using False 1(2) by (subst draft_chunks.simps) (simp add: Let_def del: length_take)
  qed (simp add: draft_chunks.simps)
qed

lemma draft_commands_forward:
  assumes "members \<noteq> []" "0 < chunk"
  shows "concat (map forwarded (lead_draft_commands chunk members)) = members"
proof -
  have "concat (map (forwarded \<circ> Wait_ready x) xs) = []" for x xs
    by (induction xs) simp_all
  then show ?thesis
    using assms draft_chunks_forward [of chunk "hd members" members]
    by (auto simp: lead_draft_commands_def length_Suc_conv simp del: concat_eq_Nil_conv)
qed

text \<open>Every draft is on the first member's stream, at most a chunk wide, and comes after that stream's waits.\<close>

fun draft_on :: "nat \<Rightarrow> nat \<Rightarrow> command \<Rightarrow> bool" where
  "draft_on stream chunk (Draft_solo s m) \<longleftrightarrow> s = stream"
| "draft_on stream chunk (Draft_batched s ms) \<longleftrightarrow> s = stream \<and> 2 \<le> length ms \<and> length ms \<le> chunk"
| "draft_on stream chunk _ \<longleftrightarrow> False"

definition ordered_drafts :: "nat \<Rightarrow> nat \<Rightarrow> command list \<Rightarrow> bool" where
  "ordered_drafts stream chunk cs \<longleftrightarrow> (\<forall>before c after'. cs = before @ c # after' \<and> forwarded c \<noteq> [] \<longrightarrow>
     draft_on stream chunk c \<and> (\<forall>m \<in> set (forwarded c). m = stream \<or> Wait_ready stream m \<in> set before))"

lemma draft_chunks_on:
  "c \<in> set (draft_chunks stream chunk members) \<Longrightarrow> draft_on stream chunk c \<and> set (forwarded c) \<subseteq> set members"
proof (induction stream chunk members rule: draft_chunks.induct)
  case (1 stream chunk members)
  let ?first = "take chunk members"
  have some: "members \<noteq> []" "chunk \<noteq> 0"
    using 1(2) by (subst (asm) draft_chunks.simps, force split: if_splits)+
  have c: "c = (if length ?first = 1 then Draft_solo stream (hd ?first) else Draft_batched stream ?first) \<or>
      c \<in> set (draft_chunks stream chunk (drop chunk members))"
    using 1(2) some by (subst (asm) draft_chunks.simps) (simp add: Let_def)
  have "?first \<noteq> []"
    using some by simp
  then have first: "length ?first \<noteq> 0" "hd ?first \<in> set members" "length ?first \<le> chunk"
    by (simp, meson hd_in_set in_set_takeD, simp)
  then have wide: "2 \<le> length ?first" if "length ?first \<noteq> 1"
    using that by linarith
  from c show ?case
  proof
    assume "c = (if length ?first = 1 then Draft_solo stream (hd ?first) else Draft_batched stream ?first)"
    then show ?thesis
      using first set_take_subset [of chunk members] wide
      by (cases "length ?first = 1") (simp_all del: length_take)
  next
    assume "c \<in> set (draft_chunks stream chunk (drop chunk members))"
    then show ?thesis
      using 1(1) [of ?first] some set_drop_subset [of chunk members] by blast
  qed
qed

lemma draft_commands_ordered:
  assumes "members \<noteq> []"
  shows "ordered_drafts (hd members) chunk (lead_draft_commands chunk members)"
proof (cases "length members = 1")
  case True
  then show ?thesis
    by (auto simp: ordered_drafts_def lead_draft_commands_def Cons_eq_append_conv)
next
  case False
  let ?s = "hd members" and ?w = "map (Wait_ready (hd members)) (tl members)"
  show ?thesis
    unfolding ordered_drafts_def
  proof (intro allI impI, elim conjE)
    fix before c after'
    assume split: "lead_draft_commands chunk members = before @ c # after'" and c: "forwarded c \<noteq> []"
    have eq: "?w @ draft_chunks ?s chunk members = before @ c # after'"
      using split False by (simp add: lead_draft_commands_def)
    have "c \<notin> set ?w"
      using c by auto
    then have "length ?w \<le> length before"
      using arg_cong [OF eq, of "\<lambda>xs. xs ! length before"] by (metis leI nth_append nth_append_length nth_mem)
    then obtain b where b: "before = ?w @ b" "draft_chunks ?s chunk members = b @ c # after'"
      using eq by (metis append_eq_append_conv_if append_take_drop_id)
    then have "draft_on ?s chunk c \<and> set (forwarded c) \<subseteq> set members"
      by (intro draft_chunks_on) simp
    moreover have "m = ?s \<or> Wait_ready ?s m \<in> set before" if "m \<in> set members" for m
      using that assms b(1) by (cases members) auto
    ultimately show "draft_on ?s chunk c \<and> (\<forall>m \<in> set (forwarded c). m = ?s \<or> Wait_ready ?s m \<in> set before)"
      by blast
  qed
qed

lemma issue_prefix:
  "\<exists>rest. cs = fst (issue fails cs) @ rest \<and> (snd (issue fails cs) \<longleftrightarrow> (\<exists>c \<in> set cs. fails c)) \<and>
     (\<not> snd (issue fails cs) \<longrightarrow> rest = [])"
proof (induction cs)
  case (Cons c cs)
  then show ?case
    by (auto simp: case_prod_beta)
qed simp

text \<open>
  C38. The commands a leader issues for the members of a closed group, in ascending lane order:
  every member is verified exactly once, in order; every batched forward is led by the member that
  registered first, waits for the queued work of all its peers, and all its peers wait for its
  completion; and its members are one of the groups for which a graph is captured. The commands of
  the draft leader draft every member exactly once, in order, in drafts at most a chunk wide, all on the
  stream of the member that registered first, and each only after that stream waits for the queued work of the
  members drafted.
\<close>

theorem lead_commands_verify_all:
  assumes "sorted members" "distinct members" "set members \<subseteq> {0..<n}" "n < 32"
    and "members \<noteq> []" "length members \<le> kMaxGroup" "0 < chunk"
  shows "concat (map forwarded (lead_commands e n members)) = members \<and>
    concat (map forwarded (lead_draft_commands chunk members)) = members \<and>
    ordered_drafts (hd members) chunk (lead_draft_commands chunk members) \<and>
    (\<forall>l ps. Forward_batched l ps \<in> set (lead_commands e n members) \<longrightarrow>
      ordered_forward (lead_commands e n members) l ps \<and> (\<forall>p \<in> set ps. l < p) \<and>
      l # ps \<in> set (graph_groups e n))"
proof (intro conjI allI impI)
  show "concat (map forwarded (lead_commands e n members)) = members"
    using batched_commands_forward(1) [OF assms(5)] half_commands_forward(1) sorted_halves [OF assms(1), of 4] assms(5)
    by (auto simp: lead_commands_def length_Suc_conv)
  show "concat (map forwarded (lead_draft_commands chunk members)) = members"
    by (rule draft_commands_forward [OF assms(5,7)])
  show "ordered_drafts (hd members) chunk (lead_draft_commands chunk members)"
    by (rule draft_commands_ordered [OF assms(5)])
  fix l ps
  assume cmd: "Forward_batched l ps \<in> set (lead_commands e n members)"
  note fwd = lead_commands_batched [OF cmd assms(5)]
  have sub: "sorted (l # ps)" "distinct (l # ps)" "set (l # ps) \<subseteq> {0..<n}" "length (l # ps) \<le> kMaxGroup"
  proof -
    obtain P where P: "l # ps = filter P members"
      using fwd filter_True [of members "\<lambda>_. True"] by metis
    show "sorted (l # ps)" "distinct (l # ps)" "set (l # ps) \<subseteq> {0..<n}" "length (l # ps) \<le> kMaxGroup"
      using assms(1,2,3,6) le_trans [OF length_filter_le] unfolding P by (auto simp: sorted_wrt_filter)
  qed
  show "ordered_forward (lead_commands e n members) l ps"
    using fwd by simp
  show "\<forall>p \<in> set ps. l < p"
    using sub(1,2) by (auto simp: order.strict_iff_order)
  have "2 \<le> length (l # ps)"
    using fwd by (cases ps) auto
  moreover have "n \<le> 4 \<or> min_graph_width e n \<le> length (l # ps) \<or> (\<forall>m \<in> set (l # ps). m < 4) \<or>
      (\<forall>m \<in> set (l # ps). \<not> m < 4)"
  proof -
    consider "l # ps = members" "\<not> splits e n members" | "l # ps = filter (\<lambda>m. m < 4) members"
      | "l # ps = filter (\<lambda>m. \<not> m < 4) members"
      using fwd by blast
    then show ?thesis
    proof cases
      case 1
      then show ?thesis
        using calculation by (auto simp: splits_def)
    next
      case 2
      then show ?thesis
        by (metis (mono_tags, lifting) mem_Collect_eq set_filter)
    next
      case 3
      then show ?thesis
        by (metis (mono_tags, lifting) mem_Collect_eq set_filter)
    qed
  qed
  ultimately show "l # ps \<in> set (graph_groups e n)"
    using sub assms(4) by (intro graph_groups_member) auto
qed

theorem lead_commands_verify_all_witness:
  "concat (map forwarded (lead_commands sample_settings 8 [1, 3, 6])) = [1, 3, 6] \<and>
   lead_commands sample_settings 8 [1, 3, 6] =
     [Wait_ready 1 3, Forward_batched 1 [3], Record_done 1, Wait_done 3 1, Forward_solo 6] \<and>
   [1, 3] \<in> set (graph_groups sample_settings 8)"
proof -
  have cmds: "lead_commands sample_settings 8 [1, 3, 6] =
     [Wait_ready 1 3, Forward_batched 1 [3], Record_done 1, Wait_done 3 1, Forward_solo 6]"
    by code_simp
  have "sorted [1, 3, 6 :: nat]" "distinct [1, 3, 6 :: nat]" "set [1, 3, 6 :: nat] \<subseteq> {0..<8}" "(8 :: nat) < 32"
      "[1, 3, 6 :: nat] \<noteq> []" "length [1, 3, 6 :: nat] \<le> kMaxGroup" "0 < (4 :: nat)"
    by (simp_all add: kMaxGroup_def)
  from lead_commands_verify_all [OF this, of sample_settings] show ?thesis
    unfolding cmds by simp
qed

end
