(* ===== verification/Sha256.thy ===== *)
theory Sha256
  imports Voidinfer_Prelude Complex_Main
begin

unbundle bit_operations_syntax

text \<open>
  Model of \<open>src/targets/qwen3_6/impl/frontend/digest.cpp\<close>: the SHA-256 fingerprint of payloads and its
  hexadecimal form.

  Bytes and words are machine words. A pointer into the input is the rest of the input from there.
  The checkpoint is \<open>None\<close> for an empty \<open>std::function\<close>; otherwise it gives, for the offset at which it is
  called, the exception the callback throws, if any.

  The theorem: for every payload the function accepts, the result is the first exception a checkpoint throws,
  or else the digest of the specification, which is FIPS 180-4 itself: it shares no definition with the
  model of the source. Its constants are the fractional parts of roots of primes where the source has tables, its
  bit functions are given bit by bit, its message schedule is a recursion where the source fills an array, and it
  pads the whole message where the source hashes the full blocks in place and builds one or two tail blocks.
\<close>

section \<open>The compression function\<close>

definition kRound :: "u32 list" where
  "kRound = concat [
    [0x428a2f98, 0x71374491, 0xb5c0fbcf, 0xe9b5dba5],
    [0x3956c25b, 0x59f111f1, 0x923f82a4, 0xab1c5ed5],
    [0xd807aa98, 0x12835b01, 0x243185be, 0x550c7dc3],
    [0x72be5d74, 0x80deb1fe, 0x9bdc06a7, 0xc19bf174],
    [0xe49b69c1, 0xefbe4786, 0x0fc19dc6, 0x240ca1cc],
    [0x2de92c6f, 0x4a7484aa, 0x5cb0a9dc, 0x76f988da],
    [0x983e5152, 0xa831c66d, 0xb00327c8, 0xbf597fc7],
    [0xc6e00bf3, 0xd5a79147, 0x06ca6351, 0x14292967],
    [0x27b70a85, 0x2e1b2138, 0x4d2c6dfc, 0x53380d13],
    [0x650a7354, 0x766a0abb, 0x81c2c92e, 0x92722c85],
    [0xa2bfe8a1, 0xa81a664b, 0xc24b8b70, 0xc76c51a3],
    [0xd192e819, 0xd6990624, 0xf40e3585, 0x106aa070],
    [0x19a4c116, 0x1e376c08, 0x2748774c, 0x34b0bcb5],
    [0x391c0cb3, 0x4ed8aa4a, 0x5b9cca4f, 0x682e6ff3],
    [0x748f82ee, 0x78a5636f, 0x84c87814, 0x8cc70208],
    [0x90befffa, 0xa4506ceb, 0xbef9a3f7, 0xc67178f2]]"

definition load_be32 :: "u8 list \<Rightarrow> u32" where
  "load_be32 bytes =
     push_bit 24 (ucast (bytes ! 0)) OR push_bit 16 (ucast (bytes ! 1)) OR
     push_bit 8 (ucast (bytes ! 2)) OR ucast (bytes ! 3)"

definition store_be32 :: "u32 \<Rightarrow> u8 list" where
  "store_be32 v = [ucast (drop_bit 24 v), ucast (drop_bit 16 v), ucast (drop_bit 8 v), ucast v]"

definition schedule_step :: "nat \<Rightarrow> u32 list \<Rightarrow> u32 list" where
  "schedule_step i words =
     (let w15 = words ! (i - 15); w2 = words ! (i - 2);
          s0 = word_rotr 7 w15 XOR word_rotr 18 w15 XOR drop_bit 3 w15;
          s1 = word_rotr 17 w2 XOR word_rotr 19 w2 XOR drop_bit 10 w2
      in words[i := words ! (i - 16) + s0 + words ! (i - 7) + s1])"

definition message_schedule :: "u8 list \<Rightarrow> u32 list" where
  "message_schedule block =
     fold schedule_step [16..<64]
       (fold (\<lambda>i words. words[i := load_be32 (drop (4 * i) block)]) [0..<16] (replicate 64 0))"

record working =
  wa :: u32
  wb :: u32
  wc :: u32
  wd :: u32
  we :: u32
  wf :: u32
  wg :: u32
  wh :: u32

definition round_step :: "u32 list \<Rightarrow> nat \<Rightarrow> working \<Rightarrow> working" where
  "round_step words i w =
     (let sum1 = word_rotr 6 (we w) XOR word_rotr 11 (we w) XOR word_rotr 25 (we w);
          chosen = (we w AND wf w) XOR (NOT (we w) AND wg w);
          t1 = wh w + sum1 + chosen + kRound ! i + words ! i;
          sum0 = word_rotr 2 (wa w) XOR word_rotr 13 (wa w) XOR word_rotr 22 (wa w);
          majority = (wa w AND wb w) XOR (wa w AND wc w) XOR (wb w AND wc w);
          t2 = sum0 + majority
      in \<lparr>wa = t1 + t2, wb = wa w, wc = wb w, wd = wc w, we = wd w + t1, wf = we w, wg = wf w, wh = wg w\<rparr>)"

definition process_block :: "u32 list \<Rightarrow> u8 list \<Rightarrow> u32 list" where
  "process_block state block =
     (let words = message_schedule block;
          w = fold (round_step words) [0..<64]
                \<lparr>wa = state ! 0, wb = state ! 1, wc = state ! 2, wd = state ! 3,
                 we = state ! 4, wf = state ! 5, wg = state ! 6, wh = state ! 7\<rparr>
      in [state ! 0 + wa w, state ! 1 + wb w, state ! 2 + wc w, state ! 3 + wd w,
          state ! 4 + we w, state ! 5 + wf w, state ! 6 + wg w, state ! 7 + wh w])"

section \<open>The digest\<close>

definition initial_state :: "u32 list" where
  "initial_state =
     [0x6a09e667, 0xbb67ae85, 0x3c6ef372, 0xa54ff53a] @ [0x510e527f, 0x9b05688c, 0x1f83d9ab, 0x5be0cd19]"

text \<open>The loop over the full blocks: the rest of the input, the offset and the state.\<close>

function full_blocks ::
    "(nat \<Rightarrow> exn option) option \<Rightarrow> u8 list \<Rightarrow> nat \<Rightarrow> u32 list \<Rightarrow> exn + (u8 list \<times> nat \<times> u32 list)" where
  "full_blocks checkpoint rest offset state =
     (if length rest < 64 then Inr (rest, offset, state)
      else case (case checkpoint of None \<Rightarrow> None | Some f \<Rightarrow> if offset mod 2 ^ 20 = 0 then f offset else None) of
        Some e \<Rightarrow> Inl e
      | None \<Rightarrow> full_blocks checkpoint (drop 64 rest) (offset + 64) (process_block state rest))"
  by auto
termination
  by (relation "measure (\<lambda>(_, rest, _, _). length rest)") auto

declare full_blocks.simps [simp del]

definition tail_size :: "nat \<Rightarrow> nat" where
  "tail_size remaining = (if remaining < 56 then 64 else 128)"

definition tail_buffer :: "u8 list \<Rightarrow> nat \<Rightarrow> u8 list" where
  "tail_buffer rest input_size =
     (let remaining = length rest;
          tail = (rest @ drop remaining (replicate 128 0))[remaining := 0x80];
          bits = of_nat input_size * (8 :: u64)
      in fold (\<lambda>i tail. tail[tail_size remaining - 1 - i := ucast (drop_bit (8 * i) bits)]) [0..<8] tail)"

definition digest_bytes :: "u32 list \<Rightarrow> u8 list" where
  "digest_bytes state = concat (map store_be32 state)"

definition sha256 :: "(nat \<Rightarrow> exn option) option \<Rightarrow> u8 list \<Rightarrow> exn + u8 list" where
  "sha256 checkpoint input =
     (if unat (UINT64_MAX div 8) < length input then Inl Invalid_argument
      else case full_blocks checkpoint input 0 initial_state of
        Inl e \<Rightarrow> Inl e
      | Inr (rest, _, state) \<Rightarrow>
          let tail = tail_buffer rest (length input);
              state = process_block state tail;
              state = (if tail_size (length rest) = 128 then process_block state (drop 64 tail) else state)
          in Inr (digest_bytes state))"

definition hex_digit :: "nat \<Rightarrow> char" where
  "hex_digit n = ''0123456789abcdef'' ! n"

definition sha256_hex :: "u8 list \<Rightarrow> string" where
  "sha256_hex digest =
     concat (map (\<lambda>b. [hex_digit (unat (drop_bit 4 b)), hex_digit (unat (b AND 0x0f))]) digest)"

section \<open>Specification\<close>

text \<open>
  The hash function of FIPS 180-4, written from the standard: its own rotation, bit functions, constants
  (the first 32 bits of the fractional parts of roots of the first primes), recursive message
  schedule, and bytes and words related by arithmetic.
\<close>

definition first_primes :: "nat list" where
  "first_primes = [
    2, 3, 5, 7, 11, 13, 17, 19, 23, 29, 31, 37, 41, 43, 47, 53, 59, 61, 67, 71, 73, 79, 83, 89, 97, 101, 103,
    107, 109, 113, 127, 131, 137, 139, 149, 151, 157, 163, 167, 173, 179, 181, 191, 193, 197, 199, 211, 223,
    227, 229, 233, 239, 241, 251, 257, 263, 269, 271, 277, 281, 283, 293, 307, 311]"

definition root_fraction :: "nat \<Rightarrow> nat \<Rightarrow> u32" where
  "root_fraction k p = of_int \<lfloor>2 ^ 32 * frac (root k (real p))\<rfloor>"

definition K_spec :: "nat \<Rightarrow> u32" where
  "K_spec t = root_fraction 3 (first_primes ! t)"

definition H_spec :: "u32 list" where
  "H_spec = map (root_fraction 2) (take 8 first_primes)"

definition ROTR :: "nat \<Rightarrow> u32 \<Rightarrow> u32" where
  "ROTR n x = drop_bit n x OR push_bit (32 - n) x"

definition bitwise :: "(bool \<Rightarrow> bool \<Rightarrow> bool \<Rightarrow> bool) \<Rightarrow> u32 \<Rightarrow> u32 \<Rightarrow> u32 \<Rightarrow> u32" where
  "bitwise f x y z = horner_sum of_bool 2 (map (\<lambda>n. f (bit x n) (bit y n) (bit z n)) [0..<32])"

definition parity :: "u32 \<Rightarrow> u32 \<Rightarrow> u32 \<Rightarrow> u32" where
  "parity = bitwise (\<lambda>x y z. odd (of_bool x + of_bool y + of_bool z :: nat))"

definition Ch :: "u32 \<Rightarrow> u32 \<Rightarrow> u32 \<Rightarrow> u32" where
  "Ch = bitwise (\<lambda>x y z. if x then y else z)"

definition Maj :: "u32 \<Rightarrow> u32 \<Rightarrow> u32 \<Rightarrow> u32" where
  "Maj = bitwise (\<lambda>x y z. 2 \<le> (of_bool x + of_bool y + of_bool z :: nat))"

definition bytes_word :: "u8 list \<Rightarrow> u32" where
  "bytes_word bytes = of_nat (foldl (\<lambda>n b. 256 * n + unat b) 0 bytes)"

definition word_bytes :: "u32 \<Rightarrow> u8 list" where
  "word_bytes w = map (\<lambda>i. of_nat (unat w div 256 ^ i mod 256)) [3, 2, 1, 0]"

function W_spec :: "u8 list \<Rightarrow> nat \<Rightarrow> u32" where
  "W_spec block t =
     (if t < 16 then bytes_word (take 4 (drop (4 * t) block))
      else let x = W_spec block (t - 2); y = W_spec block (t - 15) in
        parity (ROTR 17 x) (ROTR 19 x) (drop_bit 10 x) + W_spec block (t - 7) +
        parity (ROTR 7 y) (ROTR 18 y) (drop_bit 3 y) + W_spec block (t - 16))"
  by auto
termination
  by (relation "measure snd") auto

declare W_spec.simps [simp del]

type_synonym eight = "u32 \<times> u32 \<times> u32 \<times> u32 \<times> u32 \<times> u32 \<times> u32 \<times> u32"

fun round_spec :: "u8 list \<Rightarrow> nat \<Rightarrow> eight \<Rightarrow> eight" where
  "round_spec block t (a, b, c, d, e, f, g, h) =
     (let T1 = h + parity (ROTR 6 e) (ROTR 11 e) (ROTR 25 e) + Ch e f g + K_spec t + W_spec block t;
          T2 = parity (ROTR 2 a) (ROTR 13 a) (ROTR 22 a) + Maj a b c
      in (T1 + T2, a, b, c, d + T1, e, f, g))"

fun eight_list :: "eight \<Rightarrow> u32 list" where
  "eight_list (a, b, c, d, e, f, g, h) = [a, b, c, d, e, f, g, h]"

definition list_eight :: "u32 list \<Rightarrow> eight" where
  "list_eight H = (H ! 0, H ! 1, H ! 2, H ! 3, H ! 4, H ! 5, H ! 6, H ! 7)"

definition compress_spec :: "u32 list \<Rightarrow> u8 list \<Rightarrow> u32 list" where
  "compress_spec H block = map2 (+) H (eight_list (fold (round_spec block) [0..<64] (list_eight H)))"

text \<open>
  The padded message: the bit one, the fewest zero bits that leave 64 bits in the last block of 512, and the
  length in bits.
\<close>

definition zeros_for :: "nat \<Rightarrow> nat" where
  "zeros_for n = (119 - n mod 64) mod 64"

definition length_bytes :: "nat \<Rightarrow> u8 list" where
  "length_bytes n = map (\<lambda>i. of_nat (8 * n div 256 ^ i mod 256)) [7, 6, 5, 4, 3, 2, 1, 0]"

definition padded :: "u8 list \<Rightarrow> u8 list" where
  "padded input = input @ [0x80] @ replicate (zeros_for (length input)) 0 @ length_bytes (length input)"

fun blocks :: "nat \<Rightarrow> u8 list \<Rightarrow> u8 list list" where
  "blocks 0 bytes = []"
| "blocks (Suc n) bytes = take 64 bytes # blocks n (drop 64 bytes)"

definition sha256_spec :: "u8 list \<Rightarrow> u8 list" where
  "sha256_spec input =
     concat (map word_bytes (foldl compress_spec H_spec (blocks (length (padded input) div 64) (padded input))))"

text \<open>
  The first exception the checkpoint throws: it is called at every full block whose offset is a multiple
  of \<open>2 ^ 20\<close>.
\<close>

fun first_some :: "'a option list \<Rightarrow> 'a option" where
  "first_some [] = None"
| "first_some (None # xs) = first_some xs"
| "first_some (Some x # xs) = Some x"

definition checked_offsets :: "nat \<Rightarrow> nat list" where
  "checked_offsets n = filter ((dvd) (2 ^ 20)) (map ((*) 64) [0..<n div 64])"

definition checkpoint_throws :: "(nat \<Rightarrow> exn option) option \<Rightarrow> nat \<Rightarrow> exn option" where
  "checkpoint_throws checkpoint n =
     (case checkpoint of None \<Rightarrow> None | Some f \<Rightarrow> first_some (map f (checked_offsets n)))"

section \<open>The constants are the roots\<close>

lemma root_fraction_eq:
  assumes "0 < k" "c ^ k \<le> p * 2 ^ (32 * k)" "p * 2 ^ (32 * k) < (c + 1) ^ k"
  shows "root_fraction k p = of_nat c"
proof -
  let ?r = "root k (real p)"
  have scaled: "2 ^ 32 * ?r = root k (real (p * 2 ^ (32 * k)))"
  proof -
    have "root k ((2 ^ 32) ^ k) = (2 ^ 32 :: real)"
      using assms(1) by (intro real_root_pos2) simp_all
    then have "root k (real p * (2 ^ 32) ^ k) = root k (real p) * 2 ^ 32"
      by (simp only: real_root_mult)
    then show ?thesis
      by (simp only: of_nat_mult of_nat_power of_nat_numeral power_mult mult.commute [of "2 ^ 32"])
  qed
  have "real c \<le> 2 ^ 32 * ?r"
    unfolding scaled using assms(1,2)
    by (metis of_nat_0_le_iff of_nat_le_iff of_nat_power real_root_le_mono real_root_pos2)
  moreover have "2 ^ 32 * ?r < real (c + 1)"
    unfolding scaled using assms(1,3)
    by (metis of_nat_0_le_iff of_nat_less_iff of_nat_power real_root_less_mono real_root_pos2)
  ultimately have "\<lfloor>2 ^ 32 * ?r\<rfloor> = int c"
    by (simp add: floor_eq_iff)
  moreover have "\<lfloor>2 ^ 32 * frac ?r\<rfloor> = \<lfloor>2 ^ 32 * ?r\<rfloor> - 2 ^ 32 * \<lfloor>?r\<rfloor>"
  proof -
    have "2 ^ 32 * frac ?r = 2 ^ 32 * ?r - of_int (2 ^ 32 * \<lfloor>?r\<rfloor>)"
      by (simp add: frac_def algebra_simps)
    then show ?thesis
      by (simp only: floor_diff_of_int)
  qed
  moreover have "of_int (2 ^ 32 * z) = (0 :: u32)" for z
  proof -
    have "(2 :: u32) ^ 32 = 0"
      by (simp add: exp_eq_zero_iff)
    then show ?thesis
      by (simp only: of_int_mult of_int_power of_int_numeral mult_zero_left)
  qed
  ultimately show ?thesis
    by (simp add: root_fraction_def)
qed

definition cube_roots :: "nat list" where
  "cube_roots = [
    5411319704, 6194414737, 7344290767, 8215976869, 9551921755, 10098905585, 11043570340, 11460697813,
    12214315672, 13195500289, 13492127166, 14311783875, 14809980276, 15046980094, 15499789991, 16133124468,
    16720292289, 16907126662, 17444216262, 17784676812, 17950125167, 18429019306, 18734950876, 19175934170,
    19734090066, 20001703533, 20132865992, 20390182855, 20516441075, 20764397895, 21588763473, 21813078375,
    22141143685, 22248366392, 22769593852, 22871018771, 23170020180, 23461497531, 23651862830, 23931792517,
    24205322401, 24295138891, 24734567280, 24820601251, 24990902297, 25075189284, 25569408389, 26045227120,
    26200031510, 26276752392, 26428864332, 26653801653, 26727943347, 27092625994, 27306805839, 27517677555,
    27725365998, 27793908591, 27997534228, 28131656200, 28198240250, 28526537963, 28973835255, 29099129074]"

definition square_roots :: "nat list" where
  "square_roots = [
    6074000999, 7439101573, 9603838834, 11363415354, 14244795007, 15485724812, 17708603819, 18721328409]"

lemma map_root_fraction:
  assumes "0 < k" "list_all2 (\<lambda>p c. c ^ k \<le> p * 2 ^ (32 * k) \<and> p * 2 ^ (32 * k) < (c + 1) ^ k) ps cs"
  shows "map (root_fraction k) ps = map of_nat cs"
  using assms(2) by (induction rule: list_all2_induct) (simp_all add: root_fraction_eq [OF assms(1)])

lemma K_spec_kRound:
  "map (root_fraction 3) first_primes = kRound"
proof -
  have "list_all2 (\<lambda>p c. c ^ 3 \<le> p * 2 ^ (32 * 3) \<and> p * 2 ^ (32 * 3) < (c + 1) ^ 3) first_primes cube_roots"
    by (simp add: first_primes_def cube_roots_def)
  moreover have "map of_nat cube_roots = kRound"
    by (simp add: cube_roots_def kRound_def)
  ultimately show ?thesis
    using map_root_fraction [of 3] by simp
qed

lemma H_spec_initial:
  "H_spec = initial_state"
proof -
  have "list_all2 (\<lambda>p c. c ^ 2 \<le> p * 2 ^ (32 * 2) \<and> p * 2 ^ (32 * 2) < (c + 1) ^ 2) (take 8 first_primes) square_roots"
    by (simp add: first_primes_def square_roots_def)
  moreover have "map of_nat square_roots = initial_state"
    by (simp add: square_roots_def initial_state_def)
  ultimately show ?thesis
    using map_root_fraction [of 2] by (simp add: H_spec_def)
qed

section \<open>The compression function is the standard's\<close>

lemma ROTR_rotr:
  assumes "0 < n" "n < 32"
  shows "ROTR n x = word_rotr n x"
proof (rule bit_word_eqI)
  fix i assume "i < LENGTH(32)"
  then have i: "i < 32"
    by simp
  show "bit (ROTR n x) i \<longleftrightarrow> bit (word_rotr n x) i"
  proof (cases "i + n < 32")
    case True
    then have "\<not> 32 - n \<le> i"
      using assms by simp
    then show ?thesis
      using True i assms by (simp add: ROTR_def bit_word_rotr_iff bit_simps add.commute)
  next
    case False
    then have "(i + n) mod 32 = i - (32 - n)" "\<not> bit x (n + i)" "32 - n \<le> i"
      using i assms by (simp_all add: mod_if bit_imp_le_length impossible_bit)
    then show ?thesis
      using i assms False by (simp add: ROTR_def bit_word_rotr_iff bit_simps)
  qed
qed

lemma bit_bitwise:
  "bit (bitwise f x y z) n \<longleftrightarrow> n < 32 \<and> f (bit x n) (bit y n) (bit z n)"
  by (auto simp: bitwise_def bit_horner_sum_bit_word_iff)

lemma bit_functions:
  "parity x y z = x XOR y XOR z"
  "Ch x y z = (x AND y) XOR (NOT x AND z)"
  "Maj x y z = (x AND y) XOR (x AND z) XOR (y AND z)"
  by (rule bit_word_eqI; auto simp: parity_def Ch_def Maj_def bit_bitwise bit_simps)+

lemma byte_of_nat_mod: "(of_nat (n mod 256) :: u8) = of_nat n"
  by (simp add: word_of_nat_eq_iff take_bit_eq_mod)

lemma byte_of_word:
  "(of_nat (unat w div 256 ^ i mod 256) :: u8) = ucast (drop_bit (8 * i) w)"
proof -
  have "unat (drop_bit (8 * i) w) = unat w div 256 ^ i"
    by (simp only: unat_drop_bit_eq) (simp add: drop_bit_eq_div power_mult)
  then show ?thesis
    by (metis byte_of_nat_mod of_nat_unat)
qed

lemma word_bytes_store:
  "word_bytes w = store_be32 w"
  using byte_of_word [of w 3] byte_of_word [of w 2] byte_of_word [of w 1] byte_of_word [of w 0]
  by (simp add: word_bytes_def store_be32_def)

lemma word_bytes_fun:
  "word_bytes = store_be32"
  using word_bytes_store by blast

lemma byte_place:
  "push_bit k (ucast (b :: u8)) = (of_nat (unat b * 2 ^ k) :: u32)"
  by (simp add: push_bit_eq_mult of_nat_unat mult.commute)

lemma load_be32_bytes:
  "4 \<le> length bytes \<Longrightarrow> load_be32 bytes = bytes_word (take 4 bytes)"
proof -
  assume "4 \<le> length bytes"
  then obtain a b c d rest where bytes: "bytes = a # b # c # d # rest"
    by (auto simp: numeral_eq_Suc Suc_le_length_iff)
  let ?w = "\<lambda>k x. push_bit k (ucast (x :: u8)) :: u32"
  have join: "?w k x OR y = ?w k x + y" if "\<And>n. bit y n \<Longrightarrow> n < k" for k x y
    using that by (intro disjunctive_add_eq_or [symmetric] bit_word_eqI) (fastforce simp: bit_simps)
  have high: "n < k + 8" if "bit (?w k x) n" for n k x
    using that bit_imp_le_length [of x "n - k"] by (simp add: bit_simps)
  have low: "n < 8" if "bit (ucast d :: u32) n" for n
    using that bit_imp_le_length [of d n] by (simp add: bit_simps)
  have "?w 8 c OR ucast d = ?w 8 c + ucast d"
    by (rule join) (rule low)
  moreover have "?w 16 b OR (?w 8 c OR ucast d) = ?w 16 b + (?w 8 c OR ucast d)"
    by (rule join) (auto simp only: bit_or_iff dest!: high low)
  moreover have "?w 24 a OR (?w 16 b OR (?w 8 c OR ucast d)) = ?w 24 a + (?w 16 b OR (?w 8 c OR ucast d))"
    by (rule join) (auto simp only: bit_or_iff dest!: high low)
  ultimately have "?w 24 a OR ?w 16 b OR ?w 8 c OR ucast d = ?w 24 a + ?w 16 b + ?w 8 c + ucast d"
    by (simp only: or.assoc add.assoc)
  also have "\<dots> = bytes_word (take 4 bytes)"
    using byte_place [of 0 d] by (simp add: bytes byte_place bytes_word_def take_Cons' algebra_simps)
  finally show ?thesis
    by (simp add: bytes load_be32_def)
qed

lemma schedule_loaded:
  assumes "64 \<le> length block" "k \<le> 16"
  defines "words \<equiv> fold (\<lambda>i words. words[i := load_be32 (drop (4 * i) block)]) [0..<k] (replicate 64 0)"
  shows "length words = 64 \<and> (\<forall>t < k. words ! t = W_spec block t)"
  using assms(2) unfolding words_def
proof (induction k)
  case (Suc k)
  have "load_be32 (drop (4 * k) block) = W_spec block k"
    using Suc.prems assms(1) by (subst W_spec.simps) (simp add: load_be32_bytes)
  then show ?case
    using Suc by (auto simp: nth_list_update less_Suc_eq)
qed simp

lemma schedule_step_W:
  assumes "16 \<le> i" "i < length words" "\<And>t. t < i \<Longrightarrow> words ! t = W_spec block t"
  shows "schedule_step i words = words[i := W_spec block i]"
proof -
  have "W_spec block i = words ! (i - 16) +
      (word_rotr 7 (words ! (i - 15)) XOR word_rotr 18 (words ! (i - 15)) XOR drop_bit 3 (words ! (i - 15))) +
      words ! (i - 7) +
      (word_rotr 17 (words ! (i - 2)) XOR word_rotr 19 (words ! (i - 2)) XOR drop_bit 10 (words ! (i - 2)))"
    using assms(1,3)
    by (subst W_spec.simps) (simp only: Let_def bit_functions, simp add: ROTR_rotr ac_simps)
  then show ?thesis
    by (simp only: schedule_step_def Let_def)
qed

lemma message_schedule_W:
  assumes "64 \<le> length block" "t < 64"
  shows "message_schedule block ! t = W_spec block t"
proof -
  let ?start = "fold (\<lambda>i words. words[i := load_be32 (drop (4 * i) block)]) [0..<16] (replicate 64 0)"
  have "length (fold schedule_step [16..<16 + k] ?start) = 64 \<and>
      (\<forall>t < 16 + k. fold schedule_step [16..<16 + k] ?start ! t = W_spec block t)" if "k \<le> 48" for k
    using that
  proof (induction k)
    case 0
    then show ?case
      using schedule_loaded [OF assms(1), of 16] by simp
  next
    case (Suc k)
    then have "schedule_step (16 + k) (fold schedule_step [16..<16 + k] ?start) =
        (fold schedule_step [16..<16 + k] ?start)[16 + k := W_spec block (16 + k)]"
      by (intro schedule_step_W) simp_all
    then have "fold schedule_step [16..<16 + Suc k] ?start =
        (fold schedule_step [16..<16 + k] ?start)[16 + k := W_spec block (16 + k)]"
      by (simp only: add_Suc_right upt_Suc_append le_add1 fold_append comp_apply fold_simps)
    then show ?case
      using Suc by (simp add: nth_list_update less_Suc_eq)
  qed
  from this [of 48] show ?thesis
    using assms(2) by (simp add: message_schedule_def)
qed

definition working_eight :: "working \<Rightarrow> eight" where
  "working_eight w = (wa w, wb w, wc w, wd w, we w, wf w, wg w, wh w)"

lemma round_step_spec:
  assumes "words ! t = W_spec block t" "t < 64"
  shows "working_eight (round_step words t w) = round_spec block t (working_eight w)"
proof -
  have "length first_primes = 64"
    by (simp add: first_primes_def)
  then have "kRound ! t = K_spec t"
    using assms(2) by (simp add: K_spec_kRound [symmetric] K_spec_def)
  then show ?thesis
    using assms(1) by (simp add: working_eight_def round_step_def Let_def bit_functions ROTR_rotr)
qed

lemma rounds_spec:
  assumes "64 \<le> length block" "k \<le> 64"
  shows "working_eight (fold (round_step (message_schedule block)) [0..<k] w) =
    fold (round_spec block) [0..<k] (working_eight w)"
  using assms(2)
proof (induction k)
  case (Suc k)
  then show ?case
    using message_schedule_W [OF assms(1), of k] by (simp add: round_step_spec del: round_spec.simps)
qed simp

lemma process_block_spec:
  assumes "64 \<le> length block" "length st = 8"
  shows "process_block st block = compress_spec st block"
proof -
  obtain a b c d e f g h where st: "st = [a, b, c, d, e, f, g, h]"
    using assms(2) by (auto simp: numeral_eq_Suc length_Suc_conv)
  let ?w = "fold (round_step (message_schedule block)) [0..<64]
    \<lparr>wa = a, wb = b, wc = c, wd = d, we = e, wf = f, wg = g, wh = h\<rparr>"
  have "fold (round_spec block) [0..<64] (list_eight st) = working_eight ?w"
    using rounds_spec [OF assms(1), of 64] by (simp add: working_eight_def list_eight_def st)
  then show ?thesis
    by (simp add: process_block_def compress_spec_def Let_def st working_eight_def)
qed

lemma blocks_lengths:
  "64 * n \<le> length bytes \<Longrightarrow> b \<in> set (blocks n bytes) \<Longrightarrow> length b = 64"
proof (induction n arbitrary: bytes)
  case (Suc n)
  then show ?case
    using Suc.IH [of "drop 64 bytes"] by auto
qed simp

lemma foldl_compress_spec:
  "length st = 8 \<Longrightarrow> (\<And>b. b \<in> set bs \<Longrightarrow> length b = 64) \<Longrightarrow> foldl process_block st bs = foldl compress_spec st bs"
proof (induction bs arbitrary: st)
  case (Cons b bs)
  have "length (process_block st b) = 8"
    by (simp add: process_block_def Let_def)
  then show ?case
    using Cons.IH [of "process_block st b"] Cons.prems process_block_spec [of b st] by simp
qed simp

section \<open>The digest is the specified one\<close>

lemma upt_8: "[0..<8] = [0, 1, 2, 3, 4, 5, 6, 7 :: nat]"
  by (simp add: upt_rec)

lemma length_field:
  "fold (\<lambda>i t. t[length pre + 8 - 1 - i := f i]) [0..<8] (pre @ replicate 8 0 @ post) =
     pre @ map (\<lambda>i. f (7 - i)) [0..<8] @ (post :: u8 list)"
  by (simp add: upt_8 list_update_append numeral_eq_Suc)

lemma load_be32_take:
  assumes "4 * i + 4 \<le> 64" "64 \<le> length bs"
  shows "load_be32 (drop (4 * i) (take 64 bs)) = load_be32 (drop (4 * i) bs)"
  using assms by (simp add: load_be32_def)

lemma process_block_take:
  assumes "64 \<le> length bs"
  shows "process_block st (take 64 bs) = process_block st bs"
proof -
  have "fold (\<lambda>i words. words[i := load_be32 (drop (4 * i) (take 64 bs))]) [0..<16] ws =
      fold (\<lambda>i words. words[i := load_be32 (drop (4 * i) bs)]) [0..<16] ws" for ws
    using load_be32_take [OF _ assms] by (intro fold_cong) auto
  then show ?thesis
    by (simp add: process_block_def message_schedule_def)
qed

lemma UINT64_limit: "unat (UINT64_MAX div 8) = (2 ^ 64 - 1) div 8"
  by (simp add: unat_div UINT64_MAX_unat)

lemma blocks_append:
  "64 * q \<le> length xs \<Longrightarrow> blocks (q + t) (xs @ ys) = blocks q xs @ blocks t (drop (64 * q) xs @ ys)"
proof (induction q arbitrary: xs)
  case (Suc q)
  then show ?case
    using Suc.IH [of "drop 64 xs"] by (simp add: add.commute)
qed simp

lemma checked_offsets_Suc:
  "filter ((dvd) (2 ^ 20)) (map (\<lambda>j. off + 64 * j) [0..<Suc q]) =
    (if 2 ^ 20 dvd off then [off] else []) @ filter ((dvd) (2 ^ 20)) (map (\<lambda>j. off + 64 + 64 * j) [0..<q])"
  by (simp only: upt_conv_Cons map_Suc_upt [symmetric] zero_less_Suc list.map map_map) (simp add: comp_def add.assoc)

text \<open>The loop stops with the first exception thrown at a checked offset; otherwise it folds the full blocks.\<close>

lemma full_blocks_result:
  "full_blocks checkpoint rest offset st =
    (case (case checkpoint of None \<Rightarrow> None
       | Some f \<Rightarrow> first_some (map f (filter ((dvd) (2 ^ 20)) (map (\<lambda>j. offset + 64 * j) [0..<length rest div 64])))) of
      Some e \<Rightarrow> Inl e
    | None \<Rightarrow> Inr (drop (64 * (length rest div 64)) rest, offset + 64 * (length rest div 64),
         foldl process_block st (blocks (length rest div 64) rest)))"
proof (induction "length rest div 64" arbitrary: rest offset st)
  case 0
  then have "length rest < 64"
    by (simp add: div_eq_0_iff)
  then show ?case
    by (subst full_blocks.simps) (simp split: option.split)
next
  case (Suc q)
  have len: "64 \<le> length rest"
    using Suc.hyps(2) by (metis div_less not_less zero_less_Suc less_irrefl)
  have q: "q = length (drop 64 rest) div 64"
    using Suc.hyps(2) len by (simp add: le_div_geq)
  note IH = Suc.hyps(1) [OF q, of "offset + 64" "process_block st rest", unfolded q [symmetric]]
  have step: "full_blocks checkpoint rest offset st =
      (case (case checkpoint of None \<Rightarrow> None | Some f \<Rightarrow> if 2 ^ 20 dvd offset then f offset else None) of
        Some e \<Rightarrow> Inl e
      | None \<Rightarrow> full_blocks checkpoint (drop 64 rest) (offset + 64) (process_block st rest))"
    using len by (subst full_blocks.simps) (simp only: not_less [symmetric] dvd_eq_mod_eq_0 if_False simp_thms)
  have folded: "foldl process_block st (blocks (Suc q) rest) =
      foldl process_block (process_block st rest) (blocks q (drop 64 rest))"
    "drop (64 * Suc q) rest = drop (64 * q) (drop 64 rest)" "offset + 64 * Suc q = offset + 64 + 64 * q"
    using process_block_take [OF len] by (simp_all add: add.commute)
  show ?case
    unfolding step IH Suc.hyps(2) [symmetric] checked_offsets_Suc folded
    by (cases checkpoint; simp split: option.split)
qed

definition be64 :: "u64 \<Rightarrow> u8 list" where
  "be64 v = map (\<lambda>i. ucast (drop_bit (8 * (7 - i)) v)) [0..<8]"

lemma length_be64 [simp]: "length (be64 v) = 8"
  by (simp add: be64_def)

lemma byte_of_word64:
  "(of_nat (unat (w :: u64) div 256 ^ i mod 256) :: u8) = ucast (drop_bit (8 * i) w)"
proof -
  have "unat (drop_bit (8 * i) w) = unat w div 256 ^ i"
    by (simp only: unat_drop_bit_eq) (simp add: drop_bit_eq_div power_mult)
  then show ?thesis
    by (metis byte_of_nat_mod of_nat_unat)
qed

lemma length_bytes_be64:
  assumes "8 * n < 2 ^ 64"
  shows "length_bytes n = be64 (of_nat n * 8)"
proof -
  have "unat (of_nat (8 * n) :: u64) = 8 * n"
    using assms by (subst unat_of_nat) simp
  moreover have "of_nat (8 * n) = (of_nat n * 8 :: u64)"
    by (simp add: mult.commute)
  ultimately have "unat (of_nat n * 8 :: u64) = 8 * n"
    by metis
  then show ?thesis
    using byte_of_word64 [of "of_nat n * 8"] by (simp add: length_bytes_def be64_def upt_8)
qed

lemma zeros_for_fewest:
  "zeros_for n = (LEAST z. 64 dvd n + 1 + z + 8)"
proof (rule Least_equality [symmetric])
  have r: "n mod 64 < 64" "64 * (n div 64) + n mod 64 = n"
    by simp_all
  have arith: "64 * q + m = n \<Longrightarrow> m < 56 \<Longrightarrow> n + 1 + (55 - m) + 8 = 64 * (q + 1)"
    "64 * q + m = n \<Longrightarrow> m < 64 \<Longrightarrow> n + 1 + (119 - m) + 8 = 64 * (q + 2)" for q m
    by arith+
  have "n + 1 + zeros_for n + 8 = 64 * (n div 64 + (if n mod 64 < 56 then 1 else 2))"
  proof (cases "n mod 64 < 56")
    case True
    then have "119 - n mod 64 = (55 - n mod 64) + 64"
      by simp
    then have "zeros_for n = 55 - n mod 64"
      unfolding zeros_for_def by (simp only: mod_add_self2) simp
    then show ?thesis
      using True arith(1) [OF r(2)] by (simp only: if_True)
  next
    case False
    then have "zeros_for n = 119 - n mod 64"
      unfolding zeros_for_def using r(1) by (intro mod_less) linarith
    then show ?thesis
      using False arith(2) [OF r(2,1)] by (simp only: if_False)
  qed
  then show div: "64 dvd n + 1 + zeros_for n + 8"
    by (metis dvd_triv_left)
  show "zeros_for n \<le> z" if "64 dvd n + 1 + z + 8" for z
  proof (rule ccontr)
    assume "\<not> zeros_for n \<le> z"
    moreover have "64 dvd zeros_for n - z"
      using dvd_diff_nat [OF div that] by simp
    moreover have "zeros_for n < 64"
      by (simp add: zeros_for_def)
    ultimately show False
      by (auto dest: dvd_imp_le)
  qed
qed

text \<open>The tail buffer holds the end of the padded message.\<close>

lemma tail_buffer_padding:
  assumes "length rest < 64" "n mod 64 = length rest"
  shows "tail_buffer rest n = rest @ [0x80] @ replicate (zeros_for n) 0 @ be64 (of_nat n * 8) @
      replicate (128 - tail_size (length rest)) 0"
    and "length rest + 1 + zeros_for n + 8 = tail_size (length rest)"
proof -
  let ?r = "length rest" and ?z = "zeros_for n" and ?ts = "tail_size (length rest)"
  show size: "?r + 1 + ?z + 8 = ?ts"
  proof (cases "?r < 56")
    case True
    then have "119 - ?r = (55 - ?r) + 64"
      by simp
    then have "(119 - ?r) mod 64 = 55 - ?r"
      by (simp only: mod_add_self2) simp
    then show ?thesis
      using True assms(2) by (simp add: zeros_for_def tail_size_def)
  qed (use assms in \<open>simp add: zeros_for_def tail_size_def\<close>)
  have "128 - ?r = Suc (?z + 8 + (128 - ?ts))"
    using size by (simp add: tail_size_def split: if_splits)
  then have "(rest @ drop ?r (replicate 128 0))[?r := 0x80] =
      (rest @ [0x80] @ replicate ?z 0) @ replicate 8 0 @ replicate (128 - ?ts) (0 :: u8)"
  proof -
    assume len: "128 - ?r = Suc (?z + 8 + (128 - ?ts))"
    have "drop ?r (replicate 128 0) = 0 # replicate ?z 0 @ replicate 8 0 @ replicate (128 - ?ts) (0 :: u8)"
      unfolding drop_replicate len by (simp only: replicate_Suc replicate_add append_assoc)
    then show ?thesis
      by (simp add: list_update_append)
  qed
  moreover have "?ts = length (rest @ [0x80] @ replicate ?z 0) + 8"
    using size by simp
  ultimately show "tail_buffer rest n = rest @ [0x80] @ replicate (zeros_for n) 0 @ be64 (of_nat n * 8) @
      replicate (128 - tail_size (length rest)) 0"
    using length_field [of "rest @ [0x80] @ replicate ?z 0" "\<lambda>i. ucast (drop_bit (8 * i) (of_nat n * 8 :: u64))"
        "replicate (128 - ?ts) 0"]
    unfolding tail_buffer_def Let_def be64_def by (simp only: append_assoc)
qed

lemma foldl_tail_blocks:
  assumes "length rest < 64" "n mod 64 = length rest" "tail = tail_buffer rest n"
    and "p = [0x80] @ replicate (zeros_for n) 0 @ be64 (of_nat n * 8)"
  shows "foldl process_block st (blocks (tail_size (length rest) div 64) (rest @ p)) =
    (if tail_size (length rest) = 128 then process_block (process_block st tail) (drop 64 tail)
     else process_block st tail)"
proof -
  note pad = tail_buffer_padding [OF assms(1,2)]
  have tail: "tail = (rest @ p) @ replicate (128 - tail_size (length rest)) 0"
    using pad(1) assms(3,4) by simp
  have len: "length (rest @ p) = tail_size (length rest)"
    using pad(2) by (simp add: assms(4))
  have "take 64 (rest @ p) = take 64 tail"
    using len by (simp add: tail tail_size_def split: if_splits)
  moreover have "64 \<le> length tail"
    using len by (simp add: tail tail_size_def split: if_splits)
  ultimately have first: "process_block st (take 64 (rest @ p)) = process_block st tail"
    by (simp add: process_block_take)
  show ?thesis
  proof (cases "tail_size (length rest) = 128")
    case True
    then have "tail = rest @ p"
      by (simp add: tail)
    moreover have "take 64 (drop 64 (rest @ p)) = drop 64 (rest @ p)"
      using len True by simp
    ultimately show ?thesis
      using True first by (simp add: numeral_2_eq_2)
  next
    case False
    then have "tail_size (length rest) div 64 = Suc 0"
      by (simp add: tail_size_def split: if_splits)
    then show ?thesis
      using False first by simp
  qed
qed

text \<open>The specification's blocks are the full blocks of the input, then those of the tail.\<close>

lemma sha256_spec_blocks:
  assumes "\<not> (2 ^ 64 - 1) div 8 < length input"
  defines "q \<equiv> length input div 64"
  defines "tail \<equiv> tail_buffer (drop (64 * q) input) (length input)"
  defines "st \<equiv> process_block (foldl process_block initial_state (blocks q input)) tail"
  shows "sha256_spec input = digest_bytes
    (if tail_size (length (drop (64 * q) input)) = 128 then process_block st (drop 64 tail) else st)"
proof -
  let ?n = "length input" and ?rest = "drop (64 * q) input"
  let ?p = "[0x80] @ replicate (zeros_for ?n) 0 @ be64 (of_nat ?n * 8)"
  have rest: "length ?rest < 64" "?n mod 64 = length ?rest"
    unfolding q_def by (simp_all add: minus_mult_div_eq_mod)
  have padded: "padded input = input @ ?p"
    using assms(1) by (simp add: padded_def length_bytes_be64)
  have total_len: "length (padded input) = tail_size (length ?rest) + q * 64"
    using tail_buffer_padding(2) [OF rest] rest(2) div_mult_mod_eq [of ?n 64]
    unfolding padded q_def by simp linarith
  have count: "length (padded input) div 64 = q + tail_size (length ?rest) div 64"
    unfolding total_len by (subst div_mult_self1) simp_all
  have "64 * q \<le> length input"
    by (simp add: q_def)
  then have parts: "blocks (length (padded input) div 64) (padded input) =
      blocks q input @ blocks (tail_size (length ?rest) div 64) (?rest @ ?p)"
    unfolding count unfolding padded by (rule blocks_append)
  have "length b = 64" if "b \<in> set (blocks (length (padded input) div 64) (padded input))" for b
    using that by (rule blocks_lengths [rotated]) simp
  moreover have "length initial_state = 8"
    by (simp add: initial_state_def)
  ultimately have "foldl compress_spec H_spec (blocks (length (padded input) div 64) (padded input)) =
      foldl process_block (foldl process_block initial_state (blocks q input))
        (blocks (tail_size (length ?rest) div 64) (?rest @ ?p))"
    unfolding H_spec_initial foldl_append [symmetric] parts [symmetric] using foldl_compress_spec by metis
  then show ?thesis
    unfolding sha256_spec_def digest_bytes_def word_bytes_fun foldl_tail_blocks [OF rest refl refl] st_def tail_def
    by (simp only:)
qed

text \<open>
  C39. For every payload and every checkpoint: a payload of more than \<open>UINT64_MAX / 8\<close> bytes is refused; otherwise
  the result is the first exception the checkpoint throws when called at the full blocks whose offset is a
  multiple of 1 MiB, and if there is none, the digest FIPS 180-4 gives the payload.
\<close>

theorem sha256_equals_spec:
  "sha256 checkpoint input =
    (if (2 ^ 64 - 1) div 8 < length input then Inl Invalid_argument
     else case checkpoint_throws checkpoint (length input) of
       Some e \<Rightarrow> Inl e
     | None \<Rightarrow> Inr (sha256_spec input))"
proof (cases "(2 ^ 64 - 1) div 8 < length input")
  case False
  let ?n = "length input" and ?q = "length input div 64"
  have loop: "full_blocks checkpoint input 0 initial_state = (case checkpoint_throws checkpoint ?n of
      Some e \<Rightarrow> Inl e
    | None \<Rightarrow> Inr (drop (64 * ?q) input, 64 * ?q, foldl process_block initial_state (blocks ?q input)))"
    by (simp only: full_blocks_result checkpoint_throws_def checked_offsets_def add_0)
  show ?thesis
    using False unfolding sha256_def UINT64_limit loop sha256_spec_blocks [OF False]
    by (cases "checkpoint_throws checkpoint ?n")
      (simp_all only: option.case sum.case prod.case Let_def if_False)
qed (simp add: sha256_def UINT64_limit)

end
