(* ===== verification/Completion_Event_Pool.thy ===== *)
theory Completion_Event_Pool
  imports Retirement "HOL-Library.Sublist"
begin

text \<open>
  Model of \<open>src/exl3/request_completion_event_pool.h\<close>: the four precreated completion events of a
  request, handed out as generation-stamped tickets. A ticket goes from \<open>acquire\<close> through \<open>submit\<close>
  and the notification of its native event to \<open>retire\<close>; \<open>cancel\<close> shortens the way. Each slot holds an
  \<open>Exl3FinalUseWitness\<close> of \<open>Retirement\<close>.

  The state is the record \<open>event_pool\<close>; a pointer to a slot is its index. \<open>configure\<close> and \<open>submit\<close> may
  write before they throw, so they return the pool in both cases. \<open>pool_inv\<close> is the invariant of all
  calls (interpretation of \<open>generation_system\<close>); \<open>ticket_life\<close> is what the calls since an acquisition
  say about the slot of the ticket.
\<close>

section \<open>State\<close>

definition pool_capacity :: nat where
  "pool_capacity = 4"

datatype pool_phase = PUnavailable | PRetired | PAcquired | PPending | PReady | PFailed

record pool_ticket =
  tk_slot :: nat
  tk_authority_generation :: u64
  tk_generation :: u64
  tk_acquisition :: u64
  tk_execution :: u64
  tk_retirement_generation :: u64
  tk_event :: u64

record pool_slot =
  sl_final_use :: final_use
  sl_owner :: void_ptr
  sl_generation :: u64
  sl_acquisition :: u64
  sl_execution :: u64
  sl_retirement_generation :: u64
  sl_final_use_generation :: u64
  sl_event :: u64
  sl_phase :: pool_phase
  sl_cancelled :: bool

definition slot_init :: pool_slot where
  "slot_init = \<lparr>sl_final_use = final_use_init, sl_owner = Null, sl_generation = 0, sl_acquisition = 0,
     sl_execution = 0, sl_retirement_generation = 0, sl_final_use_generation = 0, sl_event = 0,
     sl_phase = PUnavailable, sl_cancelled = False\<rparr>"

record event_pool =
  pl_slots :: "pool_slot list"
  pl_configured :: nat
  pl_authority_generation :: u64
  pl_next_generation :: u64

definition pool_init :: event_pool where
  "pool_init = \<lparr>pl_slots = replicate pool_capacity slot_init, pl_configured = 0,
     pl_authority_generation = 0, pl_next_generation = 0\<rparr>"

definition update_slot :: "nat \<Rightarrow> (pool_slot \<Rightarrow> pool_slot) \<Rightarrow> event_pool \<Rightarrow> event_pool" where
  "update_slot i f p = p\<lparr>pl_slots := (pl_slots p)[i := f (pl_slots p ! i)]\<rparr>"

definition active_slots :: "event_pool \<Rightarrow> pool_slot list" where
  "active_slots p = take (pl_configured p) (pl_slots p)"

section \<open>Looking up a slot\<close>

definition same_ticket :: "pool_ticket \<Rightarrow> event_pool \<Rightarrow> bool" where
  "same_ticket t p =
     (let s = pl_slots p ! tk_slot t in
      tk_authority_generation t = pl_authority_generation p \<and> sl_generation s = tk_generation t \<and>
      sl_event s = tk_event t \<and> sl_acquisition s = tk_acquisition t \<and>
      sl_execution s = tk_execution t \<and> sl_retirement_generation s = tk_retirement_generation t)"

definition pool_match_any :: "pool_ticket \<Rightarrow> event_pool \<Rightarrow> nat option" where
  "pool_match_any t p =
     (if pl_configured p \<le> tk_slot t then None
      else if same_ticket t p then Some (tk_slot t) else None)"

definition pool_match :: "pool_ticket \<Rightarrow> pool_phase \<Rightarrow> event_pool \<Rightarrow> nat option" where
  "pool_match t phase p =
     (if pl_configured p \<le> tk_slot t then None
      else if same_ticket t p \<and> sl_phase (pl_slots p ! tk_slot t) = phase then Some (tk_slot t)
      else None)"

definition pool_find :: "u64 \<Rightarrow> event_pool \<Rightarrow> nat option" where
  "pool_find generation p = find_index (\<lambda>s. sl_generation s = generation) (active_slots p)"

section \<open>Operations\<close>

definition retire_slot :: "pool_slot \<Rightarrow> pool_slot" where
  "retire_slot s = s\<lparr>sl_owner := Null, sl_cancelled := False, sl_phase := PRetired\<rparr>"

fun configure_slots :: "u64 list \<Rightarrow> u64 list \<Rightarrow> pool_slot list \<Rightarrow> (exn + unit) \<times> pool_slot list" where
  "configure_slots before [] slots = (Inr (), slots)"
| "configure_slots before (e # es) slots =
     (if e = 0 then (Inl Invalid_argument, slots)
      else if e \<in> set before then (Inl Invalid_argument, slots)
      else configure_slots (before @ [e]) es
        (slots[length before := (slots ! length before)\<lparr>sl_event := e, sl_phase := PRetired\<rparr>]))"

definition pool_configure :: "u64 list \<Rightarrow> u64 \<Rightarrow> event_pool \<Rightarrow> (exn + unit) \<times> event_pool" where
  "pool_configure events authority p =
     (if pl_configured p \<noteq> 0 \<or> events = [] \<or> pool_capacity < length events \<or> authority = 0
      then (Inl Invalid_argument, p)
      else case configure_slots [] events (pl_slots p) of
        (Inl e, slots) \<Rightarrow> (Inl e, p\<lparr>pl_slots := slots\<rparr>)
      | (Inr u, slots) \<Rightarrow> (Inr u, p\<lparr>pl_slots := slots, pl_configured := length events,
          pl_authority_generation := authority\<rparr>))"

definition acquired_slot :: "u64 \<Rightarrow> u64 \<Rightarrow> u64 \<Rightarrow> void_ptr \<Rightarrow> u64 \<Rightarrow> pool_slot \<Rightarrow> pool_slot" where
  "acquired_slot acquisition execution retirement_generation owner generation s =
     s\<lparr>sl_owner := owner, sl_acquisition := acquisition, sl_execution := execution,
       sl_retirement_generation := retirement_generation, sl_cancelled := False,
       sl_generation := generation, sl_final_use_generation := 0, sl_final_use := final_use_init,
       sl_phase := PAcquired\<rparr>"

definition pool_acquire ::
    "u64 \<Rightarrow> u64 \<Rightarrow> u64 \<Rightarrow> void_ptr \<Rightarrow> event_pool \<Rightarrow> exn + (pool_ticket option \<times> event_pool)" where
  "pool_acquire acquisition execution retirement_generation owner p =
     (if pl_configured p = 0 \<or> pl_authority_generation p = 0 \<or> acquisition = 0 \<or> execution = 0 \<or>
         retirement_generation = 0 \<or> \<not> non_null owner
      then Inl Invalid_argument
      else if pl_next_generation p = UINT64_MAX then Inl Overflow_error
      else case find_index (\<lambda>s. sl_phase s = PRetired) (active_slots p) of
        None \<Rightarrow> Inr (None, p)
      | Some i \<Rightarrow>
          let generation = pl_next_generation p + 1;
              p' = update_slot i
                (acquired_slot acquisition execution retirement_generation owner generation) p
          in Inr (Some \<lparr>tk_slot = i, tk_authority_generation = pl_authority_generation p,
                   tk_generation = generation, tk_acquisition = acquisition,
                   tk_execution = execution, tk_retirement_generation = retirement_generation,
                   tk_event = sl_event (pl_slots p ! i)\<rparr>,
               p'\<lparr>pl_next_generation := generation\<rparr>))"

definition pool_submit :: "pool_ticket \<Rightarrow> event_pool \<Rightarrow> (exn + bool) \<times> event_pool" where
  "pool_submit t p =
     (case pool_match t PAcquired p of None \<Rightarrow> (Inr False, p)
      | Some i \<Rightarrow>
          let s = pl_slots p ! i in
          case final_use_begin (sl_acquisition s) (sl_execution s) (sl_event s) (sl_final_use s) of
            Inl e \<Rightarrow> (Inl e, update_slot i (\<lambda>s. s\<lparr>sl_phase := PFailed\<rparr>) p)
          | Inr (g, w) \<Rightarrow> (Inr True, update_slot i
              (\<lambda>s. s\<lparr>sl_final_use := w, sl_final_use_generation := g, sl_phase := PPending\<rparr>) p))"

definition notified_slot :: "int \<Rightarrow> pool_slot \<Rightarrow> pool_slot" where
  "notified_slot error s =
     (if error \<noteq> 0 then s\<lparr>sl_phase := PFailed\<rparr>
      else if sl_cancelled s then retire_slot s
      else s\<lparr>sl_phase := PReady\<rparr>)"

definition pool_notify :: "pool_ticket \<Rightarrow> u64 \<Rightarrow> int \<Rightarrow> event_pool \<Rightarrow> bool \<times> event_pool" where
  "pool_notify t event error p =
     (case pool_match t PPending p of None \<Rightarrow> (False, p)
      | Some i \<Rightarrow>
          let s = pl_slots p ! i in
          if event \<noteq> sl_event s then (False, p)
          else case final_use_finish (sl_final_use_generation s) error (sl_final_use s) of
            (False, w) \<Rightarrow> (False, update_slot i (\<lambda>s. s\<lparr>sl_final_use := w\<rparr>) p)
          | (True, w) \<Rightarrow> (error = 0,
              update_slot i (\<lambda>s. notified_slot error (s\<lparr>sl_final_use := w\<rparr>)) p))"

definition pool_cancel :: "pool_ticket \<Rightarrow> event_pool \<Rightarrow> bool \<times> event_pool" where
  "pool_cancel t p =
     (case pool_match_any t p of None \<Rightarrow> (False, p)
      | Some i \<Rightarrow>
          (case sl_phase (pl_slots p ! i) of
             PAcquired \<Rightarrow> (True, update_slot i retire_slot p)
           | PPending \<Rightarrow> (True, update_slot i (\<lambda>s. s\<lparr>sl_cancelled := True\<rparr>) p)
           | PReady \<Rightarrow> (True, update_slot i retire_slot p)
           | _ \<Rightarrow> (False, p)))"

definition pool_retire :: "u64 \<Rightarrow> event_pool \<Rightarrow> bool \<times> event_pool" where
  "pool_retire generation p =
     (case pool_find generation p of None \<Rightarrow> (False, p)
      | Some i \<Rightarrow>
          let s = pl_slots p ! i in
          if sl_phase s \<noteq> PReady \<or>
             \<not> final_use_matches (sl_acquisition s) (sl_execution s) (sl_final_use_generation s)
                 (sl_final_use s)
          then (False, p)
          else (True, update_slot i retire_slot p))"

definition pool_matches :: "u64 \<Rightarrow> u64 \<Rightarrow> u64 \<Rightarrow> u64 \<Rightarrow> u64 \<Rightarrow> event_pool \<Rightarrow> bool" where
  "pool_matches authority acquisition execution retirement_generation generation p =
     (case pool_find generation p of None \<Rightarrow> False
      | Some i \<Rightarrow>
          let s = pl_slots p ! i in
          sl_phase s = PReady \<and> authority = pl_authority_generation p \<and>
          sl_acquisition s = acquisition \<and> sl_execution s = execution \<and>
          sl_retirement_generation s = retirement_generation \<and>
          final_use_matches acquisition execution (sl_final_use_generation s) (sl_final_use s))"

definition pool_event :: "u64 \<Rightarrow> event_pool \<Rightarrow> u64" where
  "pool_event generation p =
     (case pool_find generation p of None \<Rightarrow> 0 | Some i \<Rightarrow> sl_event (pl_slots p ! i))"

definition retire_all_after_device_drain :: "event_pool \<Rightarrow> event_pool" where
  "retire_all_after_device_drain p =
     fold (\<lambda>i. update_slot i (\<lambda>s.
         if sl_phase s \<noteq> PUnavailable then s\<lparr>sl_owner := Null, sl_phase := PRetired\<rparr>
         else s\<lparr>sl_owner := Null\<rparr>))
       [0 ..< pl_configured p] p"

definition exhaust_generation_for_test :: "event_pool \<Rightarrow> event_pool" where
  "exhaust_generation_for_test p = p\<lparr>pl_next_generation := UINT64_MAX\<rparr>"

section \<open>Snapshots\<close>

record pool_snapshot =
  sn_phase :: pool_phase
  sn_authority_generation :: u64
  sn_generation :: u64
  sn_acquisition :: u64
  sn_execution :: u64
  sn_retirement_generation :: u64
  sn_final_use_generation :: u64
  sn_event :: u64
  sn_cancelled :: bool
  sn_first_error :: int

definition empty_snapshot :: pool_snapshot where
  "empty_snapshot = \<lparr>sn_phase = PUnavailable, sn_authority_generation = 0, sn_generation = 0,
     sn_acquisition = 0, sn_execution = 0, sn_retirement_generation = 0,
     sn_final_use_generation = 0, sn_event = 0, sn_cancelled = False, sn_first_error = 0\<rparr>"

definition snapshot_of :: "u64 \<Rightarrow> pool_slot \<Rightarrow> pool_snapshot" where
  "snapshot_of authority s = \<lparr>sn_phase = sl_phase s, sn_authority_generation = authority,
     sn_generation = sl_generation s, sn_acquisition = sl_acquisition s,
     sn_execution = sl_execution s, sn_retirement_generation = sl_retirement_generation s,
     sn_final_use_generation = sl_final_use_generation s, sn_event = sl_event s,
     sn_cancelled = sl_cancelled s, sn_first_error = fu_error (sl_final_use s)\<rparr>"

definition pool_snapshot_at :: "nat \<Rightarrow> event_pool \<Rightarrow> pool_snapshot" where
  "pool_snapshot_at index p =
     (if pl_configured p \<le> index then empty_snapshot
      else snapshot_of (pl_authority_generation p) (pl_slots p ! index))"

definition later_slot :: "pool_slot \<Rightarrow> pool_slot \<Rightarrow> bool" where
  "later_slot a b \<longleftrightarrow> sl_generation b < sl_generation a"

definition latest_snapshot :: "event_pool \<Rightarrow> pool_snapshot" where
  "latest_snapshot p =
     (case fold (select_step (\<lambda>_. True) later_slot) (active_slots p) None of
        None \<Rightarrow> empty_snapshot
      | Some s \<Rightarrow> snapshot_of (pl_authority_generation p) s)"

definition pool_first_error :: "event_pool \<Rightarrow> int" where
  "pool_first_error p =
     fold (\<lambda>s result. if result = 0 then fu_error (sl_final_use s) else result) (active_slots p) 0"

section \<open>Sequences of calls\<close>

datatype pool_call =
    CConfigure "u64 list" u64
  | CAcquire u64 u64 u64 void_ptr
  | CSubmit pool_ticket
  | CNotify pool_ticket u64 int
  | CCancel pool_ticket
  | CRetire u64
  | CDrain
  | CExhaust

fun pool_step :: "pool_call \<Rightarrow> event_pool \<Rightarrow> event_pool" where
  "pool_step (CConfigure es a) p = snd (pool_configure es a p)"
| "pool_step (CAcquire a x r owner) p = after p (map_sum id snd (pool_acquire a x r owner p))"
| "pool_step (CSubmit t) p = snd (pool_submit t p)"
| "pool_step (CNotify t e err) p = snd (pool_notify t e err p)"
| "pool_step (CCancel t) p = snd (pool_cancel t p)"
| "pool_step (CRetire g) p = snd (pool_retire g p)"
| "pool_step CDrain p = retire_all_after_device_drain p"
| "pool_step CExhaust p = exhaust_generation_for_test p"


lemma update_slot_simps [simp]:
  "pl_slots (update_slot i f p) = (pl_slots p)[i := f (pl_slots p ! i)]"
  "pl_configured (update_slot i f p) = pl_configured p"
  "pl_authority_generation (update_slot i f p) = pl_authority_generation p"
  "pl_next_generation (update_slot i f p) = pl_next_generation p"
  by (simp_all add: update_slot_def)

lemma retire_slot_simps [simp]:
  "sl_generation (retire_slot s) = sl_generation s" "sl_event (retire_slot s) = sl_event s"
  "sl_acquisition (retire_slot s) = sl_acquisition s"
  "sl_execution (retire_slot s) = sl_execution s"
  "sl_retirement_generation (retire_slot s) = sl_retirement_generation s"
  "sl_phase (retire_slot s) = PRetired"
  by (simp_all add: retire_slot_def)

lemma pool_match_Some:
  "pool_match t phase p = Some i \<longleftrightarrow>
     i = tk_slot t \<and> i < pl_configured p \<and> same_ticket t p \<and> sl_phase (pl_slots p ! i) = phase"
  by (auto simp: pool_match_def)

lemma pool_match_any_Some:
  "pool_match_any t p = Some i \<longleftrightarrow> i = tk_slot t \<and> i < pl_configured p \<and> same_ticket t p"
  by (auto simp: pool_match_any_def)

lemma pool_find_SomeD:
  assumes "pool_find g p = Some i"
  shows "i < pl_configured p" "i < length (pl_slots p)" "sl_generation (pl_slots p ! i) = g"
  using find_index_SomeD [OF assms [unfolded pool_find_def]] by (simp_all add: active_slots_def)

text \<open>Two tickets that match the same slot are the same ticket.\<close>

lemma same_ticket_eq:
  assumes "same_ticket t p" "same_ticket u p" "tk_slot t = tk_slot u"
  shows "t = u"
  using assms by (simp add: same_ticket_def Let_def)

section \<open>Invariant\<close>

text \<open>The witness of a submitted slot, before its native event completed.\<close>

definition begun_use :: "pool_slot \<Rightarrow> final_use" where
  "begun_use s = \<lparr>fu_acquisition = sl_acquisition s, fu_execution = sl_execution s,
     fu_generation = 1, fu_event = sl_event s, fu_ready = False, fu_error = 0\<rparr>"

definition use_ok :: "pool_slot \<Rightarrow> bool" where
  "use_ok s =
     (case sl_phase s of
        PAcquired \<Rightarrow> sl_final_use s = final_use_init \<and> sl_acquisition s \<noteq> 0 \<and>
          sl_execution s \<noteq> 0 \<and> \<not> sl_cancelled s
      | PPending \<Rightarrow> sl_final_use_generation s = 1 \<and> sl_final_use s = begun_use s
      | PReady \<Rightarrow> sl_final_use_generation s = 1 \<and>
          sl_final_use s = (begun_use s)\<lparr>fu_ready := True\<rparr> \<and> \<not> sl_cancelled s
      | PFailed \<Rightarrow> fu_error (sl_final_use s) \<noteq> 0
      | _ \<Rightarrow> True)"

definition slot_ok :: "u64 \<Rightarrow> pool_slot \<Rightarrow> bool" where
  "slot_ok n s \<longleftrightarrow> sl_generation s \<le> n \<and>
     (sl_generation s = 0 \<longrightarrow> sl_phase s = PUnavailable \<or> sl_phase s = PRetired) \<and>
     (sl_phase s \<noteq> PUnavailable \<longrightarrow> sl_event s \<noteq> 0) \<and> use_ok s"

definition pool_inv :: "event_pool \<Rightarrow> bool" where
  "pool_inv p \<longleftrightarrow>
     length (pl_slots p) = pool_capacity \<and> pl_configured p \<le> pool_capacity \<and>
     (\<forall>s \<in> set (pl_slots p). slot_ok (pl_next_generation p) s) \<and>
     unique_keys sl_generation (pl_slots p) \<and>
     (pl_configured p = 0 \<longrightarrow> (\<forall>s \<in> set (pl_slots p). sl_generation s = 0)) \<and>
     (\<forall>s \<in> set (active_slots p). sl_phase s \<noteq> PUnavailable) \<and>
     distinct (map sl_event (active_slots p))"

lemma pool_init_inv: "pool_inv pool_init"
  by (simp add: pool_inv_def pool_init_def slot_init_def slot_ok_def use_ok_def active_slots_def
      unique_keys_def)

lemma pool_invD:
  assumes "pool_inv p"
  shows "length (pl_slots p) = pool_capacity" "pl_configured p \<le> pool_capacity"
    and "i < pl_configured p \<Longrightarrow> slot_ok (pl_next_generation p) (pl_slots p ! i)"
    and "i < pl_configured p \<Longrightarrow> i < length (pl_slots p)"
    and "i < pl_configured p \<Longrightarrow> sl_phase (pl_slots p ! i) \<noteq> PUnavailable"
  using assms unfolding pool_inv_def active_slots_def by (simp_all add: all_set_conv_all_nth)

text \<open>Rewriting one slot without touching its generation and event.\<close>

lemma pool_inv_update:
  assumes "pool_inv p" "i < pl_configured p"
    and "sl_generation (f (pl_slots p ! i)) = sl_generation (pl_slots p ! i)"
    and "sl_event (f (pl_slots p ! i)) = sl_event (pl_slots p ! i)"
    and "sl_phase (f (pl_slots p ! i)) \<noteq> PUnavailable"
    and "slot_ok (pl_next_generation p) (f (pl_slots p ! i))"
  shows "pool_inv (update_slot i f p)"
proof -
  have keys: "unique_keys sl_generation ((pl_slots p)[i := f (pl_slots p ! i)])"
    using assms(1,3) by (intro unique_keys_update) (simp_all add: pool_inv_def)
  have "map sl_event ((pl_slots p)[i := f (pl_slots p ! i)]) = map sl_event (pl_slots p)"
    using assms(4) pool_invD(4) [OF assms(1,2)] by (simp add: map_update list_update_same_conv)
  then have "map sl_event (active_slots (update_slot i f p)) = map sl_event (active_slots p)"
    by (simp add: active_slots_def flip: take_map)
  moreover have "\<forall>s \<in> set (active_slots (update_slot i f p)). sl_phase s \<noteq> PUnavailable"
    using assms(1,5) pool_invD(4) [OF assms(1,2)] unfolding pool_inv_def
    by (auto simp: active_slots_def take_update_swap dest!: set_update_subset_insert [THEN subsetD])
  ultimately show ?thesis
    using assms(1,2,6) keys unfolding pool_inv_def
    by (auto dest!: set_update_subset_insert [THEN subsetD])
qed

subsection \<open>What the calls do on a matching slot\<close>

lemma pool_submit_matched:
  assumes "pool_inv p" "pool_match t PAcquired p = Some i"
  shows "pool_submit t p = (Inr True, update_slot i (\<lambda>s. s\<lparr>sl_final_use := begun_use s,
     sl_final_use_generation := 1, sl_phase := PPending\<rparr>) p)"
proof -
  have i: "i < pl_configured p" "sl_phase (pl_slots p ! i) = PAcquired"
    using assms(2) by (auto simp: pool_match_Some)
  have "slot_ok (pl_next_generation p) (pl_slots p ! i)"
    by (rule pool_invD(3) [OF assms(1) i(1)])
  then have "final_use_begin (sl_acquisition (pl_slots p ! i)) (sl_execution (pl_slots p ! i))
      (sl_event (pl_slots p ! i)) (sl_final_use (pl_slots p ! i)) = Inr (1, begun_use (pl_slots p ! i))"
    using i(2) by (simp add: slot_ok_def use_ok_def final_use_begin_def final_use_init_def begun_use_def)
  then show ?thesis
    using assms(2) by (simp add: pool_submit_def update_slot_def Let_def)
qed

lemma pool_notify_matched:
  assumes "pool_inv p" "pool_match t PPending p = Some i"
  shows "pool_notify t e error p =
     (if e \<noteq> tk_event t then (False, p)
      else (error = 0, update_slot i (\<lambda>s. notified_slot error (s\<lparr>sl_final_use :=
        if error \<noteq> 0 then (begun_use s)\<lparr>fu_error := error\<rparr> else (begun_use s)\<lparr>fu_ready := True\<rparr>\<rparr>)) p))"
proof -
  have i: "i < pl_configured p" "sl_phase (pl_slots p ! i) = PPending"
      "sl_event (pl_slots p ! i) = tk_event t"
    using assms(2) by (auto simp: pool_match_Some same_ticket_def Let_def)
  have "slot_ok (pl_next_generation p) (pl_slots p ! i)"
    by (rule pool_invD(3) [OF assms(1) i(1)])
  then have u: "sl_final_use_generation (pl_slots p ! i) = 1"
      "sl_final_use (pl_slots p ! i) = begun_use (pl_slots p ! i)"
    using i(2) by (simp_all add: slot_ok_def use_ok_def)
  have "final_use_finish 1 error (begun_use (pl_slots p ! i)) = (True,
      if error \<noteq> 0 then (begun_use (pl_slots p ! i))\<lparr>fu_error := error\<rparr>
      else (begun_use (pl_slots p ! i))\<lparr>fu_ready := True\<rparr>)"
    by (simp add: final_use_finish_def begun_use_def)
  then show ?thesis
    using assms(2) i(3) u by (simp add: pool_notify_def update_slot_def Let_def)
qed

lemma pool_retire_found:
  assumes "pool_inv p" "pool_find g p = Some i"
  shows "pool_retire g p =
     (if sl_phase (pl_slots p ! i) = PReady then (True, update_slot i retire_slot p) else (False, p))"
proof (cases "sl_phase (pl_slots p ! i) = PReady")
  case True
  have "slot_ok (pl_next_generation p) (pl_slots p ! i)"
    using pool_invD(3) [OF assms(1)] pool_find_SomeD(1) [OF assms(2)] by simp
  then show ?thesis
    using True assms(2)
    by (simp add: pool_retire_def slot_ok_def use_ok_def final_use_matches_def begun_use_def)
qed (use assms(2) in \<open>simp add: pool_retire_def\<close>)

text \<open>In every reachable state \<open>submit\<close> does not throw: the handler that marks the slot failed is unused.\<close>

lemma pool_submit_never_throws: "pool_inv p \<Longrightarrow> ok (fst (pool_submit t p))"
  by (cases "pool_match t PAcquired p") (simp_all add: pool_submit_matched, simp add: pool_submit_def)


subsection \<open>Every call keeps the invariant\<close>

lemma pool_submit_inv: "pool_inv p \<Longrightarrow> pool_inv (snd (pool_submit t p))"
proof (cases "pool_match t PAcquired p")
  case (Some i)
  assume inv: "pool_inv p"
  have i: "i < pl_configured p" "sl_phase (pl_slots p ! i) = PAcquired"
    using Some by (auto simp: pool_match_Some)
  show ?thesis
    unfolding pool_submit_matched [OF inv Some] snd_conv
    using pool_invD(3) [OF inv i(1)] i
    by (intro pool_inv_update [OF inv]) (simp_all add: slot_ok_def use_ok_def begun_use_def)
qed (simp add: pool_submit_def)

lemma notify_inv: "pool_inv p \<Longrightarrow> pool_inv (snd (pool_notify t e error p))"
proof (cases "pool_match t PPending p")
  case (Some i)
  assume inv: "pool_inv p"
  have i: "i < pl_configured p" "sl_phase (pl_slots p ! i) = PPending"
    using Some by (auto simp: pool_match_Some)
  have "pool_inv (update_slot i (\<lambda>s. notified_slot error (s\<lparr>sl_final_use := if error \<noteq> 0
      then (begun_use s)\<lparr>fu_error := error\<rparr> else (begun_use s)\<lparr>fu_ready := True\<rparr>\<rparr>)) p)"
    using pool_invD(3) [OF inv i(1)] i
    by (intro pool_inv_update [OF inv])
      (auto simp: slot_ok_def use_ok_def begun_use_def notified_slot_def)
  then show ?thesis
    by (simp add: pool_notify_matched [OF inv Some] inv)
qed (simp add: pool_notify_def)

lemma retired_inv:
  assumes "pool_inv p" "i < pl_configured p"
  shows "pool_inv (update_slot i retire_slot p)"
  using pool_invD(3,5) [OF assms] assms(2)
  by (intro pool_inv_update [OF assms(1)]) (auto simp: slot_ok_def use_ok_def)

lemma cancel_inv: "pool_inv p \<Longrightarrow> pool_inv (snd (pool_cancel t p))"
proof (cases "pool_match_any t p")
  case (Some i)
  assume inv: "pool_inv p"
  have i: "i < pl_configured p"
    using Some by (auto simp: pool_match_any_Some)
  have "pool_inv (update_slot i (\<lambda>s. s\<lparr>sl_cancelled := True\<rparr>) p)"
    if "sl_phase (pl_slots p ! i) = PPending"
    using pool_invD(3) [OF inv i] i that
    by (intro pool_inv_update [OF inv]) (auto simp: slot_ok_def use_ok_def begun_use_def)
  then show ?thesis
    using Some inv retired_inv [OF inv i] by (auto simp: pool_cancel_def split: pool_phase.split)
qed (simp add: pool_cancel_def)

lemma pool_retire_inv: "pool_inv p \<Longrightarrow> pool_inv (snd (pool_retire g p))"
proof (cases "pool_find g p")
  case (Some i)
  assume inv: "pool_inv p"
  show ?thesis
    using retired_inv [OF inv pool_find_SomeD(1) [OF Some]] inv
    by (simp add: pool_retire_found [OF inv Some])
qed (simp add: pool_retire_def)

lemma fold_update_slot:
  "fold (\<lambda>i. update_slot i f) is p =
     p\<lparr>pl_slots := fold (\<lambda>i xs. xs[i := f (xs ! i)]) is (pl_slots p)\<rparr>"
  by (induction "is" arbitrary: p) (simp_all add: update_slot_def)

definition drained_slot :: "pool_slot \<Rightarrow> pool_slot" where
  "drained_slot s = (if sl_phase s \<noteq> PUnavailable then s\<lparr>sl_owner := Null, sl_phase := PRetired\<rparr>
     else s\<lparr>sl_owner := Null\<rparr>)"

lemma drain_slots:
  assumes "pool_inv p"
  shows "retire_all_after_device_drain p = p\<lparr>pl_slots := pl_slots (retire_all_after_device_drain p)\<rparr>"
    and "length (pl_slots (retire_all_after_device_drain p)) = pool_capacity"
    and "i < pool_capacity \<Longrightarrow> pl_slots (retire_all_after_device_drain p) ! i =
      (if i < pl_configured p then drained_slot (pl_slots p ! i) else pl_slots p ! i)"
  using pool_invD(1) [OF assms]
  unfolding retire_all_after_device_drain_def fold_update_slot drained_slot_def [symmetric]
  by (simp_all add: fold_update_nth [where f = "\<lambda>_. drained_slot"]
      fold_update_length [where f = "\<lambda>_. drained_slot"])

lemma drained_slot_simps [simp]:
  "sl_generation (drained_slot s) = sl_generation s" "sl_event (drained_slot s) = sl_event s"
  "sl_acquisition (drained_slot s) = sl_acquisition s"
  "sl_execution (drained_slot s) = sl_execution s"
  "sl_retirement_generation (drained_slot s) = sl_retirement_generation s"
  "sl_phase (drained_slot s) = (if sl_phase s = PUnavailable then PUnavailable else PRetired)"
  by (simp_all add: drained_slot_def)

lemma drain_inv:
  assumes "pool_inv p"
  shows "pool_inv (retire_all_after_device_drain p)"
proof -
  define q where "q = retire_all_after_device_drain p"
  note d = drain_slots [OF assms, folded q_def]
  note inv = assms [unfolded pool_inv_def]
  have same: "map g (pl_slots q) = map g (pl_slots p)"
    if "\<And>s. g (drained_slot s) = g s" for g :: "pool_slot \<Rightarrow> u64"
    using d(2,3) inv that by (intro nth_equalityI) simp_all
  have fields: "pl_configured q = pl_configured p" "pl_next_generation q = pl_next_generation p"
    using arg_cong [OF d(1), of pl_configured] arg_cong [OF d(1), of pl_next_generation] by simp_all
  have "slot_ok n (drained_slot s)" if "slot_ok n s" for n s
    using that by (auto simp: slot_ok_def use_ok_def)
  then have ok: "\<forall>s \<in> set (pl_slots q). slot_ok (pl_next_generation q) s"
    using inv d(2,3) by (simp add: all_set_conv_all_nth fields)
  have gens: "sl_generation (pl_slots q ! i) = sl_generation (pl_slots p ! i)" if "i < pool_capacity" for i
    using d(3) [OF that] by simp
  have "unique_keys sl_generation (pl_slots q)"
      "pl_configured q = 0 \<longrightarrow> (\<forall>s \<in> set (pl_slots q). sl_generation s = 0)"
    using inv d(2) gens by (auto simp: unique_keys_def fields all_set_conv_all_nth)
  moreover have "distinct (map sl_event (active_slots q))"
    using inv by (simp add: active_slots_def fields same flip: take_map)
  moreover have "\<forall>s \<in> set (active_slots q). sl_phase s \<noteq> PUnavailable"
    using inv d(2,3) by (simp add: active_slots_def fields all_set_conv_all_nth)
  ultimately show ?thesis
    using ok inv d(2) unfolding q_def [symmetric] by (simp add: pool_inv_def fields)
qed


lemma configure_slots_ok:
  assumes "configure_slots before es slots = (r, slots')" "length before + length es \<le> length slots"
    and "\<forall>s \<in> set slots. slot_ok n s \<and> sl_generation s = 0" "map sl_event (take (length before) slots) = before"
    and "\<forall>s \<in> set (take (length before) slots). sl_phase s \<noteq> PUnavailable" "distinct before"
  shows "length slots' = length slots \<and> (\<forall>s \<in> set slots'. slot_ok n s \<and> sl_generation s = 0) \<and>
    (ok r \<longrightarrow> map sl_event (take (length before + length es) slots') = before @ es \<and>
      distinct (before @ es) \<and> (\<forall>s \<in> set (take (length before + length es) slots'). sl_phase s \<noteq> PUnavailable))"
  using assms
proof (induction before es slots rule: configure_slots.induct)
  case (2 before e es slots)
  show ?case
  proof (cases "e = 0 \<or> e \<in> set before")
    case True
    then have "r = Inl Invalid_argument" "slots' = slots"
      using "2.prems"(1) by (auto split: if_splits)
    then show ?thesis
      using "2.prems" by simp
  next
    case False
    define next_slots where "next_slots =
      slots[length before := (slots ! length before)\<lparr>sl_event := e, sl_phase := PRetired\<rparr>]"
    have lt: "length before < length slots"
      using "2.prems"(2) by simp
    have "slot_ok n (s\<lparr>sl_event := e, sl_phase := PRetired\<rparr>)" if "slot_ok n s" for s
      using that False by (simp add: slot_ok_def use_ok_def)
    then have "\<forall>s \<in> set next_slots. slot_ok n s \<and> sl_generation s = 0"
      using "2.prems"(3) lt unfolding next_slots_def
      by (auto dest!: set_update_subset_insert [THEN subsetD])
    moreover have take: "take (Suc (length before)) next_slots =
        take (length before) slots @ [(slots ! length before)\<lparr>sl_event := e, sl_phase := PRetired\<rparr>]"
      using lt by (simp add: next_slots_def take_Suc_conv_app_nth)
    moreover have "configure_slots (before @ [e]) es next_slots = (r, slots')"
      using "2.prems"(1) False by (simp add: next_slots_def)
    moreover have "length next_slots = length slots"
      by (simp add: next_slots_def)
    ultimately show ?thesis
      using "2.IH" [folded next_slots_def] "2.prems" False by auto
  qed
qed auto

lemma configure_inv:
  assumes "pool_inv p"
  shows "pool_inv (snd (pool_configure es a p))"
proof (cases "pl_configured p \<noteq> 0 \<or> es = [] \<or> pool_capacity < length es \<or> a = 0")
  case False
  obtain r slots where c: "configure_slots [] es (pl_slots p) = (r, slots)"
    by (cases "configure_slots [] es (pl_slots p)")
  note loop = configure_slots_ok [OF c, of "pl_next_generation p"]
  have zero: "unique_keys sl_generation slots" if "\<forall>s \<in> set slots. sl_generation s = 0"
    using that by (simp add: unique_keys_def)
  show ?thesis
    using False loop zero c assms
    by (cases r) (auto simp: pool_configure_def pool_inv_def active_slots_def)
qed (use assms in \<open>auto simp: pool_configure_def\<close>)

text \<open>A successful acquisition.\<close>

lemma pool_acquire_Some:
  assumes "pool_acquire a x r owner p = Inr (Some t, p')"
  shows "tk_slot t < pl_configured p" "tk_slot t < length (pl_slots p)"
    "sl_phase (pl_slots p ! tk_slot t) = PRetired"
    "pl_next_generation p \<noteq> UINT64_MAX" "a \<noteq> 0" "x \<noteq> 0"
    "t = \<lparr>tk_slot = tk_slot t, tk_authority_generation = pl_authority_generation p,
       tk_generation = pl_next_generation p + 1, tk_acquisition = a, tk_execution = x,
       tk_retirement_generation = r, tk_event = sl_event (pl_slots p ! tk_slot t)\<rparr>"
    "p' = (update_slot (tk_slot t) (acquired_slot a x r owner (pl_next_generation p + 1)) p)
       \<lparr>pl_next_generation := pl_next_generation p + 1\<rparr>"
  using assms find_index_SomeD [of "\<lambda>s. sl_phase s = PRetired" "active_slots p" "tk_slot t"]
  by (auto simp: pool_acquire_def active_slots_def Let_def split: if_splits option.splits)

lemma acquired_slot_simps [simp]:
  "sl_generation (acquired_slot a x r owner g s) = g"
  "sl_event (acquired_slot a x r owner g s) = sl_event s"
  "sl_acquisition (acquired_slot a x r owner g s) = a"
  "sl_execution (acquired_slot a x r owner g s) = x"
  "sl_retirement_generation (acquired_slot a x r owner g s) = r"
  "sl_phase (acquired_slot a x r owner g s) = PAcquired"
  "sl_cancelled (acquired_slot a x r owner g s) = False"
  "sl_final_use (acquired_slot a x r owner g s) = final_use_init"
  by (simp_all add: acquired_slot_def)

lemma slot_ok_later: "slot_ok n s \<Longrightarrow> n \<le> m \<Longrightarrow> slot_ok m s"
  by (auto simp: slot_ok_def)

lemma acquire_inv:
  assumes inv: "pool_inv p" and acq: "pool_acquire a x r owner p = Inr (Some t, p')"
  shows "pool_inv p'"
proof -
  note A = pool_acquire_Some [OF acq]
  define g where "g = pl_next_generation p + 1"
  define s where "s = acquired_slot a x r owner g (pl_slots p ! tk_slot t)"
  have less: "pl_next_generation p < g" "g \<noteq> 0"
    using word_inc_neq [OF A(4)] by (simp_all add: g_def)
  have "sl_event (pl_slots p ! tk_slot t) \<noteq> 0"
    using pool_invD(3) [OF inv A(1)] A(3) by (simp add: slot_ok_def)
  then have s_ok: "slot_ok g s"
    using A(5,6) less by (simp add: s_def slot_ok_def use_ok_def)
  have ok: "\<forall>s \<in> set (pl_slots p). slot_ok g s"
    using inv less(1) by (auto simp: pool_inv_def intro: slot_ok_later)
  have "sl_generation s \<notin> sl_generation ` set (pl_slots p)"
    using inv less(1) unfolding pool_inv_def by (auto simp: s_def slot_ok_def)
  then have keys: "unique_keys sl_generation ((pl_slots p)[tk_slot t := s])"
    using inv by (intro unique_keys_fresh) (auto simp: pool_inv_def)
  have "map sl_event ((pl_slots p)[tk_slot t := s]) = map sl_event (pl_slots p)"
    using A(2) by (simp add: s_def map_update list_update_same_conv)
  then have events: "map sl_event (take n ((pl_slots p)[tk_slot t := s])) = map sl_event (take n (pl_slots p))" for n
    by (simp flip: take_map)
  have "pl_slots p' = (pl_slots p)[tk_slot t := s]" "pl_configured p' = pl_configured p"
      "pl_next_generation p' = g"
    using A(8) by (simp_all add: s_def g_def)
  moreover have "\<forall>s' \<in> set (take (pl_configured p) ((pl_slots p)[tk_slot t := s])). sl_phase s' \<noteq> PUnavailable"
    using inv by (auto simp: pool_inv_def active_slots_def take_update_swap s_def
        dest!: set_update_subset_insert [THEN subsetD])
  moreover have "\<forall>s' \<in> set ((pl_slots p)[tk_slot t := s]). slot_ok g s'"
    using ok s_ok by (auto dest!: set_update_subset_insert [THEN subsetD])
  ultimately show ?thesis
    using inv keys A(1) events unfolding pool_inv_def active_slots_def by simp
qed

lemma acquire_step_inv: "pool_inv p \<Longrightarrow> pool_inv (pool_step (CAcquire a x r owner) p)"
proof -
  assume inv: "pool_inv p"
  show ?thesis
  proof (cases "pool_acquire a x r owner p")
    case (Inr y)
    then show ?thesis
      using inv acquire_inv [OF inv, of a x r owner]
      by (cases y; cases "fst y") (auto simp: pool_acquire_def Let_def split: if_splits option.splits)
  qed (simp add: inv)
qed

lemma exhaust_inv: "pool_inv p \<Longrightarrow> pool_inv (exhaust_generation_for_test p)"
  by (auto simp: pool_inv_def exhaust_generation_for_test_def active_slots_def slot_ok_def
      word_order.extremum)

lemma pool_step_inv: "pool_inv p \<Longrightarrow> pool_inv (pool_step c p)"
  by (cases c) (simp_all add: configure_inv acquire_step_inv pool_submit_inv notify_inv cancel_inv
      pool_retire_inv drain_inv exhaust_inv del: pool_step.simps(2))


interpretation event_pool: generation_system pool_step pool_inv "\<lambda>p. unat (pl_next_generation p)"
proof unfold_locales
  fix p c assume inv: "pool_inv p"
  then show "pool_inv (pool_step c p)" by (rule pool_step_inv)
  show "unat (pl_next_generation p) \<le> unat (pl_next_generation (pool_step c p))"
  proof (cases c)
    case CConfigure
    then show ?thesis
      by (auto simp: pool_configure_def split: sum.split prod.split)
  next
    case CAcquire
    then show ?thesis
      by (auto simp: pool_acquire_def Let_def unat_inc split: option.split)
  next
    case CDrain
    then show ?thesis
      using arg_cong [OF drain_slots(1) [OF inv], of pl_next_generation] by simp
  next
    case CExhaust
    then show ?thesis
      by (simp add: exhaust_generation_for_test_def word_order.extremum flip: word_le_nat_alt)
  qed (auto simp: pool_submit_def pool_notify_def pool_cancel_def pool_retire_def Let_def
      split: option.split sum.split prod.split bool.split pool_phase.split)
qed

section \<open>The life of a ticket\<close>

text \<open>
  \<open>completed\<close>: the ticket was submitted and after that its own event notified without an error.
  \<open>withdrawn\<close>: it was cancelled before it was submitted. \<open>released\<close>: what has to be among the calls
  since its acquisition for its slot to be free.
\<close>

definition completed :: "pool_ticket \<Rightarrow> pool_call list \<Rightarrow> bool" where
  "completed t ds = subseq [CSubmit t, CNotify t (tk_event t) 0] ds"

definition withdrawn :: "pool_ticket \<Rightarrow> pool_call list \<Rightarrow> bool" where
  "withdrawn t ds \<longleftrightarrow> CCancel t \<in> set (takeWhile (\<lambda>c. c \<noteq> CSubmit t) ds)"

definition released :: "pool_ticket \<Rightarrow> pool_call list \<Rightarrow> bool" where
  "released t ds \<longleftrightarrow> CDrain \<in> set ds \<or> withdrawn t ds \<or>
     completed t ds \<and> (CCancel t \<in> set ds \<or> CRetire (tk_generation t) \<in> set ds)"

definition life_ok :: "pool_ticket \<Rightarrow> pool_call list \<Rightarrow> pool_slot \<Rightarrow> bool" where
  "life_ok t ds s =
     (case sl_phase s of
        PUnavailable \<Rightarrow> False
      | PRetired \<Rightarrow> released t ds
      | PAcquired \<Rightarrow> CSubmit t \<notin> set ds \<and> CCancel t \<notin> set ds
      | PPending \<Rightarrow> CSubmit t \<in> set ds \<and> (CCancel t \<in> set ds \<longleftrightarrow> sl_cancelled s)
      | PReady \<Rightarrow> completed t ds \<and> CCancel t \<notin> set ds
      | PFailed \<Rightarrow> CSubmit t \<in> set ds)"

definition ticket_life :: "pool_ticket \<Rightarrow> pool_call list \<Rightarrow> event_pool \<Rightarrow> bool" where
  "ticket_life t ds p \<longleftrightarrow>
     tk_slot t < pl_configured p \<and> tk_generation t \<noteq> 0 \<and> tk_generation t \<le> pl_next_generation p \<and>
     (\<forall>i < length (pl_slots p). i \<noteq> tk_slot t \<longrightarrow> sl_generation (pl_slots p ! i) \<noteq> tk_generation t) \<and>
     (if sl_generation (pl_slots p ! tk_slot t) = tk_generation t
      then same_ticket t p \<and> life_ok t ds (pl_slots p ! tk_slot t)
      else released t ds)"

lemma completed_mono: "completed t ds \<Longrightarrow> completed t (ds @ [c])"
  unfolding completed_def by (rule subseq_rev_drop_many)

lemma completed_now: "CSubmit t \<in> set ds \<Longrightarrow> completed t (ds @ [CNotify t (tk_event t) 0])"
  using list_emb_append_mono [of "(=)" "[CSubmit t]" ds "[CNotify t (tk_event t) 0]"
      "[CNotify t (tk_event t) 0]"]
  by (simp add: completed_def subseq_singleton_left)

lemma withdrawn_mono: "withdrawn t ds \<Longrightarrow> withdrawn t (ds @ [c])"
  by (induction ds) (auto simp: withdrawn_def)

lemma withdrawn_now: "CSubmit t \<notin> set ds \<Longrightarrow> withdrawn t (ds @ [CCancel t])"
  by (induction ds) (auto simp: withdrawn_def)

lemma released_mono: "released t ds \<Longrightarrow> released t (ds @ [c])"
  by (auto simp: released_def completed_mono withdrawn_mono)

text \<open>A call that does not address the ticket in its present phase leaves its life as it is.\<close>

lemma life_ok_mono:
  assumes "life_ok t ds s" "c = CSubmit t \<Longrightarrow> sl_phase s \<noteq> PAcquired"
    and "c = CCancel t \<Longrightarrow> sl_phase s = PRetired \<or> sl_phase s = PFailed"
  shows "life_ok t (ds @ [c]) s"
  using assms by (auto simp: life_ok_def completed_mono released_mono split: pool_phase.splits)

lemma ticket_life_mono:
  assumes "ticket_life t ds p"
    and "same_ticket t p \<Longrightarrow> c = CSubmit t \<Longrightarrow> sl_phase (pl_slots p ! tk_slot t) \<noteq> PAcquired"
    and "same_ticket t p \<Longrightarrow> c = CCancel t \<Longrightarrow> sl_phase (pl_slots p ! tk_slot t) = PRetired \<or>
       sl_phase (pl_slots p ! tk_slot t) = PFailed"
  shows "ticket_life t (ds @ [c]) p"
  using assms by (auto simp: ticket_life_def released_mono intro: life_ok_mono)

lemma ticket_life_other:
  assumes "ticket_life t ds p" "c \<noteq> CSubmit t" "c \<noteq> CCancel t"
  shows "ticket_life t (ds @ [c]) p"
  using assms(2,3) by (intro ticket_life_mono [OF assms(1)]) auto

text \<open>Rewriting one slot, either another one or in the way the last call allows.\<close>

lemma ticket_life_update:
  assumes "ticket_life t ds p" "i < length (pl_slots p)"
    and gen: "sl_generation (f (pl_slots p ! i)) = sl_generation (pl_slots p ! i)"
    and fields: "sl_event (f (pl_slots p ! i)) = sl_event (pl_slots p ! i)"
      "sl_acquisition (f (pl_slots p ! i)) = sl_acquisition (pl_slots p ! i)"
      "sl_execution (f (pl_slots p ! i)) = sl_execution (pl_slots p ! i)"
      "sl_retirement_generation (f (pl_slots p ! i)) = sl_retirement_generation (pl_slots p ! i)"
    and here: "i = tk_slot t \<Longrightarrow> same_ticket t p \<Longrightarrow> life_ok t (ds @ [c]) (f (pl_slots p ! i))"
    and there: "i \<noteq> tk_slot t \<Longrightarrow> ticket_life t (ds @ [c]) p"
  shows "ticket_life t (ds @ [c]) (update_slot i f p)"
proof (cases "i = tk_slot t")
  case True
  then show ?thesis
    using assms(1,2) gen fields here by (auto simp: ticket_life_def same_ticket_def Let_def released_mono)
next
  case False
  then show ?thesis
    using there assms(2) gen
    by (auto simp: ticket_life_def same_ticket_def Let_def nth_list_update)
qed


lemma ticket_life_here:
  assumes "ticket_life t ds p" "same_ticket t p"
  shows "life_ok t ds (pl_slots p ! tk_slot t)"
  using assms by (simp add: ticket_life_def same_ticket_def Let_def)

lemma submit_life:
  assumes inv: "pool_inv p" and life: "ticket_life t ds p"
  shows "ticket_life t (ds @ [CSubmit u]) (snd (pool_submit u p))"
proof (cases "pool_match u PAcquired p")
  case None
  then have "ticket_life t (ds @ [CSubmit u]) p"
    using life by (intro ticket_life_mono) (auto simp: pool_match_def ticket_life_def split: if_splits)
  then show ?thesis
    using None by (simp add: pool_submit_def)
next
  case (Some i)
  then have i: "i = tk_slot u" "i < pl_configured p" "same_ticket u p" "sl_phase (pl_slots p ! i) = PAcquired"
    by (auto simp: pool_match_Some)
  have "u = t" if "i = tk_slot t" "same_ticket t p"
    using same_ticket_eq [OF i(3) that(2)] that(1) i(1) by simp
  moreover have "\<not> sl_cancelled (pl_slots p ! i)"
    using pool_invD(3) [OF inv i(2)] i(4) by (simp add: slot_ok_def use_ok_def)
  moreover have "ticket_life t (ds @ [CSubmit u]) p" if "i \<noteq> tk_slot t"
    using that i(1) life by (intro ticket_life_mono) auto
  ultimately show ?thesis
    unfolding pool_submit_matched [OF inv Some] snd_conv
    using ticket_life_here [OF life] i pool_invD(4) [OF inv i(2)]
    by (intro ticket_life_update [OF life]) (auto simp: life_ok_def)
qed

lemma notify_life:
  assumes inv: "pool_inv p" and life: "ticket_life t ds p"
  shows "ticket_life t (ds @ [CNotify u e error]) (snd (pool_notify u e error p))"
proof (cases "pool_match u PPending p")
  case None
  then show ?thesis
    using ticket_life_other [OF life] by (simp add: pool_notify_def)
next
  case (Some i)
  then have i: "i = tk_slot u" "i < pl_configured p" "same_ticket u p" "sl_phase (pl_slots p ! i) = PPending"
    by (auto simp: pool_match_Some)
  have "u = t" if "i = tk_slot t" "same_ticket t p"
    using same_ticket_eq [OF i(3) that(2)] that(1) i(1) by simp
  then have "life_ok t (ds @ [CNotify u (tk_event u) error])
      (notified_slot error ((pl_slots p ! i)\<lparr>sl_final_use := w\<rparr>))" if "i = tk_slot t" "same_ticket t p" for w
    using ticket_life_here [OF life that(2)] that i(4) completed_now [of t ds]
    by (auto simp: life_ok_def notified_slot_def released_def)
  then have "ticket_life t (ds @ [CNotify u (tk_event u) error])
      (update_slot i (\<lambda>s. notified_slot error (s\<lparr>sl_final_use := w s\<rparr>)) p)" for w
    using i pool_invD(4) [OF inv i(2)] ticket_life_other [OF life]
    by (intro ticket_life_update [OF life]) (auto simp: notified_slot_def)
  then show ?thesis
    using ticket_life_other [OF life] by (simp add: pool_notify_matched [OF inv Some])
qed

lemma cancel_life:
  assumes inv: "pool_inv p" and life: "ticket_life t ds p"
  shows "ticket_life t (ds @ [CCancel u]) (snd (pool_cancel u p))"
proof (cases "pool_match_any u p")
  case None
  then have "ticket_life t (ds @ [CCancel u]) p"
    using life by (intro ticket_life_mono) (auto simp: pool_match_any_def ticket_life_def split: if_splits)
  then show ?thesis
    using None by (simp add: pool_cancel_def)
next
  case (Some i)
  then have i: "i = tk_slot u" "i < pl_configured p" "same_ticket u p" "i < length (pl_slots p)"
    using pool_invD(4) [OF inv] by (auto simp: pool_match_any_Some)
  have eq: "u = t" if "i = tk_slot t" "same_ticket t p"
    using same_ticket_eq [OF i(3) that(2)] that(1) i(1) by simp
  have there: "ticket_life t (ds @ [CCancel u]) p" if "i \<noteq> tk_slot t"
    using that i(1) life by (intro ticket_life_mono) auto
  have retire: "ticket_life t (ds @ [CCancel u]) (update_slot i retire_slot p)"
    if "sl_phase (pl_slots p ! i) = PAcquired \<or> sl_phase (pl_slots p ! i) = PReady"
    using ticket_life_here [OF life] i that eq there withdrawn_now [of t ds]
    by (intro ticket_life_update [OF life]) (auto simp: life_ok_def released_def completed_mono)
  have "ticket_life t (ds @ [CCancel u]) (update_slot i (\<lambda>s. s\<lparr>sl_cancelled := True\<rparr>) p)"
    if "sl_phase (pl_slots p ! i) = PPending"
    using ticket_life_here [OF life] i that eq there
    by (intro ticket_life_update [OF life]) (auto simp: life_ok_def)
  moreover have "ticket_life t (ds @ [CCancel u]) p"
    if "sl_phase (pl_slots p ! i) = PRetired \<or> sl_phase (pl_slots p ! i) = PFailed"
    using that i(1) by (intro ticket_life_mono [OF life]) auto
  ultimately show ?thesis
    using Some retire pool_invD(5) [OF inv i(2)]
    by (auto simp: pool_cancel_def split: pool_phase.split)
qed

lemma retire_life:
  assumes inv: "pool_inv p" and life: "ticket_life t ds p"
  shows "ticket_life t (ds @ [CRetire g]) (snd (pool_retire g p))"
proof (cases "pool_find g p")
  case None
  then show ?thesis
    using ticket_life_other [OF life] by (simp add: pool_retire_def)
next
  case (Some i)
  note i = pool_find_SomeD [OF Some]
  have "ticket_life t (ds @ [CRetire g]) (update_slot i retire_slot p)"
    if "sl_phase (pl_slots p ! i) = PReady"
    using ticket_life_here [OF life] i that ticket_life_other [OF life]
    by (intro ticket_life_update [OF life])
      (auto simp: life_ok_def released_def completed_mono same_ticket_def Let_def)
  then show ?thesis
    using ticket_life_other [OF life] by (simp add: pool_retire_found [OF inv Some])
qed


lemma acquire_life:
  assumes inv: "pool_inv p" and life: "ticket_life t ds p"
  shows "ticket_life t (ds @ [CAcquire a x r owner]) (pool_step (CAcquire a x r owner) p)"
proof -
  have same: "ticket_life t (ds @ [CAcquire a x r owner]) p"
    using ticket_life_other [OF life] by simp
  show ?thesis
  proof (cases "\<exists>u p'. pool_acquire a x r owner p = Inr (Some u, p')")
    case True
    then obtain u p' where acq: "pool_acquire a x r owner p = Inr (Some u, p')"
      by blast
    note A = pool_acquire_Some [OF acq]
    have less: "tk_generation t < pl_next_generation p + 1"
      using life word_inc_neq(2) [OF A(4)] by (auto simp: ticket_life_def)
    have "released t ds" if "tk_slot u = tk_slot t"
      using life A(3) that by (auto simp: ticket_life_def life_ok_def split: if_splits)
    then have "ticket_life t (ds @ [CAcquire a x r owner]) p'"
      using same A(2) less unfolding A(8)
      by (cases "tk_slot u = tk_slot t")
        (auto simp: ticket_life_def same_ticket_def Let_def nth_list_update released_mono)
    then show ?thesis
      using acq by simp
  next
    case False
    then have "pool_step (CAcquire a x r owner) p = p"
      by (auto simp: pool_acquire_def Let_def simp del: find_index_None split: option.splits)
    then show ?thesis
      using same by simp
  qed
qed

lemma drain_life:
  assumes inv: "pool_inv p" and life: "ticket_life t ds p"
  shows "ticket_life t (ds @ [CDrain]) (retire_all_after_device_drain p)"
proof -
  define q where "q = retire_all_after_device_drain p"
  note d = drain_slots [OF inv, folded q_def]
  have fields: "pl_configured q = pl_configured p" "pl_next_generation q = pl_next_generation p"
      "pl_authority_generation q = pl_authority_generation p"
    using arg_cong [OF d(1), of pl_configured] arg_cong [OF d(1), of pl_next_generation]
      arg_cong [OF d(1), of pl_authority_generation] by simp_all
  have t: "tk_slot t < pl_configured p" "tk_slot t < pool_capacity"
    using life pool_invD(1) [OF inv] pool_invD(4) [OF inv, of "tk_slot t"] by (simp_all add: ticket_life_def)
  have "pl_slots q ! tk_slot t = drained_slot (pl_slots p ! tk_slot t)"
    using d(3) t by simp
  moreover have "sl_generation (pl_slots q ! i) = sl_generation (pl_slots p ! i)"
    if "i < pool_capacity" for i
    using d(3) [OF that] by simp
  moreover have "released t (ds @ [CDrain])"
    by (simp add: released_def)
  ultimately show ?thesis
    using life t d(2) pool_invD(1) [OF inv] pool_invD(5) [OF inv t(1)] unfolding q_def [symmetric]
    by (auto simp: ticket_life_def fields same_ticket_def Let_def life_ok_def)
qed

lemma same_ticket_next: "same_ticket t (p\<lparr>pl_next_generation := n\<rparr>) = same_ticket t p"
  by (simp add: same_ticket_def)

lemma ticket_life_step:
  assumes inv: "pool_inv p" and life: "ticket_life t ds p"
  shows "ticket_life t (ds @ [c]) (pool_step c p)"
proof (cases c)
  case CConfigure
  have "pl_configured p \<noteq> 0"
    using life by (auto simp: ticket_life_def)
  then show ?thesis
    using CConfigure ticket_life_other [OF life] by (simp add: pool_configure_def)
next
  case CAcquire
  then show ?thesis
    using acquire_life [OF inv life] by simp
next
  case CExhaust
  then show ?thesis
    using ticket_life_other [OF life, of CExhaust]
    by (simp add: exhaust_generation_for_test_def ticket_life_def same_ticket_next word_order.extremum)
qed (simp_all add: submit_life [OF assms] notify_life [OF assms] cancel_life [OF assms]
    retire_life [OF assms] drain_life [OF assms])

lemma ticket_life_run:
  assumes "pool_inv p" "ticket_life t [] p"
  shows "ticket_life t ds (fold pool_step ds p)"
proof (induction ds rule: rev_induct)
  case (snoc c ds)
  then show ?case
    using ticket_life_step [OF event_pool.run_inv [OF assms(1)]] by simp
qed (simp add: assms(2))

lemma ticket_life_begins:
  assumes inv: "pool_inv p" and acq: "pool_acquire a x r owner p = Inr (Some t, p')"
  shows "ticket_life t [] p'"
proof -
  note A = pool_acquire_Some [OF acq]
  define g where "g = pl_next_generation p + 1"
  have g: "pl_next_generation p < g" "g \<noteq> 0"
    using word_inc_neq [OF A(4)] by (simp_all add: g_def)
  have t: "tk_generation t = g" "tk_authority_generation t = pl_authority_generation p"
      "tk_acquisition t = a" "tk_execution t = x" "tk_retirement_generation t = r"
      "tk_event t = sl_event (pl_slots p ! tk_slot t)"
    using A(7) unfolding g_def by (metis pool_ticket.select_convs)+
  have old: "sl_generation (pl_slots p ! i) \<noteq> g" if "i < length (pl_slots p)" for i
    using inv that g(1) by (auto simp: pool_inv_def slot_ok_def all_set_conv_all_nth)
  show ?thesis
    using A(1,2) old g(2) unfolding A(8) g_def [symmetric]
    by (simp add: ticket_life_def same_ticket_def Let_def life_ok_def t nth_list_update)
qed


text \<open>What the evidence says in the end.\<close>

lemma ticket_life_matches:
  assumes "pool_inv p" "ticket_life t ds p"
    and "pool_matches au a x r (tk_generation t) p"
  shows "completed t ds \<and> CCancel t \<notin> set ds"
proof -
  obtain i where i: "pool_find (tk_generation t) p = Some i"
    using assms(3) by (auto simp: pool_matches_def split: option.splits)
  have "i = tk_slot t"
    using assms(2) pool_find_SomeD [OF i] by (auto simp: ticket_life_def)
  then show ?thesis
    using assms(2,3) i pool_find_SomeD(3) [OF i]
    by (auto simp: ticket_life_def pool_matches_def life_ok_def Let_def)
qed

lemma ticket_life_unique:
  assumes "pool_inv p" "ticket_life t ds p"
    and "pool_match_any u p \<noteq> None" "tk_generation u = tk_generation t"
  shows "u = t"
proof -
  have u: "tk_slot u < pl_configured p" "same_ticket u p"
    using assms(3) by (auto simp: pool_match_any_Some)
  then have "sl_generation (pl_slots p ! tk_slot u) = tk_generation t"
    using assms(4) by (simp add: same_ticket_def Let_def)
  then have "tk_slot u = tk_slot t" "same_ticket t p"
    using assms(2) pool_invD(4) [OF assms(1) u(1)] by (auto simp: ticket_life_def split: if_splits)
  then show ?thesis
    using u(2) by (intro same_ticket_eq)
qed

text \<open>
  C40. Let \<open>t\<close> be a ticket that \<open>acquire\<close> issues after any calls \<open>cs\<close> on a new pool, and \<open>q\<close> the pool after
  any further calls \<open>ds\<close>. The generation of \<open>t\<close> is larger than every generation issued before. A
  ticket that \<open>q\<close> recognises under this generation is \<open>t\<close> itself, field by field. \<open>matches\<close> reports the
  generation ready only if \<open>t\<close> was submitted, then notified with its own native event and no error,
  and never cancelled. And the slot is free or handed out again only if the device was drained, or
  \<open>t\<close> was cancelled before it was submitted, or its native event completed after the submission and
  it was then retired or cancelled: an event that may still fire is not reused.
\<close>

theorem completion_event_exclusive:
  assumes "p = fold pool_step cs pool_init"
    and "pool_acquire a x r owner p = Inr (Some t, p')"
    and "q = fold pool_step ds p'"
  shows "pl_next_generation p < tk_generation t \<and>
    (pool_match_any u q \<noteq> None \<and> tk_generation u = tk_generation t \<longrightarrow> u = t) \<and>
    (pool_matches au a' x' r' (tk_generation t) q \<longrightarrow> completed t ds \<and> CCancel t \<notin> set ds) \<and>
    (sl_phase (pl_slots q ! tk_slot t) = PRetired \<or>
     sl_generation (pl_slots q ! tk_slot t) \<noteq> tk_generation t \<longrightarrow> released t ds)"
proof -
  have inv: "pool_inv p"
    unfolding assms(1) by (rule event_pool.run_inv [OF pool_init_inv])
  have inv': "pool_inv p'"
    using acquire_inv [OF inv assms(2)] .
  have inv_q: "pool_inv q"
    unfolding assms(3) by (rule event_pool.run_inv [OF inv'])
  have life: "ticket_life t ds q"
    unfolding assms(3) using inv' ticket_life_begins [OF inv assms(2)] by (rule ticket_life_run)
  have "tk_generation t = pl_next_generation p + 1"
    by (subst pool_acquire_Some(7) [OF assms(2)]) simp
  then have "pl_next_generation p < tk_generation t"
    using word_inc_neq(2) [OF pool_acquire_Some(4) [OF assms(2)]] by simp
  moreover have "released t ds" if "sl_phase (pl_slots q ! tk_slot t) = PRetired \<or>
     sl_generation (pl_slots q ! tk_slot t) \<noteq> tk_generation t"
    using life that by (auto simp: ticket_life_def life_ok_def split: if_splits)
  ultimately show ?thesis
    using ticket_life_matches [OF inv_q life] ticket_life_unique [OF inv_q life] by blast
qed

text \<open>The slots of the example below: two events, the first one in use, the second one asked for.\<close>

definition example_pool :: event_pool where
  "example_pool = fold pool_step [CConfigure [77, 78] 9, CAcquire 1 2 3 (Owned 0)] pool_init"

definition example_ticket :: pool_ticket where
  "example_ticket = \<lparr>tk_slot = 1, tk_authority_generation = 9, tk_generation = 2, tk_acquisition = 4,
     tk_execution = 5, tk_retirement_generation = 6, tk_event = 78\<rparr>"

definition example_acquired :: event_pool where
  "example_acquired = pool_step (CAcquire 4 5 6 (Owned 1)) example_pool"

lemma example_acquire: "pool_acquire 4 5 6 (Owned 1) example_pool = Inr (Some example_ticket, example_acquired)"
  by code_simp

lemma example_ready:
  "pool_matches 9 4 5 6 2 (fold pool_step [CSubmit example_ticket, CNotify example_ticket 78 0] example_acquired)"
  by code_simp

theorem completion_event_exclusive_witness:
  "pool_matches 9 4 5 6 2 (fold pool_step [CSubmit example_ticket, CNotify example_ticket 78 0] example_acquired) \<and>
   completed example_ticket [CSubmit example_ticket, CNotify example_ticket 78 0] \<and>
   pl_next_generation example_pool < 2 \<and>
   \<not> pool_matches 9 4 5 6 2 (fold pool_step [CNotify example_ticket 78 0, CSubmit example_ticket] example_acquired)"
  using example_ready completion_event_exclusive [OF example_pool_def example_acquire refl,
      where u = example_ticket and au = 9 and a' = 4 and x' = 5 and r' = 6
      and ds = "[CSubmit example_ticket, CNotify example_ticket 78 0]"]
    completion_event_exclusive [OF example_pool_def example_acquire refl,
      where u = example_ticket and au = 9 and a' = 4 and x' = 5 and r' = 6
      and ds = "[CNotify example_ticket 78 0, CSubmit example_ticket]"]
  by (simp add: example_ticket_def completed_def)

section \<open>Failures and teardown\<close>

text \<open>
  A failed slot stays failed and its error stays on record until the device is drained; nothing but
  the drain frees it.
\<close>

lemma failed_slot_kept:
  assumes "i < pl_configured p" "sl_phase (pl_slots p ! i) = PFailed" "c \<noteq> CDrain" "pool_inv p"
  shows "pl_slots (pool_step c p) ! i = pl_slots p ! i"
proof (cases c)
  case (CAcquire a x r owner)
  then show ?thesis
    using assms(1,2) pool_acquire_Some(3) [of a x r owner p]
    by (cases "pool_acquire a x r owner p")
      (auto simp: pool_acquire_def Let_def nth_list_update active_slots_def find_index_Some
        simp del: find_index_None split: option.splits if_splits)
next
  case (CRetire g)
  then show ?thesis
    using assms by (cases "pool_find g p") (auto simp: pool_retire_def Let_def intro!: nth_list_update_neq)
qed (use assms in \<open>auto simp: pool_configure_def pool_submit_def pool_notify_def pool_cancel_def
    pool_match_Some pool_match_any_Some exhaust_generation_for_test_def Let_def
    intro!: nth_list_update_neq
    split: option.split sum.split prod.split bool.split pool_phase.split\<close>)

text \<open>
  The comment on \<open>retire_all_after_device_drain\<close> says that it does not make slots reusable. The slots it
  leaves are in the phase \<open>acquire\<close> looks for: the next acquisition with a valid scope gets slot 0.
\<close>

lemma drained_pool_is_acquired:
  assumes "pool_inv p" "pl_configured p \<noteq> 0" "pl_authority_generation p \<noteq> 0"
    and "pl_next_generation p \<noteq> UINT64_MAX" "a \<noteq> 0" "x \<noteq> 0" "r \<noteq> 0" "non_null owner"
  shows "\<exists>t q. pool_acquire a x r owner (retire_all_after_device_drain p) = Inr (Some t, q) \<and> tk_slot t = 0"
proof -
  define q where "q = retire_all_after_device_drain p"
  note d = drain_slots [OF assms(1), folded q_def]
  have fields: "pl_configured q = pl_configured p" "pl_next_generation q = pl_next_generation p"
      "pl_authority_generation q = pl_authority_generation p"
    using arg_cong [OF d(1), of pl_configured] arg_cong [OF d(1), of pl_next_generation]
      arg_cong [OF d(1), of pl_authority_generation] by simp_all
  have "sl_phase (pl_slots q ! 0) = PRetired"
    using d(3) [of 0] assms(2) pool_invD(2) [OF assms(1)] pool_invD(5) [OF assms(1), of 0] by simp
  moreover have "0 < length (active_slots q)"
    using assms(2) d(2) by (simp add: active_slots_def fields pool_capacity_def)
  ultimately have "find_index (\<lambda>s. sl_phase s = PRetired) (active_slots q) = Some 0"
    by (simp add: find_index_Some active_slots_def)
  then show ?thesis
    using assms(2-) unfolding q_def [symmetric] by (simp add: pool_acquire_def fields Let_def)
qed

interpretation latest: selection later_slot
  by unfold_locales (auto simp: later_slot_def)

text \<open>The latest snapshot of a configured pool shows the slot of the largest generation.\<close>

lemma latest_snapshot_max:
  assumes "s \<in> set (active_slots p)"
  shows "sl_generation s \<le> sn_generation (latest_snapshot p)"
proof -
  have "fold (select_step (\<lambda>_. True) later_slot) (active_slots p) None \<noteq> None"
    using latest.select_None [of "\<lambda>_. True" "active_slots p"] assms by blast
  then obtain m where m: "fold (select_step (\<lambda>_. True) later_slot) (active_slots p) None = Some m"
    by blast
  then have "\<not> later_slot s m"
    using latest.select_Some [OF m] assms by blast
  then show ?thesis
    using m by (simp add: latest_snapshot_def snapshot_of_def later_slot_def not_less)
qed

end
