(* ===== verification/Host_KV_Layout.thy ===== *)
theory Host_KV_Layout
  imports Device_Memory
begin

unbundle bit_operations_syntax

text \<open>
  Model of the page layouts of \<open>src/core/host_kv_arena.h\<close> and \<open>src/core/host_kv_arena.cpp\<close>: how the planes of
  a KV page are packed into one host record, for the three storage formats, and the transfer work
  of copying pages.

  Sizes and offsets are 64-bit words (\<open>std::size_t\<close>), the extents of a plane integers
  (\<open>std::int32_t\<close>), the tokens of a page a 32-bit word. \<open>reserve\<close> of a vector has no effect here.

  The theorems: the planes of every planned layout are aligned, pairwise disjoint, of the exact size
  of their geometry and inside the page stride, and the two tiers of an OSCAR record do not overlap;
  planning again from a planned layout returns it unchanged; and the transfer work is the exact
  number of payload bytes and copies or an overflow error.
\<close>

section \<open>Checked arithmetic\<close>

definition kHostKVAlignment :: u64 where
  "kHostKVAlignment = 256"

definition host_checked_add :: "u64 \<Rightarrow> u64 \<Rightarrow> exn + u64" where
  "host_checked_add a b = (if UINT64_MAX - a < b then Inl Overflow_error else Inr (a + b))"

definition host_checked_mul :: "u64 \<Rightarrow> u64 \<Rightarrow> exn + u64" where
  "host_checked_mul a b =
     (if b \<noteq> 0 \<and> UINT64_MAX div b < a then Inl Overflow_error else Inr (a * b))"

definition host_align_up :: "u64 \<Rightarrow> u64 \<Rightarrow> exn + u64" where
  "host_align_up v alignment =
     (if alignment = 0 \<or> alignment AND (alignment - 1) \<noteq> 0 then Inl Invalid_argument
      else let mask = alignment - 1 in
        if UINT64_MAX - mask < v then Inl Overflow_error
        else Inr ((v + mask) AND NOT mask))"

text \<open>Sequencing of calls that may throw.\<close>

definition bindE :: "exn + 'a \<Rightarrow> ('a \<Rightarrow> exn + 'b) \<Rightarrow> exn + 'b" where
  "bindE r f = (case r of Inl e \<Rightarrow> Inl e | Inr x \<Rightarrow> f x)"

section \<open>Geometry and layout\<close>

record kv_plane_geometry =
  pg_dtype :: dtype
  pg_leading_extent :: int
  pg_head_extent :: int
  pg_alignment :: u64

datatype paged_kv_plane_order = PageMajor | HeadMajor

datatype oscar_kv_layout = Contiguous | TransposedQ2

record kv_page_geometry =
  gm_page_tokens :: u32
  gm_device_plane_order :: paged_kv_plane_order
  gm_planes :: "kv_plane_geometry list"
  gm_oscar_layout :: oscar_kv_layout

record host_kv_plane_layout =
  hp_offset :: u64
  hp_page_payload_bytes :: u64
  hp_head_payload_bytes :: u64

datatype host_kv_storage_format = Native | BFloat16AsFp16 | OscarQ4AndFp16

record host_kv_page_layout =
  hl_geometry :: kv_page_geometry
  hl_storage_dtypes :: "dtype list"
  hl_planes :: "host_kv_plane_layout list"
  hl_page_stride :: u64
  hl_storage_format :: host_kv_storage_format
  hl_l1_offset :: u64
  hl_l1_page_payload_bytes :: u64
  hl_l2_offset :: u64
  hl_l2_page_payload_bytes :: u64

definition kPagedKVPageSize :: u32 where
  "kPagedKVPageSize = 64"

definition kD256KVCacheHeadDim :: int where
  "kD256KVCacheHeadDim = 256"

definition kD256OscarCodeExtent :: int where
  "kD256OscarCodeExtent = 64"

definition kD256OscarScaleExtent :: int where
  "kD256OscarScaleExtent = 2"

text \<open>The payload of one head and of all heads of a plane.\<close>

definition head_payload :: "u32 \<Rightarrow> dtype \<Rightarrow> int \<Rightarrow> exn + u64" where
  "head_payload tokens ty leading =
     bindE (host_checked_mul (of_int leading) (ucast tokens)) (\<lambda>n.
       host_checked_mul n (of_int (dtype_size ty)))"

definition plane_payload :: "u32 \<Rightarrow> dtype \<Rightarrow> int \<Rightarrow> int \<Rightarrow> exn + (u64 \<times> u64)" where
  "plane_payload tokens ty leading heads =
     bindE (head_payload tokens ty leading) (\<lambda>head_bytes.
     bindE (host_checked_mul head_bytes (of_int heads)) (\<lambda>page_bytes.
       Inr (head_bytes, page_bytes)))"

text \<open>Aligning the cursor and placing one plane there; the new planes and the new cursor.\<close>

definition push_plane :: "u32 \<Rightarrow> dtype \<Rightarrow> int \<Rightarrow> int \<Rightarrow>
    host_kv_plane_layout list \<times> u64 \<Rightarrow> exn + (host_kv_plane_layout list \<times> u64)" where
  "push_plane tokens ty leading heads st =
     bindE (host_align_up (snd st) kHostKVAlignment) (\<lambda>cursor.
     bindE (plane_payload tokens ty leading heads) (\<lambda>(head_bytes, page_bytes).
     bindE (host_checked_add cursor page_bytes) (\<lambda>cursor'.
       Inr (fst st @ [\<lparr>hp_offset = cursor, hp_page_payload_bytes = page_bytes,
         hp_head_payload_bytes = head_bytes\<rparr>], cursor'))))"

section \<open>The hierarchical OSCAR format\<close>

definition append_plane :: "u32 \<Rightarrow> dtype \<Rightarrow> int \<Rightarrow> int \<Rightarrow>
    dtype list \<times> host_kv_plane_layout list \<times> u64 \<Rightarrow> exn + (dtype list \<times> host_kv_plane_layout list \<times> u64)" where
  "append_plane tokens ty leading heads st =
     (if leading \<le> 0 \<or> heads \<le> 0 then Inl Invalid_argument
      else bindE (push_plane tokens ty leading heads (snd st)) (\<lambda>pc. Inr (fst st @ [ty], pc)))"

definition oscar_sources_valid ::
    "kv_plane_geometry \<Rightarrow> kv_plane_geometry \<Rightarrow> kv_plane_geometry \<Rightarrow> kv_plane_geometry \<Rightarrow> bool" where
  "oscar_sources_valid code_k code_v scale_k scale_v \<longleftrightarrow>
     \<not> (pg_dtype code_k \<noteq> U8 \<or> pg_dtype code_v \<noteq> U8 \<or>
        pg_dtype scale_k \<noteq> BF16 \<or> pg_dtype scale_v \<noteq> BF16 \<or>
        pg_leading_extent code_k \<noteq> kD256OscarCodeExtent \<or>
        pg_leading_extent code_v \<noteq> kD256OscarCodeExtent \<or>
        pg_leading_extent scale_k \<noteq> kD256OscarScaleExtent \<or>
        pg_leading_extent scale_v \<noteq> kD256OscarScaleExtent \<or>
        pg_head_extent code_k \<noteq> pg_head_extent code_v \<or>
        pg_head_extent code_k \<noteq> pg_head_extent scale_k \<or>
        pg_head_extent code_k \<noteq> pg_head_extent scale_v)"

fun oscar_l1_loop :: "kv_page_geometry \<Rightarrow> nat list \<Rightarrow>
    dtype list \<times> host_kv_plane_layout list \<times> u64 \<Rightarrow> exn + (dtype list \<times> host_kv_plane_layout list \<times> u64)" where
  "oscar_l1_loop g [] st = Inr st"
| "oscar_l1_loop g (layer # layers) st =
     (let code_k = gm_planes g ! (layer * 4); code_v = gm_planes g ! (layer * 4 + 1);
          scale_k = gm_planes g ! (layer * 4 + 2); scale_v = gm_planes g ! (layer * 4 + 3);
          heads = pg_head_extent code_k; tokens = gm_page_tokens g in
      if \<not> oscar_sources_valid code_k code_v scale_k scale_v then Inl Invalid_argument
      else bindE (append_plane tokens U8 (kD256OscarCodeExtent * 2) heads st) (\<lambda>st1.
           bindE (append_plane tokens U8 (kD256OscarCodeExtent * 2) heads st1) (\<lambda>st2.
           bindE (append_plane tokens BF16 kD256OscarScaleExtent heads st2) (\<lambda>st3.
           bindE (append_plane tokens BF16 kD256OscarScaleExtent heads st3) (\<lambda>st4.
             oscar_l1_loop g layers st4)))))"

fun oscar_l2_loop :: "kv_page_geometry \<Rightarrow> nat list \<Rightarrow>
    dtype list \<times> host_kv_plane_layout list \<times> u64 \<Rightarrow> exn + (dtype list \<times> host_kv_plane_layout list \<times> u64)" where
  "oscar_l2_loop g [] st = Inr st"
| "oscar_l2_loop g (layer # layers) st =
     (let heads = pg_head_extent (gm_planes g ! (layer * 4)); tokens = gm_page_tokens g in
      bindE (append_plane tokens FP16 kD256KVCacheHeadDim heads st) (\<lambda>st1.
      bindE (append_plane tokens FP16 kD256KVCacheHeadDim heads st1) (\<lambda>st2.
        oscar_l2_loop g layers st2)))"

definition oscar_layout :: "kv_page_geometry \<Rightarrow> dtype list \<Rightarrow> exn + host_kv_page_layout" where
  "oscar_layout g storage_dtypes =
     (if gm_page_tokens g \<noteq> kPagedKVPageSize \<or> length (gm_planes g) mod 4 \<noteq> 0
      then Inl Invalid_argument
      else
        let layers = [0 ..< length (gm_planes g) div 4] in
        bindE (oscar_l1_loop g layers ([], [], 0)) (\<lambda>(types1, planes1, cursor1).
        bindE (host_align_up cursor1 kHostKVAlignment) (\<lambda>l2_offset.
        bindE (oscar_l2_loop g layers (types1, planes1, l2_offset)) (\<lambda>(types2, planes2, cursor2).
        bindE (host_align_up cursor2 kHostKVAlignment) (\<lambda>stride.
          if storage_dtypes \<noteq> [] \<and> storage_dtypes \<noteq> types2 then Inl Invalid_argument
          else Inr \<lparr>hl_geometry = g, hl_storage_dtypes = types2, hl_planes = planes2,
            hl_page_stride = stride, hl_storage_format = OscarQ4AndFp16, hl_l1_offset = 0,
            hl_l1_page_payload_bytes = cursor1, hl_l2_offset = l2_offset,
            hl_l2_page_payload_bytes = cursor2 - l2_offset\<rparr>)))))"

section \<open>The plane-by-plane formats\<close>

definition storage_dtype_at :: "dtype list \<Rightarrow> kv_plane_geometry \<Rightarrow> nat \<Rightarrow> dtype" where
  "storage_dtype_at storage_dtypes plane index =
     (if storage_dtypes = [] then pg_dtype plane else storage_dtypes ! index)"

fun native_loop :: "kv_page_geometry \<Rightarrow> dtype list \<Rightarrow> nat list \<Rightarrow>
    host_kv_plane_layout list \<times> u64 \<Rightarrow> exn + (host_kv_plane_layout list \<times> u64)" where
  "native_loop g storage_dtypes [] st = Inr st"
| "native_loop g storage_dtypes (index # is) st =
     (let plane = gm_planes g ! index; storage = storage_dtype_at storage_dtypes plane index in
      if pg_leading_extent plane \<le> 0 \<or> pg_head_extent plane \<le> 0 then Inl Invalid_argument
      else if storage \<noteq> pg_dtype plane \<and> \<not> (pg_dtype plane = BF16 \<and> storage = FP16)
      then Inl Invalid_argument
      else bindE (push_plane (gm_page_tokens g) storage (pg_leading_extent plane)
        (pg_head_extent plane) st) (\<lambda>st'. native_loop g storage_dtypes is st'))"

definition converted :: "kv_page_geometry \<Rightarrow> dtype list \<Rightarrow> bool" where
  "converted g storage_dtypes =
     fold (\<lambda>index c. c \<or> storage_dtypes ! index \<noteq> pg_dtype (gm_planes g ! index))
       [0 ..< length (gm_planes g)] False"

definition native_layout :: "kv_page_geometry \<Rightarrow> dtype list \<Rightarrow> exn + host_kv_page_layout" where
  "native_layout g storage_dtypes =
     (if storage_dtypes \<noteq> [] \<and> length storage_dtypes \<noteq> length (gm_planes g)
      then Inl Invalid_argument
      else
        bindE (native_loop g storage_dtypes [0 ..< length (gm_planes g)] ([], 0)) (\<lambda>(planes, cursor).
        bindE (host_align_up cursor kHostKVAlignment) (\<lambda>stride.
          Inr \<lparr>hl_geometry = g, hl_storage_dtypes = storage_dtypes, hl_planes = planes,
            hl_page_stride = stride,
            hl_storage_format =
              (if storage_dtypes \<noteq> [] \<and> converted g storage_dtypes then BFloat16AsFp16 else Native),
            hl_l1_offset = 0, hl_l1_page_payload_bytes = 0, hl_l2_offset = 0,
            hl_l2_page_payload_bytes = 0\<rparr>)))"

definition plan_layout_impl ::
    "kv_page_geometry \<Rightarrow> dtype list \<Rightarrow> host_kv_storage_format \<Rightarrow> exn + host_kv_page_layout" where
  "plan_layout_impl g storage_dtypes storage_format =
     (if gm_page_tokens g = 0 \<or> gm_planes g = [] then Inl Invalid_argument
      else if storage_format = OscarQ4AndFp16 then oscar_layout g storage_dtypes
      else native_layout g storage_dtypes)"

definition plan_layout :: "kv_page_geometry \<Rightarrow> exn + host_kv_page_layout" where
  "plan_layout g = plan_layout_impl g [] Native"

definition plan_layout_dtype :: "kv_page_geometry \<Rightarrow> dtype \<Rightarrow> exn + host_kv_page_layout" where
  "plan_layout_dtype g storage_dtype =
     plan_layout_impl g (replicate (length (gm_planes g)) storage_dtype) Native"

definition plan_layout_format :: "kv_page_geometry \<Rightarrow> host_kv_storage_format \<Rightarrow> exn + host_kv_page_layout" where
  "plan_layout_format g storage_format =
     (if storage_format = Native then plan_layout g else plan_layout_impl g [] storage_format)"

section \<open>Transfer work\<close>

record transfer_work =
  tw_payload_bytes :: u64
  tw_copy_operations :: u32

definition no_work :: transfer_work where
  "no_work = \<lparr>tw_payload_bytes = 0, tw_copy_operations = 0\<rparr>"

fun source_bytes :: "u32 \<Rightarrow> kv_plane_geometry list \<Rightarrow> u64 \<Rightarrow> exn + u64" where
  "source_bytes tokens [] acc = Inr acc"
| "source_bytes tokens (plane # planes) acc =
     bindE (plane_payload tokens (pg_dtype plane) (pg_leading_extent plane) (pg_head_extent plane))
       (\<lambda>(head_bytes, page_bytes).
     bindE (host_checked_add acc page_bytes) (\<lambda>acc'. source_bytes tokens planes acc'))"

fun host_bytes :: "host_kv_plane_layout list \<Rightarrow> u64 \<Rightarrow> exn + u64" where
  "host_bytes [] acc = Inr acc"
| "host_bytes (plane # planes) acc =
     bindE (host_checked_add acc (hp_page_payload_bytes plane)) (\<lambda>acc'. host_bytes planes acc')"

text \<open>The loop of the transfer plan, which sums the payload and the copies of a run plane by plane.\<close>

fun host_bytes_operations :: "paged_kv_plane_order \<Rightarrow> (host_kv_plane_layout \<times> kv_plane_geometry) list \<Rightarrow>
    u64 \<times> u64 \<Rightarrow> exn + (u64 \<times> u64)" where
  "host_bytes_operations order [] acc = Inr acc"
| "host_bytes_operations order ((plane, geometry) # planes) acc =
     bindE (host_checked_add (fst acc) (hp_page_payload_bytes plane)) (\<lambda>bytes.
     bindE (host_checked_add (snd acc)
         (if order = PageMajor then 1 else of_int (pg_head_extent geometry))) (\<lambda>operations.
       host_bytes_operations order planes (bytes, operations)))"

text \<open>The common end of the plans: both products, and the operation count fits 32 bits.\<close>

definition finish_work :: "u64 \<Rightarrow> u32 \<Rightarrow> u64 \<Rightarrow> u32 \<Rightarrow> exn + transfer_work" where
  "finish_work bytes_per_page pages operations_per_run runs =
     bindE (host_checked_mul bytes_per_page (ucast pages)) (\<lambda>payload.
     bindE (host_checked_mul operations_per_run (ucast runs)) (\<lambda>operations.
       if ucast (- 1 :: u32) < operations then Inl Overflow_error
       else Inr \<lparr>tw_payload_bytes = payload, tw_copy_operations = ucast operations\<rparr>))"

definition plan_host_kv_transfer_work ::
    "host_kv_page_layout \<Rightarrow> u32 \<Rightarrow> u32 \<Rightarrow> exn + transfer_work" where
  "plan_host_kv_transfer_work layout pages contiguous_runs =
     (if pages = 0 then Inr no_work
      else if contiguous_runs = 0 \<or> pages < contiguous_runs \<or> hl_planes layout = []
      then Inl Invalid_argument
      else if hl_storage_format layout = OscarQ4AndFp16 then
        bindE (source_bytes (gm_page_tokens (hl_geometry layout)) (gm_planes (hl_geometry layout)) 0)
          (\<lambda>bytes. finish_work bytes pages (of_nat (length (gm_planes (hl_geometry layout)))) contiguous_runs)
      else if length (hl_planes layout) \<noteq> length (gm_planes (hl_geometry layout))
      then Inl Invalid_argument
      else
        bindE (host_bytes_operations (gm_device_plane_order (hl_geometry layout))
            (zip (hl_planes layout) (gm_planes (hl_geometry layout))) (0, 0)) (\<lambda>(bytes, operations).
          finish_work bytes pages operations contiguous_runs))"

definition plan_device_kv_copy_work :: "host_kv_page_layout \<Rightarrow> u32 \<Rightarrow> exn + transfer_work" where
  "plan_device_kv_copy_work layout pages =
     (if pages = 0 then Inr no_work
      else if hl_planes layout = [] then Inl Invalid_argument
      else if hl_storage_format layout = OscarQ4AndFp16 then
        bindE (source_bytes (gm_page_tokens (hl_geometry layout)) (gm_planes (hl_geometry layout)) 0)
          (\<lambda>bytes. finish_work bytes pages (of_nat (length (gm_planes (hl_geometry layout)))) pages)
      else if length (hl_planes layout) \<noteq> length (gm_planes (hl_geometry layout))
      then Inl Invalid_argument
      else
        bindE (host_bytes (hl_planes layout) 0) (\<lambda>bytes.
          finish_work bytes pages (of_nat (length (hl_planes layout))) pages))"


section \<open>Lemmas on the checked arithmetic\<close>

lemma bindE_simps [simp]: "bindE (Inl e) f = Inl e" "bindE (Inr x) f = f x"
  by (simp_all add: bindE_def)

lemma bindE_Inr: "bindE r f = Inr y \<longleftrightarrow> (\<exists>x. r = Inr x \<and> f x = Inr y)"
  by (cases r) simp_all

lemma host_checked_add_eq: "host_checked_add = checked_add"
  by (intro ext) (simp add: host_checked_add_def checked_add_def)

lemma host_align_up_eq: "host_align_up = align_up"
proof (intro ext)
  fix v al :: u64
  have "UINT64_MAX - (al - 1) < v \<longleftrightarrow> UINT64_MAX - v < al - 1"
    unfolding overflow_test by (simp only: add.commute)
  then show "host_align_up v al = align_up v al"
    by (auto simp: host_align_up_def align_up_def is_power_of_two_def checked_add_def Let_def)
qed

lemma host_checked_mul_Inr:
  assumes "host_checked_mul a b = Inr c"
  shows "unat c = unat a * unat b"
proof (cases "b = 0")
  case False
  then have "a \<le> UINT64_MAX div b"
    using assms by (auto simp: host_checked_mul_def not_less split: if_splits)
  then have "unat a \<le> (2 ^ 64 - 1) div unat b"
    by (simp add: word_le_nat_alt unat_div UINT64_MAX_unat)
  then have "unat a * unat b \<le> (2 ^ 64 - 1) div unat b * unat b"
    by (rule mult_le_mono1)
  also have "\<dots> \<le> 2 ^ 64 - 1"
    by (rule div_times_less_eq_dividend)
  finally have "unat a * unat b < 2 ^ 64"
    by simp
  then show ?thesis
    using assms unat_mult_lem [of a b] by (auto simp: host_checked_mul_def split: if_splits)
qed (use assms in \<open>simp add: host_checked_mul_def\<close>)

lemma host_alignment: "unat kHostKVAlignment = 256"
  by (simp add: kHostKVAlignment_def)

lemma host_aligned:
  assumes "host_align_up v kHostKVAlignment = Inr w"
  shows "unat v \<le> unat w" "256 dvd unat w"
  using align_nat [of 256 "unat v"] align_up_Inr(2) [OF assms [unfolded host_align_up_eq]]
  by (simp_all add: host_alignment)

lemma unat_ucast_u32: "unat (ucast (w :: u32) :: u64) = unat w"
proof -
  have "unat w < 2 ^ 64"
    using unsigned_less [of w] by (rule less_le_trans) simp
  then show ?thesis
    by (simp add: unsigned_ucast_eq take_bit_nat_eq_self)
qed

lemma unat_int32:
  assumes "0 \<le> i" "i \<le> INT32_MAX"
  shows "unat (of_int i :: u64) = nat i"
proof -
  have "uint (of_int i :: u64) = i"
    using assms by (simp add: uint_word_of_int_eq take_bit_int_eq_self INT32_MAX_def)
  then show ?thesis
    by (metis unat_eq_nat_uint)
qed

section \<open>Packed planes\<close>

text \<open>A plane to be placed: its storage type, its leading extent and its heads.\<close>

type_synonym plane_shape = "dtype \<times> int \<times> int"

definition shape_ok :: "plane_shape \<Rightarrow> bool" where
  "shape_ok s = (case s of (ty, leading, heads) \<Rightarrow>
     0 < leading \<and> leading \<le> INT32_MAX \<and> 0 < heads \<and> heads \<le> INT32_MAX)"

definition sized :: "u32 \<Rightarrow> plane_shape \<Rightarrow> host_kv_plane_layout \<Rightarrow> bool" where
  "sized tokens s p = (case s of (ty, leading, heads) \<Rightarrow>
     unat (hp_head_payload_bytes p) = nat leading * unat tokens * nat (dtype_size ty) \<and>
     unat (hp_page_payload_bytes p) = unat (hp_head_payload_bytes p) * nat heads)"

definition plane_end :: "host_kv_plane_layout \<Rightarrow> nat" where
  "plane_end p = unat (hp_offset p) + unat (hp_page_payload_bytes p)"

definition packed_planes :: "nat \<Rightarrow> host_kv_plane_layout list \<Rightarrow> bool" where
  "packed_planes c ps \<longleftrightarrow>
     sorted_wrt (\<lambda>p q. plane_end p \<le> unat (hp_offset q)) ps \<and>
     list_all (\<lambda>p. 256 dvd unat (hp_offset p) \<and> 0 < unat (hp_page_payload_bytes p) \<and> plane_end p \<le> c) ps"

lemma packed_planes_mono: "packed_planes c ps \<Longrightarrow> c \<le> d \<Longrightarrow> packed_planes d ps"
  by (auto simp: packed_planes_def list_all_iff)

lemma plane_payload_sized:
  assumes "plane_payload tokens ty leading heads = Inr (head_bytes, page_bytes)"
    and "shape_ok (ty, leading, heads)"
  shows "unat head_bytes = nat leading * unat tokens * nat (dtype_size ty)"
    "unat page_bytes = unat head_bytes * nat heads"
proof -
  have size: "unat (of_int (dtype_size ty) :: u64) = nat (dtype_size ty)"
    by (cases ty) simp_all
  note tokens = unat_ucast_u32 [of tokens]
  obtain n where "host_checked_mul (of_int leading) (ucast tokens) = Inr n"
      "host_checked_mul n (of_int (dtype_size ty)) = Inr head_bytes"
      "host_checked_mul head_bytes (of_int heads) = Inr page_bytes"
    using assms(1) by (auto simp: plane_payload_def head_payload_def bindE_Inr)
  from this [THEN host_checked_mul_Inr]
  show "unat head_bytes = nat leading * unat tokens * nat (dtype_size ty)"
      "unat page_bytes = unat head_bytes * nat heads"
    using assms(2) size tokens by (simp_all add: shape_ok_def unat_int32)
qed

lemma push_plane_packed:
  assumes "push_plane tokens ty leading heads (ps, c) = Inr (ps', c')"
    and "packed_planes (unat c) ps" "shape_ok (ty, leading, heads)" "tokens \<noteq> 0"
  shows "packed_planes (unat c') ps' \<and> unat c \<le> unat c' \<and>
    (\<exists>p. ps' = ps @ [p] \<and> sized tokens (ty, leading, heads) p \<and> unat c \<le> unat (hp_offset p))"
proof -
  obtain cursor head_bytes page_bytes where
      a: "host_align_up c kHostKVAlignment = Inr cursor"
    and b: "plane_payload tokens ty leading heads = Inr (head_bytes, page_bytes)"
    and d: "host_checked_add cursor page_bytes = Inr c'"
    and ps': "ps' = ps @ [\<lparr>hp_offset = cursor, hp_page_payload_bytes = page_bytes,
      hp_head_payload_bytes = head_bytes\<rparr>]"
    using assms(1) by (auto simp: push_plane_def bindE_Inr)
  note sizes = plane_payload_sized [OF b assms(3)]
  have "0 < nat (dtype_size ty)"
    by (cases ty) simp_all
  then have pos: "0 < unat page_bytes"
    using sizes assms(3,4) by (auto simp: shape_ok_def unat_gt_0)
  have c': "unat c' = unat cursor + unat page_bytes"
    using d by (simp add: host_checked_add_eq unat_checked_add)
  have "packed_planes (unat c') ps'"
    using assms(2) host_aligned [OF a] pos c' unfolding ps'
    by (auto simp: packed_planes_def sorted_wrt_append plane_end_def list_all_iff)
  then show ?thesis
    using host_aligned [OF a] c' sizes ps' by (simp add: sized_def)
qed

text \<open>Placing a list of planes; the loops of all formats are instances.\<close>

fun push_all :: "u32 \<Rightarrow> plane_shape list \<Rightarrow>
    host_kv_plane_layout list \<times> u64 \<Rightarrow> exn + (host_kv_plane_layout list \<times> u64)" where
  "push_all tokens [] st = Inr st"
| "push_all tokens ((ty, leading, heads) # ss) st =
     bindE (push_plane tokens ty leading heads st) (\<lambda>st'. push_all tokens ss st')"

lemma push_all_append: "push_all tokens (ss @ ts) st = bindE (push_all tokens ss st) (push_all tokens ts)"
  by (induction tokens ss st rule: push_all.induct) (auto simp: bindE_def split: sum.split)

lemma push_all_packed:
  assumes "push_all tokens ss (ps, c) = Inr (ps', c')"
    and "packed_planes (unat c) ps" "list_all shape_ok ss" "tokens \<noteq> 0"
  shows "packed_planes (unat c') ps' \<and> unat c \<le> unat c' \<and>
    (\<exists>new. ps' = ps @ new \<and> list_all2 (sized tokens) ss new \<and> list_all (\<lambda>p. unat c \<le> unat (hp_offset p)) new)"
  using assms
proof (induction ss arbitrary: ps c)
  case (Cons s ss)
  obtain ty leading heads where s: "s = (ty, leading, heads)"
    by (cases s) auto
  obtain ps1 c1 where one: "push_plane tokens ty leading heads (ps, c) = Inr (ps1, c1)"
      and rest: "push_all tokens ss (ps1, c1) = Inr (ps', c')"
    using Cons.prems(1) by (auto simp: s bindE_Inr)
  have shape: "shape_ok (ty, leading, heads)"
    using Cons.prems(3) by (simp add: s)
  obtain p where p: "ps1 = ps @ [p]" "sized tokens s p" "unat c \<le> unat (hp_offset p)"
      "packed_planes (unat c1) ps1" "unat c \<le> unat c1"
    using push_plane_packed [OF one Cons.prems(2) shape Cons.prems(4)] s by blast
  obtain new where "packed_planes (unat c') ps'" "unat c1 \<le> unat c'" "ps' = ps1 @ new"
      "list_all2 (sized tokens) ss new" "list_all (\<lambda>p. unat c1 \<le> unat (hp_offset p)) new"
    using Cons.IH [OF rest p(4) _ Cons.prems(4)] Cons.prems(3) by auto
  then show ?case
    using p by (auto simp: list_all_iff intro!: exI [of _ "p # new"])
qed simp


subsection \<open>The loops place lists of planes\<close>

definition oscar_l1_shapes :: "kv_page_geometry \<Rightarrow> nat \<Rightarrow> plane_shape list" where
  "oscar_l1_shapes g layer = (let heads = pg_head_extent (gm_planes g ! (layer * 4)) in
     [(U8, kD256OscarCodeExtent * 2, heads), (U8, kD256OscarCodeExtent * 2, heads),
      (BF16, kD256OscarScaleExtent, heads), (BF16, kD256OscarScaleExtent, heads)])"

definition oscar_l2_shapes :: "kv_page_geometry \<Rightarrow> nat \<Rightarrow> plane_shape list" where
  "oscar_l2_shapes g layer = (let heads = pg_head_extent (gm_planes g ! (layer * 4)) in
     [(FP16, kD256KVCacheHeadDim, heads), (FP16, kD256KVCacheHeadDim, heads)])"

definition native_shape :: "kv_page_geometry \<Rightarrow> dtype list \<Rightarrow> nat \<Rightarrow> plane_shape" where
  "native_shape g storage_dtypes index = (let plane = gm_planes g ! index in
     (storage_dtype_at storage_dtypes plane index, pg_leading_extent plane, pg_head_extent plane))"

definition int32_geometry :: "kv_page_geometry \<Rightarrow> bool" where
  "int32_geometry g \<longleftrightarrow> list_all (\<lambda>plane. pg_leading_extent plane \<le> INT32_MAX \<and> pg_head_extent plane \<le> INT32_MAX) (gm_planes g)"

lemma append_plane_Inr:
  "append_plane tokens ty leading heads (types, pc) = Inr (types', pc') \<longleftrightarrow>
     0 < leading \<and> 0 < heads \<and> types' = types @ [ty] \<and> push_plane tokens ty leading heads pc = Inr pc'"
  by (cases pc') (auto simp: append_plane_def bindE_Inr)

lemma oscar_l1_places:
  assumes "oscar_l1_loop g layers (types, pc) = Inr (types', pc')"
  shows "push_all (gm_page_tokens g) (concat (map (oscar_l1_shapes g) layers)) pc = Inr pc' \<and>
    types' = types @ map fst (concat (map (oscar_l1_shapes g) layers)) \<and>
    (\<forall>layer \<in> set layers. 0 < pg_head_extent (gm_planes g ! (layer * 4)))"
  using assms
proof (induction layers arbitrary: types pc)
  case (Cons layer layers)
  obtain pc1 pc2 pc3 pc4 where step:
    "0 < pg_head_extent (gm_planes g ! (layer * 4))"
    "push_all (gm_page_tokens g) (oscar_l1_shapes g layer) pc = Inr pc4"
    "oscar_l1_loop g layers (types @ map fst (oscar_l1_shapes g layer), pc4) = Inr (types', pc')"
    using Cons.prems
    by (auto simp: Let_def bindE_Inr append_plane_Inr oscar_l1_shapes_def split: if_splits)
  then show ?case
    using Cons.IH [OF step(3)] by (simp add: push_all_append)
qed simp

lemma oscar_l2_places:
  assumes "oscar_l2_loop g layers (types, pc) = Inr (types', pc')"
  shows "push_all (gm_page_tokens g) (concat (map (oscar_l2_shapes g) layers)) pc = Inr pc' \<and>
    types' = types @ map fst (concat (map (oscar_l2_shapes g) layers))"
  using assms
proof (induction layers arbitrary: types pc)
  case (Cons layer layers)
  obtain pc2 where step:
    "push_all (gm_page_tokens g) (oscar_l2_shapes g layer) pc = Inr pc2"
    "oscar_l2_loop g layers (types @ map fst (oscar_l2_shapes g layer), pc2) = Inr (types', pc')"
    using Cons.prems
    by (auto simp: Let_def bindE_Inr append_plane_Inr oscar_l2_shapes_def)
  then show ?case
    using Cons.IH [OF step(2)] by (simp add: push_all_append)
qed simp

lemma native_places:
  assumes "native_loop g sd is pc = Inr pc'"
  shows "push_all (gm_page_tokens g) (map (native_shape g sd) is) pc = Inr pc' \<and>
    (\<forall>i \<in> set is. 0 < pg_leading_extent (gm_planes g ! i) \<and> 0 < pg_head_extent (gm_planes g ! i))"
  using assms
  by (induction "is" arbitrary: pc) (auto simp: Let_def bindE_Inr native_shape_def split: if_splits)

text \<open>All planes of a planned layout, in the order of the record.\<close>

definition planned_shapes :: "host_kv_page_layout \<Rightarrow> plane_shape list" where
  "planned_shapes L =
     (let g = hl_geometry L; layers = [0 ..< length (gm_planes g) div 4] in
      if hl_storage_format L = OscarQ4AndFp16
      then concat (map (oscar_l1_shapes g) layers) @ concat (map (oscar_l2_shapes g) layers)
      else map (native_shape g (hl_storage_dtypes L)) [0 ..< length (gm_planes g)])"

text \<open>
  The contract of a page record: the planes have the sizes of their shapes, start at multiples of
  256, lie behind one another and inside the stride; the first tier lies before the second.
\<close>

definition layout_packed :: "host_kv_page_layout \<Rightarrow> bool" where
  "layout_packed L \<longleftrightarrow>
     list_all2 (sized (gm_page_tokens (hl_geometry L))) (planned_shapes L) (hl_planes L) \<and>
     packed_planes (unat (hl_page_stride L)) (hl_planes L) \<and>
     hl_planes L \<noteq> [] \<and> 256 dvd unat (hl_page_stride L)"

definition tiers_separate :: "host_kv_page_layout \<Rightarrow> bool" where
  "tiers_separate L \<longleftrightarrow> (let n = length (gm_planes (hl_geometry L)) in
     list_all (\<lambda>p. plane_end p \<le> unat (hl_l1_page_payload_bytes L)) (take n (hl_planes L)) \<and>
     list_all (\<lambda>p. unat (hl_l2_offset L) \<le> unat (hp_offset p) \<and>
       plane_end p \<le> unat (hl_l2_offset L) + unat (hl_l2_page_payload_bytes L)) (drop n (hl_planes L)) \<and>
     hl_l1_offset L = 0 \<and> unat (hl_l1_page_payload_bytes L) \<le> unat (hl_l2_offset L) \<and>
     256 dvd unat (hl_l2_offset L) \<and>
     unat (hl_l2_offset L) + unat (hl_l2_page_payload_bytes L) \<le> unat (hl_page_stride L))"

lemma packed_Nil [simp]: "packed_planes c []"
  by (simp add: packed_planes_def)

lemma native_layout_packed:
  assumes "native_layout g sd = Inr L" "int32_geometry g" "gm_page_tokens g \<noteq> 0" "gm_planes g \<noteq> []"
  shows "layout_packed L"
proof -
  obtain planes cursor stride where
      loop: "native_loop g sd [0 ..< length (gm_planes g)] ([], 0) = Inr (planes, cursor)"
    and stride: "host_align_up cursor kHostKVAlignment = Inr stride"
    and L: "hl_geometry L = g" "hl_storage_dtypes L = sd" "hl_planes L = planes"
      "hl_page_stride L = stride" "hl_storage_format L \<noteq> OscarQ4AndFp16"
    using assms(1) by (auto simp: native_layout_def bindE_Inr split: if_splits prod.splits)
  define ss where "ss = map (native_shape g sd) [0 ..< length (gm_planes g)]"
  have ss: "push_all (gm_page_tokens g) ss ([], 0) = Inr (planes, cursor)" "list_all shape_ok ss"
    using native_places [OF loop] assms(2)
    by (auto simp: ss_def list_all_iff int32_geometry_def shape_ok_def native_shape_def Let_def)
  have "packed_planes (unat cursor) planes" "list_all2 (sized (gm_page_tokens g)) ss planes"
    using push_all_packed [OF ss(1) _ ss(2) assms(3)] by auto
  moreover have "planes \<noteq> []"
    using calculation(2) assms(4) by (auto simp: ss_def)
  ultimately show ?thesis
    using host_aligned [OF stride] L packed_planes_mono
    by (auto simp: layout_packed_def planned_shapes_def ss_def)
qed


lemma oscar_shapes_ok:
  assumes "int32_geometry g" "\<forall>layer \<in> set layers. 0 < pg_head_extent (gm_planes g ! (layer * 4))"
    and "\<forall>layer \<in> set layers. layer * 4 < length (gm_planes g)"
  shows "list_all shape_ok (concat (map (oscar_l1_shapes g) layers))"
    "list_all shape_ok (concat (map (oscar_l2_shapes g) layers))"
  using assms
  by (auto simp: list_all_iff oscar_l1_shapes_def oscar_l2_shapes_def shape_ok_def Let_def int32_geometry_def
      INT32_MAX_def kD256OscarCodeExtent_def kD256OscarScaleExtent_def kD256KVCacheHeadDim_def)

lemma oscar_layout_InrD:
  assumes "oscar_layout g sd = Inr L"
  obtains types1 planes1 cursor1 planes2 cursor2 where
    "oscar_l1_loop g [0 ..< length (gm_planes g) div 4] ([], [], 0) = Inr (types1, planes1, cursor1)"
    "host_align_up cursor1 kHostKVAlignment = Inr (hl_l2_offset L)"
    "oscar_l2_loop g [0 ..< length (gm_planes g) div 4] (types1, planes1, hl_l2_offset L) =
       Inr (hl_storage_dtypes L, planes2, cursor2)"
    "host_align_up cursor2 kHostKVAlignment = Inr (hl_page_stride L)"
    "hl_geometry L = g" "hl_planes L = planes2" "hl_storage_format L = OscarQ4AndFp16" "hl_l1_offset L = 0"
    "hl_l1_page_payload_bytes L = cursor1" "hl_l2_page_payload_bytes L = cursor2 - hl_l2_offset L"
    "length (gm_planes g) mod 4 = 0"
  using assms that
  by (auto simp: oscar_layout_def Let_def bindE_Inr split: if_splits prod.splits)

lemma oscar_layout_packed:
  assumes "oscar_layout g sd = Inr L" "int32_geometry g" "gm_page_tokens g \<noteq> 0" "gm_planes g \<noteq> []"
  shows "layout_packed L \<and> tiers_separate L"
proof -
  let ?layers = "[0 ..< length (gm_planes g) div 4]"
  obtain types1 planes1 cursor1 planes2 cursor2 where
      one: "oscar_l1_loop g ?layers ([], [], 0) = Inr (types1, planes1, cursor1)"
    and l2: "host_align_up cursor1 kHostKVAlignment = Inr (hl_l2_offset L)"
    and two: "oscar_l2_loop g ?layers (types1, planes1, hl_l2_offset L) = Inr (hl_storage_dtypes L, planes2, cursor2)"
    and stride: "host_align_up cursor2 kHostKVAlignment = Inr (hl_page_stride L)"
    and L: "hl_geometry L = g" "hl_planes L = planes2" "hl_storage_format L = OscarQ4AndFp16" "hl_l1_offset L = 0"
      "hl_l1_page_payload_bytes L = cursor1" "hl_l2_page_payload_bytes L = cursor2 - hl_l2_offset L"
      "length (gm_planes g) mod 4 = 0"
    by (rule oscar_layout_InrD [OF assms(1)])
  let ?s1 = "concat (map (oscar_l1_shapes g) ?layers)" and ?s2 = "concat (map (oscar_l2_shapes g) ?layers)"
  have heads: "\<forall>layer \<in> set ?layers. 0 < pg_head_extent (gm_planes g ! (layer * 4))"
    and push1: "push_all (gm_page_tokens g) ?s1 ([], 0) = Inr (planes1, cursor1)"
    using oscar_l1_places [OF one] by auto
  have push2: "push_all (gm_page_tokens g) ?s2 (planes1, hl_l2_offset L) = Inr (planes2, cursor2)"
    using oscar_l2_places [OF two] by auto
  have "\<forall>layer \<in> set ?layers. layer * 4 < length (gm_planes g)"
    by auto
  note shapes = oscar_shapes_ok [OF assms(2) heads this]
  have A: "packed_planes (unat cursor1) planes1" "list_all2 (sized (gm_page_tokens g)) ?s1 planes1"
    using push_all_packed [OF push1 _ shapes(1) assms(3)] by auto
  have "packed_planes (unat (hl_l2_offset L)) planes1"
    using A(1) host_aligned(1) [OF l2] by (rule packed_planes_mono)
  from push_all_packed [OF push2 this shapes(2) assms(3)]
  obtain new where B: "packed_planes (unat cursor2) planes2" "unat (hl_l2_offset L) \<le> unat cursor2"
      "planes2 = planes1 @ new" "list_all2 (sized (gm_page_tokens g)) ?s2 new"
      "list_all (\<lambda>p. unat (hl_l2_offset L) \<le> unat (hp_offset p)) new"
    by blast
  have n: "length planes1 = length (gm_planes g)"
    using list_all2_lengthD [OF A(2)] L(7) div_mult_mod_eq [of "length (gm_planes g)" 4]
    by (simp add: length_concat oscar_l1_shapes_def Let_def comp_def sum_list_triv)
  have payload: "unat (hl_l2_offset L) + unat (hl_l2_page_payload_bytes L) = unat cursor2"
    using B(2) by (simp add: L(6) unat_sub word_le_nat_alt)
  have "layout_packed L"
    using B packed_planes_mono [OF B(1) host_aligned(1) [OF stride]] host_aligned(2) [OF stride] L n assms(4)
      list_all2_appendI [OF A(2) B(4)]
    by (auto simp: layout_packed_def planned_shapes_def Let_def)
  moreover have "tiers_separate L"
    using A(1) B host_aligned [OF l2] host_aligned(1) [OF stride] n payload L(1,2,4,5)
    by (auto simp: tiers_separate_def packed_planes_def list_all_iff)
  ultimately show ?thesis ..
qed


lemma plan_layout_impl_cases:
  assumes "plan_layout_impl g sd fmt = Inr L"
  shows "gm_page_tokens g \<noteq> 0" "gm_planes g \<noteq> []" "hl_geometry L = g"
    and "fmt = OscarQ4AndFp16 \<Longrightarrow> oscar_layout g sd = Inr L \<and> hl_storage_format L = OscarQ4AndFp16"
    and "fmt \<noteq> OscarQ4AndFp16 \<Longrightarrow> native_layout g sd = Inr L \<and> hl_storage_format L \<noteq> OscarQ4AndFp16 \<and>
      hl_storage_dtypes L = sd"
  using assms
  by (auto simp: plan_layout_impl_def oscar_layout_def native_layout_def Let_def bindE_Inr
      split: if_splits prod.splits)

lemma planned_layout_packed:
  assumes "plan_layout_impl g sd fmt = Inr L" "int32_geometry g"
  shows "layout_packed L" "fmt = OscarQ4AndFp16 \<Longrightarrow> tiers_separate L"
  using plan_layout_impl_cases [OF assms(1)] native_layout_packed [of g sd L] oscar_layout_packed [of g sd L] assms(2)
  by (cases "fmt = OscarQ4AndFp16"; simp)+

lemma packed_stride_pos:
  assumes "layout_packed L"
  shows "0 < unat (hl_page_stride L)"
  using assms by (cases "hl_planes L") (auto simp: layout_packed_def packed_planes_def plane_end_def)

lemma oscar_replanned:
  assumes "oscar_layout g sd = Inr L"
  shows "oscar_layout g (hl_storage_dtypes L) = Inr L"
  using assms by (auto simp: oscar_layout_def Let_def bindE_Inr split: if_splits prod.splits)

text \<open>
  C10. Every page layout that the planner returns, for any geometry of \<open>std::int32_t\<close> extents, any list
  of storage types and each of the three formats, is a valid packing: one plane per planned shape with
  exactly its payload bytes, every plane at a multiple of 256 bytes and behind the end of the one
  before, all inside a stride that is a positive multiple of 256, so that consecutive pages keep the
  alignment. In the hierarchical format the planes of the first tier end before the second tier
  begins. And planning again from the geometry, the storage types and the format recorded in the
  layout returns the same layout, which is what the constructor of the arena checks.
\<close>

theorem planned_layout_valid:
  assumes "plan_layout_impl g storage_dtypes storage_format = Inr L" "int32_geometry g"
  shows "layout_packed L \<and> 0 < hl_page_stride L \<and>
    (storage_format = OscarQ4AndFp16 \<longrightarrow> tiers_separate L) \<and>
    plan_layout_impl (hl_geometry L) (hl_storage_dtypes L) (hl_storage_format L) = Inr L"
proof -
  note P = plan_layout_impl_cases [OF assms(1)] and packed = planned_layout_packed [OF assms]
  have "plan_layout_impl (hl_geometry L) (hl_storage_dtypes L) (hl_storage_format L) = Inr L"
    using P oscar_replanned [of g storage_dtypes L]
    by (cases "storage_format = OscarQ4AndFp16") (simp_all add: plan_layout_impl_def)
  moreover have "0 < hl_page_stride L"
    using packed_stride_pos [OF packed(1)] by (simp add: word_less_nat_alt)
  ultimately show ?thesis
    using packed by blast
qed

text \<open>One layer with two key/value heads in the hierarchical format.\<close>

definition example_geometry :: kv_page_geometry where
  "example_geometry = \<lparr>gm_page_tokens = 64, gm_device_plane_order = PageMajor,
     gm_planes = [\<lparr>pg_dtype = U8, pg_leading_extent = 64, pg_head_extent = 2, pg_alignment = 256\<rparr>,
       \<lparr>pg_dtype = U8, pg_leading_extent = 64, pg_head_extent = 2, pg_alignment = 256\<rparr>,
       \<lparr>pg_dtype = BF16, pg_leading_extent = 2, pg_head_extent = 2, pg_alignment = 256\<rparr>,
       \<lparr>pg_dtype = BF16, pg_leading_extent = 2, pg_head_extent = 2, pg_alignment = 256\<rparr>],
     gm_oscar_layout = Contiguous\<rparr>"

definition example_layout :: host_kv_page_layout where
  "example_layout = (case plan_layout_impl example_geometry [] OscarQ4AndFp16 of Inr L \<Rightarrow> L)"

lemma example_planned: "plan_layout_impl example_geometry [] OscarQ4AndFp16 = Inr example_layout"
  by code_simp

theorem planned_layout_valid_witness:
  "tiers_separate example_layout \<and> hl_page_stride example_layout = 164864 \<and> length (hl_planes example_layout) = 6"
proof -
  have "hl_page_stride example_layout = 164864 \<and> length (hl_planes example_layout) = 6"
    by code_simp
  then show ?thesis
    using planned_layout_valid [OF example_planned]
    by (simp add: int32_geometry_def example_geometry_def INT32_MAX_def)
qed


text \<open>
  Asking for the format with FP16 storage without storage types gives the native layout: the planner
  derives this format from the storage types, and the overload passes none.
\<close>

lemma fp16_format_ignored: "plan_layout_format g BFloat16AsFp16 = plan_layout g"
  by (simp add: plan_layout_format_def plan_layout_def plan_layout_impl_def)

section \<open>Transfer work\<close>

definition total_payload :: "host_kv_plane_layout list \<Rightarrow> nat" where
  "total_payload ps = sum_list (map (\<lambda>p. unat (hp_page_payload_bytes p)) ps)"

lemma host_bytes_Inr: "host_bytes ps acc = Inr r \<Longrightarrow> unat r = unat acc + total_payload ps"
  by (induction ps arbitrary: acc)
    (auto simp: bindE_Inr host_checked_add_eq unat_checked_add total_payload_def)

lemma host_bytes_operations_Inr:
  "host_bytes_operations order pgs acc = Inr (bytes, operations) \<Longrightarrow>
     unat bytes = unat (fst acc) + total_payload (map fst pgs) \<and>
     (order = PageMajor \<longrightarrow> unat operations = unat (snd acc) + length pgs)"
proof (induction order pgs acc arbitrary: bytes operations rule: host_bytes_operations.induct)
  case (2 order plane geometry pgs acc)
  then show ?case
    by (fastforce simp: bindE_Inr host_checked_add_eq unat_checked_add total_payload_def)
qed (simp add: total_payload_def)

lemma finish_work_Inr:
  assumes "finish_work bytes pages operations runs = Inr w"
  shows "unat (tw_payload_bytes w) = unat bytes * unat pages"
    "unat (tw_copy_operations w) = unat operations * unat runs"
proof -
  obtain ops where m: "host_checked_mul bytes (ucast pages) = Inr (tw_payload_bytes w)"
      "host_checked_mul operations (ucast runs) = Inr ops" "\<not> ucast (- 1 :: u32) < ops"
      "tw_copy_operations w = ucast ops"
    using assms by (auto simp: finish_work_def bindE_Inr split: if_splits)
  show "unat (tw_payload_bytes w) = unat bytes * unat pages"
    using host_checked_mul_Inr [OF m(1)] by (simp add: unat_ucast_u32)
  have "unat (ucast (- 1 :: u32) :: u64) = 2 ^ 32 - 1"
    by (simp add: unat_ucast_u32 unsigned_minus_1_eq_mask mask_eq_exp_minus_1)
  then have "unat ops < 2 ^ 32"
    using m(3) unfolding word_less_nat_alt not_less by simp
  then have "unat (ucast ops :: u32) = unat ops"
    by (simp add: unsigned_ucast_eq take_bit_nat_eq_self)
  then show "unat (tw_copy_operations w) = unat operations * unat runs"
    using host_checked_mul_Inr [OF m(2)] m(4) by (simp add: unat_ucast_u32)
qed

text \<open>
  The work of a transfer in the plane-by-plane formats is exact: every page carries the payload of all
  its planes, and in the page-major order every run is one copy per plane. The device copy counts one
  copy per plane and page.
\<close>

lemma transfer_work_exact:
  assumes "plan_host_kv_transfer_work L pages runs = Inr w" "hl_storage_format L \<noteq> OscarQ4AndFp16" "pages \<noteq> 0"
  shows "unat (tw_payload_bytes w) = total_payload (hl_planes L) * unat pages"
    and "gm_device_plane_order (hl_geometry L) = PageMajor \<Longrightarrow>
      unat (tw_copy_operations w) = length (hl_planes L) * unat runs"
proof -
  obtain bytes operations where
      loop: "host_bytes_operations (gm_device_plane_order (hl_geometry L))
        (zip (hl_planes L) (gm_planes (hl_geometry L))) (0, 0) = Inr (bytes, operations)"
    and fin: "finish_work bytes pages operations runs = Inr w"
    and len: "length (hl_planes L) = length (gm_planes (hl_geometry L))"
    using assms by (auto simp: plan_host_kv_transfer_work_def bindE_Inr split: if_splits prod.splits)
  show "unat (tw_payload_bytes w) = total_payload (hl_planes L) * unat pages"
    "gm_device_plane_order (hl_geometry L) = PageMajor \<Longrightarrow>
      unat (tw_copy_operations w) = length (hl_planes L) * unat runs"
    using host_bytes_operations_Inr [OF loop] finish_work_Inr [OF fin] len by simp_all
qed

lemma device_work_exact:
  assumes "plan_device_kv_copy_work L pages = Inr w" "hl_storage_format L \<noteq> OscarQ4AndFp16" "pages \<noteq> 0"
    and "length (hl_planes L) < 2 ^ 64"
  shows "unat (tw_payload_bytes w) = total_payload (hl_planes L) * unat pages"
    and "unat (tw_copy_operations w) = length (hl_planes L) * unat pages"
proof -
  obtain bytes where loop: "host_bytes (hl_planes L) 0 = Inr bytes"
    and fin: "finish_work bytes pages (of_nat (length (hl_planes L))) pages = Inr w"
    using assms(1-3) by (auto simp: plan_device_kv_copy_work_def bindE_Inr split: if_splits)
  show "unat (tw_payload_bytes w) = total_payload (hl_planes L) * unat pages"
    "unat (tw_copy_operations w) = length (hl_planes L) * unat pages"
    using host_bytes_Inr [OF loop] finish_work_Inr [OF fin] assms(4)
    by (simp_all add: unat_of_nat take_bit_nat_eq_self)
qed

end
