(* ===== verification/Host_KV_Arena.thy ===== *)
theory Host_KV_Arena
  imports Host_KV_Layout Owning_Handles "HOL-Library.Product_Lexorder"
begin

text \<open>
  Model of the arena of \<open>src/core/host_kv_arena.h\<close> and \<open>src/core/host_kv_arena.cpp\<close>: the allocator of KV page
  records in pinned host memory, with its descriptors, its sorted list of free extents, the owning
  allocations, splitting, and the two-phase replacement by a planned recipe.

  Offsets, byte counts, page counts and descriptor indices are natural numbers: the invariant bounds
  every extent by the capacity, a \<open>std::size_t\<close>, so the additions of the source do not wrap, and the
  one multiplication that could is tested as in the source. Generations are 32-bit and the revision
  is a 64-bit word. A pointer to an arena is a number, \<open>None\<close> the null pointer; \<open>ha_self\<close> is the address of
  the arena itself. The exhausted index \<open>UINT32_MAX\<close> of \<open>take_descriptor\<close> is \<open>None\<close>; no descriptor has it.
  The pinned buffer is the one of \<open>Owning_Handles\<close>, with the result of \<open>cudaMallocHost\<close> as an argument.
  \<open>reserve\<close> is not modelled. \<open>insert_free_extent\<close> is the member function and also the lambda of the same text in the two
  planners.
\<close>

definition SIZE_MAX_nat :: nat where
  "SIZE_MAX_nat = 18446744073709551615"

definition UINT32_MAX_nat :: nat where
  "UINT32_MAX_nat = 4294967295"

section \<open>State\<close>

record host_handle =
  hh_owner :: "nat option"
  hh_descriptor :: nat
  hh_generation :: u32

definition null_handle :: host_handle where
  "null_handle = \<lparr>hh_owner = None, hh_descriptor = 0, hh_generation = 0\<rparr>"

definition handle_valid :: "host_handle \<Rightarrow> bool" where
  "handle_valid h \<longleftrightarrow> hh_owner h \<noteq> None"

record host_allocation =
  al_owner :: "nat option"
  al_descriptor :: nat
  al_generation :: u32

definition al_valid :: "host_allocation \<Rightarrow> bool" where
  "al_valid al \<longleftrightarrow> al_owner al \<noteq> None"

definition disarmed :: host_allocation where
  "disarmed = \<lparr>al_owner = None, al_descriptor = 0, al_generation = 0\<rparr>"

definition al_handle :: "host_allocation \<Rightarrow> host_handle" where
  "al_handle al =
     (if al_valid al
      then \<lparr>hh_owner = al_owner al, hh_descriptor = al_descriptor al, hh_generation = al_generation al\<rparr>
      else null_handle)"

record descriptor =
  de_offset :: nat
  de_bytes :: nat
  de_layout :: nat
  de_pages :: nat
  de_generation :: u32
  de_active :: bool

definition descriptor_init :: descriptor where
  "descriptor_init = \<lparr>de_offset = 0, de_bytes = 0, de_layout = 0, de_pages = 0, de_generation = 1, de_active = False\<rparr>"

record free_extent =
  fe_offset :: nat
  fe_bytes :: nat

record host_arena =
  ha_self :: nat
  ha_backing :: "pinned_buffer option"
  ha_capacity_bytes :: nat
  ha_occupied_bytes :: nat
  ha_layouts :: "host_kv_page_layout list"
  ha_descriptors :: "descriptor list"
  ha_free_descriptors :: "nat list"
  ha_free_extents :: "free_extent list"
  ha_revision :: u64

definition increment_generation :: "u32 \<Rightarrow> u32" where
  "increment_generation g = (let g' = g + 1 in if g' = 0 then g' + 1 else g')"

definition bump_revision :: "host_arena \<Rightarrow> host_arena" where
  "bump_revision a = (let r = ha_revision a + 1 in a\<lparr>ha_revision := if r = 0 then r + 1 else r\<rparr>)"

definition page_stride :: "host_kv_page_layout \<Rightarrow> nat" where
  "page_stride L = unat (hl_page_stride L)"

section \<open>Construction\<close>

fun check_layouts :: "host_kv_page_layout list \<Rightarrow> host_kv_page_layout list \<Rightarrow> exn + unit" where
  "check_layouts previous [] = Inr ()"
| "check_layouts previous (L # Ls) =
     bindE (plan_layout_impl (hl_geometry L) (hl_storage_dtypes L) (hl_storage_format L)) (\<lambda>planned.
       if planned \<noteq> L then Inl Invalid_argument
       else if list_ex (\<lambda>P. hl_geometry P = hl_geometry L) previous then Inl Invalid_argument
       else check_layouts (previous @ [L]) Ls)"

definition smallest_layout :: "host_kv_page_layout list \<Rightarrow> host_kv_page_layout" where
  "smallest_layout Ls = foldl (\<lambda>best L. if page_stride L < page_stride best then L else best) (hd Ls) (tl Ls)"

definition empty_arena :: "nat \<Rightarrow> nat \<Rightarrow> host_kv_page_layout list \<Rightarrow> host_arena" where
  "empty_arena self capacity layouts =
     \<lparr>ha_self = self, ha_backing = None, ha_capacity_bytes = capacity, ha_occupied_bytes = 0,
      ha_layouts = layouts, ha_descriptors = [], ha_free_descriptors = [], ha_free_extents = [],
      ha_revision = 1\<rparr>"

definition arena_construct ::
    "nat \<Rightarrow> u64 option \<Rightarrow> nat \<Rightarrow> host_kv_page_layout list \<Rightarrow> exn + host_arena" where
  "arena_construct self malloc capacity layouts =
     bindE (check_layouts [] layouts) (\<lambda>_.
       if capacity = 0 then Inr (empty_arena self capacity layouts)
       else if layouts = [] then Inl Invalid_argument
       else bindE (pinned_new (of_nat capacity) malloc) (\<lambda>memory.
         let maximum_descriptors = capacity div page_stride (smallest_layout layouts) in
         if UINT32_MAX_nat < maximum_descriptors then Inl Overflow_error
         else Inr ((empty_arena self capacity layouts)
           \<lparr>ha_backing := Some memory,
            ha_descriptors := replicate maximum_descriptors descriptor_init,
            ha_free_descriptors := rev [0 ..< maximum_descriptors],
            ha_free_extents := [\<lparr>fe_offset = 0, fe_bytes = capacity\<rparr>]\<rparr>)))"

section \<open>Lookup\<close>

definition same_layout :: "host_kv_page_layout \<Rightarrow> host_kv_page_layout \<Rightarrow> bool" where
  "same_layout candidate layout \<longleftrightarrow>
     hl_geometry candidate = hl_geometry layout \<and>
     hl_storage_format candidate = hl_storage_format layout \<and>
     hl_storage_dtypes candidate = hl_storage_dtypes layout \<and>
     hl_planes candidate = hl_planes layout \<and> hl_page_stride candidate = hl_page_stride layout \<and>
     hl_l1_offset candidate = hl_l1_offset layout \<and>
     hl_l1_page_payload_bytes candidate = hl_l1_page_payload_bytes layout \<and>
     hl_l2_offset candidate = hl_l2_offset layout \<and>
     hl_l2_page_payload_bytes candidate = hl_l2_page_payload_bytes layout"

definition find_layout :: "host_kv_page_layout \<Rightarrow> host_arena \<Rightarrow> nat option" where
  "find_layout layout a = find_index (\<lambda>candidate. same_layout candidate layout) (ha_layouts a)"

definition layout_for :: "kv_page_geometry \<Rightarrow> host_arena \<Rightarrow> host_kv_page_layout option" where
  "layout_for geometry a = find (\<lambda>candidate. hl_geometry candidate = geometry) (ha_layouts a)"

definition find_fit :: "nat \<Rightarrow> free_extent list \<Rightarrow> nat option" where
  "find_fit bytes extents = find_index (\<lambda>f. bytes \<le> fe_bytes f) extents"

definition find_free_extent :: "nat \<Rightarrow> host_arena \<Rightarrow> nat option" where
  "find_free_extent bytes a = find_fit bytes (ha_free_extents a)"

definition valid_handle :: "host_handle \<Rightarrow> host_arena \<Rightarrow> bool" where
  "valid_handle h a \<longleftrightarrow>
     hh_owner h = Some (ha_self a) \<and> hh_descriptor h < length (ha_descriptors a) \<and>
     de_active (ha_descriptors a ! hh_descriptor h) \<and>
     de_generation (ha_descriptors a ! hh_descriptor h) = hh_generation h"

section \<open>Free extents\<close>

definition fe_end :: "free_extent \<Rightarrow> nat" where
  "fe_end f = fe_offset f + fe_bytes f"

definition merge_previous :: "free_extent list \<Rightarrow> free_extent \<Rightarrow> free_extent list \<times> free_extent" where
  "merge_previous before e =
     (if before \<noteq> [] \<and> fe_end (last before) = fe_offset e
      then (butlast before, (last before)\<lparr>fe_bytes := fe_bytes (last before) + fe_bytes e\<rparr>)
      else (before, e))"

fun merge_next :: "free_extent \<Rightarrow> free_extent list \<Rightarrow> free_extent list" where
  "merge_next e [] = [e]"
| "merge_next e (n # rest) =
     (if fe_end e = fe_offset n then e\<lparr>fe_bytes := fe_bytes e + fe_bytes n\<rparr> # rest else e # n # rest)"

definition insert_free_extent :: "free_extent \<Rightarrow> free_extent list \<Rightarrow> free_extent list" where
  "insert_free_extent e extents =
     (let before = takeWhile (\<lambda>c. fe_offset c < fe_offset e) extents;
          after_extents = dropWhile (\<lambda>c. fe_offset c < fe_offset e) extents;
          (before', e') = merge_previous before e
      in before' @ merge_next e' after_extents)"

definition take_extent :: "nat \<Rightarrow> nat \<Rightarrow> free_extent list \<Rightarrow> free_extent list" where
  "take_extent i bytes extents =
     (let f = extents ! i; f' = \<lparr>fe_offset = fe_offset f + bytes, fe_bytes = fe_bytes f - bytes\<rparr> in
      if fe_bytes f' = 0 then take i extents @ drop (Suc i) extents else extents[i := f'])"

section \<open>Allocation, release and split\<close>

definition request_fits :: "host_kv_page_layout \<Rightarrow> nat \<Rightarrow> bool" where
  "request_fits layout pages \<longleftrightarrow> \<not> SIZE_MAX_nat div pages < page_stride layout"

definition can_allocate :: "host_kv_page_layout \<Rightarrow> nat \<Rightarrow> host_arena \<Rightarrow> bool" where
  "can_allocate layout pages a \<longleftrightarrow>
     \<not> (pages = 0 \<or> ha_free_descriptors a = [] \<or> find_layout layout a = None \<or> \<not> request_fits layout pages) \<and>
     find_free_extent (page_stride layout * pages) a \<noteq> None"

definition take_descriptor :: "host_arena \<Rightarrow> nat option \<times> host_arena" where
  "take_descriptor a =
     (if ha_free_descriptors a = [] then (None, a)
      else (Some (last (ha_free_descriptors a)), a\<lparr>ha_free_descriptors := butlast (ha_free_descriptors a)\<rparr>))"

definition place_block :: "nat \<Rightarrow> nat \<Rightarrow> nat \<Rightarrow> nat \<Rightarrow> nat \<Rightarrow> nat \<Rightarrow> host_arena \<Rightarrow> host_arena" where
  "place_block d i offset bytes layout pages a =
     a\<lparr>ha_free_extents := take_extent i bytes (ha_free_extents a),
       ha_descriptors := (ha_descriptors a)[d := (ha_descriptors a ! d)\<lparr>de_offset := offset,
         de_bytes := bytes, de_layout := layout, de_pages := pages, de_active := True\<rparr>],
       ha_occupied_bytes := ha_occupied_bytes a + bytes\<rparr>"

definition arena_allocate ::
    "host_kv_page_layout \<Rightarrow> nat \<Rightarrow> host_arena \<Rightarrow> host_allocation option \<times> host_arena" where
  "arena_allocate layout pages a =
     (case find_layout layout a of None \<Rightarrow> (None, a)
      | Some layout_index \<Rightarrow>
          if pages = 0 \<or> ha_free_descriptors a = [] \<or> \<not> request_fits layout pages then (None, a)
          else
            let bytes = page_stride layout * pages in
            (case find_free_extent bytes a of None \<Rightarrow> (None, a)
             | Some i \<Rightarrow>
                 (case take_descriptor a of
                    (None, a') \<Rightarrow> (None, a')
                  | (Some d, a') \<Rightarrow>
                      let offset = fe_offset (ha_free_extents a' ! i);
                          a'' = bump_revision (place_block d i offset bytes layout_index pages a')
                      in (Some \<lparr>al_owner = Some (ha_self a), al_descriptor = d,
                            al_generation = de_generation (ha_descriptors a'' ! d)\<rparr>, a''))))"

definition release_descriptor :: "nat \<Rightarrow> u32 \<Rightarrow> host_arena \<Rightarrow> bool \<times> host_arena" where
  "release_descriptor d generation a =
     (if length (ha_descriptors a) \<le> d then (False, a)
      else
        let de = ha_descriptors a ! d in
        if \<not> de_active de \<or> de_generation de \<noteq> generation then (False, a)
        else
          let released = \<lparr>fe_offset = de_offset de, fe_bytes = de_bytes de\<rparr>;
              de' = de\<lparr>de_active := False, de_offset := 0, de_bytes := 0, de_pages := 0,
                de_generation := increment_generation (de_generation de)\<rparr>
          in (True, bump_revision (a\<lparr>ha_occupied_bytes := ha_occupied_bytes a - de_bytes de,
                ha_descriptors := (ha_descriptors a)[d := de'],
                ha_free_descriptors := ha_free_descriptors a @ [d],
                ha_free_extents := insert_free_extent released (ha_free_extents a)\<rparr>)))"

text \<open>\<open>release\<close> of an owning allocation on the arena it points to.\<close>

definition al_release :: "host_allocation \<Rightarrow> host_arena \<Rightarrow> bool \<times> host_allocation \<times> host_arena" where
  "al_release al a =
     (if \<not> al_valid al then (False, al, a)
      else let (released, a') = release_descriptor (al_descriptor al) (al_generation al) a
           in (released, disarmed, a'))"

definition al_page_count :: "host_allocation \<Rightarrow> host_arena \<Rightarrow> nat" where
  "al_page_count al a =
     (if \<not> al_valid al \<or> length (ha_descriptors a) \<le> al_descriptor al then 0
      else let de = ha_descriptors a ! al_descriptor al in
        if de_active de \<and> de_generation de = al_generation al then de_pages de else 0)"

text \<open>The move assignment: the target's own block is released, the source is disarmed.\<close>

definition al_move_assign ::
    "host_allocation \<Rightarrow> host_allocation \<Rightarrow> host_arena \<Rightarrow> host_allocation \<times> host_allocation \<times> host_arena" where
  "al_move_assign this other a = (let (_, _, a') = al_release this a in (other, disarmed, a'))"

definition al_move :: "host_allocation \<Rightarrow> host_allocation \<times> host_allocation" where
  "al_move other = (other, disarmed)"

definition al_destroy :: "host_allocation \<Rightarrow> host_arena \<Rightarrow> host_arena" where
  "al_destroy al a = snd (snd (al_release al a))"

definition arena_free_bytes :: "host_arena \<Rightarrow> nat" where
  "arena_free_bytes a = ha_capacity_bytes a - ha_occupied_bytes a"

definition split_blocks :: "nat \<Rightarrow> nat \<Rightarrow> nat \<Rightarrow> host_arena \<Rightarrow> host_arena" where
  "split_blocks l r page_offset a =
     (let original = ha_descriptors a ! l;
          stride = page_stride (ha_layouts a ! de_layout original);
          right_pages = de_pages original - page_offset;
          right' = (ha_descriptors a ! r)\<lparr>de_offset := de_offset original + page_offset * stride,
            de_bytes := right_pages * stride, de_layout := de_layout original,
            de_pages := right_pages, de_active := True\<rparr>;
          left' = original\<lparr>de_generation := increment_generation (de_generation original),
            de_pages := page_offset, de_bytes := page_offset * stride\<rparr>
      in a\<lparr>ha_descriptors := (ha_descriptors a)[r := right', l := left']\<rparr>)"

definition arena_split :: "host_allocation \<Rightarrow> nat \<Rightarrow> host_arena \<Rightarrow>
    exn + ((host_allocation \<times> host_allocation) \<times> host_arena)" where
  "arena_split al page_offset a =
     (if \<not> valid_handle (al_handle al) a then Inl Invalid_argument
      else if page_offset = 0 \<or> de_pages (ha_descriptors a ! al_descriptor al) \<le> page_offset
      then Inl Out_of_range
      else case take_descriptor a of
        (None, _) \<Rightarrow> Inl Logic_error
      | (Some r, a') \<Rightarrow>
          let l = al_descriptor al; a'' = bump_revision (split_blocks l r page_offset a') in
          Inr ((\<lparr>al_owner = Some (ha_self a), al_descriptor = l,
                 al_generation = de_generation (ha_descriptors a'' ! l)\<rparr>,
                \<lparr>al_owner = Some (ha_self a), al_descriptor = r,
                 al_generation = de_generation (ha_descriptors a'' ! r)\<rparr>), a''))"


section \<open>Views\<close>

record host_view =
  hv_handle :: host_handle
  hv_data :: u64
  hv_layout :: "host_kv_page_layout option"
  hv_page_count :: nat

definition allocation_data :: "descriptor \<Rightarrow> host_arena \<Rightarrow> u64" where
  "allocation_data de a =
     (case ha_backing a of None \<Rightarrow> 0 | Some memory \<Rightarrow> pb_data memory + of_nat (de_offset de))"

definition arena_view :: "host_allocation \<Rightarrow> host_arena \<Rightarrow> exn + host_view" where
  "arena_view al a =
     (if \<not> valid_handle (al_handle al) a then Inl Invalid_argument
      else let de = ha_descriptors a ! al_descriptor al in
        Inr \<lparr>hv_handle = al_handle al, hv_data = allocation_data de a,
             hv_layout = Some (ha_layouts a ! de_layout de), hv_page_count = de_pages de\<rparr>)"

definition view_valid :: "host_view \<Rightarrow> host_arena \<Rightarrow> bool" where
  "view_valid v a \<longleftrightarrow> hh_owner (hv_handle v) \<noteq> None \<and> valid_handle (hv_handle v) a"

definition view_layout :: "host_view \<Rightarrow> host_arena \<Rightarrow> exn + host_kv_page_layout" where
  "view_layout v a =
     (if \<not> view_valid v a then Inl Logic_error
      else case hv_layout v of None \<Rightarrow> Inl Logic_error | Some L \<Rightarrow> Inr L)"

definition subview :: "host_view \<Rightarrow> nat \<Rightarrow> nat \<Rightarrow> host_arena \<Rightarrow> exn + host_view" where
  "subview v first n a =
     (if \<not> view_valid v a \<or> n = 0 \<or> hv_page_count v < first \<or> hv_page_count v - first < n
      then Inl Out_of_range
      else Inr (v\<lparr>hv_data := hv_data v + of_nat (first * page_stride (the (hv_layout v))),
                  hv_page_count := n\<rparr>))"

section \<open>Recipes\<close>

record allocation_request =
  rq_layout :: "host_kv_page_layout option"
  rq_pages :: nat

record recipe_target =
  tg_layout :: nat
  tg_pages :: nat
  tg_offset :: nat
  tg_bytes :: nat

record recipe =
  rc_owner :: "nat option"
  rc_arena_revision :: u64
  rc_releases :: "host_handle list"
  rc_targets :: "recipe_target list"

text \<open>The loop over the proposed releases; \<open>prior\<close> are the handles before the current one.\<close>

fun plan_releases :: "host_arena \<Rightarrow> host_handle list \<Rightarrow> host_handle list \<Rightarrow> free_extent list \<Rightarrow>
    free_extent list option" where
  "plan_releases a prior [] simulated = Some simulated"
| "plan_releases a prior (h # hs) simulated =
     (if \<not> valid_handle h a \<or> h \<in> set prior then None
      else let de = ha_descriptors a ! hh_descriptor h in
        plan_releases a (prior @ [h]) hs
          (insert_free_extent \<lparr>fe_offset = de_offset de, fe_bytes = de_bytes de\<rparr> simulated))"

definition plan_target :: "host_arena \<Rightarrow> allocation_request \<Rightarrow> free_extent list \<Rightarrow>
    (recipe_target \<times> free_extent list) option" where
  "plan_target a request simulated =
     (case rq_layout request of None \<Rightarrow> None
      | Some layout \<Rightarrow>
          if rq_pages request = 0 then None
          else (case find_layout layout a of None \<Rightarrow> None
            | Some layout_index \<Rightarrow>
                if \<not> request_fits layout (rq_pages request) then None
                else let bytes = page_stride layout * rq_pages request in
                  (case find_fit bytes simulated of None \<Rightarrow> None
                   | Some i \<Rightarrow>
                       Some (\<lparr>tg_layout = layout_index, tg_pages = rq_pages request,
                              tg_offset = fe_offset (simulated ! i), tg_bytes = bytes\<rparr>,
                             take_extent i bytes simulated))))"

fun plan_targets :: "host_arena \<Rightarrow> allocation_request list \<Rightarrow> free_extent list \<Rightarrow> recipe_target list option" where
  "plan_targets a [] simulated = Some []"
| "plan_targets a (r # rs) simulated =
     (case plan_target a r simulated of None \<Rightarrow> None
      | Some (t, simulated') \<Rightarrow> map_option (Cons t) (plan_targets a rs simulated'))"

definition plan_after_releases ::
    "host_handle list \<Rightarrow> allocation_request list \<Rightarrow> host_arena \<Rightarrow> recipe option" where
  "plan_after_releases proposed_releases target_allocations a =
     (if proposed_releases = [] \<and> target_allocations = [] then None
      else if length (ha_free_descriptors a) + length proposed_releases < length target_allocations then None
      else case plan_releases a [] proposed_releases (ha_free_extents a) of None \<Rightarrow> None
      | Some simulated \<Rightarrow>
          map_option (\<lambda>targets. \<lparr>rc_owner = Some (ha_self a), rc_arena_revision = ha_revision a,
              rc_releases = proposed_releases, rc_targets = targets\<rparr>)
            (plan_targets a target_allocations simulated))"

text \<open>
  \<open>apply_recipe\<close> refuses, adopts the recipe (the released and the new allocations and the arena), or
  calls \<open>std::terminate\<close>. An adopted recipe is consumed: the source empties the moved-from object.
\<close>

datatype apply_outcome =
    Refused
  | Terminated
  | Applied "host_allocation list" "host_allocation list" host_arena

fun release_all :: "host_allocation list \<Rightarrow> host_arena \<Rightarrow> host_arena option" where
  "release_all [] a = Some a"
| "release_all (al # als) a =
     (case al_release al a of (released, _, a') \<Rightarrow> if released then release_all als a' else None)"

fun allocate_all :: "recipe_target list \<Rightarrow> host_arena \<Rightarrow> (host_allocation list \<times> host_arena) option" where
  "allocate_all [] a = Some ([], a)"
| "allocate_all (t # ts) a =
     (case arena_allocate (ha_layouts a ! tg_layout t) (tg_pages t) a of
        (None, _) \<Rightarrow> None
      | (Some al, a') \<Rightarrow>
          let de = ha_descriptors a' ! al_descriptor al in
          if de_offset de \<noteq> tg_offset t \<or> de_bytes de \<noteq> tg_bytes t then None
          else map_option (\<lambda>(als, a''). (al # als, a'')) (allocate_all ts a'))"

definition release_matches :: "host_arena \<Rightarrow> host_allocation option \<Rightarrow> host_handle \<Rightarrow> bool" where
  "release_matches a al h =
     (case al of None \<Rightarrow> False | Some al \<Rightarrow> al_handle al = h \<and> valid_handle h a)"

definition target_valid :: "host_arena \<Rightarrow> host_allocation \<Rightarrow> recipe_target \<Rightarrow> bool" where
  "target_valid a out t \<longleftrightarrow>
     \<not> (al_valid out \<or> length (ha_layouts a) \<le> tg_layout t \<or> tg_pages t = 0 \<or>
        \<not> request_fits (ha_layouts a ! tg_layout t) (tg_pages t) \<or>
        page_stride (ha_layouts a ! tg_layout t) * tg_pages t \<noteq> tg_bytes t)"

definition apply_recipe ::
    "recipe \<Rightarrow> host_allocation option list \<Rightarrow> host_allocation list \<Rightarrow> host_arena \<Rightarrow> apply_outcome" where
  "apply_recipe rc proposed_releases target_allocations a =
     (if rc_owner rc \<noteq> Some (ha_self a) \<or> rc_arena_revision rc \<noteq> ha_revision a \<or>
         length (rc_releases rc) \<noteq> length proposed_releases \<or>
         length (rc_targets rc) \<noteq> length target_allocations
      then Refused
      else if \<not> list_all2 (release_matches a) proposed_releases (rc_releases rc) then Refused
      else if \<not> list_all2 (target_valid a) target_allocations (rc_targets rc) then Refused
      else case release_all (map the proposed_releases) a of None \<Rightarrow> Terminated
      | Some a1 \<Rightarrow>
          (case allocate_all (rc_targets rc) a1 of None \<Rightarrow> Terminated
           | Some (als, a2) \<Rightarrow> Applied (map (\<lambda>_. disarmed) proposed_releases) als a2))"

section \<open>Planning with partial releases\<close>

record suballocation_release =
  sr_allocation :: host_handle
  sr_begin_page :: nat
  sr_page_count :: nat

definition nat_checked_add :: "nat \<Rightarrow> nat \<Rightarrow> exn + nat" where
  "nat_checked_add a b = (if SIZE_MAX_nat - a < b then Inl Overflow_error else Inr (a + b))"

definition nat_checked_mul :: "nat \<Rightarrow> nat \<Rightarrow> exn + nat" where
  "nat_checked_mul a b = (if b \<noteq> 0 \<and> SIZE_MAX_nat div b < a then Inl Overflow_error else Inr (a * b))"

definition overlaps :: "suballocation_release \<Rightarrow> suballocation_release \<Rightarrow> bool" where
  "overlaps r other \<longleftrightarrow> sr_allocation other = sr_allocation r \<and>
     sr_begin_page r < sr_begin_page other + sr_page_count other \<and>
     sr_begin_page other < sr_begin_page r + sr_page_count r"

fun plan_subreleases :: "host_arena \<Rightarrow> suballocation_release list \<Rightarrow> suballocation_release list \<Rightarrow>
    free_extent list \<Rightarrow> exn + free_extent list option" where
  "plan_subreleases a prior [] simulated = Inr (Some simulated)"
| "plan_subreleases a prior (r # rs) simulated =
     (if \<not> valid_handle (sr_allocation r) a \<or> sr_page_count r = 0 then Inr None
      else
        let de = ha_descriptors a ! hh_descriptor (sr_allocation r);
            stride = page_stride (ha_layouts a ! de_layout de) in
        if de_pages de < sr_begin_page r \<or> de_pages de - sr_begin_page r < sr_page_count r then Inr None
        else if list_ex (overlaps r) prior then Inr None
        else bindE (nat_checked_mul (sr_begin_page r) stride) (\<lambda>distance.
             bindE (nat_checked_add (de_offset de) distance) (\<lambda>offset.
             bindE (nat_checked_mul (sr_page_count r) stride) (\<lambda>bytes.
               plan_subreleases a (prior @ [r]) rs
                 (insert_free_extent \<lparr>fe_offset = offset, fe_bytes = bytes\<rparr> simulated)))))"

definition retained_runs :: "nat \<Rightarrow> (nat \<times> nat) list \<Rightarrow> nat" where
  "retained_runs pages intervals =
     (let (cursor, runs) = fold (\<lambda>(first, last_page) (cursor, runs).
            (last_page, if cursor < first then runs + 1 else runs)) (sort intervals) (0, 0)
      in if cursor < pages then runs + 1 else runs)"

text \<open>The descriptors available and required after the releases, counted once per allocation.\<close>

fun count_descriptors :: "host_arena \<Rightarrow> suballocation_release list \<Rightarrow> suballocation_release list \<Rightarrow>
    suballocation_release list \<Rightarrow> nat \<times> nat \<Rightarrow> nat \<times> nat" where
  "count_descriptors a every prior [] counts = counts"
| "count_descriptors a every prior (r # rs) counts =
     (if list_ex (\<lambda>p. sr_allocation p = sr_allocation r) prior
      then count_descriptors a every (prior @ [r]) rs counts
      else
        let intervals = map (\<lambda>q. (sr_begin_page q, sr_begin_page q + sr_page_count q))
              (filter (\<lambda>q. sr_allocation q = sr_allocation r) every);
            runs = retained_runs (de_pages (ha_descriptors a ! hh_descriptor (sr_allocation r))) intervals;
            (available, required) = counts
        in count_descriptors a every (prior @ [r]) rs
             (if runs = 0 then (available + 1, required)
              else if 1 < runs then (available, required + (runs - 1)) else (available, required)))"

definition can_allocate_after_suballocation_releases ::
    "suballocation_release list \<Rightarrow> allocation_request list \<Rightarrow> host_arena \<Rightarrow> exn + bool" where
  "can_allocate_after_suballocation_releases proposed_releases target_allocations a =
     (if proposed_releases = [] \<and> target_allocations = [] then Inr True
      else bindE (plan_subreleases a [] proposed_releases (ha_free_extents a)) (\<lambda>planned.
        case planned of None \<Rightarrow> Inr False
        | Some simulated \<Rightarrow>
            let (available, required) = count_descriptors a proposed_releases [] proposed_releases
                  (length (ha_free_descriptors a), length target_allocations)
            in Inr (if available < required then False
                    else plan_targets a target_allocations simulated \<noteq> None)))"


section \<open>Free extents as sets of bytes\<close>

definition fe_set :: "free_extent \<Rightarrow> nat set" where
  "fe_set f = {fe_offset f ..< fe_end f}"

definition free_set :: "free_extent list \<Rightarrow> nat set" where
  "free_set xs = (\<Union>f \<in> set xs. fe_set f)"

text \<open>Sorted, nonempty, inside the capacity, and with a gap between neighbours.\<close>

definition coalesced :: "nat \<Rightarrow> free_extent list \<Rightarrow> bool" where
  "coalesced cap xs \<longleftrightarrow>
     sorted_wrt (\<lambda>f g. fe_end f < fe_offset g) xs \<and> list_all (\<lambda>f. 0 < fe_bytes f \<and> fe_end f \<le> cap) xs"

lemma free_set_simps [simp]:
  "free_set [] = {}" "free_set (f # xs) = fe_set f \<union> free_set xs" "free_set (xs @ ys) = free_set xs \<union> free_set ys"
  by (auto simp: free_set_def)

lemma coalesced_Nil [simp]: "coalesced cap []"
  by (simp add: coalesced_def)

lemma coalesced_append:
  "coalesced cap (xs @ ys) \<longleftrightarrow> coalesced cap xs \<and> coalesced cap ys \<and>
     (\<forall>f \<in> set xs. \<forall>g \<in> set ys. fe_end f < fe_offset g)"
  by (auto simp: coalesced_def sorted_wrt_append)

lemma coalesced_Cons:
  "coalesced cap (f # xs) \<longleftrightarrow> 0 < fe_bytes f \<and> fe_end f \<le> cap \<and> (\<forall>g \<in> set xs. fe_end f < fe_offset g) \<and> coalesced cap xs"
  by (auto simp: coalesced_def)

lemma coalesced_in_capacity: "coalesced cap xs \<Longrightarrow> free_set xs \<subseteq> {0 ..< cap}"
  by (fastforce simp: coalesced_def free_set_def fe_set_def list_all_iff)

text \<open>What lies before and behind a new extent that meets no free byte.\<close>

lemma extent_before:
  assumes "coalesced cap xs" "fe_set e \<inter> free_set xs = {}" "0 < fe_bytes e"
    and "f \<in> set xs" "fe_offset f < fe_offset e"
  shows "fe_end f \<le> fe_offset e"
proof (rule ccontr)
  assume "\<not> ?thesis"
  then have "fe_offset e \<in> fe_set f" "fe_offset e \<in> fe_set e"
    using assms(3,5) by (auto simp: fe_set_def fe_end_def)
  then show False
    using assms(2,4) by (auto simp: free_set_def)
qed

lemma extent_behind:
  assumes "coalesced cap xs" "fe_set e \<inter> free_set xs = {}" "0 < fe_bytes e"
    and "f \<in> set xs" "fe_offset e \<le> fe_offset f"
  shows "fe_end e \<le> fe_offset f"
proof (rule ccontr)
  assume "\<not> ?thesis"
  then have "fe_offset f \<in> fe_set e"
    using assms(5) by (auto simp: fe_set_def)
  moreover have "fe_offset f \<in> fe_set f"
    using assms(1,4) by (auto simp: fe_set_def fe_end_def coalesced_def list_all_iff)
  ultimately show False
    using assms(2,4) by (auto simp: free_set_def)
qed

lemma merge_previous_ok:
  assumes "coalesced cap before" "0 < fe_bytes e" "fe_end e \<le> cap" "\<forall>f \<in> set before. fe_end f \<le> fe_offset e"
    and "merge_previous before e = (before', e')"
  shows "coalesced cap (before' @ [e']) \<and> free_set (before' @ [e']) = free_set before \<union> fe_set e \<and> fe_end e' = fe_end e"
proof (cases "before \<noteq> [] \<and> fe_end (last before) = fe_offset e")
  case True
  obtain bs l where before: "before = bs @ [l]"
    using True by (cases before rule: rev_cases) auto
  have l: "before' = bs" "e' = l\<lparr>fe_bytes := fe_bytes l + fe_bytes e\<rparr>" "fe_end l = fe_offset e"
    using True assms(5) by (auto simp: merge_previous_def before)
  then have "fe_set e' = fe_set l \<union> fe_set e" "fe_end e' = fe_end e" "fe_offset e' = fe_offset l"
    by (auto simp: fe_set_def fe_end_def)
  then show ?thesis
    using assms(1-3) l by (auto simp: before coalesced_append coalesced_Cons)
next
  case False
  then have eq: "before' = before" "e' = e"
    using assms(5) by (auto simp: merge_previous_def split: if_splits)
  have "fe_end f < fe_offset e" if "f \<in> set before" for f
  proof (cases before rule: rev_cases)
    case (snoc bs l)
    then have "fe_end l < fe_offset e"
      using False assms(4) by (auto simp: order.order_iff_strict)
    moreover have "fe_end g < fe_end l" if "g \<in> set bs" for g
      using assms(1) that by (force simp: snoc coalesced_append coalesced_Cons fe_end_def)
    ultimately show ?thesis
      using that by (auto simp: snoc intro: order.strict_trans)
  qed (use that in simp)
  then show ?thesis
    using assms(1-3) by (auto simp: eq coalesced_append coalesced_Cons)
qed

lemma merge_next_ok:
  assumes "coalesced cap (xs @ [e])" "coalesced cap ys" "\<forall>g \<in> set ys. fe_end e \<le> fe_offset g"
  shows "coalesced cap (xs @ merge_next e ys) \<and> free_set (merge_next e ys) = fe_set e \<union> free_set ys"
proof (cases ys)
  case (Cons n rest)
  show ?thesis
  proof (cases "fe_end e = fe_offset n")
    case True
    define m where "m = e\<lparr>fe_bytes := fe_bytes e + fe_bytes n\<rparr>"
    have "fe_set m = fe_set e \<union> fe_set n" "fe_end m = fe_end n" "fe_offset m = fe_offset e" "0 < fe_bytes m"
      using True assms(2) by (auto simp: m_def Cons fe_set_def fe_end_def coalesced_Cons)
    moreover have "fe_end f < fe_offset g" if "f \<in> set xs" "g \<in> set rest" for f g
    proof -
      have "fe_end f < fe_offset e" "fe_end e \<le> fe_offset g"
        using assms(1,3) that by (auto simp: Cons coalesced_append)
      then show ?thesis
        by (simp add: fe_end_def)
    qed
    ultimately show ?thesis
      using assms True by (auto simp: Cons coalesced_append coalesced_Cons simp flip: m_def)
  next
    case False
    then have "fe_end e < fe_offset n"
      using assms(3) by (auto simp: Cons order.order_iff_strict)
    moreover have "fe_offset n \<le> fe_offset g" if "g \<in> set rest" for g
      using assms(2) that by (fastforce simp: Cons coalesced_Cons fe_end_def)
    ultimately show ?thesis
      using assms False by (fastforce simp: Cons coalesced_append coalesced_Cons fe_end_def)
  qed
qed (use assms in simp)

lemma insert_free_extent_ok:
  assumes "coalesced cap xs" "fe_set e \<inter> free_set xs = {}" "0 < fe_bytes e" "fe_end e \<le> cap"
  shows "coalesced cap (insert_free_extent e xs) \<and> free_set (insert_free_extent e xs) = free_set xs \<union> fe_set e"
proof -
  define before where "before = takeWhile (\<lambda>c. fe_offset c < fe_offset e) xs"
  define behind where "behind = dropWhile (\<lambda>c. fe_offset c < fe_offset e) xs"
  have xs: "xs = before @ behind"
    by (simp add: before_def behind_def)
  have co: "coalesced cap before" "coalesced cap behind" "\<forall>f \<in> set before. \<forall>g \<in> set behind. fe_end f < fe_offset g"
    using assms(1) by (auto simp: xs coalesced_append)
  have b1: "\<forall>f \<in> set before. fe_end f \<le> fe_offset e"
    using extent_before [OF assms(1-3)] by (auto simp: before_def dest: set_takeWhileD)
  have "fe_offset e \<le> fe_offset g" if "g \<in> set behind" for g
  proof (cases behind)
    case (Cons n rest)
    then have "\<not> fe_offset n < fe_offset e"
      using hd_dropWhile [of "\<lambda>c. fe_offset c < fe_offset e" xs] by (auto simp: behind_def)
    moreover have "fe_offset n \<le> fe_offset g"
      using co(2) that by (fastforce simp: Cons coalesced_Cons fe_end_def)
    ultimately show ?thesis by simp
  qed (use that in simp)
  then have b2: "\<forall>g \<in> set behind. fe_end e \<le> fe_offset g"
    using extent_behind [OF assms(1-3)] by (auto simp: xs)
  obtain before' e' where m: "merge_previous before e = (before', e')"
    by (cases "merge_previous before e")
  note P = merge_previous_ok [OF co(1) assms(3,4) b1 m]
  have "coalesced cap (before' @ merge_next e' behind)"
      "free_set (merge_next e' behind) = fe_set e' \<union> free_set behind"
    using merge_next_ok [of cap before' e' behind] P co(2) b2 by auto
  then show ?thesis
    unfolding insert_free_extent_def Let_def before_def [symmetric] behind_def [symmetric] m
    using P by (auto simp: xs)
qed

lemma take_extent_ok:
  assumes "coalesced cap xs" "i < length xs" "0 < n" "n \<le> fe_bytes (xs ! i)"
  shows "coalesced cap (take_extent i n xs) \<and>
    free_set (take_extent i n xs) = free_set xs - {fe_offset (xs ! i) ..< fe_offset (xs ! i) + n}"
proof -
  define as f bs where "as = take i xs" and "f = xs ! i" and "bs = drop (Suc i) xs"
  have xs: "xs = as @ f # bs" and len: "length as = i"
    using assms(2) by (simp_all add: as_def f_def bs_def id_take_nth_drop)
  define f' where "f' = \<lparr>fe_offset = fe_offset f + n, fe_bytes = fe_bytes f - n\<rparr>"
  have t: "take_extent i n xs = (if fe_bytes f = n then as @ bs else as @ f' # bs)"
    using assms(4) len by (auto simp: take_extent_def Let_def f'_def as_def bs_def f_def upd_conv_take_nth_drop [OF assms(2)])
  have sets: "fe_set f = {fe_offset f ..< fe_offset f + n} \<union> fe_set f'" "fe_end f' = fe_end f"
    using assms(4) by (auto simp: fe_set_def fe_end_def f'_def f_def)
  have co: "coalesced cap as" "coalesced cap bs" "\<forall>a \<in> set as. fe_end a < fe_offset f" "\<forall>a \<in> set as. \<forall>b \<in> set bs. fe_end a < fe_offset b"
      "\<forall>b \<in> set bs. fe_end f < fe_offset b" "0 < fe_bytes f" "fe_end f \<le> cap"
    using assms(1) by (auto simp: xs coalesced_append coalesced_Cons)
  have off: "x \<notin> {fe_offset f ..< fe_offset f + n}" if "x \<in> free_set as \<union> free_set bs \<union> fe_set f'" for x
    using that co(3,5) assms(4) by (fastforce simp: free_set_def fe_set_def fe_end_def f'_def f_def [symmetric])
  have "free_set (take_extent i n xs) = free_set xs - {fe_offset f ..< fe_offset f + n}"
  proof (cases "fe_bytes f = n")
    case True
    then have "fe_set f' = {}"
      by (simp add: fe_set_def fe_end_def f'_def)
    then show ?thesis
      unfolding t using sets off True by (auto simp: xs)
  next
    case False
    then show ?thesis
      unfolding t using sets off by (auto simp: xs)
  qed
  moreover have "coalesced cap (take_extent i n xs)"
    unfolding t using co sets assms(4) f_def by (fastforce simp: coalesced_append coalesced_Cons f'_def)
  ultimately show ?thesis
    by (simp add: f_def)
qed


section \<open>Invariant\<close>

definition block :: "descriptor \<Rightarrow> nat set" where
  "block de = {de_offset de ..< de_offset de + de_bytes de}"

definition active_set :: "descriptor list \<Rightarrow> nat set" where
  "active_set ds = {i. i < length ds \<and> de_active (ds ! i)}"

definition used_set :: "descriptor list \<Rightarrow> nat set" where
  "used_set ds = (\<Union>i \<in> active_set ds. block (ds ! i))"

definition used_bytes :: "descriptor list \<Rightarrow> nat" where
  "used_bytes ds = (\<Sum>i \<in> active_set ds. de_bytes (ds ! i))"

definition blocks_disjoint :: "descriptor list \<Rightarrow> bool" where
  "blocks_disjoint ds \<longleftrightarrow>
     (\<forall>i \<in> active_set ds. \<forall>j \<in> active_set ds. i \<noteq> j \<longrightarrow> block (ds ! i) \<inter> block (ds ! j) = {})"

definition block_ok :: "host_kv_page_layout list \<Rightarrow> descriptor \<Rightarrow> bool" where
  "block_ok layouts de \<longleftrightarrow> de_layout de < length layouts \<and> 0 < de_pages de \<and>
     de_bytes de = de_pages de * page_stride (layouts ! de_layout de)"

text \<open>The memory is exactly the free extents and the blocks of the active descriptors.\<close>

definition tiled :: "nat \<Rightarrow> host_kv_page_layout list \<Rightarrow> descriptor list \<Rightarrow> free_extent list \<Rightarrow> bool" where
  "tiled cap layouts ds xs \<longleftrightarrow>
     coalesced cap xs \<and> blocks_disjoint ds \<and> (\<forall>i \<in> active_set ds. block_ok layouts (ds ! i)) \<and>
     free_set xs \<inter> used_set ds = {} \<and> free_set xs \<union> used_set ds = {0 ..< cap}"

definition descriptors_ok :: "descriptor list \<Rightarrow> nat list \<Rightarrow> bool" where
  "descriptors_ok ds free \<longleftrightarrow> distinct free \<and> set free = {0 ..< length ds} - active_set ds"

text \<open>As many descriptors as records of the smallest stride fit into the capacity.\<close>

definition descriptor_bound :: "host_arena \<Rightarrow> bool" where
  "descriptor_bound a \<longleftrightarrow> (\<exists>least > 0. (\<forall>L \<in> set (ha_layouts a). least \<le> page_stride L) \<and>
     length (ha_descriptors a) = ha_capacity_bytes a div least)"

definition arena_inv :: "host_arena \<Rightarrow> bool" where
  "arena_inv a \<longleftrightarrow>
     tiled (ha_capacity_bytes a) (ha_layouts a) (ha_descriptors a) (ha_free_extents a) \<and>
     descriptors_ok (ha_descriptors a) (ha_free_descriptors a) \<and>
     ha_occupied_bytes a = used_bytes (ha_descriptors a) \<and> descriptor_bound a"

lemma finite_active [simp]: "finite (active_set ds)"
  by (simp add: active_set_def)

lemma active_update:
  assumes "d < length ds"
  shows "active_set (ds[d := de]) = (if de_active de then insert d (active_set ds) else active_set ds - {d})"
  using assms by (auto simp: active_set_def nth_list_update)

lemma blocks_disjointD:
  assumes "blocks_disjoint ds" "x \<in> block (ds ! i)" "x \<in> block (ds ! j)" "i \<in> active_set ds" "j \<in> active_set ds"
  shows "i = j"
  using assms unfolding blocks_disjoint_def by (metis disjoint_iff)

lemma used_set_update:
  assumes "d < length ds" "blocks_disjoint ds"
  shows "used_set (ds[d := de]) =
    (if d \<in> active_set ds then used_set ds - block (ds ! d) else used_set ds) \<union> (if de_active de then block de else {})"
proof -
  have rest: "(\<Union>i \<in> active_set ds - {d}. block (ds ! i)) =
      (if d \<in> active_set ds then used_set ds - block (ds ! d) else used_set ds)"
    using blocks_disjointD [OF assms(2)] by (auto simp: used_set_def)
  have "used_set (ds[d := de]) = (\<Union>i \<in> active_set ds - {d}. block (ds ! i)) \<union> (if de_active de then block de else {})"
    using assms(1) by (auto simp: used_set_def active_update nth_list_update split: if_splits)
  then show ?thesis
    unfolding rest .
qed

lemma used_bytes_update:
  assumes "d < length ds"
  shows "used_bytes (ds[d := de]) + (if d \<in> active_set ds then de_bytes (ds ! d) else 0) =
    used_bytes ds + (if de_active de then de_bytes de else 0)"
proof -
  have rest: "(\<Sum>i \<in> active_set ds - {d}. de_bytes (ds[d := de] ! i)) = (\<Sum>i \<in> active_set ds - {d}. de_bytes (ds ! i))"
    by (intro sum.cong) auto
  have split: "(\<Sum>i \<in> A. f i) = (\<Sum>i \<in> A - {d}. f i) + (if d \<in> A then f d else (0 :: nat))" if "finite A" for A f
    using that by (simp add: sum.remove)
  show ?thesis
    using assms split [of "active_set ds" "\<lambda>i. de_bytes (ds ! i)"]
      split [of "active_set (ds[d := de])" "\<lambda>i. de_bytes (ds[d := de] ! i)"] rest
    by (auto simp: used_bytes_def active_update insert_Diff_if)
qed

lemma blocks_disjoint_update:
  assumes "d < length ds" "blocks_disjoint ds"
    and "de_active de \<Longrightarrow> block de \<inter> (\<Union>i \<in> active_set ds - {d}. block (ds ! i)) = {}"
  shows "blocks_disjoint (ds[d := de])"
  unfolding blocks_disjoint_def disjoint_iff
proof (intro ballI impI allI notI)
  fix i j x
  assume ij: "i \<in> active_set (ds[d := de])" "j \<in> active_set (ds[d := de])" "i \<noteq> j"
    and x: "x \<in> block (ds[d := de] ! i)" "x \<in> block (ds[d := de] ! j)"
  have k: "k = d \<and> de_active de \<or> k \<noteq> d \<and> k \<in> active_set ds" if "k \<in> active_set (ds[d := de])" for k
    using that assms(1) by (auto simp: active_update split: if_splits)
  have new: False if "x \<in> block de" "x \<in> block (ds ! k)" "k \<in> active_set ds" "k \<noteq> d" "de_active de" for k
    using assms(3) that by blast
  show False
    using k [OF ij(1)] k [OF ij(2)] ij(3) x assms(1) new blocks_disjointD [OF assms(2), of x i j] by auto
qed

text \<open>The bytes in use are the measure of the used set, so they fit.\<close>

lemma used_bytes_card:
  assumes "blocks_disjoint ds"
  shows "used_bytes ds = card (used_set ds)"
proof -
  have "card (used_set ds) = (\<Sum>i \<in> active_set ds. card (block (ds ! i)))"
    unfolding used_set_def using assms
    by (intro card_UN_disjoint) (auto simp: block_def blocks_disjoint_def)
  then show ?thesis
    by (simp add: used_bytes_def block_def)
qed


subsection \<open>The tiling is kept\<close>

lemma tiledD:
  assumes "tiled cap layouts ds xs"
  shows "coalesced cap xs" "blocks_disjoint ds" "i \<in> active_set ds \<Longrightarrow> block_ok layouts (ds ! i)"
    "free_set xs \<inter> used_set ds = {}" "free_set xs \<union> used_set ds = {0 ..< cap}"
  using assms by (auto simp: tiled_def)

lemma block_in_used: "i \<in> active_set ds \<Longrightarrow> block (ds ! i) \<subseteq> used_set ds"
  by (auto simp: used_set_def)

lemma extent_in_free: "i < length xs \<Longrightarrow> fe_set (xs ! i) \<subseteq> free_set xs"
  unfolding free_set_def by (intro UN_upper nth_mem)

lemma place_tiled:
  assumes t: "tiled cap layouts ds xs" and d: "d < length ds" "d \<notin> active_set ds"
    and i: "i < length xs" "0 < bytes" "bytes \<le> fe_bytes (xs ! i)"
    and de: "de_offset de = fe_offset (xs ! i)" "de_bytes de = bytes" "de_active de" "block_ok layouts de"
  shows "tiled cap layouts (ds[d := de]) (take_extent i bytes xs)"
proof -
  note D = tiledD [OF t]
  have b: "block de = {fe_offset (xs ! i) ..< fe_offset (xs ! i) + bytes}"
    by (simp add: block_def de)
  have sub: "block de \<subseteq> free_set xs"
    using extent_in_free [OF i(1)] i(3) by (auto simp: b fe_set_def fe_end_def)
  have X: "coalesced cap (take_extent i bytes xs)" "free_set (take_extent i bytes xs) = free_set xs - block de"
    using take_extent_ok [OF D(1) i] by (simp_all add: b)
  have U: "used_set (ds[d := de]) = used_set ds \<union> block de"
    using used_set_update [OF d(1) D(2)] d(2) de(3) by simp
  have "blocks_disjoint (ds[d := de])"
    using d(1) D(2) sub D(4) block_in_used by (intro blocks_disjoint_update) blast+
  moreover have "\<forall>j \<in> active_set (ds[d := de]). block_ok layouts (ds[d := de] ! j)"
    using D(3) d de by (auto simp: active_update nth_list_update)
  ultimately show ?thesis
    using X U D(4,5) sub unfolding tiled_def by blast
qed

lemma release_tiled:
  assumes t: "tiled cap layouts ds xs" and d: "d \<in> active_set ds" and de: "\<not> de_active de"
    and pos: "\<forall>L \<in> set layouts. 0 < page_stride L"
  shows "tiled cap layouts (ds[d := de])
    (insert_free_extent \<lparr>fe_offset = de_offset (ds ! d), fe_bytes = de_bytes (ds ! d)\<rparr> xs)"
proof -
  note D = tiledD [OF t]
  define e where "e = \<lparr>fe_offset = de_offset (ds ! d), fe_bytes = de_bytes (ds ! d)\<rparr>"
  have e: "fe_set e = block (ds ! d)" "0 < fe_bytes e"
    using D(3) [OF d] pos by (auto simp: e_def fe_set_def fe_end_def block_def block_ok_def)
  have used: "block (ds ! d) \<subseteq> used_set ds"
    using d by (rule block_in_used)
  have "fe_end e - 1 \<in> fe_set e"
    using e(2) by (auto simp: fe_set_def fe_end_def)
  then have "fe_end e - 1 < cap"
    using e(1) used D(5) by auto
  then have "coalesced cap (insert_free_extent e xs) \<and> free_set (insert_free_extent e xs) = free_set xs \<union> fe_set e"
    using e used D(4) by (intro insert_free_extent_ok [OF D(1)]) auto
  moreover have len: "d < length ds"
    using d by (simp add: active_set_def)
  have "used_set (ds[d := de]) = used_set ds - block (ds ! d)"
    using used_set_update [OF len D(2)] d de by simp
  moreover have "blocks_disjoint (ds[d := de])"
    using len D(2) de by (intro blocks_disjoint_update) simp_all
  moreover have "\<forall>j \<in> active_set (ds[d := de]). block_ok layouts (ds[d := de] ! j)"
    using D(3) de len by (auto simp: active_update nth_list_update)
  ultimately show ?thesis
    using D(4,5) used e(1) unfolding tiled_def e_def [symmetric] by blast
qed

lemma split_tiled:
  assumes t: "tiled cap layouts ds xs" and l: "l \<in> active_set ds" and r: "r < length ds" "r \<notin> active_set ds"
    and parts: "block left_part \<union> block right_part = block (ds ! l)" "block left_part \<inter> block right_part = {}"
    and ok: "block_ok layouts left_part" "block_ok layouts right_part" "de_active left_part" "de_active right_part"
  shows "tiled cap layouts (ds[r := right_part, l := left_part]) xs"
proof -
  note D = tiledD [OF t]
  have len: "l < length ds" and neq: "l \<noteq> r"
    using l r by (auto simp: active_set_def)
  define ds1 where "ds1 = ds[l := left_part]"
  have active1: "active_set ds1 = active_set ds"
    using len l ok(3) by (auto simp: ds1_def active_update)
  have others: "block (ds ! l) \<inter> (\<Union>i \<in> active_set ds - {l}. block (ds ! i)) = {}"
    using blocks_disjointD [OF D(2) _ _ l] by blast
  have disj1: "blocks_disjoint ds1"
    unfolding ds1_def using len D(2) others parts(1) by (intro blocks_disjoint_update) blast+
  have used1: "used_set ds1 = used_set ds - block (ds ! l) \<union> block left_part"
    unfolding ds1_def using used_set_update [OF len D(2)] l ok(3) by simp
  have nth1: "ds1 ! i = (if i = l then left_part else ds ! i)" for i
    using len by (simp add: ds1_def)
  have r1: "r < length ds1" "r \<notin> active_set ds1"
    using r by (simp_all add: active1) (simp add: ds1_def)
  have free_r: "block right_part \<inter> (\<Union>i \<in> active_set ds1 - {r}. block (ds1 ! i)) = {}"
    using others parts by (auto simp: active1 nth1 split: if_splits) blast+
  have "blocks_disjoint (ds1[r := right_part])"
    using r1(1) disj1 free_r by (intro blocks_disjoint_update)
  moreover have "used_set (ds1[r := right_part]) = used_set ds"
    using used_set_update [OF r1(1) disj1] r1(2) ok(4) used1 parts(1) block_in_used [OF l] by auto
  moreover have "\<forall>j \<in> active_set (ds1[r := right_part]). block_ok layouts (ds1[r := right_part] ! j)"
    using D(3) ok r1 by (auto simp: active_update active1 nth1 nth_list_update)
  moreover have "ds1[r := right_part] = ds[r := right_part, l := left_part]"
    using neq by (simp add: ds1_def list_update_swap)
  ultimately show ?thesis
    using D(1,4,5) unfolding tiled_def by simp
qed


subsection \<open>Descriptors never run out\<close>

lemma inv_strides:
  assumes "arena_inv a"
  shows "\<forall>L \<in> set (ha_layouts a). 0 < page_stride L"
  using assms by (force simp: arena_inv_def descriptor_bound_def)

lemma least_bytes:
  assumes "tiled cap layouts ds xs" "\<forall>L \<in> set layouts. least \<le> page_stride L" "i \<in> active_set ds"
  shows "de_pages (ds ! i) * least \<le> de_bytes (ds ! i)"
  using tiledD(3) [OF assms(1,3)] assms(2) by (auto simp: block_ok_def)

lemma active_bytes:
  assumes "tiled cap layouts ds xs" "\<forall>L \<in> set layouts. least \<le> page_stride L"
  shows "card (active_set ds) * least \<le> used_bytes ds"
proof -
  have "least \<le> de_bytes (ds ! i)" if "i \<in> active_set ds" for i
    using least_bytes [OF assms that] tiledD(3) [OF assms(1) that]
    by (cases "de_pages (ds ! i)") (auto simp: block_ok_def)
  then have "(\<Sum>i \<in> active_set ds. least) \<le> used_bytes ds"
    unfolding used_bytes_def by (intro sum_mono)
  then show ?thesis by simp
qed

lemma used_and_free:
  assumes "tiled cap layouts ds xs"
  shows "used_bytes ds + card (free_set xs) = cap"
proof -
  note D = tiledD [OF assms]
  have "finite (free_set xs)" "finite (used_set ds)"
    using D(5) by (metis finite_Un finite_atLeastLessThan)+
  then have "card (free_set xs \<union> used_set ds) = card (free_set xs) + card (used_set ds)"
    using D(4) by (rule card_Un_disjoint)
  then show ?thesis
    using D(5) used_bytes_card [OF D(2)] by simp
qed

lemma no_free_descriptor:
  assumes "descriptors_ok ds []"
  shows "card (active_set ds) = length ds"
proof -
  have "active_set ds = {0 ..< length ds}"
    using assms by (auto simp: descriptors_ok_def active_set_def)
  then show ?thesis by simp
qed

lemma div_overfull: "0 < (k :: nat) \<Longrightarrow> \<not> (n div k + 1) * k \<le> n"
  using div_less_iff_less_mult [of k n "n div k + 1"] by simp

text \<open>A request that fits into a free extent finds a free descriptor.\<close>

lemma fit_has_descriptor:
  assumes inv: "arena_inv a" and i: "i < length (ha_free_extents a)" "bytes \<le> fe_bytes (ha_free_extents a ! i)"
    and L: "L \<in> set (ha_layouts a)" "page_stride L \<le> bytes"
  shows "ha_free_descriptors a \<noteq> []"
proof
  assume none: "ha_free_descriptors a = []"
  let ?ds = "ha_descriptors a" and ?xs = "ha_free_extents a" and ?cap = "ha_capacity_bytes a"
  obtain least where least: "0 < least" "\<forall>L \<in> set (ha_layouts a). least \<le> page_stride L" "length ?ds = ?cap div least"
    using inv by (auto simp: arena_inv_def descriptor_bound_def)
  have t: "tiled ?cap (ha_layouts a) ?ds ?xs"
    using inv by (simp add: arena_inv_def)
  have "finite (free_set ?xs)"
    using tiledD(5) [OF t] by (metis finite_Un finite_atLeastLessThan)
  then have "card (fe_set (?xs ! i)) \<le> card (free_set ?xs)"
    using extent_in_free [OF i(1)] by (rule card_mono)
  then have "least \<le> card (free_set ?xs)"
    using i(2) L least(2) by (force simp: fe_set_def fe_end_def)
  moreover have "length ?ds * least \<le> used_bytes ?ds"
    using active_bytes [OF t least(2)] inv none by (simp add: arena_inv_def no_free_descriptor)
  ultimately have "(?cap div least + 1) * least \<le> ?cap"
    using used_and_free [OF t] least(3) by (simp add: add_mult_distrib)
  then show False
    using div_overfull [OF least(1)] by simp
qed

text \<open>Neither does a block of two pages or more that is to be split.\<close>

lemma split_has_descriptor:
  assumes inv: "arena_inv a" and d: "d \<in> active_set (ha_descriptors a)" "2 \<le> de_pages (ha_descriptors a ! d)"
  shows "ha_free_descriptors a \<noteq> []"
proof
  assume none: "ha_free_descriptors a = []"
  let ?ds = "ha_descriptors a" and ?xs = "ha_free_extents a" and ?cap = "ha_capacity_bytes a"
  obtain least where least: "0 < least" "\<forall>L \<in> set (ha_layouts a). least \<le> page_stride L" "length ?ds = ?cap div least"
    using inv by (auto simp: arena_inv_def descriptor_bound_def)
  have t: "tiled ?cap (ha_layouts a) ?ds ?xs"
    using inv by (simp add: arena_inv_def)
  let ?rest = "active_set ?ds - {d}"
  have "least \<le> de_bytes (?ds ! i)" if "i \<in> active_set ?ds" for i
    using least_bytes [OF t least(2) that] tiledD(3) [OF t that] by (cases "de_pages (?ds ! i)") (auto simp: block_ok_def)
  then have "card ?rest * least \<le> (\<Sum>i \<in> ?rest. de_bytes (?ds ! i))"
    using sum_mono [of ?rest "\<lambda>_. least" "\<lambda>i. de_bytes (?ds ! i)"] by simp
  moreover have "2 * least \<le> de_bytes (?ds ! d)"
    using least_bytes [OF t least(2) d(1)] d(2) mult_le_mono1 [OF d(2), of least] by linarith
  moreover have "used_bytes ?ds = de_bytes (?ds ! d) + (\<Sum>i \<in> ?rest. de_bytes (?ds ! i))"
    unfolding used_bytes_def by (rule sum.remove [OF finite_active d(1)])
  moreover have "card (active_set ?ds) = Suc (card ?rest)"
    by (rule card.remove [OF finite_active d(1)])
  ultimately have "(card (active_set ?ds) + 1) * least \<le> used_bytes ?ds"
    by (simp add: add_mult_distrib)
  then have "(?cap div least + 1) * least \<le> ?cap"
    using used_and_free [OF t] least(3) inv none by (simp add: arena_inv_def no_free_descriptor)
  then show False
    using div_overfull [OF least(1)] by simp
qed


subsection \<open>The operations\<close>

lemma bump_revision_simps [simp]:
  "ha_self (bump_revision a) = ha_self a" "ha_backing (bump_revision a) = ha_backing a"
  "ha_capacity_bytes (bump_revision a) = ha_capacity_bytes a" "ha_occupied_bytes (bump_revision a) = ha_occupied_bytes a"
  "ha_layouts (bump_revision a) = ha_layouts a" "ha_descriptors (bump_revision a) = ha_descriptors a"
  "ha_free_descriptors (bump_revision a) = ha_free_descriptors a" "ha_free_extents (bump_revision a) = ha_free_extents a"
  by (simp_all add: bump_revision_def Let_def)

lemma find_layout_Some: "find_layout L a = Some i \<Longrightarrow> i < length (ha_layouts a) \<and> ha_layouts a ! i = L"
  unfolding find_layout_def using find_index_SomeD [of "\<lambda>c. same_layout c L" "ha_layouts a" i]
  by (auto simp: same_layout_def)

lemma last_free:
  assumes "descriptors_ok ds free" "free \<noteq> []"
  shows "last free < length ds" "last free \<notin> active_set ds" "set (butlast free) = set free - {last free}"
    "distinct (butlast free)"
proof -
  have "last free \<in> set free" "distinct free"
    using assms last_in_set [of free] unfolding descriptors_ok_def by blast+
  then show "last free < length ds" "last free \<notin> active_set ds"
    using assms(1) by (auto simp: descriptors_ok_def)
  have "free = butlast free @ [last free]"
    using assms(2) by simp
  then have "distinct (butlast free @ [last free])" "set free = insert (last free) (set (butlast free))"
    using \<open>distinct free\<close> by (simp, metis Un_insert_right boolean_algebra_cancel.sup0 empty_set list.simps(15) set_append)
  then show "set (butlast free) = set free - {last free}" "distinct (butlast free)"
    by auto
qed

lemma descriptor_freed:
  assumes "descriptors_ok ds free" "d < length ds" "d \<in> active_set ds" "\<not> de_active de"
  shows "descriptors_ok (ds[d := de]) (free @ [d])"
proof -
  have "insert d ({0 ..< length ds} - active_set ds) = {0 ..< length ds} - (active_set ds - {d})"
    using assms(2,3) by auto
  then show ?thesis
    using assms unfolding descriptors_ok_def by (simp add: active_update)
qed

lemma descriptor_taken:
  assumes "descriptors_ok ds free" "free \<noteq> []" "de_active de"
  shows "descriptors_ok (ds[last free := de]) (butlast free)"
  using assms last_free [OF assms(1,2)] unfolding descriptors_ok_def by (auto simp: active_update)

text \<open>A successful allocation, spelled out.\<close>

lemma arena_allocate_Some:
  assumes "arena_allocate L pages a = (Some al, a')"
  obtains li i where
    "li < length (ha_layouts a)" "ha_layouts a ! li = L" "0 < pages" "ha_free_descriptors a \<noteq> []"
    "find_fit (page_stride L * pages) (ha_free_extents a) = Some i"
    "al = \<lparr>al_owner = Some (ha_self a), al_descriptor = last (ha_free_descriptors a),
       al_generation = de_generation (ha_descriptors a' ! last (ha_free_descriptors a))\<rparr>"
    "a' = bump_revision (place_block (last (ha_free_descriptors a)) i (fe_offset (ha_free_extents a ! i))
       (page_stride L * pages) li pages (a\<lparr>ha_free_descriptors := butlast (ha_free_descriptors a)\<rparr>))"
  using assms that find_layout_Some [of L a]
  by (auto simp: arena_allocate_def take_descriptor_def find_free_extent_def Let_def
      split: option.splits if_splits)

lemma find_fit_SomeD: "find_fit n xs = Some i \<Longrightarrow> i < length xs \<and> n \<le> fe_bytes (xs ! i)"
  unfolding find_fit_def by (auto dest: find_index_SomeD)

lemma arena_allocate_inv:
  assumes inv: "arena_inv a" and alloc: "arena_allocate L pages a = (Some al, a')"
  shows "arena_inv a'"
proof -
  obtain li i where A: "li < length (ha_layouts a)" "ha_layouts a ! li = L" "0 < pages" "ha_free_descriptors a \<noteq> []"
    "find_fit (page_stride L * pages) (ha_free_extents a) = Some i"
    and a': "a' = bump_revision (place_block (last (ha_free_descriptors a)) i (fe_offset (ha_free_extents a ! i))
       (page_stride L * pages) li pages (a\<lparr>ha_free_descriptors := butlast (ha_free_descriptors a)\<rparr>))"
    by (rule arena_allocate_Some [OF alloc]) blast
  let ?d = "last (ha_free_descriptors a)" and ?n = "page_stride L * pages"
  define de where "de = (ha_descriptors a ! ?d)\<lparr>de_offset := fe_offset (ha_free_extents a ! i),
    de_bytes := ?n, de_layout := li, de_pages := pages, de_active := True\<rparr>"
  have I: "tiled (ha_capacity_bytes a) (ha_layouts a) (ha_descriptors a) (ha_free_extents a)"
      "descriptors_ok (ha_descriptors a) (ha_free_descriptors a)" "ha_occupied_bytes a = used_bytes (ha_descriptors a)"
    using inv by (auto simp: arena_inv_def)
  note F = last_free [OF I(2) A(4)] and fit = find_fit_SomeD [OF A(5)]
  have pos: "0 < ?n"
    using inv_strides [OF inv] A(1-3) by auto
  have "tiled (ha_capacity_bytes a) (ha_layouts a) ((ha_descriptors a)[?d := de]) (take_extent i ?n (ha_free_extents a))"
    using fit pos A(1,2,3) by (intro place_tiled [OF I(1) F(1,2)]) (auto simp: de_def block_ok_def)
  moreover have "used_bytes ((ha_descriptors a)[?d := de]) = used_bytes (ha_descriptors a) + ?n"
    using used_bytes_update [OF F(1), of de] F(2) by (simp add: de_def)
  moreover have "descriptors_ok ((ha_descriptors a)[?d := de]) (butlast (ha_free_descriptors a))"
    by (intro descriptor_taken [OF I(2) A(4)]) (simp add: de_def)
  ultimately show ?thesis
    using inv I(3) unfolding a' by (simp add: arena_inv_def place_block_def descriptor_bound_def de_def)
qed

lemma release_inv:
  assumes inv: "arena_inv a"
  shows "arena_inv (snd (release_descriptor d g a))"
proof (cases "d < length (ha_descriptors a) \<and> de_active (ha_descriptors a ! d) \<and> de_generation (ha_descriptors a ! d) = g")
  case True
  let ?de = "ha_descriptors a ! d"
  define de' where "de' = ?de\<lparr>de_active := False, de_offset := 0, de_bytes := 0, de_pages := 0,
    de_generation := increment_generation (de_generation ?de)\<rparr>"
  have I: "tiled (ha_capacity_bytes a) (ha_layouts a) (ha_descriptors a) (ha_free_extents a)"
      "descriptors_ok (ha_descriptors a) (ha_free_descriptors a)" "ha_occupied_bytes a = used_bytes (ha_descriptors a)"
    using inv by (auto simp: arena_inv_def)
  have d: "d < length (ha_descriptors a)" "d \<in> active_set (ha_descriptors a)" "\<not> de_active de'"
    using True by (auto simp: active_set_def de'_def)
  have "tiled (ha_capacity_bytes a) (ha_layouts a) ((ha_descriptors a)[d := de'])
      (insert_free_extent \<lparr>fe_offset = de_offset ?de, fe_bytes = de_bytes ?de\<rparr> (ha_free_extents a))"
    using d inv_strides [OF inv] by (intro release_tiled [OF I(1)])
  moreover have "used_bytes ((ha_descriptors a)[d := de']) = used_bytes (ha_descriptors a) - de_bytes ?de"
    using used_bytes_update [OF d(1), of de'] d(2,3) by simp
  moreover have "descriptors_ok ((ha_descriptors a)[d := de']) (ha_free_descriptors a @ [d])"
    by (rule descriptor_freed [OF I(2) d])
  moreover have "snd (release_descriptor d g a) =
      bump_revision (a\<lparr>ha_occupied_bytes := ha_occupied_bytes a - de_bytes ?de, ha_descriptors := (ha_descriptors a)[d := de'],
        ha_free_descriptors := ha_free_descriptors a @ [d],
        ha_free_extents := insert_free_extent \<lparr>fe_offset = de_offset ?de, fe_bytes = de_bytes ?de\<rparr> (ha_free_extents a)\<rparr>)"
    using True by (simp add: release_descriptor_def Let_def de'_def)
  ultimately show ?thesis
    using inv I(3) by (simp add: arena_inv_def descriptor_bound_def)
qed (use inv in \<open>auto simp: release_descriptor_def Let_def\<close>)


lemma valid_handle_active: "valid_handle h a \<Longrightarrow> hh_descriptor h \<in> active_set (ha_descriptors a)"
  by (simp add: valid_handle_def active_set_def)

text \<open>A split always succeeds on a valid allocation when both parts are nonempty.\<close>

lemma arena_split_succeeds:
  assumes inv: "arena_inv a" and h: "valid_handle (al_handle al) a"
    and n: "0 < n" "n < de_pages (ha_descriptors a ! al_descriptor al)"
  obtains p q a' where "arena_split al n a = Inr ((p, q), a')" "ha_free_descriptors a \<noteq> []"
    "a' = bump_revision (split_blocks (al_descriptor al) (last (ha_free_descriptors a)) n
       (a\<lparr>ha_free_descriptors := butlast (ha_free_descriptors a)\<rparr>))"
    "al_descriptor p = al_descriptor al" "al_descriptor q = last (ha_free_descriptors a)"
proof -
  have "al_valid al"
    using h by (auto simp: al_handle_def valid_handle_def null_handle_def split: if_splits)
  then have "al_descriptor al \<in> active_set (ha_descriptors a)"
    using valid_handle_active [OF h] by (simp add: al_handle_def)
  then have "ha_free_descriptors a \<noteq> []"
    using split_has_descriptor [OF inv] n by simp
  then show ?thesis
    using h n that by (auto simp: arena_split_def take_descriptor_def Let_def)
qed

lemma split_parts:
  assumes "block_ok layouts de" "0 < n" "n < de_pages de"
    and "stride = page_stride (layouts ! de_layout de)"
    and "p = de\<lparr>de_generation := g, de_pages := n, de_bytes := n * stride\<rparr>"
    and "q = r\<lparr>de_offset := de_offset de + n * stride, de_bytes := (de_pages de - n) * stride,
       de_layout := de_layout de, de_pages := de_pages de - n, de_active := True\<rparr>"
  shows "block p \<union> block q = block de" "block p \<inter> block q = {}" "block_ok layouts p" "block_ok layouts q"
    "de_bytes p + de_bytes q = de_bytes de"
proof -
  have sum: "n * stride + (de_pages de - n) * stride = de_bytes de"
    using assms(1,3,4) by (simp add: block_ok_def flip: add_mult_distrib)
  then show "block p \<union> block q = block de" "block p \<inter> block q = {}" "de_bytes p + de_bytes q = de_bytes de"
    by (auto simp: assms(5,6) block_def)
  show "block_ok layouts p" "block_ok layouts q"
    using assms by (auto simp: block_ok_def)
qed

lemma split_blocks_inv:
  assumes inv: "arena_inv a" and l: "l \<in> active_set (ha_descriptors a)"
    and n: "0 < n" "n < de_pages (ha_descriptors a ! l)" and free: "ha_free_descriptors a \<noteq> []"
  shows "arena_inv (split_blocks l (last (ha_free_descriptors a)) n
    (a\<lparr>ha_free_descriptors := butlast (ha_free_descriptors a)\<rparr>))"
proof -
  let ?ds = "ha_descriptors a" and ?r = "last (ha_free_descriptors a)"
  let ?stride = "page_stride (ha_layouts a ! de_layout (?ds ! l))"
  define p where "p = (?ds ! l)\<lparr>de_generation := increment_generation (de_generation (?ds ! l)),
    de_pages := n, de_bytes := n * ?stride\<rparr>"
  define q where "q = (?ds ! ?r)\<lparr>de_offset := de_offset (?ds ! l) + n * ?stride,
    de_bytes := (de_pages (?ds ! l) - n) * ?stride, de_layout := de_layout (?ds ! l),
    de_pages := de_pages (?ds ! l) - n, de_active := True\<rparr>"
  have I: "tiled (ha_capacity_bytes a) (ha_layouts a) ?ds (ha_free_extents a)"
      "descriptors_ok ?ds (ha_free_descriptors a)" "ha_occupied_bytes a = used_bytes ?ds"
    using inv by (auto simp: arena_inv_def)
  note F = last_free [OF I(2) free]
  note S = split_parts [OF tiledD(3) [OF I(1) l] n refl p_def q_def]
  have act: "de_active p" "de_active q"
    using l by (auto simp: p_def q_def active_set_def)
  have len: "l < length ?ds" and neq: "l \<noteq> ?r"
    using l F(2) by (auto simp: active_set_def)
  have t: "tiled (ha_capacity_bytes a) (ha_layouts a) (?ds[?r := q, l := p]) (ha_free_extents a)"
    using S act by (intro split_tiled [OF I(1) l F(1,2)])
  have "used_bytes (?ds[?r := q]) = used_bytes ?ds + de_bytes q"
    using used_bytes_update [OF F(1), of q] F(2) act by simp
  moreover have "used_bytes (?ds[?r := q, l := p]) + de_bytes (?ds ! l) = used_bytes (?ds[?r := q]) + de_bytes p"
    using used_bytes_update [of l "?ds[?r := q]" p] len neq l act F(1) by (simp add: active_update)
  ultimately have "used_bytes (?ds[?r := q, l := p]) = used_bytes ?ds"
    using S(5) by simp
  moreover have "active_set (?ds[?r := q, l := p]) = active_set (?ds[?r := q])"
    using len l act F(1) by (auto simp: active_update)
  then have "descriptors_ok (?ds[?r := q, l := p]) (butlast (ha_free_descriptors a))"
    using descriptor_taken [OF I(2) free act(2)] by (simp add: descriptors_ok_def)
  ultimately show ?thesis
    using inv t I(3) unfolding split_blocks_def Let_def
    by (simp add: arena_inv_def descriptor_bound_def p_def q_def)
qed


subsection \<open>Reachable arenas\<close>

datatype arena_call =
    HAllocate host_kv_page_layout nat
  | HRelease host_allocation
  | HSplit host_allocation nat
  | HApply recipe "host_allocation option list" "host_allocation list"

text \<open>Nothing follows \<open>std::terminate\<close>; the step leaves the arena as it was.\<close>

fun arena_step :: "arena_call \<Rightarrow> host_arena \<Rightarrow> host_arena" where
  "arena_step (HAllocate L pages) a = snd (arena_allocate L pages a)"
| "arena_step (HRelease al) a = snd (snd (al_release al a))"
| "arena_step (HSplit al n) a = after a (map_sum id snd (arena_split al n a))"
| "arena_step (HApply rc releases targets) a =
     (case apply_recipe rc releases targets a of Applied _ _ a' \<Rightarrow> a' | _ \<Rightarrow> a)"

lemma arena_allocate_None: "arena_allocate L pages a = (None, a') \<Longrightarrow> a' = a"
  by (auto simp: arena_allocate_def take_descriptor_def Let_def split: option.splits if_splits)

lemma allocate_step_inv:
  assumes "arena_inv a"
  shows "arena_inv (snd (arena_allocate L pages a))"
  using assms arena_allocate_inv [OF assms, of L pages] arena_allocate_None [of L pages a]
  by (cases "arena_allocate L pages a"; cases "fst (arena_allocate L pages a)") auto

lemma al_release_inv: "arena_inv a \<Longrightarrow> arena_inv (snd (snd (al_release al a)))"
  using release_inv [of a "al_descriptor al" "al_generation al"]
  by (auto simp: al_release_def Let_def split: prod.split)

lemma split_step_inv:
  assumes inv: "arena_inv a"
  shows "arena_inv (after a (map_sum id snd (arena_split al n a)))"
proof (cases "valid_handle (al_handle al) a \<and> 0 < n \<and> n < de_pages (ha_descriptors a ! al_descriptor al)")
  case True
  then obtain p q a' where s: "arena_split al n a = Inr ((p, q), a')" "ha_free_descriptors a \<noteq> []"
      "a' = bump_revision (split_blocks (al_descriptor al) (last (ha_free_descriptors a)) n
         (a\<lparr>ha_free_descriptors := butlast (ha_free_descriptors a)\<rparr>))"
    by (metis arena_split_succeeds [OF inv])
  have "al_descriptor al \<in> active_set (ha_descriptors a)"
    using True valid_handle_active by (fastforce simp: al_handle_def valid_handle_def null_handle_def split: if_splits)
  then have "arena_inv (split_blocks (al_descriptor al) (last (ha_free_descriptors a)) n
         (a\<lparr>ha_free_descriptors := butlast (ha_free_descriptors a)\<rparr>))"
    using True s(2) by (intro split_blocks_inv [OF inv]) auto
  then show ?thesis
    using s(1,3) by (simp add: arena_inv_def descriptor_bound_def)
qed (use inv in \<open>auto simp: arena_split_def\<close>)

lemma release_all_inv: "arena_inv a \<Longrightarrow> release_all als a = Some a' \<Longrightarrow> arena_inv a'"
proof (induction als arbitrary: a)
  case (Cons al als)
  then show ?case
    using al_release_inv [of a al] by (auto split: prod.splits if_splits)
qed simp

lemma allocate_all_inv: "arena_inv a \<Longrightarrow> allocate_all ts a = Some (als, a') \<Longrightarrow> arena_inv a'"
proof (induction ts arbitrary: a als)
  case (Cons t ts)
  then show ?case
    using allocate_step_inv [OF Cons.prems(1), of "ha_layouts a ! tg_layout t" "tg_pages t"]
    by (fastforce simp: Let_def split: prod.splits option.splits if_splits)
qed simp

lemma apply_recipe_Applied:
  assumes "apply_recipe rc releases targets a = Applied gone als a'"
  obtains a1 where "release_all (map the releases) a = Some a1" "allocate_all (rc_targets rc) a1 = Some (als, a')"
  using assms that by (auto simp: apply_recipe_def split: if_splits option.splits prod.splits)

lemma apply_step_inv:
  assumes "arena_inv a"
  shows "arena_inv (arena_step (HApply rc releases targets) a)"
proof (cases "apply_recipe rc releases targets a")
  case (Applied gone als a')
  obtain a1 where "release_all (map the releases) a = Some a1" "allocate_all (rc_targets rc) a1 = Some (als, a')"
    by (rule apply_recipe_Applied [OF Applied])
  then have "arena_inv a'"
    using allocate_all_inv [OF release_all_inv [OF assms]] by blast
  then show ?thesis
    by (simp add: Applied)
qed (simp_all add: assms)

lemma arena_step_inv: "arena_inv a \<Longrightarrow> arena_inv (arena_step c a)"
  by (cases c) (simp_all add: allocate_step_inv al_release_inv split_step_inv apply_step_inv del: arena_step.simps(4))

interpretation host_arena: call_system arena_step arena_inv
  by unfold_locales (rule arena_step_inv)

text \<open>Construction.\<close>

lemma check_layouts_planned:
  "check_layouts previous Ls = Inr u \<Longrightarrow>
     \<forall>L \<in> set Ls. plan_layout_impl (hl_geometry L) (hl_storage_dtypes L) (hl_storage_format L) = Inr L"
  by (induction previous Ls rule: check_layouts.induct) (auto simp: bindE_Inr split: if_splits)

lemma smallest_layout_least:
  assumes "Ls \<noteq> []"
  shows "\<forall>L \<in> set Ls. page_stride (smallest_layout Ls) \<le> page_stride L" "smallest_layout Ls \<in> set Ls"
proof -
  define pick where "pick = (\<lambda>best L. if page_stride L < page_stride best then L else best)"
  have "(\<forall>L \<in> insert best (set Ls'). page_stride (foldl pick best Ls') \<le> page_stride L) \<and>
      foldl pick best Ls' \<in> insert best (set Ls')" for best Ls'
  proof (induction Ls' arbitrary: best)
    case (Cons L Ls')
    have "page_stride (pick best L) \<le> page_stride best" "page_stride (pick best L) \<le> page_stride L"
        "pick best L = best \<or> pick best L = L"
      by (simp_all add: pick_def)
    then show ?case
      using Cons.IH [of "pick best L"] by (auto intro: order_trans)
  qed simp
  from this [where best = "hd Ls" and Ls' = "tl Ls"] show "\<forall>L \<in> set Ls. page_stride (smallest_layout Ls) \<le> page_stride L"
      "smallest_layout Ls \<in> set Ls"
    using assms by (cases Ls; simp add: smallest_layout_def pick_def)+
qed

lemma construct_inv:
  assumes new: "arena_construct self malloc capacity layouts = Inr a"
    and types: "\<forall>L \<in> set layouts. int32_geometry (hl_geometry L)"
  shows "arena_inv a" "ha_capacity_bytes a = capacity" "ha_layouts a = layouts"
proof -
  obtain u where "check_layouts [] layouts = Inr u"
    using new by (auto simp: arena_construct_def bindE_Inr)
  then have pos: "0 < page_stride L" if "L \<in> set layouts" for L
    using packed_stride_pos [OF planned_layout_packed(1)] check_layouts_planned types that
    unfolding page_stride_def by blast
  show eqs: "ha_capacity_bytes a = capacity" "ha_layouts a = layouts"
    using new by (auto simp: arena_construct_def bindE_Inr Let_def empty_arena_def split: if_splits)
  have act: "active_set (replicate n descriptor_init) = {}" for n
    by (auto simp: active_set_def descriptor_init_def)
  show "arena_inv a"
  proof (cases "capacity = 0")
    case True
    then have "a = empty_arena self 0 layouts"
      using new by (auto simp: arena_construct_def bindE_Inr)
    then show ?thesis
      using pos act [of 0]
      by (auto simp: arena_inv_def empty_arena_def tiled_def blocks_disjoint_def used_set_def used_bytes_def
          descriptors_ok_def descriptor_bound_def Suc_le_eq intro!: exI [of _ 1])
  next
    case False
    then have ne: "layouts \<noteq> []"
      using new by (auto simp: arena_construct_def bindE_Inr split: if_splits)
    let ?n = "capacity div page_stride (smallest_layout layouts)"
    have a: "ha_descriptors a = replicate ?n descriptor_init" "ha_free_descriptors a = rev [0 ..< ?n]"
        "ha_free_extents a = [\<lparr>fe_offset = 0, fe_bytes = capacity\<rparr>]" "ha_occupied_bytes a = 0"
      using new False by (auto simp: arena_construct_def bindE_Inr Let_def empty_arena_def split: if_splits)
    have "tiled capacity layouts (ha_descriptors a) (ha_free_extents a)"
      using False by (auto simp: a tiled_def act blocks_disjoint_def used_set_def coalesced_def fe_set_def fe_end_def)
    moreover have "descriptors_ok (ha_descriptors a) (ha_free_descriptors a)"
      by (auto simp: a descriptors_ok_def act)
    moreover have "descriptor_bound a"
      unfolding descriptor_bound_def eqs
      using smallest_layout_least [OF ne] pos by (intro exI [of _ "page_stride (smallest_layout layouts)"]) (simp add: a)
    ultimately show ?thesis
      by (simp add: arena_inv_def eqs a act used_bytes_def)
  qed
qed


subsection \<open>What the calls keep\<close>

definition same_memory :: "host_arena \<Rightarrow> host_arena \<Rightarrow> bool" where
  "same_memory a b \<longleftrightarrow> ha_capacity_bytes b = ha_capacity_bytes a \<and> ha_layouts b = ha_layouts a \<and> ha_self b = ha_self a"

lemma same_memory_refl [simp]: "same_memory a a"
  by (simp add: same_memory_def)

lemma allocate_same_memory: "arena_allocate L pages a = (r, a') \<Longrightarrow> same_memory a a'"
  by (auto simp: arena_allocate_def take_descriptor_def place_block_def same_memory_def Let_def
      split: option.splits if_splits)

lemma release_same_memory: "same_memory a (snd (snd (al_release al a)))"
  by (auto simp: al_release_def release_descriptor_def same_memory_def Let_def)

lemma release_all_same_memory: "release_all als a = Some a' \<Longrightarrow> same_memory a a'"
proof (induction als arbitrary: a)
  case (Cons al als)
  then show ?case
    using release_same_memory [of a al] by (fastforce simp: same_memory_def split: prod.splits if_splits)
qed simp

lemma allocate_all_same_memory: "allocate_all ts a = Some (als, a') \<Longrightarrow> same_memory a a'"
proof (induction ts arbitrary: a als)
  case (Cons t ts)
  obtain al a1 where one: "arena_allocate (ha_layouts a ! tg_layout t) (tg_pages t) a = (Some al, a1)"
      and "\<exists>als'. allocate_all ts a1 = Some (als', a')"
    using Cons.prems by (auto simp: Let_def split: prod.splits option.splits if_splits)
  then show ?case
    using Cons.IH allocate_same_memory [OF one] by (auto simp: same_memory_def)
qed simp

lemma arena_step_same_memory: "same_memory a (arena_step c a)"
proof (cases c)
  case (HAllocate L pages)
  then show ?thesis
    using allocate_same_memory [of L pages a] by (cases "arena_allocate L pages a") simp
next
  case (HRelease al)
  then show ?thesis
    using release_same_memory by simp
next
  case (HSplit al n)
  then show ?thesis
    by (auto simp: arena_split_def take_descriptor_def split_blocks_def same_memory_def Let_def)
next
  case (HApply rc releases targets)
  show ?thesis
  proof (cases "apply_recipe rc releases targets a")
    case (Applied gone als a')
    then show ?thesis
      using release_all_same_memory allocate_all_same_memory HApply
      by (elim apply_recipe_Applied) (fastforce simp: same_memory_def Applied)
  qed (simp_all add: HApply)
qed

lemma arena_run_same_memory: "same_memory a (fold arena_step cs a)"
  by (rule fold_invariant) (use arena_step_same_memory in \<open>auto simp: same_memory_def\<close>)

lemma arena_reachable:
  assumes "arena_construct self malloc capacity layouts = Inr a0"
    and "list_all (\<lambda>L. int32_geometry (hl_geometry L)) layouts" "a = fold arena_step cs a0"
  shows "arena_inv a" "ha_capacity_bytes a = capacity" "ha_layouts a = layouts"
proof -
  note new = construct_inv [OF assms(1)]
  have "\<forall>L \<in> set layouts. int32_geometry (hl_geometry L)"
    using assms(2) by (simp add: list_all_iff)
  from new [OF this] show "arena_inv a" "ha_capacity_bytes a = capacity" "ha_layouts a = layouts"
    using host_arena.run_inv arena_run_same_memory [of a0 cs] by (simp_all add: assms(3) same_memory_def)
qed

lemma card_free_set: "coalesced cap xs \<Longrightarrow> card (free_set xs) = sum_list (map fe_bytes xs)"
proof (induction xs)
  case (Cons f xs)
  have "finite (free_set xs)"
    by (auto simp: free_set_def fe_set_def)
  moreover have "fe_set f \<inter> free_set xs = {}"
    using Cons.prems by (fastforce simp: coalesced_Cons free_set_def fe_set_def fe_end_def)
  ultimately have "card (fe_set f \<union> free_set xs) = card (fe_set f) + card (free_set xs)"
    by (intro card_Un_disjoint) (simp_all add: fe_set_def)
  then show ?case
    using Cons by (simp add: coalesced_Cons fe_set_def fe_end_def)
qed simp

section \<open>Theorems\<close>

text \<open>
  C12. After any sequence of allocations, releases, splits and recipe applications on a constructed
  arena, its memory is tiled: the blocks of the active descriptors are pairwise disjoint, each of a
  whole number of pages of its layout; the free extents are sorted, nonempty and never adjacent; the
  two together cover exactly the bytes below the capacity without overlap. The recorded occupancy is
  the sum of the blocks, and \<open>free_bytes\<close> is the sum of the free extents.
\<close>

theorem arena_memory_tiled:
  assumes "arena_construct self malloc capacity layouts = Inr a0"
    and "list_all (\<lambda>L. int32_geometry (hl_geometry L)) layouts"
    and "a = fold arena_step cs a0"
  shows "tiled capacity layouts (ha_descriptors a) (ha_free_extents a) \<and>
    ha_occupied_bytes a = used_bytes (ha_descriptors a) \<and>
    ha_occupied_bytes a \<le> capacity \<and> arena_free_bytes a = sum_list (map fe_bytes (ha_free_extents a))"
proof -
  note R = arena_reachable [OF assms]
  have t: "tiled capacity layouts (ha_descriptors a) (ha_free_extents a)"
      "ha_occupied_bytes a = used_bytes (ha_descriptors a)"
    using R by (auto simp: arena_inv_def)
  then show ?thesis
    using used_and_free [OF t(1)] card_free_set [OF tiledD(1) [OF t(1)]] R(2) by (simp add: arena_free_bytes_def)
qed

lemma same_layout_eq: "same_layout c L \<longleftrightarrow> c = L"
  by (cases c; cases L) (auto simp: same_layout_def)

lemma find_layout_iff: "find_layout L a \<noteq> None \<longleftrightarrow> L \<in> set (ha_layouts a)"
  by (auto simp: find_layout_def same_layout_eq)

lemma find_fit_iff: "find_fit n xs \<noteq> None \<longleftrightarrow> (\<exists>f \<in> set xs. n \<le> fe_bytes f)"
  by (auto simp: find_fit_def)

lemma fit_descriptor:
  assumes "arena_inv a" "L \<in> set (ha_layouts a)" "0 < pages" "find_fit (page_stride L * pages) (ha_free_extents a) = Some i"
  shows "ha_free_descriptors a \<noteq> []"
  using find_fit_SomeD [OF assms(4)] assms(2,3)
  by (intro fit_has_descriptor [OF assms(1), of i "page_stride L * pages" L]) auto

lemma allocate_succeeds_iff:
  assumes "arena_inv a"
  shows "fst (arena_allocate L pages a) \<noteq> None \<longleftrightarrow>
    L \<in> set (ha_layouts a) \<and> 0 < pages \<and> request_fits L pages \<and>
    find_fit (page_stride L * pages) (ha_free_extents a) \<noteq> None"
  using fit_descriptor [OF assms, of L pages] find_layout_iff [of L a]
  by (auto simp: arena_allocate_def take_descriptor_def find_free_extent_def Let_def split: option.splits)

text \<open>
  C21. The descriptors of an arena, as many as records of the smallest stride fit into it, never run
  out before the memory does. In every reachable arena an allocation succeeds exactly when its layout
  is one of the arena's, the number of pages is positive, the product does not overflow and one free
  extent is large enough, and \<open>can_allocate\<close> says so; a split succeeds exactly when the allocation is
  current and both parts are nonempty, and the \<open>std::logic_error\<close> of \<open>split\<close> (descriptor capacity
  invariant was violated) is never thrown.
\<close>

theorem descriptors_never_exhausted:
  assumes "arena_construct self malloc capacity layouts = Inr a0"
    and "list_all (\<lambda>L. int32_geometry (hl_geometry L)) layouts"
    and "a = fold arena_step cs a0"
  shows "(fst (arena_allocate L pages a) \<noteq> None \<longleftrightarrow>
      L \<in> set layouts \<and> 0 < pages \<and> request_fits L pages \<and>
      list_ex (\<lambda>f. page_stride L * pages \<le> fe_bytes f) (ha_free_extents a)) \<and>
    (can_allocate L pages a \<longleftrightarrow> fst (arena_allocate L pages a) \<noteq> None) \<and>
    (ok (arena_split al n a) \<longleftrightarrow> valid_handle (al_handle al) a \<and> 0 < n \<and> n < al_page_count al a) \<and>
    arena_split al n a \<noteq> Inl Logic_error"
proof -
  note R = arena_reachable [OF assms]
  note A = allocate_succeeds_iff [OF R(1), of L pages, unfolded R(3)]
  have "can_allocate L pages a \<longleftrightarrow> fst (arena_allocate L pages a) \<noteq> None"
    unfolding A can_allocate_def find_free_extent_def
    using fit_descriptor [OF R(1), of L pages] find_layout_iff [of L a] R(3) by auto
  moreover have count: "al_page_count al a = de_pages (ha_descriptors a ! al_descriptor al)"
    if "valid_handle (al_handle al) a"
    using that by (auto simp: al_page_count_def al_handle_def valid_handle_def null_handle_def Let_def split: if_splits)
  have split: "ok (arena_split al n a)" if "valid_handle (al_handle al) a" "0 < n" "n < al_page_count al a"
    using arena_split_succeeds [OF R(1) that(1,2)] count [OF that(1)] that(3) by (metis ok_simps(2))
  moreover have "valid_handle (al_handle al) a \<and> 0 < n \<and> n < al_page_count al a" if "ok (arena_split al n a)"
    using that count by (auto simp: arena_split_def split: if_splits)
  moreover have "arena_split al n a \<noteq> Inl Logic_error"
    using split count by (cases "valid_handle (al_handle al) a \<and> 0 < n \<and> n < al_page_count al a") (auto simp: arena_split_def)
  ultimately show ?thesis
    using A unfolding find_fit_iff list_ex_iff by blast
qed


subsection \<open>Recipes\<close>

lemma release_valid:
  assumes "valid_handle (al_handle al) a"
  shows "al_release al a = (True, disarmed, snd (release_descriptor (al_descriptor al) (al_generation al) a))"
    and "ha_free_extents (snd (release_descriptor (al_descriptor al) (al_generation al) a)) =
      insert_free_extent \<lparr>fe_offset = de_offset (ha_descriptors a ! al_descriptor al),
        fe_bytes = de_bytes (ha_descriptors a ! al_descriptor al)\<rparr> (ha_free_extents a)"
    and "j \<noteq> al_descriptor al \<Longrightarrow>
      ha_descriptors (snd (release_descriptor (al_descriptor al) (al_generation al) a)) ! j = ha_descriptors a ! j"
    and "length (ha_descriptors (snd (release_descriptor (al_descriptor al) (al_generation al) a))) = length (ha_descriptors a)"
  using assms
  by (auto simp: al_release_def al_handle_def valid_handle_def null_handle_def release_descriptor_def Let_def
      split: if_splits)

text \<open>Two handles that are valid at the same time are equal or name different descriptors.\<close>

lemma valid_handles_differ:
  "valid_handle h a \<Longrightarrow> valid_handle k a \<Longrightarrow> h \<noteq> k \<Longrightarrow> hh_descriptor h \<noteq> hh_descriptor k"
  by (auto simp: valid_handle_def)

lemma planned_releases_done:
  assumes "plan_releases a prior (map al_handle als) sim = Some sim'"
    and "arena_inv b" "same_memory a b" "ha_free_extents b = sim" "length (ha_descriptors b) = length (ha_descriptors a)"
    and "\<And>h. h \<in> set (map al_handle als) \<Longrightarrow> valid_handle h a \<Longrightarrow> h \<notin> set prior \<Longrightarrow>
       ha_descriptors b ! hh_descriptor h = ha_descriptors a ! hh_descriptor h"
  shows "\<exists>b'. release_all als b = Some b' \<and> arena_inv b' \<and> same_memory a b' \<and> ha_free_extents b' = sim'"
  using assms
proof (induction als arbitrary: prior sim b)
  case (Cons al als)
  have v: "valid_handle (al_handle al) a" "al_handle al \<notin> set prior"
    and rest: "plan_releases a (prior @ [al_handle al]) (map al_handle als)
      (insert_free_extent \<lparr>fe_offset = de_offset (ha_descriptors a ! hh_descriptor (al_handle al)),
        fe_bytes = de_bytes (ha_descriptors a ! hh_descriptor (al_handle al))\<rparr> sim) = Some sim'"
    using Cons.prems(1) by (auto simp: Let_def split: if_splits)
  have d: "hh_descriptor (al_handle al) = al_descriptor al" "al_generation al = hh_generation (al_handle al)"
    using v(1) by (auto simp: al_handle_def valid_handle_def null_handle_def split: if_splits)
  have same: "ha_descriptors b ! al_descriptor al = ha_descriptors a ! al_descriptor al"
    using Cons.prems(6) [of "al_handle al"] v d by simp
  have vb: "valid_handle (al_handle al) b"
    using v(1) same Cons.prems(3,5) d by (auto simp: valid_handle_def same_memory_def)
  define c where "c = snd (release_descriptor (al_descriptor al) (al_generation al) b)"
  note rel = release_valid [OF vb, folded c_def]
  have "arena_inv c" "same_memory a c"
    using release_inv [OF Cons.prems(2)] release_same_memory [of b al] Cons.prems(3) rel(1)
    by (auto simp: c_def same_memory_def)
  moreover have "ha_descriptors c ! hh_descriptor h = ha_descriptors a ! hh_descriptor h"
    if "h \<in> set (map al_handle als)" "valid_handle h a" "h \<notin> set (prior @ [al_handle al])" for h
    using that Cons.prems(6) [of h] valid_handles_differ [OF that(2) v(1)] rel(3) d by auto
  ultimately obtain b' where "release_all als c = Some b'" "arena_inv b'" "same_memory a b'" "ha_free_extents b' = sim'"
    using Cons.IH [OF rest, of c] rel(2,4) same Cons.prems(4,5) d by metis
  then show ?case
    using rel(1) by auto
qed auto

text \<open>The block an allocation received is at the planned place, and stays there.\<close>

definition placed :: "host_arena \<Rightarrow> recipe_target \<Rightarrow> host_allocation \<Rightarrow> bool" where
  "placed a t al \<longleftrightarrow> valid_handle (al_handle al) a \<and>
     (let de = ha_descriptors a ! al_descriptor al in
      de_offset de = tg_offset t \<and> de_bytes de = tg_bytes t \<and> de_layout de = tg_layout t \<and> de_pages de = tg_pages t)"

lemma allocate_keeps_active:
  assumes "arena_allocate L pages a = (r, a')" "arena_inv a" "j \<in> active_set (ha_descriptors a)"
  shows "ha_descriptors a' ! j = ha_descriptors a ! j" "length (ha_descriptors a') = length (ha_descriptors a)"
proof -
  have "j \<noteq> last (ha_free_descriptors a)" if "ha_free_descriptors a \<noteq> []"
    using last_free(2) [OF _ that] assms(2,3) by (auto simp: arena_inv_def)
  then show "ha_descriptors a' ! j = ha_descriptors a ! j" "length (ha_descriptors a') = length (ha_descriptors a)"
    using assms(1) by (auto simp: arena_allocate_def take_descriptor_def place_block_def Let_def
        split: option.splits if_splits)
qed

lemma placed_kept:
  assumes "placed a t al" "arena_allocate L pages a = (r, a')" "arena_inv a"
  shows "placed a' t al"
proof -
  have "al_descriptor al = hh_descriptor (al_handle al)"
    using assms(1) by (auto simp: placed_def al_handle_def valid_handle_def null_handle_def split: if_splits)
  moreover have "hh_descriptor (al_handle al) \<in> active_set (ha_descriptors a)"
    using assms(1) by (auto simp: placed_def intro: valid_handle_active)
  ultimately show ?thesis
    using assms(1) allocate_keeps_active [OF assms(2,3)] allocate_same_memory [OF assms(2)]
    by (simp add: placed_def valid_handle_def same_memory_def)
qed

lemma allocate_all_keeps: "allocate_all ts a = Some (als, a') \<Longrightarrow> arena_inv a \<Longrightarrow> placed a t al \<Longrightarrow> placed a' t al"
proof (induction ts arbitrary: a als)
  case (Cons u ts)
  obtain al1 a1 where one: "arena_allocate (ha_layouts a ! tg_layout u) (tg_pages u) a = (Some al1, a1)"
      and "\<exists>als'. allocate_all ts a1 = Some (als', a')"
    using Cons.prems(1) by (auto simp: Let_def split: prod.splits option.splits if_splits)
  then show ?case
    using Cons.IH placed_kept [OF Cons.prems(3) one Cons.prems(2)] arena_allocate_inv [OF Cons.prems(2) one] by blast
qed simp


lemma allocate_planned:
  assumes plan: "plan_target a r (ha_free_extents b) = Some (t, sim)" and inv: "arena_inv b" and same: "same_memory a b"
  shows "\<exists>al b'. arena_allocate (ha_layouts b ! tg_layout t) (tg_pages t) b = (Some al, b') \<and>
    ha_free_extents b' = sim \<and> placed b' t al \<and> arena_inv b' \<and> same_memory a b'"
proof -
  obtain L li i where L: "find_layout L a = Some li" "0 < rq_pages r" "request_fits L (rq_pages r)"
      "find_fit (page_stride L * rq_pages r) (ha_free_extents b) = Some i"
    and t: "t = \<lparr>tg_layout = li, tg_pages = rq_pages r, tg_offset = fe_offset (ha_free_extents b ! i),
      tg_bytes = page_stride L * rq_pages r\<rparr>"
    and sim: "sim = take_extent i (page_stride L * rq_pages r) (ha_free_extents b)"
    using plan by (auto simp: plan_target_def Let_def split: option.splits if_splits)
  have find: "find_layout L b = Some li" and li: "li < length (ha_layouts b)" "ha_layouts b ! li = L"
    using L(1) find_layout_Some [of L b li] same by (auto simp: find_layout_def same_memory_def)
  have "L \<in> set (ha_layouts b)"
    using li by auto
  then have free: "ha_free_descriptors b \<noteq> []"
    by (rule fit_descriptor [OF inv _ L(2,4)])
  let ?d = "last (ha_free_descriptors b)"
  have d: "?d < length (ha_descriptors b)"
    using last_free(1) [OF _ free] inv by (auto simp: arena_inv_def)
  obtain al b' where alloc: "arena_allocate L (rq_pages r) b = (Some al, b')"
    using L(2-4) find free by (auto simp: arena_allocate_def take_descriptor_def find_free_extent_def Let_def)
  have b': "ha_free_extents b' = sim" "placed b' t al"
    using alloc L(2-4) find free d
    by (auto simp: arena_allocate_def take_descriptor_def find_free_extent_def Let_def sim t placed_def
        place_block_def valid_handle_def al_handle_def al_valid_def)
  then show ?thesis
    using alloc arena_allocate_inv [OF inv alloc] allocate_same_memory [OF alloc] same li by (auto simp: t same_memory_def)
qed

lemma planned_targets_done:
  assumes "plan_targets a rqs (ha_free_extents b) = Some ts" "arena_inv b" "same_memory a b"
  shows "\<exists>als b'. allocate_all ts b = Some (als, b') \<and> list_all2 (placed b') ts als"
  using assms
proof (induction rqs arbitrary: b ts)
  case (Cons r rqs)
  obtain t sim ts' where one: "plan_target a r (ha_free_extents b) = Some (t, sim)"
      and rest: "plan_targets a rqs sim = Some ts'" and ts: "ts = t # ts'"
    using Cons.prems(1) by (auto split: option.splits)
  obtain al b1 where A: "arena_allocate (ha_layouts b ! tg_layout t) (tg_pages t) b = (Some al, b1)"
      "ha_free_extents b1 = sim" "placed b1 t al" "arena_inv b1" "same_memory a b1"
    using allocate_planned [OF one Cons.prems(2,3)] by blast
  obtain als b' where B: "allocate_all ts' b1 = Some (als, b')" "list_all2 (placed b') ts' als"
    using Cons.IH [of b1 ts'] rest A by auto
  have "allocate_all ts b = Some (al # als, b')"
    using A(1,3) B(1) by (simp add: ts placed_def Let_def)
  moreover have "placed b' t al"
    using allocate_all_keeps [OF B(1) A(4,3)] .
  ultimately show ?case
    using B(2) by (auto simp: ts)
qed simp

lemma plan_targets_valid:
  assumes "plan_targets a rqs sim = Some ts" "length outs = length rqs" "list_all (\<lambda>out. \<not> al_valid out) outs"
  shows "list_all2 (target_valid a) outs ts \<and>
    list_all2 (\<lambda>r t. rq_layout r = Some (ha_layouts a ! tg_layout t) \<and> rq_pages r = tg_pages t) rqs ts"
  using assms
proof (induction rqs arbitrary: sim ts outs)
  case (Cons r rqs)
  obtain t sim' ts' where one: "plan_target a r sim = Some (t, sim')"
      and rest: "plan_targets a rqs sim' = Some ts'" and ts: "ts = t # ts'"
    using Cons.prems(1) by (auto split: option.splits)
  obtain out outs' where outs: "outs = out # outs'"
    using Cons.prems(2) by (cases outs) auto
  have "target_valid a out t \<and> rq_layout r = Some (ha_layouts a ! tg_layout t) \<and> rq_pages r = tg_pages t"
    using one Cons.prems(3) find_layout_Some
    by (fastforce simp: plan_target_def target_valid_def Let_def outs split: option.splits if_splits)
  then show ?case
    using Cons.IH [OF rest] Cons.prems(2,3) by (simp add: ts outs)
qed simp

lemma plan_releases_valid:
  "plan_releases a prior hs sim = Some sim' \<Longrightarrow> list_all (\<lambda>h. valid_handle h a) hs"
  by (induction a prior hs sim rule: plan_releases.induct) (auto simp: Let_def split: if_splits)

text \<open>
  C17. The two-phase replacement is sound: when \<open>plan_after_releases\<close> returns a recipe for a reachable
  arena, then \<open>apply_recipe\<close> on that arena, with the owning allocations of the released handles and
  empty targets, neither refuses nor calls \<open>std::terminate\<close>. It disarms the released allocations and
  gives every request a current allocation of its layout and its number of pages at exactly the
  offset the plan computed. On an arena of another revision the recipe is refused.
\<close>

theorem recipe_applies_as_planned:
  assumes "arena_construct self malloc capacity layouts = Inr a0"
    and "list_all (\<lambda>L. int32_geometry (hl_geometry L)) layouts"
    and "a = fold arena_step cs a0"
    and "plan_after_releases (map al_handle als) rqs a = Some rc"
    and "length outs = length rqs" "list_all (\<lambda>out. \<not> al_valid out) outs"
  shows "(\<exists>new a'. apply_recipe rc (map Some als) outs a = Applied (map (\<lambda>_. disarmed) als) new a' \<and>
      list_all2 (placed a') (rc_targets rc) new \<and>
      list_all2 (\<lambda>r t. rq_layout r = Some (layouts ! tg_layout t) \<and> rq_pages r = tg_pages t) rqs (rc_targets rc)) \<and>
    (ha_revision b \<noteq> ha_revision a \<longrightarrow> apply_recipe rc releases targets b = Refused)"
proof -
  note R = arena_reachable [OF assms(1-3)]
  obtain sim where sim: "plan_releases a [] (map al_handle als) (ha_free_extents a) = Some sim"
      and ts: "plan_targets a rqs sim = Some (rc_targets rc)"
      and rc: "rc_owner rc = Some (ha_self a)" "rc_arena_revision rc = ha_revision a" "rc_releases rc = map al_handle als"
    using assms(4) by (auto simp: plan_after_releases_def split: if_splits option.splits)
  obtain m where m: "release_all als a = Some m" "arena_inv m" "same_memory a m" "ha_free_extents m = sim"
    using planned_releases_done [OF sim R(1)] by auto
  obtain new a' where new: "allocate_all (rc_targets rc) m = Some (new, a')" "list_all2 (placed a') (rc_targets rc) new"
    using planned_targets_done [of a rqs m "rc_targets rc"] ts m(2-4) by auto
  note V = plan_targets_valid [OF ts assms(5,6)]
  have "list_all2 (release_matches a) (map Some als) (map al_handle als)"
    using plan_releases_valid [OF sim] by (simp add: list_all2_conv_all_nth release_matches_def list_all_length)
  moreover have "length (rc_targets rc) = length outs"
    using list_all2_lengthD [OF conjunct1 [OF V]] by simp
  ultimately have "apply_recipe rc (map Some als) outs a = Applied (map (\<lambda>_. disarmed) als) new a'"
    using rc V m(1) new(1) by (simp add: apply_recipe_def comp_def)
  moreover have "apply_recipe rc releases targets b = Refused" if "ha_revision b \<noteq> ha_revision a"
    using rc that by (simp add: apply_recipe_def)
  ultimately show ?thesis
    using new(2) V R(3) by (auto simp: apply_recipe_def rc)
qed


subsection \<open>Partial releases\<close>

text \<open>
  The test with partial releases agrees with the planner where both apply: releasing all pages of
  some allocations can be followed by the requests exactly when the planner finds a recipe, and the
  checked products do not overflow.
\<close>

definition whole :: "host_arena \<Rightarrow> host_handle \<Rightarrow> suballocation_release" where
  "whole a h = \<lparr>sr_allocation = h, sr_begin_page = 0, sr_page_count = de_pages (ha_descriptors a ! hh_descriptor h)\<rparr>"

lemma whole_simps [simp]:
  "sr_allocation (whole a h) = h" "sr_begin_page (whole a h) = 0"
  "sr_page_count (whole a h) = de_pages (ha_descriptors a ! hh_descriptor h)"
  by (simp_all add: whole_def)

lemma valid_handle_block:
  assumes "arena_inv a" "valid_handle h a"
  shows "block_ok (ha_layouts a) (ha_descriptors a ! hh_descriptor h)"
    "de_bytes (ha_descriptors a ! hh_descriptor h) \<le> ha_capacity_bytes a"
proof -
  let ?de = "ha_descriptors a ! hh_descriptor h"
  have t: "tiled (ha_capacity_bytes a) (ha_layouts a) (ha_descriptors a) (ha_free_extents a)"
    using assms(1) by (simp add: arena_inv_def)
  have act: "hh_descriptor h \<in> active_set (ha_descriptors a)"
    by (rule valid_handle_active [OF assms(2)])
  show "block_ok (ha_layouts a) ?de"
    by (rule tiledD(3) [OF t act])
  have "block ?de \<subseteq> {0 ..< ha_capacity_bytes a}"
    using block_in_used [OF act] tiledD(5) [OF t] by blast
  then have "card (block ?de) \<le> card {0 ..< ha_capacity_bytes a}"
    by (intro card_mono) simp_all
  then show "de_bytes ?de \<le> ha_capacity_bytes a"
    by (simp add: block_def)
qed

lemma whole_checks:
  assumes inv: "arena_inv a" and cap: "ha_capacity_bytes a \<le> SIZE_MAX_nat" and v: "valid_handle h a"
    and "de = ha_descriptors a ! hh_descriptor h" "stride = page_stride (ha_layouts a ! de_layout de)"
  shows "0 < de_pages de" "nat_checked_mul 0 stride = Inr 0" "nat_checked_add (de_offset de) 0 = Inr (de_offset de)"
    "nat_checked_mul (de_pages de) stride = Inr (de_bytes de)"
proof -
  have ok: "block_ok (ha_layouts a) de" "de_pages de * stride \<le> SIZE_MAX_nat"
    using valid_handle_block [OF inv v] cap assms(4,5) by (auto simp: block_ok_def)
  then have "0 < stride"
    using inv_strides [OF inv] assms(5) by (auto simp: block_ok_def)
  then have "de_pages de \<le> SIZE_MAX_nat div stride"
    using ok(2) by (simp add: less_eq_div_iff_mult_less_eq)
  then show "nat_checked_mul (de_pages de) stride = Inr (de_bytes de)"
    using ok(1) assms(5) by (simp add: nat_checked_mul_def block_ok_def)
qed (use valid_handle_block(1) [OF inv v] assms(4) in
    \<open>auto simp: block_ok_def nat_checked_mul_def nat_checked_add_def\<close>)

lemma plan_whole_releases:
  assumes "arena_inv a" "ha_capacity_bytes a \<le> SIZE_MAX_nat"
  shows "plan_subreleases a (map (whole a) prior) (map (whole a) hs) sim = Inr (plan_releases a prior hs sim)"
proof (induction hs arbitrary: prior sim)
  case (Cons h hs)
  show ?case
  proof (cases "valid_handle h a")
    case True
    note W = whole_checks [OF assms True refl refl]
    have dup: "list_ex (overlaps (whole a h)) (map (whole a) prior) \<longleftrightarrow> h \<in> set prior"
      using W(1) by (auto simp: list_ex_iff overlaps_def)
    show ?thesis
      using True W dup Cons.IH [of "prior @ [h]"] by (simp add: Let_def)
  qed simp
qed simp

lemma retained_runs_whole: "0 < pages \<Longrightarrow> retained_runs pages [(0, pages)] = 0"
  by (simp add: retained_runs_def)

lemma count_whole:
  assumes "distinct (prior @ hs)" "\<forall>h \<in> set hs. 0 < de_pages (ha_descriptors a ! hh_descriptor h)"
    and "every = map (whole a) (prior @ hs)"
  shows "count_descriptors a every (map (whole a) prior) (map (whole a) hs) (available, required) =
    (available + length hs, required)"
  using assms
proof (induction hs arbitrary: prior available)
  case (Cons h hs)
  have none: "filter (\<lambda>q. sr_allocation q = h) (map (whole a) xs) = []" if "h \<notin> set xs" for xs
    using that by (auto simp: filter_empty_conv)
  have "filter (\<lambda>q. sr_allocation q = h) every = [whole a h]"
    using Cons.prems(1) none by (simp add: Cons.prems(3))
  moreover have "\<not> list_ex (\<lambda>p. sr_allocation p = h) (map (whole a) prior)"
    using Cons.prems(1) by (auto simp: list_ex_iff)
  ultimately show ?case
    using Cons.IH [of "prior @ [h]" "available + 1"] Cons.prems by (simp add: Let_def retained_runs_whole)
qed simp

lemma plan_releases_distinct:
  "plan_releases a prior hs sim = Some sim' \<Longrightarrow> distinct prior \<Longrightarrow> distinct (prior @ hs)"
  by (induction a prior hs sim rule: plan_releases.induct) (auto simp: Let_def split: if_splits)

lemma suballocation_test_agrees:
  assumes inv: "arena_inv a" "ha_capacity_bytes a \<le> SIZE_MAX_nat" and some: "hs \<noteq> [] \<or> rqs \<noteq> []"
  shows "can_allocate_after_suballocation_releases (map (whole a) hs) rqs a = Inr (plan_after_releases hs rqs a \<noteq> None)"
proof (cases "plan_releases a [] hs (ha_free_extents a)")
  case None
  then show ?thesis
    using plan_whole_releases [OF inv, of "[]" hs] some
    by (auto simp: can_allocate_after_suballocation_releases_def plan_after_releases_def)
next
  case (Some sim)
  have "\<forall>h \<in> set hs. 0 < de_pages (ha_descriptors a ! hh_descriptor h)"
    using plan_releases_valid [OF Some] whole_checks(1) [OF inv _ refl refl] by (auto simp: list_all_iff)
  then have "count_descriptors a (map (whole a) hs) [] (map (whole a) hs) (length (ha_free_descriptors a), length rqs) =
      (length (ha_free_descriptors a) + length hs, length rqs)"
    using count_whole [of "[]" hs a "map (whole a) hs"] plan_releases_distinct [OF Some] by simp
  then show ?thesis
    using plan_whole_releases [OF inv, of "[]" hs] some Some
    by (auto simp: can_allocate_after_suballocation_releases_def plan_after_releases_def)
qed

section \<open>An example\<close>

text \<open>An arena of four records of 256 bytes; three blocks, the middle one to be replaced by two.\<close>

definition small_geometry :: kv_page_geometry where
  "small_geometry = \<lparr>gm_page_tokens = 64, gm_device_plane_order = PageMajor,
     gm_planes = [\<lparr>pg_dtype = BF16, pg_leading_extent = 1, pg_head_extent = 2, pg_alignment = 256\<rparr>],
     gm_oscar_layout = Contiguous\<rparr>"

definition small_layout :: host_kv_page_layout where
  "small_layout = \<lparr>hl_geometry = small_geometry, hl_storage_dtypes = [],
     hl_planes = [\<lparr>hp_offset = 0, hp_page_payload_bytes = 256, hp_head_payload_bytes = 128\<rparr>],
     hl_page_stride = 256, hl_storage_format = Native, hl_l1_offset = 0, hl_l1_page_payload_bytes = 0,
     hl_l2_offset = 0, hl_l2_page_payload_bytes = 0\<rparr>"

definition small_arena :: host_arena where
  "small_arena = \<lparr>ha_self = 1, ha_backing = Some \<lparr>pb_data = 4096, pb_size = 1024\<rparr>, ha_capacity_bytes = 1024,
     ha_occupied_bytes = 0, ha_layouts = [small_layout], ha_descriptors = [descriptor_init, descriptor_init, descriptor_init, descriptor_init],
     ha_free_descriptors = [3, 2, 1, 0], ha_free_extents = [\<lparr>fe_offset = 0, fe_bytes = 1024\<rparr>], ha_revision = 1\<rparr>"

lemma small_planned: "plan_layout_impl small_geometry [] Native = Inr small_layout"
  by code_simp

lemma small_layout_simps [simp]:
  "hl_geometry small_layout = small_geometry" "hl_storage_dtypes small_layout = []"
  "hl_storage_format small_layout = Native" "page_stride small_layout = 256"
  by (simp_all add: small_layout_def page_stride_def)

lemma small_constructed: "arena_construct 1 (Some 4096) 1024 [small_layout] = Inr small_arena"
proof -
  have four: "replicate 4 descriptor_init = [descriptor_init, descriptor_init, descriptor_init, descriptor_init]"
    by (simp add: numeral_eq_Suc)
  have "rev [0 ..< 4] = [3, 2, 1, 0 :: nat]"
    by (simp add: upt_rec)
  then show ?thesis
    using small_planned four
    by (simp add: arena_construct_def smallest_layout_def pinned_new_def UINT32_MAX_nat_def empty_arena_def small_arena_def)
qed

lemma small_int32: "list_all (\<lambda>L. int32_geometry (hl_geometry L)) [small_layout]"
  by (simp add: int32_geometry_def small_geometry_def INT32_MAX_def)

definition small_calls :: "arena_call list" where
  "small_calls = [HAllocate small_layout 1, HAllocate small_layout 1, HAllocate small_layout 2]"

definition small_run :: host_arena where
  "small_run = fold arena_step small_calls small_arena"

lemmas small_eval = arena_allocate_def find_layout_def same_layout_eq request_fits_def SIZE_MAX_nat_def
  find_free_extent_def find_fit_def take_descriptor_def place_block_def take_extent_def bump_revision_def
  descriptor_init_def Let_def

lemma small_run_full: "arena_free_bytes small_run = 0"
  by (simp add: arena_free_bytes_def small_run_def small_calls_def small_arena_def small_eval)

theorem arena_memory_tiled_witness:
  "tiled 1024 [small_layout] (ha_descriptors small_run) (ha_free_extents small_run) \<and>
   sum_list (map fe_bytes (ha_free_extents small_run)) = 0"
  using arena_memory_tiled [OF small_constructed small_int32 small_run_def] small_run_full by simp

definition small_owner :: "nat \<Rightarrow> host_allocation" where
  "small_owner d = \<lparr>al_owner = Some 1, al_descriptor = d, al_generation = 1\<rparr>"

text \<open>The arena is full; the block of two pages can be split, one page more cannot be had.\<close>

theorem descriptors_never_exhausted_witness:
  "fst (arena_allocate small_layout 1 small_run) = None \<and> ok (arena_split (small_owner 2) 1 small_run)"
proof -
  have "ha_free_extents small_run = []" "valid_handle (al_handle (small_owner 2)) small_run"
      "al_page_count (small_owner 2) small_run = 2"
    by (simp_all add: small_run_def small_calls_def small_arena_def small_eval valid_handle_def al_handle_def
        al_valid_def small_owner_def al_page_count_def)
  then show ?thesis
    using descriptors_never_exhausted [OF small_constructed small_int32 small_run_def,
        where L = small_layout and pages = 1 and al = "small_owner 2" and n = 1] by simp
qed

definition small_recipe :: recipe where
  "small_recipe = \<lparr>rc_owner = Some 1, rc_arena_revision = 4,
     rc_releases = map al_handle [small_owner 0, small_owner 1],
     rc_targets = [\<lparr>tg_layout = 0, tg_pages = 2, tg_offset = 0, tg_bytes = 512\<rparr>]\<rparr>"

theorem recipe_applies_as_planned_witness:
  "\<exists>new a'. apply_recipe small_recipe [Some (small_owner 0), Some (small_owner 1)] [disarmed] small_run =
     Applied [disarmed, disarmed] new a' \<and>
   list_all2 (placed a') [\<lparr>tg_layout = 0, tg_pages = 2, tg_offset = 0, tg_bytes = 512\<rparr>] new"
proof -
  have "plan_after_releases (map al_handle [small_owner 0, small_owner 1]) [\<lparr>rq_layout = Some small_layout, rq_pages = 2\<rparr>]
      small_run = Some small_recipe"
    by (simp add: small_run_def small_calls_def small_arena_def small_eval small_recipe_def plan_after_releases_def
        plan_target_def valid_handle_def al_handle_def al_valid_def small_owner_def insert_free_extent_def
        merge_previous_def fe_end_def)
  from recipe_applies_as_planned [OF small_constructed small_int32 small_run_def this, where outs = "[disarmed]"]
  show ?thesis
    by (simp add: al_valid_def disarmed_def small_recipe_def)
qed

end
