(* ===== verification/Device_KV_Pool.thy ===== *)
theory Device_KV_Pool
  imports Host_KV_Arena
begin

text \<open>
  Model of the page pool of \<open>src/core/paged_kv_cache.h\<close> and \<open>src/core/paged_kv_cache.cpp\<close>: \<open>DeviceKVPagePool\<close>
  with its sorted runs of free pages, its reservations and its move-only page leases.

  A pool is known by a number, its address; \<open>None\<close> is the null pointer. Page numbers and page counts inside
  a pool are natural numbers: the constructor admits at most \<open>INT32_MAX\<close> pages and the invariant bounds
  every count by the capacity, so the 32-bit additions and subtractions of the source do not wrap. The index
  of a handle is an integer (\<open>-1\<close> in an empty one), generations and validation stamps are 32-bit words
  that do wrap. A \<open>std::vector\<close> of leases is its elements and its capacity.

  The lemmas show that the sorted runs of free pages stand for the set of free pages under every operation,
  that materialization places pages as a simple reference definition on the page flags says, and what an
  operation does to the leases and reservations the pool has handed out. The theory \<open>Device_KV_System\<close>
  joins the pool with its clients.
\<close>

section \<open>Geometry and planning\<close>

definition checked_i32 :: "nat \<Rightarrow> exn + int" where
  "checked_i32 v = (if v = 0 \<or> INT32_MAX < int v then Inl Invalid_argument else Inr (int v))"

text \<open>Every value of \<open>oscar_kv_layout\<close> is a valid layout.\<close>

definition validate_geometry :: "kv_page_geometry \<Rightarrow> exn + unit" where
  "validate_geometry g =
     (if gm_page_tokens g \<noteq> kPagedKVPageSize then Inl Invalid_argument
      else if gm_planes g = [] then Inl Invalid_argument
      else if list_ex (\<lambda>p. pg_leading_extent p \<le> 0 \<or> pg_head_extent p \<le> 0) (gm_planes g)
      then Inl Invalid_argument else Inr ())"

record page_pool_spec =
  ps_page_group_count :: nat
  ps_geometry :: kv_page_geometry

record plane_layout =
  pv_geometry :: kv_plane_geometry
  pv_storage :: tensor_region

record page_pool_layout =
  pq_spec :: page_pool_spec
  pq_planes :: "plane_layout list"

definition plane_shape :: "paged_kv_plane_order \<Rightarrow> kv_plane_geometry \<Rightarrow> int \<Rightarrow> int list" where
  "plane_shape ord p pages =
     (case ord of PageMajor \<Rightarrow> [pg_leading_extent p, uint kPagedKVPageSize, pg_head_extent p, pages]
      | HeadMajor \<Rightarrow> [pg_leading_extent p, uint kPagedKVPageSize, pages, pg_head_extent p])"

fun plan_planes :: "paged_kv_plane_order \<Rightarrow> int \<Rightarrow> kv_plane_geometry list \<Rightarrow> layout_builder \<Rightarrow>
    exn + (plane_layout list \<times> layout_builder)" where
  "plan_planes ord pages [] b = Inr ([], b)"
| "plan_planes ord pages (p # ps) b =
     bindE (layout_add_tensor (pg_dtype p) (plane_shape ord p pages) (pg_alignment p) b) (\<lambda>(region, b1).
     bindE (plan_planes ord pages ps b1) (\<lambda>(planned, b2).
       Inr (\<lparr>pv_geometry = p, pv_storage = region\<rparr> # planned, b2)))"

definition plan_device_kv_page_pool ::
    "page_pool_spec \<Rightarrow> layout_builder \<Rightarrow> exn + (page_pool_layout \<times> layout_builder)" where
  "plan_device_kv_page_pool spec b =
     bindE (checked_i32 (ps_page_group_count spec)) (\<lambda>pages.
     bindE (validate_geometry (ps_geometry spec)) (\<lambda>_.
     bindE (plan_planes (gm_device_plane_order (ps_geometry spec)) pages (gm_planes (ps_geometry spec)) b) (\<lambda>(planned, b').
       Inr (\<lparr>pq_spec = spec, pq_planes = planned\<rparr>, b'))))"

definition pool_payload_bytes :: "page_pool_layout \<Rightarrow> u64" where
  "pool_payload_bytes l = foldl (\<lambda>sum p. sum + lr_bytes (tr_region (pv_storage p))) 0 (pq_planes l)"

section \<open>Handles, leases and reservations\<close>

record page_handle =
  ph_owner :: "nat option"
  ph_index :: int
  ph_generation :: u32

definition null_page_handle :: page_handle where
  "null_page_handle = \<lparr>ph_owner = None, ph_index = -1, ph_generation = 0\<rparr>"

record page_lease =
  ls_owner :: "nat option"
  ls_index :: int
  ls_generation :: u32

definition null_lease :: page_lease where
  "null_lease = \<lparr>ls_owner = None, ls_index = -1, ls_generation = 0\<rparr>"

definition lease_valid :: "page_lease \<Rightarrow> bool" where
  "lease_valid l \<longleftrightarrow> ls_owner l \<noteq> None"

definition lease_handle :: "page_lease \<Rightarrow> page_handle" where
  "lease_handle l =
     (if lease_valid l
      then \<lparr>ph_owner = ls_owner l, ph_index = ls_index l, ph_generation = ls_generation l\<rparr>
      else null_page_handle)"

record page_reservation =
  rv_owner :: "nat option"
  rv_pages :: nat

definition null_reservation :: page_reservation where
  "null_reservation = \<lparr>rv_owner = None, rv_pages = 0\<rparr>"

definition reservation_valid :: "page_reservation \<Rightarrow> bool" where
  "reservation_valid r \<longleftrightarrow> rv_owner r \<noteq> None"

record lease_vector =
  lv_items :: "page_lease list"
  lv_capacity :: nat

section \<open>The pool\<close>

record free_run =
  fr_begin :: nat
  fr_count :: nat

record page_pool =
  pp_self :: nat
  pp_spec :: page_pool_spec
  pp_planes :: "tensor list"
  pp_free_runs :: "free_run list"
  pp_generations :: "u32 list"
  pp_allocated :: "bool list"
  pp_marks :: "u32 list"
  pp_stamp :: u32
  pp_allocated_pages :: nat
  pp_reserved_pages :: nat

fun bind_planes :: "page_pool_spec \<Rightarrow> int \<Rightarrow> device_span \<Rightarrow> plane_layout list \<Rightarrow> kv_plane_geometry list \<Rightarrow>
    exn + tensor list" where
  "bind_planes spec pages backing (planned # ps) (expected # es) =
     (if pv_geometry planned \<noteq> expected then Inl Logic_error
      else bindE (tensor_region_bind (pv_storage planned) backing) (\<lambda>plane.
        if dtype plane \<noteq> pg_dtype expected \<or> ne plane ! 0 \<noteq> pg_leading_extent expected \<or>
           ne plane ! 1 \<noteq> uint kPagedKVPageSize then Inl Logic_error
        else if (case gm_device_plane_order (ps_geometry spec) of
            PageMajor \<Rightarrow> ne plane ! 2 \<noteq> pg_head_extent expected \<or> ne plane ! 3 \<noteq> pages
          | HeadMajor \<Rightarrow> ne plane ! 2 \<noteq> pages \<or> ne plane ! 3 \<noteq> pg_head_extent expected) then Inl Logic_error
        else bindE (bind_planes spec pages backing ps es) (\<lambda>planes. Inr (plane # planes))))"
| "bind_planes spec pages backing _ _ = Inr []"

definition pool_construct :: "nat \<Rightarrow> device_span \<Rightarrow> page_pool_layout \<Rightarrow> exn + page_pool" where
  "pool_construct self backing layout =
     (let spec = pq_spec layout; n = ps_page_group_count spec in
      bindE (validate_geometry (ps_geometry spec)) (\<lambda>_.
        if length (pq_planes layout) \<noteq> length (gm_planes (ps_geometry spec)) \<or> pq_planes layout = []
        then Inl Invalid_argument
        else bindE (checked_i32 n) (\<lambda>pages.
             bindE (bind_planes spec pages backing (pq_planes layout) (gm_planes (ps_geometry spec))) (\<lambda>planes.
               Inr \<lparr>pp_self = self, pp_spec = spec, pp_planes = planes,
                    pp_free_runs = [\<lparr>fr_begin = 0, fr_count = n\<rparr>],
                    pp_generations = replicate n 1, pp_allocated = replicate n False,
                    pp_marks = replicate n 0, pp_stamp = 0,
                    pp_allocated_pages = 0, pp_reserved_pages = 0\<rparr>))))"

definition capacity_pages :: "page_pool \<Rightarrow> nat" where
  "capacity_pages p = ps_page_group_count (pp_spec p)"

definition available_pages :: "page_pool \<Rightarrow> nat" where
  "available_pages p = capacity_pages p - pp_allocated_pages p - pp_reserved_pages p"

definition pool_plane :: "nat \<Rightarrow> page_pool \<Rightarrow> exn + tensor" where
  "pool_plane i p = (if i < length (pp_planes p) then Inr (pp_planes p ! i) else Inl Out_of_range)"

definition lease_belongs :: "page_lease \<Rightarrow> page_pool \<Rightarrow> bool" where
  "lease_belongs l p \<longleftrightarrow> ls_owner l = Some (pp_self p)"

definition reservation_belongs :: "page_reservation \<Rightarrow> page_pool \<Rightarrow> bool" where
  "reservation_belongs r p \<longleftrightarrow> rv_owner r = Some (pp_self p)"

definition valid_page :: "page_handle \<Rightarrow> page_pool \<Rightarrow> bool" where
  "valid_page h p \<longleftrightarrow>
     ph_owner h = Some (pp_self p) \<and> 0 \<le> ph_index h \<and> ph_index h < int (capacity_pages p) \<and>
     pp_allocated p ! nat (ph_index h) \<and> pp_generations p ! nat (ph_index h) = ph_generation h"

definition physical_index :: "page_handle \<Rightarrow> page_pool \<Rightarrow> exn + int" where
  "physical_index h p = (if valid_page h p then Inr (ph_index h) else Inl Invalid_argument)"

fun run_count_loop :: "page_pool \<Rightarrow> page_handle list \<Rightarrow> nat \<Rightarrow> int \<Rightarrow> exn + nat" where
  "run_count_loop p [] runs previous = Inr runs"
| "run_count_loop p (h # hs) runs previous =
     bindE (physical_index h p) (\<lambda>current.
       run_count_loop p hs (if runs = 0 \<or> current \<noteq> previous + 1 then runs + 1 else runs) current)"

definition contiguous_run_count :: "page_handle list \<Rightarrow> page_pool \<Rightarrow> exn + nat" where
  "contiguous_run_count hs p = (if hs = [] then Inr 0 else run_count_loop p hs 0 (-2))"

section \<open>Runs of free pages\<close>

definition fr_end :: "free_run \<Rightarrow> nat" where
  "fr_end r = fr_begin r + fr_count r"

text \<open>The outcomes of code that may throw, call \<open>std::terminate\<close>, or run past the end of a vector.\<close>

datatype 'a outcome = Throws exn | Terminates | Undefined | Returns 'a

definition consume_free_run :: "nat \<Rightarrow> nat \<Rightarrow> nat \<Rightarrow> free_run list \<Rightarrow> free_run list outcome" where
  "consume_free_run i first n runs =
     (if length runs \<le> i \<or> n = 0 then Terminates
      else let run = runs ! i; last_end = first + n in
        if first < fr_begin run \<or> fr_end run < last_end then Terminates
        else if first = fr_begin run \<and> last_end = fr_end run
        then Returns (take i runs @ drop (Suc i) runs)
        else if first = fr_begin run
        then Returns (runs[i := \<lparr>fr_begin = fr_begin run + n, fr_count = fr_count run - n\<rparr>])
        else if last_end = fr_end run
        then Returns (runs[i := run\<lparr>fr_count := first - fr_begin run\<rparr>])
        else Returns (take i runs @ run\<lparr>fr_count := first - fr_begin run\<rparr> #
               \<lparr>fr_begin = last_end, fr_count = fr_end run - last_end\<rparr> # drop (Suc i) runs))"

definition release_free_page :: "nat \<Rightarrow> free_run list \<Rightarrow> free_run list" where
  "release_free_page i runs =
     (let front = takeWhile (\<lambda>r. fr_begin r < i) runs;
          behind = dropWhile (\<lambda>r. fr_begin r < i) runs;
          joins_right = (behind \<noteq> [] \<and> i + 1 = fr_begin (hd behind));
          joins_left = (front \<noteq> [] \<and> fr_end (last front) = i)
      in if joins_left \<and> joins_right
         then butlast front @ (last front)\<lparr>fr_count := fr_count (last front) + (1 + fr_count (hd behind))\<rparr> # tl behind
         else if joins_left
         then butlast front @ (last front)\<lparr>fr_count := fr_count (last front) + 1\<rparr> # behind
         else if joins_right
         then front @ \<lparr>fr_begin = i, fr_count = fr_count (hd behind) + 1\<rparr> # tl behind
         else front @ \<lparr>fr_begin = i, fr_count = 1\<rparr> # behind)"

text \<open>The run that contains the preferred place, if all requested pages are free there.\<close>

definition preferred_run :: "int \<Rightarrow> nat \<Rightarrow> free_run list \<Rightarrow> (nat \<times> nat) option" where
  "preferred_run preferred n runs =
     (if preferred < 0 then None
      else let upper = takeWhile (\<lambda>r. \<not> preferred < int (fr_begin r)) runs in
        if upper = [] then None
        else let candidate = last upper in
          if int (fr_begin candidate) \<le> preferred \<and> nat preferred + n \<le> fr_end candidate
          then Some (length upper - 1, nat preferred) else None)"

definition first_fit :: "nat \<Rightarrow> free_run list \<Rightarrow> (nat \<times> nat) option" where
  "first_fit n runs =
     map_option (\<lambda>i. (i, fr_begin (runs ! i))) (find_index (\<lambda>r. n \<le> fr_count r) runs)"

definition select_run :: "int option \<Rightarrow> nat \<Rightarrow> free_run list \<Rightarrow> (nat \<times> nat) option" where
  "select_run preferred n runs =
     (case (case preferred of None \<Rightarrow> None | Some page \<Rightarrow> preferred_run page n runs) of
        Some place \<Rightarrow> Some place
      | None \<Rightarrow> first_fit n runs)"

text \<open>Taking pages from the front of the run list; \<open>None\<close> when it runs out.\<close>

fun scatter :: "nat \<Rightarrow> free_run list \<Rightarrow> (nat list \<times> free_run list) option" where
  "scatter remaining runs =
     (if remaining = 0 then Some ([], runs)
      else case runs of [] \<Rightarrow> None
      | run # rest \<Rightarrow>
          let taken = min remaining (fr_count run); pages = [fr_begin run ..< fr_begin run + taken] in
          if taken = fr_count run
          then map_option (\<lambda>(more, rest'). (pages @ more, rest')) (scatter (remaining - taken) rest)
          else Some (pages, \<lparr>fr_begin = fr_begin run + taken, fr_count = fr_count run - taken\<rparr> # rest))"

declare scatter.simps [simp del]

definition take_pages :: "int option \<Rightarrow> nat \<Rightarrow> free_run list \<Rightarrow> (nat list \<times> free_run list) outcome" where
  "take_pages preferred n runs =
     (case select_run preferred n runs of
        Some (i, first) \<Rightarrow>
          (case consume_free_run i first n runs of
             Returns runs' \<Rightarrow> Returns ([first ..< first + n], runs')
           | Throws e \<Rightarrow> Throws e | Terminates \<Rightarrow> Terminates | Undefined \<Rightarrow> Undefined)
      | None \<Rightarrow> (case scatter n runs of None \<Rightarrow> Undefined | Some taken \<Rightarrow> Returns taken))"

section \<open>Reservations\<close>

definition reserve :: "nat \<Rightarrow> page_pool \<Rightarrow> page_reservation option \<times> page_pool" where
  "reserve pages p =
     (if pages = 0 \<or> available_pages p < pages then (None, p)
      else (Some \<lparr>rv_owner = Some (pp_self p), rv_pages = pages\<rparr>,
            p\<lparr>pp_reserved_pages := pp_reserved_pages p + pages\<rparr>))"

definition make_empty_reservation :: "page_pool \<Rightarrow> page_reservation" where
  "make_empty_reservation p = \<lparr>rv_owner = Some (pp_self p), rv_pages = 0\<rparr>"

definition can_resize_reservation :: "page_reservation \<Rightarrow> nat \<Rightarrow> page_pool \<Rightarrow> bool" where
  "can_resize_reservation r pages p \<longleftrightarrow>
     reservation_belongs r p \<and> rv_pages r \<le> pp_reserved_pages p \<and>
     pp_allocated_pages p + (pp_reserved_pages p - rv_pages r) + pages \<le> capacity_pages p"

definition resize_reservation :: "page_reservation \<Rightarrow> nat \<Rightarrow> page_pool \<Rightarrow> exn + (page_reservation \<times> page_pool)" where
  "resize_reservation r pages p =
     (if \<not> can_resize_reservation r pages p then Inl Bad_alloc
      else Inr (r\<lparr>rv_pages := pages\<rparr>, p\<lparr>pp_reserved_pages := pp_reserved_pages p - rv_pages r + pages\<rparr>))"

definition release_reservation :: "nat \<Rightarrow> page_pool \<Rightarrow> page_pool outcome" where
  "release_reservation pages p =
     (if pp_reserved_pages p < pages then Terminates
      else Returns (p\<lparr>pp_reserved_pages := pp_reserved_pages p - pages\<rparr>))"

text \<open>\<open>clear\<close> and \<open>release\<close> of a reservation, on the pool it points to.\<close>

definition reservation_clear :: "page_reservation \<Rightarrow> page_pool \<Rightarrow> (page_reservation \<times> page_pool) outcome" where
  "reservation_clear r p =
     (if \<not> reservation_valid r \<or> rv_pages r = 0 then Returns (r, p)
      else case release_reservation (rv_pages r) p of
        Returns p' \<Rightarrow> Returns (r\<lparr>rv_pages := 0\<rparr>, p')
      | Throws e \<Rightarrow> Throws e | Terminates \<Rightarrow> Terminates | Undefined \<Rightarrow> Undefined)"

definition reservation_release :: "page_reservation \<Rightarrow> page_pool \<Rightarrow> (page_reservation \<times> page_pool) outcome" where
  "reservation_release r p =
     (if \<not> reservation_valid r then Returns (r, p)
      else case release_reservation (rv_pages r) p of
        Returns p' \<Rightarrow> Returns (null_reservation, p')
      | Throws e \<Rightarrow> Throws e | Terminates \<Rightarrow> Terminates | Undefined \<Rightarrow> Undefined)"

section \<open>Leases\<close>

definition page_increment_generation :: "u32 \<Rightarrow> u32" where
  "page_increment_generation g = (let g' = g + 1 in if g' = 0 then g' + 1 else g')"

definition release_page :: "int \<Rightarrow> u32 \<Rightarrow> page_pool \<Rightarrow> page_pool" where
  "release_page index generation p =
     (if index < 0 \<or> int (capacity_pages p) \<le> index then p
      else let position = nat index in
        if \<not> pp_allocated p ! position \<or> pp_generations p ! position \<noteq> generation then p
        else p\<lparr>pp_allocated := (pp_allocated p)[position := False],
               pp_generations := (pp_generations p)[position := page_increment_generation (pp_generations p ! position)],
               pp_free_runs := release_free_page position (pp_free_runs p),
               pp_allocated_pages := pp_allocated_pages p - 1\<rparr>)"

definition lease_release :: "page_lease \<Rightarrow> page_pool \<Rightarrow> bool \<times> page_lease \<times> page_pool" where
  "lease_release l p =
     (if \<not> lease_valid l then (False, l, p)
      else if \<not> valid_page \<lparr>ph_owner = ls_owner l, ph_index = ls_index l, ph_generation = ls_generation l\<rparr> p
      then (False, null_lease, p)
      else (True, null_lease, release_page (ls_index l) (ls_generation l) p))"

definition new_lease :: "page_pool \<Rightarrow> nat \<Rightarrow> page_lease" where
  "new_lease p page = \<lparr>ls_owner = Some (pp_self p), ls_index = int page, ls_generation = pp_generations p ! page\<rparr>"

definition mark_allocated :: "nat list \<Rightarrow> bool list \<Rightarrow> bool list" where
  "mark_allocated pages flags = fold (\<lambda>page flags. flags[page := True]) pages flags"

definition lease_stale :: "page_pool \<Rightarrow> page_lease \<Rightarrow> bool" where
  "lease_stale p l \<longleftrightarrow> \<not> lease_belongs l p \<or> \<not> valid_page (lease_handle l) p"

text \<open>Where materialization should continue: behind the given page, or behind the last lease.\<close>

definition preferred_page :: "page_handle option \<Rightarrow> page_lease list \<Rightarrow> page_pool \<Rightarrow> exn + int option" where
  "preferred_page predecessor items p =
     (case predecessor of
        Some h \<Rightarrow> bindE (physical_index h p) (\<lambda>i. Inr (Some (i + 1)))
      | None \<Rightarrow> Inr (if items = [] then None else Some (ls_index (last items) + 1)))"

definition adopt_pages :: "page_reservation \<Rightarrow> lease_vector \<Rightarrow> nat \<Rightarrow> nat list \<times> free_run list \<Rightarrow> page_pool \<Rightarrow>
    page_reservation \<times> lease_vector \<times> page_pool" where
  "adopt_pages r v n taken p =
     (r\<lparr>rv_pages := rv_pages r - n\<rparr>,
      v\<lparr>lv_items := lv_items v @ map (new_lease p) (fst taken)\<rparr>,
      p\<lparr>pp_allocated := mark_allocated (fst taken) (pp_allocated p), pp_free_runs := snd taken,
        pp_allocated_pages := pp_allocated_pages p + n, pp_reserved_pages := pp_reserved_pages p - n\<rparr>)"

definition materialize :: "page_reservation \<Rightarrow> nat \<Rightarrow> lease_vector \<Rightarrow> page_handle option \<Rightarrow> page_pool \<Rightarrow>
    (page_reservation \<times> lease_vector \<times> page_pool) outcome" where
  "materialize r target v predecessor p =
     (if \<not> reservation_belongs r p \<or> target < length (lv_items v) then Throws Invalid_argument
      else let n = target - length (lv_items v) in
        if rv_pages r < n \<or> lv_capacity v < target then Throws Invalid_argument
        else if list_ex (lease_stale p) (lv_items v) then Throws Invalid_argument
        else if n = 0 then Returns (r, v, p)
        else if capacity_pages p - pp_allocated_pages p < n then Throws Logic_error
        else case preferred_page predecessor (lv_items v) p of
          Inl e \<Rightarrow> Throws e
        | Inr preferred \<Rightarrow>
            (case take_pages preferred n (pp_free_runs p) of
               Returns taken \<Rightarrow> Returns (adopt_pages r v n taken p)
             | Throws e \<Rightarrow> Throws e | Terminates \<Rightarrow> Terminates | Undefined \<Rightarrow> Undefined))"

definition materialize_one :: "page_reservation \<Rightarrow> page_pool \<Rightarrow>
    exn + (page_lease \<times> page_reservation \<times> page_pool)" where
  "materialize_one r p =
     (if \<not> reservation_belongs r p \<or> rv_pages r = 0 then Inl Invalid_argument
      else case pp_free_runs p of [] \<Rightarrow> Inl Logic_error
      | run # rest \<Rightarrow>
          let page = fr_begin run; run' = \<lparr>fr_begin = fr_begin run + 1, fr_count = fr_count run - 1\<rparr> in
          Inr (new_lease p page, r\<lparr>rv_pages := rv_pages r - 1\<rparr>,
               p\<lparr>pp_free_runs := (if fr_count run' = 0 then rest else run' # rest),
                 pp_allocated := (pp_allocated p)[page := True],
                 pp_allocated_pages := pp_allocated_pages p + 1,
                 pp_reserved_pages := pp_reserved_pages p - 1\<rparr>))"

definition UINT32_MAX_int :: int where
  "UINT32_MAX_int = 4294967295"

text \<open>The leases a vector drops when it shrinks are destroyed from the front.\<close>

definition destroy_leases :: "page_lease list \<Rightarrow> page_pool \<Rightarrow> page_pool" where
  "destroy_leases ls p = fold (\<lambda>l p. snd (snd (lease_release l p))) ls p"

definition dematerialize :: "page_reservation \<Rightarrow> nat \<Rightarrow> lease_vector \<Rightarrow> page_pool \<Rightarrow>
    exn + (page_reservation \<times> lease_vector \<times> page_pool)" where
  "dematerialize r target v p =
     (if \<not> reservation_belongs r p \<or> length (lv_items v) < target then Inl Invalid_argument
      else if list_ex (lease_stale p) (lv_items v) then Inl Invalid_argument
      else let released = length (lv_items v) - target in
        if released = 0 then Inr (r, v, p)
        else if UINT32_MAX_int - int (rv_pages r) < int released then Inl Overflow_error
        else let p' = destroy_leases (drop target (lv_items v)) p in
          Inr (r\<lparr>rv_pages := rv_pages r + released\<rparr>, v\<lparr>lv_items := take target (lv_items v)\<rparr>,
               p'\<lparr>pp_reserved_pages := pp_reserved_pages p' + released\<rparr>))"

definition dematerialize_one :: "page_reservation \<Rightarrow> page_lease \<Rightarrow> page_pool \<Rightarrow>
    exn + (page_reservation \<times> page_lease \<times> page_pool)" where
  "dematerialize_one r l p =
     (if \<not> reservation_belongs r p \<or> lease_stale p l \<or> int (rv_pages r) = UINT32_MAX_int then Inl Invalid_argument
      else case lease_release l p of (released, l', p') \<Rightarrow>
        if \<not> released then Inl Logic_error
        else Inr (r\<lparr>rv_pages := rv_pages r + 1\<rparr>, l', p'\<lparr>pp_reserved_pages := pp_reserved_pages p' + 1\<rparr>))"


section \<open>Validation and page transfers\<close>

fun mark_pages :: "page_handle list \<Rightarrow> page_pool \<Rightarrow> (exn + unit) \<times> page_pool" where
  "mark_pages [] p = (Inr (), p)"
| "mark_pages (h # hs) p =
     (case physical_index h p of Inl e \<Rightarrow> (Inl e, p)
      | Inr i \<Rightarrow>
          if pp_marks p ! nat i = pp_stamp p then (Inl Invalid_argument, p)
          else mark_pages hs (p\<lparr>pp_marks := (pp_marks p)[nat i := pp_stamp p]\<rparr>))"

definition next_stamp :: "page_pool \<Rightarrow> page_pool" where
  "next_stamp p =
     (let stamp = pp_stamp p + 1 in
      if stamp = 0 then p\<lparr>pp_marks := replicate (length (pp_marks p)) 0, pp_stamp := 1\<rparr>
      else p\<lparr>pp_stamp := stamp\<rparr>)"

definition validate_distinct_pages :: "page_handle list \<Rightarrow> page_pool \<Rightarrow> (exn + unit) \<times> page_pool" where
  "validate_distinct_pages hs p = mark_pages hs (next_stamp p)"

text \<open>
  The CUDA calls on the planes, with byte offsets from the start of the plane: filling \<open>width\<close> bytes in
  each of \<open>height\<close> rows that are \<open>pitch\<close> bytes apart, and copying between two places of a plane.
\<close>

datatype plane_command =
    Memset nat int int
  | Memset2D nat int int int int
  | Memcpy nat int int int
  | Memcpy2D nat int int int int int

definition zero_run :: "paged_kv_plane_order \<Rightarrow> int \<Rightarrow> int \<Rightarrow> nat \<times> tensor \<Rightarrow> plane_command" where
  "zero_run ord first n pt =
     (case ord of
        PageMajor \<Rightarrow> Memset (fst pt) (first * nb (snd pt) ! 3) (n * nb (snd pt) ! 3)
      | HeadMajor \<Rightarrow> Memset2D (fst pt) (first * nb (snd pt) ! 2) (nb (snd pt) ! 3) (n * nb (snd pt) ! 2) (ne (snd pt) ! 3))"

text \<open>The longest prefix of consecutive page indices, and the loop over such runs.\<close>

fun run_end :: "int \<Rightarrow> int list \<Rightarrow> nat" where
  "run_end previous [] = 0"
| "run_end previous (i # is) = (if i = previous + 1 then Suc (run_end i is) else 0)"

function page_runs :: "int list \<Rightarrow> (int \<times> nat) list" where
  "page_runs [] = []"
| "page_runs (i # is) = (i, Suc (run_end i is)) # page_runs (drop (run_end i is) is)"
  by pat_completeness auto

termination
  by (relation "measure length") simp_all

definition zero_commands :: "page_handle list \<Rightarrow> page_pool \<Rightarrow> plane_command list" where
  "zero_commands hs p =
     concat (map (\<lambda>(first, n). map (zero_run (gm_device_plane_order (ps_geometry (pp_spec p))) first (int n))
       (enumerate 0 (pp_planes p))) (page_runs (map ph_index hs)))"

text \<open>\<open>CUDA_CHECK\<close> throws at the first call the runtime refuses; the calls issued so far stay issued.\<close>

fun issue :: "('c \<Rightarrow> bool) \<Rightarrow> 'c list \<Rightarrow> (exn + unit) \<times> 'c list" where
  "issue accepts [] = (Inr (), [])"
| "issue accepts (c # cs) =
     (if \<not> accepts c then (Inl Runtime_error, [])
      else let (r, issued) = issue accepts cs in (r, c # issued))"

definition zero_pages :: "(plane_command \<Rightarrow> bool) \<Rightarrow> page_handle list \<Rightarrow> page_pool \<Rightarrow>
    (exn + unit) \<times> plane_command list \<times> page_pool" where
  "zero_pages accepts hs p =
     (case validate_distinct_pages hs p of
        (Inl e, p') \<Rightarrow> (Inl e, [], p')
      | (Inr _, p') \<Rightarrow> (case issue accepts (zero_commands hs p') of (r, cs) \<Rightarrow> (r, cs, p')))"

definition copy_plane :: "paged_kv_plane_order \<Rightarrow> int \<Rightarrow> int \<Rightarrow> nat \<times> tensor \<Rightarrow> plane_command" where
  "copy_plane ord source dest pt =
     (let t = snd pt in
      case ord of
        PageMajor \<Rightarrow> Memcpy (fst pt) (dest * nb t ! 3) (source * nb t ! 3) (nb t ! 3)
      | HeadMajor \<Rightarrow> Memcpy2D (fst pt) (dest * nb t ! 2) (source * nb t ! 2) (nb t ! 3) (nb t ! 2) (ne t ! 3))"

definition copy_page :: "(plane_command \<Rightarrow> bool) \<Rightarrow> page_handle \<Rightarrow> page_handle \<Rightarrow> page_pool \<Rightarrow>
    (exn + unit) \<times> plane_command list" where
  "copy_page accepts source destination p =
     (case bindE (physical_index source p) (\<lambda>s. bindE (physical_index destination p) (\<lambda>d. Inr (s, d))) of
        Inl e \<Rightarrow> (Inl e, [])
      | Inr (s, d) \<Rightarrow>
          if s = d then (Inr (), [])
          else issue accepts (map (copy_plane (gm_device_plane_order (ps_geometry (pp_spec p))) s d)
            (enumerate 0 (pp_planes p))))"

section \<open>Reserving several pools at once\<close>

fun bundle_check :: "page_pool list \<Rightarrow> nat list \<Rightarrow> (nat option \<times> nat) list \<Rightarrow> exn + unit" where
  "bundle_check ps earlier [] = Inr ()"
| "bundle_check ps earlier ((pool, pages) # requests) =
     (case pool of None \<Rightarrow> Inl Invalid_argument
      | Some k \<Rightarrow>
          if pages = 0 then Inl Invalid_argument
          else if k \<in> set earlier then Inl Invalid_argument
          else if available_pages (ps ! k) < pages then Inl Bad_alloc
          else bundle_check ps (earlier @ [k]) requests)"

fun destroy_reservations :: "page_reservation list \<Rightarrow> page_pool list \<Rightarrow> page_pool list outcome" where
  "destroy_reservations [] ps = Returns ps"
| "destroy_reservations (r # rs) ps =
     (case rv_owner r of None \<Rightarrow> destroy_reservations rs ps
      | Some k \<Rightarrow>
          (case reservation_release r (ps ! k) of
             Returns (_, p) \<Rightarrow> destroy_reservations rs (ps[k := p])
           | Throws e \<Rightarrow> Throws e | Terminates \<Rightarrow> Terminates | Undefined \<Rightarrow> Undefined))"

fun bundle_reserve :: "(nat option \<times> nat) list \<Rightarrow> page_reservation list \<Rightarrow> page_pool list \<Rightarrow>
    ((exn + page_reservation list) \<times> page_pool list) outcome" where
  "bundle_reserve [] made ps = Returns (Inr made, ps)"
| "bundle_reserve ((pool, pages) # requests) made ps =
     (case reserve pages (ps ! the pool) of
        (None, _) \<Rightarrow>
          (case destroy_reservations made ps of
             Returns ps' \<Rightarrow> Returns (Inl Logic_error, ps')
           | Throws e \<Rightarrow> Throws e | Terminates \<Rightarrow> Terminates | Undefined \<Rightarrow> Undefined)
      | (Some r, p) \<Rightarrow> bundle_reserve requests (made @ [r]) (ps[the pool := p]))"

definition reserve_device_kv_page_bundle :: "(nat option \<times> nat) list \<Rightarrow> page_pool list \<Rightarrow>
    ((exn + page_reservation list) \<times> page_pool list) outcome" where
  "reserve_device_kv_page_bundle requests ps =
     (case bundle_check ps [] requests of
        Inl e \<Rightarrow> Returns (Inl e, ps)
      | Inr _ \<Rightarrow> bundle_reserve requests [] ps)"

section \<open>Runs as sets of pages\<close>

definition run_extent :: "free_run \<Rightarrow> free_extent" where
  "run_extent r = \<lparr>fe_offset = fr_begin r, fe_bytes = fr_count r\<rparr>"

definition run_pages :: "free_run \<Rightarrow> nat set" where
  "run_pages r = {fr_begin r ..< fr_end r}"

definition runs_pages :: "free_run list \<Rightarrow> nat set" where
  "runs_pages runs = (\<Union>r \<in> set runs. run_pages r)"

text \<open>Sorted, nonempty, inside the capacity, and with a page in use between neighbours.\<close>

definition runs_ok :: "nat \<Rightarrow> free_run list \<Rightarrow> bool" where
  "runs_ok cap runs \<longleftrightarrow>
     sorted_wrt (\<lambda>q r. fr_end q < fr_begin r) runs \<and> list_all (\<lambda>r. 0 < fr_count r \<and> fr_end r \<le> cap) runs"

lemma run_extent_sel [simp]:
  "fe_offset (run_extent r) = fr_begin r" "fe_bytes (run_extent r) = fr_count r" "fe_end (run_extent r) = fr_end r"
  by (simp_all add: run_extent_def fe_end_def fr_end_def)

lemma runs_ok_extent: "coalesced cap (map run_extent runs) = runs_ok cap runs"
  by (simp add: coalesced_def runs_ok_def sorted_wrt_map list_all_iff)

lemma runs_pages_extent: "free_set (map run_extent runs) = runs_pages runs"
  by (simp add: free_set_def runs_pages_def fe_set_def run_pages_def)

lemma runs_pages_simps [simp]:
  "runs_pages [] = {}" "runs_pages (r # runs) = run_pages r \<union> runs_pages runs"
  "runs_pages (runs @ rest) = runs_pages runs \<union> runs_pages rest"
  by (auto simp: runs_pages_def)

lemma runs_ok_Nil [simp]: "runs_ok cap []"
  by (simp add: runs_ok_def)

lemma runs_ok_append:
  "runs_ok cap (as @ bs) \<longleftrightarrow> runs_ok cap as \<and> runs_ok cap bs \<and> (\<forall>a \<in> set as. \<forall>b \<in> set bs. fr_end a < fr_begin b)"
  by (auto simp: runs_ok_def sorted_wrt_append)

lemma runs_ok_Cons:
  "runs_ok cap (r # runs) \<longleftrightarrow> 0 < fr_count r \<and> fr_end r \<le> cap \<and> (\<forall>q \<in> set runs. fr_end r < fr_begin q) \<and> runs_ok cap runs"
  by (auto simp: runs_ok_def)

lemma runs_in_capacity: "runs_ok cap runs \<Longrightarrow> runs_pages runs \<subseteq> {0 ..< cap}"
  by (fastforce simp: runs_ok_def runs_pages_def run_pages_def list_all_iff)

lemma finite_runs_pages [simp]: "finite (runs_pages runs)"
  by (simp add: runs_pages_def run_pages_def)

text \<open>Giving a page back is inserting an extent of size one.\<close>

lemma release_free_page_extent:
  "map run_extent (release_free_page i runs) = insert_free_extent \<lparr>fe_offset = i, fe_bytes = 1\<rparr> (map run_extent runs)"
proof -
  define before behind where "before = takeWhile (\<lambda>r. fr_begin r < i) runs"
    and "behind = dropWhile (\<lambda>r. fr_begin r < i) runs"
  have split: "takeWhile (\<lambda>c. fe_offset c < i) (map run_extent runs) = map run_extent before"
      "dropWhile (\<lambda>c. fe_offset c < i) (map run_extent runs) = map run_extent behind"
    by (simp_all add: takeWhile_map dropWhile_map comp_def before_def behind_def)
  show ?thesis
    unfolding release_free_page_def insert_free_extent_def Let_def before_def [symmetric] behind_def [symmetric]
      free_extent.select_convs split
    by (cases before rule: rev_cases; cases behind)
      (auto simp: merge_previous_def run_extent_def fe_end_def fr_end_def)
qed

lemma release_free_page_ok:
  assumes "runs_ok cap runs" "i \<notin> runs_pages runs" "i < cap"
  shows "runs_ok cap (release_free_page i runs) \<and> runs_pages (release_free_page i runs) = insert i (runs_pages runs)"
proof -
  have one: "fe_set \<lparr>fe_offset = i, fe_bytes = 1\<rparr> = {i}" "fe_end \<lparr>fe_offset = i, fe_bytes = 1\<rparr> = Suc i"
    by (auto simp: fe_set_def fe_end_def)
  show ?thesis
    using insert_free_extent_ok [of cap "map run_extent runs" "\<lparr>fe_offset = i, fe_bytes = 1\<rparr>"] assms
    unfolding release_free_page_extent [symmetric] runs_ok_extent runs_pages_extent one by auto
qed

text \<open>An interval of free pages lies in one run.\<close>

lemma interval_in_run:
  assumes ok: "runs_ok cap runs" and free: "{a ..< a + n} \<subseteq> runs_pages runs" and n: "0 < n"
  shows "\<exists>i < length runs. fr_begin (runs ! i) \<le> a \<and> a + n \<le> fr_end (runs ! i)"
proof -
  have "a \<in> runs_pages runs"
    using free n by auto
  then obtain i where i: "i < length runs" "fr_begin (runs ! i) \<le> a" "a < fr_end (runs ! i)"
    by (auto simp: runs_pages_def run_pages_def in_set_conv_nth)
  have gap: "fr_end (runs ! j) < fr_begin (runs ! k)" if "j < k" "k < length runs" for j k
    using ok that by (simp add: runs_ok_def sorted_wrt_iff_nth_less)
  have "a + n \<le> fr_end (runs ! i)"
  proof (rule ccontr)
    assume "\<not> ?thesis"
    then have "fr_end (runs ! i) \<in> runs_pages runs"
      using free i(3) by auto
    then obtain j where j: "j < length runs" "fr_begin (runs ! j) \<le> fr_end (runs ! i)" "fr_end (runs ! i) < fr_end (runs ! j)"
      by (auto simp: runs_pages_def run_pages_def in_set_conv_nth)
    then show False
      using gap [of i j] gap [of j i] i by (cases i j rule: linorder_cases) (auto simp: fr_end_def)
  qed
  then show ?thesis
    using i by blast
qed

lemma run_subset: "r \<in> set runs \<Longrightarrow> run_pages r \<subseteq> runs_pages runs"
  by (auto simp: runs_pages_def)

subsection \<open>Taking pages out\<close>

lemma runs_around:
  assumes "runs_ok cap (as @ r # bs)"
  shows "x \<in> runs_pages as \<Longrightarrow> x < fr_begin r" "x \<in> runs_pages bs \<Longrightarrow> fr_end r < x"
  using assms by (fastforce simp: runs_ok_append runs_ok_Cons runs_pages_def run_pages_def)+

lemma consume_free_run_ok:
  assumes ok: "runs_ok cap runs" and i: "i < length runs" and n: "0 < n"
    and inside: "fr_begin (runs ! i) \<le> a" "a + n \<le> fr_end (runs ! i)"
  shows "\<exists>runs'. consume_free_run i a n runs = Returns runs' \<and> runs_ok cap runs' \<and>
    runs_pages runs' = runs_pages runs - {a ..< a + n}"
proof -
  define as r bs where "as = take i runs" and "r = runs ! i" and "bs = drop (Suc i) runs"
  have runs: "runs = as @ r # bs" and len: "length as = i"
    using i by (simp_all add: as_def r_def bs_def id_take_nth_drop)
  have upd: "runs[i := x] = as @ x # bs" for x
    using i by (simp add: as_def bs_def upd_conv_take_nth_drop)
  note around = runs_around [OF ok [unfolded runs]]
  have ends: "fr_begin r \<le> a" "a + n \<le> fr_end r"
    using inside by (simp_all add: r_def)
  have pieces: "runs_pages (as @ mid @ bs) = runs_pages runs - {a ..< a + n}"
      if "runs_pages mid = run_pages r - {a ..< a + n}" for mid
    using that ends around by (fastforce simp: runs run_pages_def)
  have co: "runs_ok cap (as @ mid @ bs)"
      if "runs_ok cap mid" "\<forall>m \<in> set mid. fr_begin r \<le> fr_begin m \<and> fr_end m \<le> fr_end r" for mid
    using ok that by (fastforce simp: runs runs_ok_append runs_ok_Cons)
  have r: "0 < fr_count r" "fr_end r \<le> cap"
    using ok by (simp_all add: runs runs_ok_append runs_ok_Cons)
  let ?left = "r\<lparr>fr_count := a - fr_begin r\<rparr>"
  let ?right = "\<lparr>fr_begin = a + n, fr_count = fr_end r - (a + n)\<rparr>"
  define mid where "mid = (if fr_begin r < a then [?left] else []) @ (if a + n < fr_end r then [?right] else [])"
  have left: "fr_begin ?left = fr_begin r" "fr_end ?left = a"
    using ends by (simp_all add: fr_end_def)
  have right: "fr_begin ?right = a + n" "fr_end ?right = fr_end r"
    using ends by (simp_all add: fr_end_def)
  have "runs_pages mid = run_pages r - {a ..< a + n}"
    using ends left right by (auto simp: mid_def run_pages_def)
  moreover have "runs_ok cap mid"
    using ends left right r n by (auto simp: mid_def runs_ok_Cons)
  moreover have "\<forall>m \<in> set mid. fr_begin r \<le> fr_begin m \<and> fr_end m \<le> fr_end r"
    using ends left right n by (auto simp: mid_def)
  moreover have "consume_free_run i a n runs = Returns (as @ mid @ bs)"
  proof -
    have "fr_begin r = a \<Longrightarrow> fr_count r - n = fr_end r - (a + n)"
      by (simp add: fr_end_def)
    then show ?thesis
      using i n ends unfolding consume_free_run_def Let_def upd
      by (auto simp: mid_def simp flip: as_def r_def bs_def)
  qed
  ultimately show ?thesis
    using pieces co by blast
qed

lemma scatter_simps [simp]:
  "scatter 0 runs = Some ([], runs)"
  "0 < n \<Longrightarrow> scatter n [] = None"
  by (simp_all add: scatter.simps)

lemma scatter_Cons:
  "0 < n \<Longrightarrow> scatter n (r # rest) =
     (if fr_count r \<le> n
      then map_option (\<lambda>(more, rest'). ([fr_begin r ..< fr_end r] @ more, rest')) (scatter (n - fr_count r) rest)
      else Some ([fr_begin r ..< fr_begin r + n], \<lparr>fr_begin = fr_begin r + n, fr_count = fr_count r - n\<rparr> # rest))"
  by (subst scatter.simps) (simp add: Let_def fr_end_def min_def)

text \<open>The pages of the runs in ascending order.\<close>

definition page_list :: "free_run list \<Rightarrow> nat list" where
  "page_list runs = concat (map (\<lambda>r. [fr_begin r ..< fr_end r]) runs)"

lemma page_list_simps [simp]:
  "page_list [] = []" "page_list (r # runs) = [fr_begin r ..< fr_end r] @ page_list runs"
  by (simp_all add: page_list_def)

lemma set_page_list [simp]: "set (page_list runs) = runs_pages runs"
  by (induction runs) (auto simp: run_pages_def)

lemma page_list_sorted: "runs_ok cap runs \<Longrightarrow> sorted_wrt (<) (page_list runs)"
proof (induction runs)
  case (Cons r runs)
  have "x < y" if "x \<in> {fr_begin r ..< fr_end r}" "y \<in> runs_pages runs" for x y
    using that runs_around(2) [of cap "[]" r runs y] Cons.prems by simp
  then show ?case
    using Cons by (simp add: sorted_wrt_append runs_ok_Cons)
qed simp

lemma page_list_distinct: "runs_ok cap runs \<Longrightarrow> distinct (page_list runs)"
  using page_list_sorted strict_sorted_iff by blast

lemma page_list_eq: "runs_ok cap runs \<Longrightarrow> page_list runs = sorted_list_of_set (runs_pages runs)"
  using page_list_sorted set_page_list by (metis strict_sorted_equal sorted_list_of_set.set_sorted_key_list_of_set
    sorted_list_of_set.strict_sorted_key_list_of_set finite_runs_pages)

lemma length_page_list: "runs_ok cap runs \<Longrightarrow> length (page_list runs) = card (runs_pages runs)"
  using distinct_card [OF page_list_distinct] by force

lemma scatter_ok:
  assumes "runs_ok cap runs" "n \<le> length (page_list runs)"
  shows "\<exists>runs'. scatter n runs = Some (take n (page_list runs), runs') \<and> runs_ok cap runs' \<and>
    page_list runs' = drop n (page_list runs) \<and> (\<forall>q \<in> set runs'. \<exists>r \<in> set runs. fr_begin r \<le> fr_begin q \<and> fr_end q = fr_end r)"
  using assms
proof (induction runs arbitrary: n)
  case (Cons r rest)
  show ?case
  proof (cases "n = 0 \<or> n < fr_count r")
    case True
    then show ?thesis
    proof
      assume "n < fr_count r"
      then show ?thesis
        using Cons.prems by (cases "n = 0") (auto simp: scatter_Cons fr_end_def runs_ok_Cons)
    qed (use Cons.prems in auto)
  next
    case False
    then have "n - fr_count r \<le> length (page_list rest)" "fr_count r \<le> n" "0 < n"
      using Cons.prems(2) by (auto simp: fr_end_def)
    then show ?thesis
      using Cons.IH [of "n - fr_count r"] Cons.prems(1)
      by (auto simp: scatter_Cons runs_ok_Cons fr_end_def)
  qed
qed simp


subsection \<open>Placement\<close>

text \<open>
  The reference definition of the placement, on the plain flags of the pages: at the preferred page when
  all pages from there are free, otherwise at the lowest place where so many consecutive pages are free,
  otherwise the lowest free pages.
\<close>

definition free_at :: "bool list \<Rightarrow> nat \<Rightarrow> nat \<Rightarrow> bool" where
  "free_at flags n a \<longleftrightarrow> list_all (\<lambda>i. i < length flags \<and> \<not> flags ! i) [a ..< a + n]"

definition lowest_pages :: "bool list \<Rightarrow> nat \<Rightarrow> nat list" where
  "lowest_pages flags n =
     (case find (free_at flags n) [0 ..< length flags] of
        Some a \<Rightarrow> [a ..< a + n]
      | None \<Rightarrow> take n (filter (\<lambda>i. \<not> flags ! i) [0 ..< length flags]))"

definition placement :: "int option \<Rightarrow> nat \<Rightarrow> bool list \<Rightarrow> nat list" where
  "placement preferred n flags =
     (case preferred of
        Some page \<Rightarrow>
          if 0 \<le> page \<and> free_at flags n (nat page) then [nat page ..< nat page + n] else lowest_pages flags n
      | None \<Rightarrow> lowest_pages flags n)"

definition free_pages :: "bool list \<Rightarrow> nat set" where
  "free_pages flags = {i. i < length flags \<and> \<not> flags ! i}"

definition runs_match :: "bool list \<Rightarrow> free_run list \<Rightarrow> bool" where
  "runs_match flags runs \<longleftrightarrow> runs_ok (length flags) runs \<and> runs_pages runs = free_pages flags"

lemma free_at_iff: "free_at flags n a \<longleftrightarrow> {a ..< a + n} \<subseteq> free_pages flags"
  by (auto simp: free_at_def free_pages_def list_all_iff)

lemma run_free_at:
  assumes "runs_match flags runs" "i < length runs" "fr_begin (runs ! i) \<le> a" "a + n \<le> fr_end (runs ! i)"
  shows "free_at flags n a"
  unfolding free_at_iff
  using assms run_subset [OF nth_mem [OF assms(2)]] by (auto simp: runs_match_def run_pages_def)

lemma free_at_run:
  assumes "runs_match flags runs" "free_at flags n a" "0 < n"
  shows "\<exists>i < length runs. fr_begin (runs ! i) \<le> a \<and> a + n \<le> fr_end (runs ! i)"
  using assms by (intro interval_in_run [of "length flags"]) (auto simp: runs_match_def free_at_iff)

lemma run_begins_sorted:
  assumes "runs_ok cap runs" "i < j" "j < length runs"
  shows "fr_end (runs ! i) < fr_begin (runs ! j)"
  using assms by (simp add: runs_ok_def sorted_wrt_iff_nth_less)

lemma preferred_run_sound:
  assumes "preferred_run page n runs = Some (i, a)"
  shows "i < length runs \<and> fr_begin (runs ! i) \<le> a \<and> a + n \<le> fr_end (runs ! i) \<and> page = int a"
proof -
  define upper where "upper = takeWhile (\<lambda>r. \<not> page < int (fr_begin r)) runs"
  have up: "upper \<noteq> []" "i = length upper - 1" "a = nat page" "0 \<le> page"
      "int (fr_begin (last upper)) \<le> page" "nat page + n \<le> fr_end (last upper)"
    using assms by (auto simp: preferred_run_def Let_def upper_def split: if_splits)
  have "length upper \<le> length runs"
    unfolding upper_def by (rule length_takeWhile_le)
  moreover have "last upper = runs ! i"
    using up(1,2) takeWhile_nth [of i "\<lambda>r. \<not> page < int (fr_begin r)" runs] by (simp add: last_conv_nth upper_def)
  ultimately show ?thesis
    using up by (cases upper) auto
qed

lemma preferred_run_complete:
  assumes "runs_match flags runs" "free_at flags n (nat page)" "0 < n" "0 \<le> page"
  shows "\<exists>i. preferred_run page n runs = Some (i, nat page)"
proof -
  obtain i where i: "i < length runs" "fr_begin (runs ! i) \<le> nat page" "nat page + n \<le> fr_end (runs ! i)"
    using free_at_run [OF assms(1-3)] by blast
  have ok: "runs_ok (length flags) runs"
    using assms(1) by (simp add: runs_match_def)
  have "takeWhile (\<lambda>r. \<not> page < int (fr_begin r)) runs = take (Suc i) runs"
  proof (rule takeWhile_eq_take_P_nth)
    fix j assume "j < Suc i" "j < length runs"
    then show "\<not> page < int (fr_begin (runs ! j))"
      using run_begins_sorted [OF ok, of j i] i assms(4) by (cases "j = i") (auto simp: fr_end_def)
  next
    assume "Suc i < length runs"
    then show "\<not> \<not> page < int (fr_begin (runs ! Suc i))"
      using run_begins_sorted [OF ok, of i "Suc i"] i assms(3,4) by simp
  qed
  moreover have "last (take (Suc i) runs) = runs ! i"
    using i(1) by (simp add: take_Suc_conv_app_nth)
  ultimately show ?thesis
    using i assms(4) by (auto simp: preferred_run_def Let_def take_Suc_conv_app_nth)
qed

lemma page_list_flags:
  assumes "runs_match flags runs"
  shows "page_list runs = filter (\<lambda>i. \<not> flags ! i) [0 ..< length flags]"
proof (rule strict_sorted_equal)
  show "sorted_wrt (<) (page_list runs)"
    using assms page_list_sorted by (auto simp: runs_match_def)
  show "set (page_list runs) = set (filter (\<lambda>i. \<not> flags ! i) [0 ..< length flags])"
    using assms by (auto simp: runs_match_def free_pages_def)
qed (simp add: sorted_wrt_filter)

lemma first_fit_lowest:
  assumes match: "runs_match flags runs" and n: "0 < n"
  shows "first_fit n runs = Some (i, a) \<Longrightarrow>
      i < length runs \<and> fr_begin (runs ! i) = a \<and> a + n \<le> fr_end (runs ! i) \<and> lowest_pages flags n = [a ..< a + n]"
    and "first_fit n runs = None \<Longrightarrow> lowest_pages flags n = take n (page_list runs)"
proof -
  assume "first_fit n runs = Some (i, a)"
  then have i: "i < length runs" "n \<le> fr_count (runs ! i)" "\<forall>j < i. \<not> n \<le> fr_count (runs ! j)" "a = fr_begin (runs ! i)"
    by (auto simp: first_fit_def find_index_Some)
  have ok: "runs_ok (length flags) runs"
    using match by (simp add: runs_match_def)
  have a: "free_at flags n a"
    using i by (intro run_free_at [OF match i(1)]) (auto simp: fr_end_def)
  then have "a < length flags"
    using n by (auto simp: free_at_iff free_pages_def subset_iff)
  moreover have "\<not> free_at flags n b" if "b < a" for b
  proof
    assume "free_at flags n b"
    then obtain j where j: "j < length runs" "fr_begin (runs ! j) \<le> b" "b + n \<le> fr_end (runs ! j)"
      using free_at_run [OF match _ n] by blast
    then have "\<not> j < i"
      using i(3) by (auto simp: fr_end_def)
    then show False
      using run_begins_sorted [OF ok, of i j] j that i(4) by (cases "i = j") (auto simp: fr_end_def)
  qed
  ultimately have "find (free_at flags n) [0 ..< length flags] = Some a"
    using a by (auto simp: find_Some_iff intro!: exI [of _ a])
  then show "i < length runs \<and> fr_begin (runs ! i) = a \<and> a + n \<le> fr_end (runs ! i) \<and> lowest_pages flags n = [a ..< a + n]"
    using i by (simp add: lowest_pages_def fr_end_def)
next
  assume "first_fit n runs = None"
  then have small: "\<forall>r \<in> set runs. \<not> n \<le> fr_count r"
    by (simp add: first_fit_def)
  have "\<not> free_at flags n b" for b
  proof
    assume "free_at flags n b"
    then obtain j where j: "j < length runs" "fr_begin (runs ! j) \<le> b" "b + n \<le> fr_end (runs ! j)"
      using free_at_run [OF match _ n] by blast
    then have "n \<le> fr_count (runs ! j)"
      by (simp add: fr_end_def)
    then show False
      using small nth_mem [OF j(1)] by blast
  qed
  then have "find (free_at flags n) [0 ..< length flags] = None"
    by (simp add: find_None_iff)
  then show "lowest_pages flags n = take n (page_list runs)"
    by (simp add: lowest_pages_def page_list_flags [OF match])
qed

text \<open>What every way of taking pages guarantees.\<close>

definition taken_ok :: "bool list \<Rightarrow> nat \<Rightarrow> nat list \<Rightarrow> free_run list \<Rightarrow> bool" where
  "taken_ok flags n pages runs' \<longleftrightarrow>
     length pages = n \<and> distinct pages \<and> set pages \<subseteq> free_pages flags \<and>
     runs_ok (length flags) runs' \<and> runs_pages runs' = free_pages flags - set pages"

lemma consume_taken:
  assumes match: "runs_match flags runs" and n: "0 < n"
    and run: "i < length runs" "fr_begin (runs ! i) \<le> a" "a + n \<le> fr_end (runs ! i)"
  shows "\<exists>runs'. consume_free_run i a n runs = Returns runs' \<and> taken_ok flags n [a ..< a + n] runs'"
proof -
  have "set [a ..< a + n] \<subseteq> free_pages flags"
    using run_free_at [OF match run] by (simp add: free_at_iff)
  then show ?thesis
    using consume_free_run_ok [OF _ run(1) n run(2,3), of "length flags"] match
    by (auto simp: taken_ok_def runs_match_def)
qed

lemma scatter_taken:
  assumes match: "runs_match flags runs" and n: "n \<le> card (free_pages flags)"
  shows "\<exists>runs'. scatter n runs = Some (take n (page_list runs), runs') \<and> taken_ok flags n (take n (page_list runs)) runs'"
proof -
  have ok: "runs_ok (length flags) runs" and pages: "runs_pages runs = free_pages flags"
    using match by (simp_all add: runs_match_def)
  have n': "n \<le> length (page_list runs)"
    using n length_page_list [OF ok] pages by simp
  obtain runs' where s: "scatter n runs = Some (take n (page_list runs), runs')" "runs_ok (length flags) runs'"
      "page_list runs' = drop n (page_list runs)"
    using scatter_ok [OF ok n'] by blast
  note d = page_list_distinct [OF ok]
  have "runs_pages runs' = set (drop n (page_list runs))"
    using s(3) set_page_list by metis
  moreover have "set (page_list runs) = set (take n (page_list runs)) \<union> set (drop n (page_list runs))"
    by (metis append_take_drop_id set_append)
  ultimately have "runs_pages runs' = free_pages flags - set (take n (page_list runs))"
    using set_take_disj_set_drop_if_distinct [OF d, of n n] pages by auto
  then show ?thesis
    using s(1,2) d n' pages set_take_subset [of n "page_list runs"] by (simp add: taken_ok_def)
qed

lemma take_pages_ok:
  assumes match: "runs_match flags runs" and n: "0 < n" "n \<le> card (free_pages flags)"
  shows "\<exists>runs'. take_pages preferred n runs = Returns (placement preferred n flags, runs') \<and>
    taken_ok flags n (placement preferred n flags) runs'"
proof (cases "\<exists>page. preferred = Some page \<and> 0 \<le> page \<and> free_at flags n (nat page)")
  case True
  then obtain page i where page: "preferred = Some page" "0 \<le> page" "free_at flags n (nat page)"
      "preferred_run page n runs = Some (i, nat page)"
    using preferred_run_complete [OF match _ n(1)] by blast
  note run = preferred_run_sound [OF page(4)]
  show ?thesis
    using consume_taken [OF match n(1), of i "nat page"] run page
    by (auto simp: take_pages_def select_run_def placement_def)
next
  case False
  have "preferred_run page n runs = None" if "preferred = Some page" for page
  proof (rule ccontr)
    assume "preferred_run page n runs \<noteq> None"
    then obtain i a where "preferred_run page n runs = Some (i, a)"
      by auto
    from preferred_run_sound [OF this] have "page = int a" "free_at flags n a"
      using run_free_at [OF match] by blast+
    then show False
      using False that by simp
  qed
  then have select: "select_run preferred n runs = first_fit n runs"
    by (simp add: select_run_def split: option.split)
  have place: "placement preferred n flags = lowest_pages flags n"
    using False by (auto simp: placement_def split: option.split)
  show ?thesis
  proof (cases "first_fit n runs")
    case None
    then show ?thesis
      using scatter_taken [OF match n(2)] first_fit_lowest(2) [OF match n(1) None]
      by (auto simp: take_pages_def select place)
  next
    case (Some ia)
    obtain i a where ia: "ia = (i, a)"
      by (cases ia)
    note low = first_fit_lowest(1) [OF match n(1) Some [unfolded ia]]
    show ?thesis
      using consume_taken [OF match n(1), of i a] low by (auto simp: take_pages_def select place Some ia)
  qed
qed


section \<open>The invariant of a pool\<close>

definition used_pages :: "bool list \<Rightarrow> nat set" where
  "used_pages flags = {i. i < length flags \<and> flags ! i}"

definition pool_ok :: "page_pool \<Rightarrow> bool" where
  "pool_ok p \<longleftrightarrow>
     length (pp_allocated p) = capacity_pages p \<and> length (pp_generations p) = capacity_pages p \<and>
     length (pp_marks p) = capacity_pages p \<and> list_all (\<lambda>m. m \<le> pp_stamp p) (pp_marks p) \<and>
     runs_match (pp_allocated p) (pp_free_runs p) \<and>
     pp_allocated_pages p = card (used_pages (pp_allocated p)) \<and>
     pp_allocated_pages p + pp_reserved_pages p \<le> capacity_pages p"

text \<open>The leases that must exist for the pages in use.\<close>

definition leases_of :: "page_pool \<Rightarrow> page_lease multiset" where
  "leases_of p = image_mset (new_lease p) (mset_set (used_pages (pp_allocated p)))"

definition same_pool :: "page_pool \<Rightarrow> page_pool \<Rightarrow> bool" where
  "same_pool p q \<longleftrightarrow> pp_self q = pp_self p \<and> pp_spec q = pp_spec p \<and> pp_planes q = pp_planes p"

lemma same_pool_refl [simp]: "same_pool p p"
  by (simp add: same_pool_def)

lemma same_pool_capacity: "same_pool p q \<Longrightarrow> capacity_pages q = capacity_pages p"
  by (simp add: same_pool_def capacity_pages_def)

lemma finite_used_pages [simp]: "finite (used_pages flags)" "finite (free_pages flags)"
  by (simp_all add: used_pages_def free_pages_def)

lemma free_used_split: "free_pages flags = {0 ..< length flags} - used_pages flags" "used_pages flags \<subseteq> {0 ..< length flags}"
  by (auto simp: used_pages_def free_pages_def)

lemma card_free_pages: "card (free_pages flags) = length flags - card (used_pages flags)"
  using free_used_split(2) [of flags] by (simp add: free_used_split(1) card_Diff_subset)

lemma new_lease_inj: "new_lease p i = new_lease p j \<longleftrightarrow> i = j"
  by (auto simp: new_lease_def)

lemma leases_of_iff: "l \<in># leases_of p \<longleftrightarrow> (\<exists>i \<in> used_pages (pp_allocated p). l = new_lease p i)"
  by (auto simp: leases_of_def)

lemma new_lease_owner [simp]: "ls_owner (new_lease p i) = Some (pp_self p)" "ls_index (new_lease p i) = int i"
  "ls_generation (new_lease p i) = pp_generations p ! i"
  by (simp_all add: new_lease_def)

lemma valid_page_iff:
  assumes "pool_ok p" "ph_owner h = Some (pp_self p)"
  shows "valid_page h p \<longleftrightarrow>
    (\<exists>i \<in> used_pages (pp_allocated p). ph_index h = int i \<and> ph_generation h = pp_generations p ! i)"
proof -
  have "length (pp_allocated p) = capacity_pages p"
    using assms(1) by (simp add: pool_ok_def)
  then show ?thesis
    using assms(2) by (auto simp: valid_page_def used_pages_def intro!: exI [of _ "nat (ph_index h)"])
qed

lemma lease_stale_iff:
  assumes "pool_ok p"
  shows "lease_stale p l \<longleftrightarrow> l \<notin># leases_of p"
proof -
  have "l = new_lease p i \<longleftrightarrow> ls_owner l = Some (pp_self p) \<and> ls_index l = int i \<and> ls_generation l = pp_generations p ! i" for i
    by (cases l) (auto simp: new_lease_def)
  then show ?thesis
    using valid_page_iff [OF assms, of "lease_handle l"]
    by (auto simp: lease_stale_def lease_belongs_def leases_of_iff lease_handle_def lease_valid_def)
qed

subsection \<open>Adopting pages\<close>

lemma mark_allocated_length [simp]: "length (mark_allocated pages flags) = length flags"
  by (induction pages arbitrary: flags) (simp_all add: mark_allocated_def)

lemma mark_allocated_used:
  "set pages \<subseteq> {0 ..< length flags} \<Longrightarrow> used_pages (mark_allocated pages flags) = used_pages flags \<union> set pages"
proof (induction pages arbitrary: flags)
  case (Cons a pages)
  have "used_pages (flags[a := True]) = insert a (used_pages flags)"
    using Cons.prems by (auto simp: used_pages_def nth_list_update)
  then show ?case
    using Cons.IH [of "flags[a := True]"] Cons.prems by (simp add: mark_allocated_def)
qed (simp add: mark_allocated_def)

lemma leases_of_extend:
  assumes "pp_generations q = pp_generations p" "pp_self q = pp_self p"
    and "used_pages (pp_allocated q) = used_pages (pp_allocated p) \<union> set pages"
    and "distinct pages" "set pages \<inter> used_pages (pp_allocated p) = {}"
  shows "leases_of q = leases_of p + mset (map (new_lease p) pages)"
proof -
  have "new_lease q = new_lease p"
    using assms(1,2) by (simp add: fun_eq_iff new_lease_def)
  moreover have "mset_set (used_pages (pp_allocated q)) = mset_set (used_pages (pp_allocated p)) + mset pages"
    unfolding assms(3) mset_set_set [OF assms(4), symmetric]
    using assms(5) by (intro mset_set_Union) auto
  ultimately show ?thesis
    by (simp add: leases_of_def)
qed

lemma adopt_pages_ok:
  assumes ok: "pool_ok p" and taken: "taken_ok (pp_allocated p) n pages runs'" and n: "n \<le> pp_reserved_pages p"
    and adopt: "adopt_pages r v n (pages, runs') p = (r', v', p')"
  shows "pool_ok p' \<and> same_pool p p' \<and> leases_of p' = leases_of p + mset (map (new_lease p) pages) \<and>
    pp_reserved_pages p' = pp_reserved_pages p - n \<and> rv_owner r' = rv_owner r \<and> rv_pages r' = rv_pages r - n \<and>
    lv_items v' = lv_items v @ map (new_lease p) pages"
proof -
  have p': "pp_allocated p' = mark_allocated pages (pp_allocated p)" "pp_free_runs p' = runs'"
      "pp_allocated_pages p' = pp_allocated_pages p + n" "pp_reserved_pages p' = pp_reserved_pages p - n"
      "pp_generations p' = pp_generations p" "pp_marks p' = pp_marks p" "pp_stamp p' = pp_stamp p" "same_pool p p'"
      "rv_owner r' = rv_owner r" "rv_pages r' = rv_pages r - n" "lv_items v' = lv_items v @ map (new_lease p) pages"
    using adopt by (auto simp: adopt_pages_def same_pool_def)
  have t: "length pages = n" "distinct pages" "set pages \<subseteq> free_pages (pp_allocated p)"
      "runs_ok (length (pp_allocated p)) runs'" "runs_pages runs' = free_pages (pp_allocated p) - set pages"
    using taken by (auto simp: taken_ok_def)
  have used: "used_pages (pp_allocated p') = used_pages (pp_allocated p) \<union> set pages"
    using t(3) unfolding p' by (intro mark_allocated_used) (auto simp: free_pages_def)
  have apart: "set pages \<inter> used_pages (pp_allocated p) = {}"
    using t(3) by (auto simp: free_used_split)
  have "card (used_pages (pp_allocated p')) = pp_allocated_pages p + n"
    using ok apart t(1,2) unfolding used
    by (subst card_Un_disjoint) (auto simp: pool_ok_def distinct_card)
  moreover have "free_pages (pp_allocated p') = free_pages (pp_allocated p) - set pages"
    unfolding free_used_split(1) used by (auto simp: p')
  moreover have "leases_of p' = leases_of p + mset (map (new_lease p) pages)"
    using p'(5,8) used t(2) apart by (intro leases_of_extend) (simp_all add: same_pool_def)
  ultimately show ?thesis
    using ok t(4,5) n p' same_pool_capacity [OF p'(8)] by (auto simp: pool_ok_def runs_match_def)
qed

subsection \<open>Giving pages back\<close>

lemma release_page_ok:
  assumes ok: "pool_ok p" and i: "i \<in> used_pages (pp_allocated p)"
  defines "p' \<equiv> release_page (int i) (pp_generations p ! i) p"
  shows "pool_ok p' \<and> same_pool p p' \<and> leases_of p = add_mset (new_lease p i) (leases_of p') \<and>
    pp_reserved_pages p' = pp_reserved_pages p \<and> Suc (pp_allocated_pages p') = pp_allocated_pages p"
proof -
  have len: "length (pp_allocated p) = capacity_pages p" "length (pp_generations p) = capacity_pages p"
      and match: "runs_match (pp_allocated p) (pp_free_runs p)" and card: "pp_allocated_pages p = card (used_pages (pp_allocated p))"
    using ok by (simp_all add: pool_ok_def)
  have i': "i < capacity_pages p" "pp_allocated p ! i"
    using i len by (auto simp: used_pages_def)
  have p': "pp_allocated p' = (pp_allocated p)[i := False]"
      "pp_generations p' = (pp_generations p)[i := page_increment_generation (pp_generations p ! i)]"
      "pp_free_runs p' = release_free_page i (pp_free_runs p)" "pp_allocated_pages p' = pp_allocated_pages p - 1"
      "pp_reserved_pages p' = pp_reserved_pages p" "pp_marks p' = pp_marks p" "pp_stamp p' = pp_stamp p" "same_pool p p'"
    using i' by (simp_all add: p'_def release_page_def same_pool_def)
  have used: "used_pages (pp_allocated p') = used_pages (pp_allocated p) - {i}"
    using i' len by (auto simp: p' used_pages_def nth_list_update)
  have free: "free_pages (pp_allocated p') = insert i (free_pages (pp_allocated p))"
    using i' len by (auto simp: p' free_pages_def nth_list_update)
  have "runs_match (pp_allocated p') (pp_free_runs p')"
    using release_free_page_ok [of "capacity_pages p" "pp_free_runs p" i] match i' len free
    by (auto simp: runs_match_def p' free_pages_def)
  moreover have "Suc (card (used_pages (pp_allocated p'))) = card (used_pages (pp_allocated p))"
    unfolding used using i by (intro card_Suc_Diff1) simp_all
  moreover have "leases_of p = add_mset (new_lease p i) (leases_of p')"
  proof -
    have "leases_of p = add_mset (new_lease p i) (image_mset (new_lease p) (mset_set (used_pages (pp_allocated p) - {i})))"
      using i by (simp add: leases_of_def mset_set.remove)
    moreover have "image_mset (new_lease p) (mset_set (used_pages (pp_allocated p) - {i})) = leases_of p'"
      unfolding leases_of_def used
      using p'(8) by (intro image_mset_cong) (auto simp: new_lease_def p'(2) same_pool_def)
    ultimately show ?thesis by simp
  qed
  ultimately show ?thesis
    using ok len card p' same_pool_capacity [OF p'(8)] by (auto simp: pool_ok_def)
qed

lemma lease_release_ok:
  assumes ok: "pool_ok p" and l: "l \<in># leases_of p" and rel: "lease_release l p = (released, l', p')"
  shows "released \<and> l' = null_lease \<and> pool_ok p' \<and> same_pool p p' \<and> leases_of p = add_mset l (leases_of p') \<and>
    pp_reserved_pages p' = pp_reserved_pages p \<and> Suc (pp_allocated_pages p') = pp_allocated_pages p"
proof -
  obtain i where i: "i \<in> used_pages (pp_allocated p)" "l = new_lease p i"
    using l by (auto simp: leases_of_iff)
  have "valid_page \<lparr>ph_owner = ls_owner l, ph_index = ls_index l, ph_generation = ls_generation l\<rparr> p"
    using i valid_page_iff [OF ok] by auto
  then have "released" "l' = null_lease" "p' = release_page (int i) (pp_generations p ! i) p"
    using rel i(2) by (auto simp: lease_release_def lease_valid_def)
  then show ?thesis
    using release_page_ok [OF ok i(1)] i(2) by simp
qed

lemma destroy_leases_ok:
  assumes "pool_ok p" "mset ls \<subseteq># leases_of p"
  shows "pool_ok (destroy_leases ls p) \<and> same_pool p (destroy_leases ls p) \<and>
    leases_of p = mset ls + leases_of (destroy_leases ls p) \<and>
    pp_reserved_pages (destroy_leases ls p) = pp_reserved_pages p \<and>
    pp_allocated_pages (destroy_leases ls p) + length ls = pp_allocated_pages p"
  using assms
proof (induction ls arbitrary: p)
  case (Cons l ls)
  obtain b l' p' where rel: "lease_release l p = (b, l', p')"
    by (cases "lease_release l p")
  have "l \<in># leases_of p"
    using Cons.prems(2) by (simp add: insert_subset_eq_iff)
  note R = lease_release_ok [OF Cons.prems(1) this rel]
  then have "mset ls \<subseteq># leases_of p'"
    using Cons.prems(2) by simp
  then show ?case
    using Cons.IH [of p'] R rel by (simp add: destroy_leases_def same_pool_def)
qed (simp add: destroy_leases_def)


subsection \<open>Materialization\<close>

definition materialize_refused :: "page_reservation \<Rightarrow> nat \<Rightarrow> lease_vector \<Rightarrow> page_pool \<Rightarrow> bool" where
  "materialize_refused r target v p \<longleftrightarrow>
     \<not> reservation_belongs r p \<or> target < length (lv_items v) \<or> rv_pages r < target - length (lv_items v) \<or>
     lv_capacity v < target \<or> list_ex (lease_stale p) (lv_items v)"

text \<open>What the reservation pays for is there: no logic error, no \<open>terminate\<close>, no run past the last free run.\<close>

lemma materialize_exact:
  fixes target :: nat and v :: lease_vector
  assumes ok: "pool_ok p" and paid: "reservation_belongs r p \<Longrightarrow> rv_pages r \<le> pp_reserved_pages p"
  defines "n \<equiv> target - length (lv_items v)"
  shows "materialize_refused r target v p \<Longrightarrow> materialize r target v h p = Throws Invalid_argument"
    and "\<not> materialize_refused r target v p \<Longrightarrow> n = 0 \<Longrightarrow> materialize r target v h p = Returns (r, v, p)"
    and "\<not> materialize_refused r target v p \<Longrightarrow> 0 < n \<Longrightarrow> preferred_page h (lv_items v) p = Inl e \<Longrightarrow>
      materialize r target v h p = Throws e"
    and "\<not> materialize_refused r target v p \<Longrightarrow> 0 < n \<Longrightarrow> preferred_page h (lv_items v) p = Inr preferred \<Longrightarrow>
      \<exists>runs'. materialize r target v h p = Returns (adopt_pages r v n (placement preferred n (pp_allocated p), runs') p) \<and>
        taken_ok (pp_allocated p) n (placement preferred n (pp_allocated p)) runs'"
proof -
  show "materialize r target v h p = Throws Invalid_argument" if "materialize_refused r target v p"
    using that by (auto simp: materialize_def materialize_refused_def Let_def)
  show "materialize r target v h p = Returns (r, v, p)" if "\<not> materialize_refused r target v p" "n = 0"
    using that by (auto simp: materialize_def materialize_refused_def Let_def n_def)
  have enough: "\<not> capacity_pages p - pp_allocated_pages p < n" "n \<le> card (free_pages (pp_allocated p))"
      if "\<not> materialize_refused r target v p"
    using that ok paid by (auto simp: materialize_refused_def pool_ok_def n_def card_free_pages)
  have go: "materialize r target v h p = (case preferred_page h (lv_items v) p of Inl e \<Rightarrow> Throws e
      | Inr preferred \<Rightarrow>
          (case take_pages preferred n (pp_free_runs p) of
             Returns taken \<Rightarrow> Returns (adopt_pages r v n taken p)
           | Throws e \<Rightarrow> Throws e | Terminates \<Rightarrow> Terminates | Undefined \<Rightarrow> Undefined))"
      if "\<not> materialize_refused r target v p" "0 < n"
    using that enough by (simp add: materialize_def materialize_refused_def Let_def flip: n_def)
  show "materialize r target v h p = Throws e" if "\<not> materialize_refused r target v p" "0 < n"
      "preferred_page h (lv_items v) p = Inl e"
    using go that by simp
  show "\<exists>runs'. materialize r target v h p = Returns (adopt_pages r v n (placement preferred n (pp_allocated p), runs') p) \<and>
      taken_ok (pp_allocated p) n (placement preferred n (pp_allocated p)) runs'"
    if "\<not> materialize_refused r target v p" "0 < n" "preferred_page h (lv_items v) p = Inr preferred"
    using go [OF that(1,2)] take_pages_ok [of "pp_allocated p" "pp_free_runs p" n preferred] that enough(2) ok
    by (auto simp: pool_ok_def)
qed

text \<open>The single page is the lowest free one.\<close>

lemma lowest_page: "runs_match flags (run # rest) \<Longrightarrow> placement None 1 flags = [fr_begin run]"
proof -
  assume match: "runs_match flags (run # rest)"
  then have count: "1 \<le> fr_count run"
    by (simp add: runs_match_def runs_ok_Cons)
  then have "first_fit 1 (run # rest) = Some (0, fr_begin run)"
    by (simp add: first_fit_def)
  then show ?thesis
    using first_fit_lowest(1) [OF match, of 1] by (simp add: placement_def)
qed

lemma materialize_one_ok:
  assumes ok: "pool_ok p" and mine: "reservation_belongs r p" "0 < rv_pages r" and paid: "rv_pages r \<le> pp_reserved_pages p"
  shows "\<exists>page runs' p'. materialize_one r p = Inr (new_lease p page, r\<lparr>rv_pages := rv_pages r - 1\<rparr>, p') \<and>
    [page] = placement None 1 (pp_allocated p) \<and> taken_ok (pp_allocated p) 1 [page] runs' \<and>
    p' = snd (snd (adopt_pages r \<lparr>lv_items = [], lv_capacity = 1\<rparr> 1 ([page], runs') p))"
proof -
  have match: "runs_match (pp_allocated p) (pp_free_runs p)"
    using ok by (simp add: pool_ok_def)
  have "1 \<le> card (free_pages (pp_allocated p))"
    using ok paid mine by (auto simp: pool_ok_def card_free_pages)
  then obtain run rest where runs: "pp_free_runs p = run # rest"
    using match by (cases "pp_free_runs p") (auto simp: runs_match_def)
  define run' where "run' = \<lparr>fr_begin = fr_begin run + 1, fr_count = fr_count run - 1\<rparr>"
  have count: "0 < fr_count run"
    using match by (simp add: runs_match_def runs runs_ok_Cons)
  have "consume_free_run 0 (fr_begin run) 1 (run # rest) = Returns (if fr_count run' = 0 then rest else run' # rest)"
    using count by (cases "fr_count run = 1") (auto simp: consume_free_run_def fr_end_def run'_def)
  then have taken: "taken_ok (pp_allocated p) 1 [fr_begin run] (if fr_count run' = 0 then rest else run' # rest)"
    using consume_taken [OF match, of 1 0 "fr_begin run"] count by (auto simp: runs fr_end_def)
  show ?thesis
    using mine taken lowest_page [OF match [unfolded runs]]
    by (intro exI [of _ "fr_begin run"] exI [of _ "if fr_count run' = 0 then rest else run' # rest"])
      (simp add: materialize_one_def runs Let_def adopt_pages_def mark_allocated_def run'_def)
qed

section \<open>Validation of page lists\<close>

text \<open>Everything a pool is accounted by, which validation leaves alone.\<close>

definition same_accounts :: "page_pool \<Rightarrow> page_pool \<Rightarrow> bool" where
  "same_accounts p q \<longleftrightarrow> same_pool p q \<and> pp_allocated q = pp_allocated p \<and> pp_generations q = pp_generations p \<and>
     pp_free_runs q = pp_free_runs p \<and> pp_allocated_pages q = pp_allocated_pages p \<and> pp_reserved_pages q = pp_reserved_pages p \<and>
     length (pp_marks q) = length (pp_marks p)"

lemma same_accounts_refl [simp]: "same_accounts p p"
  by (simp add: same_accounts_def)

lemma same_accounts_trans: "same_accounts p q \<Longrightarrow> same_accounts q q' \<Longrightarrow> same_accounts p q'"
  by (simp add: same_accounts_def same_pool_def)

lemma same_accounts_facts:
  assumes "same_accounts p q"
  shows "capacity_pages q = capacity_pages p" "valid_page h q = valid_page h p" "leases_of q = leases_of p"
    "pool_ok p \<Longrightarrow> pool_ok q \<longleftrightarrow> list_all (\<lambda>m. m \<le> pp_stamp q) (pp_marks q)"
proof -
  show cap: "capacity_pages q = capacity_pages p"
    using assms same_pool_capacity by (simp add: same_accounts_def)
  show "valid_page h q = valid_page h p"
    using assms cap by (simp add: valid_page_def same_accounts_def same_pool_def)
  have "new_lease q = new_lease p"
    using assms by (simp add: fun_eq_iff new_lease_def same_accounts_def same_pool_def)
  then show "leases_of q = leases_of p"
    using assms by (simp add: leases_of_def same_accounts_def)
  show "pool_ok p \<Longrightarrow> pool_ok q \<longleftrightarrow> list_all (\<lambda>m. m \<le> pp_stamp q) (pp_marks q)"
    using assms cap by (simp add: pool_ok_def same_accounts_def)
qed

lemma next_stamp_ok:
  assumes "pool_ok p"
  shows "pool_ok (next_stamp p) \<and> same_accounts p (next_stamp p) \<and> list_all (\<lambda>m. m < pp_stamp (next_stamp p)) (pp_marks (next_stamp p))"
proof -
  have same: "same_accounts p (next_stamp p)"
    by (simp add: next_stamp_def same_accounts_def same_pool_def Let_def)
  have marks: "list_all (\<lambda>m. m \<le> pp_stamp p) (pp_marks p)"
    using assms by (simp add: pool_ok_def)
  have fresh: "list_all (\<lambda>m. m < pp_stamp (next_stamp p)) (pp_marks (next_stamp p))"
  proof (cases "pp_stamp p + 1 = 0")
    case False
    then have "pp_stamp p < pp_stamp p + 1"
      by (metis add_eq_0_iff word_inc_neq(2) add.commute)
    then show ?thesis
      using marks False by (auto simp: next_stamp_def list_all_iff)
  qed (simp add: next_stamp_def list_all_iff)
  then show ?thesis
    using same same_accounts_facts(4) [OF same assms] by (auto simp: list_all_iff order.strict_implies_order)
qed

lemma mark_pages_ok:
  assumes "pool_ok p"
  shows "pool_ok (snd (mark_pages hs p)) \<and> same_accounts p (snd (mark_pages hs p))"
  using assms
proof (induction hs arbitrary: p)
  case (Cons h hs)
  show ?case
  proof (cases "physical_index h p")
    case (Inr i)
    define q where "q = p\<lparr>pp_marks := (pp_marks p)[nat i := pp_stamp p]\<rparr>"
    have same: "same_accounts p q"
      by (simp add: q_def same_accounts_def same_pool_def)
    have "list_all (\<lambda>m. m \<le> pp_stamp q) (pp_marks q)"
      using Cons.prems by (auto simp: q_def pool_ok_def list_all_iff dest!: set_update_subset_insert [THEN subsetD])
    then have "pool_ok q"
      using same_accounts_facts(4) [OF same Cons.prems] by simp
    then show ?thesis
      using Cons.IH [of q] Cons.prems same same_accounts_trans [OF same] by (simp add: Inr flip: q_def)
  qed (simp add: Cons.prems)
qed simp

lemma validate_ok:
  assumes "pool_ok p"
  shows "pool_ok (snd (validate_distinct_pages hs p)) \<and> same_accounts p (snd (validate_distinct_pages hs p))"
  using next_stamp_ok [OF assms] mark_pages_ok [of "next_stamp p" hs] same_accounts_trans
  unfolding validate_distinct_pages_def by blast

lemma zero_pages_state: "snd (snd (zero_pages accepts hs p)) = snd (validate_distinct_pages hs p)"
  by (auto simp: zero_pages_def split: prod.split sum.split)

end
