(* ===== verification/Device_KV_System.thy ===== *)
theory Device_KV_System
  imports Device_KV_Pool
begin

text \<open>
  The page pools of \<open>src/core/paged_kv_cache.cpp\<close> together with their clients. Reservations and leases are
  move-only objects, and the claims of a pool are about all of them: the state of the system is the pools,
  every reservation object and every vector of leases, and a step is one call of a client, the assignment
  and destruction of such an object included. A call that ends in \<open>std::terminate\<close> or runs past the end of a
  vector sets \<open>sy_crashed\<close>.

  The theorems: in every reachable state each page in use has exactly one lease, the free runs are exactly
  the other pages, the counters are exact and nothing has crashed; materialization succeeds whenever the
  reservation pays for it and places pages as the reference definition says; and a bundle reserves every pool
  or none.
\<close>

section \<open>The system of pools and clients\<close>

record page_system =
  sy_pools :: "page_pool list"
  sy_reservations :: "page_reservation list"
  sy_vectors :: "lease_vector list"
  sy_crashed :: bool

datatype client_call =
    Reserve nat nat
  | Reserve_empty nat
  | Reserve_bundle "(nat option \<times> nat) list"
  | Resize nat nat nat
  | Clear nat
  | Release_reservation nat
  | Assign_reservation nat nat
  | New_vector nat
  | Materialize nat nat nat nat "page_handle option"
  | Materialize_one nat nat
  | Dematerialize nat nat nat nat
  | Dematerialize_one nat nat nat nat
  | Release_lease nat nat
  | Assign_lease nat nat nat nat
  | Destroy_vector nat
  | Zero_pages nat "page_handle list" "plane_command \<Rightarrow> bool"

definition settle :: "'a outcome \<Rightarrow> ('a \<Rightarrow> page_system) \<Rightarrow> page_system \<Rightarrow> page_system" where
  "settle r f s =
     (case r of Returns x \<Rightarrow> f x | Throws e \<Rightarrow> s | Terminates \<Rightarrow> s\<lparr>sy_crashed := True\<rparr> | Undefined \<Rightarrow> s\<lparr>sy_crashed := True\<rparr>)"

definition lease_at :: "nat \<Rightarrow> nat \<Rightarrow> page_system \<Rightarrow> page_lease" where
  "lease_at v i s = lv_items (sy_vectors s ! v) ! i"

definition set_lease :: "nat \<Rightarrow> nat \<Rightarrow> page_lease \<Rightarrow> page_system \<Rightarrow> page_system" where
  "set_lease v i l s =
     s\<lparr>sy_vectors := (sy_vectors s)[v := (sy_vectors s ! v)\<lparr>lv_items := (lv_items (sy_vectors s ! v))[i := l]\<rparr>]\<rparr>"

definition lease_exists :: "nat \<Rightarrow> nat \<Rightarrow> page_system \<Rightarrow> bool" where
  "lease_exists v i s \<longleftrightarrow> v < length (sy_vectors s) \<and> i < length (lv_items (sy_vectors s ! v))"

text \<open>\<open>release\<close> of the lease in a slot, which the call leaves empty.\<close>

definition release_slot :: "nat \<Rightarrow> nat \<Rightarrow> page_system \<Rightarrow> page_system" where
  "release_slot v i s =
     (case ls_owner (lease_at v i s) of None \<Rightarrow> s
      | Some k \<Rightarrow>
          (case lease_release (lease_at v i s) (sy_pools s ! k) of (_, l', p) \<Rightarrow>
             set_lease v i l' (s\<lparr>sy_pools := (sy_pools s)[k := p]\<rparr>)))"

definition release_entitlement :: "nat \<Rightarrow> page_system \<Rightarrow> page_system" where
  "release_entitlement r s =
     (case rv_owner (sy_reservations s ! r) of None \<Rightarrow> s
      | Some k \<Rightarrow> settle (reservation_release (sy_reservations s ! r) (sy_pools s ! k))
          (\<lambda>(r', p). s\<lparr>sy_pools := (sy_pools s)[k := p], sy_reservations := (sy_reservations s)[r := r']\<rparr>) s)"

definition clear_entitlement :: "nat \<Rightarrow> page_system \<Rightarrow> page_system" where
  "clear_entitlement r s =
     (case rv_owner (sy_reservations s ! r) of None \<Rightarrow> s
      | Some k \<Rightarrow> settle (reservation_clear (sy_reservations s ! r) (sy_pools s ! k))
          (\<lambda>(r', p). s\<lparr>sy_pools := (sy_pools s)[k := p], sy_reservations := (sy_reservations s)[r := r']\<rparr>) s)"

definition assign_reservation :: "nat \<Rightarrow> nat \<Rightarrow> page_system \<Rightarrow> page_system" where
  "assign_reservation this other s =
     (if this = other then s
      else let s' = release_entitlement this s in
        s'\<lparr>sy_reservations := (sy_reservations s')[this := sy_reservations s' ! other, other := null_reservation]\<rparr>)"

definition assign_lease :: "nat \<Rightarrow> nat \<Rightarrow> nat \<Rightarrow> nat \<Rightarrow> page_system \<Rightarrow> page_system" where
  "assign_lease v i u j s =
     (if v = u \<and> i = j then s
      else let s' = release_slot v i s in set_lease u j null_lease (set_lease v i (lease_at u j s') s'))"

definition destroy_vector :: "nat \<Rightarrow> page_system \<Rightarrow> page_system" where
  "destroy_vector v s =
     (let s' = fold (\<lambda>i. release_slot v i) [0 ..< length (lv_items (sy_vectors s ! v))] s in
      s'\<lparr>sy_vectors := (sy_vectors s')[v := (sy_vectors s' ! v)\<lparr>lv_items := []\<rparr>]\<rparr>)"

fun call_possible :: "client_call \<Rightarrow> page_system \<Rightarrow> bool" where
  "call_possible (Reserve k n) s = (k < length (sy_pools s))"
| "call_possible (Reserve_empty k) s = (k < length (sy_pools s))"
| "call_possible (Reserve_bundle requests) s =
     list_all (\<lambda>(pool, _). case pool of None \<Rightarrow> True | Some k \<Rightarrow> k < length (sy_pools s)) requests"
| "call_possible (Resize k r n) s = (k < length (sy_pools s) \<and> r < length (sy_reservations s))"
| "call_possible (Clear r) s = (r < length (sy_reservations s))"
| "call_possible (Release_reservation r) s = (r < length (sy_reservations s))"
| "call_possible (Assign_reservation r q) s = (r < length (sy_reservations s) \<and> q < length (sy_reservations s))"
| "call_possible (New_vector n) s = True"
| "call_possible (Materialize k r target v h) s =
     (k < length (sy_pools s) \<and> r < length (sy_reservations s) \<and> v < length (sy_vectors s))"
| "call_possible (Materialize_one k r) s = (k < length (sy_pools s) \<and> r < length (sy_reservations s))"
| "call_possible (Dematerialize k r target v) s =
     (k < length (sy_pools s) \<and> r < length (sy_reservations s) \<and> v < length (sy_vectors s))"
| "call_possible (Dematerialize_one k r v i) s =
     (k < length (sy_pools s) \<and> r < length (sy_reservations s) \<and> lease_exists v i s)"
| "call_possible (Release_lease v i) s = lease_exists v i s"
| "call_possible (Assign_lease v i u j) s = (lease_exists v i s \<and> lease_exists u j s)"
| "call_possible (Destroy_vector v) s = (v < length (sy_vectors s))"
| "call_possible (Zero_pages k hs accepts) s = (k < length (sy_pools s))"

fun call_effect :: "client_call \<Rightarrow> page_system \<Rightarrow> page_system" where
  "call_effect (Reserve k n) s =
     (case reserve n (sy_pools s ! k) of (None, _) \<Rightarrow> s
      | (Some r, p) \<Rightarrow> s\<lparr>sy_pools := (sy_pools s)[k := p], sy_reservations := sy_reservations s @ [r]\<rparr>)"
| "call_effect (Reserve_empty k) s =
     s\<lparr>sy_reservations := sy_reservations s @ [make_empty_reservation (sy_pools s ! k)]\<rparr>"
| "call_effect (Reserve_bundle requests) s =
     settle (reserve_device_kv_page_bundle requests (sy_pools s))
       (\<lambda>(made, ps). s\<lparr>sy_pools := ps,
          sy_reservations := sy_reservations s @ (case made of Inl _ \<Rightarrow> [] | Inr rs \<Rightarrow> rs)\<rparr>) s"
| "call_effect (Resize k r n) s =
     (case resize_reservation (sy_reservations s ! r) n (sy_pools s ! k) of Inl _ \<Rightarrow> s
      | Inr (r', p) \<Rightarrow> s\<lparr>sy_pools := (sy_pools s)[k := p], sy_reservations := (sy_reservations s)[r := r']\<rparr>)"
| "call_effect (Clear r) s = clear_entitlement r s"
| "call_effect (Release_reservation r) s = release_entitlement r s"
| "call_effect (Assign_reservation r q) s = assign_reservation r q s"
| "call_effect (New_vector n) s = s\<lparr>sy_vectors := sy_vectors s @ [\<lparr>lv_items = [], lv_capacity = n\<rparr>]\<rparr>"
| "call_effect (Materialize k r target v h) s =
     settle (materialize (sy_reservations s ! r) target (sy_vectors s ! v) h (sy_pools s ! k))
       (\<lambda>(r', v', p). s\<lparr>sy_pools := (sy_pools s)[k := p], sy_reservations := (sy_reservations s)[r := r'],
          sy_vectors := (sy_vectors s)[v := v']\<rparr>) s"
| "call_effect (Materialize_one k r) s =
     (case materialize_one (sy_reservations s ! r) (sy_pools s ! k) of Inl _ \<Rightarrow> s
      | Inr (l, r', p) \<Rightarrow> s\<lparr>sy_pools := (sy_pools s)[k := p], sy_reservations := (sy_reservations s)[r := r'],
          sy_vectors := sy_vectors s @ [\<lparr>lv_items = [l], lv_capacity = 1\<rparr>]\<rparr>)"
| "call_effect (Dematerialize k r target v) s =
     (case dematerialize (sy_reservations s ! r) target (sy_vectors s ! v) (sy_pools s ! k) of Inl _ \<Rightarrow> s
      | Inr (r', v', p) \<Rightarrow> s\<lparr>sy_pools := (sy_pools s)[k := p], sy_reservations := (sy_reservations s)[r := r'],
          sy_vectors := (sy_vectors s)[v := v']\<rparr>)"
| "call_effect (Dematerialize_one k r v i) s =
     (case dematerialize_one (sy_reservations s ! r) (lease_at v i s) (sy_pools s ! k) of Inl _ \<Rightarrow> s
      | Inr (r', l', p) \<Rightarrow> set_lease v i l'
          (s\<lparr>sy_pools := (sy_pools s)[k := p], sy_reservations := (sy_reservations s)[r := r']\<rparr>))"
| "call_effect (Release_lease v i) s = release_slot v i s"
| "call_effect (Assign_lease v i u j) s = assign_lease v i u j s"
| "call_effect (Destroy_vector v) s = destroy_vector v s"
| "call_effect (Zero_pages k hs accepts) s =
     s\<lparr>sy_pools := (sy_pools s)[k := snd (snd (zero_pages accepts hs (sy_pools s ! k)))]\<rparr>"

definition client_step :: "client_call \<Rightarrow> page_system \<Rightarrow> page_system" where
  "client_step c s = (if sy_crashed s \<or> \<not> call_possible c s then s else call_effect c s)"

definition system_start :: "page_pool list \<Rightarrow> page_system" where
  "system_start ps = \<lparr>sy_pools = ps, sy_reservations = [], sy_vectors = [], sy_crashed = False\<rparr>"


section \<open>The invariant of the system\<close>

definition amount :: "nat \<Rightarrow> page_reservation \<Rightarrow> nat" where
  "amount k r = (if rv_owner r = Some k then rv_pages r else 0)"

definition entitled :: "nat \<Rightarrow> page_reservation list \<Rightarrow> nat" where
  "entitled k rs = sum_list (map (amount k) rs)"

definition own :: "nat \<Rightarrow> page_lease list \<Rightarrow> page_lease multiset" where
  "own k ls = filter_mset (\<lambda>l. ls_owner l = Some k) (mset ls)"

definition held :: "nat \<Rightarrow> lease_vector list \<Rightarrow> page_lease multiset" where
  "held k vs = own k (concat (map lv_items vs))"

definition balanced :: "nat \<Rightarrow> page_pool \<Rightarrow> page_reservation list \<Rightarrow> lease_vector list \<Rightarrow> bool" where
  "balanced k p rs vs \<longleftrightarrow>
     pool_ok p \<and> pp_self p = k \<and> pp_reserved_pages p = entitled k rs \<and> held k vs = leases_of p"

definition owner_ok :: "nat \<Rightarrow> nat option \<Rightarrow> bool" where
  "owner_ok n owner \<longleftrightarrow> (case owner of None \<Rightarrow> True | Some k \<Rightarrow> k < n)"

definition owners_ok :: "nat \<Rightarrow> page_reservation list \<Rightarrow> lease_vector list \<Rightarrow> bool" where
  "owners_ok n rs vs \<longleftrightarrow> list_all (\<lambda>r. owner_ok n (rv_owner r)) rs \<and>
     list_all (\<lambda>v. list_all (\<lambda>l. owner_ok n (ls_owner l)) (lv_items v)) vs"

definition sys_ok :: "page_system \<Rightarrow> bool" where
  "sys_ok s \<longleftrightarrow> \<not> sy_crashed s \<and> owners_ok (length (sy_pools s)) (sy_reservations s) (sy_vectors s) \<and>
     (\<forall>k < length (sy_pools s). balanced k (sy_pools s ! k) (sy_reservations s) (sy_vectors s))"

lemma owner_ok_simps [simp]: "owner_ok n None" "owner_ok n (Some k) \<longleftrightarrow> k < n"
  by (simp_all add: owner_ok_def)

lemma own_append [simp]: "own k (ls @ ms) = own k ls + own k ms"
  by (simp add: own_def)

lemma own_simps [simp]: "own k [] = {#}"
  "own k (l # ls) = (if ls_owner l = Some k then add_mset l (own k ls) else own k ls)"
  by (simp_all add: own_def)

lemma held_append [simp]: "held k (vs @ ws) = held k vs + held k ws" "held k [] = {#}" "held k (v # vs) = own k (lv_items v) + held k vs"
  by (simp_all add: held_def)

lemma held_update:
  assumes "v < length vs"
  shows "held k (vs[v := w]) + own k (lv_items (vs ! v)) = held k vs + own k (lv_items w)"
proof -
  have split: "vs = take v vs @ [vs ! v] @ drop (Suc v) vs" "vs[v := w] = take v vs @ [w] @ drop (Suc v) vs"
    using assms by (simp_all add: id_take_nth_drop upd_conv_take_nth_drop)
  have "held k (vs[v := w]) = held k (take v vs) + own k (lv_items w) + held k (drop (Suc v) vs)"
    by (subst split(2)) simp
  moreover have "held k vs = held k (take v vs) + own k (lv_items (vs ! v)) + held k (drop (Suc v) vs)"
    by (subst split(1)) simp
  ultimately show ?thesis
    by (simp add: ac_simps)
qed

lemma own_update:
  assumes "i < length ls"
  shows "own k (ls[i := l]) + own k [ls ! i] = own k ls + own k [l]"
proof -
  have split: "ls = take i ls @ [ls ! i] @ drop (Suc i) ls" "ls[i := l] = take i ls @ [l] @ drop (Suc i) ls"
    using assms by (simp_all add: id_take_nth_drop upd_conv_take_nth_drop)
  have "own k (ls[i := l]) = own k (take i ls) + own k [l] + own k (drop (Suc i) ls)"
    by (subst split(2)) (simp only: own_append ac_simps)
  moreover have "own k ls = own k (take i ls) + own k [ls ! i] + own k (drop (Suc i) ls)"
    by (subst split(1)) (simp only: own_append ac_simps)
  ultimately show ?thesis
    by (simp add: ac_simps)
qed

lemma own_held: "v < length vs \<Longrightarrow> own k (lv_items (vs ! v)) \<subseteq># held k vs"
  unfolding held_def own_def by (intro multiset_filter_mono) (auto simp: mset_concat sum_list_map_remove1 [of "vs ! v"] mset_map intro!: mset_subset_eq_add_left)

lemma entitled_append [simp]: "entitled k (rs @ qs) = entitled k rs + entitled k qs" "entitled k [] = 0" "entitled k (r # rs) = amount k r + entitled k rs"
  by (simp_all add: entitled_def)

lemma entitled_update:
  assumes "r < length rs"
  shows "entitled k (rs[r := q]) + amount k (rs ! r) = entitled k rs + amount k q"
proof -
  have split: "rs = take r rs @ [rs ! r] @ drop (Suc r) rs" "rs[r := q] = take r rs @ [q] @ drop (Suc r) rs"
    using assms by (simp_all add: id_take_nth_drop upd_conv_take_nth_drop)
  have "entitled k (rs[r := q]) = entitled k (take r rs) + amount k q + entitled k (drop (Suc r) rs)"
    by (subst split(2)) simp
  moreover have "entitled k rs = entitled k (take r rs) + amount k (rs ! r) + entitled k (drop (Suc r) rs)"
    by (subst split(1)) simp
  ultimately show ?thesis
    by simp
qed

lemma amount_entitled: "r < length rs \<Longrightarrow> amount k (rs ! r) \<le> entitled k rs"
  using entitled_update [of r rs k null_reservation] by (simp add: amount_def null_reservation_def)

lemma owners_ok_update:
  assumes "owners_ok n rs vs"
  shows "owner_ok n (rv_owner q) \<Longrightarrow> owners_ok n (rs[r := q]) vs"
    and "list_all (\<lambda>l. owner_ok n (ls_owner l)) (lv_items w) \<Longrightarrow> owners_ok n rs (vs[v := w])"
  using assms by (auto simp: owners_ok_def list_all_iff dest!: set_update_subset_insert [THEN subsetD])

text \<open>A call that touches one pool and keeps the accounts of the others.\<close>

lemma sys_change:
  assumes ok: "sys_ok s" and k: "k < length (sy_pools s)"
    and "balanced k p' rs' vs'" "owners_ok (length (sy_pools s)) rs' vs'"
    and others: "\<And>j. j \<noteq> k \<Longrightarrow> entitled j rs' = entitled j (sy_reservations s) \<and> held j vs' = held j (sy_vectors s)"
    and s': "sy_pools s' = (sy_pools s)[k := p']" "sy_reservations s' = rs'" "sy_vectors s' = vs'" "sy_crashed s' = sy_crashed s"
  shows "sys_ok s'"
  unfolding sys_ok_def
proof (intro conjI allI impI)
  fix j assume "j < length (sy_pools s')"
  then show "balanced j (sy_pools s' ! j) (sy_reservations s') (sy_vectors s')"
    using assms by (cases "j = k") (auto simp: s' sys_ok_def balanced_def)
qed (use assms in \<open>auto simp: sys_ok_def\<close>)


lemma sys_okD:
  assumes "sys_ok s" "k < length (sy_pools s)"
  shows "pool_ok (sy_pools s ! k)" "pp_self (sy_pools s ! k) = k"
    "pp_reserved_pages (sy_pools s ! k) = entitled k (sy_reservations s)" "held k (sy_vectors s) = leases_of (sy_pools s ! k)"
  using assms by (simp_all add: sys_ok_def balanced_def)

lemma sys_owners:
  assumes "sys_ok s"
  shows "r < length (sy_reservations s) \<Longrightarrow> rv_owner (sy_reservations s ! r) = Some k \<Longrightarrow> k < length (sy_pools s)"
    and "lease_exists v i s \<Longrightarrow> ls_owner (lease_at v i s) = Some k \<Longrightarrow> k < length (sy_pools s)"
  using assms by (auto simp: sys_ok_def owners_ok_def list_all_length owner_ok_def lease_exists_def lease_at_def split: option.splits)

lemma sys_paid:
  assumes "sys_ok s" "k < length (sy_pools s)" "r < length (sy_reservations s)"
    and "reservation_belongs (sy_reservations s ! r) (sy_pools s ! k)"
  shows "rv_owner (sy_reservations s ! r) = Some k" "rv_pages (sy_reservations s ! r) \<le> pp_reserved_pages (sy_pools s ! k)"
  using assms(4) sys_okD [OF assms(1,2)] amount_entitled [OF assms(3), of k]
  by (auto simp: reservation_belongs_def amount_def)

lemma new_lease_reserved [simp]: "new_lease (p\<lparr>pp_reserved_pages := x\<rparr>) = new_lease p"
  by (simp add: fun_eq_iff new_lease_def)

lemma reserved_update [simp]:
  "leases_of (p\<lparr>pp_reserved_pages := x\<rparr>) = leases_of p"
  "capacity_pages (p\<lparr>pp_reserved_pages := x\<rparr>) = capacity_pages p" "same_pool q (p\<lparr>pp_reserved_pages := x\<rparr>) = same_pool q p"
  by (simp_all add: leases_of_def capacity_pages_def same_pool_def)

lemma pool_ok_reserved:
  "pool_ok p \<Longrightarrow> pool_ok (p\<lparr>pp_reserved_pages := x\<rparr>) \<longleftrightarrow> pp_allocated_pages p + x \<le> capacity_pages p"
  by (simp add: pool_ok_def)

lemma pool_ok_room: "pool_ok p \<Longrightarrow> pp_allocated_pages p + pp_reserved_pages p \<le> capacity_pages p"
  by (simp add: pool_ok_def)

subsection \<open>Reservation calls\<close>

lemma reserve_ok:
  assumes ok: "sys_ok s" and k: "k < length (sy_pools s)" and n: "n \<le> available_pages (sy_pools s ! k)"
  shows "sys_ok (s\<lparr>sy_pools := (sy_pools s)[k := (sy_pools s ! k)\<lparr>pp_reserved_pages := pp_reserved_pages (sy_pools s ! k) + n\<rparr>],
    sy_reservations := sy_reservations s @ [\<lparr>rv_owner = Some k, rv_pages = n\<rparr>]\<rparr>)"
proof (rule sys_change [OF ok k])
  note P = sys_okD [OF ok k]
  show "balanced k ((sy_pools s ! k)\<lparr>pp_reserved_pages := pp_reserved_pages (sy_pools s ! k) + n\<rparr>)
      (sy_reservations s @ [\<lparr>rv_owner = Some k, rv_pages = n\<rparr>]) (sy_vectors s)"
    using P pool_ok_room [OF P(1)] n by (simp add: balanced_def pool_ok_reserved amount_def available_pages_def)
  show "owners_ok (length (sy_pools s)) (sy_reservations s @ [\<lparr>rv_owner = Some k, rv_pages = n\<rparr>]) (sy_vectors s)"
    using ok k by (simp add: sys_ok_def owners_ok_def owner_ok_def)
qed (simp_all add: amount_def)

lemma reprice_ok:
  assumes ok: "sys_ok s" and k: "k < length (sy_pools s)" and r: "r < length (sy_reservations s)"
    and owner: "rv_owner (sy_reservations s ! r) = Some k" "rv_owner q = Some k \<or> rv_owner q = None"
    and room: "pp_allocated_pages (sy_pools s ! k) + x \<le> capacity_pages (sy_pools s ! k)"
    and x: "x + rv_pages (sy_reservations s ! r) = pp_reserved_pages (sy_pools s ! k) + amount k q"
  shows "sys_ok (s\<lparr>sy_pools := (sy_pools s)[k := (sy_pools s ! k)\<lparr>pp_reserved_pages := x\<rparr>],
    sy_reservations := (sy_reservations s)[r := q]\<rparr>)"
proof (rule sys_change [OF ok k])
  note P = sys_okD [OF ok k]
  note E = entitled_update [OF r, where q = q]
  show "balanced k ((sy_pools s ! k)\<lparr>pp_reserved_pages := x\<rparr>) ((sy_reservations s)[r := q]) (sy_vectors s)"
    using P room x owner(1) E [of k] by (simp add: balanced_def pool_ok_reserved amount_def)
  show "owners_ok (length (sy_pools s)) ((sy_reservations s)[r := q]) (sy_vectors s)"
    using ok k owner by (intro owners_ok_update(1)) (auto simp: sys_ok_def owner_ok_def)
  show "entitled j ((sy_reservations s)[r := q]) = entitled j (sy_reservations s) \<and> held j (sy_vectors s) = held j (sy_vectors s)"
    if "j \<noteq> k" for j
    using E [of j] owner that by (auto simp: amount_def)
qed simp_all

lemma resize_ok:
  assumes ok: "sys_ok s" and k: "k < length (sy_pools s)" and r: "r < length (sy_reservations s)"
  shows "sys_ok (call_effect (Resize k r n) s)"
proof (cases "resize_reservation (sy_reservations s ! r) n (sy_pools s ! k)")
  case (Inr c)
  let ?r = "sy_reservations s ! r" and ?p = "sy_pools s ! k"
  have can: "can_resize_reservation ?r n ?p" and
      c: "c = (?r\<lparr>rv_pages := n\<rparr>, ?p\<lparr>pp_reserved_pages := pp_reserved_pages ?p - rv_pages ?r + n\<rparr>)"
    using Inr by (auto simp: resize_reservation_def split: if_splits)
  have "rv_owner ?r = Some k"
    using can sys_paid(1) [OF ok k r] by (simp add: can_resize_reservation_def)
  then have "sys_ok (s\<lparr>sy_pools := (sy_pools s)[k := snd c], sy_reservations := (sy_reservations s)[r := fst c]\<rparr>)"
    unfolding c fst_conv snd_conv
    using can by (intro reprice_ok [OF ok k r]) (auto simp: can_resize_reservation_def amount_def)
  then show ?thesis
    by (simp add: Inr c)
qed (simp add: ok)

lemma release_reservation_returns:
  assumes ok: "sys_ok s" and r: "r < length (sy_reservations s)" and owner: "rv_owner (sy_reservations s ! r) = Some k"
  shows "release_reservation (rv_pages (sy_reservations s ! r)) (sy_pools s ! k) =
    Returns ((sy_pools s ! k)\<lparr>pp_reserved_pages := pp_reserved_pages (sy_pools s ! k) - rv_pages (sy_reservations s ! r)\<rparr>)"
    and "k < length (sy_pools s)" "rv_pages (sy_reservations s ! r) \<le> pp_reserved_pages (sy_pools s ! k)"
proof -
  show k: "k < length (sy_pools s)"
    using sys_owners(1) [OF ok r owner] .
  show le: "rv_pages (sy_reservations s ! r) \<le> pp_reserved_pages (sy_pools s ! k)"
    using sys_paid(2) [OF ok k r] owner sys_okD(2) [OF ok k] by (simp add: reservation_belongs_def)
  then show "release_reservation (rv_pages (sy_reservations s ! r)) (sy_pools s ! k) =
    Returns ((sy_pools s ! k)\<lparr>pp_reserved_pages := pp_reserved_pages (sy_pools s ! k) - rv_pages (sy_reservations s ! r)\<rparr>)"
    by (simp add: release_reservation_def)
qed

lemma release_entitlement_ok:
  assumes ok: "sys_ok s" and r: "r < length (sy_reservations s)"
  shows "sys_ok (release_entitlement r s) \<and> length (sy_reservations (release_entitlement r s)) = length (sy_reservations s) \<and>
    rv_owner (sy_reservations (release_entitlement r s) ! r) = None"
proof (cases "rv_owner (sy_reservations s ! r)")
  case (Some k)
  note R = release_reservation_returns [OF ok r Some]
  have "release_entitlement r s = s\<lparr>sy_pools := (sy_pools s)[k := (sy_pools s ! k)
      \<lparr>pp_reserved_pages := pp_reserved_pages (sy_pools s ! k) - rv_pages (sy_reservations s ! r)\<rparr>],
      sy_reservations := (sy_reservations s)[r := null_reservation]\<rparr>"
    using Some by (simp add: release_entitlement_def settle_def reservation_release_def reservation_valid_def R(1))
  then show ?thesis
    using reprice_ok [OF ok R(2) r Some, of null_reservation
        "pp_reserved_pages (sy_pools s ! k) - rv_pages (sy_reservations s ! r)"]
      pool_ok_room [OF sys_okD(1) [OF ok R(2)]] R(3) r by (simp add: null_reservation_def amount_def)
qed (simp add: release_entitlement_def ok)

lemma clear_entitlement_ok:
  assumes ok: "sys_ok s" and r: "r < length (sy_reservations s)"
  shows "sys_ok (clear_entitlement r s)"
proof (cases "rv_owner (sy_reservations s ! r)")
  case (Some k)
  note R = release_reservation_returns [OF ok r Some]
  have keep: "s\<lparr>sy_pools := (sy_pools s)[k := sy_pools s ! k], sy_reservations := (sy_reservations s)[r := sy_reservations s ! r]\<rparr> = s"
    by simp
  show ?thesis
    using reprice_ok [OF ok R(2) r Some, of "(sy_reservations s ! r)\<lparr>rv_pages := 0\<rparr>"
        "pp_reserved_pages (sy_pools s ! k) - rv_pages (sy_reservations s ! r)"]
      pool_ok_room [OF sys_okD(1) [OF ok R(2)]] R(3) r ok Some
    by (simp add: clear_entitlement_def settle_def reservation_clear_def R(1) amount_def reservation_valid_def keep)
qed (simp add: clear_entitlement_def ok)

lemma assign_reservation_ok:
  assumes ok: "sys_ok s" and r: "r < length (sy_reservations s)" "q < length (sy_reservations s)"
  shows "sys_ok (assign_reservation r q s)"
proof (cases "r = q")
  case False
  define s' where "s' = release_entitlement r s"
  have s': "sys_ok s'" "r < length (sy_reservations s')" "q < length (sy_reservations s')" "rv_owner (sy_reservations s' ! r) = None"
    using release_entitlement_ok [OF ok r(1)] r by (simp_all add: s'_def)
  define rs' where "rs' = (sy_reservations s')[r := sy_reservations s' ! q, q := null_reservation]"
  have same: "entitled k rs' = entitled k (sy_reservations s')" for k
    using entitled_update [OF s'(2), of k "sy_reservations s' ! q"] False s'
      entitled_update [of q "(sy_reservations s')[r := sy_reservations s' ! q]" k null_reservation]
    by (simp add: rs'_def amount_def null_reservation_def)
  have "owner_ok (length (sy_pools s')) (rv_owner (sy_reservations s' ! q))"
    using s'(1,3) by (simp add: sys_ok_def owners_ok_def list_all_length)
  then have "owners_ok (length (sy_pools s')) rs' (sy_vectors s')"
    using s'(1) unfolding rs'_def
    by (intro owners_ok_update(1)) (auto simp: sys_ok_def owner_ok_def null_reservation_def)
  then have "sys_ok (s'\<lparr>sy_reservations := rs'\<rparr>)"
    using s'(1) same by (simp add: sys_ok_def balanced_def)
  then show ?thesis
    using False by (simp add: assign_reservation_def Let_def s'_def rs'_def)
qed (simp add: assign_reservation_def ok)


subsection \<open>Lease calls\<close>

lemma lease_change_ok:
  assumes ok: "sys_ok s" and k: "k < length (sy_pools s)" and v: "v < length (sy_vectors s)"
    and pool: "pool_ok p'" "same_pool (sy_pools s ! k) p'"
    and rs: "pp_reserved_pages p' = entitled k rs'" "\<And>j. j \<noteq> k \<Longrightarrow> entitled j rs' = entitled j (sy_reservations s)"
      "list_all (\<lambda>r. owner_ok (length (sy_pools s)) (rv_owner r)) rs'"
    and leases: "leases_of p' + own k (lv_items (sy_vectors s ! v)) = leases_of (sy_pools s ! k) + own k (lv_items v')"
    and others: "\<And>j. j \<noteq> k \<Longrightarrow> own j (lv_items v') = own j (lv_items (sy_vectors s ! v))"
    and owners: "list_all (\<lambda>l. owner_ok (length (sy_pools s)) (ls_owner l)) (lv_items v')"
    and s': "s' = s\<lparr>sy_pools := (sy_pools s)[k := p'], sy_reservations := rs', sy_vectors := (sy_vectors s)[v := v']\<rparr>"
  shows "sys_ok s'"
proof (rule sys_change [OF ok k, of p' rs' "(sy_vectors s)[v := v']"])
  note P = sys_okD [OF ok k]
  note H = held_update [OF v, of _ v']
  have "leases_of p' + (held k (sy_vectors s) + own k (lv_items v')) = leases_of (sy_pools s ! k) + own k (lv_items v') + held k ((sy_vectors s)[v := v'])"
    using leases H [of k] by (metis add.assoc add.commute)
  then have "held k ((sy_vectors s)[v := v']) = leases_of p'"
    using P(4) by (simp add: ac_simps)
  then show "balanced k p' rs' ((sy_vectors s)[v := v'])"
    using P pool rs(1) by (simp add: balanced_def same_pool_def)
  show "owners_ok (length (sy_pools s)) rs' ((sy_vectors s)[v := v'])"
    using ok owners rs(3) by (intro owners_ok_update(2)) (auto simp: sys_ok_def owners_ok_def)
  show "entitled j rs' = entitled j (sy_reservations s) \<and> held j ((sy_vectors s)[v := v']) = held j (sy_vectors s)" if "j \<noteq> k" for j
    using that rs(2) others [OF that] H [of j] by simp
qed (simp_all add: s')

text \<open>The same with pages and capacity exchanged between a reservation and a vector of leases.\<close>

lemma exchange_ok:
  assumes ok: "sys_ok s" and k: "k < length (sy_pools s)" and r: "r < length (sy_reservations s)" and v: "v < length (sy_vectors s)"
    and pool: "pool_ok p'" "same_pool (sy_pools s ! k) p'"
    and owner: "rv_owner (sy_reservations s ! r) = Some k" "rv_owner r' = Some k"
    and account: "pp_reserved_pages p' + rv_pages (sy_reservations s ! r) = pp_reserved_pages (sy_pools s ! k) + rv_pages r'"
    and leases: "leases_of p' + own k (lv_items (sy_vectors s ! v)) = leases_of (sy_pools s ! k) + own k (lv_items v')"
    and others: "\<And>j. j \<noteq> k \<Longrightarrow> own j (lv_items v') = own j (lv_items (sy_vectors s ! v))"
    and owners: "list_all (\<lambda>l. owner_ok (length (sy_pools s)) (ls_owner l)) (lv_items v')"
    and s': "s' = s\<lparr>sy_pools := (sy_pools s)[k := p'], sy_reservations := (sy_reservations s)[r := r'], sy_vectors := (sy_vectors s)[v := v']\<rparr>"
  shows "sys_ok s'"
proof (rule lease_change_ok [OF ok k v pool _ _ _ leases others owners s'])
  note E = entitled_update [OF r, where q = r']
  show "pp_reserved_pages p' = entitled k ((sy_reservations s)[r := r'])"
    using account E [of k] owner sys_okD(3) [OF ok k] by (simp add: amount_def)
  show "entitled j ((sy_reservations s)[r := r']) = entitled j (sy_reservations s)" if "j \<noteq> k" for j
    using E [of j] owner that by (auto simp: amount_def)
  have "owners_ok (length (sy_pools s)) ((sy_reservations s)[r := r']) (sy_vectors s)"
    using ok k owner by (intro owners_ok_update(1)) (auto simp: sys_ok_def owner_ok_def)
  then show "list_all (\<lambda>r. owner_ok (length (sy_pools s)) (rv_owner r)) ((sy_reservations s)[r := r'])"
    by (simp add: owners_ok_def)
qed

lemma vector_owners:
  assumes "sys_ok s" "v < length (sy_vectors s)"
  shows "list_all (\<lambda>l. owner_ok (length (sy_pools s)) (ls_owner l)) (lv_items (sy_vectors s ! v))"
  using assms by (simp add: sys_ok_def owners_ok_def list_all_length)

lemma own_leases: "ls_owner l = Some k \<Longrightarrow> own k [l] = {#l#}" "ls_owner l \<noteq> Some k \<Longrightarrow> own k [l] = {#}"
  by simp_all

lemma own_all: "(\<And>l. l \<in> set ls \<Longrightarrow> ls_owner l = Some k) \<Longrightarrow> own k ls = mset ls"
  by (induction ls) simp_all

lemma own_none: "(\<And>l. l \<in> set ls \<Longrightarrow> ls_owner l \<noteq> Some k) \<Longrightarrow> own k ls = {#}"
  by (induction ls) simp_all

lemma own_new_leases:
  "own k (map (new_lease p) pages) = (if pp_self p = k then mset (map (new_lease p) pages) else {#})"
  by (induction pages) (simp_all add: own_def)

lemma materialize_step_ok:
  assumes ok: "sys_ok s" and k: "k < length (sy_pools s)" and r: "r < length (sy_reservations s)" and v: "v < length (sy_vectors s)"
  shows "sys_ok (call_effect (Materialize k r target v h) s)"
proof -
  let ?r = "sy_reservations s ! r" and ?v = "sy_vectors s ! v" and ?p = "sy_pools s ! k"
  let ?n = "target - length (lv_items ?v)"
  note P = sys_okD [OF ok k]
  note M = materialize_exact [OF P(1) sys_paid(2) [OF ok k r], of target ?v]
  show ?thesis
  proof (cases "materialize_refused ?r target ?v ?p \<or> ?n = 0 \<or> (\<exists>e. preferred_page h (lv_items ?v) ?p = Inl e)")
    case True
    then have "materialize ?r target ?v h ?p = Returns (?r, ?v, ?p) \<or> (\<exists>e. materialize ?r target ?v h ?p = Throws e)"
      using M(1) [of h] M(2) [of h] M(3) [of h] by (cases "materialize_refused ?r target ?v ?p"; cases "?n = 0") auto
    then show ?thesis
      using ok by (auto simp: settle_def)
  next
    case False
    then obtain preferred where pref: "preferred_page h (lv_items ?v) ?p = Inr preferred"
      by (cases "preferred_page h (lv_items ?v) ?p") auto
    define pages where "pages = placement preferred ?n (pp_allocated ?p)"
    obtain runs' where run: "materialize ?r target ?v h ?p = Returns (adopt_pages ?r ?v ?n (pages, runs') ?p)"
        "taken_ok (pp_allocated ?p) ?n pages runs'"
      using M(4) [of h preferred] False pref by (auto simp: pages_def)
    obtain r' v' p' where adopt: "adopt_pages ?r ?v ?n (pages, runs') ?p = (r', v', p')"
      by (cases "adopt_pages ?r ?v ?n (pages, runs') ?p")
    have paid: "?n \<le> rv_pages ?r" "rv_owner ?r = Some k" "rv_pages ?r \<le> pp_reserved_pages ?p"
      using False sys_paid [OF ok k r] by (auto simp: materialize_refused_def)
    note A = adopt_pages_ok [OF P(1) run(2) _ adopt]
    have "sys_ok (s\<lparr>sy_pools := (sy_pools s)[k := p'], sy_reservations := (sy_reservations s)[r := r'], sy_vectors := (sy_vectors s)[v := v']\<rparr>)"
      using A paid P(2) vector_owners [OF ok v] k
      by (intro exchange_ok [OF ok k r v _ _ paid(2), of p' r' v'])
        (auto simp: own_new_leases list_all_iff owner_ok_def)
    then show ?thesis
      by (simp add: run(1) adopt settle_def)
  qed
qed

lemma new_vector_ok: "sys_ok s \<Longrightarrow> sys_ok (s\<lparr>sy_vectors := sy_vectors s @ [\<lparr>lv_items = [], lv_capacity = n\<rparr>]\<rparr>)"
  by (simp add: sys_ok_def balanced_def owners_ok_def)

lemma materialize_one_step_ok:
  assumes ok: "sys_ok s" and k: "k < length (sy_pools s)" and r: "r < length (sy_reservations s)"
  shows "sys_ok (call_effect (Materialize_one k r) s)"
proof (cases "reservation_belongs (sy_reservations s ! r) (sy_pools s ! k) \<and> 0 < rv_pages (sy_reservations s ! r)")
  case True
  let ?r = "sy_reservations s ! r" and ?p = "sy_pools s ! k" and ?e = "\<lparr>lv_items = [], lv_capacity = 1\<rparr>"
  note P = sys_okD [OF ok k]
  note paid = sys_paid [OF ok k r]
  obtain page runs' p' where m: "materialize_one ?r ?p = Inr (new_lease ?p page, ?r\<lparr>rv_pages := rv_pages ?r - 1\<rparr>, p')"
      "taken_ok (pp_allocated ?p) 1 [page] runs'" "p' = snd (snd (adopt_pages ?r ?e 1 ([page], runs') ?p))"
    using materialize_one_ok [OF P(1)] True paid(2) by blast
  obtain r' v' where adopt: "adopt_pages ?r ?e 1 ([page], runs') ?p = (r', v', p')"
    using m(3) by (cases "adopt_pages ?r ?e 1 ([page], runs') ?p") simp
  have n: "1 \<le> pp_reserved_pages ?p"
    using True paid by simp
  note A = adopt_pages_ok [OF P(1) m(2) n adopt]
  define t where "t = s\<lparr>sy_vectors := sy_vectors s @ [?e]\<rparr>"
  have t: "sys_ok t"
    unfolding t_def by (rule new_vector_ok [OF ok])
  let ?v = "\<lparr>lv_items = [new_lease ?p page], lv_capacity = 1\<rparr>" and ?r' = "?r\<lparr>rv_pages := rv_pages ?r - 1\<rparr>"
  have "sys_ok (s\<lparr>sy_pools := (sy_pools s)[k := p'], sy_reservations := (sy_reservations s)[r := ?r'], sy_vectors := sy_vectors s @ [?v]\<rparr>)"
    using A True paid k r P(2) n
    by (intro exchange_ok [OF t, of k r "length (sy_vectors s)" p' ?r' ?v])
      (auto simp: t_def owner_ok_def)
  then show ?thesis
    by (simp add: m(1))
qed (use ok in \<open>auto simp: materialize_one_def\<close>)

lemma dematerialize_step_ok:
  assumes ok: "sys_ok s" and k: "k < length (sy_pools s)" and r: "r < length (sy_reservations s)" and v: "v < length (sy_vectors s)"
  shows "sys_ok (call_effect (Dematerialize k r target v) s)"
proof (cases "dematerialize (sy_reservations s ! r) target (sy_vectors s ! v) (sy_pools s ! k)")
  case (Inr c)
  let ?r = "sy_reservations s ! r" and ?v = "sy_vectors s ! v" and ?p = "sy_pools s ! k"
  let ?kept = "take target (lv_items ?v)" and ?gone = "drop target (lv_items ?v)"
  note P = sys_okD [OF ok k]
  have cond: "reservation_belongs ?r ?p" "target \<le> length (lv_items ?v)" "\<forall>l \<in> set (lv_items ?v). lease_belongs l ?p"
    using Inr by (auto simp: dematerialize_def Let_def lease_stale_def list_ex_iff split: if_splits)
  note paid = sys_paid [OF ok k r cond(1)]
  have owners: "ls_owner l = Some k" if "l \<in> set (lv_items ?v)" for l
    using cond(3) that P(2) by (simp add: lease_belongs_def)
  then have mset: "own k (lv_items ?v) = mset ?kept + mset ?gone" "own k ?kept = mset ?kept"
    by (auto simp: own_all simp flip: mset_append intro!: own_all dest: in_set_takeD)
  have "own k (lv_items ?v) \<subseteq># leases_of ?p"
    using own_held [OF v, of k] P(4) by simp
  then have "mset ?gone \<subseteq># leases_of ?p"
    using mset(1) by (metis mset_subset_eq_add_right subset_mset.order_trans)
  note D = destroy_leases_ok [OF P(1) this]
  have other: "own j (lv_items ?v) = {#}" "own j ?kept = {#}" if "j \<noteq> k" for j
    using owners that by (auto intro!: own_none dest: in_set_takeD)
  show ?thesis
  proof (cases "length (lv_items ?v) = target")
    case True
    then have "c = (?r, ?v, ?p)"
      using Inr by (auto simp: dematerialize_def split: if_splits)
    then show ?thesis
      using ok by (simp add: Inr)
  next
    case False
    define d where "d = destroy_leases ?gone ?p"
    define n where "n = length (lv_items ?v) - target"
    have c: "c = (?r\<lparr>rv_pages := rv_pages ?r + n\<rparr>, ?v\<lparr>lv_items := ?kept\<rparr>, d\<lparr>pp_reserved_pages := pp_reserved_pages d + n\<rparr>)"
      using Inr False cond(2) by (auto simp: dematerialize_def Let_def d_def n_def split: if_splits)
    have "pp_allocated_pages d + n + pp_reserved_pages d \<le> capacity_pages d"
      using D pool_ok_room [OF P(1)] same_pool_capacity [of ?p d] by (simp add: d_def n_def)
    then have "pool_ok (d\<lparr>pp_reserved_pages := pp_reserved_pages d + n\<rparr>)"
      using D by (simp add: pool_ok_reserved d_def)
    then have "sys_ok (s\<lparr>sy_pools := (sy_pools s)[k := snd (snd c)], sy_reservations := (sy_reservations s)[r := fst c],
        sy_vectors := (sy_vectors s)[v := fst (snd c)]\<rparr>)"
      using D paid(1) mset other vector_owners [OF ok v]
      by (intro exchange_ok [OF ok k r v]) (auto simp: c d_def list_all_iff ac_simps dest: in_set_takeD)
    then show ?thesis
      by (simp add: Inr c)
  qed
qed (simp add: ok)


text \<open>A lease in a slot is one of the leases its pool expects.\<close>

lemma slot_lease_current:
  assumes ok: "sys_ok s" and slot: "lease_exists v i s" and owner: "ls_owner (lease_at v i s) = Some k"
  shows "k < length (sy_pools s)" "lease_at v i s \<in># leases_of (sy_pools s ! k)"
proof -
  show k: "k < length (sy_pools s)"
    using sys_owners(2) [OF ok slot owner] .
  have "lease_at v i s \<in># own k (lv_items (sy_vectors s ! v))"
    using slot owner by (simp add: own_def lease_at_def lease_exists_def)
  then show "lease_at v i s \<in># leases_of (sy_pools s ! k)"
    using own_held [of v "sy_vectors s" k] slot sys_okD(4) [OF ok k] by (auto simp: lease_exists_def dest: mset_subset_eqD)
qed

lemma null_lease_owner [simp]: "ls_owner null_lease = None"
  by (simp add: null_lease_def)

text \<open>Replacing a lease by an empty one, with the pool that took the page back.\<close>

lemma drop_slot:
  assumes slot: "lease_exists v i s" and owner: "ls_owner (lease_at v i s) = Some k"
  shows "own k (lv_items (sy_vectors s ! v)) = add_mset (lease_at v i s) (own k ((lv_items (sy_vectors s ! v))[i := null_lease]))"
    and "j \<noteq> k \<Longrightarrow> own j ((lv_items (sy_vectors s ! v))[i := null_lease]) = own j (lv_items (sy_vectors s ! v))"
  using own_update [of i "lv_items (sy_vectors s ! v)" k null_lease]
    own_update [of i "lv_items (sy_vectors s ! v)" j null_lease] slot owner
  by (simp_all add: lease_exists_def lease_at_def)

lemma slot_owners:
  assumes "list_all (\<lambda>l. owner_ok n (ls_owner l)) ls" "owner_ok n (ls_owner l)"
  shows "list_all (\<lambda>l. owner_ok n (ls_owner l)) (ls[i := l])"
  using assms by (auto simp: list_all_iff dest!: set_update_subset_insert [THEN subsetD])

lemma release_slot_ok:
  assumes ok: "sys_ok s" and slot: "lease_exists v i s"
  shows "sys_ok (release_slot v i s) \<and> ls_owner (lease_at v i (release_slot v i s)) = None \<and>
    (\<forall>u j. lease_exists u j (release_slot v i s) = lease_exists u j s) \<and>
    (\<forall>u j. (u, j) \<noteq> (v, i) \<longrightarrow> lease_at u j (release_slot v i s) = lease_at u j s)"
proof (cases "ls_owner (lease_at v i s)")
  case (Some k)
  note L = slot_lease_current [OF ok slot Some]
  note P = sys_okD [OF ok L(1)]
  obtain b l' p' where rel: "lease_release (lease_at v i s) (sy_pools s ! k) = (b, l', p')"
    by (cases "lease_release (lease_at v i s) (sy_pools s ! k)")
  note R = lease_release_ok [OF P(1) L(2) rel]
  note D = drop_slot [OF slot Some]
  have v: "v < length (sy_vectors s)" "i < length (lv_items (sy_vectors s ! v))"
    using slot by (simp_all add: lease_exists_def)
  define t where "t = release_slot v i s"
  have t: "t = s\<lparr>sy_pools := (sy_pools s)[k := p'], sy_reservations := sy_reservations s,
      sy_vectors := (sy_vectors s)[v := (sy_vectors s ! v)\<lparr>lv_items := (lv_items (sy_vectors s ! v))[i := null_lease]\<rparr>]\<rparr>"
    using R by (simp add: t_def release_slot_def Some rel set_lease_def)
  have "sys_ok t"
    using R D P(3) ok vector_owners [OF ok v(1)]
    by (intro lease_change_ok [OF ok L(1) v(1) _ _ _ _ _ _ _ _ t])
      (auto simp: sys_ok_def owners_ok_def intro!: slot_owners)
  moreover have "ls_owner (lease_at v i t) = None" "\<forall>u j. lease_exists u j t = lease_exists u j s"
      "\<forall>u j. (u, j) \<noteq> (v, i) \<longrightarrow> lease_at u j t = lease_at u j s"
    using v by (auto simp: t lease_at_def lease_exists_def nth_list_update)
  ultimately show ?thesis
    unfolding t_def by blast
qed (simp add: release_slot_def ok)

lemma set_lease_sel [simp]:
  "sy_pools (set_lease v i l s) = sy_pools s" "sy_reservations (set_lease v i l s) = sy_reservations s"
  "sy_crashed (set_lease v i l s) = sy_crashed s"
  by (simp_all add: set_lease_def)

lemma multiset_exchange:
  fixes a b c d e f :: "'a multiset"
  assumes "a + b = c + d" "d + e = b + f"
  shows "a + e = c + f"
proof (rule multiset_eqI)
  fix x
  have "count a x + count b x = count c x + count d x" "count d x + count e x = count b x + count f x"
    using assms by (metis count_union)+
  then show "count (a + e) x = count (c + f) x"
    by simp
qed

lemma held_set_lease:
  assumes "lease_exists v i s"
  shows "held k (sy_vectors (set_lease v i l s)) + own k [lease_at v i s] = held k (sy_vectors s) + own k [l]"
proof -
  let ?ls = "lv_items (sy_vectors s ! v)"
  have H: "held k (sy_vectors (set_lease v i l s)) + own k ?ls = held k (sy_vectors s) + own k (?ls[i := l])"
    using held_update [of v "sy_vectors s" k "(sy_vectors s ! v)\<lparr>lv_items := ?ls[i := l]\<rparr>"] assms
    by (simp add: set_lease_def lease_exists_def)
  have U: "own k (?ls[i := l]) + own k [lease_at v i s] = own k ?ls + own k [l]"
    using own_update [of i ?ls k l] assms by (simp only: lease_exists_def lease_at_def)
  show ?thesis
    by (rule multiset_exchange [OF H U])
qed

lemma assign_lease_ok:
  assumes ok: "sys_ok s" and slots: "lease_exists v i s" "lease_exists u j s"
  shows "sys_ok (assign_lease v i u j s)"
proof (cases "v = u \<and> i = j")
  case False
  define s' where "s' = release_slot v i s"
  have s': "sys_ok s'" "lease_exists v i s'" "lease_exists u j s'" "ls_owner (lease_at v i s') = None"
    using release_slot_ok [OF ok slots(1)] slots by (simp_all add: s'_def)
  define l where "l = lease_at u j s'"
  define t where "t = set_lease v i l s'"
  have t: "lease_exists u j t" "lease_at u j t = l"
    using s'(2,3) False by (auto simp: t_def set_lease_def lease_exists_def lease_at_def nth_list_update l_def)
  have "held k (sy_vectors (set_lease u j null_lease t)) = held k (sy_vectors s')" for k
    using held_set_lease [OF t(1), of k null_lease] held_set_lease [OF s'(2), of k l, folded t_def] s'(4) t(2)
    by (cases "ls_owner l = Some k") simp_all
  moreover have "owners_ok (length (sy_pools s')) (sy_reservations s') (sy_vectors (set_lease u j null_lease t))"
  proof -
    have own: "owners_ok (length (sy_pools s')) (sy_reservations s') (sy_vectors s')"
      using s'(1) by (simp add: sys_ok_def)
    have put: "owners_ok n rs (sy_vectors (set_lease w m q x))"
      if "owners_ok n rs (sy_vectors x)" "lease_exists w m x" "owner_ok n (ls_owner q)" for n rs w m q x
      using that by (auto simp: set_lease_def lease_exists_def owners_ok_def list_all_length nth_list_update intro!: slot_owners)
    have "owner_ok (length (sy_pools s')) (ls_owner l)"
      using own s'(3) by (simp add: owners_ok_def list_all_length lease_exists_def l_def lease_at_def)
    then show ?thesis
      unfolding t_def using own s'(2) t(1) by (intro put) (simp_all add: t_def owner_ok_def)
  qed
  ultimately have "sys_ok (set_lease u j null_lease t)"
    using s'(1) by (simp add: sys_ok_def balanced_def t_def)
  then show ?thesis
    using False by (auto simp: assign_lease_def Let_def s'_def t_def l_def)
qed (simp add: assign_lease_def ok)


lemma dematerialize_one_step_ok:
  assumes ok: "sys_ok s" and k: "k < length (sy_pools s)" and r: "r < length (sy_reservations s)" and slot: "lease_exists v i s"
  shows "sys_ok (call_effect (Dematerialize_one k r v i) s)"
proof (cases "dematerialize_one (sy_reservations s ! r) (lease_at v i s) (sy_pools s ! k)")
  case (Inr c)
  let ?r = "sy_reservations s ! r" and ?p = "sy_pools s ! k" and ?l = "lease_at v i s"
  note P = sys_okD [OF ok k]
  obtain b l' p' where rel: "lease_release ?l ?p = (b, l', p')"
    by (cases "lease_release ?l ?p")
  have cond: "reservation_belongs ?r ?p" "?l \<in># leases_of ?p" "ls_owner ?l = Some k"
    using Inr lease_stale_iff [OF P(1)] P(2) by (auto simp: dematerialize_one_def lease_stale_def lease_belongs_def split: if_splits)
  note R = lease_release_ok [OF P(1) cond(2) rel]
  note D = drop_slot [OF slot cond(3)]
  have c: "c = (?r\<lparr>rv_pages := rv_pages ?r + 1\<rparr>, null_lease, p'\<lparr>pp_reserved_pages := pp_reserved_pages p' + 1\<rparr>)"
    using Inr rel R by (auto simp: dematerialize_one_def split: if_splits)
  have v: "v < length (sy_vectors s)"
    using slot by (simp add: lease_exists_def)
  have "pool_ok (p'\<lparr>pp_reserved_pages := pp_reserved_pages p' + 1\<rparr>)"
    using R pool_ok_room [OF P(1)] same_pool_capacity [of ?p p'] by (simp add: pool_ok_reserved)
  then have "sys_ok (set_lease v i null_lease
      (s\<lparr>sy_pools := (sy_pools s)[k := snd (snd c)], sy_reservations := (sy_reservations s)[r := fst c]\<rparr>))"
    using R D sys_paid(1) [OF ok k r cond(1)] vector_owners [OF ok v]
    by (intro exchange_ok [OF ok k r v, of "snd (snd c)" "fst c"
          "(sy_vectors s ! v)\<lparr>lv_items := (lv_items (sy_vectors s ! v))[i := null_lease]\<rparr>"])
      (auto simp: c set_lease_def intro!: slot_owners)
  then show ?thesis
    by (simp add: Inr c)
qed (simp add: ok)

lemma destroy_slots:
  assumes "sys_ok s" "v < length (sy_vectors s)" "n \<le> length (lv_items (sy_vectors s ! v))"
  shows "sys_ok (fold (\<lambda>i. release_slot v i) [0 ..< n] s) \<and>
    (\<forall>u j. lease_exists u j (fold (\<lambda>i. release_slot v i) [0 ..< n] s) = lease_exists u j s) \<and>
    (\<forall>i < n. ls_owner (lease_at v i (fold (\<lambda>i. release_slot v i) [0 ..< n] s)) = None)"
  using assms
proof (induction n)
  case (Suc n)
  define t where "t = fold (\<lambda>i. release_slot v i) [0 ..< n] s"
  have t: "sys_ok t" "\<forall>u j. lease_exists u j t = lease_exists u j s" "\<forall>i < n. ls_owner (lease_at v i t) = None"
    using Suc by (simp_all add: t_def)
  have "lease_exists v n t"
    using t(2) Suc.prems by (simp add: lease_exists_def)
  note R = release_slot_ok [OF t(1) this]
  have "ls_owner (lease_at v i (release_slot v n t)) = None" if "i < Suc n" for i
    using R t(3) that by (cases "i = n") (auto simp: less_Suc_eq)
  moreover have "\<forall>u j. lease_exists u j (release_slot v n t) = lease_exists u j s"
    using R t(2) by simp
  ultimately show ?case
    using R by (simp add: t_def)
qed simp

lemma destroy_vector_ok:
  assumes ok: "sys_ok s" and v: "v < length (sy_vectors s)"
  shows "sys_ok (destroy_vector v s)"
proof -
  define n where "n = length (lv_items (sy_vectors s ! v))"
  define t where "t = fold (\<lambda>i. release_slot v i) [0 ..< n] s"
  have D: "sys_ok t" "\<forall>u j. lease_exists u j t = lease_exists u j s" "\<forall>i < n. ls_owner (lease_at v i t) = None"
    using destroy_slots [OF ok v, of n] by (simp_all add: t_def n_def)
  let ?v = "(sy_vectors t ! v)\<lparr>lv_items := []\<rparr>"
  have "\<not> lease_exists v n t"
    using D(2) by (simp add: lease_exists_def n_def)
  then have len: "v < length (sy_vectors t) \<Longrightarrow> length (lv_items (sy_vectors t ! v)) \<le> n"
    by (simp add: lease_exists_def)
  have "held k ((sy_vectors t)[v := ?v]) = held k (sy_vectors t)" for k
  proof (cases "v < length (sy_vectors t)")
    case True
    have "own k (lv_items (sy_vectors t ! v)) = {#}"
      using D(3) len [OF True] by (intro own_none) (auto simp: in_set_conv_nth lease_at_def)
    then show ?thesis
      using held_update [OF True, of k ?v] by simp
  qed (simp add: list_update_beyond)
  moreover have "owners_ok (length (sy_pools t)) (sy_reservations t) ((sy_vectors t)[v := ?v])"
    using D(1) by (intro owners_ok_update(2)) (simp_all add: sys_ok_def)
  ultimately have "sys_ok (t\<lparr>sy_vectors := (sy_vectors t)[v := ?v]\<rparr>)"
    using D(1) by (simp add: sys_ok_def balanced_def)
  then show ?thesis
    by (simp add: destroy_vector_def Let_def t_def n_def)
qed

lemma zero_pages_step_ok:
  assumes ok: "sys_ok s" and k: "k < length (sy_pools s)"
  shows "sys_ok (call_effect (Zero_pages k hs accepts) s)"
proof (rule sys_change [OF ok k])
  note P = sys_okD [OF ok k]
  define q where "q = snd (validate_distinct_pages hs (sy_pools s ! k))"
  have q: "pool_ok q" "same_accounts (sy_pools s ! k) q"
    using validate_ok [OF P(1), of hs] by (simp_all add: q_def)
  have "pp_self q = k" "pp_reserved_pages q = entitled k (sy_reservations s)"
    using P(2,3) q(2) by (simp_all add: same_accounts_def same_pool_def)
  then show "balanced k (snd (snd (zero_pages accepts hs (sy_pools s ! k)))) (sy_reservations s) (sy_vectors s)"
    unfolding zero_pages_state q_def [symmetric] balanced_def
    using q(1) P(4) same_accounts_facts(3) [OF q(2)] by simp
qed (use ok in \<open>simp_all add: sys_ok_def\<close>)


subsection \<open>Bundles\<close>

definition bundle_made :: "(nat option \<times> nat) list \<Rightarrow> page_reservation list" where
  "bundle_made requests = map (\<lambda>(pool, n). \<lparr>rv_owner = pool, rv_pages = n\<rparr>) requests"

definition bundle_pools :: "(nat option \<times> nat) list \<Rightarrow> page_pool list \<Rightarrow> page_pool list" where
  "bundle_pools requests ps = fold (\<lambda>(pool, n) ps.
     ps[the pool := (ps ! the pool)\<lparr>pp_reserved_pages := pp_reserved_pages (ps ! the pool) + n\<rparr>]) requests ps"

definition bundle_fits :: "page_pool list \<Rightarrow> (nat option \<times> nat) list \<Rightarrow> bool" where
  "bundle_fits ps requests \<longleftrightarrow> distinct (map fst requests) \<and>
     list_all (\<lambda>(pool, n). pool \<noteq> None \<and> 0 < n \<and> n \<le> available_pages (ps ! the pool)) requests"

lemma bundle_check_iff:
  "ok (bundle_check ps earlier requests) \<longleftrightarrow> bundle_fits ps requests \<and> set (map fst requests) \<inter> Some ` set earlier = {}"
proof (induction ps earlier requests rule: bundle_check.induct)
  case (2 ps earlier pool pages requests)
  then show ?case
    by (cases pool) (auto simp: bundle_fits_def)
qed (simp add: bundle_fits_def)

lemma bundle_fits_Cons:
  assumes "bundle_fits ps ((pool, n) # requests)" "the pool < length ps"
  shows "bundle_fits (ps[the pool := q]) requests" "0 < n" "n \<le> available_pages (ps ! the pool)" "pool = Some (the pool)"
proof -
  have "the other \<noteq> the pool" if "(other, m) \<in> set requests" for other m
    using assms(1) that by (force simp: bundle_fits_def list_all_iff)
  then have "ps[the pool := q] ! the other = ps ! the other" if "(other, m) \<in> set requests" for other m
    using that by (metis nth_list_update_neq)
  then show "bundle_fits (ps[the pool := q]) requests"
    using assms(1) by (fastforce simp: bundle_fits_def list_all_iff)
qed (use assms in \<open>auto simp: bundle_fits_def\<close>)

lemma bundle_reserve_exact:
  assumes "bundle_fits ps requests" "list_all (\<lambda>(pool, _). the pool < length ps) requests"
    and "\<forall>k < length ps. pp_self (ps ! k) = k"
  shows "bundle_reserve requests made ps = Returns (Inr (made @ bundle_made requests), bundle_pools requests ps)"
  using assms
proof (induction requests arbitrary: ps made)
  case (Cons request requests)
  obtain pool n where req: "request = (pool, n)"
    by (cases request)
  define k where "k = the pool"
  define q where "q = (ps ! k)\<lparr>pp_reserved_pages := pp_reserved_pages (ps ! k) + n\<rparr>"
  have k: "k < length ps" "pp_self (ps ! k) = k"
    using Cons.prems by (simp_all add: req k_def)
  note F = bundle_fits_Cons [OF Cons.prems(1) [unfolded req] k(1) [unfolded k_def], folded k_def]
  have "reserve n (ps ! k) = (Some \<lparr>rv_owner = pool, rv_pages = n\<rparr>, q)"
    using F(2,3) F(4) k(2) by (simp add: reserve_def q_def)
  moreover have "pp_self (ps[k := q] ! j) = j" if "j < length ps" for j
    using Cons.prems(3) that by (cases "j = k") (simp_all add: q_def)
  ultimately show ?case
    using Cons.IH [of "ps[k := q]" "made @ [\<lparr>rv_owner = pool, rv_pages = n\<rparr>]"] F(1) Cons.prems(2)
    by (simp add: req bundle_made_def bundle_pools_def q_def flip: k_def)
qed (simp add: bundle_made_def bundle_pools_def)

lemma bundle_ok:
  assumes "sys_ok s" "bundle_fits (sy_pools s) requests" "list_all (\<lambda>(pool, _). the pool < length (sy_pools s)) requests"
  shows "sys_ok (s\<lparr>sy_pools := bundle_pools requests (sy_pools s), sy_reservations := sy_reservations s @ bundle_made requests\<rparr>)"
  using assms
proof (induction requests arbitrary: s)
  case (Cons request requests)
  obtain pool n where req: "request = (pool, n)"
    by (cases request)
  define k where "k = the pool"
  have k: "k < length (sy_pools s)"
    using Cons.prems(3) by (simp add: req k_def)
  note F = bundle_fits_Cons [OF Cons.prems(2) [unfolded req] k [unfolded k_def], folded k_def]
  define t where "t = s\<lparr>sy_pools := (sy_pools s)[k := (sy_pools s ! k)\<lparr>pp_reserved_pages := pp_reserved_pages (sy_pools s ! k) + n\<rparr>],
    sy_reservations := sy_reservations s @ [\<lparr>rv_owner = Some k, rv_pages = n\<rparr>]\<rparr>"
  have "sys_ok t"
    unfolding t_def by (rule reserve_ok [OF Cons.prems(1) k F(3)])
  then show ?case
    using Cons.IH [of t] F(1,4) Cons.prems(3) by (simp add: t_def req bundle_made_def bundle_pools_def flip: k_def)
qed (simp add: bundle_made_def bundle_pools_def)

lemma bundle_exact:
  assumes selfs: "\<forall>k < length ps. pp_self (ps ! k) = k"
    and range: "list_all (\<lambda>(pool, _). case pool of None \<Rightarrow> True | Some k \<Rightarrow> k < length ps) requests"
  shows "bundle_fits ps requests \<Longrightarrow>
      reserve_device_kv_page_bundle requests ps = Returns (Inr (bundle_made requests), bundle_pools requests ps)"
    and "\<not> bundle_fits ps requests \<Longrightarrow> \<exists>e. reserve_device_kv_page_bundle requests ps = Returns (Inl e, ps)"
proof -
  have check: "ok (bundle_check ps [] requests) = bundle_fits ps requests"
    by (simp add: bundle_check_iff)
  show "reserve_device_kv_page_bundle requests ps = Returns (Inr (bundle_made requests), bundle_pools requests ps)"
    if fits: "bundle_fits ps requests"
  proof -
    have "list_all (\<lambda>(pool, _). the pool < length ps) requests"
      using range fits by (force simp: list_all_iff bundle_fits_def)
    then show ?thesis
      using check fits bundle_reserve_exact [OF fits _ selfs, of "[]"]
      by (cases "bundle_check ps [] requests") (simp_all add: reserve_device_kv_page_bundle_def)
  qed
  show "\<exists>e. reserve_device_kv_page_bundle requests ps = Returns (Inl e, ps)" if "\<not> bundle_fits ps requests"
    using check that by (cases "bundle_check ps [] requests") (simp_all add: reserve_device_kv_page_bundle_def)
qed

lemma bundle_step_ok:
  assumes ok: "sys_ok s" and possible: "call_possible (Reserve_bundle requests) s"
  shows "sys_ok (call_effect (Reserve_bundle requests) s)"
proof -
  have selfs: "\<forall>k < length (sy_pools s). pp_self (sy_pools s ! k) = k"
    using sys_okD(2) [OF ok] by blast
  note B = bundle_exact [OF selfs, of requests]
  show ?thesis
  proof (cases "bundle_fits (sy_pools s) requests")
    case True
    moreover have "list_all (\<lambda>(pool, _). the pool < length (sy_pools s)) requests"
      using possible True by (force simp: list_all_iff bundle_fits_def)
    ultimately show ?thesis
      using B(1) possible bundle_ok [OF ok] by (simp add: settle_def)
  next
    case False
    then obtain e where "reserve_device_kv_page_bundle requests (sy_pools s) = Returns (Inl e, sy_pools s)"
      using B(2) possible by auto
    then show ?thesis
      using ok by (simp add: settle_def)
  qed
qed

subsection \<open>Every call keeps the invariant\<close>

lemma reserve_step_ok:
  assumes ok: "sys_ok s" and k: "k < length (sy_pools s)"
  shows "sys_ok (call_effect (Reserve k n) s)"
  using reserve_ok [OF ok k, of n] sys_okD(2) [OF ok k] ok by (simp add: reserve_def)

lemma reserve_empty_step_ok:
  assumes ok: "sys_ok s" and k: "k < length (sy_pools s)"
  shows "sys_ok (call_effect (Reserve_empty k) s)"
  using reserve_ok [OF ok k, of 0] sys_okD(2) [OF ok k] by (simp add: make_empty_reservation_def)

lemma call_effect_ok:
  assumes "sys_ok s" "call_possible c s"
  shows "sys_ok (call_effect c s)"
  using assms
  by (cases c) (simp_all del: call_effect.simps(1-4,9-12,16) add: reserve_step_ok reserve_empty_step_ok bundle_step_ok resize_ok
      clear_entitlement_ok release_entitlement_ok assign_reservation_ok new_vector_ok materialize_step_ok
      materialize_one_step_ok dematerialize_step_ok dematerialize_one_step_ok release_slot_ok assign_lease_ok
      destroy_vector_ok zero_pages_step_ok)

interpretation page_clients: call_system client_step sys_ok
  by unfold_locales (simp add: client_step_def call_effect_ok)


section \<open>From construction on\<close>

fun construct_pools :: "nat \<Rightarrow> (device_span \<times> page_pool_layout) list \<Rightarrow> exn + page_pool list" where
  "construct_pools k [] = Inr []"
| "construct_pools k ((backing, layout) # configs) =
     bindE (pool_construct k backing layout) (\<lambda>p.
     bindE (construct_pools (Suc k) configs) (\<lambda>ps. Inr (p # ps)))"

lemma pool_construct_ok:
  assumes "pool_construct k backing layout = Inr p"
  shows "pool_ok p" "pp_self p = k" "pp_reserved_pages p = 0" "leases_of p = {#}"
proof -
  define n where "n = ps_page_group_count (pq_spec layout)"
  have p: "capacity_pages p = n" "pp_free_runs p = [\<lparr>fr_begin = 0, fr_count = n\<rparr>]" "pp_generations p = replicate n 1"
      "pp_allocated p = replicate n False" "pp_marks p = replicate n 0" "pp_allocated_pages p = 0"
      "pp_reserved_pages p = 0" "pp_self p = k"
    using assms by (auto simp: pool_construct_def Let_def bindE_Inr capacity_pages_def n_def split: if_splits)
  have n: "0 < n"
    using assms by (auto simp: pool_construct_def Let_def bindE_Inr checked_i32_def n_def split: if_splits)
  have "free_pages (replicate n False) = {0 ..< n}" and used: "used_pages (replicate n False) = {}"
    by (auto simp: free_pages_def used_pages_def)
  then show "pool_ok p"
    using n by (auto simp: pool_ok_def p runs_match_def runs_ok_def run_pages_def fr_end_def list_all_iff)
  show "leases_of p = {#}"
    by (simp add: leases_of_def p used)
qed (use assms in \<open>auto simp: pool_construct_def Let_def bindE_Inr split: if_splits\<close>)

lemma construct_pools_ok:
  "construct_pools k configs = Inr ps \<Longrightarrow>
     \<forall>j < length ps. pool_ok (ps ! j) \<and> pp_self (ps ! j) = k + j \<and> pp_reserved_pages (ps ! j) = 0 \<and> leases_of (ps ! j) = {#}"
proof (induction k configs arbitrary: ps rule: construct_pools.induct)
  case (2 k backing layout configs)
  obtain p qs where p: "pool_construct k backing layout = Inr p" "construct_pools (Suc k) configs = Inr qs" "ps = p # qs"
    using 2(2) by (auto simp: bindE_Inr)
  note IH = 2(1) [OF p(2)]
  show ?case
  proof (intro allI impI)
    fix j assume "j < length ps"
    then show "pool_ok (ps ! j) \<and> pp_self (ps ! j) = k + j \<and> pp_reserved_pages (ps ! j) = 0 \<and> leases_of (ps ! j) = {#}"
      using IH pool_construct_ok [OF p(1)] by (cases j) (auto simp: p(3))
  qed
qed simp

lemma system_start_ok: "construct_pools 0 configs = Inr ps \<Longrightarrow> sys_ok (system_start ps)"
  using construct_pools_ok [of 0 configs ps] by (simp add: sys_ok_def system_start_def owners_ok_def balanced_def)

lemma page_system_reachable: "construct_pools 0 configs = Inr ps \<Longrightarrow> sys_ok (fold client_step calls (system_start ps))"
  by (intro page_clients.run_inv system_start_ok)

text \<open>What no call changes: the pools there are, and the address, the layout and the planes of each.\<close>

definition skeleton :: "page_pool list \<Rightarrow> (nat \<times> page_pool_spec \<times> tensor list) list" where
  "skeleton ps = map (\<lambda>p. (pp_self p, pp_spec p, pp_planes p)) ps"

lemma skeleton_update [simp]: "same_pool (ps ! k) q \<Longrightarrow> skeleton (ps[k := q]) = skeleton ps"
proof (cases "k < length ps")
  case True
  assume "same_pool (ps ! k) q"
  then have "(pp_self q, pp_spec q, pp_planes q) = map (\<lambda>p. (pp_self p, pp_spec p, pp_planes p)) ps ! k"
    using True by (simp add: same_pool_def)
  then show ?thesis
    by (simp only: skeleton_def map_update list_update_id)
qed (simp add: list_update_beyond)

lemma same_pool_trans: "same_pool p q \<Longrightarrow> same_pool q q' \<Longrightarrow> same_pool p q'"
  by (simp add: same_pool_def)

lemma release_page_same [simp]: "same_pool p (release_page i g p)"
  by (simp add: release_page_def same_pool_def Let_def)

lemma lease_release_same: "lease_release l p = (b, l', p') \<Longrightarrow> same_pool p p'"
  by (auto simp: lease_release_def split: if_splits)

lemma destroy_leases_same: "same_pool p (destroy_leases ls p)"
proof (induction ls arbitrary: p)
  case (Cons l ls)
  obtain b l' p' where "lease_release l p = (b, l', p')"
    by (cases "lease_release l p")
  then show ?case
    using Cons.IH [of p'] lease_release_same [of l p] by (auto simp: destroy_leases_def intro: same_pool_trans)
qed (simp add: destroy_leases_def)

lemma reservation_calls_same:
  "reserve n p = (r, p') \<Longrightarrow> same_pool p p'" "resize_reservation rv n p = Inr (rv', p') \<Longrightarrow> same_pool p p'"
  "reservation_release rv p = Returns (rv', p') \<Longrightarrow> same_pool p p'" "reservation_clear rv p = Returns (rv', p') \<Longrightarrow> same_pool p p'"
  by (auto simp: reserve_def resize_reservation_def reservation_release_def reservation_clear_def release_reservation_def
      split: if_splits outcome.splits)

lemma lease_calls_same:
  "materialize rv target v h p = Returns (rv', v', p') \<Longrightarrow> same_pool p p'"
  "materialize_one rv p = Inr (l, rv', p') \<Longrightarrow> same_pool p p'"
  "dematerialize rv target v p = Inr (rv', v', p') \<Longrightarrow> same_pool p p'"
  "dematerialize_one rv l p = Inr (rv', l', p') \<Longrightarrow> same_pool p p'"
proof -
  show "materialize rv target v h p = Returns (rv', v', p') \<Longrightarrow> same_pool p p'"
    by (auto simp: materialize_def adopt_pages_def same_pool_def Let_def split: if_splits sum.splits outcome.splits)
  show "materialize_one rv p = Inr (l, rv', p') \<Longrightarrow> same_pool p p'"
    by (auto simp: materialize_one_def same_pool_def Let_def split: if_splits list.splits)
  show "dematerialize rv target v p = Inr (rv', v', p') \<Longrightarrow> same_pool p p'"
    by (auto simp: dematerialize_def Let_def destroy_leases_same split: if_splits)
  show "dematerialize_one rv l p = Inr (rv', l', p') \<Longrightarrow> same_pool p p'"
    by (auto simp: dematerialize_one_def split: if_splits prod.splits dest: lease_release_same)
qed

lemmas calls_same = reservation_calls_same lease_calls_same lease_release_same

lemma destroy_reservations_skeleton: "destroy_reservations rs ps = Returns ps' \<Longrightarrow> skeleton ps' = skeleton ps"
  by (induction rs ps rule: destroy_reservations.induct)
    (auto split: option.splits outcome.splits prod.splits dest: calls_same)

lemma bundle_reserve_skeleton: "bundle_reserve requests made ps = Returns (r, ps') \<Longrightarrow> skeleton ps' = skeleton ps"
  by (induction requests made ps rule: bundle_reserve.induct)
    (auto split: option.splits outcome.splits prod.splits dest: destroy_reservations_skeleton calls_same)

lemma bundle_skeleton: "reserve_device_kv_page_bundle requests ps = Returns (r, ps') \<Longrightarrow> skeleton ps' = skeleton ps"
  by (auto simp: reserve_device_kv_page_bundle_def split: sum.splits dest: bundle_reserve_skeleton)

lemma settle_skeleton:
  assumes "\<And>x. r = Returns x \<Longrightarrow> skeleton (sy_pools (f x)) = skeleton (sy_pools s)"
  shows "skeleton (sy_pools (settle r f s)) = skeleton (sy_pools s)"
  using assms by (cases r) (simp_all add: settle_def)

lemma release_slot_skeleton [simp]: "skeleton (sy_pools (release_slot v i s)) = skeleton (sy_pools s)"
  by (auto simp: release_slot_def split: option.split prod.split dest: calls_same)

lemma release_slots_skeleton: "skeleton (sy_pools (fold (\<lambda>i. release_slot v i) is s)) = skeleton (sy_pools s)"
  by (induction "is" arbitrary: s) simp_all

lemma entitlement_skeleton [simp]:
  "skeleton (sy_pools (release_entitlement r s)) = skeleton (sy_pools s)"
  "skeleton (sy_pools (clear_entitlement r s)) = skeleton (sy_pools s)"
  by (auto simp: release_entitlement_def clear_entitlement_def intro!: settle_skeleton split: option.split dest: calls_same)

lemma call_effect_skeleton:
  assumes "sys_ok s" "call_possible c s"
  shows "skeleton (sy_pools (call_effect c s)) = skeleton (sy_pools s)"
proof (cases c)
  case (Reserve_bundle requests)
  then show ?thesis
    by (auto intro!: settle_skeleton dest: bundle_skeleton)
next
  case (Zero_pages k hs accepts)
  then show ?thesis
    using validate_ok [OF sys_okD(1) [OF assms(1), of k], of hs] assms(2)
    by (simp add: zero_pages_state same_accounts_def)
next
  case (Materialize k r target v h)
  then show ?thesis
    by (auto intro!: settle_skeleton dest: calls_same)
qed (auto simp: assign_lease_def destroy_vector_def assign_reservation_def Let_def release_slots_skeleton
    split: option.split sum.split prod.split dest: calls_same)

lemma run_skeleton: "sys_ok s \<Longrightarrow> skeleton (sy_pools (fold client_step calls s)) = skeleton (sy_pools s)"
proof (induction calls arbitrary: s)
  case (Cons c calls)
  have "skeleton (sy_pools (client_step c s)) = skeleton (sy_pools s)"
    using Cons.prems by (simp add: client_step_def call_effect_skeleton)
  then show ?case
    using Cons.IH [OF page_clients.step_inv [OF Cons.prems]] by simp
qed simp

lemma reachable_pools:
  assumes "construct_pools 0 configs = Inr ps"
  shows "length (sy_pools (fold client_step calls (system_start ps))) = length ps"
    and "k < length ps \<Longrightarrow> same_pool (ps ! k) (sy_pools (fold client_step calls (system_start ps)) ! k)"
proof -
  have sk: "skeleton (sy_pools (fold client_step calls (system_start ps))) = skeleton ps"
    using run_skeleton [OF system_start_ok [OF assms]] by (simp add: system_start_def)
  then show len: "length (sy_pools (fold client_step calls (system_start ps))) = length ps"
    by (metis skeleton_def length_map)
  show "same_pool (ps ! k) (sy_pools (fold client_step calls (system_start ps)) ! k)" if "k < length ps"
    using arg_cong [OF sk, of "\<lambda>xs. xs ! k"] that len by (simp add: skeleton_def same_pool_def)
qed

section \<open>Properties\<close>

text \<open>
  C27. Two pools or more, constructed on their layouts, and any sequence of client calls: reservations and
  their assignment, resizing and release, bundles, materialization and its reverse, moves and destruction of
  leases, zeroing. In the state reached nothing has crashed, and in every pool the free runs are sorted,
  nonempty, separated by pages in use, inside the capacity and cover exactly the pages not in use; every page
  in use has exactly one lease among all the vectors of all clients, with the current generation, and no
  other lease of the pool exists; the counter of pages in use is exact, the counter of reserved pages is the
  sum over the living reservations of the pool, and both together never exceed the capacity.
\<close>

theorem device_pages_accounted:
  assumes "construct_pools 0 configs = Inr ps" and "s = fold client_step calls (system_start ps)" and "k < length ps"
    and "p = sy_pools s ! k"
  shows "\<not> sy_crashed s \<and>
    sorted_wrt (\<lambda>q r. fr_end q < fr_begin r) (pp_free_runs p) \<and>
    list_all (\<lambda>r. 0 < fr_count r \<and> fr_end r \<le> capacity_pages p) (pp_free_runs p) \<and>
    (\<Union>r \<in> set (pp_free_runs p). {fr_begin r ..< fr_end r}) = {i. i < capacity_pages p \<and> \<not> pp_allocated p ! i} \<and>
    filter_mset (\<lambda>l. ls_owner l = Some k) (mset (concat (map lv_items (sy_vectors s)))) =
      image_mset (new_lease p) (mset_set {i. i < capacity_pages p \<and> pp_allocated p ! i}) \<and>
    pp_allocated_pages p = card {i. i < capacity_pages p \<and> pp_allocated p ! i} \<and>
    pp_reserved_pages p = sum_list (map rv_pages (filter (\<lambda>r. rv_owner r = Some k) (sy_reservations s))) \<and>
    pp_allocated_pages p + pp_reserved_pages p \<le> capacity_pages p"
proof -
  have ok: "sys_ok s"
    using page_system_reachable [OF assms(1)] assms(2) by simp
  have k: "k < length (sy_pools s)"
    using assms(2,3) by (simp add: reachable_pools(1) [OF assms(1)])
  note P = sys_okD [OF ok k, folded assms(4)]
  have len: "length (pp_allocated p) = capacity_pages p" and match: "runs_match (pp_allocated p) (pp_free_runs p)"
      and counted: "pp_allocated_pages p = card (used_pages (pp_allocated p))"
    using P(1) by (simp_all add: pool_ok_def)
  have used: "used_pages (pp_allocated p) = {i. i < capacity_pages p \<and> pp_allocated p ! i}"
      and free: "free_pages (pp_allocated p) = {i. i < capacity_pages p \<and> \<not> pp_allocated p ! i}"
    by (simp_all add: used_pages_def free_pages_def len)
  have entitled: "entitled k rs = sum_list (map rv_pages (filter (\<lambda>r. rv_owner r = Some k) rs))" for rs
    by (induction rs) (simp_all add: amount_def)
  have "filter_mset (\<lambda>l. ls_owner l = Some k) (mset (concat (map lv_items (sy_vectors s)))) =
      image_mset (new_lease p) (mset_set {i. i < capacity_pages p \<and> pp_allocated p ! i})"
    using P(4) by (simp add: held_def own_def leases_of_def used)
  moreover have "\<not> sy_crashed s"
    using ok by (simp add: sys_ok_def)
  ultimately show ?thesis
    using match P(3) pool_ok_room [OF P(1)] counted
    by (simp add: runs_match_def runs_ok_def runs_pages_def run_pages_def len free used entitled)
qed

text \<open>
  C7. Materialization in any reachable state. It throws \<open>invalid_argument\<close> exactly when the reservation is of
  another pool, the target is below the present size, above the capacity of the vector or beyond what the
  reservation pays for, a lease of the vector is stale, or (with pages to add) the given predecessor is
  stale. Otherwise it appends leases for the pages that the reference placement on the page flags names:
  directly behind the predecessor, or behind the last lease of the vector, when all those pages are free,
  else the lowest free interval of that length, else the lowest free pages; so many distinct pages that were
  free before. It never throws \<open>logic_error\<close>, never terminates and never runs past the free runs.
\<close>

theorem materialize_places_pages:
  assumes "construct_pools 0 configs = Inr ps" and "s = fold client_step calls (system_start ps)" and "k < length ps"
    and "r < length (sy_reservations s)" and "v < length (sy_vectors s)"
    and "p = sy_pools s ! k" and "rv = sy_reservations s ! r" and "vec = sy_vectors s ! v" and "n = target - length (lv_items vec)"
  shows "\<exists>runs. materialize rv target vec h p =
      (if \<not> reservation_belongs rv p \<or> target < length (lv_items vec) \<or> rv_pages rv < n \<or> lv_capacity vec < target \<or>
          list_ex (lease_stale p) (lv_items vec) then Throws Invalid_argument
       else if n = 0 then Returns (rv, vec, p)
       else case preferred_page h (lv_items vec) p of
         Inl e \<Rightarrow> Throws e
       | Inr preferred \<Rightarrow>
           let pages = placement preferred n (pp_allocated p) in
           Returns (rv\<lparr>rv_pages := rv_pages rv - n\<rparr>, vec\<lparr>lv_items := lv_items vec @ map (new_lease p) pages\<rparr>,
             p\<lparr>pp_allocated := mark_allocated pages (pp_allocated p), pp_free_runs := runs,
               pp_allocated_pages := pp_allocated_pages p + n, pp_reserved_pages := pp_reserved_pages p - n\<rparr>)) \<and>
    (reservation_belongs rv p \<and> 0 < n \<and> n \<le> rv_pages rv \<longrightarrow>
      (\<forall>preferred. let pages = placement preferred n (pp_allocated p) in
        length pages = n \<and> distinct pages \<and> list_all (\<lambda>i. i < capacity_pages p \<and> \<not> pp_allocated p ! i) pages))"
proof -
  have ok: "sys_ok s"
    using page_system_reachable [OF assms(1)] assms(2) by simp
  have k: "k < length (sy_pools s)"
    using assms(2,3) by (simp add: reachable_pools(1) [OF assms(1)])
  note P = sys_okD [OF ok k, folded assms(6)]
  note paid = sys_paid(2) [OF ok k assms(4), folded assms(6,7)]
  note M = materialize_exact [OF P(1) paid, where v = vec and target = target and h = h, folded assms(9)]
  have refused: "materialize_refused rv target vec p \<longleftrightarrow> \<not> reservation_belongs rv p \<or> target < length (lv_items vec) \<or>
      rv_pages rv < n \<or> lv_capacity vec < target \<or> list_ex (lease_stale p) (lv_items vec)"
    by (simp add: materialize_refused_def assms(9))
  have pages: "\<forall>preferred. let pages = placement preferred n (pp_allocated p) in
      length pages = n \<and> distinct pages \<and> list_all (\<lambda>i. i < capacity_pages p \<and> \<not> pp_allocated p ! i) pages"
    if "reservation_belongs rv p \<and> 0 < n \<and> n \<le> rv_pages rv"
  proof
    fix preferred
    have "n \<le> card (free_pages (pp_allocated p))" "length (pp_allocated p) = capacity_pages p"
      using that paid P(1) by (auto simp: pool_ok_def card_free_pages)
    then show "let pages = placement preferred n (pp_allocated p) in
      length pages = n \<and> distinct pages \<and> list_all (\<lambda>i. i < capacity_pages p \<and> \<not> pp_allocated p ! i) pages"
      using take_pages_ok [of "pp_allocated p" "pp_free_runs p" n preferred] that P(1)
      by (auto simp: pool_ok_def taken_ok_def free_pages_def list_all_iff Let_def)
  qed
  obtain runs where run: "materialize rv target vec h p =
      (if materialize_refused rv target vec p then Throws Invalid_argument
       else if n = 0 then Returns (rv, vec, p)
       else case preferred_page h (lv_items vec) p of Inl e \<Rightarrow> Throws e
       | Inr preferred \<Rightarrow> Returns (adopt_pages rv vec n (placement preferred n (pp_allocated p), runs) p))"
  proof (cases "materialize_refused rv target vec p \<or> n = 0 \<or> (\<exists>e. preferred_page h (lv_items vec) p = Inl e)")
    case True
    then show ?thesis
      using M(1-3) that [of "[]"] by (cases "materialize_refused rv target vec p"; cases "n = 0") auto
  next
    case False
    then obtain preferred where "preferred_page h (lv_items vec) p = Inr preferred"
      by (cases "preferred_page h (lv_items vec) p") auto
    then show ?thesis
      using M(4) [of preferred] False that by auto
  qed
  show ?thesis
    using pages by (intro exI [of _ runs] conjI) (simp only: run refused adopt_pages_def Let_def fst_conv snd_conv, blast)
qed

text \<open>
  A bundle names each pool once, asks each for some pages that are available, and then reserves them all;
  otherwise it throws and no pool changes.
\<close>

theorem bundle_all_or_nothing:
  assumes "construct_pools 0 configs = Inr ps" and "s = fold client_step calls (system_start ps)"
    and "list_all (\<lambda>(pool, _). case pool of None \<Rightarrow> True | Some k \<Rightarrow> k < length ps) requests"
  shows "if distinct (map fst requests) \<and>
      list_all (\<lambda>(pool, n). pool \<noteq> None \<and> 0 < n \<and> n \<le> available_pages (sy_pools s ! the pool)) requests
    then reserve_device_kv_page_bundle requests (sy_pools s) =
      Returns (Inr (bundle_made requests), bundle_pools requests (sy_pools s))
    else \<exists>e. reserve_device_kv_page_bundle requests (sy_pools s) = Returns (Inl e, sy_pools s)"
proof -
  have ok: "sys_ok s"
    using page_system_reachable [OF assms(1)] assms(2) by simp
  have len: "length (sy_pools s) = length ps"
    by (simp add: assms(2) reachable_pools(1) [OF assms(1)])
  have "\<forall>k < length (sy_pools s). pp_self (sy_pools s ! k) = k"
      "list_all (\<lambda>(pool, _). case pool of None \<Rightarrow> True | Some k \<Rightarrow> k < length (sy_pools s)) requests"
    using sys_okD(2) [OF ok] assms(3) unfolding len by simp_all
  note B = bundle_exact [OF this]
  show ?thesis
    unfolding bundle_fits_def [symmetric] using B by simp
qed

section \<open>Witnesses\<close>

definition sample_spec :: page_pool_spec where
  "sample_spec = \<lparr>ps_page_group_count = 6, ps_geometry = \<lparr>gm_page_tokens = 64, gm_device_plane_order = PageMajor,
     gm_planes = [\<lparr>pg_dtype = U8, pg_leading_extent = 2, pg_head_extent = 1, pg_alignment = 256\<rparr>],
     gm_oscar_layout = Contiguous\<rparr>\<rparr>"

definition sample_config :: "device_span \<times> page_pool_layout" where
  "sample_config = (\<lparr>ds_data = 4096, ds_bytes = 4096\<rparr>,
     \<lparr>pq_spec = sample_spec, pq_planes = [\<lparr>pv_geometry = hd (gm_planes (ps_geometry sample_spec)),
        pv_storage = \<lparr>tr_region = \<lparr>lr_offset = 0, lr_bytes = 768, lr_alignment = 256\<rparr>, tr_dtype = U8, tr_shape = [2, 64, 1, 6]\<rparr>\<rparr>]\<rparr>)"

lemma sample_planned: "plan_device_kv_page_pool sample_spec layout_builder_new = Inr (snd sample_config, \<lparr>lb_cursor = 768, lb_peak = 768\<rparr>)"
  by code_simp

definition sample_calls :: "client_call list" where
  "sample_calls = [Reserve 0 5, New_vector 4, Materialize 0 0 3 0 None, Release_lease 0 1, Materialize_one 0 0,
     Reserve_bundle [(Some 0, 1)], Resize 0 0 0, New_vector 4]"


definition sample_pool :: page_pool where
  "sample_pool = \<lparr>pp_self = 0, pp_spec = sample_spec,
     pp_planes = [\<lparr>data = 4096, dtype = U8, ne = [2, 64, 1, 6], nb = [1, 2, 128, 128]\<rparr>],
     pp_free_runs = [\<lparr>fr_begin = 0, fr_count = 6\<rparr>], pp_generations = [1, 1, 1, 1, 1, 1],
     pp_allocated = [False, False, False, False, False, False], pp_marks = [0, 0, 0, 0, 0, 0], pp_stamp = 0,
     pp_allocated_pages = 0, pp_reserved_pages = 0\<rparr>"

lemma sample_constructed: "construct_pools 0 [sample_config] = Inr [sample_pool]"
  by code_simp

definition sample_state :: page_system where
  "sample_state = fold client_step sample_calls (system_start [sample_pool])"

lemma sample_state_values:
  "pp_free_runs (sy_pools sample_state ! 0) = [\<lparr>fr_begin = 3, fr_count = 3\<rparr>] \<and>
   pp_allocated (sy_pools sample_state ! 0) = [True, True, True, False, False, False] \<and>
   sy_reservations sample_state = [\<lparr>rv_owner = Some 0, rv_pages = 0\<rparr>, \<lparr>rv_owner = Some 0, rv_pages = 1\<rparr>] \<and>
   length (sy_vectors sample_state) = 3"
  by code_simp

text \<open>
  Five pages reserved, three materialized, the middle one given back and taken again by a single-page call,
  one page reserved by a bundle, the rest of the first reservation given up.
\<close>

theorem device_pages_accounted_witness:
  "\<not> sy_crashed sample_state \<and> pp_reserved_pages (sy_pools sample_state ! 0) = 1 \<and>
   {3 ..< 6} = {i. i < capacity_pages (sy_pools sample_state ! 0) \<and> \<not> pp_allocated (sy_pools sample_state ! 0) ! i}"
proof -
  note W = device_pages_accounted [OF sample_constructed sample_state_def _ refl, of 0]
  have "(\<Union>r \<in> set (pp_free_runs (sy_pools sample_state ! 0)). {fr_begin r ..< fr_end r}) = {3 ..< 6}"
    using sample_state_values by (auto simp: fr_end_def)
  then show ?thesis
    using W sample_state_values by simp
qed

text \<open>The page of the bundle, behind the last page in use.\<close>

theorem materialize_places_pages_witness:
  "\<exists>runs. materialize (sy_reservations sample_state ! 1) 1 (sy_vectors sample_state ! 2)
       (Some (lease_handle (lv_items (sy_vectors sample_state ! 0) ! 2))) (sy_pools sample_state ! 0) =
     Returns (\<lparr>rv_owner = Some 0, rv_pages = 0\<rparr>,
       \<lparr>lv_items = [new_lease (sy_pools sample_state ! 0) 3], lv_capacity = 4\<rparr>,
       (sy_pools sample_state ! 0)\<lparr>pp_allocated := [True, True, True, True, False, False], pp_free_runs := runs,
         pp_allocated_pages := 4, pp_reserved_pages := 0\<rparr>)"
proof -
  let ?p = "sy_pools sample_state ! 0" and ?r = "sy_reservations sample_state ! 1" and ?v = "sy_vectors sample_state ! 2"
    and ?h = "Some (lease_handle (lv_items (sy_vectors sample_state ! 0) ! 2))"
  have facts: "reservation_belongs ?r ?p \<and> ?r = \<lparr>rv_owner = Some 0, rv_pages = 1\<rparr> \<and> ?v = \<lparr>lv_items = [], lv_capacity = 4\<rparr> \<and>
      preferred_page ?h [] ?p = Inr (Some 3) \<and> placement (Some 3) 1 (pp_allocated ?p) = [3] \<and>
      mark_allocated [3] (pp_allocated ?p) = [True, True, True, True, False, False] \<and>
      pp_allocated_pages ?p = 3 \<and> pp_reserved_pages ?p = 1"
    by code_simp
  have "1 < length (sy_reservations sample_state)" "2 < length (sy_vectors sample_state)"
    using sample_state_values by simp_all
  note W = materialize_places_pages [OF sample_constructed sample_state_def _ this refl refl refl refl, of 0 1 ?h]
  obtain runs where "materialize ?r 1 ?v ?h ?p =
      Returns (?r\<lparr>rv_pages := rv_pages ?r - 1\<rparr>, ?v\<lparr>lv_items := lv_items ?v @ map (new_lease ?p) [3]\<rparr>,
        ?p\<lparr>pp_allocated := mark_allocated [3] (pp_allocated ?p), pp_free_runs := runs,
          pp_allocated_pages := pp_allocated_pages ?p + 1, pp_reserved_pages := pp_reserved_pages ?p - 1\<rparr>)"
    using W facts by (auto simp: Let_def)
  then show ?thesis
    using facts by auto
qed

end
