(* ===== verification/Device_KV_Transfer.thy ===== *)
theory Device_KV_Transfer
  imports Device_KV_System
begin

text \<open>
  What the page operations of \<open>DeviceKVPagePool\<close> (\<open>src/core/paged_kv_cache.cpp\<close>) do to the bytes of the planes:
  \<open>validate_distinct_pages\<close>, whose stamps may wrap, accepts exactly the lists of current and distinct pages,
  and the calls that \<open>zero_pages\<close> and \<open>copy_page\<close> issue touch exactly the bytes of those pages, in both orders
  of the page and the head dimension.
\<close>

section \<open>Validation\<close>

definition marked :: "page_pool \<Rightarrow> nat \<Rightarrow> bool" where
  "marked p i \<longleftrightarrow> pp_marks p ! i = pp_stamp p"

lemma mark_pages_exact:
  assumes "length (pp_marks p) = capacity_pages p"
  shows "fst (mark_pages hs p) =
    (if list_all (\<lambda>h. valid_page h p \<and> \<not> marked p (nat (ph_index h))) hs \<and> distinct (map ph_index hs)
     then Inr () else Inl Invalid_argument)"
  using assms
proof (induction hs arbitrary: p)
  case (Cons h hs)
  show ?case
  proof (cases "valid_page h p \<and> \<not> marked p (nat (ph_index h))")
    case True
    define i where "i = nat (ph_index h)"
    define q where "q = p\<lparr>pp_marks := (pp_marks p)[i := pp_stamp p]\<rparr>"
    have i: "i < capacity_pages p" "ph_index h = int i"
      using True by (auto simp: valid_page_def i_def)
    have q: "valid_page h' q = valid_page h' p" "marked q j \<longleftrightarrow> j = i \<or> marked p j" for h' j
      using i(1) Cons.prems by (auto simp: q_def valid_page_def capacity_pages_def marked_def nth_list_update)
    have step: "fst (mark_pages (h # hs) p) = fst (mark_pages hs q)"
      using True by (simp add: physical_index_def marked_def q_def i_def)
    have one: "valid_page h' q \<and> \<not> marked q (nat (ph_index h')) \<longleftrightarrow>
        (valid_page h' p \<and> \<not> marked p (nat (ph_index h'))) \<and> ph_index h' \<noteq> ph_index h" for h'
    proof -
      have "0 \<le> ph_index h'" if "valid_page h' p"
        using that by (simp add: valid_page_def)
      then show ?thesis
        unfolding q(1) using i(2) by (auto simp: q(2))
    qed
    have conv: "list_all (\<lambda>h. valid_page h q \<and> \<not> marked q (nat (ph_index h))) hs \<and> distinct (map ph_index hs) \<longleftrightarrow>
        list_all (\<lambda>h. valid_page h p \<and> \<not> marked p (nat (ph_index h))) (h # hs) \<and> distinct (map ph_index (h # hs))"
      unfolding one using True by (auto simp: list_all_iff image_iff)
    have "length (pp_marks q) = capacity_pages q"
      using Cons.prems by (simp add: q_def capacity_pages_def)
    from Cons.IH [OF this] show ?thesis
      unfolding step conv .
  qed (auto simp: physical_index_def marked_def)
qed simp

lemma validate_distinct_exact:
  assumes "pool_ok p"
  shows "fst (validate_distinct_pages hs p) =
    (if list_all (\<lambda>h. valid_page h p) hs \<and> distinct (map ph_index hs) then Inr () else Inl Invalid_argument)"
proof -
  note N = next_stamp_ok [OF assms]
  have same: "valid_page h (next_stamp p) = valid_page h p" for h
    using N same_accounts_facts(2) by blast
  have len: "length (pp_marks (next_stamp p)) = capacity_pages (next_stamp p)"
    using N by (simp add: pool_ok_def)
  have "\<not> marked (next_stamp p) (nat (ph_index h))" if "valid_page h p" for h
  proof -
    have "nat (ph_index h) < length (pp_marks (next_stamp p))"
      using that same [of h] len by (auto simp: valid_page_def)
    then show ?thesis
      using N by (auto simp: marked_def list_all_length)
  qed
  then show ?thesis
    unfolding validate_distinct_pages_def mark_pages_exact [OF len] same by (auto simp: list_all_iff)
qed

section \<open>The bytes of a page\<close>

text \<open>The position of the page dimension in the shape of a plane.\<close>

definition page_dim :: "paged_kv_plane_order \<Rightarrow> nat" where
  "page_dim ord = (case ord of PageMajor \<Rightarrow> 3 | HeadMajor \<Rightarrow> 2)"

text \<open>The bytes of the elements of a page, as offsets from the start of the plane.\<close>

definition page_bytes :: "paged_kv_plane_order \<Rightarrow> tensor \<Rightarrow> int \<Rightarrow> int set" where
  "page_bytes ord t i =
     {element_offset t idx + x | idx x. in_range t idx \<and> idx ! page_dim ord = i \<and> 0 \<le> x \<and> x < dtype_size (dtype t)}"

definition pool_order :: "page_pool \<Rightarrow> paged_kv_plane_order" where
  "pool_order p = gm_device_plane_order (ps_geometry (pp_spec p))"

text \<open>A plane as the constructor binds it: contiguous strides, and as many pages as the pool has.\<close>

definition plane_ok :: "paged_kv_plane_order \<Rightarrow> nat \<Rightarrow> tensor \<Rightarrow> bool" where
  "plane_ok ord n t \<longleftrightarrow> (\<exists>a b c e. ne t = [a, b, c, e] \<and> 0 < a \<and> 0 < b \<and> 0 < c \<and> 0 < e \<and>
     nb t = [dtype_size (dtype t), dtype_size (dtype t) * a, dtype_size (dtype t) * a * b, dtype_size (dtype t) * a * b * c] \<and>
     ne t ! page_dim ord = int n)"

lemma radix_cover:
  fixes s n y :: int
  assumes "0 < s"
  shows "(\<exists>x q. 0 \<le> x \<and> x < s \<and> 0 \<le> q \<and> q < n \<and> y = x + s * q) \<longleftrightarrow> 0 \<le> y \<and> y < s * n"
proof
  assume "\<exists>x q. 0 \<le> x \<and> x < s \<and> 0 \<le> q \<and> q < n \<and> y = x + s * q"
  then obtain x q where q: "0 \<le> x" "x < s" "0 \<le> q" "q + 1 \<le> n" "y = x + s * q"
    by auto
  then have "s * (q + 1) \<le> s * n"
    using assms by (intro mult_left_mono) simp_all
  then show "0 \<le> y \<and> y < s * n"
    using q assms by (simp add: distrib_left)
next
  assume y: "0 \<le> y \<and> y < s * n"
  have "y div s < n"
    using y assms by (simp add: int_div_less_iff mult.commute)
  then show "\<exists>x q. 0 \<le> x \<and> x < s \<and> 0 \<le> q \<and> q < n \<and> y = x + s * q"
    using y assms by (intro exI [of _ "y mod s"] exI [of _ "y div s"]) (simp add: pos_imp_zdiv_nonneg_iff)
qed

text \<open>The elements of the first dimensions fill a block without gaps.\<close>

lemma block_cover:
  fixes z a b y :: int
  assumes "0 < z" "0 < a" "0 < b"
  shows "(\<exists>x i j. 0 \<le> x \<and> x < z \<and> 0 \<le> i \<and> i < a \<and> 0 \<le> j \<and> j < b \<and> y = x + z * (i + a * j)) \<longleftrightarrow> 0 \<le> y \<and> y < z * a * b"
proof -
  have "(\<exists>x i j. 0 \<le> x \<and> x < z \<and> 0 \<le> i \<and> i < a \<and> 0 \<le> j \<and> j < b \<and> y = x + z * (i + a * j)) \<longleftrightarrow>
      (\<exists>x q. 0 \<le> x \<and> x < z \<and> (\<exists>i j. 0 \<le> i \<and> i < a \<and> 0 \<le> j \<and> j < b \<and> q = i + a * j) \<and> y = x + z * q)"
    by auto
  also have "\<dots> \<longleftrightarrow> (\<exists>x q. 0 \<le> x \<and> x < z \<and> 0 \<le> q \<and> q < a * b \<and> y = x + z * q)"
    unfolding radix_cover [OF assms(2)] by blast
  also have "\<dots> \<longleftrightarrow> 0 \<le> y \<and> y < z * a * b"
    unfolding radix_cover [OF assms(1)] by (simp add: mult.assoc)
  finally show ?thesis .
qed


lemma in_range_ex:
  assumes "ne t = [a, b, c, e]"
  shows "(\<exists>idx. in_range t idx \<and> P idx) \<longleftrightarrow>
    (\<exists>i j k l. 0 \<le> i \<and> i < a \<and> 0 \<le> j \<and> j < b \<and> 0 \<le> k \<and> k < c \<and> 0 \<le> l \<and> l < e \<and> P [i, j, k, l])"
proof
  assume "\<exists>idx. in_range t idx \<and> P idx"
  then obtain idx where idx: "in_range t idx" "P idx"
    by blast
  then obtain i j k l where "idx = [i, j, k, l]"
    by (auto simp: in_range_def length4)
  then show "\<exists>i j k l. 0 \<le> i \<and> i < a \<and> 0 \<le> j \<and> j < b \<and> 0 \<le> k \<and> k < c \<and> 0 \<le> l \<and> l < e \<and> P [i, j, k, l]"
    using idx assms by (auto simp: in_range_def less4)
next
  assume "\<exists>i j k l. 0 \<le> i \<and> i < a \<and> 0 \<le> j \<and> j < b \<and> 0 \<le> k \<and> k < c \<and> 0 \<le> l \<and> l < e \<and> P [i, j, k, l]"
  then obtain i j k l where *: "0 \<le> i" "i < a" "0 \<le> j" "j < b" "0 \<le> k" "k < c" "0 \<le> l" "l < e" "P [i, j, k, l]"
    by blast
  then show "\<exists>idx. in_range t idx \<and> P idx"
    using assms by (intro exI [of _ "[i, j, k, l]"]) (simp add: in_range_def less4)
qed

lemma page_bytes_iff:
  assumes ne: "ne t = [a, b, c, e]"
  shows "y \<in> page_bytes ord t p \<longleftrightarrow>
    (\<exists>x i j k l. 0 \<le> x \<and> x < dtype_size (dtype t) \<and> 0 \<le> i \<and> i < a \<and> 0 \<le> j \<and> j < b \<and> 0 \<le> k \<and> k < c \<and> 0 \<le> l \<and> l < e \<and>
      [i, j, k, l] ! page_dim ord = p \<and> y = element_offset t [i, j, k, l] + x)"
proof -
  have "y \<in> page_bytes ord t p \<longleftrightarrow> (\<exists>idx. in_range t idx \<and>
      (\<exists>x. idx ! page_dim ord = p \<and> 0 \<le> x \<and> x < dtype_size (dtype t) \<and> y = element_offset t idx + x))"
    unfolding page_bytes_def by blast
  then show ?thesis
    unfolding in_range_ex [OF ne] by blast
qed

lemma page_major_bytes:
  assumes "plane_ok PageMajor n t" "0 \<le> i" "i < int n"
  shows "page_bytes PageMajor t i = {i * nb t ! 3 ..< (i + 1) * nb t ! 3}"
proof -
  let ?z = "dtype_size (dtype t)"
  obtain a b c e where t: "ne t = [a, b, c, e]" "0 < a" "0 < b" "0 < c" "e = int n"
      "nb t = [?z, ?z * a, ?z * a * b, ?z * a * b * c]"
    using assms(1) by (auto simp: plane_ok_def page_dim_def)
  have z: "0 < ?z"
    by (rule dtype_size_pos)
  have "y \<in> page_bytes PageMajor t i \<longleftrightarrow> y \<in> {i * nb t ! 3 ..< (i + 1) * nb t ! 3}" for y
  proof -
    have off: "y = element_offset t [i0, j, k, i] + x \<longleftrightarrow> y - i * nb t ! 3 = x + ?z * (i0 + a * (j + b * k))" for i0 j k x
      by (auto simp: element_offset_def t(6) algebra_simps)
    have "y \<in> page_bytes PageMajor t i \<longleftrightarrow>
        (\<exists>x i0 j k. 0 \<le> x \<and> x < ?z \<and> 0 \<le> i0 \<and> i0 < a \<and> 0 \<le> j \<and> j < b \<and> 0 \<le> k \<and> k < c \<and> y = element_offset t [i0, j, k, i] + x)"
      using assms(2,3) t(5) by (auto simp: page_bytes_iff [OF t(1)] page_dim_def)
    also have "\<dots> \<longleftrightarrow>
        (\<exists>x i0 q. 0 \<le> x \<and> x < ?z \<and> 0 \<le> i0 \<and> i0 < a \<and> (\<exists>j k. 0 \<le> j \<and> j < b \<and> 0 \<le> k \<and> k < c \<and> q = j + b * k) \<and>
          y - i * nb t ! 3 = x + ?z * (i0 + a * q))"
      unfolding off by blast
    also have "\<dots> \<longleftrightarrow> (\<exists>x i0 q. 0 \<le> x \<and> x < ?z \<and> 0 \<le> i0 \<and> i0 < a \<and> 0 \<le> q \<and> q < b * c \<and>
          y - i * nb t ! 3 = x + ?z * (i0 + a * q))"
      unfolding radix_cover [OF t(3)] by blast
    also have "\<dots> \<longleftrightarrow> 0 \<le> y - i * nb t ! 3 \<and> y - i * nb t ! 3 < ?z * a * (b * c)"
      using t by (intro block_cover z) simp_all
    also have "\<dots> \<longleftrightarrow> y \<in> {i * nb t ! 3 ..< (i + 1) * nb t ! 3}"
      by (auto simp: t(6) algebra_simps)
    finally show ?thesis .
  qed
  then show ?thesis by blast
qed

lemma head_major_bytes:
  assumes "plane_ok HeadMajor n t" "0 \<le> i" "i < int n"
  shows "page_bytes HeadMajor t i =
    {i * nb t ! 2 + h * nb t ! 3 + w | h w. 0 \<le> h \<and> h < ne t ! 3 \<and> 0 \<le> w \<and> w < nb t ! 2}"
proof -
  let ?z = "dtype_size (dtype t)"
  obtain a b c e where t: "ne t = [a, b, c, e]" "0 < a" "0 < b" "c = int n" "0 < e"
      "nb t = [?z, ?z * a, ?z * a * b, ?z * a * b * c]"
    using assms(1) by (auto simp: plane_ok_def page_dim_def)
  have z: "0 < ?z"
    by (rule dtype_size_pos)
  have M: "y \<in> page_bytes HeadMajor t i \<longleftrightarrow> (\<exists>h w. 0 \<le> h \<and> h < e \<and> 0 \<le> w \<and> w < ?z * a * b \<and> y = i * nb t ! 2 + h * nb t ! 3 + w)" for y
  proof -
    have off: "y = element_offset t [i0, j, i, h] + x \<longleftrightarrow> y - (i * nb t ! 2 + h * nb t ! 3) = x + ?z * (i0 + a * j)" for i0 j h x
      by (auto simp: element_offset_def t(6) algebra_simps)
    have "y \<in> page_bytes HeadMajor t i \<longleftrightarrow>
        (\<exists>x i0 j h. 0 \<le> x \<and> x < ?z \<and> 0 \<le> i0 \<and> i0 < a \<and> 0 \<le> j \<and> j < b \<and> 0 \<le> h \<and> h < e \<and> y = element_offset t [i0, j, i, h] + x)"
      using assms(2,3) unfolding page_bytes_iff [OF t(1)] t(4) by (simp add: page_dim_def) blast
    also have "\<dots> \<longleftrightarrow>
        (\<exists>h. 0 \<le> h \<and> h < e \<and> (\<exists>x i0 j. 0 \<le> x \<and> x < ?z \<and> 0 \<le> i0 \<and> i0 < a \<and> 0 \<le> j \<and> j < b \<and>
          y - (i * nb t ! 2 + h * nb t ! 3) = x + ?z * (i0 + a * j)))"
      unfolding off by blast
    also have "\<dots> \<longleftrightarrow> (\<exists>h. 0 \<le> h \<and> h < e \<and> 0 \<le> y - (i * nb t ! 2 + h * nb t ! 3) \<and>
        y - (i * nb t ! 2 + h * nb t ! 3) < ?z * a * b)"
      unfolding block_cover [OF z t(2,3)] by blast
    also have "\<dots> \<longleftrightarrow> (\<exists>h w. 0 \<le> h \<and> h < e \<and> 0 \<le> w \<and> w < ?z * a * b \<and> y = i * nb t ! 2 + h * nb t ! 3 + w)"
    proof (intro iffI; elim exE conjE)
      fix h assume "0 \<le> h" "h < e" "0 \<le> y - (i * nb t ! 2 + h * nb t ! 3)" "y - (i * nb t ! 2 + h * nb t ! 3) < ?z * a * b"
      then show "\<exists>h w. 0 \<le> h \<and> h < e \<and> 0 \<le> w \<and> w < ?z * a * b \<and> y = i * nb t ! 2 + h * nb t ! 3 + w"
        by (intro exI [of _ h] exI [of _ "y - (i * nb t ! 2 + h * nb t ! 3)"]) simp
    qed auto
    finally show ?thesis .
  qed
  have eqs: "ne t ! 3 = e" "?z * a * b = nb t ! 2"
    by (simp_all add: t(1,6))
  show ?thesis
    unfolding set_eq_iff mem_Collect_eq M eqs by blast
qed

section \<open>The bytes a call writes\<close>

fun written :: "plane_command \<Rightarrow> (nat \<times> int) set" where
  "written (Memset pl offset n) = {pl} \<times> {offset ..< offset + n}"
| "written (Memset2D pl offset pitch width height) =
     {(pl, offset + row * pitch + x) | row x. 0 \<le> row \<and> row < height \<and> 0 \<le> x \<and> x < width}"
| "written (Memcpy pl dest source n) = {pl} \<times> {dest ..< dest + n}"
| "written (Memcpy2D pl dest source pitch width height) =
     {(pl, dest + row * pitch + x) | row x. 0 \<le> row \<and> row < height \<and> 0 \<le> x \<and> x < width}"

lemma plane_strides_pos: "plane_ok ord n t \<Longrightarrow> 0 < nb t ! 2 \<and> 0 < nb t ! 3"
  using dtype_size_pos(1) [of "dtype t"] by (auto simp: plane_ok_def)

lemma zero_run_written:
  assumes ok: "plane_ok ord m t" and range: "0 \<le> first" "first + int n \<le> int m"
  shows "written (zero_run ord first (int n) (pl, t)) = {pl} \<times> (\<Union>j < n. page_bytes ord t (first + int j))"
proof -
  have pos: "0 < nb t ! 2" "0 < nb t ! 3"
    using plane_strides_pos [OF ok] by simp_all
  have pages: "page_bytes ord t (first + int j) = page_bytes ord t (first + int j)" "0 \<le> first + int j" "first + int j < int m"
    if "j < n" for j
    using range that by simp_all
  have steps: "(\<exists>q. 0 \<le> q \<and> q < int n \<and> P q) \<longleftrightarrow> (\<exists>j < n. P (int j))" for P
    by (metis of_nat_0_le_iff of_nat_less_iff nonneg_int_cases)
  show ?thesis
  proof (cases ord)
    case PageMajor
    have "y \<in> {first * nb t ! 3 ..< first * nb t ! 3 + int n * nb t ! 3} \<longleftrightarrow>
        (\<exists>j < n. y \<in> {(first + int j) * nb t ! 3 ..< (first + int j + 1) * nb t ! 3})" for y
    proof -
      have "y \<in> {first * nb t ! 3 ..< first * nb t ! 3 + int n * nb t ! 3} \<longleftrightarrow>
          0 \<le> y - first * nb t ! 3 \<and> y - first * nb t ! 3 < nb t ! 3 * int n"
        by (auto simp: mult.commute)
      also have "\<dots> \<longleftrightarrow> (\<exists>q. 0 \<le> q \<and> q < int n \<and> (\<exists>x. 0 \<le> x \<and> x < nb t ! 3 \<and> y - first * nb t ! 3 = x + nb t ! 3 * q))"
        unfolding radix_cover [OF pos(2), symmetric] by blast
      also have "\<dots> \<longleftrightarrow> (\<exists>j < n. \<exists>x. 0 \<le> x \<and> x < nb t ! 3 \<and> y - first * nb t ! 3 = x + nb t ! 3 * int j)"
        by (rule steps)
      also have "\<dots> \<longleftrightarrow> (\<exists>j < n. y \<in> {(first + int j) * nb t ! 3 ..< (first + int j + 1) * nb t ! 3})"
      proof -
        have "(\<exists>x. 0 \<le> x \<and> x < nb t ! 3 \<and> y - first * nb t ! 3 = x + nb t ! 3 * int j) \<longleftrightarrow>
            y \<in> {(first + int j) * nb t ! 3 ..< (first + int j + 1) * nb t ! 3}" for j
          by (auto simp: algebra_simps intro!: exI [of _ "y - first * nb t ! 3 - nb t ! 3 * int j"])
        then show ?thesis by simp
      qed
      finally show ?thesis .
    qed
    then show ?thesis
      using page_major_bytes [of m t] ok pages by (auto simp: PageMajor zero_run_def)
  next
    case HeadMajor
    have "(\<exists>x. 0 \<le> x \<and> x < int n * nb t ! 2 \<and> y = x) \<longleftrightarrow> (\<exists>j < n. \<exists>w. 0 \<le> w \<and> w < nb t ! 2 \<and> y = w + nb t ! 2 * int j)" for y
    proof -
      have "(\<exists>x. 0 \<le> x \<and> x < int n * nb t ! 2 \<and> y = x) \<longleftrightarrow> 0 \<le> y \<and> y < nb t ! 2 * int n"
        by (simp add: mult.commute)
      also have "\<dots> \<longleftrightarrow> (\<exists>q. 0 \<le> q \<and> q < int n \<and> (\<exists>w. 0 \<le> w \<and> w < nb t ! 2 \<and> y = w + nb t ! 2 * q))"
        unfolding radix_cover [OF pos(1), symmetric] by blast
      also have "\<dots> \<longleftrightarrow> (\<exists>j < n. \<exists>w. 0 \<le> w \<and> w < nb t ! 2 \<and> y = w + nb t ! 2 * int j)"
        by (rule steps)
      finally show ?thesis .
    qed
    then have widths: "0 \<le> y \<and> y < int n * nb t ! 2 \<longleftrightarrow> (\<exists>j < n. \<exists>w. 0 \<le> w \<and> w < nb t ! 2 \<and> y = w + nb t ! 2 * int j)" for y
      by blast
    have "written (zero_run HeadMajor first (int n) (pl, t)) =
        {(pl, first * nb t ! 2 + row * nb t ! 3 + (w + nb t ! 2 * int j)) | row w j.
          0 \<le> row \<and> row < ne t ! 3 \<and> j < n \<and> 0 \<le> w \<and> w < nb t ! 2}"
      unfolding zero_run_def by (simp add: widths) blast
    also have "\<dots> = {pl} \<times> (\<Union>j < n. page_bytes HeadMajor t (first + int j))"
      using head_major_bytes [of m t] ok pages by (auto simp: HeadMajor algebra_simps) 
    finally show ?thesis
      by (simp add: HeadMajor)
  qed
qed


section \<open>Runs of pages\<close>

definition run_list :: "int \<times> nat \<Rightarrow> int list" where
  "run_list r = map (\<lambda>j. fst r + int j) [0 ..< snd r]"

lemma run_end_list: "map (\<lambda>j. i + int j) [0 ..< Suc (run_end i is)] = i # take (run_end i is) is"
proof (induction i "is" rule: run_end.induct)
  case (2 previous i "is")
  show ?case
  proof (cases "i = previous + 1")
    case True
    have "map (\<lambda>j. previous + int j) [0 ..< Suc (Suc (run_end i is))] = previous # map (\<lambda>j. i + int j) [0 ..< Suc (run_end i is)]"
      unfolding map_upt_Suc [of "\<lambda>j. previous + int j" "Suc (run_end i is)"] by (simp add: True algebra_simps del: upt_Suc)
    then show ?thesis
      using 2 [OF True] True by (simp del: upt_Suc)
  qed simp
qed simp

lemma page_runs_list: "concat (map run_list (page_runs is)) = is"
proof (induction "is" rule: page_runs.induct)
  case (2 i "is")
  have "run_list (i, Suc (run_end i is)) = i # take (run_end i is) is"
    using run_end_list [of i "is"] by (simp add: run_list_def del: upt_Suc)
  then show ?case
    using 2 by simp
qed simp

lemma page_runs_pos: "(first, n) \<in> set (page_runs is) \<Longrightarrow> 0 < n"
  by (induction "is" rule: page_runs.induct) auto

lemma run_list_set: "set (run_list (first, n)) = (\<lambda>j. first + int j) ` {..<n}"
  by (auto simp: run_list_def lessThan_atLeast0)

lemma page_runs_set: "set is = (\<Union>r \<in> set (page_runs is). set (run_list r))"
  by (subst page_runs_list [of "is", symmetric]) simp

lemma page_runs_range:
  assumes "(first, n) \<in> set (page_runs is)" "\<forall>i \<in> set is. 0 \<le> i \<and> i < int m"
  shows "0 \<le> first" "first + int n \<le> int m"
proof -
  have n: "0 < n"
    using page_runs_pos [OF assms(1)] .
  have "set (run_list (first, n)) \<subseteq> set is"
    using assms(1) page_runs_set [of "is"] by blast
  moreover have "first + int j \<in> set (run_list (first, n))" if "j < n" for j
    unfolding run_list_set using that by blast
  from this [of 0] this [of "n - 1"] have "first + int 0 \<in> set (run_list (first, n))" "first + int (n - 1) \<in> set (run_list (first, n))"
    using n by simp_all
  ultimately have "0 \<le> first + int 0" "first + int (n - 1) < int m"
    using assms(2) by blast+
  then show "0 \<le> first" "first + int n \<le> int m"
    using n by (simp_all add: of_nat_diff)
qed

lemma zero_commands_written:
  assumes planes: "list_all (plane_ok (pool_order p) m) (pp_planes p)" and range: "\<forall>h \<in> set hs. 0 \<le> ph_index h \<and> ph_index h < int m"
  shows "(\<Union>c \<in> set (zero_commands hs p). written c) =
    {(pl, y). pl < length (pp_planes p) \<and> (\<exists>h \<in> set hs. y \<in> page_bytes (pool_order p) (pp_planes p ! pl) (ph_index h))}"
proof -
  let ?runs = "page_runs (map ph_index hs)" and ?o = "pool_order p"
  have one: "written (zero_run ?o first (int n) (pl, pp_planes p ! pl)) =
      {pl} \<times> (\<Union>i \<in> set (run_list (first, n)). page_bytes ?o (pp_planes p ! pl) i)"
    if "(first, n) \<in> set ?runs" "pl < length (pp_planes p)" for first n pl
  proof -
    have "plane_ok ?o m (pp_planes p ! pl)"
      using planes that(2) by (simp add: list_all_length)
    moreover have "\<forall>i \<in> set (map ph_index hs). 0 \<le> i \<and> i < int m"
      using range by simp
    note page_runs_range [OF that(1) this]
    ultimately show ?thesis
      unfolding run_list_set by (simp add: zero_run_written)
  qed
  have "set (zero_commands hs p) = {zero_run ?o first (int n) (pl, pp_planes p ! pl) | first n pl. (first, n) \<in> set ?runs \<and> pl < length (pp_planes p)}"
    by (force simp: zero_commands_def pool_order_def in_set_enumerate_eq)
  then have "(\<Union>c \<in> set (zero_commands hs p). written c) =
      (\<Union>(first, n) \<in> set ?runs. \<Union>pl < length (pp_planes p). written (zero_run ?o first (int n) (pl, pp_planes p ! pl)))"
    by fastforce
  also have "\<dots> = (\<Union>(first, n) \<in> set ?runs. \<Union>pl < length (pp_planes p).
      {pl} \<times> (\<Union>i \<in> set (run_list (first, n)). page_bytes ?o (pp_planes p ! pl) i))"
    using one by (intro SUP_cong) auto
  also have "\<dots> = {(pl, y). pl < length (pp_planes p) \<and> (\<exists>i \<in> (\<Union>r \<in> set ?runs. set (run_list r)). y \<in> page_bytes ?o (pp_planes p ! pl) i)}"
    by auto
  finally show ?thesis
    unfolding page_runs_set [symmetric] by simp
qed

section \<open>Planes of a constructed pool\<close>

lemma bind_planes_ok:
  assumes "bind_planes spec (int m) backing ps es = Inr planes" "0 < m"
  shows "list_all (plane_ok (gm_device_plane_order (ps_geometry spec)) m) planes"
  using assms
proof (induction spec "int m" backing ps es arbitrary: planes rule: bind_planes.induct)
  case (1 spec backing planned ps expected es)
  obtain t rest where t: "tensor_region_bind (pv_storage planned) backing = Inr t"
      "bind_planes spec (int m) backing ps es = Inr rest" "planes = t # rest"
      and shape: "case gm_device_plane_order (ps_geometry spec) of PageMajor \<Rightarrow> ne t ! 3 = int m | HeadMajor \<Rightarrow> ne t ! 2 = int m"
    using 1(2) by (cases "gm_device_plane_order (ps_geometry spec)") (auto simp: bindE_Inr split: if_splits)
  obtain d ty shp where "tensor_new d ty shp = Inr t"
    using t(1) by (auto simp: tensor_region_bind_def split: sum.splits if_splits)
  then have "plane_ok (gm_device_plane_order (ps_geometry spec)) m t"
    using tensor_new_strides [of d ty shp t] shape
    by (auto simp: plane_ok_def page_dim_def split: paged_kv_plane_order.splits)
  moreover have "list_all (plane_ok (gm_device_plane_order (ps_geometry spec)) m) rest"
    using 1 t by (auto simp: bindE_Inr split: if_splits)
  ultimately show ?case
    by (simp add: t(3))
qed auto

lemma pool_construct_planes:
  assumes "pool_construct k backing layout = Inr p"
  shows "list_all (plane_ok (pool_order p) (capacity_pages p)) (pp_planes p)"
proof -
  have "bind_planes (pp_spec p) (int (capacity_pages p)) backing (pq_planes layout) (gm_planes (ps_geometry (pp_spec p))) = Inr (pp_planes p)"
      "0 < capacity_pages p"
    using assms by (auto simp: pool_construct_def Let_def bindE_Inr checked_i32_def capacity_pages_def split: if_splits)
  then show ?thesis
    unfolding pool_order_def by (rule bind_planes_ok)
qed

lemma construct_pools_planes:
  "construct_pools k configs = Inr ps \<Longrightarrow> p \<in> set ps \<Longrightarrow> list_all (plane_ok (pool_order p) (capacity_pages p)) (pp_planes p)"
  by (induction k configs arbitrary: ps rule: construct_pools.induct)
    (auto simp: bindE_Inr dest: pool_construct_planes)

lemma reachable_planes:
  assumes "construct_pools 0 configs = Inr ps" "k < length ps" "p = sy_pools (fold client_step calls (system_start ps)) ! k"
  shows "list_all (plane_ok (pool_order p) (capacity_pages p)) (pp_planes p)"
proof -
  have "same_pool (ps ! k) p"
    using reachable_pools(2) [OF assms(1,2)] assms(3) by simp
  then show ?thesis
    using construct_pools_planes [OF assms(1) nth_mem [OF assms(2)]] by (simp add: same_pool_def pool_order_def capacity_pages_def)
qed

lemma issue_all: "issue (\<lambda>_. True) cs = (Inr (), cs)"
  by (induction cs) simp_all

text \<open>A call the runtime refuses ends the sequence: what was issued is a prefix.\<close>

lemma issued_prefix: "issue accepts cs = (r, issued) \<Longrightarrow> \<exists>rest. cs = issued @ rest \<and> list_all accepts issued"
  by (induction cs arbitrary: issued) (auto split: if_splits prod.splits)


section \<open>Copies\<close>

text \<open>Which byte a copy writes from which byte.\<close>

fun copied :: "plane_command \<Rightarrow> ((nat \<times> int) \<times> (nat \<times> int)) set" where
  "copied (Memcpy pl dest source n) = {((pl, dest + x), (pl, source + x)) | x. 0 \<le> x \<and> x < n}"
| "copied (Memcpy2D pl dest source pitch width height) =
     {((pl, dest + row * pitch + x), (pl, source + row * pitch + x)) | row x. 0 \<le> row \<and> row < height \<and> 0 \<le> x \<and> x < width}"
| "copied _ = {}"

lemma copy_plane_copied:
  assumes ok: "plane_ok ord m t" and range: "0 \<le> source" "source < int m"
  shows "copied (copy_plane ord source dest (pl, t)) =
    {((pl, y + (dest - source) * nb t ! page_dim ord), (pl, y)) | y. y \<in> page_bytes ord t source}"
proof (cases ord)
  case PageMajor
  have "page_bytes ord t source = {source * nb t ! 3 + x | x. 0 \<le> x \<and> x < nb t ! 3}"
    unfolding PageMajor page_major_bytes [OF ok [unfolded PageMajor] range]
    by (auto simp: algebra_simps intro!: exI [of _ "_ - source * nb t ! 3"])
  then show ?thesis
    by (auto simp: PageMajor copy_plane_def page_dim_def Let_def algebra_simps)
next
  case HeadMajor
  show ?thesis
    unfolding HeadMajor head_major_bytes [OF ok [unfolded HeadMajor] range]
    by (auto simp: copy_plane_def page_dim_def Let_def algebra_simps) blast+
qed

text \<open>The element of a page and the element of another page at the same position are that far apart.\<close>

lemma page_distance:
  assumes "in_range t idx" "length (nb t) = 4"
  shows "element_offset t (idx[page_dim ord := d]) = element_offset t idx + (d - idx ! page_dim ord) * nb t ! page_dim ord"
proof -
  obtain i j k l where "idx = [i, j, k, l]"
    using assms(1) by (auto simp: in_range_def length4)
  then show ?thesis
    by (cases ord) (simp_all add: element_offset_def page_dim_def numeral_eq_Suc algebra_simps)
qed

section \<open>Properties\<close>

text \<open>
  C26. Zeroing pages of a pool in any reachable state, with a runtime that accepts the calls: a list with a
  stale or repeated page is refused with \<open>invalid_argument\<close> before anything is issued, also after the
  validation stamp has wrapped around; for every other list the runs of consecutive pages are merged into
  calls that overwrite, in each plane, exactly the bytes of the elements of the named pages, whichever order
  the page and head dimensions have.
\<close>

theorem zero_pages_exact:
  assumes "construct_pools 0 configs = Inr ps" and "s = fold client_step calls (system_start ps)" and "k < length ps"
    and "p = sy_pools s ! k" and "zero_pages (\<lambda>_. True) hs p = (result, issued, p')"
  shows "if list_all (\<lambda>h. valid_page h p) hs \<and> distinct (map ph_index hs)
    then result = Inr () \<and>
      (\<Union>c \<in> set issued. written c) =
        {(pl, y). pl < length (pp_planes p) \<and> (\<exists>h \<in> set hs. y \<in> page_bytes (pool_order p) (pp_planes p ! pl) (ph_index h))}
    else result = Inl Invalid_argument \<and> issued = []"
proof -
  have "sys_ok s" "k < length (sy_pools s)"
    using page_system_reachable [OF assms(1)] reachable_pools(1) [OF assms(1)] assms(2,3) by simp_all
  then have ok: "pool_ok p"
    using sys_okD(1) assms(4) by blast
  define q where "q = snd (validate_distinct_pages hs p)"
  have same: "same_accounts p q"
    using validate_ok [OF ok, of hs] by (simp add: q_def)
  have q: "pp_planes q = pp_planes p" "pool_order q = pool_order p" "capacity_pages q = capacity_pages p"
    using same same_accounts_facts(1) [OF same] by (simp_all add: same_accounts_def same_pool_def pool_order_def)
  show ?thesis
  proof (cases "list_all (\<lambda>h. valid_page h p) hs \<and> distinct (map ph_index hs)")
    case True
    then have "validate_distinct_pages hs p = (Inr (), q)"
      using validate_distinct_exact [OF ok, of hs] by (simp add: q_def prod_eq_iff)
    then have z: "result = Inr ()" "issued = zero_commands hs q"
      using assms(5) by (auto simp: zero_pages_def issue_all)
    have "\<forall>h \<in> set hs. 0 \<le> ph_index h \<and> ph_index h < int (capacity_pages p)"
      using True by (auto simp: list_all_iff valid_page_def)
    moreover have "list_all (plane_ok (pool_order q) (capacity_pages p)) (pp_planes q)"
      unfolding q using reachable_planes [OF assms(1,3)] assms(2,4) by simp
    ultimately show ?thesis
      using True z zero_commands_written [of q "capacity_pages p" hs] by (simp add: q)
  next
    case False
    then have "validate_distinct_pages hs p = (Inl Invalid_argument, q)"
      using validate_distinct_exact [OF ok, of hs] by (auto simp: q_def prod_eq_iff)
    then show ?thesis
      using False assms(5) by (auto simp: zero_pages_def)
  qed
qed

text \<open>
  Copying a page: a stale handle is refused and nothing is issued; copying a page to itself issues nothing;
  otherwise every byte of every element of the source page, in every plane, is copied to the byte of the
  element at the same position of the destination page, and nothing else is written.
\<close>

theorem copy_page_exact:
  assumes "construct_pools 0 configs = Inr ps" and "s = fold client_step calls (system_start ps)" and "k < length ps"
    and "p = sy_pools s ! k" and "copy_page (\<lambda>_. True) source destination p = (result, issued)"
  shows "if valid_page source p \<and> valid_page destination p
    then result = Inr () \<and> (if ph_index source = ph_index destination then issued = []
      else (\<Union>c \<in> set issued. copied c) = {((pl, y + (ph_index destination - ph_index source) * nb (pp_planes p ! pl) ! page_dim (pool_order p)), (pl, y)) |
        pl y. pl < length (pp_planes p) \<and> y \<in> page_bytes (pool_order p) (pp_planes p ! pl) (ph_index source)})
    else result = Inl Invalid_argument \<and> issued = []"
proof (cases "valid_page source p \<and> valid_page destination p \<and> ph_index source \<noteq> ph_index destination")
  case True
  let ?c = "copy_plane (pool_order p) (ph_index source) (ph_index destination)"
  have z: "result = Inr ()" "issued = map ?c (enumerate 0 (pp_planes p))"
    using assms(5) True by (auto simp: copy_page_def physical_index_def bindE_def issue_all pool_order_def)
  have "copied (?c (pl, pp_planes p ! pl)) =
      {((pl, y + (ph_index destination - ph_index source) * nb (pp_planes p ! pl) ! page_dim (pool_order p)), (pl, y)) |
        y. y \<in> page_bytes (pool_order p) (pp_planes p ! pl) (ph_index source)}" if "pl < length (pp_planes p)" for pl
  proof (rule copy_plane_copied)
    show "plane_ok (pool_order p) (capacity_pages p) (pp_planes p ! pl)"
      using reachable_planes [OF assms(1,3)] assms(2,4) that by (simp add: list_all_length)
  qed (use True in \<open>simp_all add: valid_page_def\<close>)
  moreover have "(\<Union>c \<in> set issued. copied c) = (\<Union>pl < length (pp_planes p). copied (?c (pl, pp_planes p ! pl)))"
    unfolding z(2) by (force simp: in_set_enumerate_eq)
  ultimately show ?thesis
    using True z(1) by auto
next
  case False
  then show ?thesis
    using assms(5) by (auto simp: copy_page_def physical_index_def bindE_def split: if_splits)
qed

definition sample_pages :: "page_handle list" where
  "sample_pages = [lease_handle (lv_items (sy_vectors sample_state ! 0) ! 2), lease_handle (lv_items (sy_vectors sample_state ! 0) ! 0),
     lease_handle (lv_items (sy_vectors sample_state ! 1) ! 0)]"

text \<open>Pages 2, 0 and 1 are two runs of the only plane, whose pages have 128 bytes.\<close>

theorem zero_pages_exact_witness:
  "\<exists>p'. zero_pages (\<lambda>_. True) sample_pages (sy_pools sample_state ! 0) = (Inr (), [Memset 0 256 128, Memset 0 0 256], p') \<and>
   {(0, y) | y. 0 \<le> y \<and> y < 384} =
     {(pl, y). pl < 1 \<and> (\<exists>h \<in> set sample_pages. y \<in> page_bytes PageMajor (pp_planes (sy_pools sample_state ! 0) ! pl) (ph_index h))}"
proof -
  let ?p = "sy_pools sample_state ! 0"
  have run: "fst (zero_pages (\<lambda>_. True) sample_pages ?p) = Inr () \<and>
      fst (snd (zero_pages (\<lambda>_. True) sample_pages ?p)) = [Memset 0 256 128, Memset 0 0 256]"
    by code_simp
  have facts: "list_all (\<lambda>h. valid_page h ?p) sample_pages \<and> distinct (map ph_index sample_pages) \<and>
      length (pp_planes ?p) = 1 \<and> pool_order ?p = PageMajor"
    by code_simp
  obtain p' where z: "zero_pages (\<lambda>_. True) sample_pages ?p = (Inr (), [Memset 0 256 128, Memset 0 0 256], p')"
    using run by (cases "zero_pages (\<lambda>_. True) sample_pages ?p") auto
  have "(\<Union>c \<in> set [Memset 0 256 128, Memset 0 0 256]. written c) = {(0, y) | y. 0 \<le> y \<and> y < 384}"
    by auto
  then show ?thesis
    using zero_pages_exact [OF sample_constructed sample_state_def _ refl z] z facts by auto
qed

end
