(* ===== verification/Execution_Tables.thy ===== *)
theory Execution_Tables
  imports Device_KV_System
begin

text \<open>
  Model of \<open>KVExecutionTablePool\<close> of \<open>src/core/paged_kv_cache.h\<close> and \<open>src/core/paged_kv_cache.cpp\<close>: the table with
  one row of physical page numbers per execution slot. A row is leased with a generation; publishing writes
  the page numbers into a pinned host shadow of the table and issues an asynchronous copy of that part of
  the shadow to the device.

  The shadow is the list of its \<open>std::int32_t\<close> values; its first contents are whatever the allocation holds and
  are an argument, as is the result of \<open>cudaMallocHost\<close>. Device memory is a function from addresses to values,
  one value per 32-bit word. An issued copy is pending until the device executes it, and it reads the
  shadow then; nothing is assumed about the order in which pending copies are executed.

  The theorems: once no copy is pending, every entry whose last publication succeeded holds the page number
  published last, whatever the order of execution; a publication that throws in the middle has already
  overwritten the front part of the shadow, and a copy still pending then carries those values to the device.
\<close>

section \<open>Rows and their leases\<close>

record table_spec =
  ts_logical_page_capacity :: nat
  ts_table_rows :: int

record table_layout =
  tl_spec :: table_spec
  tl_block_tables :: tensor_region

record row_handle =
  rh_owner :: "nat option"
  rh_row :: int
  rh_generation :: u32

definition null_row_handle :: row_handle where
  "null_row_handle = \<lparr>rh_owner = None, rh_row = -1, rh_generation = 0\<rparr>"

record row_lease =
  rl_owner :: "nat option"
  rl_row :: int
  rl_generation :: u32

definition null_row_lease :: row_lease where
  "null_row_lease = \<lparr>rl_owner = None, rl_row = -1, rl_generation = 0\<rparr>"

definition row_lease_handle :: "row_lease \<Rightarrow> row_handle" where
  "row_lease_handle l =
     (if rl_owner l \<noteq> None then \<lparr>rh_owner = rl_owner l, rh_row = rl_row l, rh_generation = rl_generation l\<rparr>
      else null_row_handle)"

record table_pool =
  tp_self :: nat
  tp_spec :: table_spec
  tp_pages :: nat
  tp_tables :: tensor
  tp_buffer :: pinned_buffer
  tp_shadow :: "int list"
  tp_in_use :: "bool list"
  tp_generations :: "u32 list"

definition checked_table_bytes :: "table_spec \<Rightarrow> exn + int" where
  "checked_table_bytes spec =
     bindE (checked_i32 (ts_logical_page_capacity spec)) (\<lambda>logical.
       if ts_table_rows spec \<le> 0 then Inl Invalid_argument
       else let rows = ts_table_rows spec in
         if SIZE_MAX div rows div 4 < logical then Inl Overflow_error
         else Inr (logical * rows * 4))"

definition plan_kv_execution_tables :: "table_spec \<Rightarrow> layout_builder \<Rightarrow> exn + (table_layout \<times> layout_builder)" where
  "plan_kv_execution_tables spec b =
     bindE (checked_table_bytes spec) (\<lambda>_.
     bindE (checked_i32 (ts_logical_page_capacity spec)) (\<lambda>logical.
     bindE (layout_add_tensor I32 [logical, ts_table_rows spec] 256 b) (\<lambda>(region, b').
       Inr (\<lparr>tl_spec = spec, tl_block_tables = region\<rparr>, b'))))"

definition metadata_bytes :: "table_layout \<Rightarrow> u64" where
  "metadata_bytes l = lr_bytes (tr_region (tl_block_tables l))"

definition table_construct :: "nat \<Rightarrow> device_span \<Rightarrow> table_layout \<Rightarrow> nat \<Rightarrow> u64 option \<Rightarrow> int list \<Rightarrow> exn + table_pool" where
  "table_construct self backing layout pages malloc contents =
     (let spec = tl_spec layout in
      bindE (tensor_region_bind (tl_block_tables layout) backing) (\<lambda>tables.
      bindE (checked_table_bytes spec) (\<lambda>bytes.
      bindE (pinned_new (of_int bytes) malloc) (\<lambda>buffer.
      bindE (checked_i32 (ts_logical_page_capacity spec)) (\<lambda>logical.
        if dtype tables \<noteq> I32 \<or> ne tables ! 0 \<noteq> logical \<or> ne tables ! 1 \<noteq> ts_table_rows spec then Inl Logic_error
        else Inr \<lparr>tp_self = self, tp_spec = spec, tp_pages = pages, tp_tables = tables, tp_buffer = buffer,
             tp_shadow = take (nat (bytes div 4)) (contents @ replicate (nat (bytes div 4)) 0),
             tp_in_use = replicate (nat (ts_table_rows spec)) False,
             tp_generations = replicate (nat (ts_table_rows spec)) 1\<rparr>)))))"

definition logical_page_capacity :: "table_pool \<Rightarrow> nat" where
  "logical_page_capacity t = ts_logical_page_capacity (tp_spec t)"

definition row_count :: "table_pool \<Rightarrow> int" where
  "row_count t = ts_table_rows (tp_spec t)"

definition acquire_row :: "int \<Rightarrow> table_pool \<Rightarrow> exn + (row_lease \<times> table_pool)" where
  "acquire_row row t =
     (if row < 0 \<or> row_count t \<le> row then Inl Out_of_range
      else if tp_in_use t ! nat row then Inl Logic_error
      else Inr (\<lparr>rl_owner = Some (tp_self t), rl_row = row, rl_generation = tp_generations t ! nat row\<rparr>,
                t\<lparr>tp_in_use := (tp_in_use t)[nat row := True]\<rparr>))"

definition valid_row :: "row_handle \<Rightarrow> table_pool \<Rightarrow> bool" where
  "valid_row h t \<longleftrightarrow>
     rh_owner h = Some (tp_self t) \<and> 0 \<le> rh_row h \<and> rh_row h < row_count t \<and>
     tp_in_use t ! nat (rh_row h) \<and> tp_generations t ! nat (rh_row h) = rh_generation h"

definition release_row :: "int \<Rightarrow> u32 \<Rightarrow> table_pool \<Rightarrow> bool \<times> table_pool" where
  "release_row row generation t =
     (if row < 0 \<or> row_count t \<le> row then (False, t)
      else if \<not> tp_in_use t ! nat row \<or> tp_generations t ! nat row \<noteq> generation then (False, t)
      else (True, t\<lparr>tp_in_use := (tp_in_use t)[nat row := False],
        tp_generations := (tp_generations t)[nat row := page_increment_generation (tp_generations t ! nat row)]\<rparr>))"

definition row_lease_release :: "row_lease \<Rightarrow> table_pool \<Rightarrow> bool \<times> row_lease \<times> table_pool" where
  "row_lease_release l t =
     (if rl_owner l = None then (False, l, t)
      else case release_row (rl_row l) (rl_generation l) t of (released, t') \<Rightarrow> (released, null_row_lease, t'))"

text \<open>The move operations, on two different lease objects: the new values of both and of the table.\<close>

definition row_lease_move :: "row_lease \<Rightarrow> row_lease \<times> row_lease" where
  "row_lease_move other = (other, null_row_lease)"

definition row_lease_assign :: "row_lease \<Rightarrow> row_lease \<Rightarrow> table_pool \<Rightarrow> row_lease \<times> row_lease \<times> table_pool" where
  "row_lease_assign this other t =
     (case row_lease_release this t of (_, _, t') \<Rightarrow> (other, null_row_lease, t'))"

section \<open>Publication\<close>

record table_copy =
  tc_destination :: u64
  tc_source :: nat
  tc_count :: nat

definition row_tensor :: "row_handle \<Rightarrow> table_pool \<Rightarrow> exn + tensor" where
  "row_tensor h t =
     (if \<not> valid_row h t then Inl Invalid_argument
      else bindE (slice (tp_tables t) 1 (rh_row h) 1) (\<lambda>r. view r [int (logical_page_capacity t)]))"

definition shadow_position :: "row_handle \<Rightarrow> nat \<Rightarrow> table_pool \<Rightarrow> nat" where
  "shadow_position h first t = nat (rh_row h) * logical_page_capacity t + first"

text \<open>The copy of part of the shadow; \<open>accepts\<close> says whether the runtime takes the call.\<close>

definition publish_indices :: "(table_copy \<Rightarrow> bool) \<Rightarrow> row_handle \<Rightarrow> nat \<Rightarrow> nat \<Rightarrow> table_pool \<Rightarrow> exn + table_copy option" where
  "publish_indices accepts h first n t =
     (if n = 0 then Inr None
      else bindE (row_tensor h t) (\<lambda>row.
        let c = \<lparr>tc_destination = data row + 4 * of_nat first, tc_source = shadow_position h first t, tc_count = n\<rparr> in
        if accepts c then Inr (Some c) else Inl Runtime_error))"

text \<open>The loop that fills the shadow: it stops at the first page it refuses, with the entries before it written.\<close>

fun fill_shadow :: "(page_handle \<Rightarrow> exn + int) \<Rightarrow> page_handle list \<Rightarrow> nat \<Rightarrow> int list \<Rightarrow> (exn + unit) \<times> int list" where
  "fill_shadow index [] at shadow = (Inr (), shadow)"
| "fill_shadow index (h # hs) at shadow =
     (case index h of Inl e \<Rightarrow> (Inl e, shadow) | Inr i \<Rightarrow> fill_shadow index hs (at + 1) (shadow[at := i]))"

definition publish_from :: "(table_copy \<Rightarrow> bool) \<Rightarrow> (page_handle \<Rightarrow> exn + int) \<Rightarrow> row_handle \<Rightarrow> nat \<Rightarrow> page_handle list \<Rightarrow>
    table_pool \<Rightarrow> (exn + table_copy option) \<times> table_pool" where
  "publish_from accepts index h first pages t =
     (if \<not> valid_row h t \<or> logical_page_capacity t < first \<or> logical_page_capacity t - first < length pages
      then (Inl Invalid_argument, t)
      else case fill_shadow index pages (shadow_position h first t) (tp_shadow t) of
        (Inl e, shadow) \<Rightarrow> (Inl e, t\<lparr>tp_shadow := shadow\<rparr>)
      | (Inr _, shadow) \<Rightarrow> let t' = t\<lparr>tp_shadow := shadow\<rparr> in (publish_indices accepts h first (length pages) t', t'))"

definition publish :: "(table_copy \<Rightarrow> bool) \<Rightarrow> row_handle \<Rightarrow> nat \<Rightarrow> page_handle list \<Rightarrow> page_pool \<Rightarrow> table_pool \<Rightarrow>
    (exn + table_copy option) \<times> table_pool" where
  "publish accepts h first pages p t = publish_from accepts (\<lambda>page. physical_index page p) h first pages t"

text \<open>
  The overload for leases: a lease of another pool is refused before its index is read. The owner of the
  handle of a lease is the owner of the lease.
\<close>

definition lease_index :: "page_pool \<Rightarrow> page_handle \<Rightarrow> exn + int" where
  "lease_index p h = (if ph_owner h \<noteq> Some (pp_self p) then Inl Invalid_argument else physical_index h p)"

definition publish_leases :: "(table_copy \<Rightarrow> bool) \<Rightarrow> row_handle \<Rightarrow> nat \<Rightarrow> page_lease list \<Rightarrow> page_pool \<Rightarrow> table_pool \<Rightarrow>
    (exn + table_copy option) \<times> table_pool" where
  "publish_leases accepts h first leases p t = publish_from accepts (lease_index p) h first (map lease_handle leases) t"

definition fill_n :: "nat \<Rightarrow> nat \<Rightarrow> int \<Rightarrow> int list \<Rightarrow> int list" where
  "fill_n at n v shadow = fold (\<lambda>j xs. xs[at + j := v]) [0 ..< n] shadow"

definition publish_repeated :: "(table_copy \<Rightarrow> bool) \<Rightarrow> row_handle \<Rightarrow> page_handle \<Rightarrow> nat \<Rightarrow> page_pool \<Rightarrow> table_pool \<Rightarrow>
    (exn + table_copy option) \<times> table_pool" where
  "publish_repeated accepts h page n p t =
     (if \<not> valid_row h t \<or> logical_page_capacity t < n then (Inl Invalid_argument, t)
      else case physical_index page p of Inl e \<Rightarrow> (Inl e, t)
      | Inr i \<Rightarrow>
          let t' = t\<lparr>tp_shadow := fill_n (shadow_position h 0 t) n i (tp_shadow t)\<rparr> in
          (publish_indices accepts h 0 n t', t'))"

section \<open>The device side\<close>

definition execute_copy :: "table_copy \<Rightarrow> int list \<Rightarrow> (u64 \<Rightarrow> int) \<Rightarrow> u64 \<Rightarrow> int" where
  "execute_copy c shadow mem =
     fold (\<lambda>j m. m(tc_destination c + 4 * of_nat j := shadow ! (tc_source c + j))) [0 ..< tc_count c] mem"

text \<open>
  The table, the device memory, the copies not yet executed, and for every entry the page number of its last
  publication, if that succeeded: \<open>None\<close> for an entry never published, or overwritten by a failed call.
\<close>

record table_system =
  ty_table :: table_pool
  ty_memory :: "u64 \<Rightarrow> int"
  ty_pending :: "table_copy list"
  ty_published :: "nat \<Rightarrow> int option"

datatype table_call =
    Acquire int
  | Release row_lease
  | Assign row_lease row_lease
  | Publish "table_copy \<Rightarrow> bool" row_handle nat "page_handle list" page_pool
  | Publish_leases "table_copy \<Rightarrow> bool" row_handle nat "page_lease list" page_pool
  | Publish_repeated "table_copy \<Rightarrow> bool" row_handle page_handle nat page_pool
  | Execute nat

definition note_result :: "exn + table_copy option \<Rightarrow> table_pool \<Rightarrow> table_system \<Rightarrow> table_system" where
  "note_result r t s =
     (let changed = (\<lambda>i. tp_shadow t ! i \<noteq> tp_shadow (ty_table s) ! i) in
      case r of
        Inl _ \<Rightarrow> s\<lparr>ty_table := t, ty_published := (\<lambda>i. if changed i then None else ty_published s i)\<rparr>
      | Inr None \<Rightarrow> s\<lparr>ty_table := t\<rparr>
      | Inr (Some c) \<Rightarrow> s\<lparr>ty_table := t, ty_pending := ty_pending s @ [c],
          ty_published := (\<lambda>i. if tc_source c \<le> i \<and> i < tc_source c + tc_count c then Some (tp_shadow t ! i) else ty_published s i)\<rparr>)"

fun table_step :: "table_call \<Rightarrow> table_system \<Rightarrow> table_system" where
  "table_step (Acquire row) s =
     (case acquire_row row (ty_table s) of Inl _ \<Rightarrow> s | Inr (_, t) \<Rightarrow> s\<lparr>ty_table := t\<rparr>)"
| "table_step (Release l) s = s\<lparr>ty_table := snd (snd (row_lease_release l (ty_table s)))\<rparr>"
| "table_step (Assign this other) s = s\<lparr>ty_table := snd (snd (row_lease_assign this other (ty_table s)))\<rparr>"
| "table_step (Publish accepts h first pages p) s =
     (case publish accepts h first pages p (ty_table s) of (r, t) \<Rightarrow> note_result r t s)"
| "table_step (Publish_leases accepts h first leases p) s =
     (case publish_leases accepts h first leases p (ty_table s) of (r, t) \<Rightarrow> note_result r t s)"
| "table_step (Publish_repeated accepts h page n p) s =
     (case publish_repeated accepts h page n p (ty_table s) of (r, t) \<Rightarrow> note_result r t s)"
| "table_step (Execute i) s =
     (if i < length (ty_pending s)
      then s\<lparr>ty_memory := execute_copy (ty_pending s ! i) (tp_shadow (ty_table s)) (ty_memory s),
             ty_pending := take i (ty_pending s) @ drop (Suc i) (ty_pending s)\<rparr>
      else s)"


section \<open>Well-formed tables\<close>

definition table_ok :: "table_pool \<Rightarrow> bool" where
  "table_ok t \<longleftrightarrow>
     (let cap = int (logical_page_capacity t); rows = row_count t in
      0 < cap \<and> cap \<le> INT32_MAX \<and> 0 < rows \<and> rows \<le> INT32_MAX \<and> 4 * cap * rows \<le> INT64_MAX \<and>
      dtype (tp_tables t) = I32 \<and> ne (tp_tables t) = [cap, rows, 1, 1] \<and>
      nb (tp_tables t) = [4, 4 * cap, 4 * cap * rows, 4 * cap * rows] \<and> data (tp_tables t) \<noteq> 0 \<and>
      length (tp_shadow t) = nat (cap * rows) \<and> length (tp_in_use t) = nat rows \<and> length (tp_generations t) = nat rows)"

text \<open>The address of an entry of the table.\<close>

definition entry_address :: "table_pool \<Rightarrow> nat \<Rightarrow> u64" where
  "entry_address t i = data (tp_tables t) + 4 * of_nat i"

lemma table_shadow_bound:
  assumes "table_ok t"
  shows "4 * length (tp_shadow t) < 2 ^ 64"
proof -
  have "int (4 * length (tp_shadow t)) \<le> INT64_MAX"
    using assms by (auto simp: table_ok_def Let_def)
  then show ?thesis
    by (simp add: INT64_MAX_def)
qed

lemma entry_address_inj:
  assumes "table_ok t" "i < length (tp_shadow t)" "j < length (tp_shadow t)" "entry_address t i = entry_address t j"
  shows "i = j"
proof -
  have "(4 * of_nat i :: u64) = 4 * of_nat j"
    using assms(4) by (simp add: entry_address_def)
  then have "(of_nat (4 * i) :: u64) = of_nat (4 * j)"
    by simp
  then have "unat (of_nat (4 * i) :: u64) = unat (of_nat (4 * j) :: u64)"
    by simp
  then show ?thesis
    using table_shadow_bound [OF assms(1)] assms(2,3) by (simp only: unat_of_nat take_bit_nat_eq_self) (simp add: take_bit_nat_eq_self)
qed

lemma view_row:
  fixes cap :: int
  assumes r: "ne r = [cap, 1, 1, 1]" "nb r = 4 # strides" "dtype r = I32" "0 < cap" "cap \<le> INT32_MAX"
  shows "\<exists>v. view r [cap] = Inr v \<and> data v = data r"
proof -
  have small: "4 * cap \<le> INT64_MAX" "cap \<le> INT64_MAX"
    using r(5) by (simp_all add: INT32_MAX_def INT64_MAX_def)
  have mul: "checked_mul_i64 4 cap = Inr (4 * cap)" "checked_mul_i64 1 cap = Inr cap" "checked_mul_i64 cap 1 = Inr cap"
      "checked_mul_i64 (4 * cap) 1 = Inr (4 * cap)"
    using r(4) small by (simp_all add: checked_mul_i64_Inr)
  have "is_contiguous r = Inr True"
    using r mul(1) by (simp add: is_contiguous_def)
  moreover have "numel r = Inr cap"
    using r mul by (simp add: numel_def shape_numel_def)
  moreover have "normalize_shape [cap] = Inr [cap, 1, 1, 1]"
    using r(4) by (simp add: normalize_shape_def)
  moreover have "shape_numel [cap, 1, 1, 1] = Inr cap"
    using r(4) mul by (simp add: shape_numel_def)
  moreover have "tensor_new (data r) I32 [cap] =
      Inr \<lparr>data = data r, dtype = I32, ne = [cap, 1, 1, 1], nb = [4, 4 * cap, 4 * cap, 4 * cap]\<rparr>"
    using mul calculation(3) by (simp add: tensor_new_def set_contiguous_strides_def numeral_eq_Suc)
  ultimately show ?thesis
    using r(3) by (simp add: view_def)
qed

lemma row_tensor_data:
  assumes ok: "table_ok t" and h: "valid_row h t"
  shows "\<exists>r. row_tensor h t = Inr r \<and> data r = entry_address t (shadow_position h 0 t)"
proof -
  let ?cap = "int (logical_page_capacity t)" and ?rows = "row_count t" and ?row = "rh_row h"
  have row: "0 \<le> ?row" "?row + 1 \<le> ?rows"
    using h by (auto simp: valid_row_def)
  have facts: "0 < ?cap" "?cap \<le> INT32_MAX" "4 * ?cap * ?rows \<le> INT64_MAX" "dtype (tp_tables t) = I32"
      "ne (tp_tables t) = [?cap, ?rows, 1, 1]" "nb (tp_tables t) = [4, 4 * ?cap, 4 * ?cap * ?rows, 4 * ?cap * ?rows]"
      "data (tp_tables t) \<noteq> 0"
    using ok by (auto simp: table_ok_def Let_def)
  have "?row * (4 * ?cap) \<le> ?rows * (4 * ?cap)"
    using row facts(1) by (intro mult_right_mono) simp_all
  then have "?row * (4 * ?cap) \<le> INT64_MAX"
    using facts(3) by (simp add: mult.commute mult.left_commute)
  then have mul: "checked_mul_i64 ?row (4 * ?cap) = Inr (?row * (4 * ?cap))"
    using row facts(1) by (simp add: checked_mul_i64_Inr)
  define r where "r = (tp_tables t)\<lparr>data := data (tp_tables t) + of_int (?row * (4 * ?cap)), ne := [?cap, 1, 1, 1]\<rparr>"
  have slice: "slice (tp_tables t) 1 ?row 1 = Inr r"
    using row mul facts(5-7) by (simp add: slice_def r_def)
  obtain v where v: "view r [?cap] = Inr v" "data v = data r"
    using view_row [of r ?cap] facts by (auto simp: r_def)
  have "data r = entry_address t (shadow_position h 0 t)"
    using row by (simp add: r_def entry_address_def shadow_position_def mult.left_commute)
  then show ?thesis
    using h slice v by (simp add: row_tensor_def bindE_def)
qed

lemma shadow_position_bound:
  assumes ok: "table_ok t" and h: "valid_row h t" and "first + n \<le> logical_page_capacity t"
  shows "shadow_position h first t + n \<le> length (tp_shadow t)"
proof -
  have row: "0 \<le> rh_row h" "rh_row h + 1 \<le> row_count t"
    using h by (auto simp: valid_row_def)
  have "nat (rh_row h) + 1 \<le> nat (row_count t)"
    using row by simp
  then have "(nat (rh_row h) + 1) * logical_page_capacity t \<le> nat (row_count t) * logical_page_capacity t"
    by (rule mult_le_mono1)
  moreover have "length (tp_shadow t) = nat (row_count t) * logical_page_capacity t"
    using ok by (simp add: table_ok_def Let_def nat_mult_distrib mult.commute)
  ultimately show ?thesis
    using assms(3) by (simp add: shadow_position_def)
qed

section \<open>What publications write\<close>

lemma fill_shadow_spec:
  assumes "at + length hs \<le> length shadow" "fill_shadow index hs at shadow = (r, shadow')"
  shows "length shadow' = length shadow \<and> (\<forall>i. \<not> (at \<le> i \<and> i < at + length hs) \<longrightarrow> shadow' ! i = shadow ! i) \<and>
    (r = Inr () \<longrightarrow> (\<forall>j < length hs. index (hs ! j) = Inr (shadow' ! (at + j))))"
  using assms
proof (induction hs arbitrary: at shadow)
  case (Cons h hs)
  show ?case
  proof (cases "index h")
    case (Inr i)
    have rec: "fill_shadow index hs (at + 1) (shadow[at := i]) = (r, shadow')"
      using Cons.prems(2) Inr by simp
    have IH: "length shadow' = length shadow" "\<forall>k. \<not> (at + 1 \<le> k \<and> k < at + 1 + length hs) \<longrightarrow> shadow' ! k = shadow[at := i] ! k"
        "r = Inr () \<longrightarrow> (\<forall>j < length hs. index (hs ! j) = Inr (shadow' ! (at + 1 + j)))"
      using Cons.IH [OF _ rec] Cons.prems(1) by simp_all
    have "shadow' ! at = i"
      using IH(2) Cons.prems(1) by simp
    moreover have "shadow' ! k = shadow ! k" if "\<not> (at \<le> k \<and> k < at + length (h # hs))" for k
      using IH(2) that by (cases "k = at") auto
    moreover have "index ((h # hs) ! j) = Inr (shadow' ! (at + j))" if "r = Inr ()" "j < length (h # hs)" for j
      using IH(3) that Inr calculation(1) by (cases j) auto
    ultimately show ?thesis
      using IH(1) by auto
  qed (use Cons.prems in auto)
qed auto

lemma fill_n_nth:
  "at + n \<le> length shadow \<Longrightarrow> length (fill_n at n v shadow) = length shadow \<and>
     (\<forall>i. fill_n at n v shadow ! i = (if at \<le> i \<and> i < at + n then v else shadow ! i))"
  by (induction n) (auto simp: fill_n_def nth_list_update less_Suc_eq)

text \<open>
  The effect of every publication: the shadow changes only where it was asked to, nothing else of the table
  changes, and an issued copy takes the same entries of the shadow to the entries of the table.
\<close>

definition publication :: "exn + table_copy option \<Rightarrow> table_pool \<Rightarrow> table_pool \<Rightarrow> bool" where
  "publication r t t' \<longleftrightarrow> table_ok t' \<and> t' = t\<lparr>tp_shadow := tp_shadow t'\<rparr> \<and> length (tp_shadow t') = length (tp_shadow t) \<and>
     (case r of Inl _ \<Rightarrow> True
      | Inr None \<Rightarrow> tp_shadow t' = tp_shadow t
      | Inr (Some c) \<Rightarrow> tc_destination c = entry_address t (tc_source c) \<and> tc_source c + tc_count c \<le> length (tp_shadow t) \<and>
          (\<forall>i. \<not> (tc_source c \<le> i \<and> i < tc_source c + tc_count c) \<longrightarrow> tp_shadow t' ! i = tp_shadow t ! i))"

lemma table_ok_shadow: "table_ok t \<Longrightarrow> length shadow = length (tp_shadow t) \<Longrightarrow> table_ok (t\<lparr>tp_shadow := shadow\<rparr>)"
  by (simp add: table_ok_def Let_def logical_page_capacity_def row_count_def)

lemma publish_indices_ok:
  assumes ok: "table_ok t" and h: "valid_row h t" and fits: "first + n \<le> logical_page_capacity t"
    and shadow: "length shadow = length (tp_shadow t)"
      "\<forall>i. \<not> (shadow_position h first t \<le> i \<and> i < shadow_position h first t + n) \<longrightarrow> shadow ! i = tp_shadow t ! i"
  shows "publication (publish_indices accepts h first n (t\<lparr>tp_shadow := shadow\<rparr>)) t (t\<lparr>tp_shadow := shadow\<rparr>)"
proof -
  let ?t = "t\<lparr>tp_shadow := shadow\<rparr>"
  have same: "valid_row h ?t" "shadow_position h first ?t = shadow_position h first t" "entry_address ?t = entry_address t"
    using h by (simp_all add: valid_row_def shadow_position_def logical_page_capacity_def row_count_def entry_address_def fun_eq_iff)
  have ok': "table_ok ?t"
    by (rule table_ok_shadow [OF ok shadow(1)])
  obtain r where r: "row_tensor h ?t = Inr r" "data r = entry_address t (shadow_position h 0 t)"
    using row_tensor_data [OF ok' same(1)] same(3) by (auto simp: shadow_position_def logical_page_capacity_def)
  have "data r + 4 * of_nat first = entry_address t (shadow_position h first t)"
    unfolding r(2) by (simp add: entry_address_def shadow_position_def algebra_simps)
  moreover have "shadow_position h first t + n \<le> length (tp_shadow t)"
    by (rule shadow_position_bound [OF ok h fits])
  moreover have "shadow = tp_shadow t" if "n = 0"
    using shadow that by (intro nth_equalityI) auto
  ultimately show ?thesis
    using ok' shadow same(2) by (auto simp: publication_def publish_indices_def r(1) bindE_def Let_def)
qed


lemma publication_refl: "table_ok t \<Longrightarrow> publication (Inl e) t t"
  by (simp add: publication_def)

lemma publish_from_ok:
  assumes ok: "table_ok t" and run: "publish_from accepts index h first pages t = (r, t')"
  shows "publication r t t'"
proof (cases "\<not> valid_row h t \<or> logical_page_capacity t < first \<or> logical_page_capacity t - first < length pages")
  case True
  then show ?thesis
    using run ok by (auto simp: publish_from_def publication_refl)
next
  case False
  obtain q shadow where fill: "fill_shadow index pages (shadow_position h first t) (tp_shadow t) = (q, shadow)"
    by (cases "fill_shadow index pages (shadow_position h first t) (tp_shadow t)")
  have fits: "first + length pages \<le> logical_page_capacity t" and h: "valid_row h t"
    using False by auto
  note F = fill_shadow_spec [OF shadow_position_bound [OF ok h fits] fill]
  show ?thesis
  proof (cases q)
    case (Inl e)
    then show ?thesis
      using run False fill F table_ok_shadow [OF ok, of shadow] by (auto simp: publish_from_def publication_def)
  next
    case (Inr u)
    then have "r = publish_indices accepts h first (length pages) (t\<lparr>tp_shadow := shadow\<rparr>)" "t' = t\<lparr>tp_shadow := shadow\<rparr>"
      using run False fill by (auto simp: publish_from_def Let_def)
    then show ?thesis
      using publish_indices_ok [OF ok h fits] F by simp
  qed
qed

lemma publish_repeated_ok:
  assumes ok: "table_ok t" and run: "publish_repeated accepts h page n p t = (r, t')"
  shows "publication r t t'"
proof (cases "valid_row h t \<and> n \<le> logical_page_capacity t \<and> valid_page page p")
  case True
  define shadow where "shadow = fill_n (shadow_position h 0 t) n (ph_index page) (tp_shadow t)"
  have fits: "0 + n \<le> logical_page_capacity t" and h: "valid_row h t"
    using True by auto
  have "length shadow = length (tp_shadow t)"
      "\<forall>i. \<not> (shadow_position h 0 t \<le> i \<and> i < shadow_position h 0 t + n) \<longrightarrow> shadow ! i = tp_shadow t ! i"
    using fill_n_nth [OF shadow_position_bound [OF ok h fits]] by (simp_all add: shadow_def)
  note P = publish_indices_ok [OF ok h fits this]
  have "r = publish_indices accepts h 0 n (t\<lparr>tp_shadow := shadow\<rparr>)" "t' = t\<lparr>tp_shadow := shadow\<rparr>"
    using run True by (auto simp: publish_repeated_def physical_index_def Let_def shadow_def)
  then show ?thesis
    using P by simp
next
  case False
  then show ?thesis
    using run ok by (auto simp: publish_repeated_def physical_index_def publication_refl split: if_splits)
qed

section \<open>The invariant\<close>

definition covers_entry :: "nat \<Rightarrow> table_copy \<Rightarrow> bool" where
  "covers_entry i c \<longleftrightarrow> tc_source c \<le> i \<and> i < tc_source c + tc_count c"

definition table_inv :: "table_system \<Rightarrow> bool" where
  "table_inv s \<longleftrightarrow>
     table_ok (ty_table s) \<and>
     list_all (\<lambda>c. tc_destination c = entry_address (ty_table s) (tc_source c) \<and>
       tc_source c + tc_count c \<le> length (tp_shadow (ty_table s))) (ty_pending s) \<and>
     (\<forall>i v. ty_published s i = Some v \<longrightarrow> i < length (tp_shadow (ty_table s)) \<and> tp_shadow (ty_table s) ! i = v \<and>
       (ty_memory s (entry_address (ty_table s) i) = v \<or> list_ex (covers_entry i) (ty_pending s)))"

lemma execute_copy_apply:
  assumes "\<And>j k. j < n \<Longrightarrow> k < n \<Longrightarrow> dest + 4 * of_nat j = (dest + 4 * of_nat k :: u64) \<Longrightarrow> j = k"
  shows "fold (\<lambda>j m. m(dest + 4 * of_nat j := f j)) [0 ..< n] mem a =
    (if \<exists>j < n. a = dest + 4 * of_nat j then f (THE j. j < n \<and> a = dest + 4 * of_nat j) else mem a)"
proof -
  have hit: "fold (\<lambda>j m. m(dest + 4 * of_nat j := f j)) [0 ..< m] mem (dest + 4 * of_nat k) = f k" if "k < m" "m \<le> n" for m k
    using that
  proof (induction m)
    case (Suc m)
    then show ?case
      using assms [of k m] by (cases "k = m") auto
  qed simp
  have miss: "fold (\<lambda>j m. m(dest + 4 * of_nat j := f j)) [0 ..< m] mem a = mem a" if "\<forall>j < m. a \<noteq> dest + 4 * of_nat j" for m
    using that by (induction m) auto
  show ?thesis
  proof (cases "\<exists>j < n. a = dest + 4 * of_nat j")
    case True
    then obtain j where j: "j < n" "a = dest + 4 * of_nat j"
      by blast
    then have "(THE j. j < n \<and> a = dest + 4 * of_nat j) = j"
      using assms by (intro the_equality) blast+
    then show ?thesis
      using j hit [of j n] True by simp
  qed (use miss in auto)
qed

text \<open>Executing a copy brings the covered entries of the device up to date and touches no other.\<close>

lemma execute_entry:
  assumes ok: "table_ok t" and c: "tc_destination c = entry_address t (tc_source c)" "tc_source c + tc_count c \<le> length (tp_shadow t)"
    and i: "i < length (tp_shadow t)"
  shows "execute_copy c (tp_shadow t) mem (entry_address t i) =
    (if covers_entry i c then tp_shadow t ! i else mem (entry_address t i))"
proof -
  have addr: "tc_destination c + 4 * of_nat j = entry_address t (tc_source c + j)" for j
    by (simp add: c(1) entry_address_def algebra_simps)
  have same: "entry_address t i = entry_address t (tc_source c + j) \<longleftrightarrow> i = tc_source c + j" if "j < tc_count c" for j
    using entry_address_inj [OF ok i, of "tc_source c + j"] that c(2) by auto
  have inj: "j = k" if "j < tc_count c" "k < tc_count c" "tc_destination c + 4 * of_nat j = tc_destination c + 4 * of_nat k" for j k
    using entry_address_inj [OF ok, of "tc_source c + j" "tc_source c + k"] that c(2) unfolding addr by simp
  have "(\<exists>j < tc_count c. entry_address t i = tc_destination c + 4 * of_nat j) \<longleftrightarrow> covers_entry i c"
  proof
    assume "\<exists>j < tc_count c. entry_address t i = tc_destination c + 4 * of_nat j"
    then show "covers_entry i c"
      unfolding addr using same by (metis covers_entry_def le_add1 nat_add_left_cancel_less)
  next
    assume "covers_entry i c"
    then show "\<exists>j < tc_count c. entry_address t i = tc_destination c + 4 * of_nat j"
      unfolding addr by (intro exI [of _ "i - tc_source c"]) (auto simp: covers_entry_def)
  qed
  moreover have "(THE j. j < tc_count c \<and> entry_address t i = tc_destination c + 4 * of_nat j) = i - tc_source c" if "covers_entry i c"
  proof (rule the_equality)
    show "i - tc_source c < tc_count c \<and> entry_address t i = tc_destination c + 4 * of_nat (i - tc_source c)"
      unfolding addr using that by (simp add: covers_entry_def less_diff_conv2)
    show "j = i - tc_source c" if "j < tc_count c \<and> entry_address t i = tc_destination c + 4 * of_nat j" for j
      using that same [of j] by (simp add: addr)
  qed
  moreover have "execute_copy c (tp_shadow t) mem (entry_address t i) =
      (if \<exists>j < tc_count c. entry_address t i = tc_destination c + 4 * of_nat j
       then tp_shadow t ! (tc_source c + (THE j. j < tc_count c \<and> entry_address t i = tc_destination c + 4 * of_nat j))
       else mem (entry_address t i))"
    unfolding execute_copy_def by (rule execute_copy_apply) (rule inj)
  ultimately show ?thesis
    by (simp add: covers_entry_def)
qed

lemma note_result_inv:
  assumes inv: "table_inv s" and pub: "publication r (ty_table s) t"
  shows "table_inv (note_result r t s)"
proof -
  let ?t = "ty_table s"
  have ok: "table_ok t" "length (tp_shadow t) = length (tp_shadow ?t)" and frame: "t = ?t\<lparr>tp_shadow := tp_shadow t\<rparr>"
    using pub by (auto simp: publication_def)
  have "tp_tables t = tp_tables ?t"
    using arg_cong [OF frame, of tp_tables] by simp
  then have addr: "entry_address t = entry_address ?t"
    by (simp add: entry_address_def fun_eq_iff)
  have old: "i < length (tp_shadow ?t) \<and> tp_shadow ?t ! i = v \<and>
      (ty_memory s (entry_address ?t i) = v \<or> list_ex (covers_entry i) (ty_pending s))" if "ty_published s i = Some v" for i v
    using inv that by (simp add: table_inv_def)
  have pending: "list_all (\<lambda>c. tc_destination c = entry_address t (tc_source c) \<and> tc_source c + tc_count c \<le> length (tp_shadow t)) (ty_pending s)"
    using inv by (simp add: table_inv_def addr ok(2))
  show ?thesis
  proof (cases r)
    case (Inl e)
    then show ?thesis
      using ok pending old by (auto simp: note_result_def Let_def table_inv_def addr split: if_splits)
  next
    case (Inr q)
    show ?thesis
    proof (cases q)
      case None
      then have "tp_shadow t = tp_shadow ?t"
        using pub Inr by (simp add: publication_def)
      then show ?thesis
        using ok pending old None Inr by (simp add: note_result_def Let_def table_inv_def addr)
    next
      case (Some c)
      have c: "tc_destination c = entry_address ?t (tc_source c)" "tc_source c + tc_count c \<le> length (tp_shadow ?t)"
          "\<forall>i. \<not> covers_entry i c \<longrightarrow> tp_shadow t ! i = tp_shadow ?t ! i"
        using pub Inr Some by (simp_all add: publication_def covers_entry_def)
      have "note_result r t s = s\<lparr>ty_table := t, ty_pending := ty_pending s @ [c],
          ty_published := (\<lambda>i. if covers_entry i c then Some (tp_shadow t ! i) else ty_published s i)\<rparr>"
        by (simp add: note_result_def Inr Some covers_entry_def)
      moreover have "i < length (tp_shadow t)" if "covers_entry i c" for i
        using that c(2) ok(2) by (simp add: covers_entry_def)
      ultimately show ?thesis
        using ok pending old c by (auto simp: table_inv_def addr split: if_splits)
    qed
  qed
qed

lemma row_calls_keep:
  assumes "table_ok t"
  shows "acquire_row row t = Inr (l, t') \<Longrightarrow> table_ok t' \<and> tp_tables t' = tp_tables t \<and> tp_shadow t' = tp_shadow t"
    and "release_row row g t = (b, t') \<Longrightarrow> table_ok t' \<and> tp_tables t' = tp_tables t \<and> tp_shadow t' = tp_shadow t"
  using assms by (auto simp: acquire_row_def release_row_def table_ok_def Let_def logical_page_capacity_def row_count_def split: if_splits)

lemma row_step_inv:
  assumes inv: "table_inv s" and t: "table_ok t" "tp_tables t = tp_tables (ty_table s)" "tp_shadow t = tp_shadow (ty_table s)"
  shows "table_inv (s\<lparr>ty_table := t\<rparr>)"
proof -
  have "entry_address t = entry_address (ty_table s)"
    using t(2) by (simp add: entry_address_def fun_eq_iff)
  then show ?thesis
    using inv t by (simp add: table_inv_def)
qed

lemma execute_inv:
  assumes inv: "table_inv s" and n: "n < length (ty_pending s)"
  shows "table_inv (table_step (Execute n) s)"
proof -
  let ?t = "ty_table s" and ?c = "ty_pending s ! n" and ?rest = "take n (ty_pending s) @ drop (Suc n) (ty_pending s)"
  have split: "ty_pending s = take n (ty_pending s) @ ?c # drop (Suc n) (ty_pending s)"
    using n by (simp add: id_take_nth_drop)
  have c: "tc_destination ?c = entry_address ?t (tc_source ?c)" "tc_source ?c + tc_count ?c \<le> length (tp_shadow ?t)" and ok: "table_ok ?t"
    using inv n by (auto simp: table_inv_def list_all_length)
  have some: "list_ex P (ty_pending s) \<longleftrightarrow> P ?c \<or> list_ex P ?rest" for P
    by (subst split) auto
  have all: "list_all P ?rest" if "list_all P (ty_pending s)" for P
    using that by (subst (asm) split) auto
  have "i < length (tp_shadow ?t) \<and> tp_shadow ?t ! i = v \<and>
      (execute_copy ?c (tp_shadow ?t) (ty_memory s) (entry_address ?t i) = v \<or> list_ex (covers_entry i) ?rest)"
    if "ty_published s i = Some v" for i v
  proof -
    have old: "i < length (tp_shadow ?t)" "tp_shadow ?t ! i = v"
        "ty_memory s (entry_address ?t i) = v \<or> list_ex (covers_entry i) (ty_pending s)"
      using inv that by (auto simp: table_inv_def)
    then show ?thesis
      using execute_entry [OF ok c, of i "ty_memory s"] some [of "covers_entry i"] by auto
  qed
  then show ?thesis
    using inv all n ok by (auto simp: table_inv_def simp del: list_ex_append)
qed

lemma acquire_inv_step:
  assumes "table_inv s"
  shows "table_inv (table_step (Acquire row) s)"
proof (cases "acquire_row row (ty_table s)")
  case (Inr c)
  obtain l t where c: "c = (l, t)"
    by (cases c)
  have "table_ok (ty_table s)"
    using assms by (simp add: table_inv_def)
  then show ?thesis
    using row_calls_keep(1) [OF _ Inr [unfolded c]] row_step_inv [OF assms, of t] by (simp add: Inr c)
qed (simp add: assms)

lemma release_inv_step:
  assumes "table_inv s"
  shows "table_inv (table_step (Release l) s)"
proof -
  obtain b t where rel: "release_row (rl_row l) (rl_generation l) (ty_table s) = (b, t)"
    by (cases "release_row (rl_row l) (rl_generation l) (ty_table s)")
  have "table_ok (ty_table s)"
    using assms by (simp add: table_inv_def)
  then show ?thesis
    using row_calls_keep(2) [OF _ rel] row_step_inv [OF assms, of t] assms by (simp add: row_lease_release_def rel)
qed

lemma table_step_inv: "table_inv s \<Longrightarrow> table_inv (table_step c s)"
proof (cases c)
  case (Acquire row)
  assume "table_inv s"
  then show ?thesis
    unfolding Acquire by (rule acquire_inv_step)
next
  case (Release l)
  assume "table_inv s"
  then show ?thesis
    unfolding Release by (rule release_inv_step)
next
  case (Assign this other)
  assume "table_inv s"
  then show ?thesis
    using release_inv_step [of s this] by (simp add: Assign row_lease_assign_def case_prod_beta)
next
  case (Execute n)
  assume inv: "table_inv s"
  then show ?thesis
    using execute_inv [OF inv] by (cases "n < length (ty_pending s)") (simp_all add: Execute)
next
  case (Publish accepts h first pages p)
  assume inv: "table_inv s"
  then show ?thesis
    using publish_from_ok [of "ty_table s"] note_result_inv [OF inv]
    by (auto simp: Publish publish_def table_inv_def split: prod.split)
next
  case (Publish_leases accepts h first leases p)
  assume inv: "table_inv s"
  then show ?thesis
    using publish_from_ok [of "ty_table s"] note_result_inv [OF inv]
    by (auto simp: Publish_leases publish_leases_def table_inv_def split: prod.split)
next
  case (Publish_repeated accepts h page n p)
  assume inv: "table_inv s"
  then show ?thesis
    using publish_repeated_ok [of "ty_table s"] note_result_inv [OF inv]
    by (auto simp: Publish_repeated table_inv_def split: prod.split)
qed

interpretation table_calls: call_system table_step table_inv
  by unfold_locales (rule table_step_inv)


section \<open>From construction on\<close>

definition table_start :: "table_pool \<Rightarrow> (u64 \<Rightarrow> int) \<Rightarrow> table_system" where
  "table_start t mem = \<lparr>ty_table = t, ty_memory = mem, ty_pending = [], ty_published = (\<lambda>_. None)\<rparr>"

lemma checked_table_bytes_Inr:
  assumes "checked_table_bytes spec = Inr n"
  shows "0 < ts_logical_page_capacity spec \<and> int (ts_logical_page_capacity spec) \<le> INT32_MAX \<and> 0 < ts_table_rows spec \<and>
    n = int (ts_logical_page_capacity spec) * ts_table_rows spec * 4"
  using assms by (auto simp: checked_table_bytes_def checked_i32_def bindE_Inr Let_def split: if_splits)

lemma bound_data_nonzero:
  assumes bind: "tensor_region_bind region backing = Inr t" and pos: "lr_bytes (tr_region region) \<noteq> 0"
    and span: "unat (ds_data backing) + unat (ds_bytes backing) \<le> 2 ^ 64"
  shows "data t \<noteq> 0"
proof -
  let ?r = "tr_region region"
  obtain s where s: "region_bind ?r backing = Inr s" "tensor_new (ds_data s) (tr_dtype region) (tr_shape region) = Inr t"
    using bind by (auto simp: tensor_region_bind_def split: sum.splits if_splits)
  have r: "ds_data backing \<noteq> 0" "lr_offset ?r \<le> ds_bytes backing" "lr_bytes ?r \<le> ds_bytes backing - lr_offset ?r"
      "s = \<lparr>ds_data = ds_data backing + lr_offset ?r, ds_bytes = lr_bytes ?r\<rparr>"
    using s(1) by (auto simp: region_bind_def not_less split: if_splits)
  have "unat (lr_bytes ?r) \<le> unat (ds_bytes backing) - unat (lr_offset ?r)" "unat (lr_offset ?r) \<le> unat (ds_bytes backing)"
    using r(2,3) by (simp_all add: word_le_nat_alt unat_sub)
  moreover have "0 < unat (lr_bytes ?r)"
    using pos by (simp add: unat_gt_0)
  ultimately have "unat (ds_data backing) + unat (lr_offset ?r) < 2 ^ 64"
    using span by linarith
  then have "unat (ds_data backing + lr_offset ?r) = unat (ds_data backing) + unat (lr_offset ?r)"
    using unat_add_lem [of "ds_data backing" "lr_offset ?r"] by simp
  moreover have "0 < unat (ds_data backing)"
    using r(1) by (simp add: unat_gt_0)
  ultimately have "ds_data s \<noteq> 0"
    unfolding r(4) by (metis add_is_0 device_span.select_convs(1) less_not_refl unat_0)
  then show ?thesis
    using tensor_new_strides [OF s(2)] by auto
qed

lemma planned_region:
  assumes plan: "plan_kv_execution_tables spec b = Inr (layout, b')"
  shows "tl_spec layout = spec" "tr_dtype (tl_block_tables layout) = I32"
    "tr_shape (tl_block_tables layout) = [int (ts_logical_page_capacity spec), ts_table_rows spec, 1, 1]"
    "lr_bytes (tr_region (tl_block_tables layout)) = of_int (4 * int (ts_logical_page_capacity spec) * ts_table_rows spec)"
proof -
  let ?c = "int (ts_logical_page_capacity spec)" and ?r = "ts_table_rows spec"
  obtain n region where n: "checked_table_bytes spec = Inr n" and add: "layout_add_tensor I32 [?c, ?r] 256 b = Inr (region, b')"
      and layout: "layout = \<lparr>tl_spec = spec, tl_block_tables = region\<rparr>"
    using plan by (auto simp: plan_kv_execution_tables_def bindE_Inr checked_i32_def split: if_splits)
  have pos: "0 < ?c" "0 < ?r"
    using checked_table_bytes_Inr [OF n] by auto
  obtain t m where t: "tensor_new 0 I32 [?c, ?r] = Inr t" "tensor_bytes t = Inr m" "region = \<lparr>tr_region = tr_region region, tr_dtype = I32, tr_shape = [?c, ?r, 1, 1]\<rparr>"
      "lr_bytes (tr_region region) = of_int m"
    using add by (auto simp: layout_add_tensor_def layout_add_def split: sum.splits prod.splits if_splits)
  have "ne t = [?c, ?r, 1, 1]"
    using tensor_new_strides [OF t(1)] pos by (auto simp: normalize_shape_def)
  then have "m = 4 * ?c * ?r"
    using t(2) tensor_new_strides [OF t(1)] numel_product [of t]
    by (auto simp: tensor_bytes_def Let_def split: sum.splits if_splits)
  then show "tl_spec layout = spec" "tr_dtype (tl_block_tables layout) = I32"
      "tr_shape (tl_block_tables layout) = [?c, ?r, 1, 1]"
      "lr_bytes (tr_region (tl_block_tables layout)) = of_int (4 * ?c * ?r)"
    using t(4) arg_cong [OF t(3), of tr_dtype] arg_cong [OF t(3), of tr_shape] by (simp_all add: layout)
qed

lemma of_int_small_nonzero: "0 < m \<Longrightarrow> m \<le> INT64_MAX \<Longrightarrow> (of_int m :: u64) \<noteq> 0"
proof
  assume m: "0 < m" "m \<le> INT64_MAX" and zero: "(of_int m :: u64) = 0"
  have "uint (of_int m :: u64) = m"
    using m by (simp add: unsigned_of_int take_bit_int_eq_self INT64_MAX_def)
  then show False
    using m zero by simp
qed

lemma table_construct_ok:
  assumes plan: "plan_kv_execution_tables spec b = Inr (layout, b')" and rows: "ts_table_rows spec \<le> INT32_MAX"
    and span: "unat (ds_data backing) + unat (ds_bytes backing) \<le> 2 ^ 64"
    and new: "table_construct self backing layout pages malloc contents = Inr t"
  shows "table_ok t"
proof -
  let ?c = "int (ts_logical_page_capacity spec)" and ?r = "ts_table_rows spec"
  note R = planned_region [OF plan]
  obtain n where bind: "tensor_region_bind (tl_block_tables layout) backing = Inr (tp_tables t)" and n: "checked_table_bytes spec = Inr n"
      and t: "tp_spec t = spec" "tp_shadow t = take (nat (n div 4)) (contents @ replicate (nat (n div 4)) 0)"
        "tp_in_use t = replicate (nat ?r) False" "tp_generations t = replicate (nat ?r) 1"
    using new by (auto simp: table_construct_def Let_def bindE_Inr R(1) split: if_splits)
  note B = checked_table_bytes_Inr [OF n]
  have pos: "0 < ?c" "0 < ?r" and n4: "n div 4 = ?c * ?r"
    using B by (simp_all add: algebra_simps)
  obtain d where "tensor_new d I32 [?c, ?r, 1, 1] = Inr (tp_tables t)"
    using bind R(2,3) by (auto simp: tensor_region_bind_def split: sum.splits if_splits)
  note S = tensor_new_strides [OF this]
  have ne: "ne (tp_tables t) = [?c, ?r, 1, 1]"
    using S pos by (auto simp: normalize_shape_def)
  have small: "4 * ?c * ?r \<le> INT64_MAX"
    using S by (auto simp: ne)
  have "0 < 4 * ?c * ?r"
    using pos by simp
  then have "lr_bytes (tr_region (tl_block_tables layout)) \<noteq> 0"
    unfolding R(4) using small by (rule of_int_small_nonzero)
  then have data: "data (tp_tables t) \<noteq> 0"
    using bound_data_nonzero [OF bind _ span] by blast
  have "length (tp_shadow t) = nat (?c * ?r)"
    by (simp add: t n4)
  then show ?thesis
    using S ne pos small B rows data t by (auto simp: table_ok_def Let_def logical_page_capacity_def row_count_def)
qed

lemma table_start_inv: "table_ok t \<Longrightarrow> table_inv (table_start t mem)"
  by (simp add: table_inv_def table_start_def)

lemma step_tables: "tp_tables (ty_table (table_step c s)) = tp_tables (ty_table s)" if "table_inv s"
proof -
  have ok: "table_ok (ty_table s)"
    using that by (simp add: table_inv_def)
  have note_frame: "tp_tables (ty_table (note_result r t s)) = tp_tables (ty_table s)" if "publication r (ty_table s) t" for r t
  proof -
    have "t = (ty_table s)\<lparr>tp_shadow := tp_shadow t\<rparr>"
      using that by (simp add: publication_def)
    from arg_cong [OF this, of tp_tables] show ?thesis
      by (simp add: note_result_def Let_def split: sum.split option.split)
  qed
  show ?thesis
    using publish_from_ok [OF ok] publish_repeated_ok [OF ok] row_calls_keep [OF ok]
    by (cases c) (auto simp: publish_def publish_leases_def row_lease_release_def row_lease_assign_def note_frame split: sum.split prod.split)
qed

lemma run_tables: "table_inv s \<Longrightarrow> tp_tables (ty_table (fold table_step cs s)) = tp_tables (ty_table s)"
proof (induction cs arbitrary: s)
  case (Cons c cs)
  then show ?case
    using step_tables [OF Cons.prems, of c] table_step_inv [OF Cons.prems, of c] by simp
qed simp


section \<open>What a publication asks for\<close>

text \<open>The row, the first position, the pages and the pool of a publication, the runtime's answer to its copy, and its outcome.\<close>

fun asked :: "table_call \<Rightarrow> (row_handle \<times> nat \<times> page_handle list \<times> page_pool) option" where
  "asked (Publish accepts h first pages p) = Some (h, first, pages, p)"
| "asked (Publish_leases accepts h first leases p) = Some (h, first, map lease_handle leases, p)"
| "asked (Publish_repeated accepts h page n p) = Some (h, 0, replicate n page, p)"
| "asked _ = None"

fun taken :: "table_call \<Rightarrow> table_copy \<Rightarrow> bool" where
  "taken (Publish accepts h first pages p) = accepts"
| "taken (Publish_leases accepts h first leases p) = accepts"
| "taken (Publish_repeated accepts h page n p) = accepts"
| "taken _ = (\<lambda>_. False)"

fun publication_of :: "table_call \<Rightarrow> table_pool \<Rightarrow> (exn + table_copy option) \<times> table_pool" where
  "publication_of (Publish accepts h first pages p) t = publish accepts h first pages p t"
| "publication_of (Publish_leases accepts h first leases p) t = publish_leases accepts h first leases p t"
| "publication_of (Publish_repeated accepts h page n p) t = publish_repeated accepts h page n p t"
| "publication_of _ t = (Inl Logic_error, t)"

lemma publication_step:
  "asked c \<noteq> None \<Longrightarrow> table_step c s = (case publication_of c (ty_table s) of (r, t) \<Rightarrow> note_result r t s)"
  by (cases c) simp_all

definition entry_copy :: "row_handle \<Rightarrow> nat \<Rightarrow> nat \<Rightarrow> table_pool \<Rightarrow> table_copy" where
  "entry_copy h first n t = \<lparr>tc_destination = entry_address t (shadow_position h first t), tc_source = shadow_position h first t, tc_count = n\<rparr>"

lemma publish_indices_result:
  assumes ok: "table_ok t" and h: "valid_row h t" and shadow: "length shadow = length (tp_shadow t)"
  shows "publish_indices accepts h first n (t\<lparr>tp_shadow := shadow\<rparr>) =
    (if n = 0 then Inr None else if accepts (entry_copy h first n t) then Inr (Some (entry_copy h first n t)) else Inl Runtime_error)"
proof -
  let ?t = "t\<lparr>tp_shadow := shadow\<rparr>"
  have same: "valid_row h ?t" "shadow_position h k ?t = shadow_position h k t" "entry_address ?t = entry_address t" for k
    using h by (simp_all add: valid_row_def shadow_position_def logical_page_capacity_def row_count_def entry_address_def fun_eq_iff)
  obtain r where r: "row_tensor h ?t = Inr r" "data r = entry_address t (shadow_position h 0 t)"
    using row_tensor_data [OF table_ok_shadow [OF ok shadow] same(1)] same(2,3) by auto
  have "data r + 4 * of_nat first = entry_address t (shadow_position h first t)"
    unfolding r(2) by (simp add: entry_address_def shadow_position_def algebra_simps)
  then show ?thesis
    by (simp add: publish_indices_def r(1) bindE_def Let_def same(2) entry_copy_def)
qed

lemma fill_shadow_all: "ok (fst (fill_shadow index hs at shadow)) \<longleftrightarrow> list_all (\<lambda>h. ok (index h)) hs"
  by (induction hs arbitrary: at shadow) (auto split: sum.split)

text \<open>When a publication succeeds, and what it then leaves in the shadow.\<close>

definition published_exactly :: "row_handle \<Rightarrow> nat \<Rightarrow> page_handle list \<Rightarrow> page_pool \<Rightarrow> (table_copy \<Rightarrow> bool) \<Rightarrow> table_pool \<Rightarrow>
    (exn + table_copy option) \<times> table_pool \<Rightarrow> bool" where
  "published_exactly h first pages p accepts t result \<longleftrightarrow>
     (ok (fst result) \<longrightarrow> valid_row h t \<and> first + length pages \<le> logical_page_capacity t \<and> list_all (\<lambda>g. valid_page g p) pages) \<and>
     (pages \<noteq> [] \<and> valid_row h t \<and> first + length pages \<le> logical_page_capacity t \<and> list_all (\<lambda>g. valid_page g p) pages \<and>
        accepts (entry_copy h first (length pages) t) \<longrightarrow> ok (fst result)) \<and>
     (ok (fst result) \<and> pages \<noteq> [] \<longrightarrow> fst result = Inr (Some (entry_copy h first (length pages) t)) \<and>
        (\<forall>j < length pages. tp_shadow (snd result) ! (shadow_position h first t + j) = ph_index (pages ! j)))"

lemma publish_from_exact:
  assumes tok: "table_ok t" and index: "\<And>g i. index g = Inr i \<longleftrightarrow> valid_page g p \<and> i = ph_index g"
  shows "published_exactly h first pages p accepts t (publish_from accepts index h first pages t)"
proof (cases "valid_row h t \<and> first + length pages \<le> logical_page_capacity t")
  case True
  then have h: "valid_row h t" and fits: "first + length pages \<le> logical_page_capacity t"
    by auto
  obtain q shadow where fill: "fill_shadow index pages (shadow_position h first t) (tp_shadow t) = (q, shadow)"
    by (cases "fill_shadow index pages (shadow_position h first t) (tp_shadow t)")
  note F = fill_shadow_spec [OF shadow_position_bound [OF tok h fits] fill]
  have each: "ok (index g) \<longleftrightarrow> valid_page g p" for g
    using index [of g] by (cases "index g") auto
  then have q: "ok q \<longleftrightarrow> list_all (\<lambda>g. valid_page g p) pages"
    using fill_shadow_all [of index pages "shadow_position h first t" "tp_shadow t"] by (simp add: fill)
  have run: "publish_from accepts index h first pages t = (case q of Inl e \<Rightarrow> (Inl e, t\<lparr>tp_shadow := shadow\<rparr>)
      | Inr _ \<Rightarrow> (publish_indices accepts h first (length pages) (t\<lparr>tp_shadow := shadow\<rparr>), t\<lparr>tp_shadow := shadow\<rparr>))"
    using h fits by (auto simp: publish_from_def fill Let_def split: sum.split)
  have res: "publish_indices accepts h first (length pages) (t\<lparr>tp_shadow := shadow\<rparr>) = (if length pages = 0 then Inr None
      else if accepts (entry_copy h first (length pages) t) then Inr (Some (entry_copy h first (length pages) t)) else Inl Runtime_error)"
    using F by (intro publish_indices_result [OF tok h]) simp
  show ?thesis
  proof (cases q)
    case (Inl e)
    then show ?thesis
      using q by (simp add: published_exactly_def run)
  next
    case (Inr u)
    have "shadow ! (shadow_position h first t + j) = ph_index (pages ! j)" if "j < length pages" for j
      using F Inr that index by simp
    then show ?thesis
      using q Inr h fits by (auto simp: published_exactly_def run res)
  qed
next
  case False
  then have "publish_from accepts index h first pages t = (Inl Invalid_argument, t)"
    by (auto simp: publish_from_def)
  then show ?thesis
    using False by (auto simp: published_exactly_def)
qed

lemma publish_repeated_exact:
  assumes tok: "table_ok t"
  shows "published_exactly h 0 (replicate n page) p accepts t (publish_repeated accepts h page n p t)"
proof (cases "valid_row h t \<and> n \<le> logical_page_capacity t \<and> valid_page page p")
  case True
  define shadow where "shadow = fill_n (shadow_position h 0 t) n (ph_index page) (tp_shadow t)"
  have h: "valid_row h t" and fits: "0 + n \<le> logical_page_capacity t"
    using True by auto
  note F = fill_n_nth [OF shadow_position_bound [OF tok h fits], of "ph_index page"]
  have "publish_repeated accepts h page n p t = (publish_indices accepts h 0 n (t\<lparr>tp_shadow := shadow\<rparr>), t\<lparr>tp_shadow := shadow\<rparr>)"
    using True by (simp add: publish_repeated_def physical_index_def Let_def shadow_def)
  moreover have "publish_indices accepts h 0 n (t\<lparr>tp_shadow := shadow\<rparr>) = (if n = 0 then Inr None
      else if accepts (entry_copy h 0 n t) then Inr (Some (entry_copy h 0 n t)) else Inl Runtime_error)"
    using F by (intro publish_indices_result [OF tok h]) (simp add: shadow_def)
  moreover have "shadow ! (shadow_position h 0 t + j) = ph_index page" if "j < n" for j
    using F that by (simp add: shadow_def)
  ultimately show ?thesis
    using True by (auto simp: published_exactly_def list_all_iff)
next
  case False
  then show ?thesis
    by (auto simp: published_exactly_def publish_repeated_def physical_index_def list_all_iff split: if_splits)
qed

lemma lease_index_Inr: "lease_index p g = Inr i \<longleftrightarrow> valid_page g p \<and> i = ph_index g"
  by (auto simp: lease_index_def physical_index_def valid_page_def)

lemma publication_exact:
  assumes "table_ok t" "asked c = Some (h, first, pages, p)"
  shows "published_exactly h first pages p (taken c) t (publication_of c t)"
proof -
  have "physical_index g p = Inr i \<longleftrightarrow> valid_page g p \<and> i = ph_index g" for g i
    by (auto simp: physical_index_def)
  note via = publish_from_exact [OF assms(1) this, of h first pages "taken c"]
    publish_from_exact [OF assms(1) lease_index_Inr, of h first pages p "taken c"]
  show ?thesis
    using assms(2) via publish_repeated_exact [OF assms(1)]
    by (cases c) (auto simp: publish_def publish_leases_def)
qed

lemma publication_records:
  assumes "table_ok (ty_table s)" "asked c = Some (h, first, pages, p)" "ok (fst (publication_of c (ty_table s)))" "j < length pages"
  shows "ty_published (table_step c s) (shadow_position h first (ty_table s) + j) = Some (ph_index (pages ! j))"
proof -
  have "pages \<noteq> []"
    using assms(4) by auto
  then show ?thesis
    using publication_exact [OF assms(1,2)] assms(2-4)
    by (auto simp: published_exactly_def publication_step note_result_def entry_copy_def case_prod_beta)
qed

text \<open>
  C34. Through every sequence of calls on a table that was planned and constructed, in which the device executes
  the issued copies in any order and interleaved in any way with further calls: when no copy is pending, every entry
  of the device table whose last publication succeeded holds the page number of that publication. Each of the three
  publications (of handles, of leases, of one page repeated) succeeds only on a valid row, inside it, and with valid pages
  of the pool, and then records for every position the physical index of the page asked for; asked for at least one page
  under these conditions, it does succeed when the runtime takes the copy of exactly these entries.
\<close>

theorem execution_tables_hold_published:
  assumes "plan_kv_execution_tables spec b = Inr (layout, b')" "ts_table_rows spec \<le> INT32_MAX"
    and "unat (ds_data backing) + unat (ds_bytes backing) \<le> 2 ^ 64"
    and "table_construct self backing layout pool malloc contents = Inr t"
    and s: "s = fold table_step cs (table_start t mem)"
  shows "(ty_pending s = [] \<longrightarrow> (\<forall>i v. ty_published s i = Some v \<longrightarrow> ty_memory s (data (tp_tables t) + 4 * of_nat i) = v)) \<and>
    (\<forall>c h first pages p. asked c = Some (h, first, pages, p) \<longrightarrow>
      (ok (fst (publication_of c (ty_table s))) \<longrightarrow>
        valid_row h (ty_table s) \<and> first + length pages \<le> logical_page_capacity (ty_table s) \<and> list_all (\<lambda>g. valid_page g p) pages \<and>
        (\<forall>j < length pages. ty_published (table_step c s) (shadow_position h first (ty_table s) + j) = Some (ph_index (pages ! j)))) \<and>
      (pages \<noteq> [] \<and> valid_row h (ty_table s) \<and> first + length pages \<le> logical_page_capacity (ty_table s) \<and>
        list_all (\<lambda>g. valid_page g p) pages \<and> taken c (entry_copy h first (length pages) (ty_table s)) \<longrightarrow>
        ok (fst (publication_of c (ty_table s)))))"
proof -
  have start: "table_inv (table_start t mem)"
    using table_start_inv table_construct_ok assms(1-4) by blast
  then have inv: "table_inv s"
    unfolding s by (rule table_calls.run_inv)
  then have tok: "table_ok (ty_table s)"
    by (simp add: table_inv_def)
  have "tp_tables (ty_table s) = tp_tables t"
    using run_tables [OF start] by (simp add: s table_start_def)
  then have memory: "\<forall>i v. ty_published s i = Some v \<longrightarrow> ty_memory s (data (tp_tables t) + 4 * of_nat i) = v" if "ty_pending s = []"
    using inv that by (auto simp: table_inv_def entry_address_def)
  have pub: "(ok (fst (publication_of c (ty_table s))) \<longrightarrow>
        valid_row h (ty_table s) \<and> first + length pages \<le> logical_page_capacity (ty_table s) \<and> list_all (\<lambda>g. valid_page g p) pages \<and>
        (\<forall>j < length pages. ty_published (table_step c s) (shadow_position h first (ty_table s) + j) = Some (ph_index (pages ! j)))) \<and>
      (pages \<noteq> [] \<and> valid_row h (ty_table s) \<and> first + length pages \<le> logical_page_capacity (ty_table s) \<and>
        list_all (\<lambda>g. valid_page g p) pages \<and> taken c (entry_copy h first (length pages) (ty_table s)) \<longrightarrow>
        ok (fst (publication_of c (ty_table s))))"
    if "asked c = Some (h, first, pages, p)" for c h first pages p
    using publication_exact [OF tok that, unfolded published_exactly_def] publication_records [OF tok that] by blast
  show ?thesis
    by (intro conjI [OF impI [OF memory] allI [OF allI [OF allI [OF allI [OF allI [OF impI [OF pub]]]]]]])
qed

section \<open>A concrete table\<close>

definition table_sample_layout :: table_layout where
  "table_sample_layout =
     \<lparr>tl_spec = \<lparr>ts_logical_page_capacity = 4, ts_table_rows = 2\<rparr>,
       tl_block_tables = \<lparr>tr_region = \<lparr>lr_offset = 0, lr_bytes = 32, lr_alignment = 256\<rparr>, tr_dtype = I32, tr_shape = [4, 2, 1, 1]\<rparr>\<rparr>"

definition table_sample :: table_pool where
  "table_sample =
     \<lparr>tp_self = 7, tp_spec = tl_spec table_sample_layout, tp_pages = 0,
       tp_tables = \<lparr>data = 8192, dtype = I32, ne = [4, 2, 1, 1], nb = [4, 16, 32, 32]\<rparr>,
       tp_buffer = \<lparr>pb_data = 65536, pb_size = 32\<rparr>, tp_shadow = [9, 9, 9, 9, 9, 9, 9, 9],
       tp_in_use = [False, False], tp_generations = [1, 1]\<rparr>"

lemma table_sample_planned:
  "plan_kv_execution_tables (tl_spec table_sample_layout) layout_builder_new =
     Inr (table_sample_layout, \<lparr>lb_cursor = 32, lb_peak = 32\<rparr>)"
  by code_simp

lemma table_sample_constructed:
  "table_construct 7 \<lparr>ds_data = 8192, ds_bytes = 4096\<rparr> table_sample_layout 0 (Some 65536) (replicate 8 9) = Inr table_sample"
  by code_simp

definition sample_page :: "nat \<Rightarrow> page_handle" where
  "sample_page i = lease_handle (lv_items (sy_vectors sample_state ! 0) ! i)"

definition row_one :: row_handle where
  "row_one = \<lparr>rh_owner = Some 7, rh_row = 1, rh_generation = 1\<rparr>"

definition stale_page :: page_handle where
  "stale_page = \<lparr>ph_owner = Some 0, ph_index = 5, ph_generation = 1\<rparr>"

definition publish_sample :: "nat \<Rightarrow> page_handle list \<Rightarrow> table_call" where
  "publish_sample first pages = Publish (\<lambda>_. True) row_one first pages (sy_pools sample_state ! 0)"

text \<open>Row 1 published twice, the second copy executed before the first.\<close>

theorem execution_tables_hold_published_witness:
  "let s = fold table_step [Acquire 1, publish_sample 1 [sample_page 0, sample_page 2], publish_sample 1 [sample_page 2], Execute 1, Execute 0]
       (table_start table_sample (\<lambda>_. 0))
   in ty_pending s = [] \<and> ty_memory s 8212 = 2 \<and> ty_memory s 8216 = 2"
proof -
  define s where "s = fold table_step
    [Acquire 1, publish_sample 1 [sample_page 0, sample_page 2], publish_sample 1 [sample_page 2], Execute 1, Execute 0]
    (table_start table_sample (\<lambda>_. 0))"
  have facts: "ty_pending s = [] \<and> ty_published s 5 = Some 2 \<and> ty_published s 6 = Some 2"
    unfolding s_def by code_simp
  have "ts_table_rows (tl_spec table_sample_layout) \<le> INT32_MAX"
      "unat (ds_data \<lparr>ds_data = 8192, ds_bytes = 4096\<rparr>) + unat (ds_bytes \<lparr>ds_data = 8192, ds_bytes = 4096\<rparr>) \<le> 2 ^ 64"
    by (simp_all add: table_sample_layout_def INT32_MAX_def)
  note W = execution_tables_hold_published [OF table_sample_planned this table_sample_constructed s_def]
  have "ty_memory s (data (tp_tables table_sample) + 4 * of_nat 5) = 2 \<and> ty_memory s (data (tp_tables table_sample) + 4 * of_nat 6) = 2"
    using W facts by blast
  then have "ty_memory s 8212 = 2 \<and> ty_memory s 8216 = 2"
    by (simp add: table_sample_def)
  then show ?thesis
    unfolding Let_def s_def [symmetric] using facts by blast
qed

text \<open>
  A publication that throws leaves its front part in the shadow: the pending copy of the publication before it, which
  succeeded, then carries the page of the failed call to the device.
\<close>

theorem failed_publication_leaks:
  "let s = fold table_step [Acquire 1, publish_sample 0 [sample_page 0]] (table_start table_sample (\<lambda>_. 0));
       (r, t) = publish (\<lambda>_. True) row_one 0 [sample_page 2, stale_page] (sy_pools sample_state ! 0) (ty_table s);
       s' = fold table_step [publish_sample 0 [sample_page 2, stale_page], Execute 0] s
   in r = Inl Invalid_argument \<and> ty_published s 4 = Some 0 \<and> ty_pending s' = [] \<and> ty_memory s' 8208 = 2"
  by code_simp

end
