(* ===== verification/Request_Sampling.thy ===== *)
theory Request_Sampling
  imports Voidinfer_Prelude
begin

text \<open>
  Model of \<open>request_sampling_state.h\<close>, \<open>sampling_window_transaction.h\<close> and
  \<open>sampling_control_stop_semantics.h\<close>: the random numbers of a sampled request. A request has a counter of
  committed draws; a speculative window takes tentative draws from there on, two for every accepted
  proposal and three for the rejected one, and commits those of the tokens that were published.

  A root revision is a \<open>shared_ptr\<close> over a pair of an address and a control block. The largest capacity that
  the allocator grants to the vector of decisions is an argument; the theorem needs it to be at most
  \<open>2 ^ 62\<close>, with which the sum of the draws of a window does not wrap. A decision takes a byte, so that this holds on every
  machine with addresses of at most 62 bits.

  The theorem: whatever windows are opened, sealed, rolled back, destroyed, cancelled or committed in part, the
  numbers behind the published tokens are the values of one stream in order, none left out and none used
  twice. A window whose draw has thrown accepts a decision that its draws do not pay for, and the commit refuses it.
\<close>

unbundle bit_operations_syntax

section \<open>Sampling state\<close>

type_synonym revision = "(nat \<times> nat) shared_ptr"

definition revision_get :: "revision \<Rightarrow> nat option" where
  "revision_get r = (case r of Null \<Rightarrow> None | Unowned (p, _) \<Rightarrow> Some p | Owned (p, _) \<Rightarrow> Some p)"

definition same_revision :: "revision \<Rightarrow> revision \<Rightarrow> bool" where
  "same_revision a b \<longleftrightarrow> revision_get a = revision_get b \<and> map_option snd (control_of a) = map_option snd (control_of b)"

record sampling_transaction =
  tx_owner :: "nat option"
  tx_nonce :: u64
  tx_acquisition :: u64
  tx_base_counter :: u64
  tx_tentative_counter :: u64
  tx_accepted_prefix :: u64
  tx_root_revision :: revision
  tx_publication_claimed :: bool

record sampling_state =
  st_self :: nat
  st_engine_epoch :: u64
  st_request_generation :: u64
  st_input_fingerprint :: u64
  st_seed :: u64
  st_acquisition :: u64
  st_committed_counter :: u64
  st_next_nonce :: u64
  st_active_nonce :: u64
  st_committed_prefix :: u64
  st_root_revision :: revision
  st_cancelled :: bool

definition sampling_new :: "nat \<Rightarrow> u64 \<Rightarrow> u64 \<Rightarrow> u64 \<Rightarrow> u64 \<Rightarrow> exn + sampling_state" where
  "sampling_new self epoch generation fingerprint seed =
     (if epoch = 0 \<or> generation = 0 \<or> fingerprint = 0 then Inl Invalid_argument
      else Inr \<lparr>st_self = self, st_engine_epoch = epoch, st_request_generation = generation, st_input_fingerprint = fingerprint,
        st_seed = seed, st_acquisition = 0, st_committed_counter = 0, st_next_nonce = 1, st_active_nonce = 0,
        st_committed_prefix = 0, st_root_revision = Null, st_cancelled = False\<rparr>)"

definition bind_acquisition :: "u64 \<Rightarrow> revision \<Rightarrow> u64 \<Rightarrow> sampling_state \<Rightarrow> exn + sampling_state" where
  "bind_acquisition acquisition root accepted_prefix s =
     (if st_cancelled s \<or> acquisition = 0 \<or> \<not> has_owner root \<or> st_active_nonce s \<noteq> 0 then Inl Invalid_argument
      else Inr (s\<lparr>st_acquisition := acquisition, st_root_revision := root, st_committed_prefix := accepted_prefix\<rparr>))"

definition begin_transaction :: "u64 \<Rightarrow> sampling_state \<Rightarrow> exn + sampling_transaction \<times> sampling_state" where
  "begin_transaction accepted_prefix s =
     (if st_cancelled s \<or> st_acquisition s = 0 \<or> \<not> non_null (st_root_revision s) \<or> st_active_nonce s \<noteq> 0 \<or>
         st_next_nonce s = 0 \<or> accepted_prefix \<noteq> st_committed_prefix s then Inl Logic_error
      else Inr (\<lparr>tx_owner = Some (st_self s), tx_nonce = st_next_nonce s, tx_acquisition = st_acquisition s,
          tx_base_counter = st_committed_counter s, tx_tentative_counter = st_committed_counter s,
          tx_accepted_prefix = accepted_prefix, tx_root_revision = st_root_revision s, tx_publication_claimed = False\<rparr>,
        s\<lparr>st_active_nonce := st_next_nonce s, st_next_nonce := st_next_nonce s + 1\<rparr>))"

definition require_current :: "sampling_transaction \<Rightarrow> bool \<Rightarrow> sampling_state \<Rightarrow> bool" where
  "require_current t allow_claimed_cancellation s \<longleftrightarrow>
     \<not> ((st_cancelled s \<and> \<not> (allow_claimed_cancellation \<and> tx_publication_claimed t)) \<or>
        tx_owner t \<noteq> Some (st_self s) \<or> st_active_nonce s = 0 \<or> tx_nonce t \<noteq> st_active_nonce s \<or>
        tx_acquisition t \<noteq> st_acquisition s \<or> \<not> same_revision (tx_root_revision t) (st_root_revision s))"

definition splitmix :: "u64 \<Rightarrow> u64" where
  "splitmix v0 =
     (let v1 = v0 + 0x9e3779b97f4a7c15;
          v2 = (v1 XOR drop_bit 30 v1) * 0xbf58476d1ce4e5b9;
          v3 = (v2 XOR drop_bit 27 v2) * 0x94d049bb133111eb
      in v3 XOR drop_bit 31 v3)"

definition draw_value :: "sampling_state \<Rightarrow> u64 \<Rightarrow> u64" where
  "draw_value s counter = splitmix (st_seed s XOR st_input_fingerprint s XOR st_request_generation s XOR counter)"

definition draw :: "sampling_transaction \<Rightarrow> sampling_state \<Rightarrow> exn + u64 \<times> sampling_transaction" where
  "draw t s =
     (if \<not> require_current t False s then Inl Logic_error
      else if tx_tentative_counter t = UINT64_MAX then Inl Overflow_error
      else Inr (draw_value s (tx_tentative_counter t), t\<lparr>tx_tentative_counter := tx_tentative_counter t + 1\<rparr>))"

definition claim_publication :: "sampling_transaction \<Rightarrow> sampling_state \<Rightarrow> exn + sampling_transaction" where
  "claim_publication t s =
     (if \<not> require_current t False s then Inl Logic_error
      else if tx_publication_claimed t then Inl Logic_error
      else Inr (t\<lparr>tx_publication_claimed := True\<rparr>))"

definition finish_transaction :: "sampling_transaction \<Rightarrow> sampling_state \<Rightarrow> sampling_transaction \<times> sampling_state" where
  "finish_transaction t s =
     (t\<lparr>tx_owner := None, tx_nonce := 0, tx_publication_claimed := False, tx_root_revision := Null\<rparr>, s\<lparr>st_active_nonce := 0\<rparr>)"

definition commit_transaction :: "sampling_transaction \<Rightarrow> u64 \<Rightarrow> u64 \<Rightarrow> revision \<Rightarrow> sampling_state \<Rightarrow>
    exn + sampling_transaction \<times> sampling_state" where
  "commit_transaction t draws_to_commit accepted_prefix new_root s =
     (if \<not> require_current t True s then Inl Logic_error
      else let tentative = tx_tentative_counter t - tx_base_counter t in
        if \<not> tx_publication_claimed t \<or> tentative < draws_to_commit \<or> accepted_prefix < tx_accepted_prefix t \<or>
           \<not> has_owner new_root \<or> UINT64_MAX - st_committed_counter s < draws_to_commit then Inl Invalid_argument
        else Inr (finish_transaction t
          (s\<lparr>st_committed_counter := st_committed_counter s + draws_to_commit, st_committed_prefix := accepted_prefix,
             st_root_revision := new_root\<rparr>)))"

definition rollback_transaction :: "sampling_transaction \<Rightarrow> sampling_state \<Rightarrow> exn + sampling_transaction \<times> sampling_state" where
  "rollback_transaction t s =
     (if \<not> require_current t (tx_publication_claimed t) s then Inl Logic_error else Inr (finish_transaction t s))"

definition advance_forced_control :: "u64 \<Rightarrow> revision \<Rightarrow> bool \<Rightarrow> sampling_state \<Rightarrow> exn + sampling_state" where
  "advance_forced_control tokens new_root resident_committed s =
     (if \<not> resident_committed \<or> tokens = 0 \<or> st_acquisition s = 0 \<or> st_active_nonce s \<noteq> 0 \<or> \<not> has_owner new_root \<or>
         UINT64_MAX - st_committed_prefix s < tokens then Inl Invalid_argument
      else Inr (s\<lparr>st_committed_prefix := st_committed_prefix s + tokens, st_root_revision := new_root\<rparr>))"

definition cancel_sampling :: "sampling_state \<Rightarrow> sampling_state" where
  "cancel_sampling s = s\<lparr>st_cancelled := True\<rparr>"

section \<open>Sampling windows\<close>

text \<open>The window's pointer to its state is the state argument; it is never null.\<close>

record sampling_window =
  wn_accepted_prefix :: u64
  wn_maximum_tokens :: u64
  wn_decisions :: "u8 list"
  wn_transaction :: sampling_transaction
  wn_active :: bool
  wn_pending_proposal :: bool
  wn_pending_acceptance :: bool
  wn_sealed :: bool
  wn_publication_claimed :: bool

text \<open>\<open>limit\<close> is the largest capacity that \<open>reserve\<close> obtains.\<close>

definition prepare_decisions :: "nat \<Rightarrow> u64 \<Rightarrow> u64 \<Rightarrow> exn + u8 list" where
  "prepare_decisions limit accepted_prefix maximum_tokens =
     (if maximum_tokens = 0 \<or> UINT64_MAX - accepted_prefix < maximum_tokens then Inl Invalid_argument
      else if limit < unat maximum_tokens then Inl Bad_alloc
      else Inr [])"

definition window_new :: "nat \<Rightarrow> u64 \<Rightarrow> u64 \<Rightarrow> sampling_state \<Rightarrow> exn + sampling_window \<times> sampling_state" where
  "window_new limit accepted_prefix maximum_tokens s =
     (case prepare_decisions limit accepted_prefix maximum_tokens of Inl e \<Rightarrow> Inl e
      | Inr decisions \<Rightarrow>
        (case begin_transaction accepted_prefix s of Inl e \<Rightarrow> Inl e
         | Inr (t, s') \<Rightarrow>
             Inr (\<lparr>wn_accepted_prefix = accepted_prefix, wn_maximum_tokens = maximum_tokens, wn_decisions = decisions,
               wn_transaction = t, wn_active = True, wn_pending_proposal = False, wn_pending_acceptance = False,
               wn_sealed = False, wn_publication_claimed = False\<rparr>, s')))"

text \<open>The destructor: a rollback that throws is swallowed.\<close>

definition window_destroy :: "sampling_window \<Rightarrow> sampling_state \<Rightarrow> sampling_state" where
  "window_destroy w s =
     (if wn_active w \<and> \<not> st_cancelled s
      then case rollback_transaction (wn_transaction w) s of Inl _ \<Rightarrow> s | Inr (_, s') \<Rightarrow> s'
      else s)"

definition require_open :: "sampling_window \<Rightarrow> bool" where
  "require_open w \<longleftrightarrow> wn_active w \<and> \<not> wn_sealed w"

definition require_pending :: "sampling_window \<Rightarrow> bool" where
  "require_pending w \<longleftrightarrow> require_open w \<and> wn_pending_acceptance w"

text \<open>A draw of the window; the pending mark is set before the draw, and stays when the draw throws.\<close>

definition window_draw :: "sampling_window \<Rightarrow> sampling_state \<Rightarrow> (exn + u64) \<times> sampling_window" where
  "window_draw w s =
     (case draw (wn_transaction w) s of Inl e \<Rightarrow> (Inl e, w) | Inr (v, t) \<Rightarrow> (Inr v, w\<lparr>wn_transaction := t\<rparr>))"

definition draw_proposal :: "sampling_window \<Rightarrow> sampling_state \<Rightarrow> (exn + u64) \<times> sampling_window" where
  "draw_proposal w s =
     (if \<not> require_open w then (Inl Logic_error, w)
      else if wn_pending_proposal w \<or> wn_pending_acceptance w \<or> unat (wn_maximum_tokens w) \<le> length (wn_decisions w)
      then (Inl Logic_error, w)
      else window_draw (w\<lparr>wn_pending_proposal := True\<rparr>) s)"

definition draw_acceptance :: "sampling_window \<Rightarrow> sampling_state \<Rightarrow> (exn + u64) \<times> sampling_window" where
  "draw_acceptance w s =
     (if \<not> require_open w then (Inl Logic_error, w)
      else if \<not> wn_pending_proposal w \<or> wn_pending_acceptance w then (Inl Logic_error, w)
      else window_draw (w\<lparr>wn_pending_acceptance := True\<rparr>) s)"

definition push_decision :: "u8 \<Rightarrow> sampling_window \<Rightarrow> sampling_window" where
  "push_decision draws w =
     w\<lparr>wn_decisions := wn_decisions w @ [draws], wn_pending_proposal := False, wn_pending_acceptance := False\<rparr>"

definition accept_proposal :: "sampling_window \<Rightarrow> exn + sampling_window" where
  "accept_proposal w = (if \<not> require_pending w then Inl Logic_error else Inr (push_decision 2 w))"

definition reject_and_draw_correction :: "sampling_window \<Rightarrow> sampling_state \<Rightarrow> (exn + u64) \<times> sampling_window" where
  "reject_and_draw_correction w s =
     (if \<not> require_pending w then (Inl Logic_error, w)
      else case window_draw w s of (Inl e, w') \<Rightarrow> (Inl e, w')
      | (Inr correction, w') \<Rightarrow> (Inr correction, (push_decision 3 w')\<lparr>wn_sealed := True\<rparr>))"

definition seal_stop_boundary :: "sampling_window \<Rightarrow> exn + sampling_window" where
  "seal_stop_boundary w =
     (if \<not> require_open w \<or> wn_pending_proposal w \<or> wn_pending_acceptance w then Inl Logic_error
      else Inr (w\<lparr>wn_sealed := True\<rparr>))"

definition window_claim_publication :: "sampling_window \<Rightarrow> sampling_state \<Rightarrow> exn + sampling_window" where
  "window_claim_publication w s =
     (if \<not> wn_active w \<or> wn_pending_proposal w \<or> wn_pending_acceptance w then Inl Logic_error
      else case claim_publication (wn_transaction w) s of Inl e \<Rightarrow> Inl e
      | Inr t \<Rightarrow> Inr (w\<lparr>wn_transaction := t, wn_publication_claimed := True\<rparr>))"

definition committed_draws :: "u8 list \<Rightarrow> u64" where
  "committed_draws decisions = fold (\<lambda>d n. n + ucast d) decisions 0"

definition window_commit :: "u64 \<Rightarrow> revision \<Rightarrow> sampling_window \<Rightarrow> sampling_state \<Rightarrow> exn + sampling_window \<times> sampling_state" where
  "window_commit published new_root w s =
     (if \<not> wn_active w then Inl Logic_error
      else if \<not> wn_publication_claimed w \<or> wn_pending_proposal w \<or> wn_pending_acceptance w \<or>
              length (wn_decisions w) < unat published then Inl Invalid_argument
      else case commit_transaction (wn_transaction w) (committed_draws (take (unat published) (wn_decisions w)))
             (wn_accepted_prefix w + published) new_root s of
        Inl e \<Rightarrow> Inl e
      | Inr (t, s') \<Rightarrow> Inr (w\<lparr>wn_transaction := t, wn_active := False\<rparr>, s'))"

definition window_rollback :: "sampling_window \<Rightarrow> sampling_state \<Rightarrow> (exn + unit) \<times> sampling_window \<times> sampling_state" where
  "window_rollback w s =
     (if \<not> wn_active w then (Inl Logic_error, w, s)
      else let w' = w\<lparr>wn_pending_proposal := False, wn_pending_acceptance := False\<rparr> in
        case rollback_transaction (wn_transaction w') s of
          Inl e \<Rightarrow> (Inl e, w', s)
        | Inr (t, s') \<Rightarrow> (Inr (), w'\<lparr>wn_transaction := t, wn_active := False\<rparr>, s'))"

section \<open>Control and stop semantics\<close>

record publication_count =
  pc_resident_tokens :: u64
  pc_visible_tokens :: u64
  pc_terminal :: bool
  pc_terminal_visible :: bool

definition commit_forced_control_after_resident :: "u64 \<Rightarrow> revision \<Rightarrow> sampling_state \<Rightarrow> exn + sampling_state" where
  "commit_forced_control_after_resident tokens new_root s = advance_forced_control tokens new_root True s"

definition commit_model_after_resident :: "u64 \<Rightarrow> bool \<Rightarrow> bool \<Rightarrow> revision \<Rightarrow> sampling_window \<Rightarrow> sampling_state \<Rightarrow>
    exn + publication_count \<times> sampling_window \<times> sampling_state" where
  "commit_model_after_resident resident terminal publish_terminal new_root w s =
     (if resident = 0 \<or> (publish_terminal \<and> \<not> terminal) then Inl Invalid_argument
      else case window_commit resident new_root w s of Inl e \<Rightarrow> Inl e
      | Inr (w', s') \<Rightarrow>
          Inr (\<lparr>pc_resident_tokens = resident,
            pc_visible_tokens = resident - (if terminal \<and> \<not> publish_terminal then 1 else 0),
            pc_terminal = terminal, pc_terminal_visible = (terminal \<and> publish_terminal)\<rparr>, w', s'))"

section \<open>A request and its windows\<close>

text \<open>
  The windows of a request with the values each has drawn, per decision and for the decision still
  pending, and the values behind everything committed. A destroyed window is \<open>None\<close>.
\<close>

record drawn_window =
  dw_window :: sampling_window
  dw_decided :: "u64 list list"
  dw_pending :: "u64 list"

record sampler =
  sm_state :: sampling_state
  sm_windows :: "drawn_window option list"
  sm_published :: "u64 list"

datatype window_call =
    Draw_proposal
  | Draw_acceptance
  | Accept
  | Reject
  | Seal
  | Claim
  | Commit_model u64 bool bool revision
  | Commit_window u64 revision
  | Rollback
  | Destroy

datatype sampling_call =
    Bind u64 revision u64
  | Forced u64 revision
  | Cancel
  | Open u64 u64
  | On_window nat window_call

definition add_drawn :: "exn + u64 \<Rightarrow> sampling_window \<Rightarrow> drawn_window \<Rightarrow> drawn_window" where
  "add_drawn r w d = d\<lparr>dw_window := w, dw_pending := dw_pending d @ (case r of Inl _ \<Rightarrow> [] | Inr v \<Rightarrow> [v])\<rparr>"

definition decide_drawn :: "drawn_window \<Rightarrow> drawn_window" where
  "decide_drawn d = d\<lparr>dw_decided := dw_decided d @ [dw_pending d], dw_pending := []\<rparr>"

definition committed_values :: "u64 \<Rightarrow> drawn_window \<Rightarrow> u64 list" where
  "committed_values published d = concat (take (unat published) (dw_decided d))"

fun window_step :: "window_call \<Rightarrow> drawn_window \<Rightarrow> sampling_state \<Rightarrow> drawn_window option \<times> sampling_state \<times> u64 list" where
  "window_step Draw_proposal d s =
     (case draw_proposal (dw_window d) s of (r, w) \<Rightarrow> (Some (add_drawn r w d), s, []))"
| "window_step Draw_acceptance d s =
     (case draw_acceptance (dw_window d) s of (r, w) \<Rightarrow> (Some (add_drawn r w d), s, []))"
| "window_step Accept d s =
     (case accept_proposal (dw_window d) of Inl _ \<Rightarrow> (Some d, s, []) | Inr w \<Rightarrow> (Some (decide_drawn (d\<lparr>dw_window := w\<rparr>)), s, []))"
| "window_step Reject d s =
     (case reject_and_draw_correction (dw_window d) s of
        (Inl e, w) \<Rightarrow> (Some (d\<lparr>dw_window := w\<rparr>), s, [])
      | (Inr v, w) \<Rightarrow> (Some (decide_drawn (add_drawn (Inr v) w d)), s, []))"
| "window_step Seal d s =
     (case seal_stop_boundary (dw_window d) of Inl _ \<Rightarrow> (Some d, s, []) | Inr w \<Rightarrow> (Some (d\<lparr>dw_window := w\<rparr>), s, []))"
| "window_step Claim d s =
     (case window_claim_publication (dw_window d) s of Inl _ \<Rightarrow> (Some d, s, []) | Inr w \<Rightarrow> (Some (d\<lparr>dw_window := w\<rparr>), s, []))"
| "window_step (Commit_window n root) d s =
     (case window_commit n root (dw_window d) s of Inl _ \<Rightarrow> (Some d, s, [])
      | Inr (w, s') \<Rightarrow> (Some (d\<lparr>dw_window := w\<rparr>), s', committed_values n d))"
| "window_step (Commit_model n terminal publish root) d s =
     (case commit_model_after_resident n terminal publish root (dw_window d) s of Inl _ \<Rightarrow> (Some d, s, [])
      | Inr (_, w, s') \<Rightarrow> (Some (d\<lparr>dw_window := w\<rparr>), s', committed_values n d))"
| "window_step Rollback d s =
     (case window_rollback (dw_window d) s of (_, w, s') \<Rightarrow> (Some (d\<lparr>dw_window := w\<rparr>), s', []))"
| "window_step Destroy d s = (None, window_destroy (dw_window d) s, [])"

fun sampling_step :: "nat \<Rightarrow> sampling_call \<Rightarrow> sampler \<Rightarrow> sampler" where
  "sampling_step limit (Bind a root n) m = m\<lparr>sm_state := after (sm_state m) (bind_acquisition a root n (sm_state m))\<rparr>"
| "sampling_step limit (Forced n root) m = m\<lparr>sm_state := after (sm_state m) (commit_forced_control_after_resident n root (sm_state m))\<rparr>"
| "sampling_step limit Cancel m = m\<lparr>sm_state := cancel_sampling (sm_state m)\<rparr>"
| "sampling_step limit (Open n maximum) m =
     (case window_new limit n maximum (sm_state m) of Inl _ \<Rightarrow> m
      | Inr (w, s) \<Rightarrow> m\<lparr>sm_state := s, sm_windows := sm_windows m @ [Some \<lparr>dw_window = w, dw_decided = [], dw_pending = []\<rparr>]\<rparr>)"
| "sampling_step limit (On_window i c) m =
     (if i < length (sm_windows m)
      then case sm_windows m ! i of None \<Rightarrow> m
        | Some d \<Rightarrow> (case window_step c d (sm_state m) of (d', s, values) \<Rightarrow>
            m\<lparr>sm_state := s, sm_windows := (sm_windows m)[i := d'], sm_published := sm_published m @ values\<rparr>)
      else m)"

definition sampler_start :: "sampling_state \<Rightarrow> sampler" where
  "sampler_start s = \<lparr>sm_state = s, sm_windows = [], sm_published = []\<rparr>"


section \<open>The stream\<close>

definition stream :: "sampling_state \<Rightarrow> nat \<Rightarrow> nat \<Rightarrow> u64 list" where
  "stream s a b = map (\<lambda>k. draw_value s (of_nat k)) [a ..< b]"

lemma stream_length [simp]: "length (stream s a b) = b - a"
  by (simp add: stream_def)

lemma stream_refl [simp]: "stream s a a = []"
  by (simp add: stream_def)

lemma stream_append: "a \<le> b \<Longrightarrow> b \<le> c \<Longrightarrow> stream s a b @ stream s b c = stream s a c"
  unfolding stream_def map_append [symmetric] by (metis le_Suc_ex upt_add_eq_append)

lemma stream_take: "a + n \<le> b \<Longrightarrow> take n (stream s a b) = stream s a (a + n)"
  by (simp add: stream_def take_map)

lemma stream_snoc: "a \<le> b \<Longrightarrow> stream s a (Suc b) = stream s a b @ [draw_value s (of_nat b)]"
  by (simp add: stream_def)

text \<open>The values depend on the identity of the request only.\<close>

definition same_identity :: "sampling_state \<Rightarrow> sampling_state \<Rightarrow> bool" where
  "same_identity s s' \<longleftrightarrow> st_seed s' = st_seed s \<and> st_input_fingerprint s' = st_input_fingerprint s \<and>
     st_request_generation s' = st_request_generation s \<and> st_self s' = st_self s"

lemma same_stream: "same_identity s s' \<Longrightarrow> stream s' = stream s"
  by (simp add: same_identity_def stream_def draw_value_def fun_eq_iff)

section \<open>The invariant\<close>

definition tx_current :: "sampling_state \<Rightarrow> sampling_transaction \<Rightarrow> bool" where
  "tx_current s t \<longleftrightarrow> tx_owner t = Some (st_self s) \<and> st_active_nonce s \<noteq> 0 \<and> tx_nonce t = st_active_nonce s \<and>
     tx_acquisition t = st_acquisition s \<and> tx_root_revision t = st_root_revision s \<and> tx_base_counter t = st_committed_counter s"

lemma require_current_iff:
  "tx_current s t \<Longrightarrow> require_current t allow s \<longleftrightarrow> (st_cancelled s \<longrightarrow> allow \<and> tx_publication_claimed t)"
  by (auto simp: tx_current_def require_current_def same_revision_def)

definition halted :: "sampling_state \<Rightarrow> sampling_window \<Rightarrow> bool" where
  "halted s w \<longleftrightarrow> st_cancelled s \<or> tx_tentative_counter (wn_transaction w) = UINT64_MAX"

text \<open>
  The values of a window: the stream from the committed counter on, split into those of the decisions and
  the pending ones. A decision with fewer values than it claims can only be the last that has any, and then no
  further draw succeeds.
\<close>

definition values_ok :: "sampling_state \<Rightarrow> drawn_window \<Rightarrow> bool" where
  "values_ok s d \<longleftrightarrow>
     (let w = dw_window d; t = wn_transaction w in
      tx_base_counter t \<le> tx_tentative_counter t \<and>
      concat (dw_decided d) @ dw_pending d = stream s (unat (tx_base_counter t)) (unat (tx_tentative_counter t)) \<and>
      length (dw_decided d) = length (wn_decisions w) \<and>
      list_all2 (\<lambda>n vs. length vs \<le> unat n \<and> unat n \<le> 3) (wn_decisions w) (dw_decided d) \<and>
      (\<forall>i < length (dw_decided d). length (dw_decided d ! i) < unat (wn_decisions w ! i) \<longrightarrow>
         halted s w \<and> concat (drop (Suc i) (dw_decided d)) @ dw_pending d = []))"

definition flags_ok :: "nat \<Rightarrow> sampling_state \<Rightarrow> drawn_window \<Rightarrow> bool" where
  "flags_ok limit s d \<longleftrightarrow>
     (let w = dw_window d in
      length (dw_pending d) \<le> 2 \<and>
      (\<not> halted s w \<longrightarrow> length (dw_pending d) = of_bool (wn_pending_proposal w) + of_bool (wn_pending_acceptance w) \<and>
         (wn_pending_acceptance w \<longrightarrow> wn_pending_proposal w)) \<and>
      unat (wn_maximum_tokens w) \<le> limit \<and>
      length (wn_decisions w) + of_bool (wn_pending_proposal w \<or> wn_pending_acceptance w) \<le> unat (wn_maximum_tokens w))"

definition window_ok :: "nat \<Rightarrow> sampling_state \<Rightarrow> drawn_window \<Rightarrow> bool" where
  "window_ok limit s d \<longleftrightarrow> wn_active (dw_window d) \<longrightarrow>
     tx_current s (wn_transaction (dw_window d)) \<and> values_ok s d \<and> flags_ok limit s d"

definition sampler_inv :: "nat \<Rightarrow> sampler \<Rightarrow> bool" where
  "sampler_inv limit m \<longleftrightarrow> limit \<le> 2 ^ 62 \<and>
     sm_published m = stream (sm_state m) 0 (unat (st_committed_counter (sm_state m))) \<and>
     list_all (\<lambda>x. case x of None \<Rightarrow> True | Some d \<Rightarrow> window_ok limit (sm_state m) d) (sm_windows m) \<and>
     (\<forall>i < length (sm_windows m). \<forall>j < length (sm_windows m). \<forall>d e.
        sm_windows m ! i = Some d \<longrightarrow> sm_windows m ! j = Some e \<longrightarrow> wn_active (dw_window d) \<longrightarrow> wn_active (dw_window e) \<longrightarrow> i = j)"

section \<open>Draws\<close>

lemma draw_current:
  assumes "tx_current s t"
  shows "draw t s = (if st_cancelled s then Inl Logic_error else if tx_tentative_counter t = UINT64_MAX then Inl Overflow_error
    else Inr (draw_value s (tx_tentative_counter t), t\<lparr>tx_tentative_counter := tx_tentative_counter t + 1\<rparr>))"
  using require_current_iff [OF assms, of False] by (simp add: draw_def)

lemma window_draw_cases:
  assumes "tx_current s (wn_transaction w)" "window_draw w s = (r, w')"
  obtains (halted) e where "halted s w" "r = Inl e" "w' = w"
  | (drawn) "\<not> halted s w" "r = Inr (draw_value s (tx_tentative_counter (wn_transaction w)))"
      "w' = w\<lparr>wn_transaction := (wn_transaction w)\<lparr>tx_tentative_counter := tx_tentative_counter (wn_transaction w) + 1\<rparr>\<rparr>"
  using assms(2) by (auto simp: window_draw_def draw_current [OF assms(1)] halted_def split: if_splits)

text \<open>A successful draw appends the next value of the stream to the pending ones.\<close>

lemma values_draw:
  assumes cur: "tx_current s (wn_transaction (dw_window d))" and ok: "values_ok s d" and free: "\<not> halted s (dw_window d)"
    and w: "wn_transaction w = (wn_transaction (dw_window d))\<lparr>tx_tentative_counter := tx_tentative_counter (wn_transaction (dw_window d)) + 1\<rparr>"
      "wn_decisions w = wn_decisions (dw_window d)"
  shows "values_ok s (d\<lparr>dw_window := w, dw_pending := dw_pending d @ [draw_value s (tx_tentative_counter (wn_transaction (dw_window d)))]\<rparr>)"
proof -
  let ?t = "wn_transaction (dw_window d)"
  let ?c = "tx_tentative_counter ?t" and ?b = "tx_base_counter ?t"
  have inc: "unat (?c + 1) = Suc (unat ?c)" and lt: "?c < ?c + 1"
    using free unat_inc [of ?c] word_inc_neq(2) [of ?c] by (simp_all add: halted_def)
  have le: "?b \<le> ?c" and vals: "concat (dw_decided d) @ dw_pending d = stream s (unat ?b) (unat ?c)"
    and exact: "\<forall>i < length (dw_decided d). \<not> length (dw_decided d ! i) < unat (wn_decisions (dw_window d) ! i)"
    and rest: "length (dw_decided d) = length (wn_decisions (dw_window d))"
      "list_all2 (\<lambda>n vs. length vs \<le> unat n \<and> unat n \<le> 3) (wn_decisions (dw_window d)) (dw_decided d)"
    using ok free by (auto simp: values_ok_def Let_def)
  have "unat ?b \<le> unat ?c"
    using le by (simp add: word_le_nat_alt)
  then have "stream s (unat ?b) (Suc (unat ?c)) = stream s (unat ?b) (unat ?c) @ [draw_value s ?c]"
    by (simp add: stream_snoc)
  moreover have "?b \<le> ?c + 1"
    using le lt by simp
  ultimately show ?thesis
    using vals exact rest by (simp add: values_ok_def Let_def w inc flip: append_assoc)
qed


lemma values_decide:
  assumes ok: "values_ok s d" and n: "length (dw_pending d) \<le> unat n" "unat n \<le> 3" "length (dw_pending d) < unat n \<Longrightarrow> halted s (dw_window d)"
    and w: "wn_transaction w = wn_transaction (dw_window d)" "wn_decisions w = wn_decisions (dw_window d) @ [n]"
  shows "values_ok s (decide_drawn (d\<lparr>dw_window := w\<rparr>))"
proof -
  let ?ds = "wn_decisions (dw_window d)" and ?vs = "dw_decided d"
  have len: "length ?vs = length ?ds" and all: "list_all2 (\<lambda>n vs. length vs \<le> unat n \<and> unat n \<le> 3) ?ds ?vs"
    using ok by (auto simp: values_ok_def Let_def)
  have short: "halted s (dw_window d) \<and> concat (drop (Suc i) ?vs) @ dw_pending d = []"
      if "i < length ?vs" "length (?vs ! i) < unat (?ds ! i)" for i
    using ok that by (auto simp: values_ok_def Let_def)
  have halt: "halted s w = halted s (dw_window d)"
    by (simp add: halted_def w)
  have "halted s (dw_window d) \<and> concat (drop (Suc i) (?vs @ [dw_pending d])) = []"
    if "i < length (?vs @ [dw_pending d])" "length ((?vs @ [dw_pending d]) ! i) < unat ((?ds @ [n]) ! i)" for i
  proof (cases "i < length ?vs")
    case True
    then show ?thesis
      using short [of i] that(2) len by (simp add: nth_append)
  next
    case False
    then have "i = length ?ds"
      using that(1) len by simp
    then show ?thesis
      using that(2) n(3) len by (simp add: nth_append)
  qed
  moreover have "list_all2 (\<lambda>n vs. length vs \<le> unat n \<and> unat n \<le> 3) (?ds @ [n]) (?vs @ [dw_pending d])"
    using all n by (simp add: list_all2_appendI)
  ultimately show ?thesis
    using ok len by (simp add: values_ok_def Let_def decide_drawn_def w halt)
qed

section \<open>Each window call\<close>

definition active_ok :: "nat \<Rightarrow> sampling_state \<Rightarrow> drawn_window \<Rightarrow> bool" where
  "active_ok limit s d \<longleftrightarrow> wn_active (dw_window d) \<and> tx_current s (wn_transaction (dw_window d)) \<and> values_ok s d \<and> flags_ok limit s d"

lemma window_ok_active: "window_ok limit s d \<longleftrightarrow> (wn_active (dw_window d) \<longrightarrow> active_ok limit s d)"
  by (auto simp: window_ok_def active_ok_def)

lemma tx_current_draw: "tx_current s (t\<lparr>tx_tentative_counter := c\<rparr>) = tx_current s t"
  by (simp add: tx_current_def)

lemma values_same:
  assumes "values_ok s d" "wn_transaction w = wn_transaction (dw_window d)" "wn_decisions w = wn_decisions (dw_window d)"
  shows "values_ok s (d\<lparr>dw_window := w\<rparr>)"
  using assms by (simp add: values_ok_def Let_def halted_def)

lemma pending_draw_ok:
  assumes ok: "active_ok limit s d" and short: "\<not> halted s (dw_window d) \<Longrightarrow> length (dw_pending d) < 2"
    and w: "w = (dw_window d)\<lparr>wn_pending_proposal := pp, wn_pending_acceptance := pa\<rparr>"
    and flags: "\<not> halted s (dw_window d) \<Longrightarrow> Suc (length (dw_pending d)) = of_bool pp + of_bool pa \<and> (pa \<longrightarrow> pp)"
      "length (wn_decisions (dw_window d)) < unat (wn_maximum_tokens (dw_window d))"
    and run: "window_draw w s = (r, w')"
  shows "active_ok limit s (add_drawn r w' d)"
proof -
  have cur: "tx_current s (wn_transaction w)"
    using ok by (simp add: active_ok_def w)
  have halt: "halted s w = halted s (dw_window d)"
    by (simp add: halted_def w)
  have base: "tx_current s (wn_transaction (dw_window d))" "values_ok s d" "length (dw_pending d) \<le> 2"
      "unat (wn_maximum_tokens (dw_window d)) \<le> limit" "wn_active (dw_window d)"
    using ok by (auto simp: active_ok_def flags_ok_def Let_def)
  from cur run show ?thesis
  proof (cases rule: window_draw_cases)
    case (halted e)
    have "values_ok s (d\<lparr>dw_window := w\<rparr>)"
      using base(2) by (rule values_same) (simp_all add: w)
    moreover have "add_drawn r w' d = d\<lparr>dw_window := w\<rparr>"
      by (simp add: add_drawn_def halted)
    moreover have "wn_active w" "unat (wn_maximum_tokens w) \<le> limit" "length (wn_decisions w) < unat (wn_maximum_tokens w)"
      using base flags(2) by (simp_all add: w)
    ultimately show ?thesis
      using base(3) cur halted(1) by (auto simp: active_ok_def flags_ok_def Let_def)
  next
    case drawn
    have free: "\<not> halted s (dw_window d)"
      using drawn(1) halt by simp
    have "values_ok s (add_drawn r w' d)"
      using values_draw [OF base(1,2) free, of w'] drawn by (simp add: add_drawn_def w)
    moreover have "wn_active w'" "tx_current s (wn_transaction w')" "unat (wn_maximum_tokens w') \<le> limit"
        "length (wn_decisions w') < unat (wn_maximum_tokens w')" "wn_pending_proposal w' = pp" "wn_pending_acceptance w' = pa"
      using base cur flags(2) by (simp_all add: drawn(3) tx_current_draw) (simp_all add: w)
    ultimately show ?thesis
      using flags(1) [OF free] short [OF free] drawn(2) by (auto simp: active_ok_def flags_ok_def Let_def add_drawn_def)
  qed
qed


lemma draw_proposal_ok:
  assumes ok: "active_ok limit s d" and run: "draw_proposal (dw_window d) s = (r, w)"
  shows "active_ok limit s (add_drawn r w d)"
proof (cases "require_open (dw_window d) \<and> \<not> wn_pending_proposal (dw_window d) \<and> \<not> wn_pending_acceptance (dw_window d) \<and>
    length (wn_decisions (dw_window d)) < unat (wn_maximum_tokens (dw_window d))")
  case True
  then have eq: "(dw_window d)\<lparr>wn_pending_proposal := True, wn_pending_acceptance := False\<rparr> = (dw_window d)\<lparr>wn_pending_proposal := True\<rparr>"
    by (intro sampling_window.equality) simp_all
  have "window_draw ((dw_window d)\<lparr>wn_pending_proposal := True, wn_pending_acceptance := False\<rparr>) s = (r, w)"
    unfolding eq using run True by (simp add: draw_proposal_def)
  moreover have "length (dw_pending d) = 0" if "\<not> halted s (dw_window d)"
    using ok True that by (simp add: active_ok_def flags_ok_def Let_def)
  ultimately show ?thesis
    using True by (intro pending_draw_ok [OF ok _ refl, where pp = True and pa = False]) simp_all
next
  case False
  then have "add_drawn r w d = d"
    using run by (auto simp: draw_proposal_def add_drawn_def split: if_splits)
  then show ?thesis
    using ok by simp
qed

lemma draw_acceptance_ok:
  assumes ok: "active_ok limit s d" and run: "draw_acceptance (dw_window d) s = (r, w)"
  shows "active_ok limit s (add_drawn r w d)"
proof (cases "require_open (dw_window d) \<and> wn_pending_proposal (dw_window d) \<and> \<not> wn_pending_acceptance (dw_window d)")
  case True
  then have eq: "(dw_window d)\<lparr>wn_pending_proposal := True, wn_pending_acceptance := True\<rparr> = (dw_window d)\<lparr>wn_pending_acceptance := True\<rparr>"
    by (intro sampling_window.equality) simp_all
  have "window_draw ((dw_window d)\<lparr>wn_pending_proposal := True, wn_pending_acceptance := True\<rparr>) s = (r, w)"
    unfolding eq using run True by (simp add: draw_acceptance_def)
  moreover have "length (dw_pending d) = 1" if "\<not> halted s (dw_window d)"
    using ok True that by (simp add: active_ok_def flags_ok_def Let_def)
  moreover have "length (wn_decisions (dw_window d)) < unat (wn_maximum_tokens (dw_window d))"
    using ok True by (simp add: active_ok_def flags_ok_def Let_def)
  ultimately show ?thesis
    by (intro pending_draw_ok [OF ok _ refl, where pp = True and pa = True]) simp_all
next
  case False
  then have "add_drawn r w d = d"
    using run by (auto simp: draw_acceptance_def add_drawn_def split: if_splits)
  then show ?thesis
    using ok by simp
qed

lemma decide_ok:
  assumes ok: "active_ok limit s d" "values_ok s e" and w: "w = (push_decision n (dw_window e))\<lparr>wn_sealed := sealed\<rparr>"
    and same: "wn_active (dw_window e)" "tx_current s (wn_transaction (dw_window e))" "wn_decisions (dw_window e) = wn_decisions (dw_window d)"
      "wn_maximum_tokens (dw_window e) = wn_maximum_tokens (dw_window d)"
    and pending: "wn_pending_acceptance (dw_window d)"
    and n: "length (dw_pending e) \<le> unat n" "unat n \<le> 3" "length (dw_pending e) < unat n \<Longrightarrow> halted s (dw_window e)"
  shows "active_ok limit s (decide_drawn (e\<lparr>dw_window := w\<rparr>))"
proof -
  have "values_ok s (decide_drawn (e\<lparr>dw_window := w\<rparr>))"
    using ok(2) n by (rule values_decide) (simp_all add: w push_decision_def)
  then show ?thesis
    using ok(1) pending same
    by (simp add: active_ok_def flags_ok_def Let_def decide_drawn_def w push_decision_def)
qed

lemma accept_ok:
  assumes ok: "active_ok limit s d" and run: "accept_proposal (dw_window d) = Inr w"
  shows "active_ok limit s (decide_drawn (d\<lparr>dw_window := w\<rparr>))"
proof -
  have pending: "wn_pending_acceptance (dw_window d)" and w: "w = push_decision 2 (dw_window d)"
    using run by (auto simp: accept_proposal_def require_pending_def)
  have "length (dw_pending d) \<le> 2" "\<not> halted s (dw_window d) \<Longrightarrow> length (dw_pending d) = 2"
    using ok pending by (auto simp: active_ok_def flags_ok_def Let_def)
  moreover have "w = (push_decision 2 (dw_window d))\<lparr>wn_sealed := wn_sealed (dw_window d)\<rparr>"
    by (simp add: w push_decision_def)
  moreover have "values_ok s d" "wn_active (dw_window d)" "tx_current s (wn_transaction (dw_window d))"
    using ok by (simp_all add: active_ok_def)
  ultimately show ?thesis
    using decide_ok [OF ok, where e = d and w = w and n = 2 and sealed = "wn_sealed (dw_window d)"] pending by force
qed

lemma reject_ok:
  assumes ok: "active_ok limit s d" and run: "reject_and_draw_correction (dw_window d) s = (r, w)"
  shows "case r of Inl _ \<Rightarrow> w = dw_window d | Inr v \<Rightarrow> active_ok limit s (decide_drawn (add_drawn (Inr v) w d))"
proof (cases "require_pending (dw_window d)")
  case True
  let ?w = "dw_window d"
  obtain q x where draw: "window_draw ?w s = (q, x)"
    by (cases "window_draw ?w s")
  have cur: "tx_current s (wn_transaction ?w)"
    using ok by (simp add: active_ok_def)
  from cur draw show ?thesis
  proof (cases rule: window_draw_cases)
    case (halted e)
    then show ?thesis
      using run True draw by (auto simp: reject_and_draw_correction_def)
  next
    case drawn
    let ?v = "draw_value s (tx_tentative_counter (wn_transaction ?w))"
    have r: "r = Inr ?v" "w = (push_decision 3 x)\<lparr>wn_sealed := True\<rparr>"
      using run True draw drawn by (auto simp: reject_and_draw_correction_def)
    define e where "e = d\<lparr>dw_window := x, dw_pending := dw_pending d @ [?v]\<rparr>"
    have "values_ok s e"
      unfolding e_def using cur _ drawn(1) by (rule values_draw) (use ok drawn in \<open>simp_all add: active_ok_def\<close>)
    moreover have "length (dw_pending d) = 2" "wn_active ?w" "wn_pending_acceptance ?w"
      using ok True drawn(1) by (auto simp: active_ok_def flags_ok_def Let_def require_pending_def)
    ultimately have "active_ok limit s (decide_drawn (e\<lparr>dw_window := w\<rparr>))"
      by (intro decide_ok [OF ok, where n = 3 and sealed = True]) (simp_all add: e_def r(2) drawn(3) tx_current_draw cur)
    moreover have "add_drawn (Inr ?v) w d = e\<lparr>dw_window := w\<rparr>"
      by (simp add: add_drawn_def e_def)
    ultimately show ?thesis
      by (simp add: r(1))
  qed
qed (use run in \<open>auto simp: reject_and_draw_correction_def\<close>)


section \<open>Commits\<close>

lemma unat_ucast_u8: "unat (ucast (d :: u8) :: u64) = unat d"
  by transfer (simp add: take_bit_take_bit)

lemma committed_draws_sum:
  assumes "\<forall>d \<in> set ds. unat d \<le> 3" "length ds \<le> 2 ^ 62"
  shows "unat (committed_draws ds) = sum_list (map unat ds)"
proof -
  have "unat (fold (\<lambda>d n. n + ucast d) ds n) = unat n + sum_list (map unat ds)"
    if "\<forall>d \<in> set ds. unat d \<le> 3" "unat n + 3 * length ds < 2 ^ 64" for n :: u64 and ds :: "u8 list"
    using that
  proof (induction ds arbitrary: n)
    case (Cons d ds)
    have d: "unat (ucast d :: u64) = unat d" "unat d \<le> 3"
      using Cons.prems(1) by (simp_all add: unsigned_ucast_eq take_bit_nat_eq_self unat_ucast_u8)
    then have "unat (n + ucast d) = unat n + unat d"
      using Cons.prems(2) unat_add_lem [of n "ucast d :: u64"] by simp
    then show ?case
      using Cons.IH [of "n + ucast d"] Cons.prems d by simp
  qed simp
  from this [of ds 0] show ?thesis
    using assms by (simp add: committed_draws_def)
qed

lemma paid_exactly:
  assumes "list_all2 (\<lambda>n vs. length vs \<le> unat n \<and> unat n \<le> 3) ds vss"
    and "\<forall>i < length vss. length (vss ! i) < unat (ds ! i) \<longrightarrow> concat (drop (Suc i) vss) @ rest = []"
    and "sum_list (map unat (take p ds)) \<le> length (concat vss @ rest)"
  shows "length (concat (take p vss)) = sum_list (map unat (take p ds))"
  using assms
proof (induction ds vss arbitrary: p rule: list_all2_induct)
  case (Cons n ns vs vss)
  show ?case
  proof (cases p)
    case (Suc q)
    show ?thesis
    proof (cases "length vs < unat n")
      case True
      then have "concat vss @ rest = []"
        using Cons.prems(1) by (auto dest: spec [of _ 0])
      then have "length (concat vss @ rest) = 0"
        by (simp only: list.size)
      moreover have "unat n \<le> length vs + length (concat vss @ rest)"
        using Cons.prems(2) Suc by simp
      ultimately show ?thesis
        using True by linarith
    next
      case False
      then have eq: "length vs = unat n"
        using Cons.hyps(1) by simp
      have "length (concat (take q vss)) = sum_list (map unat (take q ns))"
      proof (rule Cons.IH)
        show "\<forall>i < length vss. length (vss ! i) < unat (ns ! i) \<longrightarrow> concat (drop (Suc i) vss) @ rest = []"
          using Cons.prems(1) by (auto dest: spec [of _ "Suc i" for i])
        show "sum_list (map unat (take q ns)) \<le> length (concat vss @ rest)"
          using Cons.prems(2) Suc eq by simp
      qed
      then show ?thesis
        using Suc eq by simp
    qed
  qed simp
qed simp

lemma window_commit_values:
  assumes ok: "active_ok limit s d" and limit: "limit \<le> 2 ^ 62" and run: "window_commit n root (dw_window d) s = Inr (w, s')"
  shows "stream s 0 (unat (st_committed_counter s)) @ committed_values n d = stream s 0 (unat (st_committed_counter s'))"
    "\<not> wn_active w" "same_identity s s'"
proof -
  let ?w = "dw_window d" and ?p = "unat n"
  let ?t = "wn_transaction ?w" and ?ds = "take ?p (wn_decisions ?w)" and ?c = "st_committed_counter s"
  obtain t where com: "commit_transaction ?t (committed_draws ?ds) (wn_accepted_prefix ?w + n) root s = Inr (t, s')"
      and w: "w = ?w\<lparr>wn_transaction := t, wn_active := False\<rparr>" and p: "?p \<le> length (wn_decisions ?w)"
    using run by (auto simp: window_commit_def split: if_splits sum.splits)
  have fit: "committed_draws ?ds \<le> tx_tentative_counter ?t - tx_base_counter ?t" "\<not> UINT64_MAX - ?c < committed_draws ?ds"
      and s': "s' = s\<lparr>st_committed_counter := ?c + committed_draws ?ds, st_committed_prefix := wn_accepted_prefix ?w + n,
         st_root_revision := root, st_active_nonce := 0\<rparr>"
    using com by (auto simp: commit_transaction_def Let_def finish_transaction_def not_less split: if_splits)
  have base: "tx_base_counter ?t = ?c" and V: "tx_base_counter ?t \<le> tx_tentative_counter ?t"
      "concat (dw_decided d) @ dw_pending d = stream s (unat (tx_base_counter ?t)) (unat (tx_tentative_counter ?t))"
      "list_all2 (\<lambda>n vs. length vs \<le> unat n \<and> unat n \<le> 3) (wn_decisions ?w) (dw_decided d)"
      "\<forall>i < length (dw_decided d). length (dw_decided d ! i) < unat (wn_decisions ?w ! i) \<longrightarrow> concat (drop (Suc i) (dw_decided d)) @ dw_pending d = []"
    and room: "length (wn_decisions ?w) \<le> 2 ^ 62"
    using ok limit by (auto simp: active_ok_def tx_current_def values_ok_def flags_ok_def Let_def)
  have small: "unat x \<le> 3" if "x \<in> set (wn_decisions ?w)" for x
    using V(3) that by (auto simp: list_all2_conv_all_nth in_set_conv_nth)
  have sum: "unat (committed_draws ?ds) = sum_list (map unat ?ds)"
    using small room by (intro committed_draws_sum) (auto dest: in_set_takeD)
  have le: "unat ?c \<le> unat (tx_tentative_counter ?t)"
    using V(1) base by (simp add: word_le_nat_alt)
  have fits: "sum_list (map unat ?ds) \<le> unat (tx_tentative_counter ?t) - unat ?c"
    using fit(1) V(1) base by (simp add: word_le_nat_alt unat_sub flip: sum)
  have len: "length (concat (take ?p (dw_decided d))) = sum_list (map unat ?ds)"
    by (rule paid_exactly [OF V(3,4)]) (use V(2) base fits in simp)
  have "concat (dw_decided d) @ dw_pending d =
      concat (take ?p (dw_decided d)) @ concat (drop ?p (dw_decided d)) @ dw_pending d"
    by (metis append_assoc append_take_drop_id concat_append)
  then have "committed_values n d = take (sum_list (map unat ?ds)) (concat (dw_decided d) @ dw_pending d)"
    using len by (simp add: committed_values_def)
  also have "\<dots> = stream s (unat ?c) (unat ?c + sum_list (map unat ?ds))"
    unfolding V(2) base using fits le by (intro stream_take) simp
  finally have "stream s 0 (unat ?c) @ committed_values n d = stream s 0 (unat ?c + sum_list (map unat ?ds))"
    by (simp add: stream_append)
  moreover have "unat (st_committed_counter s') = unat ?c + sum_list (map unat ?ds)"
    using unat_add_checked [OF fit(2)] by (simp add: s' sum)
  ultimately show "stream s 0 (unat ?c) @ committed_values n d = stream s 0 (unat (st_committed_counter s'))"
    by simp
  show "\<not> wn_active w" "same_identity s s'"
    by (simp_all add: w s' same_identity_def)
qed


section \<open>Every call\<close>

lemma rollback_current:
  assumes "tx_current s t"
  shows "rollback_transaction t s =
    (if st_cancelled s \<and> \<not> tx_publication_claimed t then Inl Logic_error else Inr (finish_transaction t s))"
  using require_current_iff [OF assms] by (simp add: rollback_transaction_def)

lemma window_rollback_ok:
  assumes ok: "active_ok limit s d" and run: "window_rollback (dw_window d) s = (r, w, s')"
  shows "if wn_active w then s' = s \<and> active_ok limit s (d\<lparr>dw_window := w\<rparr>)
    else same_identity s s' \<and> st_committed_counter s' = st_committed_counter s"
proof (cases "st_cancelled s \<and> \<not> tx_publication_claimed (wn_transaction (dw_window d))")
  case True
  have act: "wn_active (dw_window d)" and cur: "tx_current s (wn_transaction (dw_window d))" and vals: "values_ok s d" and flags: "flags_ok limit s d"
    using ok by (simp_all add: active_ok_def)
  have w: "w = (dw_window d)\<lparr>wn_pending_proposal := False, wn_pending_acceptance := False\<rparr>" "s' = s"
    using run True act by (auto simp: window_rollback_def rollback_current [OF cur] Let_def)
  have "values_ok s (d\<lparr>dw_window := w\<rparr>)"
    using vals by (rule values_same) (simp_all add: w)
  then show ?thesis
    using act cur flags True by (auto simp: active_ok_def flags_ok_def Let_def w halted_def)
next
  case False
  have act: "wn_active (dw_window d)" and cur: "tx_current s (wn_transaction (dw_window d))"
    using ok by (simp_all add: active_ok_def)
  then show ?thesis
    using run False by (auto simp: window_rollback_def rollback_current [OF cur] Let_def finish_transaction_def same_identity_def)
qed

lemma marks_ok:
  assumes ok: "active_ok limit s d" and w: "wn_decisions w = wn_decisions (dw_window d)" "wn_active w"
      "wn_maximum_tokens w = wn_maximum_tokens (dw_window d)" "wn_pending_proposal w = wn_pending_proposal (dw_window d)"
      "wn_pending_acceptance w = wn_pending_acceptance (dw_window d)"
    and t: "wn_transaction w = (wn_transaction (dw_window d))\<lparr>tx_publication_claimed := b\<rparr>"
  shows "active_ok limit s (d\<lparr>dw_window := w\<rparr>)"
proof -
  have "tx_current s (wn_transaction w) = tx_current s (wn_transaction (dw_window d))"
    by (simp add: tx_current_def t)
  moreover have "values_ok s (d\<lparr>dw_window := w\<rparr>) = values_ok s d" "flags_ok limit s (d\<lparr>dw_window := w\<rparr>) = flags_ok limit s d"
    by (simp_all add: values_ok_def flags_ok_def Let_def halted_def w t)
  ultimately show ?thesis
    using ok w(2) by (simp add: active_ok_def)
qed

lemma seal_ok:
  assumes "active_ok limit s d" "seal_stop_boundary (dw_window d) = Inr w"
  shows "active_ok limit s (d\<lparr>dw_window := w\<rparr>)"
  using assms(1) by (rule marks_ok [where b = "tx_publication_claimed (wn_transaction (dw_window d))"])
    (use assms in \<open>auto simp: seal_stop_boundary_def active_ok_def split: if_splits\<close>)

lemma claim_ok:
  assumes "active_ok limit s d" "window_claim_publication (dw_window d) s = Inr w"
  shows "active_ok limit s (d\<lparr>dw_window := w\<rparr>)"
  using assms(1) by (rule marks_ok [where b = True])
    (use assms in \<open>auto simp: window_claim_publication_def claim_publication_def active_ok_def split: if_splits sum.splits\<close>)

definition step_ok :: "nat \<Rightarrow> sampling_state \<Rightarrow> drawn_window option \<times> sampling_state \<times> u64 list \<Rightarrow> bool" where
  "step_ok limit s r \<longleftrightarrow>
     (case r of (d', s', vs) \<Rightarrow>
        same_identity s s' \<and> stream s 0 (unat (st_committed_counter s)) @ vs = stream s 0 (unat (st_committed_counter s')) \<and>
        (case d' of None \<Rightarrow> True | Some e \<Rightarrow> wn_active (dw_window e) \<longrightarrow> s' = s \<and> active_ok limit s e))"

lemma same_identity_refl [simp]: "same_identity s s"
  by (simp add: same_identity_def)

lemma step_ok_same: "active_ok limit s e \<Longrightarrow> step_ok limit s (Some e, s, [])"
  by (simp add: step_ok_def)

lemma commit_step_ok:
  assumes "active_ok limit s d" "limit \<le> 2 ^ 62" "window_commit n root (dw_window d) s = Inr (w, s')"
  shows "step_ok limit s (Some (d\<lparr>dw_window := w\<rparr>), s', committed_values n d)"
  using window_commit_values [OF assms] by (simp add: step_ok_def)

lemma destroy_step_ok:
  assumes "active_ok limit s d"
  shows "step_ok limit s (None, window_destroy (dw_window d) s, [])"
  using assms rollback_current [of s "wn_transaction (dw_window d)"]
  by (auto simp: step_ok_def window_destroy_def active_ok_def finish_transaction_def same_identity_def)

lemma window_step_ok:
  assumes ok: "active_ok limit s d" and limit: "limit \<le> 2 ^ 62"
  shows "step_ok limit s (window_step c d s)"
proof (cases c)
  case Draw_proposal
  then show ?thesis
    using draw_proposal_ok [OF ok] by (auto intro: step_ok_same split: prod.split)
next
  case Draw_acceptance
  then show ?thesis
    using draw_acceptance_ok [OF ok] by (auto intro: step_ok_same split: prod.split)
next
  case Accept
  then show ?thesis
    using accept_ok [OF ok] ok by (auto intro: step_ok_same split: sum.split)
next
  case Reject
  obtain r w where run: "reject_and_draw_correction (dw_window d) s = (r, w)"
    by (cases "reject_and_draw_correction (dw_window d) s")
  show ?thesis
    using reject_ok [OF ok run] ok by (cases r) (simp_all add: Reject run step_ok_same)
next
  case Seal
  then show ?thesis
    using seal_ok [OF ok] ok by (auto intro: step_ok_same split: sum.split)
next
  case Claim
  then show ?thesis
    using claim_ok [OF ok] ok by (auto intro: step_ok_same split: sum.split)
next
  case (Commit_window n root)
  then show ?thesis
    using commit_step_ok [OF ok limit] ok by (auto intro: step_ok_same split: sum.split prod.split)
next
  case (Commit_model n terminal publish root)
  then show ?thesis
    using commit_step_ok [OF ok limit] ok
    by (auto simp: commit_model_after_resident_def intro: step_ok_same split: sum.splits prod.splits if_splits)
next
  case Rollback
  then show ?thesis
    using window_rollback_ok [OF ok] by (auto simp: step_ok_def split: prod.split if_splits)
next
  case Destroy
  then show ?thesis
    using destroy_step_ok [OF ok] by simp
qed

text \<open>A window that is not active refuses every call.\<close>

lemma window_step_inactive:
  assumes "\<not> wn_active (dw_window d)" "window_step c d s = (d', s', vs)"
  shows "s' = s \<and> vs = [] \<and> (d' = None \<or> d' = Some d)"
  using assms
  by (cases c) (auto simp: draw_proposal_def draw_acceptance_def accept_proposal_def reject_and_draw_correction_def seal_stop_boundary_def
      window_claim_publication_def commit_model_after_resident_def window_commit_def window_rollback_def window_destroy_def
      require_pending_def require_open_def add_drawn_def split: if_splits)


definition no_active :: "drawn_window option list \<Rightarrow> bool" where
  "no_active ws \<longleftrightarrow> list_all (\<lambda>x. case x of None \<Rightarrow> True | Some d \<Rightarrow> \<not> wn_active (dw_window d)) ws"

lemma sampler_invI:
  assumes "limit \<le> 2 ^ 62" "sm_published m = stream (sm_state m) 0 (unat (st_committed_counter (sm_state m)))"
    and each: "\<And>j d. j < length (sm_windows m) \<Longrightarrow> sm_windows m ! j = Some d \<Longrightarrow> window_ok limit (sm_state m) d"
    and unique: "\<And>i j d e. i < length (sm_windows m) \<Longrightarrow> j < length (sm_windows m) \<Longrightarrow> sm_windows m ! i = Some d \<Longrightarrow>
      sm_windows m ! j = Some e \<Longrightarrow> wn_active (dw_window d) \<Longrightarrow> wn_active (dw_window e) \<Longrightarrow> i = j"
  shows "sampler_inv limit m"
proof -
  have "list_all (\<lambda>x. case x of None \<Rightarrow> True | Some d \<Rightarrow> window_ok limit (sm_state m) d) (sm_windows m)"
    using each by (auto simp: list_all_length split: option.split)
  then show ?thesis
    using assms(1,2) unique unfolding sampler_inv_def by blast
qed

lemma sampler_inv_window:
  assumes "sampler_inv limit m" "j < length (sm_windows m)" "sm_windows m ! j = Some d"
  shows "window_ok limit (sm_state m) d"
  using assms by (auto simp: sampler_inv_def list_all_length dest: spec [of _ j])

lemma sampler_inv_unique:
  assumes "sampler_inv limit m" "i < length (sm_windows m)" "j < length (sm_windows m)" "sm_windows m ! i = Some d"
    "sm_windows m ! j = Some e" "wn_active (dw_window d)" "wn_active (dw_window e)"
  shows "i = j"
  using assms unfolding sampler_inv_def by blast

lemma sampler_inv_facts:
  assumes "sampler_inv limit m"
  shows "limit \<le> 2 ^ 62" "sm_published m = stream (sm_state m) 0 (unat (st_committed_counter (sm_state m)))"
  using assms by (simp_all add: sampler_inv_def)

lemma no_active_inv:
  assumes "no_active ws" "limit \<le> 2 ^ 62" "published = stream s 0 (unat (st_committed_counter s))"
  shows "sampler_inv limit \<lparr>sm_state = s, sm_windows = ws, sm_published = published\<rparr>"
proof -
  have each: "\<not> wn_active (dw_window d)" if "i < length ws" "ws ! i = Some d" for i d
    using assms(1) that by (auto simp: no_active_def list_all_length dest: spec [of _ i])
  then have "list_all (\<lambda>x. case x of None \<Rightarrow> True | Some d \<Rightarrow> window_ok limit s d) ws"
    by (auto simp: list_all_length window_ok_def split: option.split)
  then show ?thesis
    using assms(2,3) each by (auto simp: sampler_inv_def)
qed

lemma idle_no_active:
  assumes "sampler_inv limit m" "st_active_nonce (sm_state m) = 0"
  shows "no_active (sm_windows m)"
  using assms by (auto simp: sampler_inv_def no_active_def list_all_iff window_ok_def tx_current_def split: option.splits)

lemma state_step_inv:
  assumes inv: "sampler_inv limit m" and idle: "st_active_nonce (sm_state m) = 0"
    and s: "same_identity (sm_state m) s" "st_committed_counter s = st_committed_counter (sm_state m)"
  shows "sampler_inv limit (m\<lparr>sm_state := s\<rparr>)"
proof -
  have "sampler_inv limit \<lparr>sm_state = s, sm_windows = sm_windows m, sm_published = sm_published m\<rparr>"
    using idle_no_active [OF inv idle] by (rule no_active_inv) (use inv s in \<open>simp_all add: sampler_inv_def same_stream\<close>)
  then show ?thesis
    by (cases m) simp
qed

lemma cancel_fields [simp]:
  "st_self (cancel_sampling s) = st_self s" "st_active_nonce (cancel_sampling s) = st_active_nonce s"
  "st_acquisition (cancel_sampling s) = st_acquisition s" "st_root_revision (cancel_sampling s) = st_root_revision s"
  "st_committed_counter (cancel_sampling s) = st_committed_counter s" "halted (cancel_sampling s) w"
  by (simp_all add: cancel_sampling_def halted_def)

lemma cancel_stream [simp]: "stream (cancel_sampling s) = stream s"
  by (rule same_stream) (simp add: same_identity_def cancel_sampling_def)

lemma cancel_window_ok: "window_ok limit s d \<Longrightarrow> window_ok limit (cancel_sampling s) d"
  by (auto simp: window_ok_def tx_current_def values_ok_def flags_ok_def Let_def)

lemma cancel_sampler_inv:
  assumes inv: "sampler_inv limit m"
  shows "sampler_inv limit (m\<lparr>sm_state := cancel_sampling (sm_state m)\<rparr>)"
proof (rule sampler_invI)
  show "i = j" if "i < length (sm_windows (m\<lparr>sm_state := cancel_sampling (sm_state m)\<rparr>))"
    "j < length (sm_windows (m\<lparr>sm_state := cancel_sampling (sm_state m)\<rparr>))"
    "sm_windows (m\<lparr>sm_state := cancel_sampling (sm_state m)\<rparr>) ! i = Some d"
    "sm_windows (m\<lparr>sm_state := cancel_sampling (sm_state m)\<rparr>) ! j = Some e"
    "wn_active (dw_window d)" "wn_active (dw_window e)" for i j d e
    using sampler_inv_unique [OF inv, of i j d e] that by simp
qed (use sampler_inv_facts [OF inv] sampler_inv_window [OF inv] in \<open>simp_all add: cancel_window_ok\<close>)

lemma open_inv:
  assumes inv: "sampler_inv limit m" and new: "window_new limit n maximum (sm_state m) = Inr (w, s)"
  shows "sampler_inv limit (m\<lparr>sm_state := s, sm_windows := sm_windows m @ [Some \<lparr>dw_window = w, dw_decided = [], dw_pending = []\<rparr>]\<rparr>)"
proof -
  let ?s = "sm_state m" and ?d = "\<lparr>dw_window = w, dw_decided = [], dw_pending = []\<rparr>"
  obtain t where dec: "prepare_decisions limit n maximum = Inr []" and beg: "begin_transaction n ?s = Inr (t, s)"
      and w: "w = \<lparr>wn_accepted_prefix = n, wn_maximum_tokens = maximum, wn_decisions = [],
               wn_transaction = t, wn_active = True, wn_pending_proposal = False, wn_pending_acceptance = False,
               wn_sealed = False, wn_publication_claimed = False\<rparr>"
    using new by (auto simp: window_new_def prepare_decisions_def split: sum.splits if_splits)
  have idle: "st_active_nonce ?s = 0" and t: "tx_current s t" "tx_tentative_counter t = tx_base_counter t"
    and s: "same_identity ?s s" "st_committed_counter s = st_committed_counter ?s"
    using beg by (auto simp: begin_transaction_def tx_current_def same_identity_def split: if_splits)
  have "unat maximum \<le> limit"
    using dec by (auto simp: prepare_decisions_def split: if_splits)
  then have new_ok: "window_ok limit s ?d"
    using t by (simp add: window_ok_def w values_ok_def flags_ok_def Let_def)
  have none: "no_active (sm_windows m)"
    by (rule idle_no_active [OF inv idle])
  note old = state_step_inv [OF inv idle s]
  have "\<not> wn_active (dw_window d)" if "i < length (sm_windows m)" "sm_windows m ! i = Some d" for i d
    using none that by (auto simp: no_active_def list_all_length dest: spec [of _ i])
  then show ?thesis
    using old new_ok by (auto simp: sampler_inv_def nth_append less_Suc_eq split: if_splits)
qed

lemma on_window_inv:
  assumes inv: "sampler_inv limit m" and i: "i < length (sm_windows m)" "sm_windows m ! i = Some d"
    and run: "window_step c d (sm_state m) = (d', s, vs)"
  shows "sampler_inv limit (m\<lparr>sm_state := s, sm_windows := (sm_windows m)[i := d'], sm_published := sm_published m @ vs\<rparr>)"
proof (cases "wn_active (dw_window d)")
  case True
  let ?s = "sm_state m" and ?ws = "(sm_windows m)[i := d']"
  have base: "limit \<le> 2 ^ 62" "active_ok limit ?s d" "sm_published m = stream ?s 0 (unat (st_committed_counter ?s))"
    using inv i True by (auto simp: sampler_inv_def window_ok_active list_all_length dest: spec [of _ i])
  have others: "\<not> wn_active (dw_window e)" if "j < length (sm_windows m)" "sm_windows m ! j = Some e" "j \<noteq> i" for j e
    using inv i True that unfolding sampler_inv_def by blast
  have ok: "same_identity ?s s" "stream ?s 0 (unat (st_committed_counter ?s)) @ vs = stream ?s 0 (unat (st_committed_counter s))"
      "case d' of None \<Rightarrow> True | Some e \<Rightarrow> wn_active (dw_window e) \<longrightarrow> s = ?s \<and> active_ok limit ?s e"
    using window_step_ok [OF base(2,1), of c] by (simp_all add: run step_ok_def)
  have pub: "sm_published m @ vs = stream s 0 (unat (st_committed_counter s))"
    using base(3) ok by (simp add: same_stream)
  have at: "j = i \<and> d' = Some e" if "j < length (sm_windows m)" "?ws ! j = Some e" "wn_active (dw_window e)" for j e
    using others [of j e] that i by (cases "j = i") auto
  have each: "window_ok limit s e" if "j < length (sm_windows m)" "?ws ! j = Some e" for j e
    using at [OF that] ok(3) by (cases "wn_active (dw_window e)") (auto simp: window_ok_def active_ok_def)
  have "j = k" if "j < length (sm_windows m)" "k < length (sm_windows m)" "?ws ! j = Some e" "?ws ! k = Some f"
      "wn_active (dw_window e)" "wn_active (dw_window f)" for j k e f
    using at [of j e] at [of k f] that by blast
  then show ?thesis
    using base(1) pub each by (intro sampler_invI) simp_all
next
  case False
  have run': "s = sm_state m" "vs = []" "d' = None \<or> d' = Some d"
    using window_step_inactive [OF False run] by auto
  have eq: "sm_windows m ! j = Some e" if "j < length (sm_windows m)" "(sm_windows m)[i := d'] ! j = Some e" for j e
    using that i run'(3) by (cases "j = i") auto
  have each: "window_ok limit (sm_state m) e" if "j < length (sm_windows m)" "(sm_windows m)[i := d'] ! j = Some e" for j e
    using sampler_inv_window [OF inv that(1) eq [OF that]] .
  have "j = k" if "j < length (sm_windows m)" "k < length (sm_windows m)" "(sm_windows m)[i := d'] ! j = Some e"
      "(sm_windows m)[i := d'] ! k = Some f" "wn_active (dw_window e)" "wn_active (dw_window f)" for j k e f
    using sampler_inv_unique [OF inv that(1,2) eq [OF that(1,3)] eq [OF that(2,4)] that(5,6)] .
  then show ?thesis
    using run'(1,2) each sampler_inv_facts [OF inv] by (intro sampler_invI) simp_all
qed

lemma sampling_step_inv: "sampler_inv limit m \<Longrightarrow> sampler_inv limit (sampling_step limit c m)"
proof (cases c)
  case (Bind a root n)
  assume inv: "sampler_inv limit m"
  then show ?thesis
    using state_step_inv [OF inv]
    by (cases "bind_acquisition a root n (sm_state m)") (auto simp: Bind bind_acquisition_def same_identity_def split: if_splits)
next
  case (Forced n root)
  assume inv: "sampler_inv limit m"
  then show ?thesis
    using state_step_inv [OF inv]
    by (cases "commit_forced_control_after_resident n root (sm_state m)")
      (auto simp: Forced commit_forced_control_after_resident_def advance_forced_control_def same_identity_def split: if_splits)
next
  case Cancel
  assume "sampler_inv limit m"
  then show ?thesis
    by (simp add: Cancel cancel_sampler_inv)
next
  case (Open n maximum)
  assume inv: "sampler_inv limit m"
  then show ?thesis
    using open_inv [OF inv] by (simp add: Open split: sum.split prod.split)
next
  case (On_window i w)
  assume inv: "sampler_inv limit m"
  then show ?thesis
    using on_window_inv [OF inv] by (simp add: On_window split: option.split prod.split)
qed

lemma same_identity_trans: "same_identity a b \<Longrightarrow> same_identity b c \<Longrightarrow> same_identity a c"
  by (simp add: same_identity_def)

lemma window_step_identity:
  assumes inv: "sampler_inv limit m" and i: "i < length (sm_windows m)" "sm_windows m ! i = Some d"
    and run: "window_step c d (sm_state m) = (d', s, vs)"
  shows "same_identity (sm_state m) s"
proof (cases "wn_active (dw_window d)")
  case True
  then have "active_ok limit (sm_state m) d"
    using sampler_inv_window [OF inv i] by (simp add: window_ok_active)
  then show ?thesis
    using window_step_ok [OF _ sampler_inv_facts(1) [OF inv], of "sm_state m" d c] by (simp add: run step_ok_def)
qed (use window_step_inactive [OF _ run] in simp)

lemma sampling_step_identity:
  assumes inv: "sampler_inv limit m"
  shows "same_identity (sm_state m) (sm_state (sampling_step limit c m))"
proof (cases c)
  case (On_window i w)
  then show ?thesis
    using window_step_identity [OF inv] by (simp split: option.split prod.split)
qed (auto simp: bind_acquisition_def commit_forced_control_after_resident_def advance_forced_control_def cancel_sampling_def
    window_new_def begin_transaction_def same_identity_def split: sum.split)

interpretation sampling_calls: call_system "sampling_step limit" "\<lambda>m. sampler_inv limit m \<and> same_identity s (sm_state m)"
  for limit :: nat and s :: sampling_state
  by unfold_locales (blast intro: sampling_step_inv sampling_step_identity same_identity_trans)

text \<open>
  C35. Through every sequence of calls on a request and its windows, the random numbers behind the committed
  tokens are the values number 0, 1, 2, ... of one stream, which the seed, the input and the generation of the request
  determine; no value is left out and none is used for two tokens. An open window has drawn exactly the
  values that follow, whatever windows before it were rolled back, destroyed or cancelled.
\<close>

theorem committed_draws_follow_stream:
  assumes "sampling_new self epoch generation fingerprint seed = Inr s" "limit \<le> 2 ^ 62"
    and m: "m = fold (sampling_step limit) cs (sampler_start s)"
  shows "sm_published m =
      map (\<lambda>k. splitmix (seed XOR fingerprint XOR generation XOR of_nat k)) [0 ..< unat (st_committed_counter (sm_state m))] \<and>
    (\<forall>d. Some d \<in> set (sm_windows m) \<and> wn_active (dw_window d) \<longrightarrow>
      concat (dw_decided d) @ dw_pending d =
        map (\<lambda>k. splitmix (seed XOR fingerprint XOR generation XOR of_nat k))
          [unat (st_committed_counter (sm_state m)) ..< unat (tx_tentative_counter (wn_transaction (dw_window d)))])"
proof -
  have s: "st_seed s = seed" "st_input_fingerprint s = fingerprint" "st_request_generation s = generation" "st_committed_counter s = 0"
    using assms(1) by (auto simp: sampling_new_def split: if_splits)
  have start: "sampler_inv limit (sampler_start s) \<and> same_identity s (sm_state (sampler_start s))"
    using assms(2) s(4) by (simp add: sampler_inv_def sampler_start_def)
  have inv: "sampler_inv limit m" and id: "same_identity s (sm_state m)"
    using sampling_calls.run_inv [OF start, of cs] by (simp_all add: m)
  have str: "stream (sm_state m) a b = map (\<lambda>k. splitmix (seed XOR fingerprint XOR generation XOR of_nat k)) [a ..< b]" for a b
    unfolding same_stream [OF id] by (simp add: stream_def draw_value_def s)
  have "concat (dw_decided d) @ dw_pending d = stream (sm_state m) (unat (st_committed_counter (sm_state m)))
      (unat (tx_tentative_counter (wn_transaction (dw_window d))))" if "Some d \<in> set (sm_windows m)" "wn_active (dw_window d)" for d
  proof -
    have "window_ok limit (sm_state m) d"
      using sampler_inv_window [OF inv] that(1) by (metis in_set_conv_nth)
    then show ?thesis
      using that(2) by (simp add: window_ok_def tx_current_def values_ok_def Let_def)
  qed
  then show ?thesis
    using sampler_inv_facts(2) [OF inv] by (simp add: str)
qed

section \<open>A concrete request\<close>

definition sample_request :: sampling_state where
  "sample_request = \<lparr>st_self = 1, st_engine_epoch = 3, st_request_generation = 5, st_input_fingerprint = 7, st_seed = 11,
     st_acquisition = 0, st_committed_counter = 0, st_next_nonce = 1, st_active_nonce = 0, st_committed_prefix = 0,
     st_root_revision = Null, st_cancelled = False\<rparr>"

lemma sample_request_new: "sampling_new 1 3 5 7 11 = Inr sample_request"
  by code_simp

definition sample_draws :: "sampling_call list" where
  "sample_draws = [Bind 9 (Owned (1, 1)) 64, Open 64 4] @
     map (On_window 0) [Draw_proposal, Draw_acceptance, Accept, Draw_proposal, Draw_acceptance, Reject, Claim,
       Commit_model 1 False False (Owned (2, 2)), Destroy] @
     [Open 65 4, On_window 1 Draw_proposal]"

text \<open>One of two decided tokens is published; the next window draws again the value of the decision that was not.\<close>

theorem committed_draws_follow_stream_witness:
  "let m = fold (sampling_step 4096) sample_draws (sampler_start sample_request)
   in sm_published m = [splitmix 9, splitmix 8] \<and> map (map_option dw_pending) (sm_windows m) = [None, Some [splitmix 11]]"
proof -
  define m where "m = fold (sampling_step 4096) sample_draws (sampler_start sample_request)"
  note W = committed_draws_follow_stream [OF sample_request_new _ m_def]
  have facts: "st_committed_counter (sm_state m) = 2 \<and>
      map (map_option (\<lambda>d. (wn_active (dw_window d), tx_tentative_counter (wn_transaction (dw_window d)), dw_decided d))) (sm_windows m) =
        [None, Some (True, 3, [])]"
    unfolding m_def by code_simp
  then obtain d where d: "sm_windows m = [None, Some d]" "wn_active (dw_window d)"
      "tx_tentative_counter (wn_transaction (dw_window d)) = 3" "dw_decided d = []"
    by (auto simp: map_eq_Cons_conv)
  have "[0 ..< 2 :: nat] = [0, 1]"
    by (simp add: upt_rec)
  then have "sm_published m = [splitmix 9, splitmix 8]"
    using W facts by simp
  moreover have "dw_pending d = [splitmix 11]"
    using W facts d by simp
  ultimately show ?thesis
    unfolding Let_def m_def [symmetric] using d by simp
qed

end
