(* ===== verification/Reserved_Payload.thy ===== *)
theory Reserved_Payload
  imports Resident_Ranges
begin

text \<open>
  Model of \<open>reserved_host_payload_union.h\<close> and \<open>retained_descriptor_ledger.h\<close>: how many of the host bytes reserved
  for payloads are still to be paid for, given the page ranges that are resident already or about to be.

  Addresses are \<open>nat\<close> as in the resident ranges; the code adds only below a check and subtracts the smaller
  number, so nothing wraps, except for the masks of the page rounding, which are modelled on 64-bit
  words. A ledger counts \<open>std::uint64_t\<close> bytes in a word. A \<open>weak_ptr\<close> of the tracker is the address and the
  control block it was made from; it can be locked while its control block is not among the expired ones.

  The theorems: the union of a tracker never throws and its payloads are disjoint; the additional bytes are
  the reserved bytes less those addresses of live payloads that the given ranges cover, with exact error
  conditions; the page bytes are the size of the union of the rounded payloads; a ledger counts exactly its tickets.
\<close>

unbundle bit_operations_syntax

section \<open>Ledgers\<close>

record ticket =
  tk_state :: "nat option"
  tk_bytes :: u64

definition ledger_acquire :: "nat \<Rightarrow> u64 \<Rightarrow> u64 \<Rightarrow> exn + ticket \<times> u64" where
  "ledger_acquire state bytes old =
     (if UINT64_MAX - old < bytes then Inl Overflow_error
      else Inr (\<lparr>tk_state = Some state, tk_bytes = bytes\<rparr>, old + bytes))"

definition ticket_move :: "ticket \<Rightarrow> ticket \<times> ticket" where
  "ticket_move other = (other, \<lparr>tk_state = None, tk_bytes = 0\<rparr>)"

definition ticket_split :: "u64 \<Rightarrow> ticket \<Rightarrow> ticket option \<times> ticket" where
  "ticket_split bytes t =
     (if tk_state t = None \<or> bytes = 0 \<or> tk_bytes t < bytes then (None, t)
      else (Some \<lparr>tk_state = tk_state t, tk_bytes = bytes\<rparr>, t\<lparr>tk_bytes := tk_bytes t - bytes\<rparr>))"

definition ticket_destroy :: "ticket \<Rightarrow> u64 \<Rightarrow> u64" where
  "ticket_destroy t bytes = (if tk_state t = None then bytes else bytes - tk_bytes t)"

section \<open>Payload unions\<close>

type_synonym payload_owner = "(nat \<times> nat) shared_ptr"

definition same_owner :: "payload_owner \<Rightarrow> payload_owner \<Rightarrow> bool" where
  "same_owner a b \<longleftrightarrow>
     (case (a, b) of (Owned (p, c), Owned (q, d)) \<Rightarrow> p = q \<and> c = d | _ \<Rightarrow> False)"

text \<open>A pointer that is not null and has an owner.\<close>

definition owner_present :: "payload_owner \<Rightarrow> bool" where
  "owner_present a \<longleftrightarrow> (case a of Owned (p, c) \<Rightarrow> p \<noteq> 0 | _ \<Rightarrow> False)"

record payload =
  pl_owner :: payload_owner
  pl_plane :: nat
  pl_first :: nat
  pl_last :: nat

fun payload_conflict :: "payload_owner \<Rightarrow> nat \<Rightarrow> nat \<Rightarrow> nat \<Rightarrow> payload list \<Rightarrow> exn + bool" where
  "payload_conflict owner plane first stop [] = Inr False"
| "payload_conflict owner plane first stop (e # es) =
     (if same_owner owner (pl_owner e) \<and> plane = pl_plane e then
        (if first \<noteq> pl_first e \<or> stop \<noteq> pl_last e then Inl Invalid_argument else Inr True)
      else if first < pl_last e \<and> pl_first e < stop then Inl Invalid_argument
      else payload_conflict owner plane first stop es)"

definition union_add :: "nat \<Rightarrow> payload_owner \<Rightarrow> nat \<Rightarrow> nat \<Rightarrow> nat \<Rightarrow> payload list \<Rightarrow> exn + payload list" where
  "union_add cap owner plane first bytes es =
     (if \<not> owner_present owner \<or> first = 0 \<or> bytes = 0 \<or> SIZE_MAX - first < bytes then Inl Invalid_argument
      else case payload_conflict owner plane first (first + bytes) es of
        Inl e \<Rightarrow> Inl e
      | Inr True \<Rightarrow> Inr es
      | Inr False \<Rightarrow> if length es = cap then Inl Length_error
          else Inr (es @ [\<lparr>pl_owner = owner, pl_plane = plane, pl_first = first, pl_last = first + bytes\<rparr>]))"

text \<open>The check that a span of ranges is sorted and disjoint.\<close>

fun is_union :: "nat \<Rightarrow> resident_range list \<Rightarrow> bool" where
  "is_union previous [] = True"
| "is_union previous (r # rs) = (\<not> (snd r \<le> fst r \<or> fst r < previous) \<and> is_union (snd r) rs)"

text \<open>The walk over both unions in the order of their first addresses, for a payload that ends at \<open>stop\<close>.\<close>

definition take_old :: "resident_range list \<Rightarrow> resident_range list \<Rightarrow> bool" where
  "take_old old incoming \<longleftrightarrow> incoming = [] \<or> (old \<noteq> [] \<and> fst (hd old) \<le> fst (hd incoming))"

function uncovered :: "nat \<Rightarrow> nat \<Rightarrow> nat \<Rightarrow> resident_range list \<Rightarrow> resident_range list \<Rightarrow> nat" where
  "uncovered stop remaining covered_end old incoming =
     (if old = [] \<and> incoming = [] then remaining
      else let use_old = take_old old incoming;
               r = (if use_old then hd old else hd incoming);
               old' = (if use_old then tl old else old);
               incoming' = (if use_old then incoming else tl incoming)
        in if stop \<le> fst r then remaining
           else let first = max covered_end (fst r); last = min stop (snd r) in
             if first < last then uncovered stop (remaining - (last - first)) last old' incoming'
             else uncovered stop remaining covered_end old' incoming')"
  by pat_completeness auto

termination
  by (relation "measure (\<lambda>(_, _, _, old, incoming). length old + length incoming)")
    (auto simp: take_old_def split: if_splits simp flip: length_greater_0_conv)

fun sum_uncovered :: "resident_range list \<Rightarrow> resident_range list \<Rightarrow> payload list \<Rightarrow> nat \<Rightarrow> exn + nat" where
  "sum_uncovered old incoming [] acc = Inr acc"
| "sum_uncovered old incoming (e # es) acc =
     (let remaining = uncovered (pl_last e) (pl_last e - pl_first e) (pl_first e) old incoming in
      if SIZE_MAX - acc < remaining then Inl Overflow_error
      else sum_uncovered old incoming es (acc + remaining))"

definition bytes_outside :: "resident_range list \<Rightarrow> resident_range list \<Rightarrow> payload list \<Rightarrow> exn + nat" where
  "bytes_outside old incoming es =
     (if \<not> is_union 0 old \<or> \<not> is_union 0 incoming then Inl Invalid_argument
      else sum_uncovered old incoming es 0)"

subsection \<open>Page rounding\<close>

definition page_floor :: "u64 \<Rightarrow> nat \<Rightarrow> nat" where
  "page_floor page a = unat ((of_nat a :: u64) AND NOT (page - 1))"

fun round_payloads :: "u64 \<Rightarrow> payload list \<Rightarrow> exn + resident_range list" where
  "round_payloads page [] = Inr []"
| "round_payloads page (e # es) =
     (if SIZE_MAX - (unat page - 1) < pl_last e then Inl Overflow_error
      else case round_payloads page es of Inl x \<Rightarrow> Inl x
        | Inr rs \<Rightarrow> Inr ((page_floor page (pl_first e), page_floor page (pl_last e + unat page - 1)) # rs))"

fun sweep :: "resident_range list \<Rightarrow> nat \<Rightarrow> nat \<Rightarrow> exn + nat" where
  "sweep [] stop acc = Inr acc"
| "sweep (r # rs) stop acc =
     (let first = max stop (fst r); last = snd r in
      if first < last then
        if SIZE_MAX - acc < last - first then Inl Overflow_error
        else sweep rs (max stop last) (acc + (last - first))
      else sweep rs (max stop last) acc)"

definition page_bytes :: "u64 \<Rightarrow> payload list \<Rightarrow> exn + nat" where
  "page_bytes page es =
     (if page = 0 \<or> page AND (page - 1) \<noteq> 0 then Inl Invalid_argument
      else case round_payloads page es of Inl e \<Rightarrow> Inl e | Inr rs \<Rightarrow> sweep (sort rs) 0 0)"

section \<open>The tracker\<close>

record tracked =
  td_owner :: "(nat \<times> nat) option"
  td_plane :: nat
  td_data :: nat
  td_bytes :: nat

definition tracker_new :: "nat \<Rightarrow> tracked list" where
  "tracker_new cap = replicate cap \<lparr>td_owner = None, td_plane = 0, td_data = 0, td_bytes = 0\<rparr>"

definition weak_lock :: "nat set \<Rightarrow> tracked \<Rightarrow> payload_owner" where
  "weak_lock expired t = (case td_owner t of None \<Rightarrow> Null | Some (p, c) \<Rightarrow> if p = 0 \<or> c \<in> expired then Null else Owned (p, c))"

text \<open>
  The loop of \<open>track\<close>: the union checked so far and the first free slot, or that the payload is already tracked.
\<close>

fun track_scan :: "nat \<Rightarrow> nat set \<Rightarrow> payload_owner \<Rightarrow> nat \<Rightarrow> nat \<Rightarrow> nat \<Rightarrow> tracked list \<Rightarrow> nat \<Rightarrow> nat \<Rightarrow> payload list \<Rightarrow>
    exn + (nat \<times> payload list) option" where
  "track_scan cap expired owner plane data bytes [] i slot checked = Inr (Some (slot, checked))"
| "track_scan cap expired owner plane data bytes (t # ts) i slot checked =
     (let live = weak_lock expired t in
      if live = Null then track_scan cap expired owner plane data bytes ts (i + 1) (if slot = cap then i else slot) checked
      else case union_add cap live (td_plane t) (td_data t) (td_bytes t) checked of
        Inl e \<Rightarrow> Inl e
      | Inr checked' \<Rightarrow>
          if same_owner live owner \<and> plane = td_plane t then
            (case union_add cap owner plane data bytes checked' of Inl e \<Rightarrow> Inl e | Inr _ \<Rightarrow> Inr None)
          else track_scan cap expired owner plane data bytes ts (i + 1) slot checked')"

definition track :: "nat \<Rightarrow> nat set \<Rightarrow> payload_owner \<Rightarrow> nat \<Rightarrow> nat \<Rightarrow> nat \<Rightarrow> tracked list \<Rightarrow> exn + tracked list" where
  "track cap expired owner plane data bytes ts =
     (case track_scan cap expired owner plane data bytes ts 0 cap [] of
        Inl e \<Rightarrow> Inl e
      | Inr None \<Rightarrow> Inr ts
      | Inr (Some (slot, checked)) \<Rightarrow>
          (case union_add cap owner plane data bytes checked of Inl e \<Rightarrow> Inl e
           | Inr _ \<Rightarrow> if slot = cap then Inl Length_error
               else Inr (ts[slot := \<lparr>td_owner = control_of owner, td_plane = plane, td_data = data, td_bytes = bytes\<rparr>])))"

fun snapshot_loop :: "nat \<Rightarrow> nat set \<Rightarrow> tracked list \<Rightarrow> payload list \<Rightarrow> exn + payload list" where
  "snapshot_loop cap expired [] result = Inr result"
| "snapshot_loop cap expired (t # ts) result =
     (let live = weak_lock expired t in
      if live = Null then snapshot_loop cap expired ts result
      else case union_add cap live (td_plane t) (td_data t) (td_bytes t) result of
        Inl e \<Rightarrow> Inl e | Inr result' \<Rightarrow> snapshot_loop cap expired ts result')"

definition snapshot :: "nat \<Rightarrow> nat set \<Rightarrow> tracked list \<Rightarrow> exn + payload list" where
  "snapshot cap expired ts = snapshot_loop cap expired ts []"

definition additional_bytes :: "nat \<Rightarrow> nat set \<Rightarrow> u64 \<Rightarrow> resident_range list \<Rightarrow> resident_range list \<Rightarrow> tracked list \<Rightarrow> exn + nat" where
  "additional_bytes cap expired ledger old incoming ts =
     (case snapshot cap expired ts of Inl e \<Rightarrow> Inl e
      | Inr live \<Rightarrow> (case bytes_outside [] [] live of Inl e \<Rightarrow> Inl e
      | Inr tracked \<Rightarrow> (case bytes_outside old incoming live of Inl e \<Rightarrow> Inl e
      | Inr outside \<Rightarrow> let reserved = unat ledger in
          if reserved < tracked then Inl Logic_error else Inr (reserved - (tracked - outside)))))"


section \<open>The walk\<close>

lemma is_union_normalized: "is_union 0 rs \<longleftrightarrow> normalized rs"
proof -
  have "is_union n rs \<longleftrightarrow> normalized rs \<and> (\<forall>r \<in> set rs. n \<le> fst r)" for n
  proof (induction rs arbitrary: n)
    case (Cons r rs)
    show ?case
      unfolding is_union.simps Cons.IH normalized_Cons by (auto intro: order.trans less_imp_le)
  qed (simp add: normalized_def)
  then show ?thesis
    by simp
qed

declare uncovered.simps [simp del]

lemma normalized_hd_le: "normalized rs \<Longrightarrow> s \<in> set rs \<Longrightarrow> fst (hd rs) \<le> fst s"
  by (cases rs) (auto simp: normalized_Cons intro: order.trans less_imp_le)

text \<open>The range taken next begins no later than every other range still to come.\<close>

lemma take_old_first:
  assumes "normalized old" "normalized incoming" "\<not> (old = [] \<and> incoming = [])"
    and r: "r = (if take_old old incoming then hd old else hd incoming)"
      "old' = (if take_old old incoming then tl old else old)"
      "incoming' = (if take_old old incoming then incoming else tl incoming)"
  shows "covers old \<union> covers incoming = span r \<union> (covers old' \<union> covers incoming')"
    "x \<in> covers old' \<union> covers incoming' \<Longrightarrow> fst r \<le> x"
    "normalized old'" "normalized incoming'"
proof -
  show "covers old \<union> covers incoming = span r \<union> (covers old' \<union> covers incoming')"
    using assms(3) r by (cases old; cases incoming) (auto simp: take_old_def)
  show "normalized old'" "normalized incoming'"
    using assms(1,2) r by (cases old; cases incoming; simp add: normalized_Cons)+
  show "fst r \<le> x" if "x \<in> covers old' \<union> covers incoming'"
  proof -
    obtain s where s: "s \<in> set old' \<union> set incoming'" "fst s \<le> x"
      using \<open>x \<in> covers old' \<union> covers incoming'\<close> by (auto simp: mem_covers)
    have in_old: "s \<in> set old \<Longrightarrow> fst (hd old) \<le> fst s" and in_incoming: "s \<in> set incoming \<Longrightarrow> fst (hd incoming) \<le> fst s"
      using normalized_hd_le assms(1,2) by blast+
    have tl_old: "set (tl old) \<subseteq> set old" and tl_incoming: "set (tl incoming) \<subseteq> set incoming"
      by (cases old; simp; blast) (cases incoming; simp; blast)
    have "fst r \<le> fst s"
    proof (cases "take_old old incoming")
      case True
      then have "s \<in> set old \<or> s \<in> set incoming" "incoming = [] \<or> fst (hd old) \<le> fst (hd incoming)" "r = hd old"
        using s(1) r tl_old tl_incoming by (auto simp: take_old_def)
      then show ?thesis
        using in_old in_incoming by fastforce
    next
      case False
      then have "s \<in> set old \<or> s \<in> set incoming" "old = [] \<or> fst (hd incoming) \<le> fst (hd old)" "r = hd incoming"
        using s(1) r tl_old tl_incoming by (auto simp: take_old_def)
      then show ?thesis
        using in_old in_incoming by fastforce
    qed
    then show ?thesis
      using s(2) by simp
  qed
qed

text \<open>The walk subtracts the covered addresses at or behind \<open>covered_end\<close>, each once.\<close>

lemma walk_step:
  fixes stop :: nat
  assumes "A = span r \<union> B" "\<And>x. x \<in> B \<Longrightarrow> fst r \<le> x" "max c (fst r) < min stop (snd r)"
  shows "{c ..< stop} \<inter> A = {max c (fst r) ..< min stop (snd r)} \<union> ({min stop (snd r) ..< stop} \<inter> B)"
  using assms by (auto simp: not_less max_def min_def split: if_splits)

lemma uncovered_correct:
  assumes "normalized old" "normalized incoming"
  shows "uncovered stop remaining c old incoming = remaining - card ({c ..< stop} \<inter> (covers old \<union> covers incoming))"
  using assms
proof (induction stop remaining c old incoming rule: uncovered.induct)
  case (1 stop remaining c old incoming)
  show ?case
  proof (cases "old = [] \<and> incoming = []")
    case False
    define r where "r = (if take_old old incoming then hd old else hd incoming)"
    define old' where "old' = (if take_old old incoming then tl old else old)"
    define incoming' where "incoming' = (if take_old old incoming then incoming else tl incoming)"
    note F = take_old_first [OF 1(3,4) False r_def old'_def incoming'_def]
    let ?f = "max c (fst r)" and ?l = "min stop (snd r)" and ?B = "covers old' \<union> covers incoming'"
    have step: "uncovered stop remaining c old incoming =
        (if stop \<le> fst r then remaining
         else if ?f < ?l then uncovered stop (remaining - (?l - ?f)) ?l old' incoming'
         else uncovered stop remaining c old' incoming')"
      by (subst uncovered.simps) (simp only: False if_False Let_def r_def old'_def incoming'_def)
    consider (beyond) "stop \<le> fst r" | (cut) "\<not> stop \<le> fst r" "?f < ?l" | (skip) "\<not> stop \<le> fst r" "\<not> ?f < ?l"
      by blast
    then show ?thesis
    proof cases
      case beyond
      have "{c ..< stop} \<inter> (covers old \<union> covers incoming) = {}"
        unfolding F(1) using F(2) beyond by (fastforce simp del: Un_iff)
      then show ?thesis
        using beyond step by simp
    next
      case cut
      have split: "{c ..< stop} \<inter> (covers old \<union> covers incoming) = {?f ..< ?l} \<union> ({?l ..< stop} \<inter> ?B)"
        using F(1,2) cut(2) by (rule walk_step)
      have card: "card ({c ..< stop} \<inter> (covers old \<union> covers incoming)) = card {?f ..< ?l} + card ({?l ..< stop} \<inter> ?B)"
        unfolding split by (rule card_Un_disjoint) auto
      have IH: "uncovered stop (remaining - (?l - ?f)) ?l old' incoming' = remaining - (?l - ?f) - card ({?l ..< stop} \<inter> ?B)"
        using 1(1) [OF False refl r_def old'_def incoming'_def cut(1) refl refl cut(2) F(3,4)] .
      show ?thesis
        unfolding step card card_atLeastLessThan by (simp only: cut IH if_False if_True diff_diff_left)
    next
      case skip
      have "{c ..< stop} \<inter> span r = {}"
        using skip by (auto simp: max_def min_def split: if_splits)
      then have split: "{c ..< stop} \<inter> (covers old \<union> covers incoming) = {c ..< stop} \<inter> ?B"
        unfolding F(1) by blast
      have IH: "uncovered stop remaining c old' incoming' = remaining - card ({c ..< stop} \<inter> ?B)"
        using 1(2) [OF False refl r_def old'_def incoming'_def skip(1) refl refl skip(2) F(3,4)] .
      show ?thesis
        unfolding step split by (simp only: skip IH if_False)
    qed
  qed (simp add: uncovered.simps)
qed


section \<open>Unions of disjoint payloads\<close>

definition payload_span :: "payload \<Rightarrow> nat set" where
  "payload_span e = {pl_first e ..< pl_last e}"

definition payload_set :: "payload list \<Rightarrow> nat set" where
  "payload_set es = (\<Union>e \<in> set es. payload_span e)"

definition apart :: "payload \<Rightarrow> payload \<Rightarrow> bool" where
  "apart a b \<longleftrightarrow> \<not> (same_owner (pl_owner a) (pl_owner b) \<and> pl_plane a = pl_plane b) \<and>
     (pl_last a \<le> pl_first b \<or> pl_last b \<le> pl_first a)"

definition payload_ok :: "payload \<Rightarrow> bool" where
  "payload_ok e \<longleftrightarrow> owner_present (pl_owner e) \<and> 0 < pl_first e \<and> pl_first e < pl_last e \<and> pl_last e \<le> SIZE_MAX"

definition payloads_ok :: "payload list \<Rightarrow> bool" where
  "payloads_ok es \<longleftrightarrow> list_all payload_ok es \<and> sorted_wrt apart es"

lemma same_owner_commute: "same_owner a b = same_owner b a"
  by (cases a; cases b) (auto simp: same_owner_def)

lemma apart_commute: "apart a b = apart b a"
  by (auto simp: apart_def same_owner_commute)

lemma payloads_ok_simps:
  "payloads_ok []" "payloads_ok (e # es) \<longleftrightarrow> payload_ok e \<and> (\<forall>x \<in> set es. apart e x) \<and> payloads_ok es"
  "payloads_ok (es @ fs) \<longleftrightarrow> payloads_ok es \<and> payloads_ok fs \<and> (\<forall>x \<in> set es. \<forall>y \<in> set fs. apart x y)"
  by (auto simp: payloads_ok_def sorted_wrt_append)

lemma payloads_ok_filter: "payloads_ok es \<Longrightarrow> payloads_ok (filter P es)"
  by (simp add: payloads_ok_def sorted_wrt_filter list_all_iff)

lemma payload_set_finite [simp]: "finite (payload_set es)"
  by (simp add: payload_set_def payload_span_def)

lemma payload_set_card: "payloads_ok es \<Longrightarrow> card (payload_set es) \<le> SIZE_MAX"
proof -
  assume "payloads_ok es"
  then have "payload_set es \<subseteq> {0 ..< SIZE_MAX}"
    by (auto simp: payloads_ok_def payload_set_def payload_span_def payload_ok_def list_all_iff dest: order.strict_trans2)
  then show ?thesis
    using card_mono [of "{0 ..< SIZE_MAX}"] by simp
qed

lemma payload_set_Cons:
  assumes "payloads_ok (e # es)"
  shows "payload_set (e # es) = payload_span e \<union> payload_set es" "payload_span e \<inter> payload_set es = {}"
  using assms by (auto simp: payload_set_def payload_span_def payloads_ok_simps apart_def)

lemma sum_uncovered_correct:
  assumes "normalized old" "normalized incoming" "payloads_ok es"
    and "acc + card (payload_set es - (covers old \<union> covers incoming)) \<le> SIZE_MAX"
  shows "sum_uncovered old incoming es acc = Inr (acc + card (payload_set es - (covers old \<union> covers incoming)))"
  using assms(3,4)
proof (induction es arbitrary: acc)
  case (Cons e es)
  let ?C = "covers old \<union> covers incoming" and ?e = "payload_span e" and ?s = "payload_set es"
  note S = payload_set_Cons [OF Cons.prems(1)]
  have "uncovered (pl_last e) (pl_last e - pl_first e) (pl_first e) old incoming = card ?e - card (?e \<inter> ?C)"
    unfolding uncovered_correct [OF assms(1,2)] by (simp add: payload_span_def)
  also have "\<dots> = card (?e - ?C)"
    by (simp add: card_Diff_subset_Int payload_span_def)
  finally have rem: "uncovered (pl_last e) (pl_last e - pl_first e) (pl_first e) old incoming = card (?e - ?C)" .
  have eq: "payload_set (e # es) - ?C = (?e - ?C) \<union> (?s - ?C)"
    using S(1) by blast
  have "card ((?e - ?C) \<union> (?s - ?C)) = card (?e - ?C) + card (?s - ?C)"
    using S(2) by (intro card_Un_disjoint) (auto simp: payload_span_def)
  then have card: "card (payload_set (e # es) - ?C) = card (?e - ?C) + card (?s - ?C)"
    unfolding eq .
  have "sum_uncovered old incoming es (acc + card (?e - ?C)) = Inr (acc + card (?e - ?C) + card (?s - ?C))"
    using Cons.prems by (intro Cons.IH) (simp_all add: payloads_ok_simps card)
  then show ?case
    using Cons.prems(2) by (simp add: rem card Let_def add.assoc)
qed (simp add: payload_set_def)

lemma bytes_outside_correct:
  assumes "payloads_ok es"
  shows "bytes_outside old incoming es =
    (if normalized old \<and> normalized incoming then Inr (card (payload_set es - (covers old \<union> covers incoming))) else Inl Invalid_argument)"
proof (cases "normalized old \<and> normalized incoming")
  case True
  have "card (payload_set es - (covers old \<union> covers incoming)) \<le> SIZE_MAX"
    by (rule order.trans [OF card_mono payload_set_card [OF assms]]) auto
  then show ?thesis
    using True sum_uncovered_correct [of old incoming es 0] assms by (simp add: bytes_outside_def is_union_normalized)
qed (auto simp: bytes_outside_def is_union_normalized)

section \<open>What the tracker holds\<close>

definition live_payload :: "nat set \<Rightarrow> tracked \<Rightarrow> payload" where
  "live_payload expired t =
     \<lparr>pl_owner = weak_lock expired t, pl_plane = td_plane t, pl_first = td_data t, pl_last = td_data t + td_bytes t\<rparr>"

definition live_payloads :: "nat set \<Rightarrow> tracked list \<Rightarrow> payload list" where
  "live_payloads expired ts = map (live_payload expired) (filter (\<lambda>t. weak_lock expired t \<noteq> Null) ts)"

lemma live_payloads_simps [simp]:
  "live_payloads expired [] = []"
  "live_payloads expired (t # ts) = (if weak_lock expired t = Null then [] else [live_payload expired t]) @ live_payloads expired ts"
  "live_payloads expired (ts @ us) = live_payloads expired ts @ live_payloads expired us"
  by (simp_all add: live_payloads_def)

lemma live_payloads_length: "length (live_payloads expired ts) \<le> length ts"
  by (simp add: live_payloads_def)

lemma payload_conflict_False:
  "payload_conflict owner plane first stop es = Inr False \<longleftrightarrow>
     (\<forall>e \<in> set es. \<not> (same_owner owner (pl_owner e) \<and> plane = pl_plane e) \<and> (pl_last e \<le> first \<or> stop \<le> pl_first e))"
  by (induction es) (auto simp: not_less)

lemma payload_conflict_True:
  "payload_conflict owner plane first stop es = Inr True \<Longrightarrow>
     \<exists>e \<in> set es. same_owner owner (pl_owner e) \<and> plane = pl_plane e \<and> pl_first e = first \<and> pl_last e = stop"
  by (induction es) (auto split: if_splits)

text \<open>Adding a payload with a new key succeeds exactly when the payloads stay apart.\<close>

lemma union_add_new:
  assumes "payloads_ok es" "\<forall>e \<in> set es. \<not> (same_owner owner (pl_owner e) \<and> plane = pl_plane e)"
    and new: "n = \<lparr>pl_owner = owner, pl_plane = plane, pl_first = first, pl_last = first + bytes\<rparr>"
  shows "union_add cap owner plane first bytes es = Inr es' \<longleftrightarrow> payloads_ok (es @ [n]) \<and> length es \<noteq> cap \<and> es' = es @ [n]"
proof -
  have "payload_ok n \<longleftrightarrow> owner_present owner \<and> first \<noteq> 0 \<and> bytes \<noteq> 0 \<and> bytes \<le> SIZE_MAX - first"
    by (auto simp: payload_ok_def new)
  moreover have "(\<forall>e \<in> set es. apart e n) \<longleftrightarrow> payload_conflict owner plane first (first + bytes) es = Inr False"
    unfolding payload_conflict_False using assms(2) by (auto simp: apart_def new same_owner_commute)
  moreover have "payload_conflict owner plane first (first + bytes) es \<noteq> Inr True"
    using payload_conflict_True assms(2) by blast
  ultimately show ?thesis
    using assms(1) by (auto simp: union_add_def payloads_ok_simps new [symmetric] not_less split: sum.splits bool.splits)
qed


lemma snapshot_loop_correct:
  assumes "payloads_ok (result @ live_payloads expired ts)" "length result + length ts \<le> cap"
  shows "snapshot_loop cap expired ts result = Inr (result @ live_payloads expired ts)"
  using assms
proof (induction ts arbitrary: result)
  case (Cons t ts)
  show ?case
  proof (cases "weak_lock expired t = Null")
    case True
    then show ?thesis
      using Cons by simp
  next
    case False
    let ?n = "live_payload expired t"
    have ok: "payloads_ok (result @ [?n])" "\<forall>e \<in> set result. apart e ?n"
      using Cons.prems(1) False by (auto simp: payloads_ok_simps)
    have "union_add cap (weak_lock expired t) (td_plane t) (td_data t) (td_bytes t) result = Inr (result @ [?n])"
      using ok Cons.prems(2)
      by (subst union_add_new [where n = ?n]) (auto simp: payloads_ok_simps live_payload_def apart_def same_owner_commute)
    then show ?thesis
      using Cons.IH [of "result @ [?n]"] Cons.prems False by simp
  qed
qed simp

lemma track_scan_correct:
  assumes "payloads_ok (checked @ live_payloads expired ts)" "length checked + length ts \<le> cap"
    and "\<forall>e \<in> set checked. \<not> (same_owner owner (pl_owner e) \<and> plane = pl_plane e)"
    and "track_scan cap expired owner plane data bytes ts i slot checked = Inr (Some (slot', all))"
  shows "all = checked @ live_payloads expired ts \<and> (\<forall>e \<in> set all. \<not> (same_owner owner (pl_owner e) \<and> plane = pl_plane e)) \<and>
    (slot' = slot \<or> (i \<le> slot' \<and> slot' < i + length ts \<and> weak_lock expired (ts ! (slot' - i)) = Null))"
  using assms
proof (induction ts arbitrary: i slot checked)
  case (Cons t ts)
  show ?case
  proof (cases "weak_lock expired t = Null")
    case True
    then have "track_scan cap expired owner plane data bytes ts (i + 1) (if slot = cap then i else slot) checked = Inr (Some (slot', all))"
      using Cons.prems(4) by (simp add: Let_def)
    from Cons.IH [OF _ _ Cons.prems(3) this] show ?thesis
      using Cons.prems(1,2) True by (auto simp: nth_Cons' split: if_splits)
  next
    case False
    let ?n = "live_payload expired t"
    have ok: "payloads_ok (checked @ [?n])" "\<forall>e \<in> set checked. apart e ?n"
      using Cons.prems(1) False by (auto simp: payloads_ok_simps)
    have add: "union_add cap (weak_lock expired t) (td_plane t) (td_data t) (td_bytes t) checked = Inr (checked @ [?n])"
      using ok Cons.prems(2)
      by (subst union_add_new [where n = ?n]) (auto simp: payloads_ok_simps live_payload_def apart_def same_owner_commute)
    have key: "\<not> (same_owner owner (pl_owner ?n) \<and> plane = pl_plane ?n)"
      and rec: "track_scan cap expired owner plane data bytes ts (i + 1) slot (checked @ [?n]) = Inr (Some (slot', all))"
      using Cons.prems(4) False add
      by (auto simp: Let_def live_payload_def same_owner_commute split: if_splits sum.splits)
    have "payloads_ok ((checked @ [?n]) @ live_payloads expired ts)" "length (checked @ [?n]) + length ts \<le> cap"
        "\<forall>e \<in> set (checked @ [?n]). \<not> (same_owner owner (pl_owner e) \<and> plane = pl_plane e)"
      using Cons.prems False key by simp_all
    from Cons.IH [OF this rec] show ?thesis
      using False by (auto simp: nth_Cons')
  qed
qed simp

text \<open>When the key is tracked already, the call succeeds only for the same addresses.\<close>

lemma track_scan_known:
  assumes "payloads_ok (checked @ live_payloads expired ts)" "length checked + length ts \<le> cap"
    and "track_scan cap expired owner plane data bytes ts i slot checked = Inr None"
  shows "\<exists>e \<in> set (checked @ live_payloads expired ts). pl_first e = data \<and> pl_last e = data + bytes"
  using assms
proof (induction ts arbitrary: i slot checked)
  case (Cons t ts)
  show ?case
  proof (cases "weak_lock expired t = Null")
    case True
    then have "track_scan cap expired owner plane data bytes ts (i + 1) (if slot = cap then i else slot) checked = Inr None"
      using Cons.prems(3) by (simp add: Let_def)
    from Cons.IH [OF _ _ this] show ?thesis
      using Cons.prems(1,2) True by simp
  next
    case False
    let ?n = "live_payload expired t"
    have ok: "payloads_ok (checked @ [?n])" "\<forall>e \<in> set checked. apart e ?n"
      using Cons.prems(1) False by (auto simp: payloads_ok_simps)
    have add: "union_add cap (weak_lock expired t) (td_plane t) (td_data t) (td_bytes t) checked = Inr (checked @ [?n])"
      using ok Cons.prems(2)
      by (subst union_add_new [where n = ?n]) (auto simp: payloads_ok_simps live_payload_def apart_def same_owner_commute)
    show ?thesis
    proof (cases "same_owner owner (pl_owner ?n) \<and> plane = pl_plane ?n")
      case True
      then have "\<exists>x. union_add cap owner plane data bytes (checked @ [?n]) = Inr x"
        using Cons.prems(3) False add
        by (auto simp: Let_def live_payload_def same_owner_commute split: sum.splits)
      moreover have "payload_conflict owner plane data (data + bytes) (checked @ [?n]) \<noteq> Inr False"
        using True by (auto simp: payload_conflict_False)
      ultimately have "payload_conflict owner plane data (data + bytes) (checked @ [?n]) = Inr True"
        by (auto simp: union_add_def split: if_splits sum.splits bool.splits)
      then show ?thesis
        using payload_conflict_True False by fastforce
    next
      case key: False
      have "track_scan cap expired owner plane data bytes ts (i + 1) slot (checked @ [?n]) = Inr None"
        using Cons.prems(3) False add key
        by (auto simp: Let_def live_payload_def same_owner_commute split: if_splits sum.splits)
      from Cons.IH [OF _ _ this] show ?thesis
        using Cons.prems(1,2) False by simp
    qed
  qed
qed simp

definition tracker_ok :: "nat \<Rightarrow> nat set \<Rightarrow> tracked list \<Rightarrow> bool" where
  "tracker_ok cap expired ts \<longleftrightarrow> length ts = cap \<and> payloads_ok (live_payloads expired ts)"

lemma track_ok:
  assumes ok: "tracker_ok cap expired ts" and run: "track cap expired owner plane data bytes ts = Inr ts'"
    and live: "\<And>p c. owner = Owned (p, c) \<Longrightarrow> c \<notin> expired"
  shows "tracker_ok cap expired ts'"
    and "payload_set (live_payloads expired ts') = payload_set (live_payloads expired ts) \<union> {data..<data + bytes}"
proof -
  have "tracker_ok cap expired ts' \<and>
    payload_set (live_payloads expired ts') = payload_set (live_payloads expired ts) \<union> {data..<data + bytes}"
  proof (cases "track_scan cap expired owner plane data bytes ts 0 cap [] = Inr None")
    case False
    let ?t = "\<lparr>td_owner = control_of owner, td_plane = plane, td_data = data, td_bytes = bytes\<rparr>"
    let ?n = "\<lparr>pl_owner = owner, pl_plane = plane, pl_first = data, pl_last = data + bytes\<rparr>" and ?es = "live_payloads expired ts"
    obtain slot checked where scan: "track_scan cap expired owner plane data bytes ts 0 cap [] = Inr (Some (slot, checked))"
        and add: "\<exists>x. union_add cap owner plane data bytes checked = Inr x" and slot: "slot \<noteq> cap" and ts': "ts' = ts[slot := ?t]"
      using run False by (auto simp: track_def split: sum.splits option.splits if_splits prod.splits)
    have S: "checked = ?es" "\<forall>e \<in> set checked. \<not> (same_owner owner (pl_owner e) \<and> plane = pl_plane e)"
        "slot < length ts" "weak_lock expired (ts ! slot) = Null"
      using track_scan_correct [OF _ _ _ scan] ok slot by (auto simp: tracker_ok_def)
    have new: "payloads_ok (?es @ [?n])"
      using add union_add_new [OF _ S(2) refl, of cap] ok S(1) by (auto simp: tracker_ok_def)
    then obtain p c where owner: "owner = Owned (p, c)" "p \<noteq> 0"
      by (auto simp: payloads_ok_simps payload_ok_def owner_present_def split: shared_ptr.splits prod.splits)
    then have lock: "weak_lock expired ?t = owner" "live_payload expired ?t = ?n"
      using live by (simp_all add: weak_lock_def live_payload_def)
    have split: "ts = take slot ts @ ts ! slot # drop (Suc slot) ts" "ts' = take slot ts @ ?t # drop (Suc slot) ts"
      using S(3) by (simp_all add: ts' id_take_nth_drop upd_conv_take_nth_drop)
    have old: "?es = live_payloads expired (take slot ts) @ live_payloads expired (drop (Suc slot) ts)"
      by (subst split(1)) (simp add: S(4))
    have "live_payloads expired ts' = live_payloads expired (take slot ts) @ ?n # live_payloads expired (drop (Suc slot) ts)"
      by (subst split(2)) (simp add: lock [unfolded owner(1), simplified] owner(1))
    moreover have "payloads_ok (live_payloads expired (take slot ts) @ ?n # live_payloads expired (drop (Suc slot) ts))"
      using new unfolding old by (auto simp: payloads_ok_simps apart_commute)
    moreover have "payload_set (live_payloads expired (take slot ts) @ ?n # live_payloads expired (drop (Suc slot) ts)) =
        payload_set ?es \<union> {data..<data + bytes}"
      unfolding old by (simp add: payload_set_def payload_span_def Un_ac)
    ultimately show ?thesis
      using ok by (simp add: tracker_ok_def ts')
  next
    case True
    then have "ts' = ts" and "\<exists>e \<in> set (live_payloads expired ts). pl_first e = data \<and> pl_last e = data + bytes"
      using run track_scan_known [OF _ _ True] ok by (auto simp: track_def tracker_ok_def)
    then show ?thesis
      using ok by (fastforce simp: payload_set_def payload_span_def)
  qed
  then show "tracker_ok cap expired ts'"
    and "payload_set (live_payloads expired ts') = payload_set (live_payloads expired ts) \<union> {data..<data + bytes}"
    by simp_all
qed

text \<open>Expiry only removes payloads.\<close>

lemma live_payloads_expire:
  "live_payloads (insert c expired) ts = filter (\<lambda>e. map_option snd (control_of (pl_owner e)) \<noteq> Some c) (live_payloads expired ts)"
proof (induction ts)
  case (Cons t ts)
  have "weak_lock (insert c expired) t = (if map_option snd (control_of (weak_lock expired t)) = Some c then Null else weak_lock expired t)"
    by (auto simp: weak_lock_def split: option.split)
  then show ?case
    using Cons by (auto simp: live_payload_def)
qed simp

section \<open>Sequences of calls\<close>

record tracker_system =
  tr_entries :: "tracked list"
  tr_expired :: "nat set"

datatype tracker_call =
    Track payload_owner nat nat nat
  | Expire nat

text \<open>A caller of \<open>track\<close> holds the owner, so that its control block has not expired.\<close>

fun tracker_step :: "nat \<Rightarrow> tracker_call \<Rightarrow> tracker_system \<Rightarrow> tracker_system" where
  "tracker_step cap (Track owner plane data bytes) s =
     (if map_option snd (control_of owner) \<in> Some ` tr_expired s then s
      else s\<lparr>tr_entries := after (tr_entries s) (track cap (tr_expired s) owner plane data bytes (tr_entries s))\<rparr>)"
| "tracker_step cap (Expire c) s = s\<lparr>tr_expired := insert c (tr_expired s)\<rparr>"

definition tracker_start :: "nat \<Rightarrow> tracker_system" where
  "tracker_start cap = \<lparr>tr_entries = tracker_new cap, tr_expired = {}\<rparr>"

lemma tracker_step_ok:
  assumes ok: "tracker_ok cap (tr_expired s) (tr_entries s)"
  shows "tracker_ok cap (tr_expired (tracker_step cap c s)) (tr_entries (tracker_step cap c s))"
proof (cases c)
  case (Track owner plane data bytes)
  show ?thesis
  proof (cases "map_option snd (control_of owner) \<in> Some ` tr_expired s")
    case False
    then have "\<And>p c. owner = Owned (p, c) \<Longrightarrow> c \<notin> tr_expired s"
      by auto
    then show ?thesis
      using track_ok(1) [OF ok] ok False
      by (cases "track cap (tr_expired s) owner plane data bytes (tr_entries s)") (simp_all add: Track)
  qed (use ok in \<open>simp add: Track\<close>)
next
  case (Expire x)
  then show ?thesis
    using ok by (simp add: tracker_ok_def live_payloads_expire payloads_ok_filter)
qed

interpretation tracker_calls: call_system "tracker_step cap" "\<lambda>s. tracker_ok cap (tr_expired s) (tr_entries s)" for cap :: nat
  by unfold_locales (rule tracker_step_ok)

lemma tracker_start_ok: "tracker_ok cap (tr_expired (tracker_start cap)) (tr_entries (tracker_start cap))"
proof -
  have "live_payloads {} (tracker_new cap) = []"
    by (simp add: live_payloads_def tracker_new_def weak_lock_def)
  then show ?thesis
    by (simp add: tracker_ok_def tracker_start_def payloads_ok_simps) (simp add: tracker_new_def)
qed

text \<open>
  C32. In every state that calls of \<open>track\<close> and expirations of owners lead to, the bytes still to be reserved are the bytes of
  the ledger less the addresses of live payloads that the resident and the incoming ranges cover, each
  address counted once; the call throws only for ranges that are not a sorted union, or when the ledger
  holds less than the tracked payloads. There a call of \<open>track\<close> that succeeds for an owner that is alive adds exactly the
  addresses of its payload to those of the live payloads.
\<close>

theorem additional_bytes_exact:
  "let s = fold (tracker_step cap) cs (tracker_start cap);
       P = payload_set (live_payloads (tr_expired s) (tr_entries s))
   in additional_bytes cap (tr_expired s) ledger old incoming (tr_entries s) =
     (if \<not> (normalized old \<and> normalized incoming) then Inl Invalid_argument
      else if unat ledger < card P then Inl Logic_error
      else Inr (unat ledger - card (P \<inter> (covers old \<union> covers incoming)))) \<and>
     (\<forall>p c plane data bytes ts. c \<notin> tr_expired s \<and> track cap (tr_expired s) (Owned (p, c)) plane data bytes (tr_entries s) = Inr ts \<longrightarrow>
        payload_set (live_payloads (tr_expired s) ts) = P \<union> {data..<data + bytes})"
proof -
  define s where "s = fold (tracker_step cap) cs (tracker_start cap)"
  define es where "es = live_payloads (tr_expired s) (tr_entries s)"
  let ?P = "payload_set es" and ?C = "covers old \<union> covers incoming"
  have ok: "tracker_ok cap (tr_expired s) (tr_entries s)"
    unfolding s_def using tracker_start_ok by (rule tracker_calls.run_inv)
  then have pay: "payloads_ok es"
    by (simp add: tracker_ok_def es_def)
  have snap: "snapshot cap (tr_expired s) (tr_entries s) = Inr es"
    using snapshot_loop_correct [of "[]"] ok by (simp add: snapshot_def tracker_ok_def es_def)
  have "bytes_outside [] [] es = Inr (card ?P)"
    using bytes_outside_correct [OF pay, of "[]" "[]"] by (simp add: normalized_def)
  moreover have "card ?P - card (?P - ?C) = card (?P \<inter> ?C)"
    using card_Diff_subset_Int [of ?P ?C] card_mono [of ?P "?P \<inter> ?C"] by (simp add: Int_commute)
  ultimately have "additional_bytes cap (tr_expired s) ledger old incoming (tr_entries s) =
     (if \<not> (normalized old \<and> normalized incoming) then Inl Invalid_argument
      else if unat ledger < card ?P then Inl Logic_error else Inr (unat ledger - card (?P \<inter> ?C)))"
    by (simp add: additional_bytes_def snap bytes_outside_correct [OF pay, of old incoming] Let_def)
  moreover have "payload_set (live_payloads (tr_expired s) ts) = ?P \<union> {data..<data + bytes}"
    if "c \<notin> tr_expired s" "track cap (tr_expired s) (Owned (p, c)) plane data bytes (tr_entries s) = Inr ts" for p c plane data bytes ts
    using track_ok(2) [OF ok that(2)] that(1) by (simp add: es_def)
  ultimately show ?thesis
    unfolding Let_def s_def [symmetric] es_def [symmetric] by blast
qed

theorem additional_bytes_exact_witness:
  "track 2 {} (Owned (8, 1)) 0 4096 100 (tr_entries (tracker_start 2)) =
     Inr [\<lparr>td_owner = Some (8, 1), td_plane = 0, td_data = 4096, td_bytes = 100\<rparr>, \<lparr>td_owner = None, td_plane = 0, td_data = 0, td_bytes = 0\<rparr>] \<and>
   payload_set (live_payloads {} [\<lparr>td_owner = Some (8, 1), td_plane = 0, td_data = 4096, td_bytes = 100\<rparr>,
     \<lparr>td_owner = None, td_plane = 0, td_data = 0, td_bytes = 0\<rparr>]) = {4096..<4196}"
proof -
  let ?ts = "[\<lparr>td_owner = Some (8, 1), td_plane = 0, td_data = 4096, td_bytes = 100\<rparr>, \<lparr>td_owner = None, td_plane = 0, td_data = 0, td_bytes = 0\<rparr>] :: tracked list"
  have run: "track 2 {} (Owned (8, 1)) 0 4096 100 (tr_entries (tracker_start 2)) = Inr ?ts"
  proof -
    have "replicate 2 x = [x, x]" for x :: tracked
      by (simp add: numeral_2_eq_2)
    then show ?thesis
      by (simp add: track_def tracker_start_def tracker_new_def weak_lock_def union_add_def owner_present_def SIZE_MAX_def)
  qed
  have start: "tr_expired (tracker_start 2) = {}" "payload_set (live_payloads {} (tr_entries (tracker_start 2))) = {}"
    by (simp_all add: tracker_start_def tracker_new_def numeral_2_eq_2 weak_lock_def payload_set_def)
  have "payload_set (live_payloads {} ?ts) = payload_set (live_payloads {} (tr_entries (tracker_start 2))) \<union> {4096..<4096 + 100}"
    by (rule additional_bytes_exact [where cs = "[]" and cap = 2, unfolded Let_def fold_simps start(1), THEN conjunct2, rule_format,
        OF conjI [OF _ run]]) simp
  then show ?thesis
    using run start(2) by simp
qed


section \<open>Pages\<close>

lemma page_floor_div:
  assumes "k < 64" "page = 2 ^ k" "a < 2 ^ 64"
  shows "page_floor page a = a div 2 ^ k * 2 ^ k"
proof -
  have "page - 1 = mask k"
    by (simp add: assms(2) mask_eq_exp_minus_1)
  then have "(of_nat a :: u64) AND NOT (page - 1) = push_bit k (drop_bit k (of_nat a))"
    by (simp add: bit_eq_iff bit_simps) (auto simp: not_less)
  then have "page_floor page a = unat (push_bit k (drop_bit k (of_nat a :: u64)))"
    by (simp only: page_floor_def)
  also have "\<dots> = take_bit 64 (a div 2 ^ k * 2 ^ k)"
    using assms(3)
    by (simp only: unsigned_push_bit_eq unsigned_drop_bit_eq unsigned_of_nat)
      (simp add: take_bit_nat_eq_self push_bit_eq_mult drop_bit_eq_div)
  also have "\<dots> = a div 2 ^ k * 2 ^ k"
    using assms(3) by (intro take_bit_nat_eq_self) (metis div_times_less_eq_dividend le_less_trans)
  finally show ?thesis .
qed


lemma sweep_correct:
  assumes "sorted_wrt (\<lambda>r s. fst r \<le> fst s) rs" "acc + card (covers rs \<inter> {e ..}) \<le> SIZE_MAX"
  shows "sweep rs e acc = Inr (acc + card (covers rs \<inter> {e ..}))"
  using assms
proof (induction rs arbitrary: e acc)
  case (Cons r rs)
  let ?f = "max e (fst r)" and ?e = "max e (snd r)"
  have later: "fst r \<le> x" if "x \<in> covers rs" for x
    using Cons.prems(1) that by (auto simp: mem_covers intro: order.trans)
  have split: "covers (r # rs) \<inter> {e ..} = {?f ..< snd r} \<union> (covers rs \<inter> {?e ..})"
    using later by (auto simp: max_def not_less split: if_splits)
  have card: "card (covers (r # rs) \<inter> {e ..}) = (snd r - ?f) + card (covers rs \<inter> {?e ..})"
  proof -
    have "finite (covers rs)"
      by (simp add: covers_def span_def)
    then show ?thesis
      unfolding split by (subst card_Un_disjoint) auto
  qed
  have IH: "sweep rs ?e (acc + (snd r - ?f)) = Inr (acc + (snd r - ?f) + card (covers rs \<inter> {?e ..}))"
  proof (rule Cons.IH)
    show "acc + (snd r - ?f) + card (covers rs \<inter> {?e ..}) \<le> SIZE_MAX"
      using Cons.prems(2) unfolding card by simp
  qed (use Cons.prems(1) in simp)
  have fits: "\<not> SIZE_MAX - acc < snd r - ?f"
    using Cons.prems(2) unfolding card by simp
  show ?case
  proof (cases "?f < snd r")
    case True
    show ?thesis
      unfolding card sweep.simps Let_def by (simp only: True fits IH if_True if_False add.assoc)
  next
    case False
    then have zero: "snd r - ?f = 0"
      by (simp only: not_less diff_is_0_eq)
    show ?thesis
      unfolding card sweep.simps Let_def using IH by (simp only: False zero if_False add_0 add_0_right)
  qed
qed simp

lemma round_payloads_correct:
  assumes "k < 64" "page = 2 ^ k" "unat page = 2 ^ k" "payloads_ok es"
  shows "round_payloads page es =
    (if list_all (\<lambda>e. pl_last e \<le> SIZE_MAX - (2 ^ k - 1)) es
     then Inr (map (\<lambda>e. (pl_first e div 2 ^ k * 2 ^ k, (pl_last e + 2 ^ k - 1) div 2 ^ k * 2 ^ k)) es)
     else Inl Overflow_error)"
  using assms(4)
proof (induction es)
  case (Cons e es)
  have e: "0 < pl_last e" "pl_first e < 2 ^ 64"
    using Cons.prems by (auto simp: payloads_ok_simps payload_ok_def SIZE_MAX_def)
  have "pl_last e + 2 ^ k - 1 < 2 ^ 64" if "pl_last e \<le> SIZE_MAX - (2 ^ k - 1)"
  proof -
    have "(2 :: nat) ^ k \<le> 2 ^ 64"
      using assms(1) by (intro power_increasing) simp_all
    then show ?thesis
      using that by (simp add: SIZE_MAX_def)
  qed
  then show ?case
    using Cons e page_floor_div [OF assms(1,2)] by (simp add: assms(3) not_less payloads_ok_simps)
qed simp

text \<open>The pages that hold a byte of a range.\<close>

lemma rounded_span:
  fixes f l p :: nat
  assumes "f < l" "0 < p"
  shows "{f div p * p ..< (l + p - 1) div p * p} = {x. \<exists>y \<in> {f ..< l}. x div p = y div p}"
proof -
  have "(l + p - 1) = (l - 1) + p"
    using assms(1) by simp
  then have "(l + p - 1) div p = (l - 1) div p + 1"
    using assms(2) by (simp only: div_add_self2)
  moreover have "f div p * p \<le> x \<longleftrightarrow> f div p \<le> x div p" for x
    using assms(2) by (simp add: less_eq_div_iff_mult_less_eq)
  moreover have "x < ((l - 1) div p + 1) * p \<longleftrightarrow> x div p < (l - 1) div p + 1" for x
    using div_less_iff_less_mult [OF assms(2)] by blast
  ultimately have "x \<in> {f div p * p ..< (l + p - 1) div p * p} \<longleftrightarrow> f div p \<le> x div p \<and> x div p \<le> (l - 1) div p" for x
    by (simp only: atLeastLessThan_iff) auto
  moreover have "(\<exists>y \<in> {f ..< l}. x div p = y div p) \<longleftrightarrow> f div p \<le> x div p \<and> x div p \<le> (l - 1) div p" for x
  proof
    assume "\<exists>y \<in> {f ..< l}. x div p = y div p"
    then obtain y where "f \<le> y" "y \<le> l - 1" "x div p = y div p"
      by auto
    then show "f div p \<le> x div p \<and> x div p \<le> (l - 1) div p"
      by (simp add: div_le_mono)
  next
    assume x: "f div p \<le> x div p \<and> x div p \<le> (l - 1) div p"
    define y where "y = max f (x div p * p)"
    have "x div p * p \<le> l - 1"
      using less_eq_div_iff_mult_less_eq [OF assms(2), of "x div p" "l - 1"] x by blast
    then have "y \<in> {f ..< l}"
      using assms(1) by (auto simp: y_def)
    moreover have "x div p = y div p"
    proof (cases "x div p * p \<le> f")
      case True
      then have "x div p \<le> f div p"
        using assms(2) by (simp add: less_eq_div_iff_mult_less_eq)
      then show ?thesis
        using x True by (simp add: y_def max_def)
    next
      case False
      then show ?thesis
        using assms(2) by (simp add: y_def max_def)
    qed
    ultimately show "\<exists>y \<in> {f ..< l}. x div p = y div p"
      by blast
  qed
  ultimately show ?thesis
    by auto
qed


text \<open>
  The page bytes of a union: the number of bytes in the pages that hold a byte of a payload. The call throws exactly
  when the page size is not a power of two or when the last page of a payload would not end inside the address
  space.
\<close>

theorem page_bytes_exact:
  assumes "payloads_ok es"
  shows "page_bytes page es =
    (if page = 0 \<or> page AND (page - 1) \<noteq> 0 then Inl Invalid_argument
     else if \<not> list_all (\<lambda>e. pl_last e \<le> SIZE_MAX - (unat page - 1)) es then Inl Overflow_error
     else Inr (card {x. \<exists>y \<in> payload_set es. x div unat page = y div unat page}))"
proof (cases "page = 0 \<or> page AND (page - 1) \<noteq> 0")
  case False
  then obtain k where k: "k < 64" "page = 2 ^ k" "unat page = 2 ^ k"
    using word_power_of_two [of page] by blast
  let ?rs = "map (\<lambda>e. (pl_first e div 2 ^ k * 2 ^ k, (pl_last e + 2 ^ k - 1) div 2 ^ k * 2 ^ k)) es"
  have cov: "covers ?rs = {x. \<exists>y \<in> payload_set es. x div 2 ^ k = y div 2 ^ k}"
  proof -
    have "{pl_first e div 2 ^ k * 2 ^ k ..< (pl_last e + 2 ^ k - 1) div 2 ^ k * 2 ^ k} =
        {x. \<exists>y \<in> payload_span e. x div 2 ^ k = y div 2 ^ k}" if "e \<in> set es" for e
      unfolding payload_span_def using assms that by (intro rounded_span) (auto simp: payloads_ok_def payload_ok_def list_all_iff)
    then show ?thesis
      by (auto simp: covers_def span_def payload_set_def)
  qed
  have "sweep (sort ?rs) 0 0 = Inr (card (covers ?rs))" if fit: "list_all (\<lambda>e. pl_last e \<le> SIZE_MAX - (2 ^ k - 1)) es"
  proof -
    have "(l + 2 ^ k - 1) div 2 ^ k * 2 ^ k \<le> SIZE_MAX" if "l \<le> SIZE_MAX - (2 ^ k - 1)" for l
    proof -
      have "(2 :: nat) ^ k \<le> 2 ^ 63"
        using k(1) by (intro power_increasing) simp_all
      then have "l + 2 ^ k - 1 \<le> SIZE_MAX"
        using that by (simp add: SIZE_MAX_def)
      then show ?thesis
        by (rule order.trans [OF div_times_less_eq_dividend])
    qed
    then have "covers ?rs \<subseteq> {0 ..< SIZE_MAX}"
      using fit unfolding covers_def span_def list_all_iff by (fastforce dest: order.strict_trans2)
    then have "card (covers ?rs) \<le> SIZE_MAX"
      using card_mono [of "{0 ..< SIZE_MAX}"] by simp
    moreover have "covers (sort ?rs) \<inter> {0 ..} = covers ?rs"
      by (simp add: covers_def atLeast_0)
    moreover have "sorted_wrt (\<lambda>r s. fst r \<le> fst s) (sort ?rs)"
      by (rule sorted_wrt_mono_rel [OF _ sorted_sort]) (auto simp: less_eq_prod_def)
    ultimately show ?thesis
      using sweep_correct [of "sort ?rs" 0 0] by simp
  qed
  then show ?thesis
    unfolding k(3) page_bytes_def round_payloads_correct [OF k assms] cov using False by simp
qed (simp add: page_bytes_def)


section \<open>Ledgers count their tickets\<close>

text \<open>Tickets of a ledger that are held, by position; a moved-from ticket stays and is empty.\<close>

record ledger_system =
  lg_bytes :: u64
  lg_tickets :: "ticket list"

datatype ledger_call =
    Acquire_ticket u64
  | Split_ticket nat u64
  | Move_ticket nat
  | Destroy_ticket nat

definition no_ticket :: ticket where
  "no_ticket = \<lparr>tk_state = None, tk_bytes = 0\<rparr>"

fun ledger_step :: "nat \<Rightarrow> ledger_call \<Rightarrow> ledger_system \<Rightarrow> ledger_system" where
  "ledger_step state (Acquire_ticket n) s =
     (case ledger_acquire state n (lg_bytes s) of Inl _ \<Rightarrow> s
      | Inr (t, bytes) \<Rightarrow> s\<lparr>lg_bytes := bytes, lg_tickets := lg_tickets s @ [t]\<rparr>)"
| "ledger_step state (Split_ticket i n) s =
     (if i < length (lg_tickets s)
      then case ticket_split n (lg_tickets s ! i) of
          (None, t) \<Rightarrow> s
        | (Some u, t) \<Rightarrow> s\<lparr>lg_tickets := (lg_tickets s)[i := t] @ [u]\<rparr>
      else s)"
| "ledger_step state (Move_ticket i) s =
     (if i < length (lg_tickets s)
      then case ticket_move (lg_tickets s ! i) of (u, t) \<Rightarrow> s\<lparr>lg_tickets := (lg_tickets s)[i := t] @ [u]\<rparr>
      else s)"
| "ledger_step state (Destroy_ticket i) s =
     (if i < length (lg_tickets s)
      then s\<lparr>lg_bytes := ticket_destroy (lg_tickets s ! i) (lg_bytes s), lg_tickets := (lg_tickets s)[i := no_ticket]\<rparr>
      else s)"

definition ledger_ok :: "ledger_system \<Rightarrow> bool" where
  "ledger_ok s \<longleftrightarrow> unat (lg_bytes s) = (\<Sum>t \<leftarrow> lg_tickets s. unat (tk_bytes t)) \<and>
     list_all (\<lambda>t. tk_state t = None \<longrightarrow> tk_bytes t = 0) (lg_tickets s)"

lemma sum_tickets_update:
  assumes "i < length ts"
  shows "(\<Sum>t \<leftarrow> ts[i := u]. unat (tk_bytes t)) + unat (tk_bytes (ts ! i)) = (\<Sum>t \<leftarrow> ts. unat (tk_bytes t)) + unat (tk_bytes u)"
  using assms
proof (induction ts arbitrary: i)
  case (Cons t ts)
  then show ?case
    by (cases i) (auto simp: algebra_simps)
qed simp

lemma list_all_update: "list_all P xs \<Longrightarrow> P x \<Longrightarrow> list_all P (xs[i := x])"
  by (auto simp: list_all_iff dest!: subsetD [OF set_update_subset_insert])

lemma ledger_step_ok:
  assumes ok: "ledger_ok s"
  shows "ledger_ok (ledger_step state c s)"
proof (cases c)
  case (Acquire_ticket n)
  then show ?thesis
    using ok unat_add_checked [of "lg_bytes s" n] by (auto simp: ledger_ok_def ledger_acquire_def)
next
  case (Split_ticket i n)
  show ?thesis
  proof (cases "i < length (lg_tickets s) \<and> tk_state (lg_tickets s ! i) \<noteq> None \<and> n \<noteq> 0 \<and> n \<le> tk_bytes (lg_tickets s ! i)")
    case True
    then have "unat (tk_bytes (lg_tickets s ! i) - n) + unat n = unat (tk_bytes (lg_tickets s ! i))"
      by (simp add: unat_sub word_le_nat_alt)
    then show ?thesis
      using ok True sum_tickets_update [of i "lg_tickets s" "(lg_tickets s ! i)\<lparr>tk_bytes := tk_bytes (lg_tickets s ! i) - n\<rparr>"]
      by (auto simp: Split_ticket ticket_split_def ledger_ok_def not_less intro!: list_all_update)
  qed (use ok in \<open>auto simp: Split_ticket ticket_split_def not_less\<close>)
next
  case (Move_ticket i)
  have "tk_state (lg_tickets s ! i) = None \<longrightarrow> tk_bytes (lg_tickets s ! i) = 0" if "i < length (lg_tickets s)"
    using ok that by (simp add: ledger_ok_def list_all_length)
  then show ?thesis
    using ok sum_tickets_update [of i "lg_tickets s" "\<lparr>tk_state = None, tk_bytes = 0\<rparr>"]
    by (auto simp: Move_ticket ticket_move_def ledger_ok_def intro!: list_all_update)
next
  case (Destroy_ticket i)
  show ?thesis
  proof (cases "i < length (lg_tickets s)")
    case True
    let ?t = "lg_tickets s ! i"
    have sum: "(\<Sum>t \<leftarrow> (lg_tickets s)[i := no_ticket]. unat (tk_bytes t)) + unat (tk_bytes ?t) = unat (lg_bytes s)"
      using sum_tickets_update [OF True, of no_ticket] ok by (simp add: ledger_ok_def no_ticket_def)
    then have "tk_bytes ?t \<le> lg_bytes s"
      by (simp add: word_le_nat_alt)
    moreover have "tk_bytes ?t = 0" if "tk_state ?t = None"
      using ok True that by (auto simp: ledger_ok_def list_all_length)
    ultimately have "unat (ticket_destroy ?t (lg_bytes s)) = (\<Sum>t \<leftarrow> (lg_tickets s)[i := no_ticket]. unat (tk_bytes t))"
      using sum by (auto simp: ticket_destroy_def unat_sub)
    then show ?thesis
      using True ok by (auto simp: Destroy_ticket ledger_ok_def no_ticket_def intro!: list_all_update)
  qed (use ok in \<open>simp add: Destroy_ticket\<close>)
qed

interpretation ledger_calls: call_system "ledger_step state" ledger_ok for state :: nat
  by unfold_locales (rule ledger_step_ok)

theorem ledger_counts_tickets:
  "let s = fold (ledger_step state) cs \<lparr>lg_bytes = 0, lg_tickets = []\<rparr>
   in unat (lg_bytes s) = (\<Sum>t \<leftarrow> lg_tickets s. unat (tk_bytes t))"
proof -
  have "ledger_ok \<lparr>lg_bytes = 0, lg_tickets = []\<rparr>"
    by (simp add: ledger_ok_def)
  from ledger_calls.run_inv [OF this] show ?thesis
    by (simp add: ledger_ok_def Let_def)
qed

end
