(* ===== verification/Growable_Region.thy ===== *)
theory Growable_Region
  imports Voidinfer_Prelude "HOL-Library.Multiset"
begin

text \<open>
  Model of \<open>growable_device_region.h\<close>: a reserved range of device addresses whose front part is backed by chunks
  of physical memory, mirrored into a window, with a process-wide pool of pinned host chunks.

  The driver is a parameter: whether a call whose result the code tests succeeds is a function of the number of
  such calls made before, and so is the available host memory. The code ignores the results of \<open>cuMemUnmap\<close> and
  \<open>cuMemRelease\<close>; in the model they always take effect. Failing allocations of the C++ runtime (\<open>push_back\<close>) are not
  modelled. A chunk handle is a number, zero for none; \<open>cuMemCreate\<close> returns
  a new one. The mapping of addresses to chunks is part of the state, by the address of each mapped granule;
  \<open>cuMemUnmap\<close> removes the mappings of a range. The addresses that the driver reserves for a region overlap no range in use, and
  neither does the window that a caller attaches; the granularity is positive.

  Every step of the transition relation is one critical section of the code (a pass of the growth loop, a whole
  shrink, one stretch of the refill worker), so that concurrent growth and refill interleave freely.

  The theorems: the mapping is always exactly the chunks of the regions at their addresses and, mirrored, at
  their windows; every chunk ever created is in one region, in the pool, with the refill worker, or released
  once; the byte counters are exact. \<open>ensure\<close> returns, and a success means that the bytes are backed. The pool can
  exceed its cap, by one chunk.
\<close>

section \<open>The driver, the pool and the ledger\<close>

type_synonym mem_location = "nat \<times> int"

record driver_env =
  ev_works :: "nat \<Rightarrow> bool"
  ev_available :: "nat \<Rightarrow> nat option"
  ev_pool_cap :: nat

text \<open>Where the refill worker is: not running, at its start, before its first lock, past it, or with a chunk for its second.\<close>

datatype refill_phase = Refill_idle | Refill_start | Refill_check | Refill_create | Refill_push nat

fun held_chunks :: "refill_phase \<Rightarrow> nat list" where
  "held_chunks (Refill_push h) = [h]"
| "held_chunks _ = []"

fun refill_wants :: "refill_phase \<Rightarrow> bool" where
  "refill_wants Refill_create = True"
| "refill_wants (Refill_push _) = True"
| "refill_wants _ = False"

record chunk_world =
  vm_map :: "nat \<Rightarrow> nat option"
  vm_next :: nat
  vm_released :: "nat list"
  vm_calls :: nat
  hp_handles :: "nat list"
  hp_granularity :: nat
  hp_location :: mem_location
  hl_plane_bytes :: int
  hl_plane_pool_bytes :: int
  rf_phase :: refill_phase
  rf_goal :: nat
  rf_granularity :: nat
  rf_location :: mem_location

definition LOCATION_DEVICE :: nat where
  "LOCATION_DEVICE = 1"

definition LOCATION_HOST :: nat where
  "LOCATION_HOST = 2"

definition LOCATION_HOST_NUMA :: nat where
  "LOCATION_HOST_NUMA = 3"

definition kExl3HostReliefBytes :: nat where
  "kExl3HostReliefBytes = 10737418240"

definition driver_call :: "driver_env \<Rightarrow> chunk_world \<Rightarrow> bool \<times> chunk_world" where
  "driver_call ev w = (ev_works ev (vm_calls w), w\<lparr>vm_calls := Suc (vm_calls w)\<rparr>)"

definition mem_create :: "driver_env \<Rightarrow> chunk_world \<Rightarrow> nat \<times> chunk_world" where
  "mem_create ev w =
     (case driver_call ev w of (True, w') \<Rightarrow> (vm_next w', w'\<lparr>vm_next := Suc (vm_next w')\<rparr>) | (False, w') \<Rightarrow> (0, w'))"

definition mem_map :: "driver_env \<Rightarrow> nat \<Rightarrow> nat \<Rightarrow> chunk_world \<Rightarrow> bool \<times> chunk_world" where
  "mem_map ev address h w =
     (case driver_call ev w of (True, w') \<Rightarrow> (True, w'\<lparr>vm_map := (vm_map w')(address \<mapsto> h)\<rparr>) | (False, w') \<Rightarrow> (False, w'))"

definition mem_unmap :: "nat \<Rightarrow> nat \<Rightarrow> chunk_world \<Rightarrow> chunk_world" where
  "mem_unmap address bytes w = w\<lparr>vm_map := (\<lambda>a. if address \<le> a \<and> a < address + bytes then None else vm_map w a)\<rparr>"

definition mem_release :: "nat \<Rightarrow> chunk_world \<Rightarrow> chunk_world" where
  "mem_release h w = w\<lparr>vm_released := vm_released w @ [h]\<rparr>"

section \<open>Regions\<close>

record region =
  gr_base :: nat
  gr_window :: nat
  gr_capacity :: nat
  gr_granularity :: nat
  gr_mapped :: nat
  gr_location :: mem_location
  gr_handles :: "nat list"

definition region_new :: region where
  "region_new = \<lparr>gr_base = 0, gr_window = 0, gr_capacity = 0, gr_granularity = 0, gr_mapped = 0, gr_location = (0, 0), gr_handles = []\<rparr>"

definition host_backed :: "region \<Rightarrow> bool" where
  "host_backed r \<longleftrightarrow> fst (gr_location r) \<noteq> LOCATION_DEVICE"

definition round_up :: "nat \<Rightarrow> nat \<Rightarrow> nat" where
  "round_up g bytes = (if g \<noteq> 0 then (bytes + g - 1) mod 2 ^ 64 div g * g else bytes)"

text \<open>\<open>numa\<close> is the attribute of the device, \<open>-1\<close> when the query fails; \<open>g\<close> and \<open>base\<close> are what the driver returns.\<close>

definition region_reserve :: "driver_env \<Rightarrow> nat \<Rightarrow> bool \<Rightarrow> int \<Rightarrow> int \<Rightarrow> nat \<Rightarrow> nat \<Rightarrow> region \<Rightarrow> chunk_world \<Rightarrow>
    (exn + unit) \<times> region \<times> chunk_world" where
  "region_reserve ev capacity host device numa g base r w =
     (if gr_base r \<noteq> 0 then (Inl Logic_error, r, w)
      else case driver_call ev w of (False, w1) \<Rightarrow> (Inl Runtime_error, r, w1)
      | (True, w1) \<Rightarrow>
        let location = (if host then if 0 \<le> numa then (LOCATION_HOST_NUMA, numa) else (LOCATION_HOST, 0) else (LOCATION_DEVICE, device)) in
        case driver_call ev w1 of (False, w2) \<Rightarrow> (Inl Runtime_error, r\<lparr>gr_location := location\<rparr>, w2)
        | (True, w2) \<Rightarrow>
          let r' = r\<lparr>gr_location := location, gr_granularity := g, gr_capacity := round_up g (max capacity 1)\<rparr> in
          case driver_call ev w2 of (False, w3) \<Rightarrow> (Inl Runtime_error, r', w3)
          | (True, w3) \<Rightarrow> (Inr (), r'\<lparr>gr_base := base\<rparr>, w3))"

definition pool_matches :: "region \<Rightarrow> chunk_world \<Rightarrow> bool" where
  "pool_matches r w \<longleftrightarrow> hp_granularity w = gr_granularity r \<and> hp_location w = gr_location r"

definition take_pooled :: "region \<Rightarrow> chunk_world \<Rightarrow> nat \<times> chunk_world" where
  "take_pooled r w =
     (if \<not> host_backed r \<or> hp_handles w = [] \<or> \<not> pool_matches r w then (0, w)
      else (last (hp_handles w), w\<lparr>hp_handles := butlast (hp_handles w),
        hl_plane_pool_bytes := hl_plane_pool_bytes w - int (gr_granularity r)\<rparr>))"

definition give_back :: "driver_env \<Rightarrow> region \<Rightarrow> nat \<Rightarrow> chunk_world \<Rightarrow> chunk_world" where
  "give_back ev r h w0 =
     (let available = ev_available ev (vm_calls w0); w = w0\<lparr>vm_calls := Suc (vm_calls w0)\<rparr> in
      if host_backed r \<and> (case available of None \<Rightarrow> False | Some n \<Rightarrow> kExl3HostReliefBytes \<le> n) then
        (let w' = (if hp_handles w = [] then w\<lparr>hp_granularity := gr_granularity r, hp_location := gr_location r\<rparr> else w) in
         if pool_matches r w' \<and> (length (hp_handles w') + 1) * gr_granularity r \<le> ev_pool_cap ev
         then w'\<lparr>hp_handles := hp_handles w' @ [h], hl_plane_pool_bytes := hl_plane_pool_bytes w' + int (gr_granularity r)\<rparr>
         else mem_release h w')
      else mem_release h w)"

definition add_plane_bytes :: "region \<Rightarrow> int \<Rightarrow> chunk_world \<Rightarrow> chunk_world" where
  "add_plane_bytes r n w = (if host_backed r then w\<lparr>hl_plane_bytes := hl_plane_bytes w + n\<rparr> else w)"

text \<open>Mapping a chunk at the window, if there is one; the result says whether it failed.\<close>

definition map_window :: "driver_env \<Rightarrow> nat \<Rightarrow> region \<Rightarrow> chunk_world \<Rightarrow> bool \<times> chunk_world" where
  "map_window ev h r w =
     (if gr_window r = 0 then (False, w)
      else case mem_map ev (gr_window r + gr_mapped r) h w of (False, w1) \<Rightarrow> (True, w1)
      | (True, w1) \<Rightarrow> (case driver_call ev w1 of (worked, w2) \<Rightarrow> (\<not> worked, w2)))"

text \<open>One pass of the loop of \<open>ensure\<close>, under the lock.\<close>

definition grow_chunk :: "driver_env \<Rightarrow> nat \<Rightarrow> region \<Rightarrow> chunk_world \<Rightarrow> (exn + unit) \<times> region \<times> chunk_world" where
  "grow_chunk ev bytes r w =
     (if bytes \<le> gr_mapped r then (Inr (), r, w)
      else let g = gr_granularity r; address = gr_base r + gr_mapped r in
        case (case take_pooled r w of (h, w1) \<Rightarrow> if h \<noteq> 0 then (h, w1) else mem_create ev w1) of (h, w2) \<Rightarrow>
        if h = 0 then (Inl Runtime_error, r, w2)
        else case mem_map ev address h w2 of
          (False, w3) \<Rightarrow> (Inl Runtime_error, r, mem_release h w3)
        | (True, w3) \<Rightarrow> (case driver_call ev w3 of
            (False, w4) \<Rightarrow> (Inl Runtime_error, r, mem_release h (mem_unmap address g w4))
          | (True, w4) \<Rightarrow> (case map_window ev h r w4 of
              (True, w5) \<Rightarrow> (Inl Runtime_error, r, mem_release h (mem_unmap address g (mem_unmap (gr_window r + gr_mapped r) g w5)))
            | (False, w5) \<Rightarrow> (Inr (), r\<lparr>gr_handles := gr_handles r @ [h], gr_mapped := gr_mapped r + g\<rparr>,
                add_plane_bytes r (int g) w5))))"

partial_function (option) ensure_loop :: "driver_env \<Rightarrow> nat \<Rightarrow> region \<Rightarrow> chunk_world \<Rightarrow> ((exn + unit) \<times> region \<times> chunk_world) option" where
  "ensure_loop ev bytes r w =
     (if gr_mapped r < bytes
      then case grow_chunk ev bytes r w of
          (Inl e, r', w') \<Rightarrow> Some (Inl e, r', w')
        | (Inr _, r', w') \<Rightarrow> ensure_loop ev bytes r' w'
      else Some (Inr (), r, w))"

definition ensure :: "driver_env \<Rightarrow> nat \<Rightarrow> region \<Rightarrow> chunk_world \<Rightarrow> ((exn + unit) \<times> region \<times> chunk_world) option" where
  "ensure ev bytes r w =
     (if gr_base r = 0 then Some (Inl Logic_error, r, w)
      else ensure_loop ev (min (round_up (gr_granularity r) bytes) (gr_capacity r)) r w)"

text \<open>The release of the last chunk: from the window if \<open>windowed\<close>, from the range, back to the pool or the driver.\<close>

definition drop_chunk :: "driver_env \<Rightarrow> bool \<Rightarrow> region \<Rightarrow> chunk_world \<Rightarrow> region \<times> chunk_world" where
  "drop_chunk ev windowed r w =
     (let g = gr_granularity r; mapped = gr_mapped r - g;
          w1 = (if windowed then mem_unmap (gr_window r + mapped) g w else w);
          w2 = mem_unmap (gr_base r + mapped) g w1;
          w3 = give_back ev r (last (gr_handles r)) w2
      in (r\<lparr>gr_mapped := mapped, gr_handles := butlast (gr_handles r)\<rparr>, add_plane_bytes r (- int g) w3))"

function shrink_loop :: "driver_env \<Rightarrow> nat \<Rightarrow> region \<Rightarrow> chunk_world \<Rightarrow> region \<times> chunk_world" where
  "shrink_loop ev bytes r w =
     (if bytes < gr_mapped r \<and> gr_handles r \<noteq> []
      then case drop_chunk ev (gr_window r \<noteq> 0) r w of (r', w') \<Rightarrow> shrink_loop ev bytes r' w'
      else (r, w))"
  by pat_completeness auto

termination
  by (relation "measure (\<lambda>(_, _, r, _). length (gr_handles r))") (auto simp: drop_chunk_def Let_def)

definition shrink :: "driver_env \<Rightarrow> nat \<Rightarrow> region \<Rightarrow> chunk_world \<Rightarrow> region \<times> chunk_world" where
  "shrink ev bytes r w =
     (if gr_base r = 0 then (r, w) else shrink_loop ev (min (round_up (gr_granularity r) bytes) (gr_capacity r)) r w)"

fun attach_loop :: "driver_env \<Rightarrow> nat \<Rightarrow> nat \<Rightarrow> nat list \<Rightarrow> nat \<Rightarrow> chunk_world \<Rightarrow> bool \<times> chunk_world" where
  "attach_loop ev window g [] index w = (True, w)"
| "attach_loop ev window g (h # hs) index w =
     (case mem_map ev (window + index * g) h w of
        (False, w') \<Rightarrow> (False, if index \<noteq> 0 then mem_unmap window (index * g) w' else w')
      | (True, w') \<Rightarrow> attach_loop ev window g hs (index + 1) w')"

definition attach_window :: "driver_env \<Rightarrow> nat \<Rightarrow> region \<Rightarrow> chunk_world \<Rightarrow> (exn + unit) \<times> region \<times> chunk_world" where
  "attach_window ev window r w =
     (if gr_window r \<noteq> 0 then (Inl Logic_error, r, w)
      else case attach_loop ev window (gr_granularity r) (gr_handles r) 0 w of
        (False, w1) \<Rightarrow> (Inl Runtime_error, r, w1)
      | (True, w1) \<Rightarrow> (case (if gr_mapped r = 0 then (True, w1) else driver_call ev w1) of
          (False, w2) \<Rightarrow> (Inl Runtime_error, r, mem_unmap window (gr_mapped r) w2)
        | (True, w2) \<Rightarrow> (Inr (), r\<lparr>gr_window := window\<rparr>, w2)))"

definition detach_window :: "region \<Rightarrow> chunk_world \<Rightarrow> region \<times> chunk_world" where
  "detach_window r w =
     (if gr_window r = 0 then (r, w)
      else (r\<lparr>gr_window := 0\<rparr>, if gr_mapped r \<noteq> 0 then mem_unmap (gr_window r) (gr_mapped r) w else w))"

function reset_loop :: "driver_env \<Rightarrow> region \<Rightarrow> chunk_world \<Rightarrow> region \<times> chunk_world" where
  "reset_loop ev r w =
     (if gr_handles r \<noteq> [] then case drop_chunk ev False r w of (r', w') \<Rightarrow> reset_loop ev r' w' else (r, w))"
  by pat_completeness auto

termination
  by (relation "measure (\<lambda>(_, r, _). length (gr_handles r))") (auto simp: drop_chunk_def Let_def)

definition region_reset :: "driver_env \<Rightarrow> region \<Rightarrow> chunk_world \<Rightarrow> region \<times> chunk_world" where
  "region_reset ev r w =
     (if gr_base r = 0 then (r, w)
      else case reset_loop ev (r\<lparr>gr_window := 0\<rparr>)
          (if gr_window r \<noteq> 0 \<and> gr_mapped r \<noteq> 0 then mem_unmap (gr_window r) (gr_mapped r) w else w) of
        (r', w') \<Rightarrow> (r'\<lparr>gr_base := 0, gr_mapped := 0\<rparr>, w'))"

definition release_host_pool :: "chunk_world \<Rightarrow> chunk_world" where
  "release_host_pool w =
     fold mem_release (hp_handles w)
       (w\<lparr>hp_handles := [], hl_plane_pool_bytes := hl_plane_pool_bytes w - int (length (hp_handles w) * hp_granularity w)\<rparr>)"

text \<open>
  The refill of the pool: \<open>top_up_host_pool_async\<close> starts the worker, and \<open>refill_step\<close> is one stretch of it, up to or
  through its next lock. The goal, the granularity and the location are those of the region that started it; the scratch
  range, where a new chunk is mapped once and unmapped again, is the worker's own.
\<close>

definition top_up_host_pool_async :: "driver_env \<Rightarrow> nat \<Rightarrow> region \<Rightarrow> chunk_world \<Rightarrow> chunk_world" where
  "top_up_host_pool_async ev target r w0 =
     (if \<not> host_backed r \<or> gr_base r = 0 then w0
      else let available = ev_available ev (vm_calls w0); w = w0\<lparr>vm_calls := Suc (vm_calls w0)\<rparr> in
        if (case available of None \<Rightarrow> True | Some n \<Rightarrow> n < (kExl3HostReliefBytes + target) mod 2 ^ 64) then w
        else case driver_call ev w of (False, w1) \<Rightarrow> w1
        | (True, w1) \<Rightarrow>
          let goal = min target (ev_pool_cap ev) div gr_granularity r in
          if rf_phase w1 \<noteq> Refill_idle \<or> hp_handles w1 \<noteq> [] \<and> \<not> pool_matches r w1 \<or> goal \<le> length (hp_handles w1) then w1
          else w1\<lparr>rf_phase := Refill_start, rf_goal := goal, rf_granularity := gr_granularity r, rf_location := gr_location r\<rparr>)"

definition refill_create :: "driver_env \<Rightarrow> chunk_world \<Rightarrow> chunk_world" where
  "refill_create ev w =
     (case mem_create ev w of (h, w1) \<Rightarrow>
        if h = 0 then w1\<lparr>rf_phase := Refill_idle\<rparr>
        else case driver_call ev w1 of (False, w2) \<Rightarrow> mem_release h w2\<lparr>rf_phase := Refill_idle\<rparr>
        | (True, w2) \<Rightarrow> (case driver_call ev w2 of (False, w3) \<Rightarrow> mem_release h w3\<lparr>rf_phase := Refill_idle\<rparr>
          | (True, w3) \<Rightarrow> w3\<lparr>rf_phase := Refill_push h\<rparr>))"

definition refill_push :: "nat \<Rightarrow> chunk_world \<Rightarrow> chunk_world" where
  "refill_push h w =
     (let w' = (if hp_handles w = [] then w\<lparr>hp_granularity := rf_granularity w, hp_location := rf_location w\<rparr> else w) in
      if hp_granularity w' \<noteq> rf_granularity w' \<or> hp_location w' \<noteq> rf_location w' then mem_release h w'\<lparr>rf_phase := Refill_idle\<rparr>
      else w'\<lparr>hp_handles := hp_handles w' @ [h], hl_plane_pool_bytes := hl_plane_pool_bytes w' + int (rf_granularity w'), rf_phase := Refill_check\<rparr>)"

definition refill_step :: "driver_env \<Rightarrow> chunk_world \<Rightarrow> chunk_world" where
  "refill_step ev w =
     (case rf_phase w of
        Refill_idle \<Rightarrow> w
      | Refill_start \<Rightarrow> (case driver_call ev w of (False, w1) \<Rightarrow> w1\<lparr>rf_phase := Refill_idle\<rparr>
          | (True, w1) \<Rightarrow> (case driver_call ev w1 of (worked, w2) \<Rightarrow> w2\<lparr>rf_phase := if worked then Refill_check else Refill_idle\<rparr>))
      | Refill_check \<Rightarrow> w\<lparr>rf_phase := if rf_goal w \<le> length (hp_handles w) then Refill_idle else Refill_create\<rparr>
      | Refill_create \<Rightarrow> refill_create ev w
      | Refill_push h \<Rightarrow> refill_push h w)"


text \<open>A window: a reserved range without backing. The granularity and the range are the driver's.\<close>

record region_window =
  rw_base :: nat
  rw_capacity :: nat

definition region_window_new :: "driver_env \<Rightarrow> nat \<Rightarrow> nat \<Rightarrow> nat \<Rightarrow> chunk_world \<Rightarrow> (exn + region_window) \<times> chunk_world" where
  "region_window_new ev capacity g base w =
     (case driver_call ev w of (False, w1) \<Rightarrow> (Inl Runtime_error, w1)
      | (True, w1) \<Rightarrow> (case driver_call ev w1 of (False, w2) \<Rightarrow> (Inl Runtime_error, w2)
        | (True, w2) \<Rightarrow> (case driver_call ev w2 of (False, w3) \<Rightarrow> (Inl Runtime_error, w3)
          | (True, w3) \<Rightarrow> (Inr \<lparr>rw_base = base, rw_capacity = (max capacity 1 + g - 1) mod 2 ^ 64 div g * g\<rparr>, w3))))"


section \<open>Where chunks are\<close>

definition pairs :: "chunk_world \<Rightarrow> (nat \<times> nat) set" where
  "pairs w = {(a, h). vm_map w a = Some h}"

definition chunks :: "nat \<Rightarrow> region \<Rightarrow> (nat \<times> nat) set" where
  "chunks start r = (\<lambda>k. (start + k * gr_granularity r, gr_handles r ! k)) ` {0 ..< length (gr_handles r)}"

definition placed :: "region \<Rightarrow> (nat \<times> nat) set" where
  "placed r = chunks (gr_base r) r \<union> (if gr_window r = 0 then {} else chunks (gr_window r) r)"

definition area :: "region \<Rightarrow> nat set" where
  "area r = (if gr_base r = 0 then {} else {gr_base r ..< gr_base r + gr_capacity r}) \<union>
     (if gr_window r = 0 then {} else {gr_window r ..< gr_window r + gr_capacity r})"

definition region_ok :: "region \<Rightarrow> bool" where
  "region_ok r \<longleftrightarrow> gr_mapped r = length (gr_handles r) * gr_granularity r \<and>
     (if gr_base r = 0 then gr_handles r = [] \<and> gr_window r = 0
      else 0 < gr_granularity r \<and> gr_granularity r dvd gr_capacity r \<and> gr_mapped r \<le> gr_capacity r \<and>
        (gr_window r \<noteq> 0 \<longrightarrow> {gr_base r ..< gr_base r + gr_capacity r} \<inter> {gr_window r ..< gr_window r + gr_capacity r} = {}))"

text \<open>Every chunk created so far is outside the world's own lists (\<open>X\<close>), in the pool, with the worker, or released.\<close>

definition created :: "nat \<Rightarrow> nat multiset" where
  "created n = mset [1 ..< n]"

lemma created_Suc: "0 < n \<Longrightarrow> created (Suc n) = add_mset n (created n)"
  by (simp add: created_def del: mset_upt)

lemma in_created: "h \<in># created n \<longleftrightarrow> 1 \<le> h \<and> h < n"
  by (auto simp: created_def)

definition conserved :: "nat multiset \<Rightarrow> chunk_world \<Rightarrow> bool" where
  "conserved X w \<longleftrightarrow> 0 < vm_next w \<and>
     X + mset (hp_handles w) + mset (held_chunks (rf_phase w)) + mset (vm_released w) = created (vm_next w)"

definition pool_ok :: "driver_env \<Rightarrow> chunk_world \<Rightarrow> bool" where
  "pool_ok ev w \<longleftrightarrow> hl_plane_pool_bytes w = int (length (hp_handles w) * hp_granularity w) \<and>
     length (hp_handles w) * hp_granularity w \<le> ev_pool_cap ev + hp_granularity w \<and>
     rf_goal w * rf_granularity w \<le> ev_pool_cap ev \<and>
     (refill_wants (rf_phase w) \<and> rf_granularity w = hp_granularity w \<longrightarrow> length (hp_handles w) * hp_granularity w \<le> ev_pool_cap ev)"

lemma mem_unmap_simps [simp]:
  "pairs (mem_unmap a n w) = {p \<in> pairs w. \<not> (a \<le> fst p \<and> fst p < a + n)}" "conserved X (mem_unmap a n w) = conserved X w"
  "pool_ok ev (mem_unmap a n w) = pool_ok ev w" "hl_plane_bytes (mem_unmap a n w) = hl_plane_bytes w"
  by (auto simp: mem_unmap_def pairs_def conserved_def pool_ok_def split: if_splits)

lemma mem_release_simps [simp]:
  "pairs (mem_release h w) = pairs w" "conserved X (mem_release h w) \<longleftrightarrow> conserved (X + {#h#}) w"
  "pool_ok ev (mem_release h w) = pool_ok ev w" "hl_plane_bytes (mem_release h w) = hl_plane_bytes w"
  by (auto simp: mem_release_def pairs_def conserved_def pool_ok_def union_ac)

lemma add_plane_simps [simp]:
  "pairs (add_plane_bytes r n w) = pairs w" "conserved X (add_plane_bytes r n w) = conserved X w"
  "pool_ok ev (add_plane_bytes r n w) = pool_ok ev w"
  "hl_plane_bytes (add_plane_bytes r n w) = hl_plane_bytes w + (if host_backed r then n else 0)"
  by (auto simp: add_plane_bytes_def pairs_def conserved_def pool_ok_def)

lemma driver_call_facts:
  assumes "driver_call ev w = (b, w')"
  shows "pairs w' = pairs w" "conserved X w' = conserved X w" "pool_ok ev w' = pool_ok ev w" "hl_plane_bytes w' = hl_plane_bytes w"
  using assms by (auto simp: driver_call_def pairs_def conserved_def pool_ok_def)

lemma mem_map_facts:
  assumes "mem_map ev a h w = (b, w')"
  shows "pairs w' = (if b then insert (a, h) {p \<in> pairs w. fst p \<noteq> a} else pairs w)"
    "conserved X w' = conserved X w" "pool_ok ev w' = pool_ok ev w" "hl_plane_bytes w' = hl_plane_bytes w"
  using assms by (auto simp: mem_map_def driver_call_def pairs_def conserved_def pool_ok_def split: if_splits bool.splits)

lemma mem_create_facts:
  assumes "mem_create ev w = (h, w')" "conserved X w"
  shows "pairs w' = pairs w" "pool_ok ev w' = pool_ok ev w" "hl_plane_bytes w' = hl_plane_bytes w"
    "conserved (if h = 0 then X else X + {#h#}) w'"
  using assms by (auto simp: mem_create_def driver_call_def pairs_def conserved_def pool_ok_def created_Suc split: if_splits bool.splits)

lemma take_pooled_facts:
  assumes take: "take_pooled r w = (h, w')" and cons: "conserved X w" and pool: "pool_ok ev w"
  shows "pairs w' = pairs w" "pool_ok ev w'" "hl_plane_bytes w' = hl_plane_bytes w" "conserved (if h = 0 then X else X + {#h#}) w'"
proof -
  have all: "pairs w' = pairs w \<and> pool_ok ev w' \<and> hl_plane_bytes w' = hl_plane_bytes w \<and> conserved (if h = 0 then X else X + {#h#}) w'"
  proof (cases "host_backed r \<and> hp_handles w \<noteq> [] \<and> pool_matches r w")
    case True
    then have w': "w' = w\<lparr>hp_handles := butlast (hp_handles w), hl_plane_pool_bytes := hl_plane_pool_bytes w - int (gr_granularity r)\<rparr>"
        and h: "h = last (hp_handles w)"
      using take by (auto simp: take_pooled_def)
    obtain hs where hs: "hp_handles w = hs @ [h]"
      using True h by (metis append_butlast_last_id)
    have "created (vm_next w) = X + mset (hs @ [h]) + mset (held_chunks (rf_phase w)) + mset (vm_released w)"
      using cons by (simp add: conserved_def hs)
    then have "h \<in># created (vm_next w)"
      by simp
    then have "h \<noteq> 0"
      by (simp add: in_created)
    moreover have "conserved (X + {#h#}) w'"
      using cons by (simp add: conserved_def w' hs union_ac)
    moreover have "pool_ok ev w'"
      using pool True by (simp add: pool_ok_def w' hs pool_matches_def)
    ultimately show ?thesis
      by (simp add: w' pairs_def)
  next
    case False
    then have "h = 0" "w' = w"
      using take by (auto simp: take_pooled_def split: if_splits)
    then show ?thesis
      using cons pool by simp
  qed
  then show "pairs w' = pairs w" "pool_ok ev w'" "hl_plane_bytes w' = hl_plane_bytes w" "conserved (if h = 0 then X else X + {#h#}) w'"
    by simp_all
qed

lemma give_back_facts:
  assumes cons: "conserved (X + {#h#}) w" and pool: "pool_ok ev w"
  shows "pairs (give_back ev r h w) = pairs w \<and> pool_ok ev (give_back ev r h w) \<and>
    hl_plane_bytes (give_back ev r h w) = hl_plane_bytes w \<and> conserved X (give_back ev r h w)"
proof -
  define v where "v = (if hp_handles w = [] then w\<lparr>vm_calls := Suc (vm_calls w), hp_granularity := gr_granularity r, hp_location := gr_location r\<rparr>
    else w\<lparr>vm_calls := Suc (vm_calls w)\<rparr>)"
  have v: "pairs v = pairs w" "conserved (X + {#h#}) v" "pool_ok ev v" "hl_plane_bytes v = hl_plane_bytes w"
    using cons pool by (auto simp: v_def pairs_def conserved_def pool_ok_def)
  have u: "pairs (w\<lparr>vm_calls := Suc (vm_calls w)\<rparr>) = pairs w" "conserved (X + {#h#}) (w\<lparr>vm_calls := Suc (vm_calls w)\<rparr>)"
      "pool_ok ev (w\<lparr>vm_calls := Suc (vm_calls w)\<rparr>)"
    using cons pool by (simp_all add: pairs_def conserved_def pool_ok_def)
  show ?thesis
  proof (cases "host_backed r \<and> (case ev_available ev (vm_calls w) of None \<Rightarrow> False | Some n \<Rightarrow> kExl3HostReliefBytes \<le> n)")
    case True
    have eq: "give_back ev r h w = (if pool_matches r v \<and> (length (hp_handles v) + 1) * gr_granularity r \<le> ev_pool_cap ev
        then v\<lparr>hp_handles := hp_handles v @ [h], hl_plane_pool_bytes := hl_plane_pool_bytes v + int (gr_granularity r)\<rparr> else mem_release h v)"
      using True by (cases "hp_handles w = []") (simp_all add: give_back_def Let_def v_def)
    show ?thesis
    proof (cases "pool_matches r v \<and> (length (hp_handles v) + 1) * gr_granularity r \<le> ev_pool_cap ev")
      case True
      then show ?thesis
        using v unfolding eq by (simp add: pairs_def conserved_def pool_ok_def pool_matches_def algebra_simps)
    qed (use v in \<open>auto simp: eq\<close>)
  next
    case False
    then have "give_back ev r h w = mem_release h (w\<lparr>vm_calls := Suc (vm_calls w)\<rparr>)"
      by (auto simp: give_back_def Let_def)
    then show ?thesis
      using u by simp
  qed
qed


section \<open>One region among others\<close>

text \<open>
  \<open>P\<close> are the mappings, \<open>X\<close> the chunks and \<open>B\<close> the counted bytes of everything else.
\<close>

definition local_ok :: "driver_env \<Rightarrow> (nat \<times> nat) set \<Rightarrow> nat multiset \<Rightarrow> int \<Rightarrow> region \<Rightarrow> chunk_world \<Rightarrow> bool" where
  "local_ok ev P X B r w \<longleftrightarrow> region_ok r \<and> fst ` P \<inter> area r = {} \<and> pairs w = P \<union> placed r \<and>
     conserved (X + mset (gr_handles r)) w \<and> pool_ok ev w \<and>
     hl_plane_bytes w = B + (if host_backed r then int (gr_mapped r) else 0)"

lemma chunk_key:
  assumes "gr_mapped r = length (gr_handles r) * gr_granularity r" "p \<in> chunks start r"
  shows "start \<le> fst p \<and> fst p + gr_granularity r \<le> start + gr_mapped r"
proof -
  obtain k where k: "k < length (gr_handles r)" "fst p = start + k * gr_granularity r"
    using assms(2) by (auto simp: chunks_def)
  then have "(k + 1) * gr_granularity r \<le> length (gr_handles r) * gr_granularity r"
    by (intro mult_le_mono1) simp
  then show ?thesis
    using assms(1) k(2) by simp
qed

lemma free_slot:
  assumes ok: "region_ok r" "fst ` P \<inter> area r = {}" "gr_base r \<noteq> 0" and start: "start = gr_base r \<or> start = gr_window r \<and> gr_window r \<noteq> 0"
    and p: "p \<in> P \<union> placed r" "start + gr_mapped r \<le> fst p" "fst p < start + gr_capacity r"
  shows False
proof -
  have facts: "gr_mapped r = length (gr_handles r) * gr_granularity r" "0 < gr_granularity r" "gr_mapped r \<le> gr_capacity r"
      "gr_window r \<noteq> 0 \<Longrightarrow> {gr_base r ..< gr_base r + gr_capacity r} \<inter> {gr_window r ..< gr_window r + gr_capacity r} = {}"
    using ok(1,3) by (auto simp: region_ok_def)
  have inside: "fst p \<in> {start ..< start + gr_capacity r}"
    using p by simp
  then have "fst p \<in> area r"
    using start ok(3) by (auto simp: area_def)
  then have "p \<in> placed r"
    using ok(2) p(1) by auto
  then consider (base) "p \<in> chunks (gr_base r) r" | (window) "gr_window r \<noteq> 0" "p \<in> chunks (gr_window r) r"
    by (auto simp: placed_def split: if_splits)
  then show False
  proof cases
    case base
    note K = chunk_key [OF facts(1) base]
    have "fst p \<in> {gr_base r ..< gr_base r + gr_capacity r}"
      using K facts(2,3) by simp
    then show ?thesis
      using start facts(2,4) inside K p(2) by auto
  next
    case window
    note K = chunk_key [OF facts(1) window(2)]
    have "fst p \<in> {gr_window r ..< gr_window r + gr_capacity r}"
      using K facts(2,3) by simp
    then show ?thesis
      using start facts(2) facts(4) [OF window(1)] inside K p(2) by auto
  qed
qed

lemma room_for_chunk:
  assumes "region_ok r" "gr_base r \<noteq> 0" "gr_mapped r < bytes" "bytes \<le> gr_capacity r"
  shows "gr_mapped r + gr_granularity r \<le> gr_capacity r"
proof -
  obtain n where n: "gr_capacity r = gr_granularity r * n" "gr_mapped r = length (gr_handles r) * gr_granularity r" "0 < gr_granularity r"
    using assms(1,2) by (auto simp: region_ok_def elim: dvdE)
  then have "length (gr_handles r) < n"
    using assms(3,4) by (metis le_less_trans less_le_trans mult.commute mult_less_cancel2 order_refl)
  then have "(length (gr_handles r) + 1) * gr_granularity r \<le> n * gr_granularity r"
    by (intro mult_le_mono1) simp
  then show ?thesis
    using n by (simp add: mult.commute)
qed

lemma chunks_snoc:
  assumes "gr_mapped r = length (gr_handles r) * gr_granularity r"
  shows "chunks start (r\<lparr>gr_handles := gr_handles r @ [h], gr_mapped := m\<rparr>) = insert (start + gr_mapped r, h) (chunks start r)"
proof -
  have "chunks start (r\<lparr>gr_handles := gr_handles r @ [h], gr_mapped := m\<rparr>) =
      (\<lambda>k. (start + k * gr_granularity r, (gr_handles r @ [h]) ! k)) ` insert (length (gr_handles r)) {0 ..< length (gr_handles r)}"
    by (simp add: chunks_def atLeast0_lessThan_Suc)
  also have "\<dots> = insert (start + gr_mapped r, h) ((\<lambda>k. (start + k * gr_granularity r, (gr_handles r @ [h]) ! k)) ` {0 ..< length (gr_handles r)})"
    by (simp add: assms)
  also have "(\<lambda>k. (start + k * gr_granularity r, (gr_handles r @ [h]) ! k)) ` {0 ..< length (gr_handles r)} = chunks start r"
    unfolding chunks_def by (intro image_cong) (simp_all add: nth_append)
  finally show ?thesis .
qed

text \<open>The chunk a growth step works with, and the tests it passes.\<close>

lemma map_window_facts:
  assumes "map_window ev h r w = (fails, w')"
  shows "conserved X w' = conserved X w" "pool_ok ev w' = pool_ok ev w" "hl_plane_bytes w' = hl_plane_bytes w"
    "\<not> fails \<Longrightarrow> pairs w' = (if gr_window r = 0 then pairs w else insert (gr_window r + gr_mapped r, h) {p \<in> pairs w. fst p \<noteq> gr_window r + gr_mapped r})"
    "fails \<Longrightarrow> gr_window r \<noteq> 0 \<and> (pairs w' = pairs w \<or> pairs w' = insert (gr_window r + gr_mapped r, h) {p \<in> pairs w. fst p \<noteq> gr_window r + gr_mapped r})"
proof -
  have "(conserved X w' = conserved X w) \<and> (pool_ok ev w' = pool_ok ev w) \<and> hl_plane_bytes w' = hl_plane_bytes w \<and>
    (\<not> fails \<longrightarrow> pairs w' = (if gr_window r = 0 then pairs w else insert (gr_window r + gr_mapped r, h) {p \<in> pairs w. fst p \<noteq> gr_window r + gr_mapped r})) \<and>
    (fails \<longrightarrow> gr_window r \<noteq> 0 \<and> (pairs w' = pairs w \<or> pairs w' = insert (gr_window r + gr_mapped r, h) {p \<in> pairs w. fst p \<noteq> gr_window r + gr_mapped r}))"
  proof (cases "gr_window r = 0")
    case False
    obtain b w1 where m: "mem_map ev (gr_window r + gr_mapped r) h w = (b, w1)"
      by (cases "mem_map ev (gr_window r + gr_mapped r) h w")
    obtain c w2 where d: "driver_call ev w1 = (c, w2)"
      by (cases "driver_call ev w1")
    show ?thesis
      using assms False mem_map_facts [OF m] driver_call_facts [OF d] by (cases b) (auto simp: map_window_def m d)
  qed (use assms in \<open>simp add: map_window_def\<close>)
  then show "conserved X w' = conserved X w" "pool_ok ev w' = pool_ok ev w" "hl_plane_bytes w' = hl_plane_bytes w"
    "\<not> fails \<Longrightarrow> pairs w' = (if gr_window r = 0 then pairs w else insert (gr_window r + gr_mapped r, h) {p \<in> pairs w. fst p \<noteq> gr_window r + gr_mapped r})"
    "fails \<Longrightarrow> gr_window r \<noteq> 0 \<and> (pairs w' = pairs w \<or> pairs w' = insert (gr_window r + gr_mapped r, h) {p \<in> pairs w. fst p \<noteq> gr_window r + gr_mapped r})"
    by simp_all
qed

definition same_frame :: "region \<Rightarrow> region \<Rightarrow> bool" where
  "same_frame r r' \<longleftrightarrow> gr_base r' = gr_base r \<and> gr_capacity r' = gr_capacity r \<and> gr_granularity r' = gr_granularity r \<and>
     gr_location r' = gr_location r"

lemma same_frame_refl [simp]: "same_frame r r"
  by (simp add: same_frame_def)


lemma free_filter:
  fixes a g :: nat
  assumes "\<And>p. p \<in> S \<Longrightarrow> \<not> (a \<le> fst p \<and> fst p < a + g)" "0 < g"
  shows "{p \<in> S. fst p \<noteq> a} = S" "{p \<in> S. \<not> (a \<le> fst p \<and> fst p < a + g)} = S"
    "{p \<in> insert (a, h) S. \<not> (a \<le> fst p \<and> fst p < a + g)} = S"
  using assms by fastforce+

lemma insert_filter: "fst x \<noteq> b \<Longrightarrow> {p \<in> S. fst p \<noteq> b} = S \<Longrightarrow> {p \<in> insert x S. fst p \<noteq> b} = insert x S"
  by blast

text \<open>Both mappings of a chunk undone, when the range and the window do not meet.\<close>

lemma free_filter_window:
  fixes a b g :: nat
  assumes "\<And>p. p \<in> S \<Longrightarrow> \<not> (a \<le> fst p \<and> fst p < a + g)" "\<And>p. p \<in> S \<Longrightarrow> \<not> (b \<le> fst p \<and> fst p < b + g)"
    and "\<not> (b \<le> a \<and> a < b + g)" "0 < g" and T: "T = insert (a, h) S \<or> T = insert (b, h) {p \<in> insert (a, h) S. fst p \<noteq> b}"
  shows "{p \<in> {p \<in> T. \<not> (b \<le> fst p \<and> fst p < b + g)}. \<not> (a \<le> fst p \<and> fst p < a + g)} = S"
proof -
  have "{p \<in> T. \<not> (b \<le> fst p \<and> fst p < b + g)} = insert (a, h) S"
    using T assms(2-4) by fastforce
  then show ?thesis
    using free_filter(3) [OF assms(1,4)] by simp
qed

text \<open>A chunk taken from the pool or created, mapped at the end of the range; every failure undoes it.\<close>

definition obtain_chunk :: "driver_env \<Rightarrow> region \<Rightarrow> chunk_world \<Rightarrow> nat \<times> chunk_world" where
  "obtain_chunk ev r w = (case take_pooled r w of (h, w1) \<Rightarrow> if h \<noteq> 0 then (h, w1) else mem_create ev w1)"

lemma obtain_chunk_facts:
  assumes run: "obtain_chunk ev r w = (h, w')" and cons: "conserved X w" and pool: "pool_ok ev w"
  shows "pairs w' = pairs w" "pool_ok ev w'" "hl_plane_bytes w' = hl_plane_bytes w" "conserved (if h = 0 then X else X + {#h#}) w'"
proof -
  obtain h0 w1 where take: "take_pooled r w = (h0, w1)"
    by (cases "take_pooled r w")
  note T = take_pooled_facts [OF take cons pool]
  have "pairs w' = pairs w \<and> pool_ok ev w' \<and> hl_plane_bytes w' = hl_plane_bytes w \<and> conserved (if h = 0 then X else X + {#h#}) w'"
  proof (cases "h0 = 0")
    case True
    then have "mem_create ev w1 = (h, w')" "conserved X w1"
      using run take T(4) by (simp_all add: obtain_chunk_def)
    from mem_create_facts [OF this] show ?thesis
      using T by simp
  next
    case False
    then show ?thesis
      using run take T by (auto simp: obtain_chunk_def)
  qed
  then show "pairs w' = pairs w" "pool_ok ev w'" "hl_plane_bytes w' = hl_plane_bytes w" "conserved (if h = 0 then X else X + {#h#}) w'"
    by simp_all
qed

lemma local_ok_undo:
  assumes "local_ok ev P X B r w" "pairs w' = pairs w" "conserved (X + mset (gr_handles r)) w'" "pool_ok ev w'" "hl_plane_bytes w' = hl_plane_bytes w"
  shows "local_ok ev P X B r w'"
  using assms by (simp add: local_ok_def)

lemma local_ok_grown:
  assumes ok: "local_ok ev P X B r w" "gr_base r \<noteq> 0" and room: "gr_mapped r + gr_granularity r \<le> gr_capacity r"
    and w': "conserved (X + mset (gr_handles r) + {#h#}) w'" "pool_ok ev w'" "hl_plane_bytes w' = hl_plane_bytes w"
      "pairs w' = insert (gr_base r + gr_mapped r, h) (if gr_window r = 0 then pairs w else insert (gr_window r + gr_mapped r, h) (pairs w))"
  shows "local_ok ev P X B (r\<lparr>gr_handles := gr_handles r @ [h], gr_mapped := gr_mapped r + gr_granularity r\<rparr>)
    (add_plane_bytes r (int (gr_granularity r)) w')"
proof -
  let ?r = "r\<lparr>gr_handles := gr_handles r @ [h], gr_mapped := gr_mapped r + gr_granularity r\<rparr>"
  have reg: "gr_mapped r = length (gr_handles r) * gr_granularity r" and base: "region_ok r" "pairs w = P \<union> placed r"
    using ok by (auto simp: local_ok_def region_ok_def)
  have "region_ok ?r"
    using base(1) ok(2) room by (auto simp: region_ok_def)
  moreover have "placed ?r = insert (gr_base r + gr_mapped r, h)
      (if gr_window r = 0 then placed r else insert (gr_window r + gr_mapped r, h) (placed r))"
    using chunks_snoc [OF reg] by (auto simp: placed_def)
  moreover have "area ?r = area r" "host_backed ?r = host_backed r"
    by (simp_all add: area_def host_backed_def)
  ultimately show ?thesis
    using ok w' base(2) by (auto simp: local_ok_def)
qed

text \<open>The slot behind a region's chunks, in the range and in the window.\<close>

lemma slot_free:
  assumes L: "region_ok r" "fst ` P \<inter> area r = {}" "gr_base r \<noteq> 0" and room: "gr_mapped r + gr_granularity r \<le> gr_capacity r"
  shows "p \<in> P \<union> placed r \<Longrightarrow> \<not> (gr_base r + gr_mapped r \<le> fst p \<and> fst p < gr_base r + gr_mapped r + gr_granularity r)"
    "p \<in> P \<union> placed r \<Longrightarrow> gr_window r \<noteq> 0 \<Longrightarrow>
      \<not> (gr_window r + gr_mapped r \<le> fst p \<and> fst p < gr_window r + gr_mapped r + gr_granularity r)"
    "gr_window r \<noteq> 0 \<Longrightarrow> \<not> (gr_window r + gr_mapped r \<le> gr_base r + gr_mapped r \<and>
      gr_base r + gr_mapped r < gr_window r + gr_mapped r + gr_granularity r)"
proof -
  show "\<not> (gr_base r + gr_mapped r \<le> fst p \<and> fst p < gr_base r + gr_mapped r + gr_granularity r)" if "p \<in> P \<union> placed r"
    using free_slot [OF L, of "gr_base r" p] that room by auto
  show "\<not> (gr_window r + gr_mapped r \<le> fst p \<and> fst p < gr_window r + gr_mapped r + gr_granularity r)"
    if "p \<in> P \<union> placed r" "gr_window r \<noteq> 0"
    using free_slot [OF L, of "gr_window r" p] that room by auto
  have g: "0 < gr_granularity r"
    using L(1,3) by (simp add: region_ok_def)
  have "x \<notin> {gr_window r ..< gr_window r + gr_capacity r}" if "x \<in> {gr_base r ..< gr_base r + gr_capacity r}" "gr_window r \<noteq> 0" for x
    using L(1,3) that unfolding region_ok_def by auto
  from this [of "gr_base r + gr_mapped r"]
  show "\<not> (gr_window r + gr_mapped r \<le> gr_base r + gr_mapped r \<and> gr_base r + gr_mapped r < gr_window r + gr_mapped r + gr_granularity r)"
    if "gr_window r \<noteq> 0"
    using room g that by auto
qed

text \<open>The outcome of the driver's calls in a growth step: the world after the last one made, and whether the chunk is in place.\<close>

definition grow_tail :: "driver_env \<Rightarrow> region \<Rightarrow> nat \<Rightarrow> chunk_world \<Rightarrow> bool \<times> chunk_world" where
  "grow_tail ev r h w2 = (let g = gr_granularity r; address = gr_base r + gr_mapped r in
     case mem_map ev address h w2 of (False, w3) \<Rightarrow> (False, w3)
     | (True, w3) \<Rightarrow> (case driver_call ev w3 of (False, w4) \<Rightarrow> (False, mem_unmap address g w4)
       | (True, w4) \<Rightarrow> (case map_window ev h r w4 of
           (True, w5) \<Rightarrow> (False, mem_unmap address g (mem_unmap (gr_window r + gr_mapped r) g w5))
         | (False, w5) \<Rightarrow> (True, w5))))"

lemma grow_chunk_tail:
  assumes "gr_mapped r < bytes" "obtain_chunk ev r w = (h, w2)"
  shows "grow_chunk ev bytes r w = (if h = 0 then (Inl Runtime_error, r, w2) else case grow_tail ev r h w2 of
      (False, v) \<Rightarrow> (Inl Runtime_error, r, mem_release h v)
    | (True, v) \<Rightarrow> (Inr (), r\<lparr>gr_handles := gr_handles r @ [h], gr_mapped := gr_mapped r + gr_granularity r\<rparr>,
        add_plane_bytes r (int (gr_granularity r)) v))"
  using assms by (simp add: grow_chunk_def grow_tail_def obtain_chunk_def Let_def split: prod.split bool.split)

lemma grow_tail_facts:
  assumes L: "region_ok r" "fst ` P \<inter> area r = {}" "gr_base r \<noteq> 0" "gr_mapped r + gr_granularity r \<le> gr_capacity r"
    and w: "pairs w = P \<union> placed r" and run: "grow_tail ev r h w = (worked, v)"
  shows "conserved X v = conserved X w" "pool_ok ev v = pool_ok ev w" "hl_plane_bytes v = hl_plane_bytes w"
    "pairs v = (if \<not> worked then pairs w else insert (gr_base r + gr_mapped r, h)
      (if gr_window r = 0 then pairs w else insert (gr_window r + gr_mapped r, h) (pairs w)))"
proof -
  let ?g = "gr_granularity r" and ?a = "gr_base r + gr_mapped r" and ?b = "gr_window r + gr_mapped r" and ?S = "P \<union> placed r"
  have g: "0 < ?g"
    using L(1,3) by (simp add: region_ok_def)
  note F = slot_free [OF L]
  note A = free_filter [of ?S ?a ?g, OF F(1) g]
  have Bw: "{p \<in> insert (?a, h) ?S. fst p \<noteq> ?b} = insert (?a, h) ?S" if "gr_window r \<noteq> 0"
    using F(3) [OF that] g by (intro insert_filter free_filter(1) [OF F(2) [OF _ that] g]) auto
  obtain m w3 where map: "mem_map ev ?a h w = (m, w3)"
    by (cases "mem_map ev ?a h w")
  note M = mem_map_facts [OF map]
  obtain c w4 where acc: "driver_call ev w3 = (c, w4)"
    by (cases "driver_call ev w3")
  note D = driver_call_facts [OF acc]
  obtain f w5 where win: "map_window ev h r w4 = (f, w5)"
    by (cases "map_window ev h r w4")
  note W = map_window_facts [OF win]
  have step: "(worked, v) = (if \<not> m then (False, w3) else if \<not> c then (False, mem_unmap ?a ?g w4)
      else if f then (False, mem_unmap ?a ?g (mem_unmap ?b ?g w5)) else (True, w5))"
    unfolding run [symmetric] using map acc win by (simp add: grow_tail_def Let_def split: bool.split)
  show "conserved X v = conserved X w" "pool_ok ev v = pool_ok ev w" "hl_plane_bytes v = hl_plane_bytes w"
    using step M D W(1-3) by (auto split: if_splits)
  have mapped: "pairs w4 = insert (?a, h) ?S" if m
    using that M(1) D(1) w A(1) by simp
  have undone: "pairs (mem_unmap ?a ?g (mem_unmap ?b ?g w5)) = ?S" if m f
  proof -
    have win: "gr_window r \<noteq> 0" and p5: "pairs w5 = insert (?a, h) ?S \<or> pairs w5 = insert (?b, h) {p \<in> insert (?a, h) ?S. fst p \<noteq> ?b}"
      using W(5) [OF \<open>f\<close>] mapped [OF \<open>m\<close>] by simp_all
    show ?thesis
      unfolding mem_unmap_simps by (rule free_filter_window [OF F(1) F(2) [OF _ win] F(3) [OF win] g p5])
  qed
  have denied: "pairs (mem_unmap ?a ?g w4) = ?S" if m
    unfolding mem_unmap_simps mapped [OF that] by (rule A(3))
  consider "\<not> m" | "m" "\<not> c" | "m" "c" "f" | (new) "m" "c" "\<not> f"
    by blast
  then show "pairs v = (if \<not> worked then pairs w else insert (?a, h) (if gr_window r = 0 then pairs w else insert (?b, h) (pairs w)))"
  proof cases
    case new
    then show ?thesis
      using step W(4) mapped w Bw by (auto simp: insert_commute)
  qed (use step M(1) w in \<open>simp_all add: denied undone del: mem_unmap_simps\<close>)
qed

lemma grow_chunk_ok:
  assumes ok: "local_ok ev P X B r w" "gr_base r \<noteq> 0" "bytes \<le> gr_capacity r" and run: "grow_chunk ev bytes r w = (res, r', w')"
  shows "local_ok ev P X B r' w' \<and> same_frame r r' \<and> gr_window r' = gr_window r \<and>
    gr_mapped r' = (if res = Inr () \<and> gr_mapped r < bytes then gr_mapped r + gr_granularity r else gr_mapped r)"
proof (cases "gr_mapped r < bytes")
  case True
  have L: "region_ok r" "fst ` P \<inter> area r = {}" "pairs w = P \<union> placed r" "conserved (X + mset (gr_handles r)) w" "pool_ok ev w"
    using ok(1) by (simp_all add: local_ok_def)
  have room: "gr_mapped r + gr_granularity r \<le> gr_capacity r"
    by (rule room_for_chunk [OF L(1) ok(2) True ok(3)])
  obtain h w2 where get: "obtain_chunk ev r w = (h, w2)"
    by (cases "obtain_chunk ev r w")
  note G = obtain_chunk_facts [OF get L(4,5)]
  obtain worked v where tail: "grow_tail ev r h w2 = (worked, v)"
    by (cases "grow_tail ev r h w2")
  note T = grow_tail_facts [OF L(1,2) ok(2) room G(1) [unfolded L(3)] tail]
  have step: "(res, r', w') = (if h = 0 then (Inl Runtime_error, r, w2) else if \<not> worked then (Inl Runtime_error, r, mem_release h v)
      else (Inr (), r\<lparr>gr_handles := gr_handles r @ [h], gr_mapped := gr_mapped r + gr_granularity r\<rparr>,
        add_plane_bytes r (int (gr_granularity r)) v))"
    unfolding run [symmetric] grow_chunk_tail [OF True get] tail by (simp split: bool.split)
  show ?thesis
  proof (cases "h = 0 \<or> \<not> worked")
    case bad: True
    then have "r' = r" "res \<noteq> Inr ()" "w' = (if h = 0 then w2 else mem_release h v)"
      using step by (simp_all split: if_splits)
    moreover from bad this(3) have "pairs w' = pairs w" "conserved (X + mset (gr_handles r)) w'" "pool_ok ev w'" "hl_plane_bytes w' = hl_plane_bytes w"
      using G T by (cases "h = 0"; simp)+
    ultimately show ?thesis
      using local_ok_undo [OF ok(1), of w'] by simp
  next
    case False
    then have "conserved (X + mset (gr_handles r) + {#h#}) v" "pool_ok ev v" "hl_plane_bytes v = hl_plane_bytes w"
        "pairs v = insert (gr_base r + gr_mapped r, h) (if gr_window r = 0 then pairs w else insert (gr_window r + gr_mapped r, h) (pairs w))"
      using G T by simp_all
    from local_ok_grown [OF ok(1,2) room this] show ?thesis
      using False step True by (auto simp: same_frame_def)
  qed
next
  case False
  then show ?thesis
    using run ok(1) by (auto simp: grow_chunk_def)
qed

text \<open>Unmapping a chunk from its slot in the range and, if there is one, in the window.\<close>

lemma unmap_chunk:
  fixes a b g win :: nat
  assumes F: "\<And>p. p \<in> S \<Longrightarrow> \<not> (a \<le> fst p \<and> fst p < a + g)" "\<And>p. p \<in> S \<Longrightarrow> win \<noteq> 0 \<Longrightarrow> \<not> (b \<le> fst p \<and> fst p < b + g)"
      "win \<noteq> 0 \<Longrightarrow> \<not> (b \<le> a \<and> a < b + g)" "0 < g"
    and w: "pairs w = insert (a, h) (if win = 0 then S else insert (b, h) S)"
  shows "pairs (mem_unmap a g (if win \<noteq> 0 then mem_unmap b g w else w)) = S"
proof (cases "win = 0")
  case True
  then show ?thesis
    using free_filter(3) [OF F(1,4)] w by (simp only: mem_unmap_simps if_True if_False simp_thms)
next
  case False
  have "fst (a, h) \<noteq> b"
    using F(3) [OF False] F(4) by auto
  then have "{p \<in> insert (a, h) S. fst p \<noteq> b} = insert (a, h) S"
    by (rule insert_filter) (rule free_filter(1) [OF F(2) [OF _ False] F(4)])
  then have "pairs w = insert (b, h) {p \<in> insert (a, h) S. fst p \<noteq> b}"
    using w False by auto
  then have "{p \<in> {p \<in> pairs w. \<not> (b \<le> fst p \<and> fst p < b + g)}. \<not> (a \<le> fst p \<and> fst p < a + g)} = S"
    by (intro free_filter_window [OF F(1) F(2) [OF _ False] F(3) [OF False] F(4)]) auto
  then show ?thesis
    using False by (simp only: mem_unmap_simps if_True simp_thms)
qed

lemma drop_chunk_ok:
  assumes ok: "local_ok ev P X B r w" "gr_base r \<noteq> 0" "gr_handles r \<noteq> []" and run: "drop_chunk ev (gr_window r \<noteq> 0) r w = (r', w')"
  shows "local_ok ev P X B r' w' \<and> same_frame r r' \<and> gr_window r' = gr_window r \<and>
    gr_mapped r' = gr_mapped r - gr_granularity r \<and> length (gr_handles r') < length (gr_handles r)"
proof -
  obtain hs h where hs: "gr_handles r = hs @ [h]"
    using ok(3) by (metis append_butlast_last_id)
  let ?g = "gr_granularity r"
  define m where "m = gr_mapped r - ?g"
  let ?a = "gr_base r + m" and ?b = "gr_window r + m" and ?q = "r\<lparr>gr_mapped := m, gr_handles := hs\<rparr>"
  have L: "region_ok r" "fst ` P \<inter> area r = {}" "pairs w = P \<union> placed r" "conserved (X + mset (gr_handles r)) w" "pool_ok ev w"
    using ok(1) by (simp_all add: local_ok_def)
  have mapped: "gr_mapped r = m + ?g" "m = length hs * ?g" and g: "0 < ?g" and fits: "gr_mapped r \<le> gr_capacity r"
    using L(1) ok(2) hs by (auto simp: region_ok_def m_def)
  have q: "region_ok ?q" "area ?q = area r" "host_backed ?q = host_backed r"
    using L(1) ok(2) mapped fits by (auto simp: region_ok_def area_def host_backed_def)
  have F: "p \<in> P \<union> placed ?q \<Longrightarrow> \<not> (?a \<le> fst p \<and> fst p < ?a + ?g)"
      "p \<in> P \<union> placed ?q \<Longrightarrow> gr_window r \<noteq> 0 \<Longrightarrow> \<not> (?b \<le> fst p \<and> fst p < ?b + ?g)"
      "gr_window r \<noteq> 0 \<Longrightarrow> \<not> (?b \<le> ?a \<and> ?a < ?b + ?g)" for p
    using slot_free [of ?q P] q L(2) ok(2) mapped fits by simp_all
  have qr: "?q\<lparr>gr_handles := gr_handles ?q @ [h], gr_mapped := gr_mapped r\<rparr> = r"
    by (simp add: hs [symmetric])
  have "gr_mapped ?q = length (gr_handles ?q) * gr_granularity ?q"
    using mapped(2) by simp
  note snoc = chunks_snoc [OF this, where h = h and m = "gr_mapped r", unfolded qr]
  have "chunks start r = insert (start + m, h) (chunks start ?q)" for start
    using snoc [of start] by simp
  then have placed: "placed r = insert (?a, h) (if gr_window r = 0 then placed ?q else insert (?b, h) (placed ?q))"
    by (auto simp: placed_def)
  define v where "v = mem_unmap ?a ?g (if gr_window r \<noteq> 0 then mem_unmap ?b ?g w else w)"
  have "pairs v = P \<union> placed ?q"
    unfolding v_def by (rule unmap_chunk [OF F g, where h = h]) (use L(3) placed in auto)
  moreover have "conserved (X + mset hs + {#h#}) v" "pool_ok ev v" "hl_plane_bytes v = hl_plane_bytes w"
    using L(4,5) hs by (simp_all add: v_def)
  moreover have "r' = ?q" "w' = add_plane_bytes r (- int ?g) (give_back ev r h v)"
    using run [symmetric] unfolding drop_chunk_def Let_def v_def m_def [symmetric] by (simp_all add: hs)
  ultimately show ?thesis
    using ok(1) q give_back_facts [of "X + mset hs" h v ev r] L(2) mapped(1)
    by (auto simp: local_ok_def same_frame_def hs)
qed


lemma shrink_loop_ok:
  assumes "local_ok ev P X B r w" "gr_base r \<noteq> 0" "shrink_loop ev bytes r w = (r', w')"
  shows "local_ok ev P X B r' w' \<and> same_frame r r' \<and> gr_window r' = gr_window r \<and> (gr_mapped r' \<le> bytes \<or> gr_handles r' = [])"
  using assms
proof (induction ev bytes r w arbitrary: r' w' rule: shrink_loop.induct)
  case (1 ev bytes r w)
  show ?case
  proof (cases "bytes < gr_mapped r \<and> gr_handles r \<noteq> []")
    case True
    obtain q v where drop: "drop_chunk ev (gr_window r \<noteq> 0) r w = (q, v)"
      by (cases "drop_chunk ev (gr_window r \<noteq> 0) r w")
    have D: "local_ok ev P X B q v" "same_frame r q" "gr_window q = gr_window r"
      using drop_chunk_ok [OF 1(2,3) _ drop] True by simp_all
    have run: "shrink_loop ev bytes q v = (r', w')"
      using 1(4) True drop by (simp add: shrink_loop.simps [of ev bytes r w])
    have "gr_base q \<noteq> 0"
      using D(2) 1(3) by (simp add: same_frame_def)
    from 1(1) [OF True drop [symmetric] D(1) this run] show ?thesis
      using D by (simp add: same_frame_def)
  next
    case False
    then show ?thesis
      using 1 by (auto simp: shrink_loop.simps [of ev bytes r w])
  qed
qed

lemma reset_loop_ok:
  assumes "local_ok ev P X B r w" "gr_base r \<noteq> 0" "gr_window r = 0" "reset_loop ev r w = (r', w')"
  shows "local_ok ev P X B r' w' \<and> same_frame r r' \<and> gr_window r' = 0 \<and> gr_handles r' = []"
  using assms
proof (induction ev r w arbitrary: r' w' rule: reset_loop.induct)
  case (1 ev r w)
  show ?case
  proof (cases "gr_handles r \<noteq> []")
    case True
    obtain q v where drop: "drop_chunk ev False r w = (q, v)"
      by (cases "drop_chunk ev False r w")
    have D: "local_ok ev P X B q v" "same_frame r q" "gr_window q = 0"
      using drop_chunk_ok [OF 1(2,3) True] drop 1(4) by simp_all
    have run: "reset_loop ev q v = (r', w')"
      using 1(5) True drop by (simp add: reset_loop.simps [of ev r w])
    have "gr_base q \<noteq> 0"
      using D(2) 1(3) by (simp add: same_frame_def)
    from 1(1) [OF True drop [symmetric] D(1) this D(3) run] show ?thesis
      using D by (simp add: same_frame_def)
  next
    case False
    then show ?thesis
      using 1 by (auto simp: reset_loop.simps [of ev r w])
  qed
qed

text \<open>Unmapping the whole window leaves the range.\<close>

lemma unmap_window:
  assumes ok: "region_ok r" "fst ` P \<inter> area r = {}" "gr_base r \<noteq> 0" "gr_window r \<noteq> 0"
  shows "{p \<in> P \<union> placed r. \<not> (gr_window r \<le> fst p \<and> fst p < gr_window r + gr_mapped r)} = P \<union> chunks (gr_base r) r"
proof -
  have facts: "gr_mapped r = length (gr_handles r) * gr_granularity r" "0 < gr_granularity r" "gr_mapped r \<le> gr_capacity r"
      "{gr_base r ..< gr_base r + gr_capacity r} \<inter> {gr_window r ..< gr_window r + gr_capacity r} = {}"
    using ok by (auto simp: region_ok_def)
  have other: "\<not> (gr_window r \<le> fst p \<and> fst p < gr_window r + gr_mapped r)" if "p \<in> P" for p
  proof -
    have "fst p \<notin> area r"
      using ok(2) that by blast
    then show ?thesis
      using ok(4) facts(3) by (auto simp: area_def)
  qed
  have base: "\<not> (gr_window r \<le> fst p \<and> fst p < gr_window r + gr_mapped r)" if "p \<in> chunks (gr_base r) r" for p
  proof -
    have "fst p \<in> {gr_base r ..< gr_base r + gr_capacity r}"
      using chunk_key [OF facts(1) that] facts(2,3) by simp
    then have "fst p \<notin> {gr_window r ..< gr_window r + gr_capacity r}"
      using facts(4) by blast
    then show ?thesis
      using facts(3) by auto
  qed
  have window: "gr_window r \<le> fst p \<and> fst p < gr_window r + gr_mapped r" if "p \<in> chunks (gr_window r) r" for p
    using chunk_key [OF facts(1) that] facts(2) by simp
  show ?thesis
    unfolding placed_def using other base window ok(4) by auto
qed

lemma unwindowed_ok:
  assumes ok: "local_ok ev P X B r w" "gr_base r \<noteq> 0" "gr_window r \<noteq> 0"
  shows "local_ok ev P X B (r\<lparr>gr_window := 0\<rparr>) (if gr_mapped r \<noteq> 0 then mem_unmap (gr_window r) (gr_mapped r) w else w)"
proof -
  let ?q = "r\<lparr>gr_window := 0\<rparr>"
  have L: "region_ok r" "fst ` P \<inter> area r = {}" "pairs w = P \<union> placed r"
    using ok(1) by (simp_all add: local_ok_def)
  have "pairs (if gr_mapped r \<noteq> 0 then mem_unmap (gr_window r) (gr_mapped r) w else w) =
      {p \<in> P \<union> placed r. \<not> (gr_window r \<le> fst p \<and> fst p < gr_window r + gr_mapped r)}"
    using L(3) by auto
  also have "\<dots> = P \<union> chunks (gr_base r) r"
    by (rule unmap_window [OF L(1,2) ok(2,3)])
  finally have "pairs (if gr_mapped r \<noteq> 0 then mem_unmap (gr_window r) (gr_mapped r) w else w) = P \<union> placed ?q"
    by (simp add: placed_def chunks_def)
  moreover have "region_ok ?q" "fst ` P \<inter> area ?q = {}"
    using L(1,2) by (auto simp: region_ok_def area_def)
  ultimately show ?thesis
    using ok(1) by (simp add: local_ok_def host_backed_def)
qed

lemma detach_window_ok:
  assumes "local_ok ev P X B r w" "detach_window r w = (r', w')"
  shows "local_ok ev P X B r' w' \<and> same_frame r r' \<and> gr_window r' = 0"
proof (cases "gr_window r = 0")
  case False
  then have "gr_base r \<noteq> 0"
    using assms(1) by (auto simp: local_ok_def region_ok_def)
  then show ?thesis
    using unwindowed_ok [OF assms(1) _ False] assms(2) False by (auto simp: detach_window_def same_frame_def split: if_splits)
qed (use assms in \<open>auto simp: detach_window_def\<close>)


text \<open>The chunks mirrored so far, while a window is attached.\<close>

definition chunk_pairs :: "nat \<Rightarrow> nat \<Rightarrow> nat list \<Rightarrow> (nat \<times> nat) set" where
  "chunk_pairs start g hs = (\<lambda>k. (start + k * g, hs ! k)) ` {0 ..< length hs}"

lemma chunk_pairs_Nil [simp]: "chunk_pairs start g [] = {}"
  by (simp add: chunk_pairs_def)

lemma chunk_pairs_snoc: "chunk_pairs start g (hs @ [h]) = insert (start + length hs * g, h) (chunk_pairs start g hs)"
proof -
  have "(\<lambda>k. (start + k * g, (hs @ [h]) ! k)) ` {0 ..< length hs} = chunk_pairs start g hs"
    unfolding chunk_pairs_def by (intro image_cong) (simp_all add: nth_append)
  then show ?thesis
    by (simp add: chunk_pairs_def atLeast0_lessThan_Suc)
qed

lemma chunk_pairs_key:
  assumes "p \<in> chunk_pairs start g hs" "0 < g"
  shows "start \<le> fst p \<and> fst p < start + length hs * g"
  using assms by (auto simp: chunk_pairs_def)

lemma attach_loop_facts:
  assumes "attach_loop ev window g hs (length pre) w = (worked, w')" "pairs w = S \<union> chunk_pairs window g pre" "0 < g"
    and "\<And>p. p \<in> S \<Longrightarrow> \<not> (window \<le> fst p \<and> fst p < window + length (pre @ hs) * g)"
  shows "pairs w' = (if worked then S \<union> chunk_pairs window g (pre @ hs) else S) \<and> (conserved X w' \<longleftrightarrow> conserved X w) \<and>
    (pool_ok ev w' \<longleftrightarrow> pool_ok ev w) \<and> hl_plane_bytes w' = hl_plane_bytes w"
  using assms
proof (induction hs arbitrary: pre w)
  case (Cons h hs)
  let ?a = "window + length pre * g"
  obtain b v where map: "mem_map ev ?a h w = (b, v)"
    by (cases "mem_map ev ?a h w")
  note M = mem_map_facts [OF map]
  have "?a < window + length (pre @ h # hs) * g"
    using Cons.prems(3) by (simp add: add_mult_distrib)
  then have keys: "fst p \<noteq> ?a" if "p \<in> pairs w" for p
    using that chunk_pairs_key [of p window g pre] Cons.prems(2,3) Cons.prems(4) [of p] by auto
  show ?case
  proof (cases b)
    case True
    have "{p \<in> pairs w. fst p \<noteq> ?a} = pairs w"
      using keys by blast
    then have "pairs v = S \<union> chunk_pairs window g (pre @ [h])"
      using M(1) True Cons.prems(2) by (simp add: chunk_pairs_snoc)
    moreover have "attach_loop ev window g hs (length (pre @ [h])) v = (worked, w')"
      using Cons.prems(1) map True by simp
    moreover have "\<And>p. p \<in> S \<Longrightarrow> \<not> (window \<le> fst p \<and> fst p < window + length ((pre @ [h]) @ hs) * g)"
      using Cons.prems(4) by simp
    ultimately show ?thesis
      using Cons.IH [of "pre @ [h]" v] Cons.prems(3) M by simp
  next
    case False
    have out: "\<not> (window \<le> fst p \<and> fst p < ?a)" if "p \<in> S" for p
      using Cons.prems(4) [OF that] by (auto simp: add_mult_distrib)
    have "{p \<in> S \<union> chunk_pairs window g pre. \<not> (window \<le> fst p \<and> fst p < ?a)} = S"
      using out chunk_pairs_key [OF _ Cons.prems(3), of _ window pre] by blast
    moreover have "(worked, w') = (False, if length pre \<noteq> 0 then mem_unmap window (length pre * g) v else v)"
      using Cons.prems(1) map False by simp
    ultimately show ?thesis
      using M False Cons.prems(2) by auto
  qed
qed simp

text \<open>No chunk is mapped where a fresh window will be.\<close>

lemma window_free:
  assumes r: "region_ok r" "gr_base r \<noteq> 0" "gr_window r = 0"
    and apart: "fst ` P \<inter> {window ..< window + gr_capacity r} = {}" "{gr_base r ..< gr_base r + gr_capacity r} \<inter> {window ..< window + gr_capacity r} = {}"
    and p: "p \<in> P \<union> placed r"
  shows "\<not> (window \<le> fst p \<and> fst p < window + gr_mapped r)"
proof -
  have R: "gr_mapped r = length (gr_handles r) * gr_granularity r" "0 < gr_granularity r" "gr_mapped r \<le> gr_capacity r"
    using r by (auto simp: region_ok_def)
  have "fst p \<in> {gr_base r ..< gr_base r + gr_capacity r}" if "p \<in> chunks (gr_base r) r"
    using chunk_key [OF R(1) that] R(2,3) by simp
  then have "fst p \<notin> {window ..< window + gr_capacity r}"
    using p r(3) apart by (auto simp: placed_def)
  then show ?thesis
    using R(3) by auto
qed

lemma attach_window_ok:
  assumes ok: "local_ok ev P X B r w" "gr_base r \<noteq> 0" "window \<noteq> 0"
    and apart: "fst ` P \<inter> {window ..< window + gr_capacity r} = {}" "{gr_base r ..< gr_base r + gr_capacity r} \<inter> {window ..< window + gr_capacity r} = {}"
    and run: "attach_window ev window r w = (res, r', w')"
  shows "local_ok ev P X B r' w' \<and> area r' \<subseteq> area r \<union> {window ..< window + gr_capacity r} \<and> same_frame r r' \<and>
    (res = Inr () \<longrightarrow> gr_window r' = window)"
proof (cases "gr_window r = 0")
  case True
  let ?g = "gr_granularity r" and ?S = "P \<union> placed r"
  have L: "region_ok r" "fst ` P \<inter> area r = {}" "pairs w = ?S" "conserved (X + mset (gr_handles r)) w" "pool_ok ev w"
    using ok(1) by (simp_all add: local_ok_def)
  have R: "gr_mapped r = length (gr_handles r) * ?g" "0 < ?g" "gr_mapped r \<le> gr_capacity r"
    using L(1) ok(2) by (auto simp: region_ok_def)
  note free = window_free [OF L(1) ok(2) True apart]
  obtain b w1 where loop: "attach_loop ev window ?g (gr_handles r) 0 w = (b, w1)"
    by (cases "attach_loop ev window ?g (gr_handles r) 0 w")
  have F: "pairs w1 = (if b then ?S \<union> chunk_pairs window ?g (gr_handles r) else ?S) \<and> (conserved Y w1 \<longleftrightarrow> conserved Y w) \<and>
      (pool_ok ev w1 \<longleftrightarrow> pool_ok ev w) \<and> hl_plane_bytes w1 = hl_plane_bytes w" for Y
    using attach_loop_facts [where pre = "[]" and S = ?S and X = Y] loop L(3) R(1,2) free by simp
  obtain c w2 where call: "(if gr_mapped r = 0 then (True, w1) else driver_call ev w1) = (c, w2)"
    by (cases "if gr_mapped r = 0 then (True, w1) else driver_call ev w1")
  have D: "pairs w2 = pairs w1" "conserved Y w2 = conserved Y w1" "pool_ok ev w2 = pool_ok ev w1" "hl_plane_bytes w2 = hl_plane_bytes w1" for Y
    using call driver_call_facts [of ev w1 c w2] by (simp_all split: if_splits)
  have step: "(res, r', w') = (if \<not> b then (Inl Runtime_error, r, w1)
      else if \<not> c then (Inl Runtime_error, r, mem_unmap window (gr_mapped r) w2) else (Inr (), r\<lparr>gr_window := window\<rparr>, w2))"
    unfolding run [symmetric] using True loop call by (simp add: attach_window_def split: bool.split)
  have chunks: "chunk_pairs window ?g (gr_handles r) = chunks window r" "chunks start (r\<lparr>gr_window := n\<rparr>) = chunks start r" for start n
    by (simp_all add: chunk_pairs_def chunks_def)
  have undo: "{p \<in> ?S \<union> chunks window r. \<not> (window \<le> fst p \<and> fst p < window + gr_mapped r)} = ?S"
    using free chunk_key [OF R(1), of _ window] R(2) by fastforce
  show ?thesis
  proof (cases "b \<and> c")
    case both: True
    have "pairs w2 = P \<union> placed (r\<lparr>gr_window := window\<rparr>)"
      using both F D(1) ok(3) True by (simp add: placed_def chunks Un_assoc)
    moreover have "region_ok (r\<lparr>gr_window := window\<rparr>)" "fst ` P \<inter> area (r\<lparr>gr_window := window\<rparr>) = {}"
      using L(1,2) ok(2) apart True by (auto simp: region_ok_def area_def)
    moreover have "area (r\<lparr>gr_window := window\<rparr>) \<subseteq> area r \<union> {window ..< window + gr_capacity r}"
      by (auto simp: area_def)
    ultimately show ?thesis
      using both step ok(1) F D by (simp add: local_ok_def same_frame_def host_backed_def)
  next
    case False
    have "pairs w' = pairs w \<and> conserved (X + mset (gr_handles r)) w' \<and> pool_ok ev w' \<and> hl_plane_bytes w' = hl_plane_bytes w \<and> r' = r \<and> res \<noteq> Inr ()"
      using False step F D L(3-5) undo by (cases b) (simp_all add: chunks)
    then show ?thesis
      using local_ok_undo [OF ok(1), of w'] by auto
  qed
qed (use run ok(1) in \<open>auto simp: attach_window_def\<close>)


lemma round_up_dvd: "g dvd round_up g bytes \<or> g = 0"
  by (simp add: round_up_def)

lemma region_reserve_ok:
  assumes ok: "local_ok ev P X B r w" and driver: "0 < g" "base \<noteq> 0"
    and apart: "fst ` P \<inter> {base ..< base + round_up g (max capacity 1)} = {}"
    and run: "region_reserve ev capacity host device numa g base r w = (res, r', w')"
  shows "local_ok ev P X B r' w' \<and> area r' \<subseteq> area r \<union> {base ..< base + round_up g (max capacity 1)} \<and>
    (res = Inr () \<longrightarrow> gr_base r' = base \<and> gr_mapped r' = 0)"
proof (cases "gr_base r = 0")
  case True
  let ?l = "if host then if 0 \<le> numa then (LOCATION_HOST_NUMA, numa) else (LOCATION_HOST, 0) else (LOCATION_DEVICE, device)"
  have r: "gr_handles r = []" "gr_window r = 0" "gr_mapped r = 0"
    using ok True by (auto simp: local_ok_def region_ok_def)
  obtain a w1 where a: "driver_call ev w = (a, w1)"
    by (cases "driver_call ev w")
  obtain b w2 where b: "driver_call ev w1 = (b, w2)"
    by (cases "driver_call ev w1")
  obtain c w3 where c: "driver_call ev w2 = (c, w3)"
    by (cases "driver_call ev w2")
  note D = driver_call_facts [OF a] driver_call_facts [OF b] driver_call_facts [OF c]
  have step: "(res, r', w') = (if \<not> a then (Inl Runtime_error, r, w1) else if \<not> b then (Inl Runtime_error, r\<lparr>gr_location := ?l\<rparr>, w2)
      else if \<not> c then (Inl Runtime_error, r\<lparr>gr_location := ?l, gr_granularity := g, gr_capacity := round_up g (max capacity 1)\<rparr>, w3)
      else (Inr (), r\<lparr>gr_location := ?l, gr_granularity := g, gr_capacity := round_up g (max capacity 1), gr_base := base\<rparr>, w3))"
    unfolding run [symmetric] using True a b c by (simp add: region_reserve_def Let_def split: bool.split)
  have shape: "gr_handles r' = [] \<and> gr_window r' = 0 \<and> gr_mapped r' = 0 \<and>
      (gr_base r' = 0 \<and> res \<noteq> Inr () \<or> gr_base r' = base \<and> gr_granularity r' = g \<and> gr_capacity r' = round_up g (max capacity 1))"
    using step r True by (auto split: if_splits)
  have world: "pairs w' = pairs w" "conserved Y w' = conserved Y w" "pool_ok ev w' = pool_ok ev w" "hl_plane_bytes w' = hl_plane_bytes w" for Y
    using step D by (auto split: if_splits)
  have "region_ok r'"
    using shape driver round_up_dvd [of g "max capacity 1"] by (auto simp: region_ok_def)
  moreover have "area r' \<subseteq> {base ..< base + round_up g (max capacity 1)}"
    using shape by (auto simp: area_def)
  moreover have "placed r' = {}" "placed r = {}"
    using shape r by (simp_all add: placed_def chunks_def)
  ultimately show ?thesis
    using ok world shape r apart driver(2) by (auto simp: local_ok_def)
qed (use run ok in \<open>auto simp: region_reserve_def\<close>)

lemma shrink_ok:
  assumes "local_ok ev P X B r w" "shrink ev bytes r w = (r', w')"
  shows "local_ok ev P X B r' w' \<and> same_frame r r' \<and> gr_window r' = gr_window r \<and>
    gr_mapped r' \<le> min (round_up (gr_granularity r) bytes) (gr_capacity r)"
proof (cases "gr_base r = 0")
  case False
  from shrink_loop_ok [OF assms(1) False, of "min (round_up (gr_granularity r) bytes) (gr_capacity r)" r' w'] show ?thesis
    using assms(2) False by (auto simp: shrink_def local_ok_def region_ok_def)
qed (use assms in \<open>auto simp: shrink_def local_ok_def region_ok_def\<close>)

lemma area_same_frame: "same_frame r r' \<Longrightarrow> gr_window r' = gr_window r \<or> gr_window r' = 0 \<Longrightarrow> area r' \<subseteq> area r"
  by (auto simp: same_frame_def area_def split: if_splits)

lemma region_reset_ok:
  assumes ok: "local_ok ev P X B r w" and run: "region_reset ev r w = (r', w')"
  shows "local_ok ev P X B r' w' \<and> area r' = {} \<and> gr_handles r' = []"
proof (cases "gr_base r = 0")
  case False
  let ?r = "r\<lparr>gr_window := 0\<rparr>" and ?w = "if gr_window r \<noteq> 0 \<and> gr_mapped r \<noteq> 0 then mem_unmap (gr_window r) (gr_mapped r) w else w"
  have start: "local_ok ev P X B ?r ?w"
  proof (cases "gr_window r = 0")
    case True
    then have "?r = r" "?w = w"
      by simp_all
    then show ?thesis
      using ok by simp
  qed (use unwindowed_ok [OF ok False] in \<open>simp split: if_splits\<close>)
  obtain q v where loop: "reset_loop ev ?r ?w = (q, v)"
    by (cases "reset_loop ev ?r ?w")
  note R = reset_loop_ok [OF start _ _ loop]
  have r': "r' = q\<lparr>gr_base := 0, gr_mapped := 0\<rparr>" "w' = v"
    using run False loop by (simp_all add: region_reset_def)
  have q: "local_ok ev P X B q v" "gr_window q = 0" "gr_handles q = []"
    using R False by simp_all
  then have "gr_mapped q = 0" "placed q = {}"
    by (simp_all add: local_ok_def region_ok_def placed_def chunks_def)
  then show ?thesis
    using q by (simp add: r' local_ok_def region_ok_def area_def placed_def chunks_def host_backed_def)
qed (use assms in \<open>auto simp: region_reset_def local_ok_def region_ok_def area_def\<close>)

text \<open>\<open>ensure\<close> returns, and on success the bytes are backed.\<close>

lemma ensure_loop_ok:
  assumes "local_ok ev P X B r w" "gr_base r \<noteq> 0" "bytes \<le> gr_capacity r"
  shows "\<exists>res r' w'. ensure_loop ev bytes r w = Some (res, r', w') \<and> local_ok ev P X B r' w' \<and> same_frame r r' \<and>
    gr_window r' = gr_window r \<and> gr_mapped r \<le> gr_mapped r' \<and> (res = Inr () \<longrightarrow> bytes \<le> gr_mapped r')"
  using assms
proof (induction "bytes - gr_mapped r" arbitrary: r w rule: less_induct)
  case less
  show ?case
  proof (cases "gr_mapped r < bytes")
    case True
    obtain res q v where grow: "grow_chunk ev bytes r w = (res, q, v)"
      by (cases "grow_chunk ev bytes r w")
    note G = grow_chunk_ok [OF less.prems grow]
    show ?thesis
    proof (cases res)
      case (Inl e)
      then show ?thesis
        using True grow G by (simp add: ensure_loop.simps [of ev bytes r w])
    next
      case (Inr u)
      have g: "0 < gr_granularity r"
        using less.prems(1,2) by (simp add: local_ok_def region_ok_def)
      have q: "gr_mapped q = gr_mapped r + gr_granularity r" "local_ok ev P X B q v" "gr_base q \<noteq> 0" "bytes \<le> gr_capacity q"
        using G Inr True less.prems by (simp_all add: same_frame_def)
      have "bytes - gr_mapped q < bytes - gr_mapped r"
        using q(1) g True by simp
      from less.hyps [OF this q(2-4)] obtain res' r' w' where "ensure_loop ev bytes q v = Some (res', r', w')"
          "local_ok ev P X B r' w'" "same_frame q r'" "gr_window r' = gr_window q" "gr_mapped q \<le> gr_mapped r'" "res' = Inr () \<longrightarrow> bytes \<le> gr_mapped r'"
        by blast
      then show ?thesis
        using True grow Inr G q(1) by (simp add: ensure_loop.simps [of ev bytes r w] same_frame_def)
    qed
  next
    case False
    then show ?thesis
      using less.prems by (simp add: ensure_loop.simps [of ev bytes r w])
  qed
qed

lemma ensure_ok:
  assumes "local_ok ev P X B r w" "gr_base r \<noteq> 0"
  shows "\<exists>res r' w'. ensure ev bytes r w = Some (res, r', w') \<and> local_ok ev P X B r' w' \<and> same_frame r r' \<and>
    gr_window r' = gr_window r \<and> gr_mapped r \<le> gr_mapped r' \<and> (res = Inr () \<longrightarrow> min (round_up (gr_granularity r) bytes) (gr_capacity r) \<le> gr_mapped r')"
  using ensure_loop_ok [OF assms, of "min (round_up (gr_granularity r) bytes) (gr_capacity r)"] assms(2) by (simp add: ensure_def)


section \<open>The pool and its worker\<close>

text \<open>What the regions see of the world stays as it is.\<close>

definition world_kept :: "driver_env \<Rightarrow> nat multiset \<Rightarrow> chunk_world \<Rightarrow> chunk_world \<Rightarrow> bool" where
  "world_kept ev X w w' \<longleftrightarrow> pairs w' = pairs w \<and> hl_plane_bytes w' = hl_plane_bytes w \<and>
     (conserved X w \<and> pool_ok ev w \<longrightarrow> conserved X w' \<and> pool_ok ev w')"

lemma fold_mem_release: "fold mem_release hs w = w\<lparr>vm_released := vm_released w @ hs\<rparr>"
  by (induction hs arbitrary: w) (simp_all add: mem_release_def)

lemma release_host_pool_kept: "world_kept ev X w (release_host_pool w)"
  by (auto simp: world_kept_def release_host_pool_def fold_mem_release pairs_def conserved_def pool_ok_def union_ac)

lemma driver_call_world: "driver_call ev w = (b, w') \<Longrightarrow> w' = w\<lparr>vm_calls := Suc (vm_calls w)\<rparr>"
  by (simp add: driver_call_def)

lemma top_up_kept: "world_kept ev X w (top_up_host_pool_async ev target r w)"
proof -
  let ?v = "w\<lparr>vm_calls := Suc (vm_calls w)\<rparr>" and ?u = "w\<lparr>vm_calls := Suc (Suc (vm_calls w))\<rparr>"
  let ?s = "?u\<lparr>rf_phase := Refill_start, rf_goal := min target (ev_pool_cap ev) div gr_granularity r,
    rf_granularity := gr_granularity r, rf_location := gr_location r\<rparr>"
  have "top_up_host_pool_async ev target r w \<in> {w, ?v, ?u} \<or>
      top_up_host_pool_async ev target r w = ?s \<and> rf_phase w = Refill_idle"
    by (auto simp: top_up_host_pool_async_def Let_def driver_call_def split: bool.split)
  moreover have "world_kept ev X w ?v" "world_kept ev X w ?u" "world_kept ev X w w"
    by (auto simp: world_kept_def pairs_def conserved_def pool_ok_def)
  moreover have "min target (ev_pool_cap ev) div gr_granularity r * gr_granularity r \<le> ev_pool_cap ev"
    by (rule order_trans [OF div_times_less_eq_dividend]) simp
  then have "world_kept ev X w ?s" if "rf_phase w = Refill_idle"
    using that by (auto simp: world_kept_def pairs_def conserved_def pool_ok_def)
  ultimately show ?thesis
    by fastforce
qed

lemma phase_simps [simp]:
  "pairs (w\<lparr>rf_phase := p\<rparr>) = pairs w" "hl_plane_bytes (w\<lparr>rf_phase := p\<rparr>) = hl_plane_bytes w"
  "conserved X (w\<lparr>rf_phase := Refill_push h\<rparr>) \<longleftrightarrow> conserved (X + {#h#}) (w\<lparr>rf_phase := Refill_idle\<rparr>)"
  by (simp_all add: pairs_def conserved_def)

lemma refill_create_kept:
  assumes "rf_phase w = Refill_create"
  shows "world_kept ev X w (refill_create ev w)"
proof (cases "0 < vm_next w")
  case True
  then show ?thesis
    using assms by (simp add: refill_create_def mem_create_def driver_call_def mem_release_def world_kept_def pairs_def
        conserved_def pool_ok_def created_Suc split: bool.split)
next
  case False
  then have "pairs (refill_create ev w) = pairs w" "hl_plane_bytes (refill_create ev w) = hl_plane_bytes w"
    by (simp_all add: refill_create_def mem_create_def driver_call_def pairs_def split: bool.split)
  then show ?thesis
    using False by (simp add: world_kept_def conserved_def)
qed

lemma refill_push_kept:
  assumes "rf_phase w = Refill_push h"
  shows "world_kept ev X w (refill_push h w)"
proof -
  define v where "v = (if hp_handles w = [] then w\<lparr>hp_granularity := rf_granularity w, hp_location := rf_location w\<rparr> else w)"
  have v: "pairs v = pairs w" "hl_plane_bytes v = hl_plane_bytes w" "conserved X v = conserved X w" "pool_ok ev w \<Longrightarrow> pool_ok ev v" "rf_phase v = Refill_push h"
    using assms by (auto simp: v_def pairs_def conserved_def pool_ok_def)
  have "refill_push h w = (if hp_granularity v \<noteq> rf_granularity v \<or> hp_location v \<noteq> rf_location v then mem_release h v\<lparr>rf_phase := Refill_idle\<rparr>
      else v\<lparr>hp_handles := hp_handles v @ [h], hl_plane_pool_bytes := hl_plane_pool_bytes v + int (rf_granularity v), rf_phase := Refill_check\<rparr>)"
    unfolding refill_push_def Let_def v_def [symmetric] by (rule refl)
  then show ?thesis
    using v by (auto simp: world_kept_def mem_release_def pairs_def conserved_def pool_ok_def algebra_simps)
qed

lemma refill_step_kept: "world_kept ev X w (refill_step ev w)"
proof (cases "rf_phase w")
  case Refill_idle
  then show ?thesis
    by (simp add: refill_step_def world_kept_def)
next
  case Refill_start
  then show ?thesis
    by (auto simp: refill_step_def driver_call_def world_kept_def pairs_def conserved_def pool_ok_def split: bool.split)
next
  case Refill_check
  have "length (hp_handles w) * hp_granularity w \<le> ev_pool_cap ev"
    if "length (hp_handles w) < rf_goal w" "rf_granularity w = hp_granularity w" "rf_goal w * rf_granularity w \<le> ev_pool_cap ev"
    by (rule order_trans [OF mult_le_mono1 [OF less_imp_le [OF that(1)]] that(3) [unfolded that(2)]])
  then show ?thesis
    using Refill_check by (auto simp: refill_step_def world_kept_def pairs_def conserved_def pool_ok_def)
next
  case Refill_create
  then show ?thesis
    using refill_create_kept by (simp add: refill_step_def)
next
  case (Refill_push h)
  then show ?thesis
    using refill_push_kept by (simp add: refill_step_def)
qed


section \<open>The system of regions\<close>

definition counted_bytes :: "region \<Rightarrow> int" where
  "counted_bytes r = (if host_backed r then int (gr_mapped r) else 0)"

definition system_ok :: "driver_env \<Rightarrow> region list \<Rightarrow> chunk_world \<Rightarrow> bool" where
  "system_ok ev rs w \<longleftrightarrow> (\<forall>r \<in> set rs. region_ok r) \<and> sorted_wrt (\<lambda>a b. area a \<inter> area b = {}) rs \<and>
     pairs w = \<Union> (placed ` set rs) \<and> conserved (sum_list (map (mset \<circ> gr_handles) rs)) w \<and> pool_ok ev w \<and>
     hl_plane_bytes w = sum_list (map counted_bytes rs)"

lemma placed_area:
  assumes "region_ok r"
  shows "fst ` placed r \<subseteq> area r"
proof (cases "gr_base r = 0")
  case False
  have facts: "gr_mapped r = length (gr_handles r) * gr_granularity r" "0 < gr_granularity r" "gr_mapped r \<le> gr_capacity r"
    using assms False by (auto simp: region_ok_def)
  have "fst p \<in> {start ..< start + gr_capacity r}" if "p \<in> chunks start r" for p start
    using chunk_key [OF facts(1) that] facts(2,3) by simp
  then show ?thesis
    using False by (auto simp: placed_def area_def split: if_splits)
qed (use assms in \<open>auto simp: region_ok_def placed_def chunks_def\<close>)

text \<open>The system seen from one region: it is a region among the others.\<close>

lemma system_focus:
  assumes "system_ok ev (xs @ r # ys) w"
  shows "local_ok ev (\<Union> (placed ` set (xs @ ys))) (sum_list (map (mset \<circ> gr_handles) (xs @ ys))) (sum_list (map counted_bytes (xs @ ys))) r w"
proof -
  have apart: "area r \<inter> area q = {}" and q: "region_ok q" if "q \<in> set (xs @ ys)" for q
    using assms that by (auto simp: system_ok_def sorted_wrt_append)
  have "fst ` (\<Union> (placed ` set (xs @ ys))) \<inter> area r = {}"
    using apart placed_area [OF q] by blast
  then show ?thesis
    using assms by (simp add: local_ok_def system_ok_def counted_bytes_def union_ac Un_ac)
qed

lemma system_update:
  assumes sys: "system_ok ev (xs @ r # ys) w"
    and loc: "local_ok ev (\<Union> (placed ` set (xs @ ys))) (sum_list (map (mset \<circ> gr_handles) (xs @ ys))) (sum_list (map counted_bytes (xs @ ys))) r' w'"
    and area: "area r' \<subseteq> area r \<union> N" "\<And>q. q \<in> set (xs @ ys) \<Longrightarrow> area q \<inter> N = {}"
  shows "system_ok ev (xs @ r' # ys) w'"
proof -
  have apart: "area q \<inter> area r' = {}" if "q \<in> set (xs @ ys)" for q
  proof -
    have "area q \<inter> area r = {}"
      using sys that by (auto simp: system_ok_def sorted_wrt_append)
    then show ?thesis
      using area that by blast
  qed
  have "sorted_wrt (\<lambda>a b. area a \<inter> area b = {}) (xs @ r' # ys)"
    using sys apart by (auto simp: system_ok_def sorted_wrt_append Int_commute)
  then show ?thesis
    using sys loc by (simp add: local_ok_def system_ok_def counted_bytes_def union_ac Un_ac)
qed

text \<open>
  A step of the system. \<open>grow\<close> is one pass of the loop of \<open>ensure\<close>. The driver reserves a range, and a caller attaches
  a window, that overlaps nothing in use.
\<close>

definition in_use :: "region list \<Rightarrow> nat set" where
  "in_use rs = \<Union> (area ` set rs)"

inductive region_step :: "driver_env \<Rightarrow> region list \<times> chunk_world \<Rightarrow> region list \<times> chunk_world \<Rightarrow> bool" for ev where
  construct: "region_step ev (rs, w) (rs @ [region_new], w)"
| destruct: "region_reset ev r w = (r', w') \<Longrightarrow> region_step ev (xs @ r # ys, w) (xs @ ys, w')"
| reserve: "region_reserve ev capacity host device numa g base r w = (res, r', w') \<Longrightarrow> 0 < g \<Longrightarrow> base \<noteq> 0 \<Longrightarrow>
    {base ..< base + round_up g (max capacity 1)} \<inter> in_use (xs @ r # ys) = {} \<Longrightarrow> region_step ev (xs @ r # ys, w) (xs @ r' # ys, w')"
| grow: "gr_base r \<noteq> 0 \<Longrightarrow> grow_chunk ev (min (round_up (gr_granularity r) bytes) (gr_capacity r)) r w = (res, r', w') \<Longrightarrow>
    region_step ev (xs @ r # ys, w) (xs @ r' # ys, w')"
| shrink: "shrink ev bytes r w = (r', w') \<Longrightarrow> region_step ev (xs @ r # ys, w) (xs @ r' # ys, w')"
| attach: "gr_base r \<noteq> 0 \<Longrightarrow> window \<noteq> 0 \<Longrightarrow> {window ..< window + gr_capacity r} \<inter> in_use (xs @ r # ys) = {} \<Longrightarrow>
    attach_window ev window r w = (res, r', w') \<Longrightarrow> region_step ev (xs @ r # ys, w) (xs @ r' # ys, w')"
| detach: "detach_window r w = (r', w') \<Longrightarrow> region_step ev (xs @ r # ys, w) (xs @ r' # ys, w')"
| reset: "region_reset ev r w = (r', w') \<Longrightarrow> region_step ev (xs @ r # ys, w) (xs @ r' # ys, w')"
| release_pool: "region_step ev (rs, w) (rs, release_host_pool w)"
| top_up: "r \<in> set rs \<Longrightarrow> region_step ev (rs, w) (rs, top_up_host_pool_async ev target r w)"
| refill: "region_step ev (rs, w) (rs, refill_step ev w)"

definition world_new :: chunk_world where
  "world_new = \<lparr>vm_map = (\<lambda>_. None), vm_next = 1, vm_released = [], vm_calls = 0, hp_handles = [], hp_granularity = 0, hp_location = (0, 0),
     hl_plane_bytes = 0, hl_plane_pool_bytes = 0, rf_phase = Refill_idle, rf_goal = 0, rf_granularity = 0, rf_location = (0, 0)\<rparr>"

inductive region_reachable :: "driver_env \<Rightarrow> region list \<times> chunk_world \<Rightarrow> bool" for ev where
  start: "region_reachable ev ([], world_new)"
| more_steps: "region_reachable ev s \<Longrightarrow> region_step ev s s' \<Longrightarrow> region_reachable ev s'"

lemma region_new_ok: "region_ok region_new" "area region_new = {}" "placed region_new = {}" "counted_bytes region_new = 0" "gr_handles region_new = []"
  by (simp_all add: region_new_def region_ok_def area_def placed_def chunks_def counted_bytes_def)

lemma world_new_ok: "system_ok ev [] world_new"
  by (simp add: system_ok_def world_new_def pairs_def conserved_def pool_ok_def created_def)

lemma system_world: "system_ok ev rs w \<Longrightarrow> world_kept ev (sum_list (map (mset \<circ> gr_handles) rs)) w w' \<Longrightarrow> system_ok ev rs w'"
  by (simp add: system_ok_def world_kept_def)

lemma others_area:
  assumes "N \<inter> in_use (xs @ r # ys) = {}" "system_ok ev (xs @ r # ys) w"
  shows "q \<in> set (xs @ ys) \<Longrightarrow> area q \<inter> N = {}" "fst ` (\<Union> (placed ` set (xs @ ys))) \<inter> N = {}" "area r \<inter> N = {}"
proof -
  show apart: "area q \<inter> N = {}" if "q \<in> set (xs @ ys)" for q
    using assms(1) that by (auto simp: in_use_def)
  have "fst ` placed q \<subseteq> area q" if "q \<in> set (xs @ ys)" for q
    using assms(2) that by (intro placed_area) (auto simp: system_ok_def)
  then show "fst ` (\<Union> (placed ` set (xs @ ys))) \<inter> N = {}"
    using apart by blast
  show "area r \<inter> N = {}"
    using assms(1) by (auto simp: in_use_def)
qed

text \<open>
  The contract of an operation on one region: it keeps the region's invariant, whatever the other regions are, and takes
  no addresses but those of \<open>fresh\<close>. Then it keeps the invariant of the system.
\<close>

locale region_operation =
  fixes ev :: driver_env and operation :: "region \<Rightarrow> chunk_world \<Rightarrow> region \<times> chunk_world"
    and admissible :: "region \<Rightarrow> bool" and fresh :: "region \<Rightarrow> nat set"
  assumes keeps: "local_ok ev P X B r w \<Longrightarrow> admissible r \<Longrightarrow> fst ` P \<inter> fresh r = {} \<Longrightarrow> area r \<inter> fresh r = {} \<Longrightarrow>
    operation r w = (r', w') \<Longrightarrow> local_ok ev P X B r' w' \<and> area r' \<subseteq> area r \<union> fresh r"
begin

lemma in_system:
  assumes sys: "system_ok ev (xs @ r # ys) w" and "admissible r" "fresh r \<inter> in_use (xs @ r # ys) = {}" "operation r w = (r', w')"
  shows "system_ok ev (xs @ r' # ys) w'"
proof -
  note O = others_area [OF assms(3) sys]
  note K = keeps [OF system_focus [OF sys] assms(2) O(2,3) assms(4)]
  show ?thesis
    by (rule system_update [OF sys conjunct1 [OF K] conjunct2 [OF K] O(1)])
qed

end

text \<open>The contract of an operation on the pool.\<close>

locale pool_operation =
  fixes ev :: driver_env and operation :: "chunk_world \<Rightarrow> chunk_world"
  assumes keeps: "world_kept ev X w (operation w)"
begin

lemma keeps_system: "system_ok ev rs w \<Longrightarrow> system_ok ev rs (operation w)"
  using keeps system_world by blast

end

interpretation reserving: region_operation ev "\<lambda>r w. snd (region_reserve ev capacity host device numa g base r w)"
    "\<lambda>_. 0 < g \<and> base \<noteq> 0" "\<lambda>_. {base ..< base + round_up g (max capacity 1)}" for ev capacity host device numa g base
proof
  fix P X B r w r' w'
  assume H: "local_ok ev P X B r w" "0 < g \<and> base \<noteq> 0" "fst ` P \<inter> {base ..< base + round_up g (max capacity 1)} = {}"
    and run: "snd (region_reserve ev capacity host device numa g base r w) = (r', w')"
  obtain res where "region_reserve ev capacity host device numa g base r w = (res, r', w')"
    using run by (metis prod.collapse)
  from region_reserve_ok [OF H(1) _ _ H(3) this] H(2)
  show "local_ok ev P X B r' w' \<and> area r' \<subseteq> area r \<union> {base ..< base + round_up g (max capacity 1)}"
    by blast
qed

interpretation growing: region_operation ev "\<lambda>r w. snd (grow_chunk ev (min (round_up (gr_granularity r) bytes) (gr_capacity r)) r w)"
    "\<lambda>r. gr_base r \<noteq> 0" "\<lambda>_. {}" for ev bytes
proof
  fix P X B r w r' w'
  assume H: "local_ok ev P X B r w" "gr_base r \<noteq> 0" and run: "snd (grow_chunk ev (min (round_up (gr_granularity r) bytes) (gr_capacity r)) r w) = (r', w')"
  obtain res where "grow_chunk ev (min (round_up (gr_granularity r) bytes) (gr_capacity r)) r w = (res, r', w')"
    using run by (metis prod.collapse)
  from grow_chunk_ok [OF H _ this] show "local_ok ev P X B r' w' \<and> area r' \<subseteq> area r \<union> {}"
    using area_same_frame [of r r'] by simp
qed

interpretation shrinking: region_operation ev "shrink ev bytes" "\<lambda>_. True" "\<lambda>_. {}" for ev bytes
  by unfold_locales (frule shrink_ok, assumption, simp add: area_same_frame)

interpretation attaching: region_operation ev "\<lambda>r w. snd (attach_window ev window r w)" "\<lambda>r. gr_base r \<noteq> 0 \<and> window \<noteq> 0"
    "\<lambda>r. {window ..< window + gr_capacity r}" for ev window
proof
  fix P X B r w r' w'
  assume H: "local_ok ev P X B r w" "gr_base r \<noteq> 0 \<and> window \<noteq> 0" "fst ` P \<inter> {window ..< window + gr_capacity r} = {}"
      "area r \<inter> {window ..< window + gr_capacity r} = {}"
    and run: "snd (attach_window ev window r w) = (r', w')"
  obtain res where attach: "attach_window ev window r w = (res, r', w')"
    using run by (metis prod.collapse)
  have "{gr_base r ..< gr_base r + gr_capacity r} \<subseteq> area r"
    using H(2) by (simp add: area_def)
  then have "{gr_base r ..< gr_base r + gr_capacity r} \<inter> {window ..< window + gr_capacity r} = {}"
    using H(4) by blast
  from attach_window_ok [OF H(1) _ _ H(3) this attach] H(2)
  show "local_ok ev P X B r' w' \<and> area r' \<subseteq> area r \<union> {window ..< window + gr_capacity r}"
    by blast
qed

interpretation detaching: region_operation ev detach_window "\<lambda>_. True" "\<lambda>_. {}" for ev
  by unfold_locales (frule detach_window_ok, assumption, simp add: area_same_frame)

interpretation resetting: region_operation ev "region_reset ev" "\<lambda>_. True" "\<lambda>_. {}" for ev
  by unfold_locales (frule region_reset_ok, assumption, simp)

interpretation releasing: pool_operation ev release_host_pool for ev
  by unfold_locales (rule release_host_pool_kept)

interpretation topping: pool_operation ev "top_up_host_pool_async ev target r" for ev target r
  by unfold_locales (rule top_up_kept)

interpretation refilling: pool_operation ev "refill_step ev" for ev
  by unfold_locales (rule refill_step_kept)

lemma construct_ok: "system_ok ev rs w \<Longrightarrow> system_ok ev (rs @ [region_new]) w"
  by (auto simp: system_ok_def sorted_wrt_append region_new_ok)

lemma destruct_ok:
  assumes sys: "system_ok ev (xs @ r # ys) w" and run: "region_reset ev r w = (r', w')"
  shows "system_ok ev (xs @ ys) w'"
proof -
  note R = region_reset_ok [OF system_focus [OF sys] run]
  then have "placed r' = {}" "counted_bytes r' = 0"
    by (auto simp: local_ok_def region_ok_def placed_def chunks_def counted_bytes_def)
  then show ?thesis
    using resetting.in_system [OF sys _ _ run] R by (auto simp: system_ok_def sorted_wrt_append)
qed

theorem region_step_ok: "region_step ev s s' \<Longrightarrow> system_ok ev (fst s) (snd s) \<Longrightarrow> system_ok ev (fst s') (snd s')"
proof (induction rule: region_step.induct)
  case (reserve capacity host device numa g base r w res r' w' xs ys)
  then show ?case
    using reserving.in_system [of ev xs r ys w g base capacity host device numa r' w'] by simp
next
  case (grow r bytes w res r' w' xs ys)
  then show ?case
    using growing.in_system [of ev xs r ys w bytes r' w'] by simp
next
  case (shrink bytes r w r' w' xs ys)
  then show ?case
    using shrinking.in_system [of ev xs r ys w bytes r' w'] by simp
next
  case (attach r window xs ys w res r' w')
  then show ?case
    using attaching.in_system [of ev xs r ys w window r' w'] by simp
next
  case (detach r w r' w' xs ys)
  then show ?case
    using detaching.in_system [of ev xs r ys w r' w'] by simp
next
  case (reset r w r' w' xs ys)
  then show ?case
    using resetting.in_system [of ev xs r ys w r' w'] by simp
qed (use construct_ok destruct_ok releasing.keeps_system topping.keeps_system refilling.keeps_system in auto)

lemma region_reachable_ok: "region_reachable ev s \<Longrightarrow> system_ok ev (fst s) (snd s)"
  by (induction rule: region_reachable.induct) (use world_new_ok region_step_ok in auto)


lemma placed_iff:
  "(a, h) \<in> placed r \<longleftrightarrow> (\<exists>k < length (gr_handles r). gr_handles r ! k = h \<and>
     (a = gr_base r + k * gr_granularity r \<or> gr_window r \<noteq> 0 \<and> a = gr_window r + k * gr_granularity r))"
  by (auto simp: placed_def chunks_def)

text \<open>
  C23. In every state reachable by any interleaving of region operations, growth passes and refill steps, under any
  pattern of driver failures: the device mapping is exactly the chunks of the regions, one after the other from the base
  of each region and, mirrored, from its window; every chunk the driver ever created is in exactly one region, in the
  host pool, with the refill worker, or released exactly once; the ledger's plane bytes are the mapped bytes of the
  host-backed regions and its pool bytes those of the pooled chunks; and the pool exceeds its cap by at most one chunk.
\<close>

theorem region_chunks_accounted:
  assumes "region_reachable ev (rs, w)"
  shows "(vm_map w a = Some h \<longleftrightarrow> (\<exists>r \<in> set rs. \<exists>k < length (gr_handles r). gr_handles r ! k = h \<and>
      (a = gr_base r + k * gr_granularity r \<or> gr_window r \<noteq> 0 \<and> a = gr_window r + k * gr_granularity r))) \<and>
    mset (concat (map gr_handles rs) @ hp_handles w @ held_chunks (rf_phase w) @ vm_released w) = mset [1 ..< vm_next w] \<and>
    hl_plane_bytes w = (\<Sum>r \<leftarrow> rs. if host_backed r then int (gr_mapped r) else 0) \<and>
    hl_plane_pool_bytes w = int (length (hp_handles w) * hp_granularity w) \<and>
    length (hp_handles w) * hp_granularity w \<le> ev_pool_cap ev + hp_granularity w"
proof -
  have ok: "system_ok ev rs w"
    using region_reachable_ok [OF assms] by simp
  have "vm_map w a = Some h \<longleftrightarrow> (a, h) \<in> \<Union> (placed ` set rs)"
    using ok by (auto simp: system_ok_def pairs_def)
  moreover have "mset (concat (map gr_handles rs)) = sum_list (map (mset \<circ> gr_handles) rs)"
    by (induction rs) simp_all
  then have "mset (concat (map gr_handles rs) @ hp_handles w @ held_chunks (rf_phase w) @ vm_released w) = mset [1 ..< vm_next w]"
    using ok by (simp add: system_ok_def conserved_def created_def union_ac del: mset_upt)
  moreover have "sum_list (map counted_bytes rs) = (\<Sum>r \<leftarrow> rs. if host_backed r then int (gr_mapped r) else 0)"
    by (induction rs) (simp_all add: counted_bytes_def)
  ultimately show ?thesis
    using ok by (simp add: placed_iff system_ok_def pool_ok_def)
qed

text \<open>
  In every reachable state \<open>ensure\<close> on a reserved region returns, whatever the driver does, keeps the invariant, and on success
  at least the requested bytes, up to the capacity, are backed.
\<close>

theorem ensure_backs_bytes:
  assumes "region_reachable ev (xs @ r # ys, w)" "gr_base r \<noteq> 0"
  obtains res r' w' where "ensure ev bytes r w = Some (res, r', w')" "system_ok ev (xs @ r' # ys) w'"
    "res = Inr () \<Longrightarrow> min (round_up (gr_granularity r) bytes) (gr_capacity r) \<le> length (gr_handles r') * gr_granularity r'"
proof -
  have sys: "system_ok ev (xs @ r # ys) w"
    using region_reachable_ok [OF assms(1)] by simp
  from ensure_ok [OF system_focus [OF sys] assms(2), of bytes] obtain res r' w' where E:
      "ensure ev bytes r w = Some (res, r', w')" "same_frame r r'" "gr_window r' = gr_window r"
      "local_ok ev (\<Union> (placed ` set (xs @ ys))) (sum_list (map (mset \<circ> gr_handles) (xs @ ys))) (sum_list (map counted_bytes (xs @ ys))) r' w'"
      "res = Inr () \<longrightarrow> min (round_up (gr_granularity r) bytes) (gr_capacity r) \<le> gr_mapped r'"
    by blast
  have "system_ok ev (xs @ r' # ys) w'"
    using E(2,3) area_same_frame [of r r'] by (intro system_update [OF sys E(4), where N = "{}"]) auto
  moreover have "gr_mapped r' = length (gr_handles r') * gr_granularity r'"
    using E(4) by (simp add: local_ok_def region_ok_def)
  ultimately show ?thesis
    using that E(1,5) by simp
qed

text \<open>A window made for the capacity a region was reserved with, at the same granularity, has the region's capacity.\<close>

lemma window_covers_region:
  assumes "region_reserve ev capacity host device numa g base r w = (Inr (), r', w')" "0 < g"
    and "region_window_new ev' capacity g base' v = (Inr win, v')"
  shows "rw_capacity win = gr_capacity r'"
  using assms by (auto simp: region_reserve_def region_window_new_def driver_call_def Let_def round_up_def split: if_splits bool.splits)

section \<open>A run that exceeds the pool's cap\<close>

text \<open>
  With a cap of one chunk: the worker finds the pool empty and goes on to create a chunk; a shrink fills the pool; the
  worker adds its chunk without looking at the cap again.
\<close>

definition demo_env :: driver_env where
  "demo_env = \<lparr>ev_works = (\<lambda>_. True), ev_available = (\<lambda>_. Some 20000000000), ev_pool_cap = 1\<rparr>"

definition demo_region :: "nat list \<Rightarrow> region" where
  "demo_region hs = \<lparr>gr_base = 8, gr_window = 0, gr_capacity = 1, gr_granularity = 1, gr_mapped = length hs, gr_location = (2, 0), gr_handles = hs\<rparr>"

definition demo_world :: "nat \<Rightarrow> nat \<Rightarrow> nat option \<Rightarrow> nat list \<Rightarrow> refill_phase \<Rightarrow> chunk_world" where
  "demo_world calls nxt mapped pool phase =
     \<lparr>vm_map = (\<lambda>a. if a = 8 then mapped else None), vm_next = nxt, vm_released = [], vm_calls = calls, hp_handles = pool,
       hp_granularity = (if pool = [] then 0 else 1), hp_location = (if pool = [] then (0, 0) else (2, 0)),
       hl_plane_bytes = (if mapped = None then 0 else 1), hl_plane_pool_bytes = int (length pool), rf_phase = phase,
       rf_goal = (if phase = Refill_idle then 0 else 1), rf_granularity = (if phase = Refill_idle then 0 else 1),
       rf_location = (if phase = Refill_idle then (0, 0) else (2, 0))\<rparr>"

lemmas demo_defs = demo_env_def demo_region_def demo_world_def driver_call_def Let_def

lemma demo_steps:
  "region_reserve demo_env 1 True 0 (- 1) 1 8 region_new world_new = (Inr (), demo_region [], demo_world 3 1 None [] Refill_idle)"
  "grow_chunk demo_env (min (round_up (gr_granularity (demo_region [])) 1) (gr_capacity (demo_region []))) (demo_region []) (demo_world 3 1 None [] Refill_idle) =
     (Inr (), demo_region [1], demo_world 6 2 (Some 1) [] Refill_idle)"
  "top_up_host_pool_async demo_env 1 (demo_region [1]) (demo_world 6 2 (Some 1) [] Refill_idle) = demo_world 8 2 (Some 1) [] Refill_start"
  "refill_step demo_env (demo_world 8 2 (Some 1) [] Refill_start) = demo_world 10 2 (Some 1) [] Refill_check"
  "refill_step demo_env (demo_world 10 2 (Some 1) [] Refill_check) = demo_world 10 2 (Some 1) [] Refill_create"
  "shrink demo_env 0 (demo_region [1]) (demo_world 10 2 (Some 1) [] Refill_create) = (demo_region [], demo_world 11 2 None [1] Refill_create)"
  "refill_step demo_env (demo_world 11 2 None [1] Refill_create) = demo_world 14 3 None [1] (Refill_push 2)"
  "refill_step demo_env (demo_world 14 3 None [1] (Refill_push 2)) = demo_world 14 3 None [1, 2] Refill_check"
proof -
  show "region_reserve demo_env 1 True 0 (- 1) 1 8 region_new world_new = (Inr (), demo_region [], demo_world 3 1 None [] Refill_idle)"
    by (simp add: demo_defs region_reserve_def region_new_def world_new_def round_up_def LOCATION_HOST_def fun_eq_iff)
  show "grow_chunk demo_env (min (round_up (gr_granularity (demo_region [])) 1) (gr_capacity (demo_region []))) (demo_region []) (demo_world 3 1 None [] Refill_idle) =
     (Inr (), demo_region [1], demo_world 6 2 (Some 1) [] Refill_idle)"
    by (simp add: demo_defs grow_chunk_def take_pooled_def mem_create_def mem_map_def map_window_def add_plane_bytes_def host_backed_def
        LOCATION_DEVICE_def round_up_def fun_eq_iff)
  show "top_up_host_pool_async demo_env 1 (demo_region [1]) (demo_world 6 2 (Some 1) [] Refill_idle) = demo_world 8 2 (Some 1) [] Refill_start"
    by (simp add: demo_defs top_up_host_pool_async_def host_backed_def LOCATION_DEVICE_def kExl3HostReliefBytes_def)
  show "refill_step demo_env (demo_world 8 2 (Some 1) [] Refill_start) = demo_world 10 2 (Some 1) [] Refill_check"
    by (simp add: demo_defs refill_step_def)
  show "refill_step demo_env (demo_world 10 2 (Some 1) [] Refill_check) = demo_world 10 2 (Some 1) [] Refill_create"
    by (simp add: demo_defs refill_step_def)
  show "shrink demo_env 0 (demo_region [1]) (demo_world 10 2 (Some 1) [] Refill_create) = (demo_region [], demo_world 11 2 None [1] Refill_create)"
    by (simp add: demo_defs shrink_def shrink_loop.simps drop_chunk_def mem_unmap_def give_back_def pool_matches_def add_plane_bytes_def host_backed_def
        LOCATION_DEVICE_def kExl3HostReliefBytes_def round_up_def fun_eq_iff)
  show "refill_step demo_env (demo_world 11 2 None [1] Refill_create) = demo_world 14 3 None [1] (Refill_push 2)"
    by (simp add: demo_defs refill_step_def refill_create_def mem_create_def)
  show "refill_step demo_env (demo_world 14 3 None [1] (Refill_push 2)) = demo_world 14 3 None [1, 2] Refill_check"
    by (simp add: demo_defs refill_step_def refill_push_def)
qed

lemma demo_reachable: "region_reachable demo_env ([demo_region []], demo_world 14 3 None [1, 2] Refill_check)"
proof -
  note go = region_reachable.more_steps
  note refill = region_step.refill
  have new: "region_reachable demo_env ([region_new], world_new)"
    using go [OF region_reachable.start region_step.construct] by simp
  have "region_step demo_env ([region_new], world_new) ([demo_region []], demo_world 3 1 None [] Refill_idle)"
    using region_step.reserve [OF demo_steps(1), of "[]" "[]"] by (simp add: in_use_def region_new_ok)
  then have reserved: "region_reachable demo_env ([demo_region []], demo_world 3 1 None [] Refill_idle)"
    by (rule go [OF new])
  have "gr_base (demo_region []) \<noteq> 0"
    by (simp add: demo_region_def)
  from region_step.grow [OF this demo_steps(2), of "[]" "[]"]
  have grown: "region_reachable demo_env ([demo_region [1]], demo_world 6 2 (Some 1) [] Refill_idle)"
    unfolding append_Nil by (rule go [OF reserved])
  have "region_reachable demo_env ([demo_region [1]], demo_world 8 2 (Some 1) [] Refill_start)"
    using go [OF grown region_step.top_up [where r = "demo_region [1]" and target = 1]] unfolding demo_steps(3) by simp
  then have "region_reachable demo_env ([demo_region [1]], demo_world 10 2 (Some 1) [] Refill_check)"
    using go [OF _ refill] by (metis demo_steps(4))
  then have "region_reachable demo_env ([demo_region [1]], demo_world 10 2 (Some 1) [] Refill_create)"
    using go [OF _ refill] by (metis demo_steps(5))
  moreover note region_step.shrink [OF demo_steps(6), of "[]" "[]"]
  ultimately have "region_reachable demo_env ([demo_region []], demo_world 11 2 None [1] Refill_create)"
    unfolding append_Nil by (rule go)
  then have "region_reachable demo_env ([demo_region []], demo_world 14 3 None [1] (Refill_push 2))"
    using go [OF _ refill] by (metis demo_steps(7))
  then show ?thesis
    using go [OF _ refill] by (metis demo_steps(8))
qed

text \<open>The pool's cap is a bound on what shrinking adds, not on the pool.\<close>

lemma pool_exceeds_cap:
  "\<exists>rs w. region_reachable demo_env (rs, w) \<and> ev_pool_cap demo_env < length (hp_handles w) * hp_granularity w"
  by (intro exI [of _ "[demo_region []]"] exI [of _ "demo_world 14 3 None [1, 2] Refill_check"])
    (use demo_reachable in \<open>simp add: demo_env_def demo_world_def\<close>)

theorem region_chunks_accounted_witness:
  "region_reachable demo_env ([demo_region []], demo_world 14 3 None [1, 2] Refill_check) \<and>
   vm_map (demo_world 14 3 None [1, 2] Refill_check) 8 \<noteq> Some 1 \<and>
   mset (hp_handles (demo_world 14 3 None [1, 2] Refill_check)) = mset [1 ..< 3]"
  using demo_reachable region_chunks_accounted [OF demo_reachable, of 8 1] by (simp add: demo_region_def demo_world_def)

end
