(* ===== verification/Spec2Isabelle.thy ===== *)
theory Spec2Isabelle
  imports Retirement Dependency_Graph Resident_Ranges Token_History Owner_Ledger VeriCache_Queue
    Ready_Authority Resource_Inventory Suffix_Proposer Response_Store Owning_Handles Batched_Verify Sha256 Completion_Event_Pool
    Host_KV_Arena Device_KV_Transfer Execution_Tables Request_Sampling Reserved_Payload Growable_Region
begin

text \<open>
  \<^bold>\<open>Verification development of VoidInfer\<close>, a single-node inference engine for quantised language models
  in C++ and CUDA. A request enters through the HTTP server (\<open>src/serve\<close>), is turned into tokens by the
  frontend (\<open>src/targets\<close>), runs on one of a few lanes of the engine core (\<open>src/exl3\<close>), which stores its keys
  and values in pages of device and host memory (\<open>src/core\<close>), and its text goes back through the tool-call
  filter and the response store of the server. The kernels compute the numbers. What decides whether a number
  is computed from the right memory, at the right time, for the right request is host code: owners, leases,
  generations, queues, arenas and graphs. That host code is the subject of this development.

  \<^bold>\<open>Conventions.\<close> A C++ object is a \<open>record\<close>, a member function that changes it is a function that returns
  the changed object, a thrown exception or a refusal is a value of the sum type \<open>exn + _\<close> (or the Boolean or
  optional the code returns), and \<open>std::terminate\<close> is an outcome of its own. After an exception the state is
  the one the code leaves behind. Counters that wrap or are tested against their limit are words of their
  width (\<open>u8\<close>, \<open>u32\<close>, \<open>u64\<close>); an index or a count that the object's own checks keep inside its array is a \<open>nat\<close>.
  Pointers to slots of an array are indices. Code outside the repository's sources (the CUDA runtime, the
  clock, JSON values) is a parameter.

  \<^bold>\<open>The library.\<close> \<open>Voidinfer_Prelude\<close> holds the exceptions, the word types, the lemmas on lists and words and
  the contracts that the components share, as locales. \<open>call_system\<close>: every public call keeps an invariant.
  \<open>generation_system\<close>: in addition a number never falls. \<open>credential_system\<close>: and a successful call returns a
  credential larger than all earlier ones. \<open>sticky_system\<close>: a condition, once true, stays true under all
  calls. \<open>selection\<close>: a fold that keeps the preferred of two candidates returns a preferred one of all. They
  are interpreted on the retirement state and the final-use witness (\<open>Retirement\<close>), the dependency graph,
  the owner ledger, the request queue, the snapshot authority, the event pool, the host arena, the clients of
  the page pools, the execution tables, the request sampler, the payload tracker and the byte ledger, and
  \<open>selection\<close> on the four orders of \<open>Ready_Selection\<close> and the later of two events. More contracts are
  local to their component: \<open>bump_allocator\<close> (\<open>Device_Memory\<close>, by the layout builder and by the arena),
  \<open>owning_handle\<close> (\<open>Owning_Handles\<close>, by device buffers, arenas and pinned host buffers), \<open>token_record\<close>
  (\<open>Token_History\<close>), and \<open>region_operation\<close> and \<open>pool_operation\<close> (\<open>Growable_Region\<close>, by the six operations on a
  region and the three on the chunk pool).

  \<^bold>\<open>Lifetimes and dependencies (\<open>src/exl3\<close>).\<close>
  \<^item> \<open>Retirement\<close>: \<open>retirement_state.h\<close>. A bundle is reusable exactly when its calls reported a clean drain and no
    cleanup error, and a reported error is never forgotten; a final-use generation is never reissued.
  \<^item> \<open>Dependency_Graph\<close>: \<open>execution_dependency_graph.h\<close>. The bit-mask search decides reachability, so an edge is
    refused exactly when it closes a cycle; owners are released only after the final event.
  \<^item> \<open>Owner_Ledger\<close>: \<open>owner_ledger_reference.h\<close>. By the calls that took effect, an allocation is charged until it is retired
    with success and its references are released, and for ever after another outcome; the snapshot counts it.
  \<^item> \<open>Completion_Event_Pool\<close>: \<open>request_completion_event_pool.h\<close>. A ticket is the only one recognised under its
    generation, and a generation is reported ready only after its event has completed.
  \<^item> \<open>Resource_Inventory\<close>: \<open>resource_inventory.h\<close>. Batched and single additions agree; a union charges every
    physical identity once.
  \<^item> \<open>Resident_Ranges\<close>: \<open>merge_resident_ranges.h\<close>. Union and difference of address ranges, in place and without
    allocation, denote union and difference of address sets.
  \<^item> \<open>Reserved_Payload\<close>: \<open>reserved_host_payload_union.h\<close> and \<open>retained_descriptor_ledger.h\<close>, on top of the resident
    ranges. The bytes still to be reserved count every address of a live payload once; tracking adds exactly the
    addresses of its payload; page bytes are the pages that
    hold a payload byte; a ledger holds the sum of its tickets.

  \<^bold>\<open>Requests and scheduling (\<open>src/exl3\<close>).\<close>
  \<^item> \<open>VeriCache_Queue\<close>: \<open>vericache_queue.h\<close>. Round-robin leasing with bounded waiting; publications follow the
    parent revision.
  \<^item> \<open>Ready_Selection\<close>, \<open>Ready_Authority\<close>: \<open>ready_work_descriptor.h\<close>. The choice of the next lane is optimal in
    its lexicographic order; a deferral is bounded; a grant is given only for the newest ticket of a lane with
    nothing changed since.
  \<^item> \<open>Batched_Verify\<close>: \<open>batched_verify_coordinator.h\<close>. The gates are threads with a step relation
    (\<open>coord_reachable\<close>): groups are exclusive, nobody is stuck, every member is verified and drafted once in stream order.
  \<^item> \<open>Token_History\<close>: \<open>token_history.h\<close>. The persistent radix tree of token pages refines a list.
  \<^item> \<open>Request_Sampling\<close>: \<open>request_sampling_state.h\<close>, \<open>sampling_window_transaction.h\<close> and
    \<open>sampling_control_stop_semantics.h\<close>. Committed tokens consume one random stream in order, whatever was
    speculated and rolled back.
  \<^item> \<open>Suffix_Proposer\<close>: \<open>suffix_proposer.h\<close>. A proposal is a continuation found in the retained history, and
    occurrences among the visited candidates are found.

  \<^bold>\<open>Memory (\<open>src/core\<close>).\<close>
  \<^item> \<open>Tensors\<close>: \<open>tensor\<close> and \<open>dtype\<close>. Every operation succeeds on its exact conditions, and every element of its result is the
    element of the tensor it should be; elements of a constructed tensor are disjoint and inside its bytes.
  \<^item> \<open>Device_Memory\<close>: \<open>layout\<close> and \<open>arena\<close>. Regions and spans live at the same time are disjoint and aligned;
    an arena of the size the dry run computed places every allocation where the dry run did.
  \<^item> \<open>Owning_Handles\<close>: the move-only owners of \<open>arena\<close>. Every allocation is freed at most once and never lost.
  \<^item> \<open>Host_KV_Layout\<close>: the planners of \<open>host_kv_arena\<close> and \<open>transfer_work.h\<close>. Planes are packed disjointly inside
    the stride; the transfer counters are the copies that are issued.
  \<^item> \<open>Host_KV_Arena\<close>: the arena of \<open>host_kv_arena\<close>. Active blocks and free extents tile the memory; a planned
    recipe is applied as planned; descriptors never run out.
  \<^item> \<open>Device_KV_Pool\<close>: the operations of \<open>DeviceKVPagePool\<close> in \<open>paged_kv_cache\<close>, with its free runs, and the
    reference that says where pages are placed. \<open>Device_KV_System\<close>: pools with the leases and reservations of their
    clients; every page in use has exactly one lease, the counters are exact, and \<open>materialize\<close> places pages as the
    reference says. \<open>Device_KV_Transfer\<close>: the commands of \<open>zero_pages\<close> and \<open>copy_page\<close> touch exactly the bytes of the
    named pages.
  \<^item> \<open>Execution_Tables\<close>: \<open>KVExecutionTablePool\<close> of \<open>paged_kv_cache\<close>. All three publications record the physical indices
    of valid pages, and through any order of the asynchronous copies the device table ends up with them; a publication that throws half-way is the exception, and is
    shown to leak.
  \<^item> \<open>Growable_Region\<close>: \<open>src/exl3/growable_device_region.h\<close>. Under any driver failures and any interleaving with the
    refill worker the device mapping is exactly the chunks of the regions and their mirrors, and every chunk is held
    once or released once; the pool's cap can be exceeded by one chunk.

  \<^bold>\<open>Serving.\<close>
  \<^item> \<open>Tool_Calls\<close>: \<open>src/serve/tool_call_parser.cpp\<close>. The stream filter emits, for every chunking, the content the
    parser returns for the whole text.
  \<^item> \<open>Response_Store\<close>: \<open>src/serve/response_store.cpp\<close>. Both limits, the byte accounts, eviction and shared
    context chains.
  \<^item> \<open>Sha256\<close>: \<open>src/targets/qwen3_6/impl/frontend/digest.cpp\<close>. The digest is the one FIPS 180-4 defines, which
    is written out with its own constants, functions and byte order.

  \<^bold>\<open>Loops, bounds and fuel.\<close> Loops over a structure are structural. Two loops have fuel:
  \<open>equals_loop\<close> and \<open>common_prefix_loop\<close> of \<open>Token_History\<close>, one more than the tokens to compare; every page they visit holds
  at least one token, so that the fuel does not run out (\<open>comparisons_correct\<close>). The others are \<open>function\<close>s with a measure: \<open>reaches_loop\<close> (nodes not yet visited), \<open>compact_loop\<close> and
  \<open>draft_chunks\<close> (elements left), \<open>full_blocks\<close> (bytes left), \<open>copy_rows\<close> (tokens left), \<open>grow_root\<close> (distance of
  the root's capacity from the extent), \<open>parse_parameters\<close>, \<open>parse_blocks\<close> and \<open>feed_loop\<close> (characters left), \<open>page_runs\<close> (pages left),
  \<open>uncovered\<close> (ranges left), \<open>shrink_loop\<close> and \<open>reset_loop\<close> (chunks left). The growth loop of \<open>ensure\<close> would run forever
  with a granularity of zero; it is a \<open>partial_function (option)\<close>, and \<open>ensure_backs_bytes\<close> shows that it returns on every
  reachable region. The eviction loop
  of the response store could run forever on a broken store; it is a \<open>partial_function (option)\<close>, and
  \<open>put_returns_within_limits\<close> shows that it returns on every store reachable from the empty one. The suffix proposer
  visits at most 64 candidates because the code does; its completeness statement says so.

  \<^bold>\<open>Not modelled, and why.\<close> The CUDA kernels and the model's forward pass (\<open>text_model.cu\<close>, \<open>linear_cuda.cu\<close>,
  \<open>full_attention_layer.cu\<close>, \<open>gdn_layer.cu\<close>, \<open>dflash2_draft.cu\<close>, \<open>src/ops\<close>): floating-point device code. The engine
  core, the request and the serving coordinator that drive them: their effects are almost entirely device
  launches; the queue, the gates, the ledger and the graph they call are modelled. The frontend's tokenizer,
  templates and media decoding, and the HTTP transport and schemas: third-party parsers and formats. The device
  page, prefix and registration caches: templates over the serving coordinator. The transfers of page contents
  between host and device (\<open>copy_to_host\<close>, \<open>copy_from_host\<close>) appear as counted work in \<open>Host_KV_Layout\<close>, not as
  bytes, because they convert between storage formats on the device. Spilling and page locking: calls of the
  operating system.
\<close>

end
